(* ===== verification/Prelude.thy ===== *)
theory Prelude
  imports Main "HOL-Library.Word"
begin

section \<open>Shared vocabulary: machine types, flat memory, byte strings\<close>

text \<open>
  This theory holds what every component of the library model shares: names for the C
  integer types at their x86-64 width, the conversions between them, a flat byte memory with
  the two ways the code reads it (a counted run of bytes, a NUL-terminated string), and the
  generic lemmas about writing runs of bytes. An address is a natural number; the null
  pointer is address 0. Reading memory never faults in this model, so a loop that runs past
  the end of an object shows up as a loop that does not stop (the value \<^term>\<open>None\<close>), never
  as a made-up result.
\<close>

unbundle bit_operations_syntax

named_theorems mem_simps \<open>rewriting of reads after writes\<close>
named_theorems c_consts \<open>values of the constants the headers define\<close>

type_synonym byte = "8 word"
type_synonym u32 = "32 word"
type_synonym u64 = "64 word"
type_synonym addr = nat
type_synonym mem = "addr \<Rightarrow> byte"

abbreviation (input) null_ptr :: addr where "null_ptr \<equiv> 0"

text \<open>A C character constant, at the integer type its context wants.\<close>

abbreviation ch :: "char \<Rightarrow> 'a::comm_semiring_1" where
  "ch c \<equiv> of_char c"

abbreviation bytes_of :: "string \<Rightarrow> byte list" where
  "bytes_of s \<equiv> map of_char s"

text \<open>Conversions: \<open>(unsigned char)c\<close>, and an \<open>int\<close> back from an unsigned char.\<close>

definition uchar :: "int \<Rightarrow> byte" where
  "uchar c = word_of_int c"

abbreviation int_of_byte :: "byte \<Rightarrow> int" where
  "int_of_byte b \<equiv> uint b"

text \<open>\<open>EOF\<close> and the \<open>errno\<close> values of \<open>include/errno.h\<close>.\<close>

definition c_EOF :: int where "c_EOF = - 1"
definition EPERM :: int where "EPERM = 1"
definition ENOENT :: int where "ENOENT = 2"
definition ESRCH :: int where "ESRCH = 3"
definition EIO :: int where "EIO = 5"
definition EBADF :: int where "EBADF = 9"
definition ECHILD :: int where "ECHILD = 10"
definition EAGAIN :: int where "EAGAIN = 11"
definition ENOMEM :: int where "ENOMEM = 12"
definition EEXIST :: int where "EEXIST = 17"
definition ENOTDIR :: int where "ENOTDIR = 20"
definition EISDIR :: int where "EISDIR = 21"
definition EINVAL :: int where "EINVAL = 22"
definition ENOTTY :: int where "ENOTTY = 25"
definition EFBIG :: int where "EFBIG = 27"
definition EPIPE :: int where "EPIPE = 32"
definition EDOM :: int where "EDOM = 33"
definition ERANGE :: int where "ERANGE = 34"
definition EILSEQ :: int where "EILSEQ = 84"

lemmas errno_defs [c_consts] =
  EPERM_def ENOENT_def ESRCH_def EIO_def EBADF_def ECHILD_def EAGAIN_def ENOMEM_def EEXIST_def
  ENOTDIR_def EISDIR_def EINVAL_def ENOTTY_def EFBIG_def EPIPE_def EDOM_def ERANGE_def
  EILSEQ_def c_EOF_def

text \<open>\<open>INT_MAX\<close>, \<open>LONG_MAX\<close> and \<open>ULONG_MAX\<close> of the LP64 target.\<close>

definition INT_MAX :: int where "INT_MAX = 2 ^ 31 - 1"
definition INT_MIN :: int where "INT_MIN = - (2 ^ 31)"
definition LONG_MAX :: int where "LONG_MAX = 2 ^ 63 - 1"
definition LONG_MIN :: int where "LONG_MIN = - (2 ^ 63)"

lemmas int_limits [c_consts] = INT_MAX_def INT_MIN_def LONG_MAX_def LONG_MIN_def

subsection \<open>Flat memory\<close>

fun write_bytes :: "mem \<Rightarrow> addr \<Rightarrow> byte list \<Rightarrow> mem" where
  "write_bytes m a [] = m"
| "write_bytes m a (x # xs) = write_bytes (m(a := x)) (Suc a) xs"

definition read_bytes :: "mem \<Rightarrow> addr \<Rightarrow> nat \<Rightarrow> byte list" where
  "read_bytes m a n = map (\<lambda>i. m (a + i)) [0..<n]"

text \<open>\<open>cstr_at m a xs\<close>: at \<open>a\<close> stands the string with the bytes \<open>xs\<close>, none of them NUL,
  closed by a NUL byte.\<close>

fun cstr_at :: "mem \<Rightarrow> addr \<Rightarrow> byte list \<Rightarrow> bool" where
  "cstr_at m a [] = (m a = 0)"
| "cstr_at m a (x # xs) = (m a = x \<and> x \<noteq> 0 \<and> cstr_at m (Suc a) xs)"

text \<open>Two runs of bytes of the given lengths share no address.\<close>

definition disjoint_runs :: "addr \<Rightarrow> nat \<Rightarrow> addr \<Rightarrow> nat \<Rightarrow> bool" where
  "disjoint_runs a n b k = (a + n \<le> b \<or> b + k \<le> a)"

lemma length_read_bytes [simp]: "length (read_bytes m a n) = n"
  by (simp add: read_bytes_def)

lemma nth_read_bytes [simp]: "i < n \<Longrightarrow> read_bytes m a n ! i = m (a + i)"
  by (simp add: read_bytes_def)

lemma read_bytes_0 [simp]: "read_bytes m a 0 = []"
  by (simp add: read_bytes_def)

lemma read_bytes_Suc: "read_bytes m a (Suc n) = m a # read_bytes m (Suc a) n"
  by (rule nth_equalityI) (auto simp: nth_Cons split: nat.split)

lemma read_bytes_snoc: "read_bytes m a (Suc n) = read_bytes m a n @ [m (a + n)]"
  by (simp add: read_bytes_def)

lemma write_bytes_outside [mem_simps]:
  "p < a \<or> a + length xs \<le> p \<Longrightarrow> write_bytes m a xs p = m p"
  by (induction xs arbitrary: m a) auto

lemma write_bytes_inside [mem_simps]:
  "i < length xs \<Longrightarrow> write_bytes m a xs (a + i) = xs ! i"
proof (induction xs arbitrary: m a i)
  case (Cons x xs)
  show ?case
  proof (cases i)
    case 0
    then show ?thesis by (simp add: write_bytes_outside)
  next
    case (Suc j)
    with Cons.prems have "j < length xs" by simp
    then have "write_bytes (m(a := x)) (Suc a) xs (Suc a + j) = xs ! j" by (rule Cons.IH)
    with Suc show ?thesis by simp
  qed
qed simp

lemma write_bytes_apply:
  "write_bytes m a xs p = (if a \<le> p \<and> p < a + length xs then xs ! (p - a) else m p)"
  using write_bytes_inside [of "p - a" xs m a] by (auto simp: write_bytes_outside)

lemma write_bytes_append:
  "write_bytes m a (xs @ ys) = write_bytes (write_bytes m a xs) (a + length xs) ys"
  by (induction xs arbitrary: m a) simp_all

lemma write_bytes_snoc:
  "write_bytes m a (xs @ [x]) = (write_bytes m a xs)(a + length xs := x)"
  by (simp add: write_bytes_append)

lemma write_bytes_upd_outside:
  "p < a \<or> a + length xs \<le> p \<Longrightarrow> write_bytes (m(p := x)) a xs = (write_bytes m a xs)(p := x)"
  by (rule ext) (auto simp: write_bytes_apply)

lemma read_write_same [mem_simps]: "read_bytes (write_bytes m a xs) a (length xs) = xs"
  by (rule nth_equalityI) (simp_all add: write_bytes_inside)

lemma read_bytes_cong:
  "(\<And>i. i < n \<Longrightarrow> m (a + i) = m' (a + i)) \<Longrightarrow> read_bytes m a n = read_bytes m' a n"
  by (simp add: read_bytes_def)

lemma read_write_disjoint [mem_simps]:
  "disjoint_runs b n a (length xs) \<Longrightarrow> read_bytes (write_bytes m a xs) b n = read_bytes m b n"
  by (rule read_bytes_cong) (auto simp: disjoint_runs_def write_bytes_apply)

lemma cstr_at_iff:
  "cstr_at m a xs \<longleftrightarrow> (\<forall>i < length xs. m (a + i) = xs ! i \<and> xs ! i \<noteq> 0) \<and> m (a + length xs) = 0"
proof (induction xs arbitrary: a)
  case (Cons x xs)
  show ?case
    by (simp add: Cons.IH All_less_Suc2 conj_assoc)
qed simp

lemma cstr_at_cong:
  "(\<And>i. i \<le> length xs \<Longrightarrow> m (a + i) = m' (a + i)) \<Longrightarrow> cstr_at m a xs = cstr_at m' a xs"
  by (simp add: cstr_at_iff)

lemma cstr_at_upd_outside [mem_simps]:
  "p < a \<or> a + length xs < p \<Longrightarrow> cstr_at (m(p := x)) a xs = cstr_at m a xs"
  by (rule cstr_at_cong) auto

lemma cstr_at_nth: "cstr_at m a xs \<Longrightarrow> i < length xs \<Longrightarrow> m (a + i) = xs ! i \<and> xs ! i \<noteq> 0"
  by (simp add: cstr_at_iff)

lemma cstr_at_end: "cstr_at m a xs \<Longrightarrow> m (a + length xs) = 0"
  by (simp add: cstr_at_iff)

lemma cstr_at_notin: "cstr_at m a xs \<Longrightarrow> 0 \<notin> set xs"
  by (induction xs arbitrary: a) auto

lemma cstr_at_drop: "cstr_at m a xs \<Longrightarrow> n \<le> length xs \<Longrightarrow> cstr_at m (a + n) (drop n xs)"
  by (auto simp: cstr_at_iff add.assoc)

lemma cstr_at_read: "cstr_at m a xs \<Longrightarrow> read_bytes m a (length xs) = xs"
  by (rule nth_equalityI) (auto simp: cstr_at_iff)

lemma cstr_at_unique: "cstr_at m a xs \<Longrightarrow> cstr_at m a ys \<Longrightarrow> xs = ys"
proof (induction xs arbitrary: a ys)
  case Nil
  then show ?case by (cases ys) auto
next
  case (Cons x xs)
  then show ?case by (cases ys) auto
qed

lemma cstr_at_write:
  "0 \<notin> set xs \<Longrightarrow> cstr_at (write_bytes m a (xs @ [0])) a xs"
  by (auto simp: cstr_at_iff write_bytes_apply nth_append in_set_conv_nth)

lemma cstr_at_write_disjoint:
  "disjoint_runs a (Suc (length xs)) b (length ys) \<Longrightarrow>
   cstr_at (write_bytes m b ys) a xs = cstr_at m a xs"
  by (rule cstr_at_cong) (auto simp: disjoint_runs_def write_bytes_apply)

text \<open>A small unsigned value reads the same as a signed one.\<close>

lemma sint_small_u64: "unat (w :: u64) \<le> 0x7FFFFFFFFFFFFFFF \<Longrightarrow> sint w = int (unat w)"
proof -
  assume "unat w \<le> 0x7FFFFFFFFFFFFFFF"
  then have "uint w \<le> 0x7FFFFFFFFFFFFFFF" by (simp add: unat_eq_nat_uint del: nat_uint_eq)
  then have "signed_take_bit 63 (uint w) = uint w"
    by (intro signed_take_bit_int_eq_self) (auto intro: order_trans [of _ 0])
  then show ?thesis by (simp add: sint_uint)
qed

end
