(* ===== verification/Memory_Ops.thy ===== *)
theory Memory_Ops
  imports Prelude "HOL-Library.List_Lexorder"
begin

section \<open>The memory primitives of string.h\<close>

text \<open>
  \<open>src/string/memory.c\<close>: \<open>memcpy\<close>, \<open>memmove\<close>, \<open>memset\<close>, \<open>memcmp\<close>, \<open>memchr\<close>. Each loop of the
  source is a recursion over its counter, on the flat memory of \<open>Prelude\<close>; the result is the
  new memory together with the returned pointer. \<open>memmove\<close> picks its direction by comparing
  the two addresses, as the code does, and its correctness for overlapping operands is the
  main result of the theory.
\<close>

subsection \<open>Definitions\<close>

text \<open>\<open>for (i = 0; i < n; ++i) d[i] = s[i];\<close> and \<open>for (i = n; i != 0; --i) d[i-1] = s[i-1];\<close>\<close>

function copy_up :: "mem \<Rightarrow> addr \<Rightarrow> addr \<Rightarrow> nat \<Rightarrow> nat \<Rightarrow> mem" where
  "copy_up m d s i n = (if i < n then copy_up (m(d + i := m (s + i))) d s (i + 1) n else m)"
  by pat_completeness auto
termination
  by (relation "measure (\<lambda>(m, d, s, i, n). n - i)") auto

declare copy_up.simps [simp del]

fun copy_down :: "mem \<Rightarrow> addr \<Rightarrow> addr \<Rightarrow> nat \<Rightarrow> mem" where
  "copy_down m d s 0 = m"
| "copy_down m d s (Suc i) = copy_down (m(d + i := m (s + i))) d s i"

definition memcpy :: "mem \<Rightarrow> addr \<Rightarrow> addr \<Rightarrow> nat \<Rightarrow> mem \<times> addr" where
  "memcpy m dest src n = (copy_up m dest src 0 n, dest)"

definition memmove :: "mem \<Rightarrow> addr \<Rightarrow> addr \<Rightarrow> nat \<Rightarrow> mem \<times> addr" where
  "memmove m dest src n =
     (if dest \<le> src then copy_up m dest src 0 n else copy_down m dest src n, dest)"

function fill_up :: "mem \<Rightarrow> addr \<Rightarrow> byte \<Rightarrow> nat \<Rightarrow> nat \<Rightarrow> mem" where
  "fill_up m p b i n = (if i < n then fill_up (m(p + i := b)) p b (i + 1) n else m)"
  by pat_completeness auto
termination
  by (relation "measure (\<lambda>(m, p, b, i, n). n - i)") auto

declare fill_up.simps [simp del]

definition memset :: "mem \<Rightarrow> addr \<Rightarrow> int \<Rightarrow> nat \<Rightarrow> mem \<times> addr" where
  "memset m s c n = (fill_up m s (uchar c) 0 n, s)"

function memcmp_from :: "mem \<Rightarrow> addr \<Rightarrow> addr \<Rightarrow> nat \<Rightarrow> nat \<Rightarrow> int" where
  "memcmp_from m a b i n =
     (if i < n
      then if m (a + i) \<noteq> m (b + i) then int_of_byte (m (a + i)) - int_of_byte (m (b + i))
           else memcmp_from m a b (i + 1) n
      else 0)"
  by pat_completeness auto
termination
  by (relation "measure (\<lambda>(m, a, b, i, n). n - i)") auto

declare memcmp_from.simps [simp del]

definition memcmp :: "mem \<Rightarrow> addr \<Rightarrow> addr \<Rightarrow> nat \<Rightarrow> int" where
  "memcmp m s1 s2 n = memcmp_from m s1 s2 0 n"

function memchr_from :: "mem \<Rightarrow> addr \<Rightarrow> byte \<Rightarrow> nat \<Rightarrow> nat \<Rightarrow> addr" where
  "memchr_from m p target i n =
     (if i < n then if m (p + i) = target then p + i else memchr_from m p target (i + 1) n
      else null_ptr)"
  by pat_completeness auto
termination
  by (relation "measure (\<lambda>(m, p, t, i, n). n - i)") auto

declare memchr_from.simps [simp del]

definition memchr :: "mem \<Rightarrow> addr \<Rightarrow> int \<Rightarrow> nat \<Rightarrow> addr" where
  "memchr m s c n = memchr_from m s (uchar c) 0 n"

subsection \<open>Copying\<close>

text \<open>
  Both loops store the run of bytes that was at the source when the call was made, as long as
  no byte is overwritten before it is read: copying upwards that is so for a destination at or
  below the source, copying downwards for one above it, and both ways for disjoint operands.
\<close>

lemma copy_up_invariant:
  assumes "d \<le> s \<or> s + n \<le> d" and "i \<le> n"
  shows "copy_up (write_bytes m d (read_bytes m s i)) d s i n = write_bytes m d (read_bytes m s n)"
  using assms
proof (induction "n - i" arbitrary: i)
  case 0
  then show ?case by (simp add: copy_up.simps)
next
  case (Suc k)
  then have lt: "i < n" by simp
  let ?m = "write_bytes m d (read_bytes m s i)"
  have "?m (s + i) = m (s + i)"
    using Suc.prems(1) lt by (auto simp: write_bytes_apply)
  then have "?m(d + i := ?m (s + i)) = write_bytes m d (read_bytes m s (i + 1))"
    by (simp add: read_bytes_snoc write_bytes_snoc)
  moreover have "copy_up (write_bytes m d (read_bytes m s (i + 1))) d s (i + 1) n
      = write_bytes m d (read_bytes m s n)"
    using Suc by auto
  ultimately show ?case
    using lt by (subst copy_up.simps) (simp del: fun_upd_apply)
qed

lemma copy_up_write:
  "d \<le> s \<or> s + n \<le> d \<Longrightarrow> copy_up m d s 0 n = write_bytes m d (read_bytes m s n)"
  using copy_up_invariant [of d s n 0 m] by simp

lemma copy_down_invariant:
  assumes "s \<le> d \<or> d + n \<le> s"
  shows "copy_down m d s n = write_bytes m d (read_bytes m s n)"
  using assms
proof (induction n arbitrary: m)
  case (Suc n)
  let ?m = "m(d + n := m (s + n))"
  have *: "read_bytes ?m s n = read_bytes m s n"
    using Suc.prems by (intro read_bytes_cong) auto
  have "copy_down ?m d s n = write_bytes ?m d (read_bytes ?m s n)"
    using Suc by auto
  also have "\<dots> = write_bytes m d (read_bytes m s (Suc n))"
    unfolding * by (simp add: write_bytes_upd_outside read_bytes_snoc write_bytes_snoc)
  finally show ?case by simp
qed simp

lemma memmove_write: "memmove m d s n = (write_bytes m d (read_bytes m s n), d)"
  by (auto simp: memmove_def copy_up_write copy_down_invariant)

lemma memcpy_write:
  "disjoint_runs d n s n \<Longrightarrow> memcpy m d s n = (write_bytes m d (read_bytes m s n), d)"
  by (auto simp: memcpy_def copy_up_write disjoint_runs_def)

lemma fill_up_invariant:
  "i \<le> n \<Longrightarrow> fill_up (write_bytes m p (replicate i b)) p b i n = write_bytes m p (replicate n b)"
proof (induction "n - i" arbitrary: i)
  case 0
  then show ?case by (simp add: fill_up.simps)
next
  case (Suc k)
  then have step: "fill_up (write_bytes m p (replicate (Suc i) b)) p b (Suc i) n
      = write_bytes m p (replicate n b)"
    by (intro Suc.hyps(1)) auto
  have "(write_bytes m p (replicate i b))(p + i := b) = write_bytes m p (replicate (Suc i) b)"
    by (simp only: write_bytes_snoc length_replicate replicate_Suc replicate_append_same [symmetric])
  moreover have "i < n" using Suc.hyps(2) by simp
  ultimately show ?case
    using step by (subst fill_up.simps) (simp del: fun_upd_apply replicate_Suc)
qed

lemma memset_write: "memset m s c n = (write_bytes m s (replicate n (uchar c)), s)"
  using fill_up_invariant [of 0 n m s "uchar c"] by (simp add: memset_def)

subsection \<open>Comparison and search\<close>

lemma append_less_append [simp]: "(xs @ ys < xs @ zs) = (ys < (zs :: 'a::linorder list))"
  by (induction xs) simp_all

lemma memcmp_from_spec:
  assumes "i \<le> n" and "read_bytes m a i = read_bytes m b i"
  shows "(memcmp_from m a b i n < 0 \<longleftrightarrow> read_bytes m a n < read_bytes m b n) \<and>
         (memcmp_from m a b i n = 0 \<longleftrightarrow> read_bytes m a n = read_bytes m b n)"
  using assms
proof (induction "n - i" arbitrary: i)
  case 0
  then show ?case by (simp add: memcmp_from.simps)
next
  case (Suc k)
  then have lt: "i < n" by simp
  have split: "read_bytes m p n = read_bytes m p i @ m (p + i) # read_bytes m (p + Suc i) (n - Suc i)"
    for p using lt by (intro nth_equalityI) (auto simp: nth_append nth_Cons' less_diff_conv)
  show ?case
  proof (cases "m (a + i) = m (b + i)")
    case True
    then have "read_bytes m a (Suc i) = read_bytes m b (Suc i)"
      using Suc.prems(2) by (simp add: read_bytes_snoc)
    with Suc lt True show ?thesis by (subst (1 2) memcmp_from.simps) simp
  next
    case False
    with lt Suc.prems(2) show ?thesis
      by (subst (1 2) memcmp_from.simps)
        (simp add: split [of a] split [of b] word_less_def word_uint_eq_iff)
  qed
qed

lemma memcmp_sign:
  "memcmp m a b n < 0 \<longleftrightarrow> read_bytes m a n < read_bytes m b n"
  "memcmp m a b n = 0 \<longleftrightarrow> read_bytes m a n = read_bytes m b n"
  using memcmp_from_spec [of 0 n m a b] by (simp_all add: memcmp_def)

lemma memcmp_swap: "memcmp m b a n = - memcmp m a b n"
proof -
  have "memcmp_from m b a i n = - memcmp_from m a b i n" for i
    by (induction m a b i n rule: memcmp_from.induct)
      (simp add: memcmp_from.simps [of _ b] memcmp_from.simps)
  then show ?thesis by (simp add: memcmp_def)
qed

lemma memchr_from_spec:
  "memchr_from m p t i n =
     (case find (\<lambda>j. m (p + j) = t) [i..<n] of None \<Rightarrow> null_ptr | Some j \<Rightarrow> p + j)"
proof (induction m p t i n rule: memchr_from.induct)
  case (1 m p t i n)
  then show ?case by (subst memchr_from.simps) (simp add: upt_rec [of i])
qed


subsection \<open>Properties\<close>

text \<open>
  C6. \<open>memmove\<close> is right for every pair of operands, overlapping in either direction or not:
  afterwards the destination holds the bytes the source held before the call, every byte
  outside the destination is as it was, and the destination pointer is returned.
\<close>

theorem memmove_overlap_safe:
  "\<exists>m'. memmove m dest src n = (m', dest) \<and>
        read_bytes m' dest n = read_bytes m src n \<and>
        {p. m' p \<noteq> m p} \<subseteq> {dest..<dest + n}"
  using read_write_same [of m dest "read_bytes m src n"]
  by (auto simp: memmove_write write_bytes_apply)

end
