(* ===== verification/CString.thy ===== *)
theory CString
  imports Memory_Ops "HOL-Library.Sublist"
begin

section \<open>NUL-terminated strings\<close>

text \<open>
  \<open>src/string/string.c\<close> and \<open>src/string/strerror.c\<close>. A loop that runs until it meets a NUL byte
  may run for ever on a memory that holds none, so those loops are \<^theory_text>\<open>partial_function\<close>s: they
  return \<^term>\<open>None\<close> exactly when the C loop does not stop. Every result below is therefore stated as
  \<^term>\<open>f x = Some y\<close> under the precondition that the operands are strings (\<^const>\<open>cstr_at\<close>), which
  includes that the loop stops.
\<close>

subsection \<open>Definitions\<close>

partial_function (option) strlen_loop :: "mem \<Rightarrow> addr \<Rightarrow> nat \<Rightarrow> nat option" where
  "strlen_loop m s n = (if m (s + n) \<noteq> 0 then strlen_loop m s (n + 1) else Some n)"

definition strlen :: "mem \<Rightarrow> addr \<Rightarrow> nat option" where
  "strlen m s = strlen_loop m s 0"

partial_function (option) strcmp :: "mem \<Rightarrow> addr \<Rightarrow> addr \<Rightarrow> int option" where
  "strcmp m a b =
     (if m a \<noteq> 0 \<and> m a = m b then strcmp m (a + 1) (b + 1)
      else Some (int_of_byte (m a) - int_of_byte (m b)))"

function strncmp_from :: "mem \<Rightarrow> addr \<Rightarrow> addr \<Rightarrow> nat \<Rightarrow> nat \<Rightarrow> int" where
  "strncmp_from m a b i n =
     (if i < n
      then if m (a + i) \<noteq> m (b + i) \<or> m (a + i) = 0
           then int_of_byte (m (a + i)) - int_of_byte (m (b + i))
           else strncmp_from m a b (i + 1) n
      else 0)"
  by pat_completeness auto
termination
  by (relation "measure (\<lambda>(m, a, b, i, n). n - i)") auto

declare strncmp_from.simps [simp del]

definition strncmp :: "mem \<Rightarrow> addr \<Rightarrow> addr \<Rightarrow> nat \<Rightarrow> int" where
  "strncmp m left right n = strncmp_from m left right 0 n"

text \<open>\<open>do { dest[i] = src[i]; } while (src[i++] != '\0');\<close>: the source byte is read again after the store.\<close>

partial_function (option) strcpy_loop :: "mem \<Rightarrow> addr \<Rightarrow> addr \<Rightarrow> nat \<Rightarrow> mem option" where
  "strcpy_loop m dest src i =
     (if (m(dest + i := m (src + i))) (src + i) \<noteq> 0
      then strcpy_loop (m(dest + i := m (src + i))) dest src (i + 1)
      else Some (m(dest + i := m (src + i))))"

definition strcpy :: "mem \<Rightarrow> addr \<Rightarrow> addr \<Rightarrow> (mem \<times> addr) option" where
  "strcpy m dest src = map_option (\<lambda>m'. (m', dest)) (strcpy_loop m dest src 0)"

function strncpy_loop :: "mem \<Rightarrow> addr \<Rightarrow> addr \<Rightarrow> nat \<Rightarrow> nat \<Rightarrow> mem \<times> nat" where
  "strncpy_loop m dest src i n =
     (if i < n \<and> m (src + i) \<noteq> 0
      then strncpy_loop (m(dest + i := m (src + i))) dest src (i + 1) n
      else (m, i))"
  by pat_completeness auto
termination
  by (relation "measure (\<lambda>(m, d, s, i, n). n - i)") auto

declare strncpy_loop.simps [simp del]

definition strncpy :: "mem \<Rightarrow> addr \<Rightarrow> addr \<Rightarrow> nat \<Rightarrow> mem \<times> addr" where
  "strncpy m dest src n =
     (let (m1, i) = strncpy_loop m dest src 0 n in (fill_up m1 dest 0 i n, dest))"

partial_function (option) strchr_loop :: "mem \<Rightarrow> addr \<Rightarrow> byte \<Rightarrow> addr option" where
  "strchr_loop m s target =
     (if m s = target then Some s else if m s = 0 then Some null_ptr
      else strchr_loop m (s + 1) target)"

definition strchr :: "mem \<Rightarrow> addr \<Rightarrow> int \<Rightarrow> addr option" where
  "strchr m s c = strchr_loop m s (uchar c)"

partial_function (option) strrchr_loop :: "mem \<Rightarrow> addr \<Rightarrow> byte \<Rightarrow> addr \<Rightarrow> addr option" where
  "strrchr_loop m s target found =
     (if m s = 0 then Some (if m s = target then s else found)
      else strrchr_loop m (s + 1) target (if m s = target then s else found))"

definition strrchr :: "mem \<Rightarrow> addr \<Rightarrow> int \<Rightarrow> addr option" where
  "strrchr m s c = strrchr_loop m s (uchar c) null_ptr"

text \<open>The inner loop of \<open>strstr\<close>, returning where the pattern pointer stopped.\<close>

partial_function (option) strstr_match :: "mem \<Rightarrow> addr \<Rightarrow> addr \<Rightarrow> addr option" where
  "strstr_match m h n =
     (if m n \<noteq> 0 \<and> m h \<noteq> 0 \<and> m h = m n then strstr_match m (h + 1) (n + 1) else Some n)"

partial_function (option) strstr_loop :: "mem \<Rightarrow> addr \<Rightarrow> addr \<Rightarrow> addr option" where
  "strstr_loop m first pattern =
     (if m first \<noteq> 0
      then Option.bind (strstr_match m first pattern)
             (\<lambda>n. if m n = 0 then Some first else strstr_loop m (first + 1) pattern)
      else Some null_ptr)"

definition strstr :: "mem \<Rightarrow> addr \<Rightarrow> addr \<Rightarrow> addr option" where
  "strstr m haystack needle =
     (if m needle = 0 then Some haystack else strstr_loop m haystack needle)"

partial_function (option) byte_in_set :: "mem \<Rightarrow> addr \<Rightarrow> byte \<Rightarrow> bool option" where
  "byte_in_set m p b =
     (if m p \<noteq> 0 then if m p = b then Some True else byte_in_set m (p + 1) b
      else Some False)"

partial_function (option) strspn_loop :: "mem \<Rightarrow> addr \<Rightarrow> addr \<Rightarrow> nat \<Rightarrow> nat option" where
  "strspn_loop m s accept n =
     (if m (s + n) \<noteq> 0
      then Option.bind (byte_in_set m accept (m (s + n)))
             (\<lambda>b. if b then strspn_loop m s accept (n + 1) else Some n)
      else Some n)"

definition strspn :: "mem \<Rightarrow> addr \<Rightarrow> addr \<Rightarrow> nat option" where
  "strspn m s accept = strspn_loop m s accept 0"

partial_function (option) strcspn_loop :: "mem \<Rightarrow> addr \<Rightarrow> addr \<Rightarrow> nat \<Rightarrow> nat option" where
  "strcspn_loop m s reject n =
     (if m (s + n) \<noteq> 0
      then Option.bind (byte_in_set m reject (m (s + n)))
             (\<lambda>b. if \<not> b then strcspn_loop m s reject (n + 1) else Some n)
      else Some n)"

definition strcspn :: "mem \<Rightarrow> addr \<Rightarrow> addr \<Rightarrow> nat option" where
  "strcspn m s reject = strcspn_loop m s reject 0"

partial_function (option) strpbrk :: "mem \<Rightarrow> addr \<Rightarrow> addr \<Rightarrow> addr option" where
  "strpbrk m s accept =
     (if m s \<noteq> 0
      then Option.bind (byte_in_set m accept (m s))
             (\<lambda>b. if b then Some s else strpbrk m (s + 1) accept)
      else Some null_ptr)"

text \<open>The walk to the terminator with which \<open>strcat\<close> and \<open>strncat\<close> start.\<close>

partial_function (option) strend :: "mem \<Rightarrow> addr \<Rightarrow> addr option" where
  "strend m dest = (if m dest \<noteq> 0 then strend m (dest + 1) else Some dest)"

text \<open>\<open>do { *dest++ = *src; } while (*src++ != '\0');\<close>\<close>

partial_function (option) strcat_loop :: "mem \<Rightarrow> addr \<Rightarrow> addr \<Rightarrow> mem option" where
  "strcat_loop m dest src =
     (if (m(dest := m src)) src \<noteq> 0 then strcat_loop (m(dest := m src)) (dest + 1) (src + 1)
      else Some (m(dest := m src)))"

definition strcat :: "mem \<Rightarrow> addr \<Rightarrow> addr \<Rightarrow> (mem \<times> addr) option" where
  "strcat m dest src =
     Option.bind (strend m dest) (\<lambda>d. map_option (\<lambda>m'. (m', dest)) (strcat_loop m d src))"

definition strncat :: "mem \<Rightarrow> addr \<Rightarrow> addr \<Rightarrow> nat \<Rightarrow> (mem \<times> addr) option" where
  "strncat m dest src n =
     Option.bind (strend m dest)
       (\<lambda>d. let (m1, i) = strncpy_loop m d src 0 n in Some (m1(d + i := 0), dest))"

text \<open>
  \<open>strtok\<close> keeps \<open>strtok_next\<close> between calls: it is a state argument and part of the result
  \<open>(memory, strtok_next, returned pointer)\<close>.
\<close>

partial_function (option) strtok_skip :: "mem \<Rightarrow> addr \<Rightarrow> addr \<Rightarrow> addr option" where
  "strtok_skip m delim str =
     (if m str \<noteq> 0
      then Option.bind (byte_in_set m delim (m str))
             (\<lambda>b. if b then strtok_skip m delim (str + 1) else Some str)
      else Some str)"

partial_function (option) strtok_span :: "mem \<Rightarrow> addr \<Rightarrow> addr \<Rightarrow> addr option" where
  "strtok_span m delim str =
     (if m str \<noteq> 0
      then Option.bind (byte_in_set m delim (m str))
             (\<lambda>b. if \<not> b then strtok_span m delim (str + 1) else Some str)
      else Some str)"

definition strtok :: "mem \<Rightarrow> addr \<Rightarrow> addr \<Rightarrow> addr \<Rightarrow> (mem \<times> addr \<times> addr) option" where
  "strtok m strtok_next str0 delim =
     (let next0 = (if str0 \<noteq> null_ptr then str0 else strtok_next);
          str1 = (if str0 \<noteq> null_ptr then str0 else strtok_next)
      in if str1 = null_ptr then Some (m, next0, null_ptr)
         else Option.bind (strtok_skip m delim str1) (\<lambda>token.
                if m token = 0 then Some (m, token, null_ptr)
                else Option.bind (strtok_span m delim token) (\<lambda>str2.
                       if m str2 = 0 then Some (m, str2, token)
                       else Some (m(str2 := 0), str2 + 1, token))))"

definition strerror :: "int \<Rightarrow> string" where
  "strerror errnum =
     (if errnum = EPERM then ''Operation not permitted''
      else if errnum = ENOENT then ''No such file or directory''
      else if errnum = ESRCH then ''No such process''
      else if errnum = EIO then ''Input/output error''
      else if errnum = ECHILD then ''No child processes''
      else if errnum = EAGAIN then ''Resource temporarily unavailable''
      else if errnum = ENOMEM then ''Cannot allocate memory''
      else if errnum = EEXIST then ''File exists''
      else if errnum = ENOTDIR then ''Not a directory''
      else if errnum = EISDIR then ''Is a directory''
      else if errnum = EINVAL then ''Invalid argument''
      else if errnum = ENOTTY then ''Inappropriate ioctl for device''
      else if errnum = EFBIG then ''File too large''
      else if errnum = EPIPE then ''Broken pipe''
      else if errnum = EDOM then ''Numerical argument out of domain''
      else if errnum = ERANGE then ''Numerical result out of range''
      else if errnum = EILSEQ then ''Invalid or incomplete multibyte or wide character''
      else ''Unknown error'')"


subsection \<open>Scanning loops\<close>

text \<open>
  Seven loops of the file are one loop: walk a string while the current byte is not NUL and
  satisfies a test. The locale states the loop's equation (for operands \<open>c\<close> the test may read,
  such as the address of a delimiter set) and gives where it stops; each loop of the code is
  an interpretation of it.
\<close>

locale string_scan =
  fixes ok :: "mem \<Rightarrow> 'c \<Rightarrow> bool"
    and test :: "'c \<Rightarrow> byte \<Rightarrow> bool"
    and pos :: "'c \<Rightarrow> nat \<Rightarrow> addr"
    and loop :: "mem \<Rightarrow> 'c \<Rightarrow> nat \<Rightarrow> nat option"
  assumes pos_Suc: "pos c (Suc n) = Suc (pos c n)"
    and loop_step: "ok m c \<Longrightarrow>
      loop m c n = (if m (pos c n) \<noteq> 0 \<and> test c (m (pos c n)) then loop m c (Suc n) else Some n)"
begin

lemma scan:
  "ok m c \<Longrightarrow> cstr_at m (pos c n) xs \<Longrightarrow> loop m c n = Some (n + length (takeWhile (test c) xs))"
proof (induction xs arbitrary: n)
  case Nil
  then show ?case using loop_step [of m c n] by simp
next
  case (Cons x xs)
  then show ?case using loop_step [of m c n] by (simp add: pos_Suc)
qed

lemma scan_stops: "ok m c \<Longrightarrow> cstr_at m (pos c n) xs \<Longrightarrow> \<exists>k. loop m c n = Some k \<and> n \<le> k"
  by (simp add: scan)

end

lemma takeWhile_const_True [simp]: "takeWhile (\<lambda>x. True) xs = xs"
  by (induction xs) simp_all

lemma byte_in_set_spec: "cstr_at m p ys \<Longrightarrow> byte_in_set m p b = Some (b \<in> set ys)"
proof (induction ys arbitrary: p)
  case Nil
  then show ?case by (simp add: byte_in_set.simps)
next
  case (Cons y ys)
  then show ?case by (subst byte_in_set.simps) auto
qed

lemma strspn_loop_step:
  "cstr_at m a ys \<Longrightarrow> strspn_loop m s a n =
     (if m (s + n) \<noteq> 0 \<and> m (s + n) \<in> set ys then strspn_loop m s a (Suc n) else Some n)"
  by (subst strspn_loop.simps) (simp add: byte_in_set_spec)

lemma strcspn_loop_step:
  "cstr_at m a ys \<Longrightarrow> strcspn_loop m s a n =
     (if m (s + n) \<noteq> 0 \<and> m (s + n) \<notin> set ys then strcspn_loop m s a (Suc n) else Some n)"
  by (subst strcspn_loop.simps) (simp add: byte_in_set_spec)

lemma strtok_skip_step:
  "cstr_at m a ys \<Longrightarrow> strtok_skip m a n =
     (if m (n) \<noteq> 0 \<and> m (n) \<in> set ys then strtok_skip m a (Suc n) else Some n)"
  by (subst strtok_skip.simps) (simp add: byte_in_set_spec)

lemma strtok_span_step:
  "cstr_at m a ys \<Longrightarrow> strtok_span m a n =
     (if m (n) \<noteq> 0 \<and> m (n) \<notin> set ys then strtok_span m a (Suc n) else Some n)"
  by (subst strtok_span.simps) (simp add: byte_in_set_spec)

interpretation len: string_scan
  "\<lambda>m c. True" "\<lambda>c b. True" "\<lambda>s n. s + n" "\<lambda>m s n. strlen_loop m s n"
  by unfold_locales (simp, subst strlen_loop.simps, simp)

interpretation send: string_scan
  "\<lambda>m c. True" "\<lambda>c b. True" "\<lambda>_ n. n" "\<lambda>m _ n. strend m n"
  by unfold_locales (simp, subst strend.simps, simp)

interpretation spn: string_scan
  "\<lambda>m (s, a, ys). cstr_at m a ys" "\<lambda>(s, a, ys) b. b \<in> set ys" "\<lambda>(s, a, ys) n. s + n"
  "\<lambda>m (s, a, ys) n. strspn_loop m s a n"
proof (unfold_locales, goal_cases)
  case (1 c n)
  then show ?case by (cases c) simp
next
  case (2 m c n)
  obtain s a ys where c: "c = (s, a, ys)" by (cases c)
  with 2 have "cstr_at m a ys" by simp
  then show ?case unfolding c prod.case by (rule strspn_loop_step)
qed

interpretation cspn: string_scan
  "\<lambda>m (s, a, ys). cstr_at m a ys" "\<lambda>(s, a, ys) b. b \<notin> set ys" "\<lambda>(s, a, ys) n. s + n"
  "\<lambda>m (s, a, ys) n. strcspn_loop m s a n"
proof (unfold_locales, goal_cases)
  case (1 c n)
  then show ?case by (cases c) simp
next
  case (2 m c n)
  obtain s a ys where c: "c = (s, a, ys)" by (cases c)
  with 2 have "cstr_at m a ys" by simp
  then show ?case unfolding c prod.case by (rule strcspn_loop_step)
qed

interpretation skip: string_scan
  "\<lambda>m (a, ys). cstr_at m a ys" "\<lambda>(a, ys) b. b \<in> set ys" "\<lambda>_ n. n"
  "\<lambda>m (a, ys) n. strtok_skip m a n"
proof (unfold_locales, goal_cases)
  case (1 c n)
  then show ?case by (cases c) simp
next
  case (2 m c n)
  obtain a ys where c: "c = (a, ys)" by (cases c)
  with 2 have "cstr_at m a ys" by simp
  then show ?case unfolding c prod.case by (rule strtok_skip_step)
qed

interpretation span: string_scan
  "\<lambda>m (a, ys). cstr_at m a ys" "\<lambda>(a, ys) b. b \<notin> set ys" "\<lambda>_ n. n"
  "\<lambda>m (a, ys) n. strtok_span m a n"
proof (unfold_locales, goal_cases)
  case (1 c n)
  then show ?case by (cases c) simp
next
  case (2 m c n)
  obtain a ys where c: "c = (a, ys)" by (cases c)
  with 2 have "cstr_at m a ys" by simp
  then show ?case unfolding c prod.case by (rule strtok_span_step)
qed

lemma strlen_spec: "cstr_at m s xs \<Longrightarrow> strlen m s = Some (length xs)"
  using len.scan [of m s 0 xs] by (simp add: strlen_def)

lemma strspn_spec:
  "cstr_at m s xs \<Longrightarrow> cstr_at m a ys \<Longrightarrow>
   strspn m s a = Some (length (takeWhile (\<lambda>b. b \<in> set ys) xs))"
  using spn.scan [of m "(s, a, ys)" 0 xs] by (simp add: strspn_def)

lemma strcspn_spec:
  "cstr_at m s xs \<Longrightarrow> cstr_at m a ys \<Longrightarrow>
   strcspn m s a = Some (length (takeWhile (\<lambda>b. b \<notin> set ys) xs))"
  using cspn.scan [of m "(s, a, ys)" 0 xs] by (simp add: strcspn_def)

lemma strtok_skip_spec:
  "cstr_at m s xs \<Longrightarrow> cstr_at m a ys \<Longrightarrow>
   strtok_skip m a s = Some (s + length (takeWhile (\<lambda>b. b \<in> set ys) xs))"
  using skip.scan [of m "(a, ys)" s xs] by simp

lemma strtok_span_spec:
  "cstr_at m s xs \<Longrightarrow> cstr_at m a ys \<Longrightarrow>
   strtok_span m a s = Some (s + length (takeWhile (\<lambda>b. b \<notin> set ys) xs))"
  using span.scan [of m "(a, ys)" s xs] by simp

lemma strend_spec: "cstr_at m s xs \<Longrightarrow> strend m s = Some (s + length xs)"
  using send.scan [of m s xs] by simp


text \<open>Length of the prefix a scan passes, and the pointer a search returns.\<close>

definition first_at :: "addr \<Rightarrow> (byte \<Rightarrow> bool) \<Rightarrow> byte list \<Rightarrow> addr" where
  "first_at s P xs =
     (let k = length (takeWhile (\<lambda>b. \<not> P b) xs) in if k < length xs then s + k else null_ptr)"

lemma first_at_simps [simp]:
  "first_at s P [] = null_ptr"
  "first_at s P (x # xs) = (if P x then s else first_at (Suc s) P xs)"
  by (simp_all add: first_at_def Let_def)

lemma strpbrk_spec:
  "cstr_at m s xs \<Longrightarrow> cstr_at m a ys \<Longrightarrow> strpbrk m s a = Some (first_at s (\<lambda>b. b \<in> set ys) xs)"
proof (induction xs arbitrary: s)
  case Nil
  then show ?case by (simp add: strpbrk.simps)
next
  case (Cons x xs)
  then show ?case by (subst strpbrk.simps) (auto simp: byte_in_set_spec)
qed

lemma strchr_spec:
  "cstr_at m s xs \<Longrightarrow>
   strchr m s c = Some (if uchar c = 0 then s + length xs else first_at s (\<lambda>b. b = uchar c) xs)"
  unfolding strchr_def
proof (induction xs arbitrary: s)
  case Nil
  then show ?case by (subst strchr_loop.simps) simp
next
  case (Cons x xs)
  then show ?case by (subst strchr_loop.simps) auto
qed

subsection \<open>Comparison\<close>

text \<open>The sign of \<open>strcmp\<close> is the lexicographic order of the unsigned bytes.\<close>

lemma strcmp_spec:
  "cstr_at m a xs \<Longrightarrow> cstr_at m b ys \<Longrightarrow>
   \<exists>r. strcmp m a b = Some r \<and> (r < 0 \<longleftrightarrow> xs < ys) \<and> (r = 0 \<longleftrightarrow> xs = ys)"
proof (induction xs arbitrary: a b ys)
  case Nil
  then show ?case
    by (subst strcmp.simps, cases ys) (auto simp: word_neq_0_conv word_less_def)
next
  case (Cons x xs)
  show ?case
  proof (cases ys)
    case Nil
    with Cons.prems show ?thesis
      by (subst strcmp.simps) (auto simp: word_neq_0_conv word_less_def)
  next
    case (Cons y zs)
    show ?thesis
    proof (cases "x = y")
      case True
      with Cons Cons.prems Cons.IH [of "a + 1" "b + 1" zs] show ?thesis
        by (subst strcmp.simps) simp
    next
      case False
      with Cons Cons.prems show ?thesis
        by (subst strcmp.simps) (auto simp: word_less_def word_uint_eq_iff)
    qed
  qed
qed

lemma take_split: "i \<le> n \<Longrightarrow> take n xs = take i xs @ take (n - i) (drop i xs)"
  by (metis take_add le_add_diff_inverse)

lemma strncmp_from_spec:
  assumes "cstr_at m a xs" "cstr_at m b ys" "i \<le> n" "i \<le> length xs" "i \<le> length ys"
    and "take i xs = take i ys"
  shows "(strncmp_from m a b i n < 0 \<longleftrightarrow> take n xs < take n ys) \<and>
         (strncmp_from m a b i n = 0 \<longleftrightarrow> take n xs = take n ys)"
  using assms(3-6)
proof (induction "n - i" arbitrary: i)
  case 0
  then show ?case by (simp add: strncmp_from.simps)
next
  case (Suc k)
  then have lt: "i < n" by simp
  have split: "take n zs = take i zs @ zs ! i # take (n - Suc i) (drop (Suc i) zs)"
    if "i < length zs" for zs :: "byte list"
  proof -
    have "take n zs = take i zs @ take (n - i) (drop i zs)"
      using lt by (simp add: take_split)
    also have "take (n - i) (drop i zs) = zs ! i # take (n - Suc i) (drop (Suc i) zs)"
      using lt that by (simp add: Cons_nth_drop_Suc [symmetric] take_Cons' )
    finally show ?thesis .
  qed
  have end_of: "m (p + i) = (if i = length zs then 0 else zs ! i)" "i \<noteq> length zs \<Longrightarrow> zs ! i \<noteq> 0"
    if "cstr_at m p zs" "i \<le> length zs" for p zs
    using that by (auto simp: cstr_at_iff)
  note xa = end_of [OF assms(1) Suc.prems(2)] and yb = end_of [OF assms(2) Suc.prems(3)]
  consider (xend) "i = length xs" | (yend) "i \<noteq> length xs" "i = length ys"
    | (same) "i \<noteq> length xs" "i \<noteq> length ys" "xs ! i = ys ! i"
    | (diff) "i \<noteq> length xs" "i \<noteq> length ys" "xs ! i \<noteq> ys ! i" by blast
  then show ?case
  proof cases
    case xend
    then have "xs = take i ys" using Suc.prems by simp
    then have e: "take n xs = take i ys" "take n ys = take i ys @ take (n - i) (drop i ys)"
      using lt xend take_split [of i n ys] by auto
    have v: "strncmp_from m a b i n = - int_of_byte (m (b + i))"
      using lt xend xa by (subst strncmp_from.simps) auto
    show ?thesis
    proof (cases "i = length ys")
      case True
      then show ?thesis using v yb e by simp
    next
      case False
      then have "take (n - i) (drop i ys) \<noteq> []" using lt Suc.prems by auto
      then have "take n xs < take n ys" unfolding e
        by (metis append_Nil2 append_less_append Nil_less_Cons list.exhaust)
      moreover have "0 < int_of_byte (m (b + i))" using False yb
        by (metis word_neq_0_conv word_less_def uint_0_eq)
      ultimately show ?thesis using v by auto
    qed
  next
    case yend
    then have "ys = take i xs" using Suc.prems by simp
    then have e: "take n ys = take i xs" "take n xs = take i xs @ take (n - i) (drop i xs)"
      using lt yend take_split [of i n xs] by auto
    have v: "strncmp_from m a b i n = int_of_byte (m (a + i))"
      using lt yend yb xa by (subst strncmp_from.simps) auto
    have "take (n - i) (drop i xs) \<noteq> []" using lt Suc.prems yend by auto
    then have "take n ys < take n xs" unfolding e
      by (metis append_Nil2 append_less_append Nil_less_Cons list.exhaust)
    moreover have "0 < int_of_byte (m (a + i))" using yend xa
      by (metis word_neq_0_conv word_less_def uint_0_eq)
    ultimately show ?thesis using v by auto
  next
    case same
    then have "take (Suc i) xs = take (Suc i) ys"
      using Suc.prems by (simp add: take_Suc_conv_app_nth)
    with Suc same have "(strncmp_from m a b (Suc i) n < 0 \<longleftrightarrow> take n xs < take n ys) \<and>
         (strncmp_from m a b (Suc i) n = 0 \<longleftrightarrow> take n xs = take n ys)"
      by (intro Suc.hyps) auto
    moreover have "strncmp_from m a b i n = strncmp_from m a b (Suc i) n"
      using lt same xa yb by (subst strncmp_from.simps) simp
    ultimately show ?thesis by simp
  next
    case diff
    then have "i < length xs" "i < length ys" using Suc.prems by auto
    note e = split [OF this(1)] split [OF this(2)]
    have "m (a + i) = xs ! i" "m (b + i) = ys ! i" using diff xa yb by auto
    then have "strncmp_from m a b i n = int_of_byte (xs ! i) - int_of_byte (ys ! i)"
      using lt diff(3) by (subst strncmp_from.simps) simp
    moreover have "take n xs < take n ys \<longleftrightarrow> xs ! i < ys ! i" "take n xs \<noteq> take n ys"
      unfolding e Suc.prems(4) using diff(3) by auto
    ultimately show ?thesis using diff(3) by (auto simp: word_less_def word_uint_eq_iff)
  qed
qed

lemma strncmp_spec:
  assumes "cstr_at m a xs" "cstr_at m b ys"
  shows "strncmp m a b n < 0 \<longleftrightarrow> take n xs < take n ys"
    and "strncmp m a b n = 0 \<longleftrightarrow> take n xs = take n ys"
  using strncmp_from_spec [OF assms, of 0 n] by (simp_all add: strncmp_def)


subsection \<open>Copying\<close>

lemma strcpy_loop_spec:
  "cstr_at m (src + i) xs \<Longrightarrow>
   disjoint_runs (dest + i) (Suc (length xs)) (src + i) (Suc (length xs)) \<Longrightarrow>
   strcpy_loop m dest src i = Some (write_bytes m (dest + i) (xs @ [0]))"
proof (induction xs arbitrary: m i)
  case Nil
  then show ?case by (subst strcpy_loop.simps) auto
next
  case (Cons x xs)
  let ?m = "m(dest + i := x)"
  have "cstr_at ?m (src + Suc i) xs"
    using Cons.prems by (auto simp: cstr_at_upd_outside disjoint_runs_def)
  moreover have "disjoint_runs (dest + Suc i) (Suc (length xs)) (src + Suc i) (Suc (length xs))"
    using Cons.prems by (auto simp: disjoint_runs_def)
  ultimately have "strcpy_loop ?m dest src (Suc i) = Some (write_bytes ?m (dest + Suc i) (xs @ [0]))"
    by (rule Cons.IH)
  then show ?case
    using Cons.prems by (subst strcpy_loop.simps) (auto simp: disjoint_runs_def)
qed

lemma strcpy_spec:
  "cstr_at m src xs \<Longrightarrow> disjoint_runs dest (Suc (length xs)) src (Suc (length xs)) \<Longrightarrow>
   strcpy m dest src = Some (write_bytes m dest (xs @ [0]), dest)"
  using strcpy_loop_spec [of m src 0 xs dest] by (simp add: strcpy_def)

lemma strncpy_loop_spec:
  "cstr_at m (src + i) xs \<Longrightarrow> disjoint_runs (dest + i) (n - i) (src + i) (Suc (length xs)) \<Longrightarrow>
   strncpy_loop m dest src i n =
     (write_bytes m (dest + i) (take (n - i) xs), i + min (n - i) (length xs))"
proof (induction xs arbitrary: m i)
  case Nil
  then show ?case by (subst strncpy_loop.simps) simp
next
  case (Cons x xs)
  let ?m = "m(dest + i := x)"
  show ?case
  proof (cases "i < n")
    case True
    have "cstr_at ?m (src + Suc i) xs"
      using Cons.prems True by (auto simp: cstr_at_upd_outside disjoint_runs_def)
    moreover have "disjoint_runs (dest + Suc i) (n - Suc i) (src + Suc i) (Suc (length xs))"
      using Cons.prems True by (auto simp: disjoint_runs_def)
    ultimately have "strncpy_loop ?m dest src (Suc i) n =
        (write_bytes ?m (dest + Suc i) (take (n - Suc i) xs), Suc i + min (n - Suc i) (length xs))"
      by (rule Cons.IH)
    then show ?thesis
      using Cons.prems True by (subst strncpy_loop.simps) (simp add: take_Cons' )
  next
    case False
    then show ?thesis by (subst strncpy_loop.simps) simp
  qed
qed

lemma fill_up_from:
  "fill_up m p b i n = write_bytes m (p + i) (replicate (n - i) b)"
proof (induction "n - i" arbitrary: m i)
  case 0
  then show ?case by (simp add: fill_up.simps)
next
  case (Suc k)
  then have "i < n" "n - i = Suc (n - Suc i)" by auto
  with Suc.hyps(1) [of "Suc i"] Suc.hyps(2) show ?case by (subst fill_up.simps) simp
qed

lemma strncpy_spec:
  assumes "cstr_at m src xs" "disjoint_runs dest n src (Suc (length xs))"
  shows "strncpy m dest src n = (write_bytes m dest (take n xs @ replicate (n - length xs) 0), dest)"
  using strncpy_loop_spec [of m src 0 xs dest n] assms
  by (auto simp: strncpy_def fill_up_from write_bytes_append min_def)

lemma strcat_loop_spec:
  "cstr_at m src xs \<Longrightarrow> disjoint_runs d (Suc (length xs)) src (Suc (length xs)) \<Longrightarrow>
   strcat_loop m d src = Some (write_bytes m d (xs @ [0]))"
proof (induction xs arbitrary: m d src)
  case Nil
  then show ?case by (subst strcat_loop.simps) (auto simp: disjoint_runs_def)
next
  case (Cons x xs)
  let ?m = "m(d := x)"
  have "cstr_at ?m (Suc src) xs"
    using Cons.prems by (auto simp: cstr_at_upd_outside disjoint_runs_def)
  moreover have "disjoint_runs (Suc d) (Suc (length xs)) (Suc src) (Suc (length xs))"
    using Cons.prems by (auto simp: disjoint_runs_def)
  ultimately have "strcat_loop ?m (Suc d) (Suc src) = Some (write_bytes ?m (Suc d) (xs @ [0]))"
    by (rule Cons.IH)
  then show ?case
    using Cons.prems by (subst strcat_loop.simps) (auto simp: disjoint_runs_def)
qed

lemma strcat_spec:
  assumes "cstr_at m dest ds" "cstr_at m src xs"
    and "disjoint_runs (dest + length ds) (Suc (length xs)) src (Suc (length xs))"
  shows "strcat m dest src = Some (write_bytes m (dest + length ds) (xs @ [0]), dest)"
  using strcat_loop_spec [OF assms(2,3)] by (simp add: strcat_def strend_spec [OF assms(1)])

lemma strncat_spec:
  assumes "cstr_at m dest ds" "cstr_at m src xs"
    and "disjoint_runs (dest + length ds) (Suc n) src (Suc (length xs))"
  shows "strncat m dest src n = Some (write_bytes m (dest + length ds) (take n xs @ [0]), dest)"
  using strncpy_loop_spec [of m src 0 xs "dest + length ds" n] assms
  by (auto simp: strncat_def strend_spec [OF assms(1)] write_bytes_append disjoint_runs_def min_def)

lemma cstr_at_append_written:
  "cstr_at m a xs \<Longrightarrow> 0 \<notin> set ys \<Longrightarrow> cstr_at (write_bytes m (a + length xs) (ys @ [0])) a (xs @ ys)"
  by (auto simp: cstr_at_iff write_bytes_apply nth_append in_set_conv_nth)

subsection \<open>Searching for a byte from the end, and for a substring\<close>

definition last_at :: "addr \<Rightarrow> (byte \<Rightarrow> bool) \<Rightarrow> byte list \<Rightarrow> addr \<Rightarrow> addr" where
  "last_at s P xs found = fold (\<lambda>i acc. if P (xs ! i) then s + i else acc) [0..<length xs] found"

lemma last_at_simps [simp]:
  "last_at s P [] found = found"
  "last_at s P (x # xs) found = last_at (Suc s) P xs (if P x then s else found)"
proof -
  show "last_at s P (x # xs) found = last_at (Suc s) P xs (if P x then s else found)"
    unfolding last_at_def length_Cons upt_conv_Cons [OF zero_less_Suc] map_Suc_upt [symmetric]
    by (simp add: fold_map comp_def)
qed (simp add: last_at_def)

lemma strrchr_loop_spec:
  "cstr_at m s xs \<Longrightarrow>
   strrchr_loop m s t found =
     Some (if t = 0 then s + length xs else last_at s (\<lambda>b. b = t) xs found)"
proof (induction xs arbitrary: s found)
  case Nil
  then show ?case by (subst strrchr_loop.simps) simp
next
  case (Cons x xs)
  then show ?case by (subst strrchr_loop.simps) auto
qed

lemma strstr_match_spec:
  "cstr_at m h hs \<Longrightarrow> cstr_at m n ns \<Longrightarrow> \<exists>q. strstr_match m h n = Some q \<and> (m q = 0 \<longleftrightarrow> prefix ns hs)"
proof (induction ns arbitrary: h n hs)
  case Nil
  then show ?case by (subst strstr_match.simps) simp
next
  case (Cons x xs)
  show ?case
  proof (cases hs)
    case Nil
    with Cons.prems show ?thesis by (subst strstr_match.simps) simp
  next
    case c: (Cons y ys)
    show ?thesis
    proof (cases "x = y")
      case True
      with Cons.prems c Cons.IH [of "h + 1" ys "n + 1"] show ?thesis
        by (subst strstr_match.simps) simp
    next
      case False
      with Cons.prems c show ?thesis by (subst strstr_match.simps) auto
    qed
  qed
qed

text \<open>Where a substring first occurs.\<close>

fun find_sub :: "byte list \<Rightarrow> byte list \<Rightarrow> nat option" where
  "find_sub ns [] = (if ns = [] then Some 0 else None)"
| "find_sub ns (x # xs) = (if prefix ns (x # xs) then Some 0 else map_option Suc (find_sub ns xs))"

lemma find_sub_Some: "find_sub ns hs = Some k \<Longrightarrow>
    k \<le> length hs \<and> prefix ns (drop k hs) \<and> (\<forall>j < k. \<not> prefix ns (drop j hs))"
  by (induction hs arbitrary: k) (auto simp: less_Suc_eq_0_disj split: if_splits)

lemma find_sub_None: "find_sub ns hs = None \<Longrightarrow> \<not> prefix ns (drop j hs)"
  by (induction hs arbitrary: j) (auto simp: drop_Cons split: if_splits nat.splits)

lemma strstr_loop_spec:
  "cstr_at m h hs \<Longrightarrow> cstr_at m n ns \<Longrightarrow> ns \<noteq> [] \<Longrightarrow>
   strstr_loop m h n = Some (case find_sub ns hs of None \<Rightarrow> null_ptr | Some k \<Rightarrow> h + k)"
proof (induction hs arbitrary: h)
  case Nil
  then show ?case by (subst strstr_loop.simps) simp
next
  case (Cons x xs)
  obtain q where q: "strstr_match m h n = Some q" "m q = 0 \<longleftrightarrow> prefix ns (x # xs)"
    using strstr_match_spec [OF Cons.prems(1,2)] by blast
  from Cons.IH [of "Suc h"] Cons.prems q show ?case
    by (subst strstr_loop.simps) (auto split: option.splits)
qed

lemma strstr_find:
  assumes "cstr_at m h hs" "cstr_at m n ns"
  shows "strstr m h n = Some (case find_sub ns hs of None \<Rightarrow> null_ptr | Some k \<Rightarrow> h + k)"
proof (cases "ns = []")
  case True
  with assms show ?thesis by (cases hs) (auto simp: strstr_def)
next
  case False
  with assms show ?thesis
    by (cases ns) (auto simp: strstr_def strstr_loop_spec [OF assms])
qed


subsection \<open>Tokenising\<close>

text \<open>
  The tokens of a string for a fixed delimiter set, and the loop a caller writes around
  \<open>strtok\<close>: one call with the string, then calls with a null pointer until null comes back.
\<close>

function tokens :: "byte list \<Rightarrow> byte list \<Rightarrow> byte list list" where
  "tokens ds xs =
     (let ys = dropWhile (\<lambda>b. b \<in> set ds) xs
      in if ys = [] then []
         else takeWhile (\<lambda>b. b \<notin> set ds) ys # tokens ds (tl (dropWhile (\<lambda>b. b \<notin> set ds) ys)))"
  by pat_completeness auto
termination
proof (relation "measure (\<lambda>(ds, xs). length xs)", goal_cases)
  case (2 ds xs ys)
  have "length (dropWhile (\<lambda>b. b \<notin> set ds) ys) \<le> length ys" "length ys \<le> length xs" "0 < length ys"
    using 2 by (auto simp only: length_dropWhile_le length_greater_0_conv)
  then show ?case by (simp only: in_measure prod.case length_tl)
qed simp

declare tokens.simps [simp del]

lemma tokens_Nil [simp]: "tokens ds [] = []"
  by (simp add: tokens.simps)

fun strtok_walk :: "nat \<Rightarrow> mem \<Rightarrow> addr \<Rightarrow> addr \<Rightarrow> addr \<Rightarrow> (mem \<times> addr list) option" where
  "strtok_walk 0 m nxt str delim = None"
| "strtok_walk (Suc k) m nxt str delim =
     Option.bind (strtok m nxt str delim) (\<lambda>(m1, nxt1, token).
       if token = null_ptr then Some (m1, [])
       else Option.bind (strtok_walk k m1 nxt1 null_ptr delim)
              (\<lambda>(m2, ts). Some (m2, token # ts)))"

lemma strtok_call:
  assumes s: "cstr_at m s xs" "s \<noteq> 0" and d: "cstr_at m d ds"
    and str: "str = s \<or> str = 0 \<and> nxt = s"
  defines "k \<equiv> length (takeWhile (\<lambda>b. b \<in> set ds) xs)"
    and "ys \<equiv> dropWhile (\<lambda>b. b \<in> set ds) xs"
  defines "n \<equiv> length (takeWhile (\<lambda>b. b \<notin> set ds) ys)"
  shows "strtok m nxt str d =
    Some (if ys = [] then (m, s + k, null_ptr)
          else if n = length ys then (m, s + k + n, s + k)
          else (m(s + k + n := 0), s + k + n + 1, s + k))"
proof -
  have ys: "ys = drop k xs" and k: "k \<le> length xs"
    by (simp_all add: ys_def k_def dropWhile_eq_drop length_takeWhile_le)
  have at_ys: "cstr_at m (s + k) ys" using cstr_at_drop [OF s(1) k] by (simp add: ys)
  have skip: "strtok_skip m d s = Some (s + k)"
    using strtok_skip_spec [OF s(1) d] by (simp add: k_def)
  have span: "strtok_span m d (s + k) = Some (s + k + n)"
    using strtok_span_spec [OF at_ys d] by (simp add: n_def)
  have "m (s + k) = 0 \<longleftrightarrow> ys = []" using at_ys by (cases ys) auto
  moreover have "m (s + k + n) = 0 \<longleftrightarrow> n = length ys"
    using at_ys length_takeWhile_le [of _ ys] n_def
    by (metis cstr_at_end cstr_at_nth le_neq_implies_less)
  ultimately show ?thesis
    using str s(2) skip span by (auto simp: strtok_def Let_def)
qed

lemma strtok_walk_tokens:
  "cstr_at m s xs \<Longrightarrow> s \<noteq> 0 \<Longrightarrow> cstr_at m d ds \<Longrightarrow>
   disjoint_runs s (Suc (length xs)) d (Suc (length ds)) \<Longrightarrow>
   str = s \<or> str = 0 \<and> nxt = s \<Longrightarrow> length xs + 1 < fuel \<Longrightarrow>
   \<exists>m' ts. strtok_walk fuel m nxt str d = Some (m', ts) \<and>
     list_all2 (cstr_at m') ts (tokens ds xs) \<and>
     (\<forall>p. p < s \<or> s + length xs \<le> p \<longrightarrow> m' p = m p)"
proof (induction fuel arbitrary: m s xs str nxt)
  case (Suc fuel)
  define k where "k = length (takeWhile (\<lambda>b. b \<in> set ds) xs)"
  define ys where "ys = dropWhile (\<lambda>b. b \<in> set ds) xs"
  define n where "n = length (takeWhile (\<lambda>b. b \<notin> set ds) ys)"
  note call = strtok_call [OF Suc.prems(1,2,3,5), folded k_def, folded ys_def, folded n_def]
  have len: "length xs = k + length ys"
    unfolding k_def ys_def by (metis length_append takeWhile_dropWhile_id)
  have ys: "ys = drop k xs" unfolding ys_def k_def by (rule dropWhile_eq_drop)
  have at_ys: "cstr_at m (s + k) ys"
    unfolding ys by (rule cstr_at_drop [OF Suc.prems(1)]) (use len in simp)
  have n: "n \<le> length ys" by (simp add: n_def length_takeWhile_le)
  have tok: "takeWhile (\<lambda>b. b \<notin> set ds) ys = take n ys"
    and rest: "dropWhile (\<lambda>b. b \<notin> set ds) ys = drop n ys"
    unfolding n_def by (rule takeWhile_eq_take, rule dropWhile_eq_drop)
  have toks: "tokens ds xs = (if ys = [] then [] else take n ys # tokens ds (tl (drop n ys)))"
    by (subst tokens.simps) (simp add: ys_def [symmetric] tok rest)
  consider (none) "ys = []" | (last) "ys \<noteq> []" "n = length ys" | (more) "ys \<noteq> []" "n < length ys"
    using n by linarith
  then show ?case
  proof cases
    case none
    then show ?thesis using call toks by simp
  next
    case last
    have "cstr_at m (s + length xs) []" using Suc.prems(1) by (simp add: cstr_at_end)
    moreover have "0 < length ys" using last by simp
    then have "Suc 0 < fuel" using Suc.prems(6) len by linarith
    moreover have "disjoint_runs (s + length xs) (Suc 0) d (Suc (length ds))"
      using Suc.prems(4) by (auto simp: disjoint_runs_def)
    ultimately obtain m' ts where IH: "strtok_walk fuel m (s + length xs) 0 d = Some (m', ts)"
        "list_all2 (cstr_at m') ts (tokens ds [])"
        "\<forall>p. p < s + length xs \<or> s + length xs \<le> p \<longrightarrow> m' p = m p"
      using Suc.IH [of m "s + length xs" "[]" 0 "s + length xs"] Suc.prems(2,3) by auto
    then have "m' = m" by (auto simp: fun_eq_iff not_less)
    with IH show ?thesis using call toks last len Suc.prems(2) at_ys by (auto simp: add.assoc)
  next
    case more
    let ?m = "m(s + k + n := 0)" and ?s = "s + k + n + 1" and ?xs = "drop (Suc n) ys"
    have "cstr_at m ?s ?xs" using cstr_at_drop [OF at_ys, of "Suc n"] more by simp
    then have rest_at: "cstr_at ?m ?s ?xs" by (simp add: cstr_at_upd_outside)
    have del_at: "cstr_at ?m d ds"
      using Suc.prems(3,4) more len by (auto simp: cstr_at_upd_outside disjoint_runs_def)
    have "disjoint_runs ?s (Suc (length ?xs)) d (Suc (length ds))"
      using Suc.prems(4) more len by (auto simp: disjoint_runs_def)
    moreover have "length ?xs + 1 < fuel" using Suc.prems(6) more len by simp
    ultimately obtain m' ts where IH: "strtok_walk fuel ?m ?s 0 d = Some (m', ts)"
        "list_all2 (cstr_at m') ts (tokens ds ?xs)"
        "\<forall>p. p < ?s \<or> ?s + length ?xs \<le> p \<longrightarrow> m' p = ?m p"
      using Suc.IH [of ?m ?s ?xs 0 ?s] rest_at del_at by (auto simp del: fun_upd_apply)
    have "m' p = m p" if "p < s + k + n" for p using IH(3) that by simp
    moreover have "m' (s + k + n) = 0" using IH(3) by simp
    ultimately have "cstr_at m' (s + k) (take n ys)"
      using at_ys more by (simp add: cstr_at_iff)
    with IH show ?thesis
      using call toks more len Suc.prems(2) by (auto simp: tl_drop drop_Suc)
  qed
qed simp


subsection \<open>Properties\<close>

text \<open>
  The sign of \<open>strcmp\<close> is the lexicographic order on the strings as sequences of unsigned
  bytes: the loop stops, a negative result means smaller, and zero means equal.
\<close>

theorem strcmp_is_lexicographic:
  assumes "cstr_at m a xs" and "cstr_at m b ys"
  shows "\<exists>r. strcmp m a b = Some r \<and> (r < 0 \<longleftrightarrow> xs < ys) \<and> (r = 0 \<longleftrightarrow> xs = ys)"
  by (rule strcmp_spec [OF assms])

theorem strcmp_is_lexicographic_witness:
  "\<exists>r. strcmp (write_bytes (\<lambda>_. 0) 1 [97, 200, 0, 97, 98, 0]) 1 4 = Some r \<and> \<not> r < 0 \<and> r \<noteq> 0"
proof -
  let ?m = "write_bytes (\<lambda>_. 0) 1 [97, 200, 0, 97, 98, 0] :: mem"
  have "cstr_at ?m 1 [97, 200]" "cstr_at ?m 4 [97, 98]" by simp_all
  from strcmp_is_lexicographic [OF this] show ?thesis by auto
qed

text \<open>
  \<open>strstr\<close> finds the first occurrence: it returns the haystack's address plus the least
  offset at which the needle is a prefix of the rest, or the null pointer when there is none.
\<close>

theorem strstr_first_occurrence:
  assumes "cstr_at m h hs" and "cstr_at m n ns"
  shows "\<exists>p. strstr m h n = Some p \<and>
    ((\<exists>k. p = h + k \<and> k \<le> length hs \<and> prefix ns (drop k hs) \<and> (\<forall>j < k. \<not> prefix ns (drop j hs)))
     \<or> p = null_ptr \<and> (\<forall>j. \<not> prefix ns (drop j hs)))"
  using find_sub_Some [of ns hs] find_sub_None [of ns hs]
  by (auto simp: strstr_find [OF assms] split: option.split)

theorem strstr_first_occurrence_witness:
  "\<exists>p. strstr (write_bytes (\<lambda>_. 0) 1 [97, 97, 98, 0, 97, 98, 0]) 1 5 = Some p \<and> p = 2"
proof -
  let ?m = "write_bytes (\<lambda>_. 0) 1 [97, 97, 98, 0, 97, 98, 0] :: mem"
  have "cstr_at ?m 1 [97, 97, 98]" "cstr_at ?m 5 [97, 98]" by simp_all
  from strstr_first_occurrence [OF this]
  obtain p where p: "strstr ?m 1 5 = Some p"
    and d: "(\<exists>k. p = 1 + k \<and> k \<le> length [97, 97, 98 :: byte] \<and>
              prefix [97, 98] (drop k [97, 97, 98 :: byte]) \<and>
              (\<forall>j < k. \<not> prefix [97, 98] (drop j [97, 97, 98 :: byte])))
            \<or> p = 0 \<and> (\<forall>j. \<not> prefix [97, 98] (drop j [97, 97, 98 :: byte]))"
    by blast
  have one: "prefix [97, 98] (drop 1 [97, 97, 98 :: byte])" by simp
  from d obtain k where k: "p = 1 + k" "prefix [97, 98] (drop k [97, 97, 98 :: byte])"
      "\<forall>j < k. \<not> prefix [97, 98] (drop j [97, 97, 98 :: byte])"
    using one by blast
  have "k \<noteq> 0" using k(2) by (cases k) simp_all
  moreover have "\<not> 1 < k" using k(3) one by blast
  ultimately show ?thesis using k(1) p by simp
qed

text \<open>
  \<open>strncpy\<close> stores exactly \<open>n\<close> bytes: the first \<open>n\<close> bytes of the source string, padded with
  NUL bytes when the string is shorter (and without a terminator when it is not), and nothing
  outside the \<open>n\<close> bytes.
\<close>

theorem strncpy_pads_to_n:
  assumes "cstr_at m src xs" and "disjoint_runs dest n src (Suc (length xs))"
  shows "\<exists>m'. strncpy m dest src n = (m', dest) \<and>
    read_bytes m' dest n = take n xs @ replicate (n - length xs) 0 \<and>
    {p. m' p \<noteq> m p} \<subseteq> {dest..<dest + n}"
proof -
  let ?ys = "take n xs @ replicate (n - length xs) 0"
  have "length ?ys = n" by simp
  with read_write_same [of m dest ?ys] show ?thesis
    by (auto simp: strncpy_spec [OF assms] write_bytes_apply)
qed

theorem strncpy_pads_to_n_witness:
  "\<exists>m'. strncpy (write_bytes (\<lambda>_. 7) 1 [97, 98, 0]) 10 1 4 = (m', 10) \<and>
    read_bytes m' 10 4 = [97, 98, 0, 0]"
proof -
  let ?m = "write_bytes (\<lambda>_. 7) 1 [97, 98, 0] :: mem"
  have "cstr_at ?m 1 [97, 98]" "disjoint_runs 10 4 1 (Suc (length [97, 98 :: byte]))"
    by (simp_all add: disjoint_runs_def)
  note copied = strncpy_pads_to_n [OF this]
  have "take 4 [97, 98] @ replicate (4 - length [97, 98 :: byte]) 0 = [97, 98, 0, 0 :: byte]"
    by (simp add: numeral_eq_Suc)
  from copied [unfolded this] show ?thesis by blast
qed

text \<open>
  C10. The \<open>strtok\<close> protocol splits a string into its tokens: the call with the string and the
  calls with a null pointer that follow it return, in order, pointers to the maximal runs of
  non-delimiter bytes, then null; each token is NUL-terminated in place and still intact when
  the walk ends, and no byte outside the string is written.
\<close>

theorem strtok_splits_into_tokens:
  assumes "cstr_at m s xs" and "s \<noteq> null_ptr" and "cstr_at m d ds"
    and "disjoint_runs s (Suc (length xs)) d (Suc (length ds))"
  shows "\<exists>m' ts. strtok_walk (length xs + 2) m nxt s d = Some (m', ts) \<and>
    list_all2 (cstr_at m') ts (tokens ds xs) \<and> {p. m' p \<noteq> m p} \<subseteq> {s..<s + length xs}"
  using strtok_walk_tokens [OF assms, of s nxt "length xs + 2"] by (fastforce simp: not_less)

theorem strtok_splits_into_tokens_witness:
  "\<exists>m' ts. strtok_walk 6 (write_bytes (\<lambda>_. 0) 1 [44, 97, 44, 98, 0, 44, 0]) 0 1 6 = Some (m', ts) \<and>
    list_all2 (cstr_at m') ts [[97], [98]]"
proof -
  let ?m = "write_bytes (\<lambda>_. 0) 1 [44, 97, 44, 98, 0, 44, 0] :: mem"
  have "cstr_at ?m 1 [44, 97, 44, 98]" "1 \<noteq> (0::nat)" "cstr_at ?m 6 [44]"
    "disjoint_runs 1 (Suc (length [44, 97, 44, 98 :: byte])) 6 (Suc (length [44 :: byte]))"
    by (simp_all add: disjoint_runs_def)
  note walk = strtok_splits_into_tokens [OF this, of 0]
  have t: "tokens [44] [44, 97, 44, 98] = [[97], [98 :: byte]]"
    by (simp add: tokens.simps Let_def)
  have l: "length [44, 97, 44, 98 :: byte] + 2 = 6" by simp
  from walk [unfolded t l] show ?thesis by blast
qed

end
