(* ===== verification/Strconv.thy ===== *)
theory Strconv
  imports CString
begin

section \<open>String to integer conversion\<close>

text \<open>
  \<open>src/stdlib/atoi.c\<close>, \<open>strtol.c\<close> (\<open>strtol\<close>, \<open>strtoll\<close>) and \<open>strtoul.c\<close>. The accumulators keep
  their C width (\<^typ>\<open>u32\<close> in \<open>atoi\<close>, \<^typ>\<open>u64\<close> elsewhere), so the overflow test of the code is the
  word computation it is in C. The result record says what \<open>endptr\<close> points to: \<^term>\<open>None\<close> is a slot
  the call left alone (a null \<open>endptr\<close>, or the unsupported-base error path).
\<close>

record 'r strto =
  ret :: 'r
  end_slot :: "addr option"
  err :: int

subsection \<open>Definitions\<close>

definition is_c_space :: "byte \<Rightarrow> bool" where
  "is_c_space c = (c = ch CHR '' '' \<or> c = 9 \<or> c = 10 \<or> c = 11 \<or> c = 12 \<or> c = 13)"

definition digit_value :: "byte \<Rightarrow> int" where
  "digit_value c =
     (if ch CHR ''0'' \<le> c \<and> c \<le> ch CHR ''9'' then int_of_byte (c - ch CHR ''0'')
      else if ch CHR ''a'' \<le> c \<and> c \<le> ch CHR ''z'' then int_of_byte (c - ch CHR ''a'') + 10
      else if ch CHR ''A'' \<le> c \<and> c \<le> ch CHR ''Z'' then int_of_byte (c - ch CHR ''A'') + 10
      else - 1)"

partial_function (option) skip_space :: "mem \<Rightarrow> addr \<Rightarrow> addr option" where
  "skip_space m s = (if is_c_space (m s) then skip_space m (s + 1) else Some s)"

text \<open>\<open>if (*s == '+' || *s == '-') { negative = *s == '-'; ++s; }\<close>\<close>

definition take_sign :: "mem \<Rightarrow> addr \<Rightarrow> bool \<times> addr" where
  "take_sign m s =
     (if m s = ch CHR ''+'' \<or> m s = ch CHR ''-'' then (m s = ch CHR ''-'', s + 1) else (False, s))"

text \<open>The base and where the digits start: base 0 looks at the prefix, base 16 skips one.\<close>

definition detect_base :: "mem \<Rightarrow> addr \<Rightarrow> int \<Rightarrow> int \<times> addr" where
  "detect_base m s base =
     (if base = 0 then
        if m s = ch CHR ''0'' then
          if m (s + 1) = ch CHR ''x'' \<or> m (s + 1) = ch CHR ''X'' then
            (let nxt = digit_value (m (s + 2)) in if 0 \<le> nxt \<and> nxt < 16 then (16, s + 2) else (8, s))
          else (8, s)
        else (10, s)
      else if base = 16 \<and> m s = ch CHR ''0'' \<and> (m (s + 1) = ch CHR ''x'' \<or> m (s + 1) = ch CHR ''X'') then
        (let nxt = digit_value (m (s + 2)) in if 0 \<le> nxt \<and> nxt < 16 then (base, s + 2) else (base, s))
      else (base, s))"

text \<open>The digit loop: it goes on after an overflow, so that the end pointer is right.\<close>

partial_function (option) digits_loop ::
  "mem \<Rightarrow> addr \<Rightarrow> int \<Rightarrow> u64 \<Rightarrow> u64 \<Rightarrow> bool \<Rightarrow> bool \<Rightarrow> (addr \<times> u64 \<times> bool \<times> bool) option" where
  "digits_loop m s base limit value any overflow =
     (let digit = digit_value (m s)
      in if digit < 0 \<or> base \<le> digit then Some (s, value, any, overflow)
         else let udigit = word_of_int digit; ubase = word_of_int base
              in if \<not> overflow \<and> (limit - udigit) div ubase < value
                 then digits_loop m (s + 1) base limit value True True
                 else digits_loop m (s + 1) base limit
                        (if overflow then value else value * ubase + udigit) True overflow)"

definition strtol :: "mem \<Rightarrow> addr \<Rightarrow> bool \<Rightarrow> int \<Rightarrow> int \<Rightarrow> int strto option" where
  "strtol m nptr endptr base errno =
     (if base \<noteq> 0 \<and> (base < 2 \<or> 36 < base) then Some \<lparr>ret = 0, end_slot = None, err = EINVAL\<rparr>
      else Option.bind (skip_space m nptr) (\<lambda>s0.
        let long_max = drop_bit 1 (- 1) :: u64;
            (negative, s1) = take_sign m s0;
            (base', s2) = detect_base m s1 base;
            limit = (if negative then long_max + 1 else long_max)
        in Option.bind (digits_loop m s2 base' limit 0 False False) (\<lambda>(s, value, any, overflow).
             if \<not> any then Some \<lparr>ret = 0, end_slot = (if endptr then Some nptr else None), err = errno\<rparr>
             else Some (if overflow
                   then \<lparr>ret = (if negative then - uint long_max - 1 else uint long_max),
                         end_slot = (if endptr then Some s else None), err = ERANGE\<rparr>
                   else if negative
                   then \<lparr>ret = (if value = long_max + 1 then - uint long_max - 1 else - sint value),
                         end_slot = (if endptr then Some s else None), err = errno\<rparr>
                   else \<lparr>ret = sint value, end_slot = (if endptr then Some s else None),
                         err = errno\<rparr>))))"

text \<open>\<open>long long\<close> is as wide as \<open>long\<close> on this target; the body is written out in the source again.\<close>

definition strtoll :: "mem \<Rightarrow> addr \<Rightarrow> bool \<Rightarrow> int \<Rightarrow> int \<Rightarrow> int strto option" where
  "strtoll m nptr endptr base errno =
     (if base \<noteq> 0 \<and> (base < 2 \<or> 36 < base) then Some \<lparr>ret = 0, end_slot = None, err = EINVAL\<rparr>
      else Option.bind (skip_space m nptr) (\<lambda>s0.
        let long_long_max = drop_bit 1 (- 1) :: u64;
            (negative, s1) = take_sign m s0;
            (base', s2) = detect_base m s1 base;
            limit = (if negative then long_long_max + 1 else long_long_max)
        in Option.bind (digits_loop m s2 base' limit 0 False False) (\<lambda>(s, value, any, overflow).
             if \<not> any then Some \<lparr>ret = 0, end_slot = (if endptr then Some nptr else None), err = errno\<rparr>
             else Some (if overflow
                   then \<lparr>ret = (if negative then - uint long_long_max - 1 else uint long_long_max),
                         end_slot = (if endptr then Some s else None), err = ERANGE\<rparr>
                   else if negative
                   then \<lparr>ret = (if value = long_long_max + 1 then - uint long_long_max - 1
                                else - sint value),
                         end_slot = (if endptr then Some s else None), err = errno\<rparr>
                   else \<lparr>ret = sint value, end_slot = (if endptr then Some s else None),
                         err = errno\<rparr>))))"

definition strtoul :: "mem \<Rightarrow> addr \<Rightarrow> bool \<Rightarrow> int \<Rightarrow> int \<Rightarrow> u64 strto option" where
  "strtoul m nptr endptr base errno =
     (if base \<noteq> 0 \<and> (base < 2 \<or> 36 < base) then Some \<lparr>ret = 0, end_slot = None, err = EINVAL\<rparr>
      else Option.bind (skip_space m nptr) (\<lambda>s0.
        let limit = - 1 :: u64;
            (negative, s1) = take_sign m s0;
            (base', s2) = detect_base m s1 base
        in Option.bind (digits_loop m s2 base' limit 0 False False) (\<lambda>(s, value, any, overflow).
             if \<not> any then Some \<lparr>ret = 0, end_slot = (if endptr then Some nptr else None), err = errno\<rparr>
             else Some (if overflow
                   then \<lparr>ret = limit, end_slot = (if endptr then Some s else None), err = ERANGE\<rparr>
                   else \<lparr>ret = (if negative then 0 - value else value),
                         end_slot = (if endptr then Some s else None), err = errno\<rparr>))))"

partial_function (option) atoi_loop :: "mem \<Rightarrow> addr \<Rightarrow> u32 \<Rightarrow> u32 \<Rightarrow> bool \<Rightarrow> (u32 \<times> bool) option" where
  "atoi_loop m s limit value overflow =
     (if ch CHR ''0'' \<le> m s \<and> m s \<le> ch CHR ''9''
      then let digit = ucast (m s - ch CHR ''0'')
           in if \<not> overflow \<and> (limit - digit) div 10 < value
              then atoi_loop m (s + 1) limit value True
              else atoi_loop m (s + 1) limit (if overflow then value else value * 10 + digit) overflow
      else Some (value, overflow))"

definition atoi :: "mem \<Rightarrow> addr \<Rightarrow> int option" where
  "atoi m nptr =
     Option.bind (skip_space m nptr) (\<lambda>s0.
       let int_max = drop_bit 1 (- 1) :: u32;
           (negative, s1) = take_sign m s0;
           limit = (if negative then int_max + 1 else int_max)
       in Option.bind (atoi_loop m s1 limit 0 False) (\<lambda>(value, overflow).
            Some (if overflow then (if negative then - sint int_max - 1 else sint int_max)
                  else if negative
                  then (if value = int_max + 1 then - sint int_max - 1 else - sint value)
                  else sint value)))"

subsection \<open>What is parsed\<close>

text \<open>
  The grammar on the byte sequence: leading white space, an optional sign, a base prefix, the
  longest run of digits of the base. \<open>strto_parse\<close> gives the sign, the base, the digits and the
  bytes left over; \<open>digits_val\<close> is the number the digits denote.
\<close>

definition split_sign :: "byte list \<Rightarrow> bool \<times> byte list" where
  "split_sign xs =
     (case xs of [] \<Rightarrow> (False, [])
      | x # r \<Rightarrow> if x = ch CHR ''+'' \<or> x = ch CHR ''-'' then (x = ch CHR ''-'', r) else (False, xs))"

definition is_digit_in :: "int \<Rightarrow> byte \<Rightarrow> bool" where
  "is_digit_in base c = (0 \<le> digit_value c \<and> digit_value c < base)"

definition hex_prefix :: "byte list \<Rightarrow> bool" where
  "hex_prefix xs =
     (case xs of a # b # c # r \<Rightarrow>
        a = ch CHR ''0'' \<and> (b = ch CHR ''x'' \<or> b = ch CHR ''X'') \<and> is_digit_in 16 c | _ \<Rightarrow> False)"

definition split_base :: "int \<Rightarrow> byte list \<Rightarrow> int \<times> byte list" where
  "split_base base xs =
     (if (base = 0 \<or> base = 16) \<and> hex_prefix xs then (16, drop 2 xs)
      else if base = 0 then (if take 1 xs = [ch CHR ''0''] then 8 else 10, xs)
      else (base, xs))"

definition strto_parse :: "int \<Rightarrow> byte list \<Rightarrow> bool \<times> int \<times> byte list \<times> byte list" where
  "strto_parse base xs =
     (let (neg, r1) = split_sign (dropWhile is_c_space xs); (b, r2) = split_base base r1
      in (neg, b, takeWhile (is_digit_in b) r2, dropWhile (is_digit_in b) r2))"

definition digits_val :: "int \<Rightarrow> byte list \<Rightarrow> nat" where
  "digits_val base ds = foldl (\<lambda>v d. v * nat base + nat (digit_value d)) 0 ds"


subsection \<open>Scanning lemmas\<close>

lemma digit_value_range: "- 1 \<le> digit_value c \<and> digit_value c < 36"
proof -
  have le: "uint (c - b) = uint c - uint b" if "b \<le> c" for b :: byte
    using that by (simp add: uint_sub_if' word_le_def)
  show ?thesis
    by (auto simp: digit_value_def le word_le_def)
qed

lemma space_0 [simp]: "\<not> is_c_space 0"
  by (simp add: is_c_space_def)

lemma digit_value_0 [simp]: "digit_value 0 = - 1"
  by (simp add: digit_value_def word_le_def)

lemma is_digit_in_0 [simp]: "\<not> is_digit_in b 0"
  by (simp add: is_digit_in_def)

lemma skip_space_spec:
  "cstr_at m s xs \<Longrightarrow> skip_space m s = Some (s + length (takeWhile is_c_space xs))"
proof (induction xs arbitrary: s)
  case Nil
  then show ?case by (subst skip_space.simps) simp
next
  case (Cons x xs)
  then show ?case by (subst skip_space.simps) auto
qed

lemma take_sign_spec:
  assumes "cstr_at m s xs"
  shows "take_sign m s = (fst (split_sign xs), s + (length xs - length (snd (split_sign xs)))) \<and>
         cstr_at m (s + (length xs - length (snd (split_sign xs)))) (snd (split_sign xs))"
  using assms by (cases xs) (auto simp: take_sign_def split_sign_def)

lemma cstr_at_peek:
  assumes "cstr_at m s xs"
  shows "m s = (if xs = [] then 0 else hd xs)"
    and "1 \<le> length xs \<Longrightarrow> m (Suc s) = (if length xs = 1 then 0 else xs ! 1)"
    and "2 \<le> length xs \<Longrightarrow> m (Suc (Suc s)) = (if length xs = 2 then 0 else xs ! 2)"
  using assms cstr_at_end [OF assms] cstr_at_nth [OF assms, of 1] cstr_at_nth [OF assms, of 2]
  by (auto simp: hd_conv_nth cstr_at_iff numeral_2_eq_2)

lemma hex_prefix_peek:
  assumes "cstr_at m s xs"
  shows "hex_prefix xs \<longleftrightarrow> m s = ch CHR ''0'' \<and> (m (s + 1) = ch CHR ''x'' \<or> m (s + 1) = ch CHR ''X'') \<and>
           0 \<le> digit_value (m (s + 2)) \<and> digit_value (m (s + 2)) < 16"
proof -
  consider "xs = []" | a where "xs = [a]" | a b where "xs = [a, b]" | a b c r where "xs = a # b # c # r"
    by (metis list.exhaust)
  then show ?thesis
    using assms by cases (auto simp: hex_prefix_def is_digit_in_def)
qed

lemma detect_base_spec:
  assumes "cstr_at m s xs"
  shows "detect_base m s base = (fst (split_base base xs), s + (length xs - length (snd (split_base base xs)))) \<and>
         cstr_at m (s + (length xs - length (snd (split_base base xs)))) (snd (split_base base xs))"
proof -
  have "m s = ch CHR ''0'' \<longleftrightarrow> take 1 xs = [ch CHR ''0'']"
    using assms by (cases xs) auto
  moreover have "hex_prefix xs \<Longrightarrow> 2 \<le> length xs" by (auto simp: hex_prefix_def split: list.splits)
  moreover have "2 \<le> length xs \<Longrightarrow> cstr_at m (s + 2) (drop 2 xs)"
    using cstr_at_drop [OF assms, of 2] by simp
  ultimately show ?thesis
    using hex_prefix_peek [OF assms] assms
    by (auto simp: detect_base_def split_base_def Let_def)
qed

text \<open>One step of an accumulator that saturates at \<open>limit\<close>, for either word size.\<close>

lemma accumulate_overflow_iff:
  fixes limit v d b :: "'l::len word"
  assumes "d \<le> limit" and "0 < b"
  shows "(limit - d) div b < v \<longleftrightarrow> unat limit < unat v * unat b + unat d"
proof -
  have "unat (limit - d) = unat limit - unat d" using assms(1) by (simp add: unat_sub)
  moreover have "0 < unat b" using assms(2) by (simp add: word_less_nat_alt)
  ultimately have "unat ((limit - d) div b) < unat v \<longleftrightarrow> unat limit - unat d < unat v * unat b"
    by (simp add: unat_div div_less_iff_less_mult)
  also have "\<dots> \<longleftrightarrow> unat limit < unat v * unat b + unat d"
    using assms(1) by (auto simp: word_le_nat_alt)
  finally show ?thesis by (simp add: word_less_nat_alt)
qed

lemma accumulate_exact:
  fixes limit v d b :: "'l::len word"
  assumes "unat v * unat b + unat d \<le> unat limit"
  shows "unat (v * b + d) = unat v * unat b + unat d"
proof -
  have "unat v * unat b + unat d < 2 ^ LENGTH('l)"
    using assms unsigned_less [of limit] by (simp add: le_less_trans)
  then show ?thesis by (simp add: unat_word_ariths)
qed

lemma foldl_digits_ge:
  "2 \<le> b \<Longrightarrow> v \<le> foldl (\<lambda>v d. v * b + f d) v ds" for b v :: nat
proof (induction ds arbitrary: v)
  case (Cons d ds)
  have "v \<le> v * b + f d" using Cons.prems by (simp add: trans_le_add1)
  also have "\<dots> \<le> foldl (\<lambda>v d. v * b + f d) (v * b + f d) ds" by (rule Cons.IH [OF Cons.prems])
  finally show ?case by simp
qed simp

lemma digit_stop: "digit_value c < 0 \<or> base \<le> digit_value c \<longleftrightarrow> \<not> is_digit_in base c"
  by (auto simp: is_digit_in_def)

lemma unat_of_small_int: "0 \<le> k \<Longrightarrow> k < 256 \<Longrightarrow> unat (word_of_int k :: u64) = nat k"
  by (simp add: unat_eq_nat_uint uint_word_of_int del: nat_uint_eq)

lemma digits_loop_overflowed:
  "cstr_at m s xs \<Longrightarrow>
   digits_loop m s base limit v any True =
     Some (s + length (takeWhile (is_digit_in base) xs), v,
           any \<or> takeWhile (is_digit_in base) xs \<noteq> [], True)"
proof (induction xs arbitrary: s any)
  case Nil
  then show ?case by (subst digits_loop.simps) (simp add: Let_def)
next
  case (Cons x xs)
  then show ?case by (subst digits_loop.simps) (auto simp: Let_def digit_stop)
qed

lemma digits_loop_spec:
  assumes "2 \<le> base" "base \<le> 36" "36 \<le> unat limit"
  shows "cstr_at m s xs \<Longrightarrow> unat v \<le> unat limit \<Longrightarrow>
    (let ds = takeWhile (is_digit_in base) xs;
         N = foldl (\<lambda>v d. v * nat base + nat (digit_value d)) (unat v) ds
     in \<exists>w. digits_loop m s base limit v any False = Some (s + length ds, w, any \<or> ds \<noteq> [], unat limit < N)
            \<and> (N \<le> unat limit \<longrightarrow> unat w = N))"
proof (induction xs arbitrary: s v any)
  case Nil
  then show ?case by (subst digits_loop.simps) (auto simp: Let_def)
next
  case (Cons x xs)
  show ?case
  proof (cases "is_digit_in base x")
    case False
    with Cons.prems show ?thesis
      by (subst digits_loop.simps) (auto simp: Let_def digit_stop)
  next
    case True
    then have d: "0 \<le> digit_value x" "digit_value x < base" by (auto simp: is_digit_in_def)
    let ?d = "word_of_int (digit_value x) :: u64" and ?b = "word_of_int base :: u64"
    have ud: "unat ?d = nat (digit_value x)" "unat ?b = nat base"
      using d assms(1,2) by (simp_all add: unat_of_small_int)
    let ?n = "unat v * nat base + nat (digit_value x)"
    have ov: "(limit - ?d) div ?b < v \<longleftrightarrow> unat limit < ?n"
      using accumulate_overflow_iff [of ?d limit ?b v] d assms ud
      by (simp add: word_le_nat_alt word_less_nat_alt)
    show ?thesis
    proof (cases "unat limit < ?n")
      case True
      have "?n \<le> foldl (\<lambda>v d. v * nat base + nat (digit_value d)) ?n (takeWhile (is_digit_in base) xs)"
        using assms(1) by (intro foldl_digits_ge) simp
      with True Cons.prems d ov \<open>is_digit_in base x\<close> show ?thesis
        by (subst digits_loop.simps) (auto simp: Let_def digit_stop digits_loop_overflowed)
    next
      case False
      then have "unat (v * ?b + ?d) = ?n" using accumulate_exact [of v ?b ?d limit] ud by simp
      with False Cons.prems d ov \<open>is_digit_in base x\<close> Cons.IH [of "Suc s" "v * ?b + ?d" True]
      show ?thesis by (subst digits_loop.simps) (auto simp: Let_def digit_stop)
    qed
  qed
qed


subsection \<open>The conversions as functions of the parsed string\<close>

lemma split_sign_length: "length (snd (split_sign xs)) \<le> length xs"
  by (cases xs) (auto simp: split_sign_def)

lemma split_base_length: "length (snd (split_base b xs)) \<le> length xs"
  by (auto simp: split_base_def)

lemma split_base_range:
  "b = 0 \<or> 2 \<le> b \<and> b \<le> 36 \<Longrightarrow> 2 \<le> fst (split_base b xs) \<and> fst (split_base b xs) \<le> 36"
  by (auto simp: split_base_def)

text \<open>What all four conversions do before the digit loop.\<close>

lemma strto_front:
  assumes xs: "cstr_at m p xs" and base: "base = 0 \<or> 2 \<le> base \<and> base \<le> 36"
  obtains s0 s1 neg b r where
    "skip_space m p = Some s0" "take_sign m s0 = (neg, s1)"
    "detect_base m s1 base = (b, p + (length xs - length r))"
    "cstr_at m (p + (length xs - length r)) r" "length r \<le> length xs" "2 \<le> b" "b \<le> 36"
    "strto_parse base xs = (neg, b, takeWhile (is_digit_in b) r, dropWhile (is_digit_in b) r)"
proof -
  define k where "k = length (takeWhile is_c_space xs)"
  define r1 where "r1 = dropWhile is_c_space xs"
  have k: "k \<le> length xs" and r1: "r1 = drop k xs"
    unfolding k_def r1_def by (rule length_takeWhile_le, rule dropWhile_eq_drop)
  have len1: "length r1 = length xs - k" by (simp add: r1)
  have at1: "cstr_at m (p + k) r1" unfolding r1 by (rule cstr_at_drop [OF xs k])
  obtain neg r2 where sg: "split_sign r1 = (neg, r2)" by fastforce
  obtain b r3 where sb: "split_base base r2 = (b, r3)" by fastforce
  have le: "length r2 \<le> length r1" "length r3 \<le> length r2"
    using split_sign_length [of r1] split_base_length [of base r2] sg sb by simp_all
  from take_sign_spec [OF at1] sg
  have t: "take_sign m (p + k) = (neg, p + k + (length r1 - length r2))"
    and at2: "cstr_at m (p + k + (length r1 - length r2)) r2" by simp_all
  have pos2: "p + k + (length r1 - length r2) = p + (length xs - length r2)"
    using le len1 k by simp
  from detect_base_spec [OF at2, of base] sb
  have d: "detect_base m (p + (length xs - length r2)) base
             = (b, p + (length xs - length r2) + (length r2 - length r3))"
    and at3: "cstr_at m (p + (length xs - length r2) + (length r2 - length r3)) r3"
    unfolding pos2 by simp_all
  have pos3: "p + (length xs - length r2) + (length r2 - length r3) = p + (length xs - length r3)"
    using le len1 by simp
  show thesis
  proof (rule that [of "p + k" neg "p + (length xs - length r2)" b r3])
    show "skip_space m p = Some (p + k)" using skip_space_spec [OF xs] by (simp add: k_def)
    show "strto_parse base xs = (neg, b, takeWhile (is_digit_in b) r3, dropWhile (is_digit_in b) r3)"
      by (simp add: strto_parse_def r1_def [symmetric] sg sb)
  qed (use t d at3 pos2 pos3 le len1 split_base_range [OF base, of r2] sb in auto)
qed

lemma long_max_word [simp]:
  "drop_bit 1 (- 1) = (0x7FFFFFFFFFFFFFFF :: u64)" "drop_bit 1 (- 1) = (0x7FFFFFFF :: u32)"
  by (simp_all add: mask_eq_exp_minus_1)

lemma mask_long_max [simp]:
  "mask 63 = (0x7FFFFFFFFFFFFFFF :: u64)" "mask 31 = (0x7FFFFFFF :: u32)"
  by (simp_all add: mask_eq_exp_minus_1)

lemma strtoll_eq_strtol: "strtoll = strtol"
  by (intro ext) (simp only: strtoll_def strtol_def)

text \<open>The number the parse denotes, with its sign.\<close>

definition signed_val :: "bool \<Rightarrow> nat \<Rightarrow> int" where
  "signed_val neg n = (if neg then - int n else int n)"

lemma strtol_spec:
  assumes xs: "cstr_at m p xs" and base: "base = 0 \<or> 2 \<le> base \<and> base \<le> 36"
  shows "strtol m p endptr base e =
    (let (neg, b, ds, rest) = strto_parse base xs; v = signed_val neg (digits_val b ds) in
     Some (if ds = [] then \<lparr>ret = 0, end_slot = (if endptr then Some p else None), err = e\<rparr>
           else \<lparr>ret = max LONG_MIN (min LONG_MAX v),
                 end_slot = (if endptr then Some (p + (length xs - length rest)) else None),
                 err = (if v < LONG_MIN \<or> LONG_MAX < v then ERANGE else e)\<rparr>))"
proof -
  obtain s0 s1 neg b r where f: "skip_space m p = Some s0" "take_sign m s0 = (neg, s1)"
    "detect_base m s1 base = (b, p + (length xs - length r))"
    "cstr_at m (p + (length xs - length r)) r" "length r \<le> length xs" "2 \<le> b" "b \<le> 36"
    "strto_parse base xs = (neg, b, takeWhile (is_digit_in b) r, dropWhile (is_digit_in b) r)"
    by (rule strto_front [OF xs base])
  define limit :: u64 where "limit = (if neg then 0x7FFFFFFFFFFFFFFF + 1 else 0x7FFFFFFFFFFFFFFF)"
  define ds where "ds = takeWhile (is_digit_in b) r"
  define N where "N = digits_val b ds"
  have lim: "unat limit = (if neg then 2 ^ 63 else 2 ^ 63 - 1)"
    by (simp add: limit_def)
  have "36 \<le> unat limit" by (simp add: lim)
  from digits_loop_spec [OF f(6,7) this f(4), of 0 False]
  obtain w where w: "digits_loop m (p + (length xs - length r)) b limit 0 False False
      = Some (p + (length xs - length r) + length ds, w, ds \<noteq> [], unat limit < N)"
    "N \<le> unat limit \<longrightarrow> unat w = N"
    by (auto simp: Let_def ds_def [symmetric] N_def digits_val_def)
  have "length r = length ds + length (dropWhile (is_digit_in b) r)"
    unfolding ds_def by (metis length_append takeWhile_dropWhile_id)
  then have rest: "p + (length xs - length r) + length ds
      = p + (length xs - length (dropWhile (is_digit_in b) r))"
    using f(5) by linarith
  have signed: "sint w = int N" if "N \<le> unat limit" "N \<noteq> 2 ^ 63"
    using that w(2) lim by (subst sint_small_u64) (auto split: if_splits)
  have min: "w = 0x8000000000000000 \<longleftrightarrow> N = 2 ^ 63" if "N \<le> unat limit"
    using that w(2) by (auto simp: word_unat_eq_iff)
  have eq: "strtol m p endptr base e = Some
     (if ds = [] then \<lparr>ret = 0, end_slot = (if endptr then Some p else None), err = e\<rparr>
      else let en = (if endptr then Some (p + (length xs - length (dropWhile (is_digit_in b) r))) else None)
      in if unat limit < N
         then \<lparr>ret = (if neg then LONG_MIN else LONG_MAX), end_slot = en, err = ERANGE\<rparr>
         else if neg then \<lparr>ret = (if w = 0x8000000000000000 then LONG_MIN else - sint w),
                           end_slot = en, err = e\<rparr>
         else \<lparr>ret = sint w, end_slot = en, err = e\<rparr>)"
    using base f(1-3) w(1) rest by (auto simp: strtol_def Let_def limit_def int_limits)
  show ?thesis
    unfolding eq f(8) using signed min
    by (auto simp: Let_def ds_def [symmetric] N_def [symmetric] signed_val_def int_limits lim not_less)
qed


lemma strtoul_spec:
  assumes xs: "cstr_at m p xs" and base: "base = 0 \<or> 2 \<le> base \<and> base \<le> 36"
  shows "strtoul m p endptr base e =
    (let (neg, b, ds, rest) = strto_parse base xs; n = digits_val b ds in
     Some (if ds = [] then \<lparr>ret = 0, end_slot = (if endptr then Some p else None), err = e\<rparr>
           else \<lparr>ret = (if 2 ^ 64 \<le> n then - 1 else word_of_int (signed_val neg n)),
                 end_slot = (if endptr then Some (p + (length xs - length rest)) else None),
                 err = (if 2 ^ 64 \<le> n then ERANGE else e)\<rparr>))"
proof -
  obtain s0 s1 neg b r where f: "skip_space m p = Some s0" "take_sign m s0 = (neg, s1)"
    "detect_base m s1 base = (b, p + (length xs - length r))"
    "cstr_at m (p + (length xs - length r)) r" "length r \<le> length xs" "2 \<le> b" "b \<le> 36"
    "strto_parse base xs = (neg, b, takeWhile (is_digit_in b) r, dropWhile (is_digit_in b) r)"
    by (rule strto_front [OF xs base])
  define ds where "ds = takeWhile (is_digit_in b) r"
  define N where "N = digits_val b ds"
  have lim: "unat (- 1 :: u64) = 2 ^ 64 - 1" by (simp add: unsigned_minus_1_eq_mask mask_eq_exp_minus_1)
  have "36 \<le> unat (- 1 :: u64)" by (simp add: lim)
  from digits_loop_spec [OF f(6,7) this f(4), of 0 False]
  obtain w where w: "digits_loop m (p + (length xs - length r)) b (- 1) 0 False False
      = Some (p + (length xs - length r) + length ds, w, ds \<noteq> [], 2 ^ 64 - 1 < N)"
    "N \<le> 2 ^ 64 - 1 \<longrightarrow> unat w = N"
    by (auto simp: Let_def ds_def [symmetric] N_def digits_val_def lim)
  have "length r = length ds + length (dropWhile (is_digit_in b) r)"
    unfolding ds_def by (metis length_append takeWhile_dropWhile_id)
  then have rest: "p + (length xs - length r) + length ds
      = p + (length xs - length (dropWhile (is_digit_in b) r))"
    using f(5) by linarith
  have val: "w = word_of_int (int N)" if "N < 2 ^ 64"
  proof -
    have "unat w = N" using w(2) that by simp
    then have "of_nat (unat w) = (of_nat N :: u64)" by simp
    then show ?thesis by simp
  qed
  have gt: "2 ^ 64 - 1 < N \<longleftrightarrow> 2 ^ 64 \<le> N" by auto
  have eq: "strtoul m p endptr base e = Some
     (if ds = [] then \<lparr>ret = 0, end_slot = (if endptr then Some p else None), err = e\<rparr>
      else let en = (if endptr then Some (p + (length xs - length (dropWhile (is_digit_in b) r))) else None)
      in if 2 ^ 64 \<le> N then \<lparr>ret = - 1, end_slot = en, err = ERANGE\<rparr>
         else \<lparr>ret = (if neg then 0 - w else w), end_slot = en, err = e\<rparr>)"
    using base f(1-3) w(1) rest unfolding gt by (auto simp: strtoul_def Let_def)
  show ?thesis
    unfolding eq f(8)
    by (auto simp: Let_def ds_def [symmetric] N_def [symmetric] signed_val_def val not_le)
qed

lemma strto_bad_base:
  assumes "base \<noteq> 0" "base < 2 \<or> 36 < base"
  shows "strtol m p endptr base e = Some \<lparr>ret = 0, end_slot = None, err = EINVAL\<rparr>"
    and "strtoul m p endptr base e = Some \<lparr>ret = 0, end_slot = None, err = EINVAL\<rparr>"
  using assms by (simp_all add: strtol_def strtoul_def)

lemma atoi_digit:
  "ch CHR ''0'' \<le> c \<and> c \<le> ch CHR ''9'' \<longleftrightarrow> is_digit_in 10 c"
  "is_digit_in 10 c \<Longrightarrow> unat (ucast (c - ch CHR ''0'') :: u32) = nat (digit_value c)"
proof -
  have le: "uint (c - b) = uint c - uint b" if "b \<le> c" for b :: byte
    using that by (simp add: uint_sub_if' word_le_def)
  show iff: "ch CHR ''0'' \<le> c \<and> c \<le> ch CHR ''9'' \<longleftrightarrow> is_digit_in 10 c"
    by (auto simp: is_digit_in_def digit_value_def le word_le_def split: if_splits)
  assume "is_digit_in 10 c"
  with iff have v: "digit_value c = int_of_byte (c - ch CHR ''0'')" by (simp add: digit_value_def)
  have "unat (ucast w :: u32) = unat w" for w :: byte
  proof -
    have "unat w < 256" using unsigned_less [of w, where ?'a = nat] by simp
    then show ?thesis by (simp add: unsigned_ucast_eq take_bit_nat_eq_self)
  qed
  then show "unat (ucast (c - ch CHR ''0'') :: u32) = nat (digit_value c)"
    unfolding v by simp
qed

lemma atoi_loop_overflowed: "cstr_at m s xs \<Longrightarrow> atoi_loop m s limit v True = Some (v, True)"
proof (induction xs arbitrary: s)
  case Nil
  then show ?case by (subst atoi_loop.simps) (simp add: word_le_def)
next
  case (Cons x xs)
  then show ?case by (subst atoi_loop.simps) (auto simp: Let_def)
qed

lemma atoi_loop_spec:
  assumes "36 \<le> unat limit"
  shows "cstr_at m s xs \<Longrightarrow> unat v \<le> unat limit \<Longrightarrow>
    (let N = foldl (\<lambda>v d. v * 10 + nat (digit_value d)) (unat v) (takeWhile (is_digit_in 10) xs)
     in \<exists>w. atoi_loop m s limit v False = Some (w, unat limit < N) \<and> (N \<le> unat limit \<longrightarrow> unat w = N))"
proof (induction xs arbitrary: s v)
  case Nil
  then show ?case by (subst atoi_loop.simps) (auto simp: Let_def word_le_def)
next
  case (Cons x xs)
  show ?case
  proof (cases "is_digit_in 10 x")
    case False
    with Cons.prems show ?thesis
      by (subst atoi_loop.simps) (auto simp: Let_def atoi_digit(1) simp del: of_char_Char)
  next
    case True
    let ?d = "ucast (x - ch CHR ''0'') :: u32"
    have d: "unat ?d = nat (digit_value x)" "digit_value x < 10" "0 \<le> digit_value x"
      using True atoi_digit(2) [OF True] by (simp_all add: is_digit_in_def)
    let ?n = "unat v * 10 + nat (digit_value x)"
    have ov: "(limit - ?d) div 10 < v \<longleftrightarrow> unat limit < ?n"
      using accumulate_overflow_iff [of ?d limit 10 v] d assms by (simp add: word_le_nat_alt)
    have unfold: "atoi_loop m s limit v False =
        (if unat limit < ?n then atoi_loop m (Suc s) limit v True
         else atoi_loop m (Suc s) limit (v * 10 + ?d) False)"
      using Cons.prems(1) True ov
      by (subst atoi_loop.simps) (auto simp: Let_def atoi_digit(1) simp del: of_char_Char)
    show ?thesis
    proof (cases "unat limit < ?n")
      case gt: True
      have "?n \<le> foldl (\<lambda>v d. v * 10 + nat (digit_value d)) ?n (takeWhile (is_digit_in 10) xs)"
        by (intro foldl_digits_ge) simp
      with gt True Cons.prems show ?thesis
        by (auto simp: Let_def unfold atoi_loop_overflowed)
    next
      case False
      then have "unat (v * 10 + ?d) = ?n" using accumulate_exact [of v 10 ?d limit] d by simp
      with False True Cons.prems Cons.IH [of "Suc s" "v * 10 + ?d"]
      show ?thesis by (auto simp: Let_def unfold)
    qed
  qed
qed


lemma sint_small_u32: "unat (w :: u32) \<le> 0x7FFFFFFF \<Longrightarrow> sint w = int (unat w)"
proof -
  assume "unat w \<le> 0x7FFFFFFF"
  then have "uint w \<le> 0x7FFFFFFF" by (simp add: unat_eq_nat_uint del: nat_uint_eq)
  then have "signed_take_bit 31 (uint w) = uint w"
    by (intro signed_take_bit_int_eq_self) (auto intro: order_trans [of _ 0])
  then show ?thesis by (simp add: sint_uint)
qed

lemma atoi_value:
  assumes xs: "cstr_at m p xs"
  shows "atoi m p =
    (let (neg, r) = split_sign (dropWhile is_c_space xs);
         v = signed_val neg (digits_val 10 (takeWhile (is_digit_in 10) r))
     in Some (max INT_MIN (min INT_MAX v)))"
proof -
  define k where "k = length (takeWhile is_c_space xs)"
  define r1 where "r1 = dropWhile is_c_space xs"
  have k: "k \<le> length xs" and r1: "r1 = drop k xs"
    unfolding k_def r1_def by (rule length_takeWhile_le, rule dropWhile_eq_drop)
  have at1: "cstr_at m (p + k) r1" unfolding r1 by (rule cstr_at_drop [OF xs k])
  obtain neg r where sg: "split_sign r1 = (neg, r)" by fastforce
  from take_sign_spec [OF at1] sg obtain q where t: "take_sign m (p + k) = (neg, q)"
    and at2: "cstr_at m q r" by auto
  define limit :: u32 where "limit = (if neg then 0x7FFFFFFF + 1 else 0x7FFFFFFF)"
  define N where "N = digits_val 10 (takeWhile (is_digit_in 10) r)"
  have lim: "unat limit = (if neg then 2 ^ 31 else 2 ^ 31 - 1)" by (simp add: limit_def)
  have "36 \<le> unat limit" by (simp add: lim)
  from atoi_loop_spec [OF this at2, of 0]
  obtain w where w: "atoi_loop m q limit 0 False = Some (w, unat limit < N)"
    "N \<le> unat limit \<longrightarrow> unat w = N"
    by (auto simp: Let_def N_def digits_val_def)
  have signed: "sint w = int N" if "N \<le> unat limit" "N \<noteq> 2 ^ 31"
    using that w(2) lim by (subst sint_small_u32) (auto split: if_splits)
  have min: "w = 0x80000000 \<longleftrightarrow> N = 2 ^ 31" if "N \<le> unat limit"
    using that w(2) by (auto simp: word_unat_eq_iff)
  have max: "sint (0x7FFFFFFF :: u32) = INT_MAX" by (simp add: sint_small_u32 int_limits)
  have eq: "atoi m p = Some (if unat limit < N then (if neg then INT_MIN else INT_MAX)
      else if neg then (if w = 0x80000000 then INT_MIN else - sint w) else sint w)"
    using t w(1) skip_space_spec [OF xs] max
    by (auto simp: atoi_def k_def [symmetric] Let_def limit_def int_limits)
  show ?thesis
    unfolding eq using signed min
    by (auto simp: Let_def r1_def [symmetric] sg N_def [symmetric] signed_val_def int_limits lim not_less)
qed

subsection \<open>Properties\<close>

text \<open>
  C9. \<open>strtol\<close> stops on every string and is the mathematical value clamped to \<open>long\<close>: white
  space, sign, base prefix and the longest digit run are read as the grammar says, the result
  is the signed value saturated at \<open>LONG_MIN\<close>/\<open>LONG_MAX\<close>, \<open>errno\<close> becomes \<open>ERANGE\<close> exactly when
  the value is out of range and is otherwise untouched, and the end pointer is past all the
  digits even after an overflow (or the original pointer when there is no digit).
\<close>

theorem strtol_is_clamped_value:
  assumes "cstr_at m p xs" and "base = 0 \<or> 2 \<le> base \<and> base \<le> 36"
  shows "strtol m p endptr base e =
    (let (neg, b, ds, rest) = strto_parse base xs; v = signed_val neg (digits_val b ds) in
     Some (if ds = [] then \<lparr>ret = 0, end_slot = (if endptr then Some p else None), err = e\<rparr>
           else \<lparr>ret = max LONG_MIN (min LONG_MAX v),
                 end_slot = (if endptr then Some (p + (length xs - length rest)) else None),
                 err = (if v < LONG_MIN \<or> LONG_MAX < v then ERANGE else e)\<rparr>))"
  by (rule strtol_spec [OF assms])

theorem strtol_is_clamped_value_witness:
  "strtol (write_bytes (\<lambda>_. 0) 1 [32, 45, 48, 120, 49, 102, 103]) 1 True 0 7
   = Some \<lparr>ret = - 31, end_slot = Some 7, err = 7\<rparr>"
proof -
  let ?m = "write_bytes (\<lambda>_. 0) 1 [32, 45, 48, 120, 49, 102, 103] :: mem"
  have h: "cstr_at ?m 1 [32, 45, 48, 120, 49, 102, 103]" by simp
  have p: "strto_parse 0 [32, 45, 48, 120, 49, 102, 103] = (True, 16, [49, 102], [103])"
    by (simp add: strto_parse_def is_c_space_def split_sign_def split_base_def hex_prefix_def
        is_digit_in_def digit_value_def)
  have v: "digits_val 16 [49, 102] = 31"
    by (simp add: digits_val_def digit_value_def)
  show ?thesis
    using strtol_is_clamped_value [OF h, of 0 True 7]
    by (simp add: p v Let_def signed_val_def int_limits)
qed

text \<open>
  \<open>strtoul\<close> reads the same grammar; a magnitude that fits is returned modulo $2^{64}$ after a
  minus sign (so \<open>"-1"\<close> gives \<open>ULONG_MAX\<close> without an error), a larger one gives \<open>ULONG_MAX\<close> and
  \<open>ERANGE\<close>.
\<close>

theorem strtoul_wraps_negative:
  assumes "cstr_at m p xs" and "base = 0 \<or> 2 \<le> base \<and> base \<le> 36"
  shows "strtoul m p endptr base e =
    (let (neg, b, ds, rest) = strto_parse base xs; n = digits_val b ds in
     Some (if ds = [] then \<lparr>ret = 0, end_slot = (if endptr then Some p else None), err = e\<rparr>
           else \<lparr>ret = (if 2 ^ 64 \<le> n then - 1 else word_of_int (signed_val neg n)),
                 end_slot = (if endptr then Some (p + (length xs - length rest)) else None),
                 err = (if 2 ^ 64 \<le> n then ERANGE else e)\<rparr>))"
  by (rule strtoul_spec [OF assms])

theorem strtoul_wraps_negative_witness:
  "strtoul (write_bytes (\<lambda>_. 0) 1 [45, 49]) 1 True 10 7
   = Some \<lparr>ret = 0xFFFFFFFFFFFFFFFF, end_slot = Some 3, err = 7\<rparr>"
proof -
  let ?m = "write_bytes (\<lambda>_. 0) 1 [45, 49] :: mem"
  have h: "cstr_at ?m 1 [45, 49]" by simp
  have p: "strto_parse 10 [45, 49] = (True, 10, [49], [])"
    by (simp add: strto_parse_def is_c_space_def split_sign_def split_base_def hex_prefix_def
        is_digit_in_def digit_value_def)
  have v: "digits_val 10 [49] = 1" by (simp add: digits_val_def digit_value_def)
  show ?thesis
    using strtoul_wraps_negative [OF h, of 10 True 7] by (simp add: p v Let_def signed_val_def)
qed

text \<open>
  \<open>atoi\<close> saturates: it stops on every string, and its result is the decimal value clamped to
  the range of \<open>int\<close> (zero when there is no digit).
\<close>

theorem atoi_saturates:
  assumes "cstr_at m p xs"
  shows "atoi m p =
    (let (neg, r) = split_sign (dropWhile is_c_space xs);
         v = signed_val neg (digits_val 10 (takeWhile (is_digit_in 10) r))
     in Some (max INT_MIN (min INT_MAX v)))"
  by (rule atoi_value [OF assms])

theorem atoi_saturates_witness:
  "atoi (write_bytes (\<lambda>_. 0) 1 [45, 57, 57, 57, 57, 57, 57, 57, 57, 57, 57]) 1 = Some (- 2147483648)"
proof -
  let ?m = "write_bytes (\<lambda>_. 0) 1 [45, 57, 57, 57, 57, 57, 57, 57, 57, 57, 57] :: mem"
  have h: "cstr_at ?m 1 [45, 57, 57, 57, 57, 57, 57, 57, 57, 57, 57]" by simp
  show ?thesis
    using atoi_saturates [OF h]
    by (simp add: split_sign_def is_c_space_def is_digit_in_def digit_value_def digits_val_def
        signed_val_def int_limits Let_def)
qed

end
