(* ===== verification/Search_Sort.thy ===== *)
theory Search_Sort
  imports Memory_Ops "HOL-Library.Multiset" "HOL-Library.Signed_Division"
begin

section \<open>Binary search, insertion sort, integer arithmetic\<close>

text \<open>
  \<open>src/stdlib/bsearch.c\<close>: \<open>bsearch\<close>, \<open>qsort\<close> (a byte-wise insertion sort), \<open>abs\<close> and \<open>div\<close>
  with their wider variants. The comparator is the caller's: a function of the memory and of two
  addresses. \<open>qsort\<close> swaps elements byte by byte in the flat memory; its correctness is a
  refinement, first to adjacent swaps on the list of elements, then to insertion into a sorted list.
\<close>

type_synonym comparator = "mem \<Rightarrow> addr \<Rightarrow> addr \<Rightarrow> int"

subsection \<open>Definitions\<close>

function bsearch_loop :: "mem \<Rightarrow> addr \<Rightarrow> addr \<Rightarrow> nat \<Rightarrow> nat \<Rightarrow> nat \<Rightarrow> comparator \<Rightarrow> addr" where
  "bsearch_loop m key bytes low high sz compar =
     (if low < high then
        let mid = low + (high - low) div 2;
            element = bytes + mid * sz;
            order = compar m key element
        in if order < 0 then bsearch_loop m key bytes low mid sz compar
           else if 0 < order then bsearch_loop m key bytes (mid + 1) high sz compar
           else element
      else null_ptr)"
  by pat_completeness auto
termination
  by (relation "measure (\<lambda>(m, key, b, low, high, sz, c). high - low)") auto

declare bsearch_loop.simps [simp del]

definition bsearch :: "mem \<Rightarrow> addr \<Rightarrow> addr \<Rightarrow> nat \<Rightarrow> nat \<Rightarrow> comparator \<Rightarrow> addr" where
  "bsearch m key base nmemb sz compar = bsearch_loop m key base 0 nmemb sz compar"

function swap_from :: "mem \<Rightarrow> addr \<Rightarrow> addr \<Rightarrow> nat \<Rightarrow> nat \<Rightarrow> mem" where
  "swap_from m left right i sz =
     (if i < sz
      then let tmp = m (left + i);
               m1 = m(left + i := m (right + i));
               m2 = m1(right + i := tmp)
           in swap_from m2 left right (i + 1) sz
      else m)"
  by pat_completeness auto
termination
  by (relation "measure (\<lambda>(m, l, r, i, sz). sz - i)") auto

declare swap_from.simps [simp del]

definition swap_bytes :: "mem \<Rightarrow> addr \<Rightarrow> addr \<Rightarrow> nat \<Rightarrow> mem" where
  "swap_bytes m left right sz = swap_from m left right 0 sz"

text \<open>The inner loop of \<open>qsort\<close>, \<open>while (j != 0)\<close>, and the outer one.\<close>

fun qsort_inner :: "mem \<Rightarrow> addr \<Rightarrow> nat \<Rightarrow> nat \<Rightarrow> comparator \<Rightarrow> mem" where
  "qsort_inner m bytes 0 sz compar = m"
| "qsort_inner m bytes (Suc j) sz compar =
     (let left = bytes + j * sz; right = bytes + Suc j * sz
      in if compar m left right \<le> 0 then m
         else qsort_inner (swap_bytes m left right sz) bytes j sz compar)"

function qsort_outer :: "mem \<Rightarrow> addr \<Rightarrow> nat \<Rightarrow> nat \<Rightarrow> nat \<Rightarrow> comparator \<Rightarrow> mem" where
  "qsort_outer m bytes i nmemb sz compar =
     (if i < nmemb
      then qsort_outer (qsort_inner m bytes i sz compar) bytes (i + 1) nmemb sz compar
      else m)"
  by pat_completeness auto
termination
  by (relation "measure (\<lambda>(m, b, i, n, sz, c). n - i)") auto

declare qsort_outer.simps [simp del]

definition qsort :: "mem \<Rightarrow> addr \<Rightarrow> nat \<Rightarrow> nat \<Rightarrow> comparator \<Rightarrow> mem" where
  "qsort m base nmemb sz compar = qsort_outer m base 1 nmemb sz compar"

text \<open>
  \<open>abs\<close>, \<open>labs\<close>, \<open>llabs\<close> and \<open>div\<close>, \<open>ldiv\<close>, \<open>lldiv\<close>: \<^term>\<open>None\<close> where C leaves the operation
  undefined (the negated minimum, a zero divisor, the minimum over \<open>-1\<close>). The division truncates
  towards zero.
\<close>

record div_result =
  quot :: int
  rem :: int

definition abs_checked :: "int \<Rightarrow> int \<Rightarrow> int option" where
  "abs_checked min_val j = (if j < 0 then if j = min_val then None else Some (- j) else Some j)"

definition c_abs :: "int \<Rightarrow> int option" where "c_abs j = abs_checked INT_MIN j"
definition c_labs :: "int \<Rightarrow> int option" where "c_labs j = abs_checked LONG_MIN j"
definition c_llabs :: "int \<Rightarrow> int option" where "c_llabs j = abs_checked LONG_MIN j"

definition div_checked :: "int \<Rightarrow> int \<Rightarrow> int \<Rightarrow> div_result option" where
  "div_checked min_val numer denom =
     (if denom = 0 \<or> numer = min_val \<and> denom = - 1 then None
      else Some \<lparr>quot = numer sdiv denom, rem = numer smod denom\<rparr>)"

definition c_div :: "int \<Rightarrow> int \<Rightarrow> div_result option" where
  "c_div numer denom = div_checked INT_MIN numer denom"
definition c_ldiv :: "int \<Rightarrow> int \<Rightarrow> div_result option" where
  "c_ldiv numer denom = div_checked LONG_MIN numer denom"
definition c_lldiv :: "int \<Rightarrow> int \<Rightarrow> div_result option" where
  "c_lldiv numer denom = div_checked LONG_MIN numer denom"

subsection \<open>Binary search\<close>

text \<open>
  The array is partitioned by the key: once an element is past the key all later ones are, and
  before an element below the key all are below.
\<close>

definition partitioned :: "(nat \<Rightarrow> int) \<Rightarrow> nat \<Rightarrow> bool" where
  "partitioned ord n =
     (\<forall>j < n. \<forall>i < j. (ord i < 0 \<longrightarrow> ord j < 0) \<and> (0 < ord j \<longrightarrow> 0 < ord i))"

lemma bsearch_loop_found:
  assumes "bsearch_loop m key b low high sz cmp = p" "p \<noteq> null_ptr"
  shows "\<exists>i. low \<le> i \<and> i < high \<and> p = b + i * sz \<and> cmp m key p = 0"
  using assms
proof (induction m key b low high sz cmp rule: bsearch_loop.induct)
  case (1 m key b low high sz cmp)
  let ?mid = "low + (high - low) div 2"
  show ?case
  proof (cases "low < high")
    case False
    with "1.prems" show ?thesis by (simp add: bsearch_loop.simps)
  next
    case True
    then have mid: "low \<le> ?mid" "?mid < high" by auto
    consider "cmp m key (b + ?mid * sz) < 0" | "0 < cmp m key (b + ?mid * sz)"
      | "cmp m key (b + ?mid * sz) = 0" by linarith
    then show ?thesis
    proof cases
      case lt: 1
      with True "1.prems" have "bsearch_loop m key b low ?mid sz cmp = p"
        by (simp add: bsearch_loop.simps [of _ _ _ low high] Let_def)
      then obtain i where "low \<le> i" "i < ?mid" "p = b + i * sz" "cmp m key p = 0"
        using "1.IH"(1) [OF True refl refl refl lt] "1.prems"(2) by blast
      with mid show ?thesis by (intro exI [of _ i]) auto
    next
      case gt: 2
      with True "1.prems" have e: "bsearch_loop m key b (?mid + 1) high sz cmp = p"
        by (simp add: bsearch_loop.simps [of _ _ _ low high] Let_def)
      have "\<not> cmp m key (b + ?mid * sz) < 0" using gt by simp
      from "1.IH"(2) [OF True refl refl refl this gt e "1.prems"(2)]
      obtain i where "?mid + 1 \<le> i" "i < high" "p = b + i * sz" "cmp m key p = 0" by blast
      with mid show ?thesis by (intro exI [of _ i]) auto
    next
      case 3
      with True "1.prems" have "p = b + ?mid * sz"
        by (simp add: bsearch_loop.simps [of _ _ _ low high] Let_def)
      with 3 mid show ?thesis by blast
    qed
  qed
qed

lemma bsearch_loop_complete:
  assumes "partitioned (\<lambda>i. cmp m key (b + i * sz)) n" "high \<le> n" "b \<noteq> 0"
    and "low \<le> i" "i < high" "cmp m key (b + i * sz) = 0"
  shows "bsearch_loop m key b low high sz cmp \<noteq> null_ptr"
  using assms
proof (induction m key b low high sz cmp rule: bsearch_loop.induct)
  case (1 m key b low high sz cmp)
  let ?mid = "low + (high - low) div 2"
  have lh: "low < high" using "1.prems" by simp
  then have mid: "low \<le> ?mid" "?mid < high" by auto
  have part: "(cmp m key (b + i * sz) < 0 \<longrightarrow> cmp m key (b + j * sz) < 0) \<and>
      (0 < cmp m key (b + j * sz) \<longrightarrow> 0 < cmp m key (b + i * sz))" if "j < n" "i < j" for i j
    using "1.prems"(1) that unfolding partitioned_def by blast
  consider "cmp m key (b + ?mid * sz) < 0" | "0 < cmp m key (b + ?mid * sz)"
    | "cmp m key (b + ?mid * sz) = 0" by linarith
  then show ?case
  proof cases
    case lt: 1
    have "i < ?mid"
    proof (rule ccontr)
      assume "\<not> i < ?mid"
      then have "?mid = i \<or> ?mid < i" by linarith
      then show False using part [of i ?mid] lt "1.prems" by auto
    qed
    with "1.IH"(1) [OF lh refl refl refl lt] "1.prems" mid
    have "bsearch_loop m key b low ?mid sz cmp \<noteq> null_ptr" by simp
    with lt lh show ?thesis by (simp add: bsearch_loop.simps [of _ _ _ low high] Let_def)
  next
    case gt: 2
    have "?mid < i"
    proof (rule ccontr)
      assume "\<not> ?mid < i"
      then have "?mid = i \<or> i < ?mid" by linarith
      then show False using part [of ?mid i] gt mid "1.prems" by auto
    qed
    moreover have "\<not> cmp m key (b + ?mid * sz) < 0" using gt by simp
    ultimately have "bsearch_loop m key b (?mid + 1) high sz cmp \<noteq> null_ptr"
      using "1.IH"(2) [OF lh refl refl refl _ gt] "1.prems" by simp
    with gt lh show ?thesis by (simp add: bsearch_loop.simps [of _ _ _ low high] Let_def)
  next
    case 3
    with lh "1.prems"(3) show ?thesis by (simp add: bsearch_loop.simps [of _ _ _ low high] Let_def)
  qed
qed


subsection \<open>Sorting: from memory to the list of elements\<close>

definition elems :: "mem \<Rightarrow> addr \<Rightarrow> nat \<Rightarrow> nat \<Rightarrow> byte list list" where
  "elems m base n sz = map (\<lambda>i. read_bytes m (base + i * sz) sz) [0..<n]"

text \<open>The inner loop on a list of elements, and insertion from the right into a list.\<close>

fun sift :: "('a \<Rightarrow> 'a \<Rightarrow> int) \<Rightarrow> 'a list \<Rightarrow> nat \<Rightarrow> 'a list" where
  "sift cmp es 0 = es"
| "sift cmp es (Suc j) =
     (if cmp (es ! j) (es ! Suc j) \<le> 0 then es
      else sift cmp (es[j := es ! Suc j, Suc j := es ! j]) j)"

fun insert_rev :: "('a \<Rightarrow> 'a \<Rightarrow> int) \<Rightarrow> 'a \<Rightarrow> 'a list \<Rightarrow> 'a list" where
  "insert_rev cmp x [] = [x]"
| "insert_rev cmp x (a # as) = (if cmp a x \<le> 0 then x # a # as else a # insert_rev cmp x as)"

lemma length_elems [simp]: "length (elems m b n sz) = n"
  by (simp add: elems_def)

lemma nth_elems [simp]: "i < n \<Longrightarrow> elems m b n sz ! i = read_bytes m (b + i * sz) sz"
  by (simp add: elems_def)

lemma swap_from_apply:
  assumes "l + sz \<le> r" "i \<le> sz"
  shows "swap_from m l r i sz p =
    (if l + i \<le> p \<and> p < l + sz then m (p - l + r)
     else if r + i \<le> p \<and> p < r + sz then m (p - r + l) else m p)"
  using assms
proof (induction "sz - i" arbitrary: i m)
  case 0
  then show ?case by (subst swap_from.simps) auto
next
  case (Suc k)
  let ?m = "(m(l + i := m (r + i)))(r + i := m (l + i))"
  have lt: "i < sz" using Suc.hyps(2) by simp
  have IH: "swap_from ?m l r (Suc i) sz p =
    (if l + Suc i \<le> p \<and> p < l + sz then ?m (p - l + r)
     else if r + Suc i \<le> p \<and> p < r + sz then ?m (p - r + l) else ?m p)"
    by (rule Suc.hyps(1)) (use Suc.hyps(2) Suc.prems lt in auto)
  have step: "swap_from m l r i sz = swap_from ?m l r (Suc i) sz"
    using lt by (subst swap_from.simps) (simp add: Let_def)
  consider "p = l + i" | "p = r + i" | "p \<noteq> l + i" "p \<noteq> r + i" by blast
  then show ?case
  proof cases
    case 1
    then show ?thesis unfolding step IH using lt Suc.prems by (auto simp: add.commute)
  next
    case 2
    then show ?thesis unfolding step IH using lt Suc.prems by (auto simp: add.commute)
  next
    case 3
    then have "l + i \<le> p \<longleftrightarrow> l + Suc i \<le> p" "r + i \<le> p \<longleftrightarrow> r + Suc i \<le> p" by auto
    with 3 show ?thesis unfolding step IH using lt Suc.prems by auto
  qed
qed

lemma swap_bytes_apply:
  "l + sz \<le> r \<Longrightarrow> swap_bytes m l r sz p =
    (if l \<le> p \<and> p < l + sz then m (p - l + r)
     else if r \<le> p \<and> p < r + sz then m (p - r + l) else m p)"
  using swap_from_apply [of l sz r 0 m p] by (simp add: swap_bytes_def)

lemma read_swapped:
  assumes "l + sz \<le> r"
  shows "read_bytes (swap_bytes m l r sz) l sz = read_bytes m r sz"
    and "read_bytes (swap_bytes m l r sz) r sz = read_bytes m l sz"
  using assms by (auto intro!: nth_equalityI simp: swap_bytes_apply add.commute)

lemma slot_le: "i < j \<Longrightarrow> b + i * sz + sz \<le> b + j * sz" for i j sz b :: nat
proof -
  assume "i < j"
  then have "Suc i * sz \<le> j * sz" by (intro mult_le_mono1) simp
  then show ?thesis by simp
qed

lemma elems_swap:
  assumes "Suc j < n"
  shows "elems (swap_bytes m (b + j * sz) (b + Suc j * sz) sz) b n sz =
         (elems m b n sz)[j := elems m b n sz ! Suc j, Suc j := elems m b n sz ! j]"
proof (rule nth_equalityI)
  let ?l = "b + j * sz" and ?r = "b + Suc j * sz"
  have lr: "?l + sz \<le> ?r" by simp
  fix i assume "i < length (elems (swap_bytes m ?l ?r sz) b n sz)"
  then have i: "i < n" by simp
  have other: "read_bytes (swap_bytes m ?l ?r sz) (b + i * sz) sz = read_bytes m (b + i * sz) sz"
    if "i \<noteq> j" "i \<noteq> Suc j"
  proof (rule read_bytes_cong)
    fix k assume "k < sz"
    have "i < j \<or> Suc j < i" using that by linarith
    with \<open>k < sz\<close> show "swap_bytes m ?l ?r sz (b + i * sz + k) = m (b + i * sz + k)"
      using slot_le [of i j b sz] slot_le [of "Suc j" i b sz]
      unfolding swap_bytes_apply [OF lr] by auto
  qed
  have left: "read_bytes (swap_bytes m ?l ?r sz) ?l sz = read_bytes m ?r sz"
    by (rule read_swapped(1) [OF lr])
  have right: "read_bytes (swap_bytes m ?l ?r sz) ?r sz = read_bytes m ?l sz"
    by (rule read_swapped(2) [OF lr])
  show "elems (swap_bytes m ?l ?r sz) b n sz ! i =
    (elems m b n sz)[j := elems m b n sz ! Suc j, Suc j := elems m b n sz ! j] ! i"
    using i assms other left right by (cases "i = j"; cases "i = Suc j") auto
qed simp

lemma swap_frame:
  "Suc j < n \<Longrightarrow> p < b \<or> b + n * sz \<le> p \<Longrightarrow> swap_bytes m (b + j * sz) (b + Suc j * sz) sz p = m p"
  using slot_le [of "Suc j" n b sz] by (subst swap_bytes_apply) auto

lemma qsort_inner_refines:
  assumes "\<And>m a c. compar m a c = cmp (read_bytes m a sz) (read_bytes m c sz)"
  shows "j < n \<Longrightarrow>
    elems (qsort_inner m b j sz compar) b n sz = sift cmp (elems m b n sz) j \<and>
    (\<forall>p. p < b \<or> b + n * sz \<le> p \<longrightarrow> qsort_inner m b j sz compar p = m p)"
proof (induction j arbitrary: m)
  case (Suc j)
  let ?m = "swap_bytes m (b + j * sz) (b + Suc j * sz) sz"
  from Suc show ?case
    using Suc.IH [of ?m] elems_swap [of j n m b sz] swap_frame [of j n _ b sz m]
    by (auto simp: Let_def assms simp del: mult_Suc)
qed simp

lemma sift_insert:
  "sift cmp (rev as @ x # bs) (length as) = rev (insert_rev cmp x as) @ bs"
proof (induction as arbitrary: bs)
  case (Cons a as)
  have "sift cmp (rev (a # as) @ x # bs) (length (a # as)) =
     (if cmp a x \<le> 0 then rev (a # as) @ x # bs else sift cmp (rev as @ x # a # bs) (length as))"
    by (simp add: nth_append list_update_append)
  with Cons.IH [of "a # bs"] show ?case by simp
qed simp

lemma mset_insert_rev [simp]: "mset (insert_rev cmp x as) = add_mset x (mset as)"
  by (induction as) auto

lemma set_insert_rev [simp]: "set (insert_rev cmp x as) = insert x (set as)"
  by (induction as) auto


lemma sift_take_drop:
  assumes "j < length es"
  shows "sift cmp es j = rev (insert_rev cmp (es ! j) (rev (take j es))) @ drop (Suc j) es"
  using sift_insert [of cmp "rev (take j es)" "es ! j" "drop (Suc j) es"] assms
  by (simp add: id_take_nth_drop [symmetric] min_def)

lemma mset_sift: "j < length es \<Longrightarrow> mset (sift cmp es j) = mset es"
  by (simp add: sift_take_drop) (metis add_mset_add_single id_take_nth_drop mset.simps(2) mset_append
      union_mset_add_mset_left union_mset_add_mset_right)

subsection \<open>Sorting: the comparator's contract\<close>

text \<open>
  What \<open>qsort\<close> needs of a comparator, seen as a function of the two elements' bytes: on the
  elements it can be given it is a total preorder.
\<close>

locale total_comparator =
  fixes cmp :: "byte list \<Rightarrow> byte list \<Rightarrow> int" and ok :: "byte list \<Rightarrow> bool"
  assumes total: "ok x \<Longrightarrow> ok y \<Longrightarrow> cmp x y \<le> 0 \<or> cmp y x \<le> 0"
    and trans: "ok x \<Longrightarrow> ok y \<Longrightarrow> ok z \<Longrightarrow> cmp x y \<le> 0 \<Longrightarrow> cmp y z \<le> 0 \<Longrightarrow> cmp x z \<le> 0"
begin

lemma sorted_insert_rev:
  "\<forall>a \<in> set as. ok a \<Longrightarrow> ok x \<Longrightarrow> sorted_wrt (\<lambda>x y. cmp y x \<le> 0) as \<Longrightarrow>
   sorted_wrt (\<lambda>x y. cmp y x \<le> 0) (insert_rev cmp x as)"
proof (induction as)
  case (Cons a as)
  show ?case
  proof (cases "cmp a x \<le> 0")
    case True
    with Cons.prems show ?thesis by (auto intro: trans [of _ a x])
  next
    case False
    then have "cmp x a \<le> 0" using total [of x a] Cons.prems by auto
    with False Cons show ?thesis by auto
  qed
qed simp

lemma sorted_sift:
  assumes "j < length es" "\<forall>e \<in> set es. ok e" "sorted_wrt (\<lambda>x y. cmp x y \<le> 0) (take j es)"
  shows "sorted_wrt (\<lambda>x y. cmp x y \<le> 0) (take (Suc j) (sift cmp es j))"
proof -
  let ?new = "insert_rev cmp (es ! j) (rev (take j es))"
  have "sorted_wrt (\<lambda>x y. cmp y x \<le> 0) ?new"
    by (rule sorted_insert_rev) (use assms in \<open>auto simp: sorted_wrt_rev dest: in_set_takeD\<close>)
  moreover have "length ?new = Suc j"
    using arg_cong [OF mset_insert_rev [of cmp "es ! j" "rev (take j es)"], of size] assms(1)
    by (simp add: min_def del: mset_insert_rev)
  ultimately show ?thesis
    by (simp add: sift_take_drop [OF assms(1)] sorted_wrt_rev)
qed

lemma qsort_outer_sorts:
  assumes compar: "\<And>m a c. compar m a c = cmp (read_bytes m a sz) (read_bytes m c sz)"
    and ok: "\<And>bs. length bs = sz \<Longrightarrow> ok bs"
  shows "i \<le> n \<Longrightarrow> sorted_wrt (\<lambda>x y. cmp x y \<le> 0) (take i (elems m b n sz)) \<Longrightarrow>
    sorted_wrt (\<lambda>x y. cmp x y \<le> 0) (elems (qsort_outer m b i n sz compar) b n sz) \<and>
    mset (elems (qsort_outer m b i n sz compar) b n sz) = mset (elems m b n sz) \<and>
    (\<forall>p. p < b \<or> b + n * sz \<le> p \<longrightarrow> qsort_outer m b i n sz compar p = m p)"
proof (induction "n - i" arbitrary: i m)
  case 0
  then show ?case by (subst (1 2 3) qsort_outer.simps) simp
next
  case (Suc k)
  then have i: "i < n" by simp
  let ?m = "qsort_inner m b i sz compar"
  note inner = qsort_inner_refines [where cmp = cmp and compar = compar and sz = sz, OF compar i, of m b]
  have "\<forall>e \<in> set (elems m b n sz). ok e" by (auto simp: elems_def ok)
  then have "sorted_wrt (\<lambda>x y. cmp x y \<le> 0) (take (Suc i) (elems ?m b n sz))"
    using sorted_sift [of i "elems m b n sz"] Suc.prems(2) i inner by simp
  with Suc.hyps(1) [of "Suc i" ?m] Suc.hyps(2) i
  have "sorted_wrt (\<lambda>x y. cmp x y \<le> 0) (elems (qsort_outer ?m b (Suc i) n sz compar) b n sz) \<and>
    mset (elems (qsort_outer ?m b (Suc i) n sz compar) b n sz) = mset (elems ?m b n sz) \<and>
    (\<forall>p. p < b \<or> b + n * sz \<le> p \<longrightarrow> qsort_outer ?m b (Suc i) n sz compar p = ?m p)"
    by simp
  moreover have "mset (elems ?m b n sz) = mset (elems m b n sz)"
    using inner i by (simp add: mset_sift)
  moreover have "qsort_outer m b i n sz compar = qsort_outer ?m b (Suc i) n sz compar"
    using i by (subst qsort_outer.simps) simp
  ultimately show ?case using inner by auto
qed

lemma qsort_sorts:
  assumes "\<And>m a c. compar m a c = cmp (read_bytes m a sz) (read_bytes m c sz)"
    and "\<And>bs. length bs = sz \<Longrightarrow> ok bs"
  shows "sorted_wrt (\<lambda>x y. cmp x y \<le> 0) (elems (qsort m b n sz compar) b n sz) \<and>
    mset (elems (qsort m b n sz compar) b n sz) = mset (elems m b n sz) \<and>
    (\<forall>p. p < b \<or> b + n * sz \<le> p \<longrightarrow> qsort m b n sz compar p = m p)"
proof (cases "n = 0")
  case True
  then show ?thesis by (simp add: qsort_def qsort_outer.simps elems_def)
next
  case False
  moreover have "sorted_wrt (\<lambda>x y. cmp x y \<le> 0) (take 1 (elems m b n sz))"
    by (cases "elems m b n sz") auto
  ultimately show ?thesis
    unfolding qsort_def by (intro qsort_outer_sorts [where compar = compar and sz = sz, OF assms]) auto
qed

end

text \<open>
  The comparator that calls \<open>memcmp\<close> on two elements keeps the contract, for elements of any one
  size: it is the lexicographic order of their bytes.
\<close>

definition memcmp_bytes :: "byte list \<Rightarrow> byte list \<Rightarrow> int" where
  "memcmp_bytes xs ys =
     memcmp (write_bytes (\<lambda>_. 0) 0 (xs @ ys)) 0 (length xs) (min (length xs) (length ys))"

lemma memcmp_cong:
  assumes "\<And>i. i < n \<Longrightarrow> m (a + i) = m' (a' + i)" "\<And>i. i < n \<Longrightarrow> m (b + i) = m' (b' + i)"
  shows "memcmp m a b n = memcmp m' a' b' n"
proof -
  have "memcmp_from m a b i n = memcmp_from m' a' b' i n" if "i \<le> n" for i
    using that
  proof (induction "n - i" arbitrary: i)
    case 0
    then show ?case by (simp add: memcmp_from.simps)
  next
    case (Suc k)
    then have "memcmp_from m a b (Suc i) n = memcmp_from m' a' b' (Suc i) n" by simp
    then show ?case using assms Suc.hyps(2)
      by (subst (1 2) memcmp_from.simps) simp
  qed
  then show ?thesis by (simp add: memcmp_def)
qed

lemma memcmp_bytes_memcmp:
  "memcmp m a c sz = memcmp_bytes (read_bytes m a sz) (read_bytes m c sz)"
  unfolding memcmp_bytes_def
  by (simp, rule memcmp_cong) (simp_all add: write_bytes_apply nth_append)

lemma memcmp_bytes_le: "length xs = length ys \<Longrightarrow> memcmp_bytes xs ys \<le> 0 \<longleftrightarrow> xs \<le> ys"
proof -
  assume len: "length xs = length ys"
  let ?m = "write_bytes (\<lambda>_. 0) 0 (xs @ ys) :: mem"
  have r: "read_bytes ?m 0 (length xs) = xs" "read_bytes ?m (length xs) (length xs) = ys"
    using len by (auto intro!: nth_equalityI simp: write_bytes_apply nth_append)
  show ?thesis
    using memcmp_sign [of ?m 0 "length xs" "length xs"] len
    unfolding r memcmp_bytes_def by (auto simp: le_less)
qed

interpretation memcmp_order: total_comparator memcmp_bytes "\<lambda>bs. length bs = sz" for sz
  by unfold_locales (auto simp: memcmp_bytes_le)


subsection \<open>Quotient and remainder\<close>

lemma div_checked_law:
  assumes "div_checked mn a b = Some r"
  shows "a = quot r * b + rem r \<and> \<bar>rem r\<bar> < \<bar>b\<bar> \<and> (rem r = 0 \<or> sgn (rem r) = sgn a)"
proof -
  have b: "b \<noteq> 0" and r: "r = \<lparr>quot = a sdiv b, rem = a smod b\<rparr>"
    using assms by (auto simp: div_checked_def split: if_splits)
  have law: "a = a sdiv b * b + a smod b" by (rule sdiv_mult_smod_eq [symmetric])
  have bnd: "0 \<le> \<bar>a\<bar> mod \<bar>b\<bar>" "\<bar>a\<bar> mod \<bar>b\<bar> < \<bar>b\<bar>" using b by simp_all
  consider "0 < a" | "a = 0" | "a < 0" by linarith
  then have "\<bar>a smod b\<bar> < \<bar>b\<bar> \<and> (a smod b = 0 \<or> sgn (a smod b) = sgn a)"
  proof cases
    case 1
    then have "a smod b = \<bar>a\<bar> mod \<bar>b\<bar>" by (simp add: signed_modulo_int_def)
    with bnd 1 show ?thesis by (simp only:) (simp add: sgn_if)
  next
    case 3
    then have "a smod b = - (\<bar>a\<bar> mod \<bar>b\<bar>)" by (simp add: signed_modulo_int_def)
    with bnd 3 show ?thesis by (simp only:) (simp add: sgn_if)
  qed (simp add: b signed_modulo_int_def)
  with law show ?thesis unfolding r by simp
qed

subsection \<open>Properties\<close>

text \<open>
  C7. \<open>qsort\<close> sorts: for a comparator that depends on the two elements' bytes and is a total
  preorder on elements of the given size, afterwards the array is ordered, it holds the same
  elements with the same multiplicities, and no byte outside the array has changed.
\<close>

theorem qsort_sorts_elements:
  assumes "\<And>m a c. compar m a c = cmp (read_bytes m a sz) (read_bytes m c sz)"
    and "\<And>x y. length x = sz \<Longrightarrow> length y = sz \<Longrightarrow> cmp x y \<le> 0 \<or> cmp y x \<le> 0"
    and "\<And>x y z. length x = sz \<Longrightarrow> length y = sz \<Longrightarrow> length z = sz \<Longrightarrow>
           cmp x y \<le> 0 \<Longrightarrow> cmp y z \<le> 0 \<Longrightarrow> cmp x z \<le> 0"
  shows "sorted_wrt (\<lambda>x y. cmp x y \<le> 0) (elems (qsort m base n sz compar) base n sz) \<and>
    mset (elems (qsort m base n sz compar) base n sz) = mset (elems m base n sz) \<and>
    (\<forall>p. p < base \<or> base + n * sz \<le> p \<longrightarrow> qsort m base n sz compar p = m p)"
proof -
  have "total_comparator cmp (\<lambda>bs. length bs = sz)"
    by unfold_locales (use assms(2,3) in blast)+
  from total_comparator.qsort_sorts [where compar = compar and sz = sz, OF this assms(1)]
  show ?thesis by blast
qed

theorem qsort_sorts_elements_witness:
  "sorted_wrt (\<lambda>x y. memcmp_bytes x y \<le> 0)
     (elems (qsort (write_bytes (\<lambda>_. 0) 4 [3, 1, 2, 9, 2, 8]) 4 3 2 (\<lambda>m a c. memcmp m a c 2)) 4 3 2)"
proof -
  let ?c = "\<lambda>m a c. memcmp m a c 2"
  have 1: "?c m a c = memcmp_bytes (read_bytes m a 2) (read_bytes m c 2)" for m a c
    by (rule memcmp_bytes_memcmp)
  have 2: "memcmp_bytes x y \<le> 0 \<or> memcmp_bytes y x \<le> 0" if "length x = 2" "length y = 2" for x y
    using memcmp_order.total [of x 2 y] that by simp
  have 3: "memcmp_bytes x z \<le> 0" if "length x = 2" "length y = 2" "length z = 2"
    "memcmp_bytes x y \<le> 0" "memcmp_bytes y z \<le> 0" for x y z
    using memcmp_order.trans [of x 2 y z] that by simp
  show ?thesis
    by (rule qsort_sorts_elements [where cmp = memcmp_bytes and compar = ?c and sz = 2, THEN conjunct1])
      (fact 1, rule 2, assumption+, rule 3, assumption+)
qed

text \<open>
  C8. \<open>bsearch\<close> on an array partitioned by the key returns an element that compares equal if
  there is one, and the null pointer otherwise.
\<close>

theorem bsearch_finds_iff_present:
  assumes "partitioned (\<lambda>i. compar m key (base + i * sz)) n" and "base \<noteq> null_ptr"
  shows "(\<exists>i < n. bsearch m key base n sz compar = base + i * sz \<and> compar m key (base + i * sz) = 0) \<or>
    bsearch m key base n sz compar = null_ptr \<and> (\<forall>i < n. compar m key (base + i * sz) \<noteq> 0)"
  using bsearch_loop_found [of m key base 0 n sz compar]
    bsearch_loop_complete [where cmp = compar and m = m and key = key and b = base and sz = sz
      and n = n and high = n and low = 0, OF assms(1) order_refl]
    assms(2)
  by (fastforce simp: bsearch_def)

theorem bsearch_finds_iff_present_witness:
  "\<exists>i < 4. bsearch (write_bytes (\<lambda>_. 0) 10 [2, 4, 6, 8]) 12 10 4 1 (\<lambda>m a c. memcmp m a c 1) = 10 + i"
proof -
  let ?m = "write_bytes (\<lambda>_. 0) 10 [2, 4, 6, 8] :: mem" and ?c = "\<lambda>m a c. memcmp m a c 1"
  let ?f = "\<lambda>i. ?c ?m 12 (10 + i * 1)"
  have val: "0 < ?f 0" "0 < ?f 1" "?f 2 = 0" "?f 3 < 0"
    by (simp_all add: memcmp_def memcmp_from.simps)
  have part: "partitioned f 4" if "0 < f 0" "0 < f 1" "f 2 = 0" "f 3 < 0" for f
    using that by (simp add: partitioned_def eval_nat_numeral All_less_Suc)
  have "partitioned ?f 4" by (rule part) (rule val)+
  from bsearch_finds_iff_present [where compar = ?c and m = ?m and key = 12 and base = 10
      and sz = 1 and n = 4, OF this] val(3)
  show ?thesis by (auto dest: spec [where x = 2])
qed

end
