(* ===== verification/Allocator.thy ===== *)
theory Allocator
  imports Memory_Ops "HOL-Library.Monad_Syntax"
begin

section \<open>The heap allocator (\<open>stdlib/allocator.c\<close>, \<open>stdlib/calloc.c\<close>)\<close>

text \<open>
  The heap is one run of memory obtained from \<open>brk\<close>, tiled by blocks: a 32-byte header
  (\<open>struct mini_block\<close>) followed by its payload, the headers linked in address order. Addresses
  and sizes are 64-bit words and every guard against wrap-around is the code's own. Headers live
  in a typed store \<open>hdr\<close> (address to header), payload bytes in a flat memory; that the two never
  overlap is part of what is proved (every payload ends where the next header starts).

  \<open>mini_sys_brk\<close> is a system call, hence a parameter: a function from the kernel's state and the
  requested break to the raw result and the kernel's next state. No law about it is assumed for
  safety: the code compares the result with what it asked for.

  The chain walks are loops over links read from memory, so they are partial functions into
  \<^typ>\<open>'a option\<close> (\<open>None\<close>: the loop does not end); taking the lock while it is held is \<open>None\<close>
  too (a single caller would wait for itself). The theorems show that no operation on a
  well-formed heap ends in \<open>None\<close>.
\<close>

record mini_block =
  blk_size :: u64
  blk_next :: u64
  is_free :: u64
  requested_size :: u64

type_synonym block_store = "u64 \<Rightarrow> mini_block"

record 'k heap =
  block_head :: u64
  block_tail :: u64
  heap_end :: u64
  heap_initialized :: bool
  allocator_locked :: bool
  hdr :: block_store
  payload_bytes :: mem
  alloc_errno :: int
  kern :: 'k

type_synonym 'k brk = "'k \<Rightarrow> u64 \<Rightarrow> u64 \<times> 'k"

definition header_size :: u64 where "header_size = 32"
definition mini_alloc_alignment :: u64 where "mini_alloc_alignment = 16"

lemmas alloc_consts [c_consts] = header_size_def mini_alloc_alignment_def

definition upd_block :: "'k heap \<Rightarrow> u64 \<Rightarrow> (mini_block \<Rightarrow> mini_block) \<Rightarrow> 'k heap" where
  "upd_block h b f = h\<lparr>hdr := (hdr h)(b := f (hdr h b))\<rparr>"

subsection \<open>The operations\<close>

definition allocator_lock :: "'k heap \<Rightarrow> 'k heap option" where
  "allocator_lock h = (if allocator_locked h then None else Some (h\<lparr>allocator_locked := True\<rparr>))"

definition allocator_unlock :: "'k heap \<Rightarrow> 'k heap" where
  "allocator_unlock h = h\<lparr>allocator_locked := False\<rparr>"

definition align_size :: "u64 \<Rightarrow> u64 option" where
  "align_size sz =
     (if - 1 - (mini_alloc_alignment - 1) < sz then None
      else Some ((sz + (mini_alloc_alignment - 1)) AND NOT (mini_alloc_alignment - 1)))"

definition initialize_heap :: "'k brk \<Rightarrow> 'k heap \<Rightarrow> bool \<times> 'k heap" where
  "initialize_heap brk h =
     (if heap_initialized h then (True, h)
      else
        let (current, k) = brk (kern h) 0; h = h\<lparr>kern := k\<rparr> in
        if sint current \<le> 0 then (False, h)
        else if - 1 - (mini_alloc_alignment - 1) < current then (False, h)
        else
          let aligned = (current + (mini_alloc_alignment - 1)) AND NOT (mini_alloc_alignment - 1);
              (moved, h) =
                (if aligned \<noteq> current
                 then (let (r, k) = brk (kern h) aligned in (r = aligned, h\<lparr>kern := k\<rparr>))
                 else (True, h))
          in if \<not> moved then (False, h)
             else (True, h\<lparr>heap_end := aligned, heap_initialized := True\<rparr>))"

definition split_block :: "'k heap \<Rightarrow> u64 \<Rightarrow> u64 \<Rightarrow> u64 \<times> 'k heap" where
  "split_block h block sz =
     (let remaining = blk_size (hdr h block) - sz in
      if remaining < header_size + mini_alloc_alignment then (0, h)
      else
        let split = block + header_size + sz;
            h = upd_block h split (\<lambda>_. \<lparr>blk_size = remaining - header_size,
                                         blk_next = blk_next (hdr h block),
                                         is_free = 1, requested_size = 0\<rparr>);
            h = upd_block h block (\<lambda>b. b\<lparr>blk_size := sz, blk_next := split\<rparr>);
            h = (if block_tail h = block then h\<lparr>block_tail := split\<rparr> else h)
        in (split, h))"

partial_function (option) find_free_from :: "block_store \<Rightarrow> u64 \<Rightarrow> u64 \<Rightarrow> u64 option" where
  "find_free_from H block sz =
     (if block = 0 then Some 0
      else if is_free (H block) \<noteq> 0 \<and> sz \<le> blk_size (H block) then Some block
      else find_free_from H (blk_next (H block)) sz)"

definition find_free_block :: "'k heap \<Rightarrow> u64 \<Rightarrow> u64 option" where
  "find_free_block h sz = find_free_from (hdr h) (block_head h) sz"

definition grow_heap :: "'k brk \<Rightarrow> 'k heap \<Rightarrow> u64 \<Rightarrow> u64 \<times> 'k heap" where
  "grow_heap brk h sz =
     (let (ok, h) = initialize_heap brk h in
      if \<not> ok then (0, h)
      else if - 1 - header_size < sz then (0, h)
      else if - 1 - (header_size + sz) < heap_end h then (0, h)
      else
        let target = heap_end h + (header_size + sz);
            (result, k) = brk (kern h) target; h = h\<lparr>kern := k\<rparr> in
        if result \<noteq> target then (0, h)
        else
          let block = heap_end h;
              h = upd_block h block (\<lambda>_. \<lparr>blk_size = sz, blk_next = 0, is_free = 0,
                                           requested_size = 0\<rparr>);
              h = (if block_tail h \<noteq> 0
                   then upd_block h (block_tail h) (\<lambda>b. b\<lparr>blk_next := block\<rparr>)
                   else h\<lparr>block_head := block\<rparr>)
          in (block, h\<lparr>block_tail := block, heap_end := target\<rparr>))"

definition malloc :: "'k brk \<Rightarrow> 'k heap \<Rightarrow> u64 \<Rightarrow> (u64 \<times> 'k heap) option" where
  "malloc brk h sz =
     (if sz = 0 then Some (0, h)
      else case align_size sz of
        None \<Rightarrow> Some (0, h\<lparr>alloc_errno := ENOMEM\<rparr>)
      | Some aligned \<Rightarrow> do {
          h \<leftarrow> allocator_lock h;
          block \<leftarrow> find_free_block h aligned;
          if block \<noteq> 0 then
            let (_, h) = split_block h block aligned;
                h = upd_block h block (\<lambda>b. b\<lparr>is_free := 0, requested_size := sz\<rparr>)
            in Some (block + header_size, allocator_unlock h)
          else
            let (block, h) = grow_heap brk h aligned in
            if block \<noteq> 0 then
              let h = upd_block h block (\<lambda>b. b\<lparr>requested_size := sz\<rparr>)
              in Some (block + header_size, allocator_unlock h)
            else Some (0, (allocator_unlock h)\<lparr>alloc_errno := ENOMEM\<rparr>)
        })"

definition blocks_adjacent :: "'k heap \<Rightarrow> u64 \<Rightarrow> u64 \<Rightarrow> bool" where
  "blocks_adjacent h left right = (left + header_size + blk_size (hdr h left) = right)"

definition merge_with_next :: "'k heap \<Rightarrow> u64 \<Rightarrow> 'k heap" where
  "merge_with_next h block =
     (let nxt = blk_next (hdr h block) in
      if nxt = 0 \<or> is_free (hdr h nxt) = 0 \<or> \<not> blocks_adjacent h block nxt then h
      else
        let h = upd_block h block (\<lambda>b. b\<lparr>blk_size := blk_size b + (header_size + blk_size (hdr h nxt))\<rparr>);
            h = upd_block h block (\<lambda>b. b\<lparr>blk_next := blk_next (hdr h nxt)\<rparr>)
        in if block_tail h = nxt then h\<lparr>block_tail := block\<rparr> else h)"

partial_function (option) find_previous :: "block_store \<Rightarrow> u64 \<Rightarrow> u64 \<Rightarrow> u64 \<Rightarrow> u64 option" where
  "find_previous H cursor block previous =
     (if cursor \<noteq> 0 \<and> cursor \<noteq> block then find_previous H (blk_next (H cursor)) block cursor
      else Some previous)"

definition free :: "'k heap \<Rightarrow> u64 \<Rightarrow> 'k heap option" where
  "free h ptr =
     (if ptr = 0 then Some h
      else do {
        h \<leftarrow> allocator_lock h;
        let block = ptr - header_size;
        let h = upd_block h block (\<lambda>b. b\<lparr>is_free := 1\<rparr>);
        let h = merge_with_next h block;
        previous \<leftarrow> find_previous (hdr h) (block_head h) block 0;
        let h = (if previous \<noteq> 0 \<and> is_free (hdr h previous) \<noteq> 0 \<and> blocks_adjacent h previous block
                 then merge_with_next h previous else h);
        Some (allocator_unlock h)
      })"

text \<open>\<open>realloc\<close> moves the break by a given amount in two places, with the same guard and the same
  test of the result.\<close>

definition grow_break :: "'k brk \<Rightarrow> 'k heap \<Rightarrow> u64 \<Rightarrow> bool \<times> 'k heap" where
  "grow_break brk h growth =
     (if heap_end h \<le> - 1 - growth then
        let target = heap_end h + growth;
            (result, k) = brk (kern h) target; h = h\<lparr>kern := k\<rparr> in
        if result = target then (True, h\<lparr>heap_end := target\<rparr>) else (False, h)
      else (False, h))"

text \<open>Shrinking: split off what is not needed and join it to a free successor.\<close>

definition realloc_trim :: "'k heap \<Rightarrow> u64 \<Rightarrow> u64 \<Rightarrow> u64 \<Rightarrow> 'k heap" where
  "realloc_trim h block aligned sz =
     (let (split, h) = split_block h block aligned;
          h = (if split \<noteq> 0 then merge_with_next h split else h)
      in allocator_unlock (upd_block h block (\<lambda>b. b\<lparr>requested_size := sz\<rparr>)))"

text \<open>Growing into a free successor, with a longer break if the successor is the last block.\<close>

definition realloc_into_next :: "'k brk \<Rightarrow> 'k heap \<Rightarrow> u64 \<Rightarrow> u64 \<Rightarrow> u64 \<Rightarrow> bool \<times> 'k heap" where
  "realloc_into_next brk h block aligned sz =
     (let nxt = blk_next (hdr h block) in
      if nxt \<noteq> 0 \<and> is_free (hdr h nxt) \<noteq> 0 \<and> blocks_adjacent h block nxt \<and>
         blk_size (hdr h nxt) \<le> - 1 - header_size \<and>
         blk_size (hdr h block) \<le> - 1 - header_size - blk_size (hdr h nxt)
      then
        let combined = blk_size (hdr h block) + header_size + blk_size (hdr h nxt) in
        if aligned \<le> combined
        then (True, realloc_trim (merge_with_next h block) block aligned sz)
        else if nxt = block_tail h then
          let (ok, h) = grow_break brk h (aligned - combined) in
          if ok then
            let h = merge_with_next h block;
                h = upd_block h block (\<lambda>b. b\<lparr>blk_size := aligned\<rparr>);
                h = upd_block (h\<lparr>block_tail := block\<rparr>) block (\<lambda>b. b\<lparr>requested_size := sz\<rparr>)
            in (True, allocator_unlock h)
          else (False, h)
        else (False, h)
      else (False, h))"

text \<open>Growing the last block by moving the break.\<close>

definition realloc_at_tail :: "'k brk \<Rightarrow> 'k heap \<Rightarrow> u64 \<Rightarrow> u64 \<Rightarrow> u64 \<Rightarrow> bool \<times> 'k heap" where
  "realloc_at_tail brk h block aligned sz =
     (if block = block_tail h then
        let (ok, h) = grow_break brk h (aligned - blk_size (hdr h block)) in
        if ok
        then (True, allocator_unlock
                (upd_block h block (\<lambda>b. b\<lparr>blk_size := aligned, requested_size := sz\<rparr>)))
        else (False, h)
      else (False, h))"

text \<open>The last resort: a new block, a copy, and the old block freed, with the lock given up
  between the three.\<close>

definition realloc_move :: "'k brk \<Rightarrow> 'k heap \<Rightarrow> u64 \<Rightarrow> u64 \<Rightarrow> (u64 \<times> 'k heap) option" where
  "realloc_move brk h ptr sz =
     (let block = ptr - header_size;
          copy_size = (if requested_size (hdr h block) < sz then requested_size (hdr h block) else sz);
          h = allocator_unlock h
      in do {
        (replacement, h) \<leftarrow> malloc brk h sz;
        if replacement = 0 then Some (0, h)
        else do {
          let h = h\<lparr>payload_bytes :=
                      fst (memcpy (payload_bytes h) (unat replacement) (unat ptr) (unat copy_size))\<rparr>;
          h \<leftarrow> free h ptr;
          Some (replacement, h)
        }
      })"

definition realloc :: "'k brk \<Rightarrow> 'k heap \<Rightarrow> u64 \<Rightarrow> u64 \<Rightarrow> (u64 \<times> 'k heap) option" where
  "realloc brk h ptr sz =
     (if ptr = 0 then malloc brk h sz
      else if sz = 0 then do { h \<leftarrow> free h ptr; Some (0, h) }
      else case align_size sz of
        None \<Rightarrow> Some (0, h\<lparr>alloc_errno := ENOMEM\<rparr>)
      | Some aligned \<Rightarrow> do {
          h \<leftarrow> allocator_lock h;
          let block = ptr - header_size;
          if aligned \<le> blk_size (hdr h block) then Some (ptr, realloc_trim h block aligned sz)
          else do {
            let (done1, h) = realloc_into_next brk h block aligned sz;
            if done1 then Some (ptr, h)
            else do {
              let (done2, h) = realloc_at_tail brk h block aligned sz;
              if done2 then Some (ptr, h) else realloc_move brk h ptr sz
            }
          }
        })"

definition calloc :: "'k brk \<Rightarrow> 'k heap \<Rightarrow> u64 \<Rightarrow> u64 \<Rightarrow> (u64 \<times> 'k heap) option" where
  "calloc brk h nmemb sz =
     (if nmemb = 0 \<or> sz = 0 then Some (0, h)
      else if - 1 div sz < nmemb then Some (0, h\<lparr>alloc_errno := ENOMEM\<rparr>)
      else do {
        let total = nmemb * sz;
        (ptr, h) \<leftarrow> malloc brk h total;
        if ptr = 0 then Some (0, h)
        else Some (ptr, h\<lparr>payload_bytes := fst (memset (payload_bytes h) (unat ptr) 0 (unat total))\<rparr>)
      })"

lemmas alloc_defs = upd_block_def allocator_lock_def allocator_unlock_def

subsection \<open>The shape of a well-formed heap\<close>

text \<open>\<open>seg H a bs z\<close>: following the links from \<open>a\<close> visits the blocks \<open>bs\<close> and then arrives at
  \<open>z\<close>. \<open>tiles H lo bs hi\<close>: the blocks lie side by side, header and payload, from \<open>lo\<close> to \<open>hi\<close>.\<close>

fun seg :: "block_store \<Rightarrow> u64 \<Rightarrow> u64 list \<Rightarrow> u64 \<Rightarrow> bool" where
  "seg H a [] z = (a = z)"
| "seg H a (b # bs) z = (a = b \<and> b \<noteq> 0 \<and> seg H (blk_next (H b)) bs z)"

fun tiles :: "block_store \<Rightarrow> nat \<Rightarrow> u64 list \<Rightarrow> nat \<Rightarrow> bool" where
  "tiles H lo [] hi = (lo = hi)"
| "tiles H lo (b # bs) hi =
     (unat b = lo \<and> 16 dvd unat (blk_size (H b)) \<and> 0 < unat (blk_size (H b)) \<and>
      tiles H (lo + 32 + unat (blk_size (H b))) bs hi)"

definition tiling :: "block_store \<Rightarrow> u64 \<Rightarrow> u64 list \<Rightarrow> u64 \<Rightarrow> nat \<Rightarrow> bool" where
  "tiling H first bs final hi =
     (seg H first bs 0 \<and> final = (if bs = [] then 0 else List.last bs) \<and> hi < 2 ^ 64 \<and>
      (\<exists>lo > 0. 16 dvd lo \<and> tiles H lo bs hi))"

text \<open>No two neighbours are both free; a block in use holds at least what was asked for.\<close>

definition coalesced :: "block_store \<Rightarrow> u64 list \<Rightarrow> bool" where
  "coalesced H bs = successively (\<lambda>b c. is_free (H b) = 0 \<or> is_free (H c) = 0) bs"

definition requests_ok :: "block_store \<Rightarrow> u64 list \<Rightarrow> bool" where
  "requests_ok H bs = (\<forall>b \<in> List.set bs. is_free (H b) = 0 \<longrightarrow> requested_size (H b) \<le> blk_size (H b))"

definition heap_core :: "'k heap \<Rightarrow> u64 list \<Rightarrow> bool" where
  "heap_core h bs =
     (if heap_initialized h
      then tiling (hdr h) (block_head h) bs (block_tail h) (unat (heap_end h)) \<and>
           coalesced (hdr h) bs \<and> requests_ok (hdr h) bs
      else bs = [] \<and> block_head h = 0 \<and> block_tail h = 0)"

definition heap_inv :: "'k heap \<Rightarrow> u64 list \<Rightarrow> bool" where
  "heap_inv h bs = (\<not> allocator_locked h \<and> heap_core h bs)"

text \<open>What the callers own: the blocks in use, each with its payload size and the size asked for.\<close>

definition live :: "block_store \<Rightarrow> u64 list \<Rightarrow> (u64 \<times> u64 \<times> u64) set" where
  "live H bs =
     {(b, blk_size (H b), requested_size (H b)) | b. b \<in> List.set bs \<and> is_free (H b) = 0}"

subsection \<open>Rounding to the alignment\<close>

lemma align_up_word:
  fixes x :: u64
  shows "unat (x AND NOT 15) = unat x - unat x mod 16"
proof -
  have "(x AND NOT 15) + (x AND 15) = x"
    by (subst disjunctive_add) (auto simp: bit_simps intro!: bit_eqI)
  then have "x AND NOT 15 = x - (x AND 15)" by (simp add: eq_diff_eq)
  moreover have low: "x AND 15 = take_bit 4 x" by (simp add: take_bit_eq_mask mask_eq_exp_minus_1)
  have "unat (take_bit 4 x) = unat x mod 16" by (simp add: unsigned_take_bit_eq take_bit_eq_mod unat_mod_distrib)
  moreover have "take_bit 4 x \<le> x" by (simp add: word_le_nat_alt unsigned_take_bit_eq take_bit_eq_mod unat_mod_distrib)
  ultimately show ?thesis by (simp add: low unat_sub)
qed

lemma align_size_spec:
  "align_size sz = Some a \<Longrightarrow> unat sz \<le> unat a \<and> 16 dvd unat a \<and> unat a < unat sz + 16"
proof -
  assume "align_size sz = Some a"
  then have le: "sz \<le> - 1 - 15" and a: "a = (sz + 15) AND NOT 15"
    by (auto simp: align_size_def c_consts split: if_splits)
  have "unat (- 1 - 15 :: u64) = 2 ^ 64 - 16" by simp
  with le have "unat sz \<le> 2 ^ 64 - 16" by (simp add: word_le_nat_alt)
  then have "unat (sz + 15) = unat sz + 15" by (simp add: unat_word_ariths)
  then show ?thesis unfolding a align_up_word by presburger
qed

lemma align_size_pos: "align_size sz = Some a \<Longrightarrow> sz \<noteq> 0 \<Longrightarrow> 0 < unat a"
  using align_size_spec [of sz a] unat_gt_0 [of sz] by linarith

lemma align_size_None: "(align_size sz = None) = (2 ^ 64 - 16 < unat sz)"
  by (simp add: align_size_def c_consts word_less_nat_alt)

subsection \<open>Facts about segments and tilings\<close>

lemma seg_append: "seg H a (us @ vs) z = (\<exists>y. seg H a us y \<and> seg H y vs z)"
  by (induction us arbitrary: a) auto

lemma tiles_append: "tiles H lo (us @ vs) hi = (\<exists>m. tiles H lo us m \<and> tiles H m vs hi)"
  by (induction us arbitrary: lo) auto

lemma seg_cong: "(\<And>b. b \<in> set bs \<Longrightarrow> blk_next (H b) = blk_next (G b)) \<Longrightarrow> seg H a bs z = seg G a bs z"
  by (induction bs arbitrary: a) auto

lemma tiles_cong: "(\<And>b. b \<in> set bs \<Longrightarrow> blk_size (H b) = blk_size (G b)) \<Longrightarrow> tiles H lo bs hi = tiles G lo bs hi"
  by (induction bs arbitrary: lo) auto

lemma seg_upd_notin [simp]: "b \<notin> set bs \<Longrightarrow> seg (H(b := x)) a bs z = seg H a bs z"
  by (rule seg_cong) auto

lemma tiles_upd_notin [simp]: "b \<notin> set bs \<Longrightarrow> tiles (H(b := x)) lo bs hi = tiles H lo bs hi"
  by (rule tiles_cong) auto

lemma tiles_range: "tiles H lo bs hi \<Longrightarrow> lo \<le> hi \<and> (\<forall>b \<in> set bs. lo \<le> unat b \<and> unat b + 32 + unat (blk_size (H b)) \<le> hi)"
  by (induction bs arbitrary: lo) fastforce+

lemma tiles_aligned: "tiles H lo bs hi \<Longrightarrow> 16 dvd lo \<Longrightarrow>
    16 dvd hi \<and> (\<forall>b \<in> set bs. 16 dvd unat b \<and> 16 dvd unat (blk_size (H b)) \<and> 0 < unat (blk_size (H b)))"
proof (induction bs arbitrary: lo)
  case (Cons b bs)
  from Cons.prems have "16 dvd lo + 32 + unat (blk_size (H b))" by simp
  with Cons.IH [OF _ this] Cons.prems show ?case by simp
qed simp

lemma tiles_split_bounds:
  assumes "tiles H lo (us @ b # vs) hi"
  shows "\<forall>c \<in> set us. unat c + 32 + unat (blk_size (H c)) \<le> unat b"
    and "\<forall>c \<in> set vs. unat b + 32 + unat (blk_size (H b)) \<le> unat c"
    and "unat b + 32 + unat (blk_size (H b)) \<le> hi" and "lo \<le> unat b"
proof -
  from assms have us: "tiles H lo us (unat b)" and vs: "tiles H (unat b + 32 + unat (blk_size (H b))) vs hi"
    by (auto simp: tiles_append)
  from tiles_range [OF us] tiles_range [OF vs]
  show "\<forall>c \<in> set us. unat c + 32 + unat (blk_size (H c)) \<le> unat b"
    and "\<forall>c \<in> set vs. unat b + 32 + unat (blk_size (H b)) \<le> unat c"
    and "unat b + 32 + unat (blk_size (H b)) \<le> hi" and "lo \<le> unat b" by auto
qed

lemma tiles_notin:
  assumes "tiles H lo (us @ b # vs) hi"
  shows "b \<notin> set us \<and> b \<notin> set vs"
  using tiles_split_bounds(1,2) [OF assms] by fastforce

lemma tiles_disjoint:
  assumes "tiles H lo bs hi" "b \<in> set bs" "c \<in> set bs" "b \<noteq> c"
  shows "unat b + 32 + unat (blk_size (H b)) \<le> unat c \<or> unat c + 32 + unat (blk_size (H c)) \<le> unat b"
proof -
  from \<open>b \<in> set bs\<close> obtain us vs where bs: "bs = us @ b # vs" by (meson split_list)
  with tiles_split_bounds(1,2) [of H lo us b vs hi] assms show ?thesis by auto
qed

lemma tiling_blocks:
  assumes "tiling H first bs final hi" "b \<in> set bs"
  shows "0 < unat b" "16 dvd unat b" "16 dvd unat (blk_size (H b))" "0 < unat (blk_size (H b))"
    "unat b + 32 + unat (blk_size (H b)) \<le> hi" "hi < 2 ^ 64"
  using assms tiles_range [of H _ bs hi] tiles_aligned [of H _ bs hi] unfolding tiling_def by force+

lemma tiling_disjoint:
  assumes "tiling H first bs final hi" "b \<in> set bs" "c \<in> set bs" "b \<noteq> c"
  shows "unat b + 32 + unat (blk_size (H b)) \<le> unat c \<or> unat c + 32 + unat (blk_size (H c)) \<le> unat b"
  using assms tiles_disjoint [of H _ bs hi b c] unfolding tiling_def by blast

subsection \<open>Updates that keep the tiling\<close>

text \<open>One block is replaced in place by one or more blocks that cover the same ground.\<close>

lemma tiling_replace:
  assumes "tiling H first (us @ b # ms @ vs) final hi"
    and "\<And>c. c \<in> set us \<union> set vs \<Longrightarrow> G c = H c"
    and "\<And>z. seg H b (b # ms) z \<Longrightarrow> seg G b (b # ms') z"
    and "\<And>l m. tiles H l (b # ms) m \<Longrightarrow> m \<le> hi \<Longrightarrow> tiles G l (b # ms') m"
  shows "tiling G first (us @ b # ms' @ vs) (if vs = [] then List.last (b # ms') else final) hi"
proof -
  from assms(1) obtain lo y z m1 m2
    where lo: "lo > 0" "16 dvd lo"
      and s: "seg H first us y" "seg H y (b # ms) z" "seg H z vs 0"
      and t: "tiles H lo us m1" "tiles H m1 (b # ms) m2" "tiles H m2 vs hi"
    unfolding tiling_def by (auto simp: seg_append tiles_append simp flip: append_Cons)
  from s(2) have y: "y = b" by simp
  have us: "seg G first us b" "tiles G lo us m1" and vs: "seg G z vs 0" "tiles G m2 vs hi"
    using s t y seg_cong [of us G H] seg_cong [of vs G H] tiles_cong [of us G H] tiles_cong [of vs G H]
      assms(2) by simp_all
  have mid: "seg G b (b # ms') z" using assms(3) s(2) y by simp
  have mid': "tiles G m1 (b # ms') m2"
    using assms(4) t(2) tiles_range [OF t(3)] by blast
  have "seg G first (us @ (b # ms') @ vs) 0" unfolding seg_append using us vs mid by blast
  moreover have "tiles G lo (us @ (b # ms') @ vs) hi" unfolding tiles_append using us vs mid' by blast
  ultimately show ?thesis
    using assms(1) lo unfolding tiling_def by auto
qed

lemma tiling_unique:
  assumes "tiling H first (us @ b # vs) final hi"
  shows "b \<notin> set us" "b \<notin> set vs" "b \<noteq> 0"
  using assms tiles_notin [of H _ us b vs hi] tiling_blocks(1) [OF assms, of b] unfolding tiling_def by auto

lemma tiling_next:
  assumes "tiling H first (us @ b # vs) final hi"
  shows "blk_next (H b) = (case vs of [] \<Rightarrow> 0 | c # _ \<Rightarrow> c)"
    and "vs = c # ws \<Longrightarrow> b + 32 + blk_size (H b) = c"
    and "vs = [] \<Longrightarrow> unat b + 32 + unat (blk_size (H b)) = hi"
    and "final = b \<longleftrightarrow> vs = []"
proof -
  from assms have s: "seg H (blk_next (H b)) vs 0" and f: "final = List.last (b # vs)"
    by (auto simp: tiling_def seg_append split: if_splits)
  from assms have t: "tiles H (unat b + 32 + unat (blk_size (H b))) vs hi"
    by (auto simp: tiling_def tiles_append)
  show "blk_next (H b) = (case vs of [] \<Rightarrow> 0 | c # _ \<Rightarrow> c)" using s by (cases vs) auto
  show "unat b + 32 + unat (blk_size (H b)) = hi" if "vs = []" using t that by simp
  show "b + 32 + blk_size (H b) = c" if "vs = c # ws"
  proof -
    have "unat b + 32 + unat (blk_size (H b)) = unat c" using t that by simp
    then have "word_of_nat (unat b + 32 + unat (blk_size (H b))) = (word_of_nat (unat c) :: u64)" by simp
    then show ?thesis by simp
  qed
  show "final = b \<longleftrightarrow> vs = []"
  proof (cases vs)
    case (Cons c ws)
    then have "final \<in> set vs" using f by simp
    moreover have "b \<notin> set vs" by (rule tiling_unique(2) [OF assms])
    ultimately show ?thesis using Cons by auto
  qed (simp add: f)
qed

lemma unat_sum3:
  fixes a b :: u64
  assumes "unat a + 32 + unat b < 2 ^ 64"
  shows "unat (a + 32 + b) = unat a + 32 + unat b"
  using assms by (simp add: unat_word_ariths)

lemma tiling_flags:
  assumes "tiling H first bs final hi"
    and "\<And>b. b \<in> set bs \<Longrightarrow> blk_size (G b) = blk_size (H b) \<and> blk_next (G b) = blk_next (H b)"
  shows "tiling G first bs final hi"
  using assms seg_cong [of bs G H] tiles_cong [of bs G H] unfolding tiling_def by simp

lemma tiling_split:
  assumes t: "tiling H first (us @ b # vs) final hi"
    and a: "16 dvd unat a" "0 < unat a" "unat a + 48 \<le> unat (blk_size (H b))"
    and s: "s = b + 32 + a"
    and Gb: "blk_size (G b) = a" "blk_next (G b) = s"
    and Gs: "blk_size (G s) = blk_size (H b) - a - 32" "blk_next (G s) = blk_next (H b)"
    and G: "\<And>c. c \<noteq> b \<Longrightarrow> c \<noteq> s \<Longrightarrow> G c = H c"
  shows "tiling G first (us @ b # s # vs) (if final = b then s else final) hi"
    and "s \<notin> set (us @ b # vs)" "s \<noteq> 0"
proof -
  note tb = tiling_blocks [OF t, of b, simplified]
  have us: "unat s = unat b + 32 + unat a" unfolding s using tb a by (intro unat_sum3) simp
  have "unat s \<noteq> unat c" if "c \<in> set (us @ b # vs)" for c
  proof (cases "c = b")
    case False
    from tiling_disjoint [OF t, of b c] that False tiling_blocks(4) [OF t that]
    show ?thesis using us a(3) by auto
  qed (simp add: us)
  then show snot: "s \<notin> set (us @ b # vs)" by auto
  show s0: "s \<noteq> 0" using us unat_gt_0 [of s] by linarith
  have rest: "unat (blk_size (H b) - a - 32) = unat (blk_size (H b)) - unat a - 32"
    using a(3) by (simp add: unat_sub word_le_nat_alt)
  have "tiling G first (us @ b # [s] @ vs) (if vs = [] then List.last (b # [s]) else final) hi"
  proof (rule tiling_replace [where ms = "[]" and H = H])
    show "tiling H first (us @ b # [] @ vs) final hi" using t by simp
    show "G c = H c" if "c \<in> set us \<union> set vs" for c
      using that snot tiling_unique [OF t] by (intro G) auto
    show "seg G b (b # [s]) z" if "seg H b (b # []) z" for z
      using that s0 by (simp add: Gb Gs)
    show "tiles G l (b # [s]) m" if "tiles H l (b # []) m" for l m
    proof -
      have "16 dvd unat (blk_size (H b)) - unat a - 32"
        using tb(3) a by (simp add: dvd_diff_nat)
      then show ?thesis using that a us by (simp add: Gb Gs rest)
    qed
  qed
  then show "tiling G first (us @ b # s # vs) (if final = b then s else final) hi"
    using tiling_next(4) [OF t] by auto
qed

lemma tiling_merge:
  assumes t: "tiling H first (us @ b # n # vs) final hi"
    and Gb: "blk_size (G b) = blk_size (H b) + (32 + blk_size (H n))" "blk_next (G b) = blk_next (H n)"
    and G: "\<And>c. c \<noteq> b \<Longrightarrow> G c = H c"
  shows "tiling G first (us @ b # vs) (if final = n then b else final) hi"
    and "unat (blk_size (G b)) = unat (blk_size (H b)) + 32 + unat (blk_size (H n))"
proof -
  note tb = tiling_blocks [OF t, of b, simplified] and tn = tiling_blocks [OF t, of n, simplified]
  have "b \<noteq> n" using tiling_unique(2) [OF t] by auto
  have bn: "unat b + 32 + unat (blk_size (H b)) \<le> unat n"
    using t tiles_split_bounds(2) [of H _ us b "n # vs" hi] unfolding tiling_def by auto
  have sz: "unat (blk_size (H b) + 32 + blk_size (H n)) = unat (blk_size (H b)) + 32 + unat (blk_size (H n))"
    using tb tn bn by (intro unat_sum3) simp
  then show szG: "unat (blk_size (G b)) = unat (blk_size (H b)) + 32 + unat (blk_size (H n))"
    by (simp add: Gb add.assoc)
  have "tiling G first (us @ b # [] @ vs) (if vs = [] then List.last (b # []) else final) hi"
  proof (rule tiling_replace [where ms = "[n]" and H = H])
    show "tiling H first (us @ b # [n] @ vs) final hi" using t by simp
    show "G c = H c" if "c \<in> set us \<union> set vs" for c
      using that tiling_unique [OF t] by (intro G) auto
    show "seg G b (b # []) z" if "seg H b (b # [n]) z" for z
      using that by (simp add: Gb)
    show "tiles G l (b # []) m" if "tiles H l (b # [n]) m" for l m
      using that tb by (simp add: szG add.assoc dvd_add)
  qed
  moreover have "final = n \<longleftrightarrow> vs = []"
    using tiling_next(4) [of H first "us @ [b]" n vs final hi] t by simp
  ultimately show "tiling G first (us @ b # vs) (if final = n then b else final) hi" by auto
qed

lemma tiling_resize_tail:
  assumes t: "tiling H first (us @ [b]) final hi"
    and a: "16 dvd unat a" "unat (blk_size (H b)) < unat a"
    and hi': "hi' = hi + (unat a - unat (blk_size (H b)))" "hi' < 2 ^ 64"
    and Gb: "blk_size (G b) = a" "blk_next (G b) = blk_next (H b)"
    and G: "\<And>c. c \<noteq> b \<Longrightarrow> G c = H c"
  shows "tiling G first (us @ [b]) final hi'"
proof -
  from t obtain lo where lo: "0 < lo" "16 dvd lo" "tiles H lo us (unat b)" "seg H first us b"
    and b: "b \<noteq> 0" "blk_next (H b) = 0" "unat b + 32 + unat (blk_size (H b)) = hi" "final = b"
    by (auto simp: tiling_def seg_append tiles_append)
  have "G c = H c" if "c \<in> set us" for c
    using that tiling_unique(1) [of H first us b "[]"] t by (intro G) auto
  then have "tiles G lo us (unat b)" "seg G first us b"
    using lo seg_cong [of us G H] tiles_cong [of us G H] by simp_all
  then show ?thesis
    using lo b a hi' by (auto simp: tiling_def seg_append tiles_append Gb)
qed

lemma tiling_append:
  assumes t: "tiling H first bs final hi" and e: "unat e = hi" "16 dvd hi" "e \<noteq> 0"
    and a: "16 dvd unat a" "0 < unat a" "hi + 32 + unat a < 2 ^ 64"
    and Ge: "blk_size (G e) = a" "blk_next (G e) = 0"
    and Gf: "bs \<noteq> [] \<Longrightarrow> blk_next (G final) = e"
    and sizes: "\<And>c. c \<in> set bs \<Longrightarrow> blk_size (G c) = blk_size (H c)"
    and G: "\<And>c. c \<noteq> e \<Longrightarrow> c \<noteq> final \<Longrightarrow> blk_next (G c) = blk_next (H c)"
  shows "tiling G (if bs = [] then e else first) (bs @ [e]) e (hi + 32 + unat a)"
proof (cases bs rule: rev_cases)
  case Nil
  then show ?thesis using e a unat_gt_0 [of e] by (auto simp: tiling_def Ge intro!: exI [of _ hi])
next
  case (snoc us f)
  from t snoc obtain lo where lo: "0 < lo" "16 dvd lo" "tiles H lo bs hi" "seg H first us f"
    and f: "f \<noteq> 0" "final = f"
    by (auto simp: tiling_def seg_append)
  have enot: "e \<notin> set bs" using tiling_blocks(5) [OF t, of e] e(1) by auto
  have fnot: "f \<notin> set us" using tiling_unique(1) [of H first us f "[]"] t snoc by simp
  have "tiles G lo bs hi" using lo(3) tiles_cong [of bs G H] sizes by simp
  moreover have "blk_next (G c) = blk_next (H c)" if "c \<in> set us" for c
    using that enot fnot snoc f by (intro G) auto
  then have "seg G first us f" using lo(4) seg_cong [of us G H] by simp
  ultimately show ?thesis
    using lo f e a snoc Gf by (auto simp: tiling_def seg_append tiles_append Ge)
qed

subsection \<open>Flags, requests and the callers' blocks\<close>

lemma live_append [simp]: "live H (us @ vs) = live H us \<union> live H vs"
  by (auto simp: live_def)

lemma live_Nil [simp]: "live H [] = {}"
  by (simp add: live_def)

lemma live_Cons: "live H (b # vs) =
    (if is_free (H b) = 0 then {(b, blk_size (H b), requested_size (H b))} else {}) \<union> live H vs"
  by (auto simp: live_def)

lemma live_cong:
  "(\<And>b. b \<in> set bs \<Longrightarrow> blk_size (G b) = blk_size (H b) \<and> is_free (G b) = is_free (H b) \<and>
      requested_size (G b) = requested_size (H b)) \<Longrightarrow> live G bs = live H bs"
  by (auto simp: live_def)

lemma live_notin: "b \<notin> set bs \<Longrightarrow> (b, s, r) \<notin> live H bs"
  by (simp add: live_def)

lemma live_remove: "b \<notin> set bs \<Longrightarrow> live H bs - {(b, s, r)} = live H bs"
  by (auto simp: live_def)

lemma requests_ok_append [simp]: "requests_ok H (us @ vs) = (requests_ok H us \<and> requests_ok H vs)"
  by (auto simp: requests_ok_def)

lemma requests_ok_Cons [simp]: "requests_ok H (b # vs) =
    ((is_free (H b) = 0 \<longrightarrow> requested_size (H b) \<le> blk_size (H b)) \<and> requests_ok H vs)"
  by (auto simp: requests_ok_def)

lemma requests_ok_Nil [simp]: "requests_ok H []"
  by (simp add: requests_ok_def)

lemma requests_ok_cong:
  "(\<And>b. b \<in> set bs \<Longrightarrow> blk_size (G b) = blk_size (H b) \<and> is_free (G b) = is_free (H b) \<and>
      requested_size (G b) = requested_size (H b)) \<Longrightarrow> requests_ok G bs = requests_ok H bs"
  by (auto simp: requests_ok_def)

lemma coalesced_cong:
  "(\<And>b. b \<in> set bs \<Longrightarrow> is_free (G b) = is_free (H b)) \<Longrightarrow> coalesced G bs = coalesced H bs"
  by (auto simp: coalesced_def intro!: successively_cong)

lemma coalesced_append: "coalesced H (us @ vs) = (coalesced H us \<and> coalesced H vs \<and>
    (us = [] \<or> vs = [] \<or> is_free (H (List.last us)) = 0 \<or> is_free (H (List.hd vs)) = 0))"
  by (auto simp: coalesced_def successively_append_iff)

lemma coalesced_Cons: "coalesced H (b # vs) = (coalesced H vs \<and>
    (vs = [] \<or> is_free (H b) = 0 \<or> is_free (H (List.hd vs)) = 0))"
  by (cases vs) (auto simp: coalesced_def)

lemma coalesced_Nil [simp]: "coalesced H []"
  by (simp add: coalesced_def)

lemma upd_notin [simp]:
  assumes "b \<notin> set bs"
  shows "requests_ok (H(b := x)) bs = requests_ok H bs" "live (H(b := x)) bs = live H bs"
    "coalesced (H(b := x)) bs = coalesced H bs"
  using assms by (auto intro!: requests_ok_cong live_cong coalesced_cong)

subsection \<open>The chain walks\<close>

lemma find_free_from_first_fit:
  "seg H a bs 0 \<Longrightarrow> find_free_from H a sz =
     Some (case List.find (\<lambda>b. is_free (H b) \<noteq> 0 \<and> sz \<le> blk_size (H b)) bs of None \<Rightarrow> 0 | Some b \<Rightarrow> b)"
proof (induction bs arbitrary: a)
  case (Cons b bs)
  then show ?case by (subst find_free_from.simps) auto
qed (subst find_free_from.simps, simp)

lemma find_previous_before:
  "seg H a (us @ b # vs) 0 \<Longrightarrow> b \<notin> set us \<Longrightarrow>
   find_previous H a b p = Some (if us = [] then p else List.last us)"
proof (induction us arbitrary: a p)
  case (Cons c us)
  then show ?case by (subst find_previous.simps) auto
qed (subst find_previous.simps, simp)

subsection \<open>The helpers on a well-formed heap\<close>

text \<open>What the block helpers never touch.\<close>

definition same_rest :: "'k heap \<Rightarrow> 'k heap \<Rightarrow> bool" where
  "same_rest h g =
     (block_head g = block_head h \<and> heap_end g = heap_end h \<and>
      heap_initialized g = heap_initialized h \<and> allocator_locked g = allocator_locked h \<and>
      payload_bytes g = payload_bytes h \<and> alloc_errno g = alloc_errno h \<and> kern g = kern h)"

lemma split_block_spec:
  assumes t: "tiling (hdr h) first (us @ b # vs) (block_tail h) hi"
    and a: "16 dvd unat a" "0 < unat a" "a \<le> blk_size (hdr h b)"
  obtains (keep) "split_block h b a = (0, h)"
  | (split) s g where "split_block h b a = (s, g)" "s \<noteq> 0" "s \<notin> set (us @ b # vs)" "same_rest h g"
      "tiling (hdr g) first (us @ b # s # vs) (block_tail g) hi"
      "hdr g b = (hdr h b)\<lparr>blk_size := a, blk_next := s\<rparr>"
      "is_free (hdr g s) = 1" "requested_size (hdr g s) = 0"
      "\<And>c. c \<noteq> b \<Longrightarrow> c \<noteq> s \<Longrightarrow> hdr g c = hdr h c"
proof (cases "blk_size (hdr h b) - a < header_size + mini_alloc_alignment")
  case True
  then show ?thesis by (intro keep) (simp add: split_block_def)
next
  case False
  define s where "s = b + 32 + a"
  define g where "g = snd (split_block h b a)"
  have "48 \<le> unat (blk_size (hdr h b) - a)" using False
    by (simp add: alloc_consts word_less_nat_alt)
  then have sz: "unat a + 48 \<le> unat (blk_size (hdr h b))" using a(3) by (simp add: unat_sub word_le_nat_alt)
  have sb: "s \<noteq> b"
  proof
    assume "s = b"
    then have "32 + a = 0" by (simp add: s_def add.assoc)
    then have "unat (32 + a) = 0" by simp
    moreover have "unat (32 + a) = 32 + unat a"
      using tiling_blocks(5,6) [OF t, of b] sz by (simp add: unat_word_ariths)
    ultimately show False by simp
  qed
  have g: "hdr g = (hdr h)(s := \<lparr>blk_size = blk_size (hdr h b) - a - 32, blk_next = blk_next (hdr h b),
        is_free = 1, requested_size = 0\<rparr>, b := (hdr h b)\<lparr>blk_size := a, blk_next := s\<rparr>)"
    "block_tail g = (if block_tail h = b then s else block_tail h)" "same_rest h g"
    and eq: "split_block h b a = (s, g)"
    using False sb
    by (auto simp: g_def split_block_def Let_def alloc_consts s_def upd_block_def same_rest_def)
  note ts = tiling_split [OF t a(1,2) sz s_def, where G = "hdr g"]
  show ?thesis
  proof (rule split [OF eq])
    show "s \<noteq> 0" "s \<notin> set (us @ b # vs)" "tiling (hdr g) first (us @ b # s # vs) (block_tail g) hi"
      using ts sb by (simp_all add: g)
  qed (use g sb in auto)
qed

lemma merge_with_next_spec:
  assumes t: "tiling (hdr h) first (us @ b # n # vs) (block_tail h) hi" and free: "is_free (hdr h n) \<noteq> 0"
  defines "g \<equiv> merge_with_next h b"
  shows "tiling (hdr g) first (us @ b # vs) (block_tail g) hi" "same_rest h g"
    "unat (blk_size (hdr g b)) = unat (blk_size (hdr h b)) + 32 + unat (blk_size (hdr h n))"
    "is_free (hdr g b) = is_free (hdr h b)" "requested_size (hdr g b) = requested_size (hdr h b)"
    "\<And>c. c \<noteq> b \<Longrightarrow> hdr g c = hdr h c"
proof -
  have nx: "blk_next (hdr h b) = n" "b + 32 + blk_size (hdr h b) = n" and n0: "n \<noteq> 0"
    using tiling_next(1,2) [OF t] tiling_unique(3) [of _ _ "us @ [b]" n vs] t by auto
  have bn: "n \<noteq> b" using tiling_unique(2) [OF t] by auto
  have g: "hdr g = (hdr h)(b := (hdr h b)\<lparr>blk_size := blk_size (hdr h b) + (32 + blk_size (hdr h n)),
        blk_next := blk_next (hdr h n)\<rparr>)"
    "block_tail g = (if block_tail h = n then b else block_tail h)" and rest: "same_rest h g"
    using nx n0 bn free
    by (auto simp: g_def merge_with_next_def blocks_adjacent_def alloc_consts upd_block_def Let_def
        same_rest_def)
  from tiling_merge [OF t, where G = "hdr g"]
  show "tiling (hdr g) first (us @ b # vs) (block_tail g) hi"
    "unat (blk_size (hdr g b)) = unat (blk_size (hdr h b)) + 32 + unat (blk_size (hdr h n))"
    by (simp_all add: g)
  show "same_rest h g" by (rule rest)
qed (simp_all add: g_def merge_with_next_def upd_block_def Let_def)

text \<open>The guard of \<open>merge_with_next\<close> is decided by the chain: neighbours are always adjacent.\<close>

lemma merge_with_next_idle:
  assumes t: "tiling (hdr h) first (us @ b # vs) (block_tail h) hi"
    and "vs = [] \<or> is_free (hdr h (List.hd vs)) = 0"
  shows "merge_with_next h b = h"
  using assms tiling_next(1) [OF t] by (cases vs) (auto simp: merge_with_next_def Let_def)

lemma initialize_heap_spec:
  assumes "heap_core h bs" and "initialize_heap brk h = (ok, g)"
  shows "heap_core g bs" "ok \<longrightarrow> heap_initialized g" "hdr g = hdr h"
    "payload_bytes g = payload_bytes h" "alloc_errno g = alloc_errno h"
    "allocator_locked g = allocator_locked h"
proof -
  have "heap_core g bs \<and> (ok \<longrightarrow> heap_initialized g) \<and> hdr g = hdr h \<and> payload_bytes g = payload_bytes h \<and>
    alloc_errno g = alloc_errno h \<and> allocator_locked g = allocator_locked h"
  proof (cases "heap_initialized h")
    case True
    then show ?thesis using assms by (simp add: initialize_heap_def)
  next
    case False
    then have empty: "bs = []" "block_head h = 0" "block_tail h = 0"
      using assms(1) by (simp_all add: heap_core_def)
    obtain current k where brk0: "brk (kern h) 0 = (current, k)" by (cases "brk (kern h) 0")
    let ?al = "(current + 15) AND NOT 15"
    show ?thesis
    proof (cases "sint current \<le> 0 \<or> - 1 - 15 < current")
      case True
      then show ?thesis using assms False
        by (auto simp: initialize_heap_def brk0 alloc_consts heap_core_def Let_def split: if_splits)
    next
      case F2: False
      then have al: "align_size current = Some ?al" by (auto simp: align_size_def alloc_consts)
      have "current \<noteq> 0" using F2 by auto
      from align_size_pos [OF al this] align_size_spec [OF al]
      have pos: "0 < unat ?al" "16 dvd unat ?al" by auto
      have t: "tiling H 0 [] 0 (unat ?al)" for H
        using pos unsigned_less [of ?al] by (auto simp: tiling_def)
      show ?thesis
        using assms(2) False F2 empty t
        by (auto simp: initialize_heap_def brk0 alloc_consts heap_core_def Let_def
            split: if_splits prod.splits)
    qed
  qed
  then show "heap_core g bs" "ok \<longrightarrow> heap_initialized g" "hdr g = hdr h"
    "payload_bytes g = payload_bytes h" "alloc_errno g = alloc_errno h"
    "allocator_locked g = allocator_locked h" by auto
qed

lemma unat_max_minus: "unat (- 1 - y :: u64) = 2 ^ 64 - 1 - unat y"
proof -
  have "y \<le> - 1" by simp
  from unat_sub [OF this] show ?thesis by (simp add: unsigned_minus_1_eq_mask mask_eq_exp_minus_1)
qed

lemma grow_heap_spec:
  assumes inv: "heap_core h bs" and a: "16 dvd unat a" "0 < unat a"
    and grow: "grow_heap brk h a = (p, g)"
  shows "payload_bytes g = payload_bytes h" "alloc_errno g = alloc_errno h"
    "allocator_locked g = allocator_locked h"
    "p = 0 \<Longrightarrow> heap_core g bs \<and> hdr g = hdr h"
    "p \<noteq> 0 \<Longrightarrow> heap_core g (bs @ [p]) \<and> heap_initialized g \<and> p \<notin> set bs \<and>
       blk_size (hdr g p) = a \<and> is_free (hdr g p) = 0 \<and>
       (\<forall>c \<in> set bs. blk_size (hdr g c) = blk_size (hdr h c) \<and> is_free (hdr g c) = is_free (hdr h c) \<and>
          requested_size (hdr g c) = requested_size (hdr h c))"
proof -
  obtain ok h0 where i: "initialize_heap brk h = (ok, h0)" by (cases "initialize_heap brk h")
  note init = initialize_heap_spec [OF inv i]
  consider (refused) "p = 0" "hdr g = hdr h0" "heap_core g bs" "payload_bytes g = payload_bytes h0"
      "alloc_errno g = alloc_errno h0" "allocator_locked g = allocator_locked h0"
    | (granted) "ok" "\<not> - 1 - header_size < a" "\<not> - 1 - (header_size + a) < heap_end h0"
      "p = heap_end h0" "heap_end g = heap_end h0 + (header_size + a)" "block_tail g = heap_end h0"
      "block_head g = (if block_tail h0 \<noteq> 0 then block_head h0 else heap_end h0)"
      "hdr g = (if block_tail h0 \<noteq> 0
        then ((hdr h0)(p := \<lparr>blk_size = a, blk_next = 0, is_free = 0, requested_size = 0\<rparr>))
               (block_tail h0 := ((hdr h0)(p := \<lparr>blk_size = a, blk_next = 0, is_free = 0, requested_size = 0\<rparr>))
                  (block_tail h0) \<lparr>blk_next := p\<rparr>)
        else (hdr h0)(p := \<lparr>blk_size = a, blk_next = 0, is_free = 0, requested_size = 0\<rparr>))"
      "heap_initialized g = heap_initialized h0" "payload_bytes g = payload_bytes h0"
      "alloc_errno g = alloc_errno h0" "allocator_locked g = allocator_locked h0"
    using grow init(1)
    unfolding grow_heap_def i
    by (auto simp: Let_def upd_block_def heap_core_def split: if_splits prod.splits)
  then have "payload_bytes g = payload_bytes h \<and> alloc_errno g = alloc_errno h \<and>
    allocator_locked g = allocator_locked h \<and> (p = 0 \<longrightarrow> heap_core g bs \<and> hdr g = hdr h) \<and>
    (p \<noteq> 0 \<longrightarrow> heap_core g (bs @ [p]) \<and> heap_initialized g \<and> p \<notin> set bs \<and>
       blk_size (hdr g p) = a \<and> is_free (hdr g p) = 0 \<and>
       (\<forall>c \<in> set bs. blk_size (hdr g c) = blk_size (hdr h c) \<and> is_free (hdr g c) = is_free (hdr h c) \<and>
          requested_size (hdr g c) = requested_size (hdr h c)))"
  proof cases
    case refused
    then show ?thesis using init by simp
  next
    case granted
    then have I: "heap_initialized h0" using init by simp
    then have t: "tiling (hdr h) (block_head h0) bs (block_tail h0) (unat (heap_end h0))"
      and co: "coalesced (hdr h) bs" and rq: "requests_ok (hdr h) bs"
      using init by (simp_all add: heap_core_def)
    have he: "16 dvd unat (heap_end h0)" "heap_end h0 \<noteq> 0"
      using t tiles_aligned [of "hdr h" _ bs "unat (heap_end h0)"]
        tiles_range [of "hdr h" _ bs "unat (heap_end h0)"]
      unfolding tiling_def by (blast, force)
    have notin: "p \<notin> set bs" using tiling_blocks(5) [OF t, of p] granted(4) by auto
    have f0: "block_tail h0 \<noteq> 0 \<longleftrightarrow> bs \<noteq> []" "bs \<noteq> [] \<Longrightarrow> block_tail h0 \<in> set bs"
      using t tiling_blocks(1) [OF t, of "block_tail h0"] unfolding tiling_def by (auto split: if_splits)
    have "unat a < 2 ^ 64 - 32"
      using granted(2) by (simp add: alloc_consts word_less_nat_alt not_less)
    then have ha: "unat (32 + a) = 32 + unat a" by (simp add: unat_word_ariths)
    have room: "unat (heap_end h0) + 32 + unat a < 2 ^ 64"
    proof -
      have "unat (- 1 - (32 + a)) = 2 ^ 64 - 1 - (32 + unat a)"
        unfolding unat_max_minus ha ..
      moreover have "unat (heap_end h0) \<le> unat (- 1 - (32 + a))"
        using granted(3) by (simp add: alloc_consts word_less_nat_alt not_less)
      ultimately show ?thesis using \<open>unat a < 2 ^ 64 - 32\<close> by simp
    qed
    then have hg: "unat (heap_end g) = unat (heap_end h0) + 32 + unat a"
      using unat_sum3 [of "heap_end h0" a] granted(5) by (simp add: alloc_consts add.assoc)
    have tn: "block_tail h0 \<noteq> p" using f0 notin granted(4) he(2) by metis
    have "tiling (hdr g) (if bs = [] then p else block_head h0) (bs @ [p]) p (unat (heap_end h0) + 32 + unat a)"
    proof (rule tiling_append [OF t])
      show "blk_next (hdr g (block_tail h0)) = p" if "bs \<noteq> []"
        using granted(8) f0 that by simp
    qed (use granted(4,8) he a room tn notin init(3) in auto)
    then have "tiling (hdr g) (block_head g) (bs @ [p]) (block_tail g) (unat (heap_end g))"
      using granted(4,6,7) hg f0 by (simp split: if_splits)
    moreover have same: "\<forall>c \<in> set bs. blk_size (hdr g c) = blk_size (hdr h c) \<and>
        is_free (hdr g c) = is_free (hdr h c) \<and> requested_size (hdr g c) = requested_size (hdr h c)"
      using granted(8) notin init(3) by auto
    moreover have new: "blk_size (hdr g p) = a \<and> is_free (hdr g p) = 0 \<and> requested_size (hdr g p) = 0"
      using granted(8) tn by simp
    moreover have "coalesced (hdr g) (bs @ [p])"
      using co same new coalesced_cong [of bs "hdr g" "hdr h"] by (simp add: coalesced_append coalesced_Cons)
    moreover have "requests_ok (hdr g) (bs @ [p])"
      using rq same new requests_ok_cong [of bs "hdr g" "hdr h"] by simp
    ultimately show ?thesis
      using granted I he init notin by (simp add: heap_core_def)
  qed
  then show "payload_bytes g = payload_bytes h" "alloc_errno g = alloc_errno h"
    "allocator_locked g = allocator_locked h"
    "p = 0 \<Longrightarrow> heap_core g bs \<and> hdr g = hdr h"
    "p \<noteq> 0 \<Longrightarrow> heap_core g (bs @ [p]) \<and> heap_initialized g \<and> p \<notin> set bs \<and>
       blk_size (hdr g p) = a \<and> is_free (hdr g p) = 0 \<and>
       (\<forall>c \<in> set bs. blk_size (hdr g c) = blk_size (hdr h c) \<and> is_free (hdr g c) = is_free (hdr h c) \<and>
          requested_size (hdr g c) = requested_size (hdr h c))"
    by blast+
qed

lemma find_SomeD: "List.find P xs = Some x \<Longrightarrow> P x \<and> (\<exists>us vs. xs = us @ x # vs)"
  by (auto simp: find_Some_iff) (metis id_take_nth_drop)

lemma coalesced_split:
  assumes co: "coalesced H (us @ b # vs)" and free: "is_free (H b) \<noteq> 0"
    and G: "\<And>c. c \<in> set us \<union> set vs \<Longrightarrow> is_free (G c) = is_free (H c)" and Gb: "is_free (G b) = 0"
  shows "coalesced G (us @ b # vs)" "coalesced G (us @ b # s # vs)"
proof -
  have "coalesced G us" "coalesced G vs"
    using co coalesced_cong [of us G H] coalesced_cong [of vs G H] G
    by (simp_all add: coalesced_append coalesced_Cons)
  moreover have "vs = [] \<or> is_free (G (List.hd vs)) = 0"
    using co free G by (cases vs) (auto simp: coalesced_append coalesced_Cons)
  ultimately show "coalesced G (us @ b # vs)" "coalesced G (us @ b # s # vs)"
    by (auto simp: coalesced_append coalesced_Cons Gb)
qed

lemma payload_header [simp]: "b + header_size - header_size = (b :: u64)"
  by simp

lemma payload_nonzero:
  assumes "tiling H first bs final hi" "b \<in> set bs"
  shows "b + header_size \<noteq> 0" "unat (b + header_size) = unat b + 32"
proof -
  have "unat (b + 32) = unat b + 32"
    using tiling_blocks(5,6) [OF assms] by (simp add: unat_word_ariths)
  then show "unat (b + header_size) = unat b + 32" "b + header_size \<noteq> 0"
    using unat_gt_0 [of "b + 32"] by (simp_all add: alloc_consts)
qed

text \<open>The contract of \<open>malloc\<close> for a request that is not zero: it returns, keeps the heap well formed
  and touches no payload byte; either the callers' blocks are as before, with \<open>errno\<close> set, or they
  have gained exactly one block, which was not theirs and is large enough.\<close>

lemma malloc_spec:
  assumes inv: "heap_inv h bs" and sz: "sz \<noteq> 0"
  obtains (fail) g where "malloc brk h sz = Some (0, g)" "heap_inv g bs" "live (hdr g) bs = live (hdr h) bs"
      "payload_bytes g = payload_bytes h" "alloc_errno g = ENOMEM"
  | (alloc) b g bs' s where "malloc brk h sz = Some (b + header_size, g)" "b + header_size \<noteq> 0" "heap_inv g bs'"
      "live (hdr g) bs' = insert (b, s, sz) (live (hdr h) bs)" "b \<notin> fst ` live (hdr h) bs" "sz \<le> s"
      "payload_bytes g = payload_bytes h" "alloc_errno g = alloc_errno h" "heap_initialized g"
proof (cases "align_size sz")
  case None
  then show ?thesis using inv sz
    by (intro fail [of "h\<lparr>alloc_errno := ENOMEM\<rparr>"]) (simp_all add: malloc_def heap_inv_def heap_core_def)
next
  case (Some a)
  note as = align_size_spec [OF Some] and apos = align_size_pos [OF Some sz]
  let ?h = "h\<lparr>allocator_locked := True\<rparr>"
  have lock: "allocator_lock h = Some ?h" using inv by (simp add: heap_inv_def allocator_lock_def)
  have core: "heap_core ?h bs" using inv by (simp add: heap_inv_def heap_core_def)
  have sg: "seg (hdr h) (block_head h) bs 0"
    using inv by (auto simp: heap_inv_def heap_core_def tiling_def split: if_splits)
  let ?P = "\<lambda>b. is_free (hdr h b) \<noteq> 0 \<and> a \<le> blk_size (hdr h b)"
  have walk: "find_free_block ?h a = Some (case List.find ?P bs of None \<Rightarrow> 0 | Some b \<Rightarrow> b)"
    using find_free_from_first_fit [OF sg, of a] by (simp add: find_free_block_def)
  show ?thesis
  proof (cases "List.find ?P bs")
    case none: None
    obtain p g where grow: "grow_heap brk ?h a = (p, g)" by (cases "grow_heap brk ?h a")
    note G = grow_heap_spec [OF core as [THEN conjunct2, THEN conjunct1] apos grow]
    show ?thesis
    proof (cases "p = 0")
      case True
      with G(4) have "heap_core g bs" "hdr g = hdr h" by auto
      then have "heap_inv ((allocator_unlock g)\<lparr>alloc_errno := ENOMEM\<rparr>) bs"
        by (simp add: heap_inv_def heap_core_def allocator_unlock_def cong: if_cong)
      with True none Some sz lock walk grow G(1) \<open>hdr g = hdr h\<close> show ?thesis
        by (intro fail [of "(allocator_unlock g)\<lparr>alloc_errno := ENOMEM\<rparr>"])
          (simp_all add: malloc_def allocator_unlock_def)
    next
      case False
      let ?g = "allocator_unlock (upd_block g p (\<lambda>b. b\<lparr>requested_size := sz\<rparr>))"
      from G(5) [OF False] have gc: "heap_core g (bs @ [p])" "heap_initialized g" "p \<notin> set bs"
        "blk_size (hdr g p) = a" "is_free (hdr g p) = 0"
        and same: "\<And>c. c \<in> set bs \<Longrightarrow> blk_size (hdr g c) = blk_size (hdr h c) \<and>
          is_free (hdr g c) = is_free (hdr h c) \<and> requested_size (hdr g c) = requested_size (hdr h c)"
        by auto
      have t: "tiling (hdr g) (block_head g) (bs @ [p]) (block_tail g) (unat (heap_end g))"
        and co: "coalesced (hdr g) (bs @ [p])" and rq: "requests_ok (hdr g) (bs @ [p])"
        using gc by (simp_all add: heap_core_def)
      have le: "sz \<le> a" using as by (simp add: word_le_nat_alt)
      have "heap_inv ?g (bs @ [p])"
        using gc tiling_flags [OF t, of "hdr ?g"] co rq le requests_ok_cong [of bs "hdr ?g" "hdr g"]
          coalesced_cong [of "bs @ [p]" "hdr ?g" "hdr g"]
        by (auto simp: heap_inv_def heap_core_def alloc_defs)
      moreover have "live (hdr ?g) bs = live (hdr h) bs"
        by (rule live_cong) (use same gc(3) in \<open>auto simp: alloc_defs\<close>)
      then have "live (hdr ?g) (bs @ [p]) = insert (p, a, sz) (live (hdr h) bs)"
        using gc by (auto simp: live_Cons alloc_defs)
      moreover have "p \<notin> fst ` live (hdr h) bs" using gc(3) by (auto simp: live_def)
      ultimately show ?thesis
        using none Some sz lock walk grow G False gc le payload_nonzero(1) [OF t, of p]
        by (intro alloc [of p ?g "bs @ [p]" a])
          (simp_all add: malloc_def, simp_all add: alloc_defs)
    qed
  next
    case found: (Some b)
    then obtain us vs where bs: "bs = us @ b # vs" and fb: "is_free (hdr h b) \<noteq> 0" and ab: "a \<le> blk_size (hdr h b)"
      using find_SomeD [OF found] by auto
    have I: "heap_initialized h" using core bs by (auto simp: heap_core_def split: if_splits)
    then have t: "tiling (hdr h) (block_head h) (us @ b # vs) (block_tail h) (unat (heap_end h))"
      and co: "coalesced (hdr h) (us @ b # vs)" and rq: "requests_ok (hdr h) (us @ b # vs)"
      using core bs by (simp_all add: heap_core_def)
    have le: "sz \<le> a" using as by (simp add: word_le_nat_alt)
    note nz = payload_nonzero(1) [OF t, of b, simplified]
    have b0: "b \<noteq> 0" using tiling_unique(3) [OF t] .
    have notin: "b \<notin> set us" "b \<notin> set vs" using tiling_unique [OF t] by auto
    have lv: "b \<notin> fst ` live (hdr h) bs" using fb by (auto simp: live_def)
    have mal: "malloc brk h sz = Some (b + header_size,
        allocator_unlock (upd_block (snd (split_block ?h b a)) b (\<lambda>b. b\<lparr>is_free := 0, requested_size := sz\<rparr>)))"
      using found Some sz lock walk b0 by (simp add: malloc_def split_def)
    have t': "tiling (hdr ?h) (block_head h) (us @ b # vs) (block_tail ?h) (unat (heap_end h))" using t by simp
    have ab': "a \<le> blk_size (hdr ?h b)" using ab by simp
    show ?thesis
    proof (cases rule: split_block_spec [OF t' as [THEN conjunct2, THEN conjunct1] apos ab', case_names keep split])
      case keep
      let ?g = "allocator_unlock (upd_block ?h b (\<lambda>b. b\<lparr>is_free := 0, requested_size := sz\<rparr>))"
      have "tiling (hdr ?g) (block_head h) (us @ b # vs) (block_tail h) (unat (heap_end h))"
        by (rule tiling_flags [OF t]) (simp add: alloc_defs)
      moreover have "coalesced (hdr ?g) (us @ b # vs)"
        by (rule coalesced_split(1) [OF co fb]) (use notin in \<open>auto simp: alloc_defs\<close>)
      moreover have "requests_ok (hdr ?g) (us @ b # vs)"
        using rq notin le ab by (simp add: alloc_defs)
      ultimately have "heap_inv ?g (us @ b # vs)"
        using I by (simp add: heap_inv_def heap_core_def alloc_defs)
      moreover have "live (hdr ?g) us = live (hdr h) us" "live (hdr ?g) vs = live (hdr h) vs"
        using notin by (auto intro!: live_cong simp: alloc_defs)
      then have "live (hdr ?g) (us @ b # vs) = insert (b, blk_size (hdr h b), sz) (live (hdr h) bs)"
        using fb by (auto simp: live_Cons bs alloc_defs)
      ultimately show ?thesis
        using keep mal nz lv le ab I
        by (intro alloc [of b ?g "us @ b # vs" "blk_size (hdr h b)"]) (simp_all add: alloc_defs)
    next
      case (split s g0)
      let ?g = "allocator_unlock (upd_block g0 b (\<lambda>b. b\<lparr>is_free := 0, requested_size := sz\<rparr>))"
      have sb: "s \<noteq> b" "s \<notin> set us" "s \<notin> set vs" using split(3) by auto
      have t0: "tiling (hdr g0) (block_head h) (us @ b # s # vs) (block_tail g0) (unat (heap_end h))"
        using split(5) .
      have hd: "hdr ?g c = hdr h c" if "c \<noteq> b" "c \<noteq> s" for c
        using that split(9) by (simp add: alloc_defs)
      have hb: "blk_size (hdr ?g b) = a" "is_free (hdr ?g b) = 0" "requested_size (hdr ?g b) = sz"
        using split(6) by (simp_all add: alloc_defs)
      have hs: "is_free (hdr ?g s) = 1" using split(7) sb by (simp add: alloc_defs)
      have hu: "hdr ?g c = hdr h c" if "c \<in> set us \<union> set vs" for c
        using that notin sb by (intro hd) auto
      have "tiling (hdr ?g) (block_head h) (us @ b # s # vs) (block_tail g0) (unat (heap_end h))"
        by (rule tiling_flags [OF t0]) (simp add: alloc_defs)
      moreover have "coalesced (hdr ?g) (us @ b # s # vs)"
        by (rule coalesced_split(2) [OF co fb]) (use hu hb in auto)
      moreover have "requests_ok (hdr ?g) (us @ b # s # vs)"
        using rq hu hb hs le requests_ok_cong [of us "hdr ?g" "hdr h"] requests_ok_cong [of vs "hdr ?g" "hdr h"]
        by simp
      ultimately have "heap_inv ?g (us @ b # s # vs)"
        using I split(4) by (simp add: heap_inv_def heap_core_def same_rest_def alloc_defs)
      moreover have "live (hdr ?g) us = live (hdr h) us" "live (hdr ?g) vs = live (hdr h) vs"
        using hu by (auto intro!: live_cong)
      then have "live (hdr ?g) (us @ b # s # vs) = insert (b, a, sz) (live (hdr h) bs)"
        using fb hb hs by (auto simp: live_Cons bs)
      ultimately show ?thesis
        using split(1,4) mal nz lv le I
        by (intro alloc [of b ?g "us @ b # s # vs" a]) (simp_all add: alloc_defs same_rest_def)
    qed
  qed
qed

text \<open>Joining a free block with a free successor, if it has one, leaves a block whose successor is in
  use. The two calls in \<open>free\<close> and those in \<open>realloc\<close> are instances.\<close>

lemma merge_settles:
  assumes t: "tiling (hdr h) first (us @ b # vs) (block_tail h) hi"
    and co: "coalesced (hdr h) vs" and rq: "requests_ok (hdr h) vs"
  obtains ws where "tiling (hdr (merge_with_next h b)) first (us @ b # ws) (block_tail (merge_with_next h b)) hi"
    "same_rest h (merge_with_next h b)"
    "is_free (hdr (merge_with_next h b) b) = is_free (hdr h b)"
    "requested_size (hdr (merge_with_next h b) b) = requested_size (hdr h b)"
    "blk_size (hdr h b) \<le> blk_size (hdr (merge_with_next h b) b)"
    "\<And>c. c \<noteq> b \<Longrightarrow> hdr (merge_with_next h b) c = hdr h c"
    "coalesced (hdr h) ws" "ws = [] \<or> is_free (hdr h (List.hd ws)) = 0"
    "requests_ok (hdr h) ws" "live (hdr h) ws = live (hdr h) vs" "set ws \<subseteq> set vs"
proof (cases "vs = [] \<or> is_free (hdr h (List.hd vs)) = 0")
  case True
  from merge_with_next_idle [OF t this] True show ?thesis
    using t co rq by (intro that [of vs]) (simp_all add: same_rest_def)
next
  case False
  then obtain n ws where vs: "vs = n # ws" and n: "is_free (hdr h n) \<noteq> 0" by (cases vs) auto
  note m = merge_with_next_spec [OF t [unfolded vs] n]
  show ?thesis
    using m co rq n vs
    by (intro that [of ws]) (auto simp: word_le_nat_alt coalesced_Cons live_Cons)
qed

lemma free_spec:
  assumes inv: "heap_inv h bs" and own: "(b, s, r) \<in> live (hdr h) bs"
  obtains g bs' where "free h (b + header_size) = Some g" "heap_inv g bs'"
    "live (hdr g) bs' = live (hdr h) bs - {(b, s, r)}"
    "payload_bytes g = payload_bytes h" "alloc_errno g = alloc_errno h"
    "heap_initialized g" "b \<in> set bs' \<longrightarrow> is_free (hdr g b) \<noteq> 0"
proof -
  from own have "b \<in> set bs" and used: "is_free (hdr h b) = 0" by (auto simp: live_def)
  then obtain us vs where bs: "bs = us @ b # vs" by (meson split_list)
  then have I: "heap_initialized h" using inv by (auto simp: heap_inv_def heap_core_def split: if_splits)
  with inv bs have t: "tiling (hdr h) (block_head h) (us @ b # vs) (block_tail h) (unat (heap_end h))"
    and co: "coalesced (hdr h) (us @ b # vs)" and rq: "requests_ok (hdr h) (us @ b # vs)"
    and unlocked: "\<not> allocator_locked h"
    by (simp_all add: heap_inv_def heap_core_def)
  note notin = tiling_unique [OF t]
  define h1 where "h1 = upd_block (h\<lparr>allocator_locked := True\<rparr>) b (\<lambda>b. b\<lparr>is_free := 1\<rparr>)"
  have h1: "hdr h1 = (hdr h)(b := (hdr h b)\<lparr>is_free := 1\<rparr>)" "block_tail h1 = block_tail h"
    "block_head h1 = block_head h" "heap_end h1 = heap_end h" "heap_initialized h1"
    "payload_bytes h1 = payload_bytes h" "alloc_errno h1 = alloc_errno h"
    using I by (simp_all add: h1_def upd_block_def)
  have t1: "tiling (hdr h1) (block_head h) (us @ b # vs) (block_tail h1) (unat (heap_end h))"
    unfolding h1 by (rule tiling_flags [OF t]) simp
  have cr1: "coalesced (hdr h1) vs" "requests_ok (hdr h1) vs"
    using co rq notin by (simp_all add: h1 coalesced_append coalesced_Cons)
  obtain ws where
    t2: "tiling (hdr (merge_with_next h1 b)) (block_head h) (us @ b # ws) (block_tail (merge_with_next h1 b)) (unat (heap_end h))"
    and same: "same_rest h1 (merge_with_next h1 b)"
    and flag: "is_free (hdr (merge_with_next h1 b) b) = is_free (hdr h1 b)"
    and other: "\<And>c. c \<noteq> b \<Longrightarrow> hdr (merge_with_next h1 b) c = hdr h1 c"
    and ws: "coalesced (hdr h1) ws" "ws = [] \<or> is_free (hdr h1 (List.hd ws)) = 0"
    "requests_ok (hdr h1) ws" "live (hdr h1) ws = live (hdr h1) vs" "set ws \<subseteq> set vs"
    by (rule merge_settles [OF t1 cr1]) (rule that, assumption+)
  define h2 where "h2 = merge_with_next h1 b"
  have off: "hdr h2 c = hdr h c" if "c \<noteq> b" for c using other [OF that] that by (simp add: h2_def h1)
  have fb: "is_free (hdr h2 b) = 1" using flag by (simp add: h2_def h1)
  have eu: "hdr h2 c = hdr h c" if "c \<in> set us" for c using that notin(1) by (intro off) auto
  have us2: "coalesced (hdr h2) us" "requests_ok (hdr h2) us" "live (hdr h2) us = live (hdr h) us"
    using co rq eu coalesced_cong [of us "hdr h2" "hdr h"] requests_ok_cong [of us "hdr h2" "hdr h"]
      live_cong [of us "hdr h2" "hdr h"]
    by (simp_all add: coalesced_append)
  have bws: "b \<notin> set ws" using ws(5) notin(2) by blast
  have eqws: "hdr h2 c = hdr h1 c" if "c \<in> set ws" for c using other [of c] that bws by (auto simp: h2_def)
  then have ws2: "coalesced (hdr h2) ws" "requests_ok (hdr h2) ws" "live (hdr h2) ws = live (hdr h) vs"
    "ws = [] \<or> is_free (hdr h2 (List.hd ws)) = 0"
    using ws notin(2) coalesced_cong [of ws "hdr h2" "hdr h1"] requests_ok_cong [of ws "hdr h2" "hdr h1"]
      live_cong [of ws "hdr h2" "hdr h1"]
    by (cases ws, simp_all add: h1)+
  have gone: "live (hdr h) bs - {(b, s, r)} = live (hdr h) us \<union> live (hdr h) vs"
    using own notin live_remove [of b us "hdr h" s r] live_remove [of b vs "hdr h" s r]
    by (auto simp: bs live_Cons used live_notin split: if_splits)
  have prev: "find_previous (hdr h2) (block_head h2) b 0 = Some (if us = [] then 0 else List.last us)"
    using t2 notin(1) same by (intro find_previous_before) (auto simp: tiling_def h2_def same_rest_def h1)
  have fr: "free h (b + header_size) = Some (allocator_unlock
      (let p = (if us = [] then 0 else List.last us) in
       if p \<noteq> 0 \<and> is_free (hdr h2 p) \<noteq> 0 \<and> blocks_adjacent h2 p b then merge_with_next h2 p else h2))"
    using unlocked prev payload_nonzero(1) [OF t, of b, simplified]
    by (simp add: free_def allocator_lock_def Let_def h2_def h1_def)
  have h2s: "block_head h2 = block_head h" "heap_end h2 = heap_end h" "heap_initialized h2"
    "payload_bytes h2 = payload_bytes h" "alloc_errno h2 = alloc_errno h"
    using same h1 by (simp_all add: h2_def same_rest_def)
  have t2': "tiling (hdr h2) (block_head h) (us @ b # ws) (block_tail h2) (unat (heap_end h))"
    using t2 by (simp add: h2_def)
  show ?thesis
  proof (cases us rule: rev_cases)
    case Nil
    have "heap_inv (allocator_unlock h2) (b # ws)"
      using t2' ws2 fb h2s Nil by (simp add: heap_inv_def heap_core_def allocator_unlock_def coalesced_Cons)
    then show ?thesis
      using fr Nil gone ws2 h2s fb
      by (intro that [of "allocator_unlock h2" "b # ws"]) (simp_all add: allocator_unlock_def live_Cons)
  next
    case (snoc us' p)
    have pb: "p \<noteq> b" "p \<notin> set us'" using notin(1) snoc tiling_unique(1) [of "hdr h" _ us' p "b # vs"] t by auto
    have tp: "tiling (hdr h2) (block_head h) (us' @ p # b # ws) (block_tail h2) (unat (heap_end h))"
      using t2' snoc by simp
    have adj: "blocks_adjacent h2 p b"
      using tiling_next(2) [OF tp, of b ws] by (simp add: blocks_adjacent_def alloc_consts)
    have p0: "p \<noteq> 0" by (rule tiling_unique(3) [OF tp])
    show ?thesis
    proof (cases "is_free (hdr h2 p) = 0")
      case True
      have "heap_inv (allocator_unlock h2) (us @ b # ws)"
        using t2' ws2 us2 fb h2s snoc True
        by (simp add: heap_inv_def heap_core_def allocator_unlock_def coalesced_Cons coalesced_append)
      moreover have "live (hdr h2) (us @ b # ws) = live (hdr h) bs - {(b, s, r)}"
        using gone us2 ws2 fb by (simp add: live_Cons)
      moreover have "free h (b + header_size) = Some (allocator_unlock h2)"
        using fr snoc True by simp
      ultimately show ?thesis
        using h2s fb
        by (intro that [of "allocator_unlock h2" "us @ b # ws"]) (simp_all add: allocator_unlock_def)
    next
      case False
      note m = merge_with_next_spec [OF tp, unfolded fb, simplified]
      define g where "g = merge_with_next h2 p"
      have pws: "p \<notin> set ws" using tiling_unique(2) [OF tp] by auto
      have same_us: "hdr g c = hdr h2 c" if "c \<in> set us' \<union> set ws" for c
        using m(6) [of c] that pb pws by (auto simp: g_def)
      have us3: "coalesced (hdr g) us'" "requests_ok (hdr g) us'" "live (hdr g) us' = live (hdr h2) us'"
        using us2(1,2) snoc same_us coalesced_cong [of us' "hdr g" "hdr h2"]
          requests_ok_cong [of us' "hdr g" "hdr h2"] live_cong [of us' "hdr g" "hdr h2"]
        by (simp_all add: coalesced_append)
      have ws3: "coalesced (hdr g) ws" "requests_ok (hdr g) ws" "live (hdr g) ws = live (hdr h2) ws"
        using ws2 same_us coalesced_cong [of ws "hdr g" "hdr h2"]
          requests_ok_cong [of ws "hdr g" "hdr h2"] live_cong [of ws "hdr g" "hdr h2"]
        by simp_all
      have ws3': "ws = [] \<or> is_free (hdr g (List.hd ws)) = 0"
        using ws2(4) same_us [of "List.hd ws"] by (cases "ws = []") simp_all
      have gp: "is_free (hdr g p) \<noteq> 0" using m(4) False by (simp add: g_def)
      have usl: "us' = [] \<or> is_free (hdr g (List.last us')) = 0"
        using us2(1) snoc same_us [of "List.last us'"] False
        by (cases "us' = []") (simp_all add: coalesced_append)
      have gs: "block_head g = block_head h" "heap_end g = heap_end h" "heap_initialized g"
        "payload_bytes g = payload_bytes h" "alloc_errno g = alloc_errno h"
        using m(2) h2s by (simp_all add: g_def same_rest_def)
      have "heap_inv (allocator_unlock g) (us' @ p # ws)"
        using m(1) us3 ws3 ws3' gp gs usl
        by (simp add: heap_inv_def heap_core_def allocator_unlock_def coalesced_Cons coalesced_append g_def)
      moreover have "live (hdr h2) us = live (hdr h2) us'" using snoc False by (simp add: live_Cons)
      then have "live (hdr g) (us' @ p # ws) = live (hdr h) bs - {(b, s, r)}"
        using us3 ws3 gp gone ws2 us2 by (simp add: live_Cons)
      moreover have "free h (b + header_size) = Some (allocator_unlock g)"
        using fr snoc p0 adj False by (simp add: g_def)
      ultimately show ?thesis
        using gs notin snoc bws pb
        by (intro that [of "allocator_unlock g" "us' @ p # ws"]) (simp_all add: allocator_unlock_def)
    qed
  qed
qed

subsection \<open>The cases of \<open>realloc\<close>\<close>

text \<open>The heap while \<open>realloc\<close> holds the lock on it, the block in hand in the middle; and what every
  way of resizing in place must leave behind.\<close>

definition held :: "'k heap \<Rightarrow> u64 list \<Rightarrow> u64 \<Rightarrow> u64 list \<Rightarrow> bool" where
  "held h us b vs =
     (heap_initialized h \<and> is_free (hdr h b) = 0 \<and>
      tiling (hdr h) (block_head h) (us @ b # vs) (block_tail h) (unat (heap_end h)) \<and>
      coalesced (hdr h) (us @ b # vs) \<and> requests_ok (hdr h) (us @ b # vs))"

definition resized :: "'k heap \<Rightarrow> u64 list \<Rightarrow> u64 \<Rightarrow> u64 list \<Rightarrow> u64 \<Rightarrow> 'k heap \<Rightarrow> bool" where
  "resized h us b vs sz g =
     (payload_bytes g = payload_bytes h \<and> alloc_errno g = alloc_errno h \<and>
      (\<exists>bs s. heap_inv g bs \<and> sz \<le> s \<and>
         live (hdr g) bs = insert (b, s, sz) (live (hdr h) us \<union> live (hdr h) vs)))"

lemma resizedI:
  "heap_inv g bs \<Longrightarrow> live (hdr g) bs = insert (b, s, sz) (live (hdr h) us \<union> live (hdr h) vs) \<Longrightarrow>
   sz \<le> s \<Longrightarrow> payload_bytes g = payload_bytes h \<Longrightarrow> alloc_errno g = alloc_errno h \<Longrightarrow> resized h us b vs sz g"
  unfolding resized_def by blast

lemma unat_u64_less: "unat (x :: u64) < 2 ^ 64"
  by (rule order_less_le_trans [OF unsigned_less]) simp

lemma held_parts:
  assumes "held h us b vs"
  shows "coalesced (hdr h) us" "coalesced (hdr h) vs" "requests_ok (hdr h) us" "requests_ok (hdr h) vs"
    "b \<notin> set us" "b \<notin> set vs"
  using assms tiling_unique [of "hdr h" _ us b vs] by (auto simp: held_def coalesced_append coalesced_Cons)

lemma realloc_trim_resizes:
  assumes H: "held h us b vs" and a: "16 dvd unat a" "0 < unat a" "a \<le> blk_size (hdr h b)" "sz \<le> a"
  shows "resized h us b vs sz (realloc_trim h b a sz)"
proof -
  from H have t: "tiling (hdr h) (block_head h) (us @ b # vs) (block_tail h) (unat (heap_end h))"
    and used: "is_free (hdr h b) = 0" and I: "heap_initialized h" by (simp_all add: held_def)
  note parts = held_parts [OF H]
  show ?thesis
  proof (cases rule: split_block_spec [OF t a(1-3), case_names keep split])
    case keep
    let ?g = "allocator_unlock (upd_block h b (\<lambda>b. b\<lparr>requested_size := sz\<rparr>))"
    have "tiling (hdr ?g) (block_head h) (us @ b # vs) (block_tail h) (unat (heap_end h))"
      by (rule tiling_flags [OF t]) (simp add: alloc_defs)
    moreover have "coalesced (hdr ?g) (us @ b # vs)"
      using H coalesced_cong [of "us @ b # vs" "hdr ?g" "hdr h"] by (simp add: held_def alloc_defs)
    ultimately have "heap_inv ?g (us @ b # vs)"
      using I parts order_trans [OF a(4,3)] by (simp add: heap_inv_def heap_core_def alloc_defs)
    moreover have "live (hdr ?g) (us @ b # vs) =
        insert (b, blk_size (hdr h b), sz) (live (hdr h) us \<union> live (hdr h) vs)"
      using parts used by (simp add: live_Cons alloc_defs)
    moreover have "realloc_trim h b a sz = ?g" using keep by (simp add: realloc_trim_def)
    moreover have "sz \<le> blk_size (hdr h b)" using a(3,4) by simp
    ultimately show ?thesis by (intro resizedI [of _ "us @ b # vs"]) (simp_all, simp_all add: alloc_defs)
  next
    case (split s g0)
    have sb: "s \<noteq> b" "s \<notin> set us" "s \<notin> set vs" using split(3) by auto
    have off: "hdr g0 c = hdr h c" if "c \<in> set us \<union> set vs" for c
      using that parts(5,6) sb by (intro split(9)) auto
    have t0: "tiling (hdr g0) (block_head h) ((us @ [b]) @ s # vs) (block_tail g0) (unat (heap_end h))"
      using split(5) by simp
    have cr: "coalesced (hdr g0) vs" "requests_ok (hdr g0) vs"
      using parts off coalesced_cong [of vs "hdr g0" "hdr h"] requests_ok_cong [of vs "hdr g0" "hdr h"] by simp_all
    obtain ws where ws:
      "tiling (hdr (merge_with_next g0 s)) (block_head h) ((us @ [b]) @ s # ws) (block_tail (merge_with_next g0 s)) (unat (heap_end h))"
      "same_rest g0 (merge_with_next g0 s)" "is_free (hdr (merge_with_next g0 s) s) = is_free (hdr g0 s)"
      "\<And>c. c \<noteq> s \<Longrightarrow> hdr (merge_with_next g0 s) c = hdr g0 c"
      "coalesced (hdr g0) ws" "ws = [] \<or> is_free (hdr g0 (List.hd ws)) = 0"
      "requests_ok (hdr g0) ws" "live (hdr g0) ws = live (hdr g0) vs" "set ws \<subseteq> set vs"
      by (rule merge_settles [OF t0 cr]) (rule that, assumption+)
    define g1 where "g1 = merge_with_next g0 s"
    let ?g = "allocator_unlock (upd_block g1 b (\<lambda>b. b\<lparr>requested_size := sz\<rparr>))"
    have eq: "realloc_trim h b a sz = ?g" using split(1,2) by (simp add: realloc_trim_def g1_def)
    have hb: "blk_size (hdr ?g b) = a" "is_free (hdr ?g b) = 0" "requested_size (hdr ?g b) = sz"
      using ws(4) [of b] split(6) sb used by (simp_all add: alloc_defs g1_def)
    have hs: "is_free (hdr ?g s) = 1" using ws(3) split(7) sb by (simp add: alloc_defs g1_def)
    have hw: "hdr ?g c = hdr h c" if "c \<in> set us \<union> set ws" for c
    proof -
      have "c \<in> set us \<union> set vs" using that ws(9) by blast
      moreover from this have "c \<noteq> s" "c \<noteq> b" using sb parts(5,6) by auto
      ultimately show ?thesis using ws(4) [of c] off [of c] by (simp add: alloc_defs g1_def)
    qed
    have g0w: "hdr g0 c = hdr h c" if "c \<in> set ws" for c using that ws(9) off by blast
    have "tiling (hdr ?g) (block_head h) (us @ b # s # ws) (block_tail g1) (unat (heap_end h))"
      by (rule tiling_flags [OF ws(1) [folded g1_def, simplified]]) (simp add: alloc_defs)
    moreover have "coalesced (hdr ?g) us" "coalesced (hdr ?g) ws" "requests_ok (hdr ?g) us" "requests_ok (hdr ?g) ws"
      using parts hw ws(5,7) g0w coalesced_cong [of us "hdr ?g" "hdr h"] coalesced_cong [of ws "hdr ?g" "hdr g0"]
        requests_ok_cong [of us "hdr ?g" "hdr h"] requests_ok_cong [of ws "hdr ?g" "hdr g0"]
      by simp_all
    moreover have "ws = [] \<or> is_free (hdr ?g (List.hd ws)) = 0"
      using ws(6) hw [of "List.hd ws"] g0w [of "List.hd ws"] by (cases "ws = []") simp_all
    ultimately have "heap_inv ?g (us @ b # s # ws)"
      using I hb hs a(4) ws(2) split(4)
      by (simp add: heap_inv_def heap_core_def coalesced_append coalesced_Cons same_rest_def g1_def)
        (simp add: allocator_unlock_def upd_block_def)
    moreover have "live (hdr ?g) us = live (hdr h) us" by (rule live_cong) (simp add: hw)
    moreover have "live (hdr ?g) ws = live (hdr g0) ws" by (rule live_cong) (simp add: hw g0w)
    moreover have "live (hdr g0) vs = live (hdr h) vs" by (rule live_cong) (simp add: off)
    ultimately have "heap_inv ?g (us @ b # s # ws) \<and>
        live (hdr ?g) (us @ b # s # ws) = insert (b, a, sz) (live (hdr h) us \<union> live (hdr h) vs)"
      using hb hs ws(8) by (simp add: live_Cons)
    moreover have "payload_bytes ?g = payload_bytes h" "alloc_errno ?g = alloc_errno h"
      using ws(2) split(4) by (simp_all add: same_rest_def g1_def alloc_defs)
    ultimately show ?thesis unfolding eq using a(4) by (intro resizedI [of _ "us @ b # s # ws" _ a]) simp_all
  qed
qed

lemma grow_break_spec:
  assumes "grow_break brk h d = (ok, g)"
  shows "ok \<Longrightarrow> unat (heap_end g) = unat (heap_end h) + unat d" "\<not> ok \<Longrightarrow> heap_end g = heap_end h"
    "hdr g = hdr h" "block_head g = block_head h" "block_tail g = block_tail h"
    "heap_initialized g = heap_initialized h" "payload_bytes g = payload_bytes h"
    "alloc_errno g = alloc_errno h" "allocator_locked g = allocator_locked h"
proof -
  have "unat (heap_end h + d) = unat (heap_end h) + unat d" if "heap_end h \<le> - 1 - d"
  proof -
    from that have "unat (heap_end h) \<le> 2 ^ 64 - 1 - unat d" by (simp add: word_le_nat_alt unat_max_minus)
    then have "unat (heap_end h) + unat d < 2 ^ 64" using unat_u64_less [of d] by simp
    then show ?thesis by (simp add: unat_word_ariths)
  qed
  then show "ok \<Longrightarrow> unat (heap_end g) = unat (heap_end h) + unat d" "\<not> ok \<Longrightarrow> heap_end g = heap_end h"
    "hdr g = hdr h" "block_head g = block_head h" "block_tail g = block_tail h"
    "heap_initialized g = heap_initialized h" "payload_bytes g = payload_bytes h"
    "alloc_errno g = alloc_errno h" "allocator_locked g = allocator_locked h"
    using assms by (auto simp: grow_break_def Let_def split: if_splits prod.splits)
qed

text \<open>The last block takes the heap's new end.\<close>

lemma resize_tail_resizes:
  assumes H: "held h us b []" and a: "16 dvd unat a" "blk_size (hdr h b) < a" "sz \<le> a"
    and g: "hdr g = (hdr h)(b := (hdr h b)\<lparr>blk_size := a, requested_size := sz\<rparr>)"
      "block_head g = block_head h" "block_tail g = b" "heap_initialized g" "\<not> allocator_locked g"
      "unat (heap_end g) = unat (heap_end h) + (unat a - unat (blk_size (hdr h b)))"
      "payload_bytes g = payload_bytes h" "alloc_errno g = alloc_errno h"
  shows "resized h us b [] sz g"
proof -
  note parts = held_parts [OF H]
  from H have t: "tiling (hdr h) (block_head h) (us @ [b]) (block_tail h) (unat (heap_end h))"
    and used: "is_free (hdr h b) = 0" and co: "coalesced (hdr h) (us @ [b])"
    by (simp_all add: held_def)
  then have tail: "block_tail h = b" by (simp add: tiling_def)
  have "tiling (hdr g) (block_head h) (us @ [b]) (block_tail h) (unat (heap_end g))"
    by (rule tiling_resize_tail [OF t a(1)])
      (use a(2) g unat_u64_less [of "heap_end g"] in \<open>simp_all add: word_less_nat_alt\<close>)
  then have "tiling (hdr g) (block_head g) (us @ [b]) (block_tail g) (unat (heap_end g))"
    by (simp add: g(2,3) tail)
  moreover have "coalesced (hdr g) (us @ [b])"
    using co g(1) coalesced_cong [of "us @ [b]" "hdr g" "hdr h"] by simp
  ultimately have "heap_inv g (us @ [b])"
    using parts g a(3) by (simp add: heap_inv_def heap_core_def)
  moreover have "live (hdr g) (us @ [b]) = insert (b, a, sz) (live (hdr h) us \<union> live (hdr h) [])"
    using parts g(1) used by (simp add: live_Cons)
  ultimately show ?thesis using g a(3) by (intro resizedI [of _ "us @ [b]" _ a]) simp_all
qed

lemma realloc_at_tail_spec:
  assumes H: "held h us b vs" and a: "16 dvd unat a" "blk_size (hdr h b) < a" "sz \<le> a"
    and r: "realloc_at_tail brk h b a sz = (fin, g)"
  shows "fin \<Longrightarrow> resized h us b vs sz g"
    "\<not> fin \<Longrightarrow> held g us b vs \<and> hdr g = hdr h \<and> payload_bytes g = payload_bytes h \<and> alloc_errno g = alloc_errno h"
proof -
  have "(fin \<longrightarrow> resized h us b vs sz g) \<and> (\<not> fin \<longrightarrow> held g us b vs \<and> hdr g = hdr h \<and>
      payload_bytes g = payload_bytes h \<and> alloc_errno g = alloc_errno h)"
  proof (cases "b = block_tail h")
    case False
    then show ?thesis using r H by (simp add: realloc_at_tail_def)
  next
    case True
    then have vs: "vs = []" using H tiling_next(4) [of "hdr h" _ us b vs] by (auto simp: held_def)
    obtain ok k where grow: "grow_break brk h (a - blk_size (hdr h b)) = (ok, k)"
      by (cases "grow_break brk h (a - blk_size (hdr h b))")
    note G = grow_break_spec [OF grow]
    have diff: "unat (a - blk_size (hdr h b)) = unat a - unat (blk_size (hdr h b))"
      using a(2) by (simp add: unat_sub)
    show ?thesis
    proof (cases ok)
      case ok: True
      let ?g = "allocator_unlock (upd_block k b (\<lambda>b. b\<lparr>blk_size := a, requested_size := sz\<rparr>))"
      have "resized h us b [] sz ?g"
        by (rule resize_tail_resizes [OF H [unfolded vs] a])
          (use G ok diff True H in \<open>simp_all add: alloc_defs held_def\<close>)
      then show ?thesis using r True grow ok vs by (simp add: realloc_at_tail_def)
    next
      case False
      then show ?thesis using r True grow G H by (auto simp: realloc_at_tail_def held_def)
    qed
  qed
  then show "fin \<Longrightarrow> resized h us b vs sz g"
    "\<not> fin \<Longrightarrow> held g us b vs \<and> hdr g = hdr h \<and> payload_bytes g = payload_bytes h \<and> alloc_errno g = alloc_errno h"
    by auto
qed

lemma merge_held:
  assumes H: "held h us b (n # ws)" and n: "is_free (hdr h n) \<noteq> 0"
  defines "g \<equiv> merge_with_next h b"
  shows "held g us b ws" "live (hdr g) us = live (hdr h) us" "live (hdr g) ws = live (hdr h) (n # ws)"
    "unat (blk_size (hdr g b)) = unat (blk_size (hdr h b)) + 32 + unat (blk_size (hdr h n))" "same_rest h g"
proof -
  from H have t: "tiling (hdr h) (block_head h) (us @ b # n # ws) (block_tail h) (unat (heap_end h))"
    and used: "is_free (hdr h b) = 0" and I: "heap_initialized h" by (simp_all add: held_def)
  note m = merge_with_next_spec [OF t n, folded g_def] and parts = held_parts [OF H]
  have off: "hdr g c = hdr h c" if "c \<in> set us \<union> set ws" for c
    using that parts(5,6) by (intro m(6)) auto
  then have same: "coalesced (hdr g) us = coalesced (hdr h) us" "coalesced (hdr g) ws = coalesced (hdr h) ws"
    "requests_ok (hdr g) us = requests_ok (hdr h) us" "requests_ok (hdr g) ws = requests_ok (hdr h) ws"
    and lv: "live (hdr g) us = live (hdr h) us" "live (hdr g) ws = live (hdr h) ws"
    by (auto intro!: coalesced_cong requests_ok_cong live_cong)
  have le: "us = [] \<or> is_free (hdr g b) = 0" using m(4) used by simp
  have "requested_size (hdr h b) \<le> blk_size (hdr h b)" using H used by (simp add: held_def)
  then have "requested_size (hdr g b) \<le> blk_size (hdr g b)"
    using m(3,5) by (simp add: word_le_nat_alt)
  then show "held g us b ws"
    using m parts same I used
    by (simp add: held_def same_rest_def coalesced_append coalesced_Cons)
  show "live (hdr g) us = live (hdr h) us" "live (hdr g) ws = live (hdr h) (n # ws)"
    using lv n by (simp_all add: live_Cons)
  show "unat (blk_size (hdr g b)) = unat (blk_size (hdr h b)) + 32 + unat (blk_size (hdr h n))" "same_rest h g"
    by (rule m)+
qed

lemma resized_trans:
  assumes "resized g us b ws sz k" "live (hdr g) us = live (hdr h) us" "live (hdr g) ws = live (hdr h) vs"
    "payload_bytes g = payload_bytes h" "alloc_errno g = alloc_errno h"
  shows "resized h us b vs sz k"
  using assms unfolding resized_def by simp

lemma realloc_into_next_spec:
  assumes H: "held h us b vs" and a: "16 dvd unat a" "blk_size (hdr h b) < a" "sz \<le> a"
    and r: "realloc_into_next brk h b a sz = (fin, g)"
  shows "fin \<Longrightarrow> resized h us b vs sz g"
    "\<not> fin \<Longrightarrow> held g us b vs \<and> hdr g = hdr h \<and> payload_bytes g = payload_bytes h \<and> alloc_errno g = alloc_errno h"
proof -
  let ?ok = "(fin \<longrightarrow> resized h us b vs sz g) \<and> (\<not> fin \<longrightarrow> held g us b vs \<and> hdr g = hdr h \<and>
      payload_bytes g = payload_bytes h \<and> alloc_errno g = alloc_errno h)"
  from H have t: "tiling (hdr h) (block_head h) (us @ b # vs) (block_tail h) (unat (heap_end h))"
    by (simp add: held_def)
  let ?n = "blk_next (hdr h b)"
  let ?guard = "?n \<noteq> 0 \<and> is_free (hdr h ?n) \<noteq> 0 \<and> blocks_adjacent h b ?n \<and>
    blk_size (hdr h ?n) \<le> - 1 - header_size \<and> blk_size (hdr h b) \<le> - 1 - header_size - blk_size (hdr h ?n)"
  have ?ok
  proof (cases ?guard)
    case False
    then show ?thesis using r H by (auto simp: realloc_into_next_def Let_def split: if_splits)
  next
    case True
    then obtain n ws where vs: "vs = n # ws" and n: "?n = n" "is_free (hdr h n) \<noteq> 0"
      using tiling_next(1) [OF t] by (cases vs) auto
    note M = merge_held [OF H [unfolded vs] n(2)]
    define c where "c = blk_size (hdr h b) + header_size + blk_size (hdr h n)"
    have "unat c = unat (blk_size (hdr h b)) + 32 + unat (blk_size (hdr h n))"
      unfolding c_def header_size_def
      using M(4) unat_u64_less [of "blk_size (hdr (merge_with_next h b) b)"] by (intro unat_sum3) simp
    then have c: "c = blk_size (hdr (merge_with_next h b) b)" using M(4) by (simp add: word_unat_eq_iff)
    have tail: "n = block_tail h \<longleftrightarrow> ws = []"
      using tiling_next(4) [of "hdr h" _ "us @ [b]" n ws] t vs by auto
    have rest: "payload_bytes (merge_with_next h b) = payload_bytes h" "alloc_errno (merge_with_next h b) = alloc_errno h"
      using M(5) by (simp_all add: same_rest_def)
    have apos: "0 < unat a" using a(2) by (simp add: word_less_nat_alt)
    consider (fits) "a \<le> c" | (tail) "c < a" "ws = []" | (stuck) "c < a" "ws \<noteq> []" by fastforce
    then show ?thesis
    proof cases
      case fits
      have "resized (merge_with_next h b) us b ws sz (realloc_trim (merge_with_next h b) b a sz)"
        by (rule realloc_trim_resizes [OF M(1) a(1) apos _ a(3)]) (use fits c in simp)
      then have "resized h us b vs sz (realloc_trim (merge_with_next h b) b a sz)"
        by (rule resized_trans) (simp_all add: M vs rest)
      then show ?thesis using r True fits n by (simp add: realloc_into_next_def c_def)
    next
      case stuck
      then show ?thesis using r True n tail H
        by (simp add: realloc_into_next_def c_def linorder_not_le [symmetric] split: if_splits)
    next
      case t2: tail
      obtain ok k where grow: "grow_break brk h (a - c) = (ok, k)" by (cases "grow_break brk h (a - c)")
      note G = grow_break_spec [OF grow]
      have diff: "unat (a - c) = unat a - unat c" using t2(1) by (simp add: unat_sub)
      show ?thesis
      proof (cases ok)
        case False
        then show ?thesis using r True n tail t2 grow G H
          by (auto simp: realloc_into_next_def c_def held_def linorder_not_le [symmetric])
      next
        case ok: True
        define k' where "k' = k\<lparr>heap_end := heap_end h\<rparr>"
        have hk: "held k' us b (n # ws)" using H G vs by (simp add: held_def k'_def)
        have nk: "is_free (hdr k' n) \<noteq> 0" using n G by (simp add: k'_def)
        note K = merge_held [OF hk nk]
        have mk: "merge_with_next k b = (merge_with_next k' b)\<lparr>heap_end := heap_end k\<rparr>"
          by (simp add: k'_def merge_with_next_def Let_def upd_block_def blocks_adjacent_def)
        let ?g = "allocator_unlock (upd_block ((upd_block (merge_with_next k b) b (\<lambda>b. b\<lparr>blk_size := a\<rparr>))
          \<lparr>block_tail := b\<rparr>) b (\<lambda>b. b\<lparr>requested_size := sz\<rparr>))"
        have ck: "blk_size (hdr (merge_with_next k' b) b) = c"
          using K(4) M(4) c G by (simp add: k'_def word_unat_eq_iff)
        have "resized (merge_with_next k' b) us b [] sz ?g"
          by (rule resize_tail_resizes [OF K(1) [unfolded t2(2)] a(1) _ a(3)])
            (use K(1,5) G ok diff t2 ck in \<open>simp_all add: alloc_defs mk same_rest_def k'_def held_def\<close>)
        then have "resized h us b vs sz ?g"
          by (rule resized_trans)
            (use K G vs t2 in \<open>simp_all add: k'_def same_rest_def\<close>)
        then show ?thesis using r True n tail t2 grow ok
          by (simp add: realloc_into_next_def c_def linorder_not_le [symmetric] Let_def)
      qed
    qed
  qed
  then show "fin \<Longrightarrow> resized h us b vs sz g"
    "\<not> fin \<Longrightarrow> held g us b vs \<and> hdr g = hdr h \<and> payload_bytes g = payload_bytes h \<and> alloc_errno g = alloc_errno h"
    by auto
qed

subsection \<open>\<open>realloc\<close> and \<open>calloc\<close> as a whole\<close>

lemma heap_inv_payload [simp]: "heap_inv (h\<lparr>payload_bytes := m\<rparr>) bs = heap_inv h bs"
  by (simp add: heap_inv_def heap_core_def)

lemma live_tiling:
  assumes "heap_inv h bs" "(b, s, r) \<in> live (hdr h) bs"
  shows "tiling (hdr h) (block_head h) bs (block_tail h) (unat (heap_end h))" "b \<in> set bs"
    "s = blk_size (hdr h b)" "r = requested_size (hdr h b)" "r \<le> s" "heap_initialized h"
  using assms by (auto simp: heap_inv_def heap_core_def live_def requests_ok_def split: if_splits)

lemma live_disjoint:
  assumes "heap_inv h bs" "(b, s, r) \<in> live (hdr h) bs" "(c, t, q) \<in> live (hdr h) bs" "b \<noteq> c"
  shows "disjoint_runs (unat (b + header_size)) (unat s) (unat (c + header_size)) (unat t)"
  using tiling_disjoint [OF live_tiling(1,2) [OF assms(1,2)] live_tiling(2) [OF assms(1,3)] assms(4)]
    live_tiling(3) [OF assms(1,2)] live_tiling(3) [OF assms(1,3)]
    payload_nonzero(2) [OF live_tiling(1,2) [OF assms(1,2)]]
    payload_nonzero(2) [OF live_tiling(1,2) [OF assms(1,3)]]
  by (auto simp: disjoint_runs_def)

lemma disjoint_runs_shorter:
  "disjoint_runs a n b k \<Longrightarrow> n' \<le> n \<Longrightarrow> k' \<le> k \<Longrightarrow> disjoint_runs a n' b k'"
  by (auto simp: disjoint_runs_def)

lemma live_unique: "(b, s, r) \<in> live H bs \<Longrightarrow> (b, s', r') \<in> live H bs \<Longrightarrow> s' = s \<and> r' = r"
  by (auto simp: live_def)

definition keeps_contents :: "(u64 \<times> u64 \<times> u64) set \<Rightarrow> 'k heap \<Rightarrow> 'k heap \<Rightarrow> bool" where
  "keeps_contents L h g =
     (\<forall>(b, s, r) \<in> L. read_bytes (payload_bytes g) (unat (b + header_size)) (unat s) =
        read_bytes (payload_bytes h) (unat (b + header_size)) (unat s))"

lemma keeps_contents_same: "payload_bytes g = payload_bytes h \<Longrightarrow> keeps_contents L h g"
  by (simp add: keeps_contents_def split: prod.splits)

text \<open>Writing inside one caller's payload changes no other caller's bytes.\<close>

lemma keeps_contents_write:
  assumes inv: "heap_inv h bs" and c: "(c, s, r) \<in> live (hdr h) bs" and len: "length xs \<le> unat s"
    and L: "L \<subseteq> live (hdr h) bs" "c \<notin> fst ` L"
    and g: "payload_bytes g = write_bytes (payload_bytes h) (unat (c + header_size)) xs"
  shows "keeps_contents L h g"
  unfolding keeps_contents_def
proof (clarify)
  fix b t q assume b: "(b, t, q) \<in> L"
  then have "b \<noteq> c" using L(2) by force
  with b L(1) have "disjoint_runs (unat (b + header_size)) (unat t) (unat (c + header_size)) (unat s)"
    by (intro live_disjoint [OF inv _ c]) auto
  from disjoint_runs_shorter [OF this order_refl len]
  show "read_bytes (payload_bytes g) (unat (b + header_size)) (unat t) =
      read_bytes (payload_bytes h) (unat (b + header_size)) (unat t)"
    unfolding g by (rule read_write_disjoint)
qed

lemma realloc_move_spec:
  assumes H: "held h us b vs" and own: "(b, s, r) \<in> live (hdr h) (us @ b # vs)" and sz: "sz \<noteq> 0"
  obtains (fail) g bs' where "realloc_move brk h (b + header_size) sz = Some (0, g)" "heap_inv g bs'"
      "live (hdr g) bs' = live (hdr h) (us @ b # vs)" "payload_bytes g = payload_bytes h" "alloc_errno g = ENOMEM"
  | (moved) c s' g bs' where "realloc_move brk h (b + header_size) sz = Some (c + header_size, g)"
      "c + header_size \<noteq> 0" "heap_inv g bs'"
      "live (hdr g) bs' = insert (c, s', sz) (live (hdr h) (us @ b # vs) - {(b, s, r)})" "sz \<le> s'"
      "read_bytes (payload_bytes g) (unat (c + header_size)) (unat (min r sz)) =
       read_bytes (payload_bytes h) (unat (b + header_size)) (unat (min r sz))"
      "keeps_contents (live (hdr h) (us @ b # vs) - {(b, s, r)}) h g" "alloc_errno g = alloc_errno h"
proof -
  let ?bs = "us @ b # vs" and ?h = "allocator_unlock h"
  have inv: "heap_inv ?h ?bs" and hd: "hdr ?h = hdr h"
    using H by (simp_all add: held_def heap_inv_def heap_core_def allocator_unlock_def)
  have own': "(b, s, r) \<in> live (hdr ?h) ?bs" using own hd by simp
  note bt = live_tiling [OF inv own']
  have req: "requested_size (hdr h b) = r" using bt(4) hd by simp
  define n where "n = unat (min r sz)"
  have cs: "unat (if requested_size (hdr h b) < sz then requested_size (hdr h b) else sz) = n"
    by (auto simp: n_def min_def req)
  show ?thesis
  proof (cases rule: malloc_spec [OF inv sz, of brk, case_names none got])
    case (none g)
    then show ?thesis using hd
      by (intro fail [of g ?bs]) (simp_all add: realloc_move_def allocator_unlock_def Let_def)
  next
    case (got c g1 bs1 s')
    have cb: "c \<noteq> b" using got(5) own' by force
    have own1: "(b, s, r) \<in> live (hdr g1) bs1" and new1: "(c, s', sz) \<in> live (hdr g1) bs1"
      using got(4) own' by auto
    have n: "n \<le> unat s" "n \<le> unat s'" using bt(5) got(6) by (auto simp: n_def min_def word_le_nat_alt)
    let ?src = "read_bytes (payload_bytes g1) (unat (b + header_size)) n"
    define g2 where "g2 = g1\<lparr>payload_bytes := write_bytes (payload_bytes g1) (unat (c + header_size)) ?src\<rparr>"
    have "disjoint_runs (unat (c + header_size)) n (unat (b + header_size)) n"
      by (rule disjoint_runs_shorter [OF live_disjoint [OF got(3) new1 own1 cb] n(2,1)])
    then have cpy: "fst (memcpy (payload_bytes g1) (unat (c + header_size)) (unat (b + header_size)) n)
        = payload_bytes g2"
      by (simp add: memcpy_write g2_def)
    have inv2: "heap_inv g2 bs1" and own2: "(b, s, r) \<in> live (hdr g2) bs1"
      using got(3) own1 by (simp_all add: g2_def)
    show ?thesis
    proof (cases rule: free_spec [OF inv2 own2, case_names freed])
      case (freed g bs')
      have "realloc_move brk h (b + header_size) sz = Some (c + header_size, g)"
        using got(1,2) freed(1) cpy cs
        by (simp add: realloc_move_def Let_def g2_def split del: if_split)
      moreover have "live (hdr g) bs' = insert (c, s', sz) (live (hdr h) ?bs - {(b, s, r)})"
        using freed(3) got(4) cb hd by (auto simp: g2_def)
      moreover have "keeps_contents (live (hdr h) ?bs - {(b, s, r)}) g1 g2"
        by (rule keeps_contents_write [OF got(3) new1, of ?src])
          (use got(4,5) n hd in \<open>auto simp: g2_def\<close>)
      then have "keeps_contents (live (hdr h) ?bs - {(b, s, r)}) h g"
        using freed(4) got(7) by (simp add: keeps_contents_def allocator_unlock_def)
      moreover have "read_bytes (payload_bytes g) (unat (c + header_size)) n =
          read_bytes (payload_bytes h) (unat (b + header_size)) n"
        using freed(4) got(7) read_write_same [of "payload_bytes g1" "unat (c + header_size)" ?src]
        by (simp add: g2_def allocator_unlock_def)
      ultimately show ?thesis
        using got(2,6,8) freed(2,5)
        by (intro moved [of c g bs' s']) (simp_all add: n_def g2_def allocator_unlock_def)
    qed
  qed
qed

lemma realloc_spec:
  assumes inv: "heap_inv h bs" and own: "(b, s, r) \<in> live (hdr h) bs" and sz: "sz \<noteq> 0"
  obtains (fail) g bs' where "realloc brk h (b + header_size) sz = Some (0, g)" "heap_inv g bs'"
      "live (hdr g) bs' = live (hdr h) bs" "payload_bytes g = payload_bytes h" "alloc_errno g = ENOMEM"
  | (settled) c s' g bs' where "realloc brk h (b + header_size) sz = Some (c + header_size, g)"
      "c + header_size \<noteq> 0" "heap_inv g bs'"
      "live (hdr g) bs' = insert (c, s', sz) (live (hdr h) bs - {(b, s, r)})" "sz \<le> s'"
      "read_bytes (payload_bytes g) (unat (c + header_size)) (unat (min r sz)) =
       read_bytes (payload_bytes h) (unat (b + header_size)) (unat (min r sz))"
      "keeps_contents (live (hdr h) bs - {(b, s, r)}) h g" "alloc_errno g = alloc_errno h"
proof -
  note L = live_tiling [OF inv own]
  have nz: "b + header_size \<noteq> 0" by (rule payload_nonzero(1) [OF L(1,2)])
  show ?thesis
  proof (cases "align_size sz")
    case None
    then show ?thesis using inv nz sz
      by (intro fail [of "h\<lparr>alloc_errno := ENOMEM\<rparr>" bs])
        (simp_all add: realloc_def heap_inv_def heap_core_def)
  next
    case (Some a)
    note as = align_size_spec [OF Some] and apos = align_size_pos [OF Some sz]
    have sa: "sz \<le> a" "16 dvd unat a" using as by (simp_all add: word_le_nat_alt)
    from L(2) obtain us vs where bs: "bs = us @ b # vs" by (meson split_list)
    define k where "k = h\<lparr>allocator_locked := True\<rparr>"
    have lock: "allocator_lock h = Some k" using inv by (simp add: heap_inv_def allocator_lock_def k_def)
    have used: "is_free (hdr h b) = 0" using own by (simp add: live_def)
    have K: "hdr k = hdr h" "payload_bytes k = payload_bytes h" "alloc_errno k = alloc_errno h"
      by (simp_all add: k_def)
    have H: "held k us b vs"
      using inv L used bs by (simp add: held_def k_def heap_inv_def heap_core_def)
    have gone: "live (hdr h) us \<union> live (hdr h) vs = live (hdr h) bs - {(b, s, r)}"
      using own held_parts(5,6) [OF H] live_remove [of b us "hdr h" s r] live_remove [of b vs "hdr h" s r]
      by (auto simp: bs live_Cons used live_notin split: if_splits)
    have in_place: ?thesis
      if R: "realloc brk h (b + header_size) sz = Some (b + header_size, g)" and "resized k us b vs sz g" for g
    proof -
      from that(2) obtain bs' s' where "heap_inv g bs'" "sz \<le> s'"
        "live (hdr g) bs' = insert (b, s', sz) (live (hdr h) us \<union> live (hdr h) vs)"
        "payload_bytes g = payload_bytes h" "alloc_errno g = alloc_errno h"
        by (auto simp: resized_def K)
      then show ?thesis
        using nz R by (intro settled [of b g bs' s']) (simp_all add: gone keeps_contents_same)
    qed
    show ?thesis
    proof (cases "a \<le> blk_size (hdr h b)")
      case True
      then have "realloc brk h (b + header_size) sz = Some (b + header_size, realloc_trim k b a sz)"
        using nz sz Some lock by (simp add: realloc_def K)
      moreover have "resized k us b vs sz (realloc_trim k b a sz)"
        by (rule realloc_trim_resizes [OF H sa(2) apos _ sa(1)]) (simp add: True K)
      ultimately show ?thesis by (rule in_place)
    next
      case False
      then have big: "blk_size (hdr k b) < a" by (simp add: K)
      obtain f1 k1 where r1: "realloc_into_next brk k b a sz = (f1, k1)"
        by (cases "realloc_into_next brk k b a sz")
      note R1 = realloc_into_next_spec [OF H sa(2) big sa(1) r1]
      show ?thesis
      proof (cases f1)
        case f1: True
        have "realloc brk h (b + header_size) sz = Some (b + header_size, k1)"
          using nz sz Some lock False r1 f1 by (simp add: realloc_def K)
        then show ?thesis using R1(1) [OF f1] by (rule in_place)
      next
        case f1: False
        then have H1: "held k1 us b vs" "hdr k1 = hdr h" "payload_bytes k1 = payload_bytes h"
          "alloc_errno k1 = alloc_errno h"
          using R1(2) K by auto
        obtain f2 k2 where r2: "realloc_at_tail brk k1 b a sz = (f2, k2)"
          by (cases "realloc_at_tail brk k1 b a sz")
        have big1: "blk_size (hdr k1 b) < a" using big H1 K by simp
        note R2 = realloc_at_tail_spec [OF H1(1) sa(2) big1 sa(1) r2]
        show ?thesis
        proof (cases f2)
          case f2: True
          have eq: "realloc brk h (b + header_size) sz = Some (b + header_size, k2)"
            using nz sz Some lock False r1 f1 r2 f2 by (simp add: realloc_def K)
          have "resized k us b vs sz k2"
            using R2(1) [OF f2] H1 K by (simp add: resized_def)
          with eq show ?thesis by (rule in_place)
        next
          case f2: False
          then have H2: "held k2 us b vs" "hdr k2 = hdr h" "payload_bytes k2 = payload_bytes h"
            "alloc_errno k2 = alloc_errno h"
            using R2(2) H1 by auto
          have eq: "realloc brk h (b + header_size) sz = realloc_move brk k2 (b + header_size) sz"
            using nz sz Some lock False r1 f1 r2 f2 by (simp add: realloc_def K)
          have own2: "(b, s, r) \<in> live (hdr k2) (us @ b # vs)" using own H2 bs by simp
          show ?thesis
          proof (cases rule: realloc_move_spec [OF H2(1) own2 sz, of brk, case_names none moved])
            case (none g bs')
            then show ?thesis using eq H2 bs by (intro fail) simp_all
          next
            case (moved c s' g bs')
            then show ?thesis using eq H2 bs
              by (intro settled [of c g bs' s']) (simp_all add: keeps_contents_def)
          qed
        qed
      qed
    qed
  qed
qed

subsection \<open>The interface its clients rely on\<close>

text \<open>\<open>regions\<close> are the address and length of what the callers own. A client of this interface knows
  only that an allocation that succeeds adds a region of the length asked for, apart from the others,
  and changes no byte.\<close>

locale region_allocator =
  fixes good :: "'s \<Rightarrow> bool"
    and regions :: "'s \<Rightarrow> (addr \<times> nat) set"
    and contents :: "'s \<Rightarrow> mem"
    and alloc :: "'s \<Rightarrow> u64 \<Rightarrow> (u64 \<times> 's) option"
  assumes alloc_returns: "good s \<Longrightarrow> n \<noteq> 0 \<Longrightarrow> \<exists>p s'. alloc s n = Some (p, s')"
    and alloc_good: "good s \<Longrightarrow> n \<noteq> 0 \<Longrightarrow> alloc s n = Some (p, s') \<Longrightarrow> good s'"
    and alloc_contents: "good s \<Longrightarrow> n \<noteq> 0 \<Longrightarrow> alloc s n = Some (p, s') \<Longrightarrow> contents s' = contents s"
    and alloc_keeps: "good s \<Longrightarrow> n \<noteq> 0 \<Longrightarrow> alloc s n = Some (p, s') \<Longrightarrow> regions s \<subseteq> regions s'"
    and alloc_fresh: "good s \<Longrightarrow> n \<noteq> 0 \<Longrightarrow> alloc s n = Some (p, s') \<Longrightarrow> p \<noteq> 0 \<Longrightarrow> (a, k) \<in> regions s \<Longrightarrow>
      disjoint_runs (unat p) (unat n) a k"
begin

lemma write_fresh_keeps:
  assumes "good s" "n \<noteq> 0" "alloc s n = Some (p, s')" "p \<noteq> 0" "length xs \<le> unat n" "(a, k) \<in> regions s"
  shows "read_bytes (write_bytes (contents s') (unat p) xs) a k = read_bytes (contents s) a k"
proof -
  have "disjoint_runs a k (unat p) (length xs)"
    using alloc_fresh [OF assms(1-4,6)] assms(5) by (auto simp: disjoint_runs_def)
  then show ?thesis using alloc_contents [OF assms(1-3)] by (simp add: read_write_disjoint)
qed

lemma fill_fresh:
  assumes "good s" "n \<noteq> 0" "alloc s n = Some (p, s')" "p \<noteq> 0" "length xs = unat n"
  shows "read_bytes (write_bytes (contents s') (unat p) xs) (unat p) (unat n) = xs"
  using assms(5) read_write_same [of "contents s'" "unat p" xs] by simp

end

lemma seg_unique: "seg H a bs 0 \<Longrightarrow> seg H a bs' 0 \<Longrightarrow> bs = bs'"
proof (induction bs arbitrary: a bs')
  case Nil
  then show ?case by (cases bs') auto
next
  case (Cons b bs)
  then show ?case by (cases bs') auto
qed

lemma heap_inv_unique: "heap_inv h bs \<Longrightarrow> heap_inv h bs' \<Longrightarrow> bs = bs'"
  by (auto simp: heap_inv_def heap_core_def tiling_def split: if_splits intro: seg_unique)

definition heap_good :: "'k heap \<Rightarrow> bool" where
  "heap_good h = (\<exists>bs. heap_inv h bs)"

definition heap_regions :: "'k heap \<Rightarrow> (addr \<times> nat) set" where
  "heap_regions h = {(unat (b + header_size), unat s) | b s r bs. heap_inv h bs \<and> (b, s, r) \<in> live (hdr h) bs}"

lemma heap_regions_eq:
  assumes "heap_inv h bs"
  shows "heap_regions h = (\<lambda>(b, s, r). (unat (b + header_size), unat s)) ` live (hdr h) bs"
proof -
  have "heap_inv h bs' \<longleftrightarrow> bs' = bs" for bs' using assms heap_inv_unique by blast
  then show ?thesis unfolding heap_regions_def by force
qed

lemma malloc_returns: "heap_inv h bs \<Longrightarrow> \<exists>p g. malloc brk h sz = Some (p, g)"
  by (cases "sz = 0") (simp add: malloc_def, metis malloc_spec)

lemma malloc_regions:
  assumes "heap_good h" "n \<noteq> 0" "malloc brk h n = Some (p, g)"
  shows "heap_good g" "payload_bytes g = payload_bytes h" "heap_regions h \<subseteq> heap_regions g"
    "p \<noteq> 0 \<Longrightarrow> (a, k) \<in> heap_regions h \<Longrightarrow> disjoint_runs (unat p) (unat n) a k"
proof -
  from assms(1) obtain bs where inv: "heap_inv h bs" by (auto simp: heap_good_def)
  have "heap_good g \<and> payload_bytes g = payload_bytes h \<and> heap_regions h \<subseteq> heap_regions g \<and>
    (p \<noteq> 0 \<longrightarrow> (\<forall>(a, k) \<in> heap_regions h. disjoint_runs (unat p) (unat n) a k))"
  proof (cases rule: malloc_spec [OF inv assms(2), of brk, case_names fail alloc])
    case (fail g')
    then show ?thesis using assms(3) inv by (auto simp: heap_good_def heap_regions_eq)
  next
    case (alloc b g' bs' s)
    then have eq: "p = b + header_size" "g = g'" using assms(3) by auto
    have new: "(b, s, n) \<in> live (hdr g) bs'" using alloc eq by simp
    have "disjoint_runs (unat p) (unat n) (unat (c + header_size)) (unat t)"
      if "(c, t, q) \<in> live (hdr h) bs" for c t q
    proof -
      from that alloc(5) have "b \<noteq> c" by force
      from live_disjoint [OF alloc(3) new [unfolded eq] _ this, of t q] that alloc(4)
      have "disjoint_runs (unat p) (unat s) (unat (c + header_size)) (unat t)" by (simp add: eq)
      then show ?thesis using alloc(6) by (auto intro: disjoint_runs_shorter simp: word_le_nat_alt)
    qed
    moreover have "heap_regions h \<subseteq> heap_regions g"
      unfolding heap_regions_eq [OF inv] heap_regions_eq [OF alloc(3), folded eq] alloc(4) [folded eq]
      by (intro image_mono) blast
    ultimately show ?thesis
      using alloc inv eq by (auto simp: heap_good_def heap_regions_eq [OF inv])
  qed
  then show "heap_good g" "payload_bytes g = payload_bytes h" "heap_regions h \<subseteq> heap_regions g"
    "p \<noteq> 0 \<Longrightarrow> (a, k) \<in> heap_regions h \<Longrightarrow> disjoint_runs (unat p) (unat n) a k" by auto
qed

interpretation mheap: region_allocator heap_good heap_regions payload_bytes "malloc brk" for brk
proof unfold_locales
  show "\<exists>p s'. malloc brk s n = Some (p, s')" if "heap_good s" for s n
    using that malloc_returns by (auto simp: heap_good_def)
qed (blast dest: malloc_regions)+


subsection \<open>When \<open>malloc\<close> must succeed\<close>

text \<open>What Linux documents of \<open>brk\<close> (and \<open>docs/abi.md\<close> repeats): a request inside the bounds moves the break
  there, any other one, such as 0, leaves it unchanged, and the result is the break in either case. The
  bounds \<open>lo\<close> and \<open>hi\<close> are user addresses; \<open>now\<close> reads the break from the kernel's state.\<close>

definition brk_documented :: "'k brk \<Rightarrow> ('k \<Rightarrow> u64) \<Rightarrow> u64 \<Rightarrow> u64 \<Rightarrow> bool" where
  "brk_documented brk now lo hi =
     (0 < lo \<and> hi < 2 ^ 63 \<and>
      (\<forall>k t. fst (brk k t) = now (snd (brk k t)) \<and>
         now (snd (brk k t)) = (if lo \<le> t \<and> t \<le> hi then t else now k)))"

text \<open>Rounding up to the alignment.\<close>

definition round16 :: "nat \<Rightarrow> nat" where "round16 n = (n + 15) div 16 * 16"

lemma round16_bounds: "n \<le> round16 n" "round16 n < n + 16" "16 dvd round16 n"
  by (simp_all add: round16_def)

lemma round16_unique:
  assumes "n \<le> m" "m < n + 16" "16 dvd m"
  shows "m = round16 n"
proof -
  obtain k where k: "m = 16 * k" using assms(3) by (elim dvdE)
  then have "(n + 15) div 16 = k" using assms(1,2) by (intro div_nat_eqI) simp_all
  then show ?thesis by (simp add: k round16_def)
qed

lemma round16_large:
  assumes "2 ^ 64 - 16 < n"
  shows "2 ^ 64 \<le> round16 n"
proof -
  obtain k where k: "round16 n = 16 * k" using round16_bounds(3) [of n] by (elim dvdE)
  then have "2 ^ 64 - 16 < 16 * k" using assms round16_bounds(1) [of n] by linarith
  then show ?thesis unfolding k by simp
qed

lemma align_size_round16: "align_size sz = Some a \<Longrightarrow> unat a = round16 (unat sz)"
  using align_size_spec [of sz a] by (intro round16_unique) auto

lemma align_size_refused: "align_size sz = None \<Longrightarrow> 2 ^ 64 \<le> round16 (unat sz)"
  unfolding align_size_None by (rule round16_large)

text \<open>The break belongs to the allocator: it is inside the bounds and, once the heap is initialized, where
  the heap ends.\<close>

definition break_owned :: "('k \<Rightarrow> u64) \<Rightarrow> u64 \<Rightarrow> u64 \<Rightarrow> 'k heap \<Rightarrow> bool" where
  "break_owned now lo hi h =
     (lo \<le> now (kern h) \<and> now (kern h) \<le> hi \<and>
      (heap_initialized h \<longrightarrow> now (kern h) = heap_end h \<and> 16 dvd unat (heap_end h)))"

lemma kern_update: "kern (h\<lparr>kern := k\<rparr>) = k"
  by simp

lemma initialize_heap_result:
  assumes "brk_documented brk now lo hi" "break_owned now lo hi h" "initialize_heap brk h = (ok, g)"
  shows "ok \<longleftrightarrow> round16 (unat (now (kern h))) \<le> unat hi" "break_owned now lo hi g"
    "ok \<Longrightarrow> heap_initialized g \<and> unat (heap_end g) = round16 (unat (now (kern h)))"
proof -
  let ?c = "now (kern h)"
  have hi: "unat hi < 2 ^ 63" using assms(1) by (simp add: brk_documented_def word_less_nat_alt)
  have c: "unat ?c \<le> unat hi" "0 < unat ?c"
    using assms(1,2) by (simp_all add: brk_documented_def break_owned_def word_le_nat_alt word_less_nat_alt)
  have "(ok \<longleftrightarrow> round16 (unat ?c) \<le> unat hi) \<and>
    (ok \<longrightarrow> heap_initialized g \<and> unat (heap_end g) = round16 (unat ?c)) \<and> break_owned now lo hi g"
  proof (cases "heap_initialized h")
    case True
    then have "16 dvd unat ?c" using assms(2) by (simp add: break_owned_def)
    then have "round16 (unat ?c) = unat ?c" by (intro round16_unique [symmetric]) simp_all
    then show ?thesis using True assms(2,3) c by (auto simp: initialize_heap_def break_owned_def)
  next
    case False
    obtain r k where run: "brk (kern h) 0 = (r, k)" by force
    have r: "r = ?c" "now k = ?c"
      using assms(1) run unfolding brk_documented_def by (smt (verit) fst_conv snd_conv word_gt_0 word_not_simps(1) linorder_not_le)+
    have pos: "\<not> sint ?c \<le> 0"
    proof -
      have "sint ?c = int (unat ?c)" using c hi by (intro sint_small_u64) simp
      then show ?thesis using c(2) by linarith
    qed
    have small: "\<not> - 1 - (mini_alloc_alignment - 1) < ?c"
      using c hi by (simp add: mini_alloc_alignment_def word_less_nat_alt)
    define al where "al = (?c + (mini_alloc_alignment - 1)) AND NOT (mini_alloc_alignment - 1)"
    have "align_size ?c = Some al" using small by (simp add: align_size_def al_def)
    note al = align_size_round16 [OF this]
    obtain r' k' where run': "brk k al = (r', k')" by force
    have r': "r' = now k'" "now k' = (if lo \<le> al \<and> al \<le> hi then al else ?c)"
      using assms(1) run' r(2) unfolding brk_documented_def by (metis fst_conv snd_conv)+
    have "lo \<le> al" using assms(2) al round16_bounds(1) [of "unat ?c"] by (simp add: break_owned_def word_le_nat_alt)
    then have eq: "initialize_heap brk h =
      (if al = ?c then (True, h\<lparr>kern := k, heap_end := al, heap_initialized := True\<rparr>)
       else if al \<le> hi then (True, h\<lparr>kern := k', heap_end := al, heap_initialized := True\<rparr>)
       else (False, h\<lparr>kern := k'\<rparr>))"
      unfolding initialize_heap_def run prod.case Let_def r(1) al_def [symmetric] kern_update run' if_False
      using False pos small r' by (auto simp: run')
    moreover have "16 dvd unat al" using al round16_bounds(3) by simp
    ultimately show ?thesis
      using assms(2,3) al r r' \<open>lo \<le> al\<close> False by (auto simp: word_le_nat_alt break_owned_def split: if_splits)
  qed
  then show "ok \<longleftrightarrow> round16 (unat ?c) \<le> unat hi" "break_owned now lo hi g"
    "ok \<Longrightarrow> heap_initialized g \<and> unat (heap_end g) = round16 (unat ?c)" by blast+
qed

lemma grow_heap_result:
  assumes "brk_documented brk now lo hi" "break_owned now lo hi h" "16 dvd unat a" "grow_heap brk h a = (p, g)"
  shows "p \<noteq> 0 \<longleftrightarrow> round16 (unat (now (kern h))) + 32 + unat a \<le> unat hi" "break_owned now lo hi g"
    "p \<noteq> 0 \<Longrightarrow> p + header_size \<noteq> 0"
proof -
  let ?c = "round16 (unat (now (kern h)))"
  obtain ok h0 where i: "initialize_heap brk h = (ok, h0)" by (cases "initialize_heap brk h")
  note init = initialize_heap_result [OF assms(1,2) i]
  have hi: "unat hi < 2 ^ 63" "0 < unat lo" using assms(1) by (simp_all add: brk_documented_def word_less_nat_alt)
  have c: "0 < ?c" using assms(2) hi(2) round16_bounds(1) [of "unat (now (kern h))"]
    by (simp add: break_owned_def word_le_nat_alt)
  have "(p \<noteq> 0 \<longleftrightarrow> ?c + 32 + unat a \<le> unat hi) \<and> break_owned now lo hi g \<and> (p \<noteq> 0 \<longrightarrow> p + header_size \<noteq> 0)"
  proof (cases "ok \<and> \<not> - 1 - header_size < a \<and> \<not> - 1 - (header_size + a) < heap_end h0")
    case False
    have "unat hi < ?c + 32 + unat a"
    proof (cases ok)
      case True
      show ?thesis
      proof (cases "2 ^ 64 - 32 \<le> unat a")
        case False
        then have u: "unat (32 + a) = 32 + unat a" by (simp add: unat_word_ariths)
        have "\<not> - 1 - header_size < a" using False by (simp add: header_size_def word_less_nat_alt unat_max_minus)
        then have "- 1 - (header_size + a) < heap_end h0" using \<open>\<not> (ok \<and> _ \<and> _)\<close> True by simp
        then show ?thesis using init(3) [OF True] hi unfolding word_less_nat_alt header_size_def unat_max_minus u by simp
      qed (use hi in simp)
    qed (use init(1) in simp)
    moreover have "p = 0" "g = h0" using False assms(4) i by (auto simp: grow_heap_def Let_def split: if_splits)
    ultimately show ?thesis using init(2) by simp
  next
    case True
    then have ok: "heap_initialized h0" "unat (heap_end h0) = ?c" using init(3) by simp_all
    have "unat a < 2 ^ 64 - 32" using True by (simp add: header_size_def word_less_nat_alt not_less)
    then have u: "unat (32 + a) = 32 + unat a" by (simp add: unat_word_ariths)
    then have "?c + 32 + unat a < 2 ^ 64"
      using True ok \<open>unat a < 2 ^ 64 - 32\<close> unfolding not_less word_le_nat_alt header_size_def unat_max_minus u
      by (simp, linarith)
    then have tu: "unat (heap_end h0 + (32 + a)) = ?c + 32 + unat a" using ok u by (simp add: unat_word_ariths)
    define t where "t = heap_end h0 + (header_size + a)"
    obtain r k where run: "brk (kern h0) t = (r, k)" by force
    have own: "now (kern h0) = heap_end h0" "lo \<le> heap_end h0" "16 dvd unat (heap_end h0)"
      using init(2) ok(1) by (auto simp: break_owned_def)
    have r: "r = now k" "now k = (if lo \<le> t \<and> t \<le> hi then t else heap_end h0)"
      using assms(1) run own(1) unfolding brk_documented_def by (metis fst_conv snd_conv)+
    have "lo \<le> t" "t \<noteq> heap_end h0"
      using own tu ok unfolding t_def header_size_def word_le_nat_alt word_unat_eq_iff by simp_all
    then have r_iff: "r = t \<longleftrightarrow> ?c + 32 + unat a \<le> unat hi" "now k = (if r = t then t else heap_end h0)"
      using r tu by (auto simp: word_le_nat_alt t_def header_size_def)
    have p: "p = (if r = t then heap_end h0 else 0)" "kern g = k" "heap_initialized g"
      "heap_end g = (if r = t then t else heap_end h0)"
      using assms(4) True ok(1) unfolding grow_heap_def i prod.case Let_def t_def [symmetric] run
      by (auto simp: upd_block_def split: if_splits)
    have "16 dvd unat t" using own(3) assms(3) tu ok(2) by (simp add: t_def header_size_def)
    moreover have "heap_end h0 \<noteq> 0" using c ok(2) by (metis less_irrefl unsigned_0)
    moreover have "heap_end h0 + header_size \<noteq> 0"
    proof -
      have "unat (heap_end h0 + 32) = ?c + 32"
        using \<open>?c + 32 + unat a < 2 ^ 64\<close> ok(2) by (simp add: unat_word_ariths)
      then show ?thesis by (metis header_size_def add_is_0 unsigned_0 zero_neq_numeral)
    qed
    moreover have "r = t \<Longrightarrow> t \<le> hi" using r \<open>t \<noteq> heap_end h0\<close> by (metis (no_types))
    moreover have "heap_end h0 \<le> hi" using init(2) own(1) by (simp add: break_owned_def)
    ultimately show ?thesis
      using p r_iff own \<open>lo \<le> t\<close> by (cases "r = t") (simp_all add: break_owned_def)
  qed
  then show "p \<noteq> 0 \<longleftrightarrow> ?c + 32 + unat a \<le> unat hi" "break_owned now lo hi g" "p \<noteq> 0 \<Longrightarrow> p + header_size \<noteq> 0"
    by blast+
qed


lemma split_block_rest: "same_rest h (snd (split_block h b a))"
  by (simp add: split_block_def Let_def same_rest_def upd_block_def)

lemma calloc_overflow_guard:
  fixes n s :: u64
  assumes "s \<noteq> 0"
  shows "- 1 div s < n \<longleftrightarrow> 2 ^ 64 \<le> unat n * unat s"
    and "\<not> - 1 div s < n \<Longrightarrow> unat (n * s) = unat n * unat s"
proof -
  have s: "0 < unat s" using assms unat_gt_0 by blast
  have "unat (- 1 div s :: u64) = (2 ^ 64 - 1) div unat s"
    by (simp add: unat_div_distrib unsigned_minus_1_eq_mask mask_eq_exp_minus_1)
  then have "\<not> - 1 div s < n \<longleftrightarrow> unat n \<le> (2 ^ 64 - 1) div unat s"
    by (simp add: word_less_nat_alt not_less)
  also have "\<dots> \<longleftrightarrow> unat n * unat s \<le> 2 ^ 64 - 1" by (rule less_eq_div_iff_mult_less_eq [OF s])
  finally have eq: "\<not> - 1 div s < n \<longleftrightarrow> unat n * unat s < 2 ^ 64" by auto
  then show "- 1 div s < n \<longleftrightarrow> 2 ^ 64 \<le> unat n * unat s" by linarith
  show "unat (n * s) = unat n * unat s" if "\<not> - 1 div s < n"
    using that unfolding eq by (simp add: unat_word_ariths)
qed

subsection \<open>Properties\<close>

text \<open>The static initial state, and heaps the witnesses run on: a block of 64 bytes in use, a free block
  of 32 and a block of 16 in use.\<close>

definition heap_start :: "'k \<Rightarrow> 'k heap" where
  "heap_start k = \<lparr>block_head = 0, block_tail = 0, heap_end = 0, heap_initialized = False,
     allocator_locked = False, hdr = (\<lambda>_. \<lparr>blk_size = 0, blk_next = 0, is_free = 0, requested_size = 0\<rparr>),
     payload_bytes = (\<lambda>_. 0), alloc_errno = 0, kern = k\<rparr>"

definition heap_example :: "unit heap" where
  "heap_example = (heap_start ())\<lparr>block_head := 0x1000, block_tail := 0x10A0, heap_end := 0x10D0,
     heap_initialized := True,
     hdr := (\<lambda>_. \<lparr>blk_size = 0, blk_next = 0, is_free = 0, requested_size = 0\<rparr>)
       (0x1000 := \<lparr>blk_size = 64, blk_next = 0x1060, is_free = 0, requested_size = 50\<rparr>,
        0x1060 := \<lparr>blk_size = 32, blk_next = 0x10A0, is_free = 1, requested_size = 0\<rparr>,
        0x10A0 := \<lparr>blk_size = 16, blk_next = 0, is_free = 0, requested_size = 10\<rparr>)\<rparr>"

definition brk_grant :: "unit brk" where
  "brk_grant k t = (if t = 0 then (0x1001, ()) else (t, ()))"

lemma heap_start_inv: "heap_inv (heap_start k) []"
  by (simp add: heap_inv_def heap_core_def heap_start_def)

lemma heap_example_inv: "heap_inv heap_example [0x1000, 0x1060, 0x10A0]"
  by (simp add: heap_inv_def heap_core_def heap_example_def heap_start_def tiling_def coalesced_def
      requests_ok_def)

lemma heap_example_live: "live (hdr heap_example) [0x1000, 0x1060, 0x10A0] = {(0x1000, 64, 50), (0x10A0, 16, 10)}"
  by (auto simp: live_Cons heap_example_def)

text \<open>
  C1. \<open>malloc\<close> on a well-formed heap always returns and leaves a well-formed heap with every payload
  byte unchanged. Either it returns the null pointer with \<open>errno = ENOMEM\<close> and the callers' blocks
  are as before, or it returns a 16-aligned pointer and the callers' blocks have gained exactly one,
  which was not in use and has room for the request.
\<close>

theorem malloc_adds_one_block:
  assumes "heap_inv h bs" and "sz \<noteq> 0"
  shows "\<exists>p g bs'. malloc brk h sz = Some (p, g) \<and> heap_inv g bs' \<and> payload_bytes g = payload_bytes h \<and>
    (p = 0 \<and> alloc_errno g = ENOMEM \<and> live (hdr g) bs' = live (hdr h) bs \<or>
     p \<noteq> 0 \<and> 16 dvd unat p \<and> alloc_errno g = alloc_errno h \<and>
     p - header_size \<notin> fst ` live (hdr h) bs \<and>
     (\<exists>s. sz \<le> s \<and> live (hdr g) bs' = insert (p - header_size, s, sz) (live (hdr h) bs)))"
proof (cases rule: malloc_spec [OF assms, of brk, case_names fail alloc])
  case fail
  then show ?thesis by auto
next
  case (alloc b g bs' s)
  have "(b, s, sz) \<in> live (hdr g) bs'" using alloc by simp
  note L = live_tiling(1,2) [OF alloc(3) this]
  have "16 dvd unat (b + header_size)"
    using payload_nonzero(2) [OF L] tiling_blocks(2) [OF L] by simp
  with alloc show ?thesis by fastforce
qed

theorem malloc_adds_one_block_witness:
  "\<exists>p g bs'. malloc brk_grant (heap_start ()) 24 = Some (p, g) \<and> heap_inv g bs'"
  using malloc_adds_one_block [OF heap_start_inv, where sz = 24 and brk = brk_grant] by fastforce

text \<open>
  C2. \<open>malloc\<close> fails when and only when it must: on a kernel whose \<open>brk\<close> works as documented, whether or not
  the heap is initialized yet, a request that is not zero gets a pointer exactly when some free block
  can hold the request rounded to 16 bytes, or when the break, rounded likewise, can still be moved by a
  header and the rounded request. The break is still the allocator's afterwards.
\<close>

theorem malloc_succeeds:
  assumes "heap_inv h bs" and "sz \<noteq> 0" and "brk_documented brk now lo hi" and "break_owned now lo hi h"
  shows "\<exists>p g. malloc brk h sz = Some (p, g) \<and> break_owned now lo hi g \<and>
    (p \<noteq> 0 \<longleftrightarrow>
       (\<exists>b \<in> set bs. is_free (hdr h b) \<noteq> 0 \<and> round16 (unat sz) \<le> unat (blk_size (hdr h b))) \<or>
       round16 (unat (now (kern h))) + 32 + round16 (unat sz) \<le> unat hi)"
proof (cases "align_size sz")
  case None
  have "unat hi < round16 (unat sz)" "\<And>b. unat (blk_size (hdr h b)) < round16 (unat sz)"
    using align_size_refused [OF None] unat_u64_less [of hi] unat_u64_less order_less_le_trans by blast+
  then have "\<not> (\<exists>b \<in> set bs. is_free (hdr h b) \<noteq> 0 \<and> round16 (unat sz) \<le> unat (blk_size (hdr h b)))"
    "\<not> round16 (unat (now (kern h))) + 32 + round16 (unat sz) \<le> unat hi"
    using not_le by auto
  then show ?thesis using None assms(2,4) by (simp add: malloc_def break_owned_def)
next
  case (Some a)
  note as = align_size_spec [OF Some] and ar = align_size_round16 [OF Some]
  let ?h = "h\<lparr>allocator_locked := True\<rparr>"
  let ?P = "\<lambda>b. is_free (hdr h b) \<noteq> 0 \<and> a \<le> blk_size (hdr h b)"
  have lock: "allocator_lock h = Some ?h" using assms(1) by (simp add: heap_inv_def allocator_lock_def)
  have "seg (hdr h) (block_head h) bs 0"
    using assms(1) by (auto simp: heap_inv_def heap_core_def tiling_def split: if_splits)
  then have walk: "find_free_block ?h a = Some (case List.find ?P bs of None \<Rightarrow> 0 | Some b \<Rightarrow> b)"
    using find_free_from_first_fit [of "hdr h" "block_head h" bs a] by (simp add: find_free_block_def)
  have fits: "List.find ?P bs = None \<longleftrightarrow>
    \<not> (\<exists>b \<in> set bs. is_free (hdr h b) \<noteq> 0 \<and> round16 (unat sz) \<le> unat (blk_size (hdr h b)))"
    by (auto simp: find_None_iff word_le_nat_alt ar)
  have own: "break_owned now lo hi ?h" using assms(4) by (simp add: break_owned_def)
  show ?thesis
  proof (cases "List.find ?P bs")
    case none: None
    obtain p g where grow: "grow_heap brk ?h a = (p, g)" by (cases "grow_heap brk ?h a")
    note G = grow_heap_result [OF assms(3) own as [THEN conjunct2, THEN conjunct1] grow]
    have "break_owned now lo hi ((allocator_unlock g)\<lparr>alloc_errno := ENOMEM\<rparr>)"
      "break_owned now lo hi (allocator_unlock (upd_block g p (\<lambda>b. b\<lparr>requested_size := sz\<rparr>)))"
      using G(2) by (simp_all add: break_owned_def alloc_defs)
    then show ?thesis
      using G(1,3) none [unfolded fits] Some assms(2) lock walk none grow
      by (cases "p = 0") (auto simp: malloc_def ar)
  next
    case found: (Some c)
    have t: "tiling (hdr h) (block_head h) bs (block_tail h) (unat (heap_end h))" and "c \<in> set bs"
      using assms(1) find_SomeD [OF found] by (auto simp: heap_inv_def heap_core_def split: if_splits)
    then have c: "c \<noteq> 0" "c + header_size \<noteq> 0"
      using payload_nonzero(1) [OF t, of c] tiling_blocks(1) [OF t, of c] by auto
    have "break_owned now lo hi (allocator_unlock (upd_block (snd (split_block ?h c a)) c
        (\<lambda>b. b\<lparr>is_free := 0, requested_size := sz\<rparr>)))"
      using assms(4) split_block_rest [of ?h c a] by (simp add: break_owned_def same_rest_def alloc_defs)
    then show ?thesis
      using c found fits Some assms(2) lock walk by (auto simp: malloc_def split_def)
  qed
qed

definition brk_bounded :: "u64 \<Rightarrow> u64 \<Rightarrow> u64 brk" where
  "brk_bounded lo hi k t = (if lo \<le> t \<and> t \<le> hi then (t, t) else (k, k))"

text \<open>A first \<open>malloc\<close>, on a heap that is not initialized yet, with the break at 0x1001 and a limit of 0x2000.\<close>

theorem malloc_succeeds_witness:
  "(\<exists>p g. malloc (brk_bounded 0x1000 0x2000) (heap_start 0x1001) 100 = Some (p, g) \<and> p \<noteq> 0) \<and>
   (\<exists>g. malloc (brk_bounded 0x1000 0x2000) (heap_start 0x1001) 0x1000 = Some (0, g))"
proof -
  have k: "brk_documented (brk_bounded 0x1000 0x2000) (\<lambda>k. k) 0x1000 0x2000"
    "break_owned (\<lambda>k. k) 0x1000 0x2000 (heap_start 0x1001)"
    by (simp_all add: brk_documented_def brk_bounded_def break_owned_def heap_start_def)
  show ?thesis
    using malloc_succeeds [OF heap_start_inv _ k, where sz = 100] malloc_succeeds [OF heap_start_inv _ k, where sz = 4096]
    by (auto simp: round16_def heap_start_def)
qed

text \<open>
  The payloads of the callers' blocks lie inside the heap, each after its own header, 16-aligned,
  and no two of them overlap (nor does a payload reach the next block's header).
\<close>

theorem live_payloads_apart:
  assumes "heap_inv h bs" and "(b, s, r) \<in> live (hdr h) bs" and "(c, t, q) \<in> live (hdr h) bs" and "b \<noteq> c"
  shows "disjoint_runs (unat b) (unat s + 32) (unat c) (unat t + 32) \<and> 16 dvd unat (b + header_size) \<and>
    unat (b + header_size) + unat s \<le> unat (heap_end h) \<and> r \<le> s"
proof -
  note L = live_tiling [OF assms(1,2)] and M = live_tiling [OF assms(1,3)]
  show ?thesis
    using tiling_disjoint [OF L(1,2) M(2) assms(4)] L(3,5) M(3) tiling_blocks(2,5) [OF L(1,2)]
      payload_nonzero(2) [OF L(1,2)]
    by (auto simp: disjoint_runs_def add.commute add.left_commute)
qed

theorem live_payloads_apart_witness:
  "disjoint_runs 0x1000 (64 + 32) 0x10A0 (16 + 32) \<and> heap_inv heap_example [0x1000, 0x1060, 0x10A0]"
  using live_payloads_apart [OF heap_example_inv, where b = "0x1000" and s = 64 and r = 50
      and c = "0x10A0" and t = 16 and q = 10] heap_example_inv
  by (simp add: heap_example_live)

text \<open>
  C4. \<open>free\<close> of a block in use always returns and leaves a well-formed heap, so no two neighbouring
  blocks are both free; the callers' blocks have lost exactly the one freed, and no payload byte nor
  \<open>errno\<close> has changed.
\<close>

theorem free_removes_one_block:
  assumes "heap_inv h bs" and "(b, s, r) \<in> live (hdr h) bs"
  shows "\<exists>g bs'. free h (b + header_size) = Some g \<and> heap_inv g bs' \<and> coalesced (hdr g) bs' \<and>
    live (hdr g) bs' = live (hdr h) bs - {(b, s, r)} \<and>
    payload_bytes g = payload_bytes h \<and> alloc_errno g = alloc_errno h"
proof (cases rule: free_spec [OF assms, case_names freed])
  case (freed g bs')
  moreover have "coalesced (hdr g) bs'" using freed(2,6) by (simp add: heap_inv_def heap_core_def)
  ultimately show ?thesis by blast
qed

theorem free_removes_one_block_witness:
  "\<exists>g bs'. free heap_example 0x1020 = Some g \<and> heap_inv g bs' \<and> live (hdr g) bs' = {(0x10A0, 16, 10)}"
  using free_removes_one_block [OF heap_example_inv, where b = "0x1000" and s = 64 and r = 50]
  by (auto simp: heap_example_live header_size_def)

text \<open>
  C3. \<open>realloc\<close> of a block in use to a size that is not zero always returns. If it fails, nothing has
  changed but \<open>errno\<close>. Otherwise the old block has been replaced by one with room for the new size
  whose first bytes, up to the smaller of the two requested sizes, are the old block's, and no other
  caller's block or bytes have changed. (The in-place cases, the growth of the break and the copy
  are all covered.)
\<close>

theorem realloc_keeps_contents:
  assumes "heap_inv h bs" and "(b, s, r) \<in> live (hdr h) bs" and "sz \<noteq> 0"
  shows "\<exists>p g bs'. realloc brk h (b + header_size) sz = Some (p, g) \<and> heap_inv g bs' \<and>
    (p = 0 \<and> live (hdr g) bs' = live (hdr h) bs \<and> payload_bytes g = payload_bytes h \<and> alloc_errno g = ENOMEM \<or>
     p \<noteq> 0 \<and>
     (\<exists>s'. sz \<le> s' \<and> live (hdr g) bs' = insert (p - header_size, s', sz) (live (hdr h) bs - {(b, s, r)})) \<and>
     read_bytes (payload_bytes g) (unat p) (unat (min r sz)) =
     read_bytes (payload_bytes h) (unat (b + header_size)) (unat (min r sz)) \<and>
     keeps_contents (live (hdr h) bs - {(b, s, r)}) h g)"
proof (cases rule: realloc_spec [OF assms, of brk, case_names fail settled])
  case fail
  then show ?thesis by blast
next
  case (settled c s' g bs')
  then have "live (hdr g) bs' = insert (c + header_size - header_size, s', sz) (live (hdr h) bs - {(b, s, r)})"
    by simp
  with settled show ?thesis by blast
qed

theorem realloc_keeps_contents_witness:
  "\<exists>p g bs'. realloc brk_grant heap_example 0x1020 80 = Some (p, g) \<and> heap_inv g bs'"
  using realloc_keeps_contents [OF heap_example_inv, where b = "0x1000" and s = 64 and r = 50
      and sz = 80 and brk = brk_grant]
  by (simp add: heap_example_live header_size_def) blast

text \<open>
  C5. \<open>calloc\<close> refuses a product that does not fit 64 bits, sets \<open>errno\<close> whenever it returns the null
  pointer for a request that is not zero, and otherwise returns a new block whose first
  \<open>nmemb * size\<close> bytes are zero, with every other caller's bytes unchanged.
\<close>

theorem calloc_zeroes_or_refuses:
  assumes inv: "heap_inv h bs" and nz: "nmemb \<noteq> 0" "sz \<noteq> 0"
  shows "\<exists>p g bs'. calloc brk h nmemb sz = Some (p, g) \<and> heap_inv g bs' \<and>
    (2 ^ 64 \<le> unat nmemb * unat sz \<longrightarrow> p = 0) \<and>
    (p = 0 \<longrightarrow> alloc_errno g = ENOMEM \<and> live (hdr g) bs' = live (hdr h) bs) \<and>
    (p \<noteq> 0 \<longrightarrow> (\<exists>s. live (hdr g) bs' = insert (p - header_size, s, nmemb * sz) (live (hdr h) bs)) \<and>
       read_bytes (payload_bytes g) (unat p) (unat nmemb * unat sz) = replicate (unat nmemb * unat sz) 0 \<and>
       keeps_contents (live (hdr h) bs) h g)"
proof (cases "- 1 div sz < nmemb")
  case True
  let ?g = "h\<lparr>alloc_errno := ENOMEM\<rparr>"
  have "heap_inv ?g bs" using inv by (simp add: heap_inv_def heap_core_def)
  with True nz show ?thesis
    by (intro exI [of _ 0] exI [of _ ?g] exI [of _ bs]) (simp add: calloc_def)
next
  case False
  let ?n = "nmemb * sz"
  note n = calloc_overflow_guard(2) [OF nz(2) False] and fits = calloc_overflow_guard(1) [OF nz(2), of nmemb]
  have "0 < unat nmemb" "0 < unat sz" using nz unat_gt_0 by blast+
  then have "0 < unat ?n" unfolding n by simp
  then have n0: "?n \<noteq> 0" unfolding unat_gt_0 .
  show ?thesis
  proof (cases rule: malloc_spec [OF inv n0, of brk, case_names fail alloc])
    case (fail g)
    then show ?thesis using False nz
      by (intro exI [of _ 0] exI [of _ g] exI [of _ bs]) (simp add: calloc_def)
  next
    case (alloc b g0 bs' s)
    let ?xs = "replicate (unat ?n) (uchar 0)" and ?p = "b + header_size"
    define g where "g = g0\<lparr>payload_bytes := write_bytes (payload_bytes g0) (unat ?p) ?xs\<rparr>"
    have good: "heap_good h" using inv by (auto simp: heap_good_def)
    have eq: "calloc brk h nmemb sz = Some (?p, g)"
      using False nz alloc(1,2) by (simp add: calloc_def memset_write g_def)
    have zero: "read_bytes (payload_bytes g) (unat ?p) (unat ?n) = ?xs"
      using mheap.fill_fresh [OF good n0 alloc(1,2), of ?xs] by (simp add: g_def)
    have keep: "keeps_contents (live (hdr h) bs) h g"
      unfolding keeps_contents_def
    proof (clarify)
      fix c t q assume "(c, t, q) \<in> live (hdr h) bs"
      then have "(unat (c + header_size), unat t) \<in> heap_regions h"
        unfolding heap_regions_eq [OF inv] by force
      from mheap.write_fresh_keeps [OF good n0 alloc(1,2) _ this, of ?xs]
      show "read_bytes (payload_bytes g) (unat (c + header_size)) (unat t) =
          read_bytes (payload_bytes h) (unat (c + header_size)) (unat t)" by (simp add: g_def)
    qed
    have "uchar 0 = 0" by (simp add: uchar_def)
    then show ?thesis
      using eq zero keep alloc(2,3,4) False fits n
      by (intro exI [of _ ?p] exI [of _ g] exI [of _ bs']) (simp add: g_def, blast?)
  qed
qed

theorem calloc_zeroes_or_refuses_witness:
  "\<exists>p g bs'. calloc brk_grant heap_example 5 4 = Some (p, g) \<and> heap_inv g bs'"
  using calloc_zeroes_or_refuses [OF heap_example_inv, where nmemb = 5 and sz = 4 and brk = brk_grant]
  by fastforce

end
