(* ===== verification/Stream.thy ===== *)
theory Stream
  imports Memory_Ops "HOL-Library.Sublist"
begin

section \<open>Buffered byte streams (\<open>stdio/stdio.c\<close>, \<open>stdio/position.c\<close>, \<open>stdio/block.c\<close>)\<close>

text \<open>
  A \<open>FILE\<close> is a record with the source's fields: the flag words \<open>mode\<close> and \<open>state\<close>, the pending
  output, the read window, the pushed-back bytes, and where its two buffers live. Both buffer
  pointers may name the same caller's buffer after \<open>setvbuf\<close>, so buffers are named and their bytes
  sit in a store: writing through one name is seen through the other. What the code relies on to
  keep the two uses apart is an invariant (\<open>stream_ok\<close>), kept by every operation.

  The system calls are parameters, collected in \<open>'k sys\<close>: a read gives an error number or the bytes it
  placed in the buffer, a write gives its raw result. The loops of the source end for every
  kernel (each round makes progress or leaves the loop), so they are total functions, except the write
  loop, whose progress rests on the buffer not being empty: it is a partial function, and its
  totality on well-formed streams is proved.

  The functions of this theory work on one stream that is not null, with \<open>errno\<close> and the kernel's
  state beside it; null pointers, the list of live streams and opening and closing are in \<open>Stdio_File\<close>.
  Sizes (\<open>size_t\<close>) are natural numbers: they are bounded by the buffer size or by the caller's request.
\<close>

subsection \<open>State\<close>

definition MINI_FILE_READABLE :: u32 where "MINI_FILE_READABLE = 1"
definition MINI_FILE_WRITABLE :: u32 where "MINI_FILE_WRITABLE = 2"
definition MINI_FILE_OWNED :: u32 where "MINI_FILE_OWNED = 4"
definition MINI_FILE_UNBUFFERED :: u32 where "MINI_FILE_UNBUFFERED = 8"
definition MINI_FILE_APPEND :: u32 where "MINI_FILE_APPEND = 16"
definition MINI_FILE_LINE_BUFFERED :: u32 where "MINI_FILE_LINE_BUFFERED = 32"
definition MINI_FILE_BUFFER_OWNED :: u32 where "MINI_FILE_BUFFER_OWNED = 64"

definition MINI_FILE_EOF :: u32 where "MINI_FILE_EOF = 4"
definition MINI_FILE_ERROR :: u32 where "MINI_FILE_ERROR = 8"
definition MINI_FILE_READ_NEEDS_POSITION :: u32 where "MINI_FILE_READ_NEEDS_POSITION = 16"
definition MINI_FILE_WRITE_NEEDS_SYNC :: u32 where "MINI_FILE_WRITE_NEEDS_SYNC = 32"
definition MINI_FILE_BYTE_ORIENTED :: u32 where "MINI_FILE_BYTE_ORIENTED = 64"
definition MINI_FILE_WIDE_ORIENTED :: u32 where "MINI_FILE_WIDE_ORIENTED = 128"
definition MINI_FILE_WIDE_UTF8 :: u32 where "MINI_FILE_WIDE_UTF8 = 256"
definition MINI_FILE_ORIENTATION_MASK :: u32 where
  "MINI_FILE_ORIENTATION_MASK = MINI_FILE_BYTE_ORIENTED OR MINI_FILE_WIDE_ORIENTED"
definition MINI_FILE_BUFFER_SIZE :: nat where "MINI_FILE_BUFFER_SIZE = 256"

lemmas mode_flags =
  MINI_FILE_READABLE_def MINI_FILE_WRITABLE_def MINI_FILE_OWNED_def MINI_FILE_UNBUFFERED_def
  MINI_FILE_APPEND_def MINI_FILE_LINE_BUFFERED_def MINI_FILE_BUFFER_OWNED_def

lemmas state_flags =
  MINI_FILE_EOF_def MINI_FILE_ERROR_def MINI_FILE_READ_NEEDS_POSITION_def
  MINI_FILE_WRITE_NEEDS_SYNC_def MINI_FILE_BYTE_ORIENTED_def MINI_FILE_WIDE_ORIENTED_def
  MINI_FILE_WIDE_UTF8_def MINI_FILE_ORIENTATION_MASK_def

lemmas file_flags = mode_flags state_flags

text \<open>\<open>(w & f) != 0\<close>, \<open>w |= f\<close> and \<open>w &= ~f\<close>.\<close>

definition has :: "u32 \<Rightarrow> u32 \<Rightarrow> bool" where "has w f = (w AND f \<noteq> 0)"
definition raise_flag :: "u32 \<Rightarrow> u32 \<Rightarrow> u32" where "raise_flag f w = (w OR f)"
definition drop_flag :: "u32 \<Rightarrow> u32 \<Rightarrow> u32" where "drop_flag f w = (w AND NOT f)"

datatype buf_ref = No_buffer | Inline_write | Inline_read | User_buffer

record mini_file =
  fd :: int
  mode :: u32
  state :: u32
  next_stream :: nat
  write_length :: nat
  write_buffer :: buf_ref
  read_offset :: nat
  read_length :: nat
  pushback_offset :: nat
  pushback_length :: nat
  pushback_bytes :: "nat \<Rightarrow> byte"
  read_buffer :: buf_ref
  buffer_size :: nat
  buffers :: "buf_ref \<Rightarrow> nat \<Rightarrow> byte"

record 'k io =
  strm :: mini_file
  io_errno :: int
  io_kern :: 'k

record 'k sys =
  sys_read :: "'k \<Rightarrow> int \<Rightarrow> nat \<Rightarrow> (int + byte list) \<times> 'k"
  sys_write :: "'k \<Rightarrow> int \<Rightarrow> byte list \<Rightarrow> int \<times> 'k"
  sys_lseek :: "'k \<Rightarrow> int \<Rightarrow> int \<Rightarrow> int \<Rightarrow> int \<times> 'k"
  sys_openat :: "'k \<Rightarrow> int \<Rightarrow> byte list \<Rightarrow> u32 \<Rightarrow> u32 \<Rightarrow> int \<times> 'k"
  sys_close :: "'k \<Rightarrow> int \<Rightarrow> int \<times> 'k"

definition on_strm :: "(mini_file \<Rightarrow> mini_file) \<Rightarrow> 'k io \<Rightarrow> 'k io" where
  "on_strm f c = c\<lparr>strm := f (strm c)\<rparr>"

definition set_state :: "u32 \<Rightarrow> 'k io \<Rightarrow> 'k io" where
  "set_state f = on_strm (\<lambda>s. s\<lparr>state := raise_flag f (state s)\<rparr>)"

definition clear_state :: "u32 \<Rightarrow> 'k io \<Rightarrow> 'k io" where
  "clear_state f = on_strm (\<lambda>s. s\<lparr>state := drop_flag f (state s)\<rparr>)"

text \<open>\<open>n\<close> bytes of a buffer from an offset, and storing bytes there.\<close>

definition buf_get :: "(nat \<Rightarrow> byte) \<Rightarrow> nat \<Rightarrow> nat \<Rightarrow> byte list" where
  "buf_get b off n = map (\<lambda>i. b (off + i)) [0..<n]"

definition buf_put :: "(nat \<Rightarrow> byte) \<Rightarrow> nat \<Rightarrow> byte list \<Rightarrow> nat \<Rightarrow> byte" where
  "buf_put b off xs = (\<lambda>i. if off \<le> i \<and> i < off + length xs then xs ! (i - off) else b i)"

subsection \<open>Errors and storage\<close>

definition mark_error :: "int \<Rightarrow> 'k io \<Rightarrow> 'k io" where
  "mark_error e c = (set_state MINI_FILE_ERROR c)\<lparr>io_errno := e\<rparr>"

definition readable_stream :: "mini_file \<Rightarrow> bool" where
  "readable_stream s = has (mode s) MINI_FILE_READABLE"

definition pushback_unlocked :: "byte list \<Rightarrow> 'k io \<Rightarrow> int \<times> 'k io" where
  "pushback_unlocked bytes c =
     (let s = strm c in
      if \<not> readable_stream s \<or> length bytes = 0 \<or> 4 < length bytes \<or>
         has (state s) MINI_FILE_WRITE_NEEDS_SYNC \<or> pushback_offset s < pushback_length s
      then (c_EOF, mark_error EINVAL c)
      else
        let c = on_strm (\<lambda>s. s\<lparr>pushback_bytes := buf_put (pushback_bytes s) 0 bytes,
                               pushback_offset := 0, pushback_length := length bytes\<rparr>) c
        in (0, set_state MINI_FILE_READ_NEEDS_POSITION (clear_state MINI_FILE_EOF c)))"

definition ensure_storage :: "mini_file \<Rightarrow> mini_file" where
  "ensure_storage s =
     (let s = (if buffer_size s = 0 then s\<lparr>buffer_size := MINI_FILE_BUFFER_SIZE\<rparr> else s);
          s = (if write_buffer s = No_buffer then s\<lparr>write_buffer := Inline_write\<rparr> else s)
      in if read_buffer s = No_buffer then s\<lparr>read_buffer := Inline_read\<rparr> else s)"

subsection \<open>Reading\<close>

text \<open>The result is the bytes placed in the caller's buffer; the count returned is their number.\<close>

function read_direct :: "'k sys \<Rightarrow> nat \<Rightarrow> byte list \<Rightarrow> 'k io \<Rightarrow> byte list \<times> 'k io" where
  "read_direct K len acc c =
     (if length acc < len then
        let remaining = len - length acc;
            (result, k) = sys_read K (io_kern c) (fd (strm c)) remaining;
            c = c\<lparr>io_kern := k\<rparr>
        in case result of
             Inl e \<Rightarrow> (acc, mark_error e (set_state MINI_FILE_READ_NEEDS_POSITION c))
           | Inr bs \<Rightarrow>
               if bs = [] then
                 (acc, clear_state MINI_FILE_READ_NEEDS_POSITION (set_state MINI_FILE_EOF c))
               else if remaining < length bs then
                 (acc, mark_error EIO (set_state MINI_FILE_READ_NEEDS_POSITION c))
               else read_direct K len (acc @ bs) (set_state MINI_FILE_READ_NEEDS_POSITION c)
      else (acc, c))"
  by auto
termination
  by (relation "measure (\<lambda>(K, len, acc, c). len - length acc)") (auto simp: diff_less_mono2)

text \<open>One round of the buffered loop copies pushed-back bytes, copies unread bytes, or refills.\<close>

function read_buffered :: "'k sys \<Rightarrow> nat \<Rightarrow> byte list \<Rightarrow> 'k io \<Rightarrow> byte list \<times> 'k io" where
  "read_buffered K len acc c =
     (if length acc < len then
        let s = strm c in
        if pushback_offset s < pushback_length s then
          let chunk = min (pushback_length s - pushback_offset s) (len - length acc);
              off = pushback_offset s + chunk;
              c' = on_strm (\<lambda>s. if off = pushback_length s
                                then s\<lparr>pushback_offset := 0, pushback_length := 0\<rparr>
                                else s\<lparr>pushback_offset := off\<rparr>) c
          in read_buffered K len (acc @ buf_get (pushback_bytes s) (pushback_offset s) chunk)
               (set_state MINI_FILE_READ_NEEDS_POSITION c')
        else if read_offset s < read_length s then
          let chunk = min (read_length s - read_offset s) (len - length acc);
              c' = on_strm (\<lambda>s. s\<lparr>read_offset := read_offset s + chunk\<rparr>) c
          in read_buffered K len (acc @ buf_get (buffers s (read_buffer s)) (read_offset s) chunk)
               (set_state MINI_FILE_READ_NEEDS_POSITION c')
        else if has (state s) MINI_FILE_EOF then (acc, c)
        else
          let (result, k) = sys_read K (io_kern c) (fd s) (buffer_size s);
              c' = c\<lparr>io_kern := k\<rparr>
          in case result of
               Inl e \<Rightarrow> (acc, mark_error e (set_state MINI_FILE_READ_NEEDS_POSITION c'))
             | Inr bs \<Rightarrow>
                 if bs = [] then
                   (acc, clear_state MINI_FILE_READ_NEEDS_POSITION (set_state MINI_FILE_EOF
                      (on_strm (\<lambda>s. s\<lparr>read_offset := 0, read_length := 0\<rparr>) c')))
                 else if buffer_size s < length bs then
                   (acc, mark_error EIO (set_state MINI_FILE_READ_NEEDS_POSITION c'))
                 else read_buffered K len acc
                   (on_strm (\<lambda>s. s\<lparr>read_offset := 0, read_length := length bs,
                      buffers := (buffers s)(read_buffer s :=
                        buf_put (buffers s (read_buffer s)) 0 bs)\<rparr>) c')
      else (acc, c))"
  by auto
termination
  by (relation "measure (\<lambda>(K, len, acc, c). 2 * (len - length acc) +
        (if pushback_offset (strm c) < pushback_length (strm c) \<or>
            read_offset (strm c) < read_length (strm c) then 0 else 1))")
    (auto simp: on_strm_def set_state_def buf_get_def split: if_splits)

declare read_direct.simps [simp del] read_buffered.simps [simp del]

definition stdio_read :: "'k sys \<Rightarrow> nat \<Rightarrow> 'k io \<Rightarrow> byte list \<times> 'k io" where
  "stdio_read K len c =
     (if len = 0 then ([], c)
      else if \<not> readable_stream (strm c) then ([], mark_error EINVAL c)
      else if has (state (strm c)) MINI_FILE_WRITE_NEEDS_SYNC then ([], mark_error EINVAL c)
      else if has (mode (strm c)) MINI_FILE_UNBUFFERED then read_direct K len [] c
      else read_buffered K len [] (on_strm ensure_storage c))"

subsection \<open>Writing\<close>

function write_raw :: "'k sys \<Rightarrow> byte list \<Rightarrow> nat \<Rightarrow> 'k io \<Rightarrow> nat \<times> 'k io" where
  "write_raw K bs completed c =
     (if completed < length bs then
        let remaining = length bs - completed;
            (result, k) = sys_write K (io_kern c) (fd (strm c)) (drop completed bs);
            c = c\<lparr>io_kern := k\<rparr>
        in if result < 0 then (completed, mark_error (- result) c)
           else if result = 0 then (completed, mark_error EIO c)
           else if int remaining < result then (completed, mark_error EIO c)
           else write_raw K bs (completed + nat result) c
      else (completed, c))"
  by auto
termination
  by (relation "measure (\<lambda>(K, bs, completed, c). length bs - completed)") auto

text \<open>On a failed write the unwritten suffix moves to the front of the buffer.\<close>

function flush_loop :: "'k sys \<Rightarrow> nat \<Rightarrow> nat \<Rightarrow> 'k io \<Rightarrow> int \<times> 'k io" where
  "flush_loop K len completed c =
     (if completed < len then
        let s = strm c; buf = buffers s (write_buffer s);
            remaining = len - completed;
            (result, k) = sys_write K (io_kern c) (fd s) (buf_get buf completed remaining);
            c = c\<lparr>io_kern := k\<rparr>
        in if result < 0 \<or> result = 0 \<or> int remaining < result then
             (c_EOF, mark_error (if result < 0 then - result else EIO)
                (on_strm (\<lambda>s. s\<lparr>write_length := remaining,
                   buffers := (buffers s)(write_buffer s :=
                     buf_put buf 0 (buf_get buf completed remaining))\<rparr>) c))
           else flush_loop K len (completed + nat result) c
      else (0, on_strm (\<lambda>s. s\<lparr>write_length := 0\<rparr>) c))"
  by auto
termination
  by (relation "measure (\<lambda>(K, len, completed, c). len - completed)") auto

declare write_raw.simps [simp del] flush_loop.simps [simp del]

definition flush_buffer :: "'k sys \<Rightarrow> 'k io \<Rightarrow> int \<times> 'k io" where
  "flush_buffer K c =
     (if \<not> has (mode (strm c)) MINI_FILE_WRITABLE then (c_EOF, mark_error EINVAL c)
      else if write_length (strm c) = 0 then (0, c)
      else flush_loop K (write_length (strm c)) 0 (on_strm ensure_storage c))"

text \<open>The first newline among the bytes that fit ends the chunk and asks for a flush.\<close>

definition line_chunk :: "mini_file \<Rightarrow> byte list \<Rightarrow> nat \<times> bool" where
  "line_chunk s bs =
     (if has (mode s) MINI_FILE_LINE_BUFFERED \<and> ch CHR ''\<newline>'' \<in> set bs
      then (length (takeWhile (\<lambda>b. b \<noteq> ch CHR ''\<newline>'') bs) + 1, True)
      else (length bs, False))"

partial_function (option) write_loop :: "'k sys \<Rightarrow> byte list \<Rightarrow> nat \<Rightarrow> 'k io \<Rightarrow> (nat \<times> 'k io) option" where
  "write_loop K bs accepted c =
     (if accepted < length bs then
        let (ok, c) = (if write_length (strm c) = buffer_size (strm c)
                       then (let (r, c) = flush_buffer K c in (r \<noteq> c_EOF, c)) else (True, c))
        in if \<not> ok then Some (accepted, c)
           else
             let s = strm c;
                 space = buffer_size s - write_length s;
                 (chunk, flush_line) = line_chunk s (take (min (length bs - accepted) space) (drop accepted bs));
                 c = on_strm (\<lambda>s. s\<lparr>write_length := write_length s + chunk,
                       buffers := (buffers s)(write_buffer s :=
                         buf_put (buffers s (write_buffer s)) (write_length s)
                           (take chunk (drop accepted bs)))\<rparr>) c
             in if flush_line then
                  let (r, c) = flush_buffer K c in
                  if r = c_EOF then Some (accepted + chunk, c)
                  else write_loop K bs (accepted + chunk) c
                else write_loop K bs (accepted + chunk) c
      else Some (accepted, c))"

definition stdio_write :: "'k sys \<Rightarrow> byte list \<Rightarrow> 'k io \<Rightarrow> (nat \<times> 'k io) option" where
  "stdio_write K bs c =
     (if length bs = 0 then Some (0, c)
      else if \<not> has (mode (strm c)) MINI_FILE_WRITABLE then Some (0, mark_error EINVAL c)
      else if has (state (strm c)) MINI_FILE_READ_NEEDS_POSITION then Some (0, mark_error EINVAL c)
      else
        let c = set_state MINI_FILE_WRITE_NEEDS_SYNC c in
        if has (mode (strm c)) MINI_FILE_UNBUFFERED then Some (write_raw K bs 0 c)
        else write_loop K bs 0 (on_strm ensure_storage c))"

definition fflush :: "'k sys \<Rightarrow> 'k io \<Rightarrow> int \<times> 'k io" where
  "fflush K c =
     (if mode (strm c) AND (MINI_FILE_READABLE OR MINI_FILE_WRITABLE) = 0
      then (c_EOF, mark_error EINVAL c)
      else if has (mode (strm c)) MINI_FILE_WRITABLE then
        let (r, c) = flush_buffer K c in
        (r, if r \<noteq> c_EOF then clear_state MINI_FILE_WRITE_NEEDS_SYNC c else c)
      else (0, c))"

subsection \<open>Bytes, lines and blocks\<close>

definition fgetc :: "'k sys \<Rightarrow> 'k io \<Rightarrow> int \<times> 'k io" where
  "fgetc K c =
     (let (data, c) = stdio_read K 1 c in
      if length data \<noteq> 1 then (c_EOF, c) else (int_of_byte (hd data), c))"

definition feof :: "'k io \<Rightarrow> bool" where
  "feof c = has (state (strm c)) MINI_FILE_EOF"

definition ferror :: "'k io \<Rightarrow> bool" where
  "ferror c = has (state (strm c)) MINI_FILE_ERROR"

definition clearerr :: "'k io \<Rightarrow> 'k io" where
  "clearerr = clear_state (MINI_FILE_EOF OR MINI_FILE_ERROR)"

text \<open>\<open>fgets\<close>: the result is null or the string stored, which the caller sees closed by a NUL byte.
  The loop reads at most \<open>n - 1\<close> bytes; its fuel is the bytes still allowed.\<close>

datatype fgets_stop = Stopped | Read_failed

fun fgets_loop :: "'k sys \<Rightarrow> nat \<Rightarrow> byte list \<Rightarrow> 'k io \<Rightarrow> fgets_stop \<times> byte list \<times> 'k io" where
  "fgets_loop K 0 acc c = (Stopped, acc, c)"
| "fgets_loop K (Suc room) acc c =
     (let (v, c) = fgetc K c in
      if v = c_EOF then (if \<not> feof c then (Read_failed, acc, c) else (Stopped, acc, c))
      else if v = 10 then (Stopped, acc @ [uchar v], c)
      else fgets_loop K room (acc @ [uchar v]) c)"

definition fgets :: "'k sys \<Rightarrow> mem \<Rightarrow> addr \<Rightarrow> int \<Rightarrow> 'k io \<Rightarrow> (addr \<times> mem) \<times> 'k io" where
  "fgets K m s n c =
     (if s = null_ptr \<or> n \<le> 0 \<or> \<not> readable_stream (strm c) \<or>
         has (state (strm c)) MINI_FILE_WRITE_NEEDS_SYNC
      then ((null_ptr, m), mark_error EINVAL c)
      else if n = 1 then ((s, m(s := 0)), c)
      else
        let (stop, line, c) = fgets_loop K (nat (n - 1)) [] c in
        case stop of
          Read_failed \<Rightarrow> ((null_ptr, write_bytes m s (line @ [0])), c)
        | Stopped \<Rightarrow>
            if line = [] \<and> feof c then ((null_ptr, m), c)
            else ((s, write_bytes m s (line @ [0])), c))"

definition ungetc :: "int \<Rightarrow> 'k io \<Rightarrow> int \<times> 'k io" where
  "ungetc v c =
     (if v = c_EOF then (c_EOF, c)
      else
        let (r, c) = pushback_unlocked [uchar v] c in
        (if r = c_EOF then c_EOF else int_of_byte (uchar v), c))"

definition fputc :: "'k sys \<Rightarrow> int \<Rightarrow> 'k io \<Rightarrow> (int \<times> 'k io) option" where
  "fputc K v c =
     map_option (\<lambda>(n, c). (if n \<noteq> 1 then c_EOF else int_of_byte (uchar v), c))
       (stdio_write K [uchar v] c)"

text \<open>\<open>fputs\<close> measures the string in memory, then writes it; \<open>puts\<close> adds a newline.\<close>

partial_function (option) scan_nul :: "mem \<Rightarrow> addr \<Rightarrow> nat \<Rightarrow> nat option" where
  "scan_nul m s len = (if m (s + len) \<noteq> 0 then scan_nul m s (len + 1) else Some len)"

definition fputs :: "'k sys \<Rightarrow> mem \<Rightarrow> addr \<Rightarrow> 'k io \<Rightarrow> (int \<times> 'k io) option" where
  "fputs K m s c =
     (if \<not> has (mode (strm c)) MINI_FILE_WRITABLE then Some (c_EOF, mark_error EINVAL c)
      else Option.bind (scan_nul m s 0) (\<lambda>len.
        map_option (\<lambda>(n, c). (if n \<noteq> len then c_EOF else 0, c))
          (stdio_write K (read_bytes m s len) c)))"

definition puts :: "'k sys \<Rightarrow> mem \<Rightarrow> addr \<Rightarrow> 'k io \<Rightarrow> (int \<times> 'k io) option" where
  "puts K m s c =
     Option.bind (fputs K m s c) (\<lambda>(r, c).
       if r = c_EOF then Some (c_EOF, c)
       else map_option (\<lambda>(r, c). (if r = c_EOF then c_EOF else 0, c)) (fputc K 10 c))"

definition size_max :: nat where "size_max = 2 ^ 64 - 1"

definition fread :: "'k sys \<Rightarrow> nat \<Rightarrow> nat \<Rightarrow> 'k io \<Rightarrow> (nat \<times> byte list) \<times> 'k io" where
  "fread K sz nmemb c =
     (if sz = 0 \<or> nmemb = 0 then ((0, []), c)
      else if size_max div sz < nmemb then ((0 div sz, []), mark_error EINVAL c)
      else let (data, c) = stdio_read K (sz * nmemb) c in ((length data div sz, data), c))"

definition fwrite :: "'k sys \<Rightarrow> byte list \<Rightarrow> nat \<Rightarrow> nat \<Rightarrow> 'k io \<Rightarrow> (nat \<times> 'k io) option" where
  "fwrite K bs sz nmemb c =
     (if sz = 0 \<or> nmemb = 0 then Some (0, c)
      else if \<not> has (mode (strm c)) MINI_FILE_WRITABLE then Some (0 div sz, mark_error EINVAL c)
      else if size_max div sz < nmemb then Some (0 div sz, mark_error EINVAL c)
      else map_option (\<lambda>(n, c). (n div sz, c)) (stdio_write K (take (sz * nmemb) bs) c))"

subsection \<open>Positioning\<close>

definition SEEK_SET :: int where "SEEK_SET = 0"
definition SEEK_CUR :: int where "SEEK_CUR = 1"
definition SEEK_END :: int where "SEEK_END = 2"

lemmas seek_consts = SEEK_SET_def SEEK_CUR_def SEEK_END_def

definition valid_stream :: "mini_file \<Rightarrow> bool" where
  "valid_stream s = (mode s AND (MINI_FILE_READABLE OR MINI_FILE_WRITABLE) \<noteq> 0)"

definition unread_input :: "mini_file \<Rightarrow> nat" where
  "unread_input s =
     (if read_offset s \<le> read_length s then read_length s - read_offset s else 0) +
     (if pushback_offset s \<le> pushback_length s then pushback_length s - pushback_offset s else 0)"

definition discard_input :: "mini_file \<Rightarrow> mini_file" where
  "discard_input s = s\<lparr>read_offset := 0, read_length := 0, pushback_offset := 0, pushback_length := 0\<rparr>"

definition fseek :: "'k sys \<Rightarrow> int \<Rightarrow> int \<Rightarrow> 'k io \<Rightarrow> int \<times> 'k io" where
  "fseek K offset whence c =
     (if \<not> valid_stream (strm c) \<or> (whence \<noteq> SEEK_SET \<and> whence \<noteq> SEEK_CUR \<and> whence \<noteq> SEEK_END)
      then (- 1, c\<lparr>io_errno := EINVAL\<rparr>)
      else
        let (flushed, c) = (if has (mode (strm c)) MINI_FILE_WRITABLE then flush_buffer K c else (0, c))
        in if flushed = c_EOF then (- 1, c)
           else
             let unread = int (unread_input (strm c)) in
             if whence = SEEK_CUR \<and> (LONG_MAX < unread \<or> offset < LONG_MIN + unread)
             then (- 1, c\<lparr>io_errno := EINVAL\<rparr>)
             else
               let adjusted = (if whence = SEEK_CUR then offset - unread else offset);
                   (result, k) = sys_lseek K (io_kern c) (fd (strm c)) adjusted whence;
                   c = c\<lparr>io_kern := k\<rparr>
               in if result < 0 then (- 1, c\<lparr>io_errno := - result\<rparr>)
                  else (0, clear_state (MINI_FILE_EOF OR MINI_FILE_READ_NEEDS_POSITION OR
                             MINI_FILE_WRITE_NEEDS_SYNC) (on_strm discard_input c)))"

definition ftell :: "'k sys \<Rightarrow> 'k io \<Rightarrow> int \<times> 'k io" where
  "ftell K c =
     (if \<not> valid_stream (strm c) then (- 1, c\<lparr>io_errno := EINVAL\<rparr>)
      else
        let (flushed, c) =
              (if has (mode (strm c)) MINI_FILE_APPEND \<and> write_length (strm c) \<noteq> 0
               then flush_buffer K c else (0, c))
        in if flushed = c_EOF then (- 1, c)
           else
             let (result, k) = sys_lseek K (io_kern c) (fd (strm c)) 0 SEEK_CUR;
                 c = c\<lparr>io_kern := k\<rparr> in
             if result < 0 then (- 1, c\<lparr>io_errno := - result\<rparr>)
             else if LONG_MAX - int (write_length (strm c)) < result then (- 1, c\<lparr>io_errno := EINVAL\<rparr>)
             else
               let logical = result + int (write_length (strm c));
                   unread = int (unread_input (strm c)) in
               if logical < unread then (- 1, c\<lparr>io_errno := EINVAL\<rparr>)
               else (logical - unread, c))"

definition rewind :: "'k sys \<Rightarrow> 'k io \<Rightarrow> 'k io" where
  "rewind K c = clear_state (MINI_FILE_EOF OR MINI_FILE_ERROR) (snd (fseek K 0 SEEK_SET c))"

subsection \<open>Flags\<close>

lemma has_raise [simp]: "has (raise_flag f w) g = (has f g \<or> has w g)"
  by (auto simp: has_def raise_flag_def bit_eq_iff bit_simps)

lemma has_drop_other: "f AND g = 0 \<Longrightarrow> has (drop_flag f w) g = has w g"
  by (auto simp: has_def drop_flag_def bit_eq_iff bit_simps)

lemma has_drop_same: "f AND g = g \<Longrightarrow> \<not> has (drop_flag f w) g"
  by (auto simp: has_def drop_flag_def bit_eq_iff bit_simps)

lemma has_wider: "has w g \<Longrightarrow> f AND g = g \<Longrightarrow> w AND f \<noteq> 0"
  unfolding has_def
proof
  assume w: "w AND g \<noteq> 0" and f: "f AND g = g" and "w AND f = 0"
  then have "(w AND f) AND g = 0" by simp
  then show False using w f by (simp add: and.assoc)
qed

lemma flags_apart [simp]:
  "\<not> has MINI_FILE_ERROR MINI_FILE_READ_NEEDS_POSITION" "\<not> has MINI_FILE_ERROR MINI_FILE_WRITE_NEEDS_SYNC"
  "\<not> has MINI_FILE_EOF MINI_FILE_READ_NEEDS_POSITION" "\<not> has MINI_FILE_EOF MINI_FILE_WRITE_NEEDS_SYNC"
  "\<not> has MINI_FILE_READ_NEEDS_POSITION MINI_FILE_WRITE_NEEDS_SYNC"
  "\<not> has MINI_FILE_WRITE_NEEDS_SYNC MINI_FILE_READ_NEEDS_POSITION"
  "\<not> has MINI_FILE_READ_NEEDS_POSITION MINI_FILE_EOF" "\<not> has MINI_FILE_READ_NEEDS_POSITION MINI_FILE_ERROR"
  "\<not> has MINI_FILE_WRITE_NEEDS_SYNC MINI_FILE_EOF" "\<not> has MINI_FILE_WRITE_NEEDS_SYNC MINI_FILE_ERROR"
  "\<not> has MINI_FILE_EOF MINI_FILE_ERROR" "\<not> has MINI_FILE_ERROR MINI_FILE_EOF"
  "has MINI_FILE_EOF MINI_FILE_EOF" "has MINI_FILE_ERROR MINI_FILE_ERROR"
  "has MINI_FILE_READ_NEEDS_POSITION MINI_FILE_READ_NEEDS_POSITION"
  "has MINI_FILE_WRITE_NEEDS_SYNC MINI_FILE_WRITE_NEEDS_SYNC"
  by (simp_all add: has_def state_flags)

lemma flags_dropped [simp]:
  "\<not> has (drop_flag MINI_FILE_READ_NEEDS_POSITION w) MINI_FILE_READ_NEEDS_POSITION"
  "has (drop_flag MINI_FILE_READ_NEEDS_POSITION w) MINI_FILE_EOF = has w MINI_FILE_EOF"
  "has (drop_flag MINI_FILE_READ_NEEDS_POSITION w) MINI_FILE_ERROR = has w MINI_FILE_ERROR"
  "has (drop_flag MINI_FILE_READ_NEEDS_POSITION w) MINI_FILE_WRITE_NEEDS_SYNC = has w MINI_FILE_WRITE_NEEDS_SYNC"
  "\<not> has (drop_flag MINI_FILE_WRITE_NEEDS_SYNC w) MINI_FILE_WRITE_NEEDS_SYNC"
  "has (drop_flag MINI_FILE_WRITE_NEEDS_SYNC w) MINI_FILE_READ_NEEDS_POSITION = has w MINI_FILE_READ_NEEDS_POSITION"
  "\<not> has (drop_flag MINI_FILE_EOF w) MINI_FILE_EOF"
  "has (drop_flag MINI_FILE_EOF w) MINI_FILE_READ_NEEDS_POSITION = has w MINI_FILE_READ_NEEDS_POSITION"
  "has (drop_flag MINI_FILE_EOF w) MINI_FILE_WRITE_NEEDS_SYNC = has w MINI_FILE_WRITE_NEEDS_SYNC"
  "\<not> has (drop_flag (MINI_FILE_EOF OR MINI_FILE_READ_NEEDS_POSITION OR MINI_FILE_WRITE_NEEDS_SYNC) w) MINI_FILE_EOF"
  "\<not> has (drop_flag (MINI_FILE_EOF OR MINI_FILE_READ_NEEDS_POSITION OR MINI_FILE_WRITE_NEEDS_SYNC) w) MINI_FILE_READ_NEEDS_POSITION"
  "\<not> has (drop_flag (MINI_FILE_EOF OR MINI_FILE_READ_NEEDS_POSITION OR MINI_FILE_WRITE_NEEDS_SYNC) w) MINI_FILE_WRITE_NEEDS_SYNC"
  "has (drop_flag (MINI_FILE_EOF OR MINI_FILE_ERROR) w) MINI_FILE_READ_NEEDS_POSITION = has w MINI_FILE_READ_NEEDS_POSITION"
  "has (drop_flag (MINI_FILE_EOF OR MINI_FILE_ERROR) w) MINI_FILE_WRITE_NEEDS_SYNC = has w MINI_FILE_WRITE_NEEDS_SYNC"
  "\<not> has (drop_flag (MINI_FILE_EOF OR MINI_FILE_ERROR) w) MINI_FILE_EOF"
  "\<not> has (drop_flag (MINI_FILE_EOF OR MINI_FILE_ERROR) w) MINI_FILE_ERROR"
  by (simp_all add: has_drop_other has_drop_same state_flags)

lemmas io_defs = on_strm_def set_state_def clear_state_def mark_error_def

lemma length_buf_get [simp]: "length (buf_get b off n) = n"
  by (simp add: buf_get_def)

lemma buf_get_0 [simp]: "buf_get b off 0 = []"
  by (simp add: buf_get_def)

lemma buf_get_split: "k \<le> n \<Longrightarrow> buf_get b off n = buf_get b off k @ buf_get b (off + k) (n - k)"
  by (rule nth_equalityI) (auto simp: buf_get_def nth_append)

lemma buf_get_put: "n = length xs \<Longrightarrow> buf_get (buf_put b off xs) off n = xs"
  by (rule nth_equalityI) (auto simp: buf_get_def buf_put_def)

lemma buf_get_put_before: "k + n \<le> off \<Longrightarrow> buf_get (buf_put b off xs) k n = buf_get b k n"
  by (auto simp: buf_get_def buf_put_def)

lemma buf_get_append_put: "buf_get (buf_put b n xs) 0 (n + length xs) = buf_get b 0 n @ xs"
  by (rule nth_equalityI) (auto simp: buf_get_def buf_put_def nth_append)

subsection \<open>Well-formed streams and what they hold\<close>

definition unread :: "mini_file \<Rightarrow> byte list" where
  "unread s =
     buf_get (pushback_bytes s) (pushback_offset s) (pushback_length s - pushback_offset s) @
     buf_get (buffers s (read_buffer s)) (read_offset s) (read_length s - read_offset s)"

definition pending :: "mini_file \<Rightarrow> byte list" where
  "pending s = buf_get (buffers s (write_buffer s)) 0 (write_length s)"

text \<open>Pending output needs a flush before input, unread input needs a seek before output, and not
  both at once: this is what lets the two directions share one buffer.\<close>

definition stream_ok :: "mini_file \<Rightarrow> bool" where
  "stream_ok s =
     (read_offset s \<le> read_length s \<and> read_length s \<le> buffer_size s \<and>
      pushback_offset s \<le> pushback_length s \<and> pushback_length s \<le> 4 \<and> write_length s \<le> buffer_size s \<and>
      \<not> (has (state s) MINI_FILE_READ_NEEDS_POSITION \<and> has (state s) MINI_FILE_WRITE_NEEDS_SYNC) \<and>
      (0 < write_length s \<longrightarrow> write_buffer s \<noteq> No_buffer \<and> has (state s) MINI_FILE_WRITE_NEEDS_SYNC) \<and>
      (read_offset s < read_length s \<longrightarrow>
         read_buffer s \<noteq> No_buffer \<and> has (state s) MINI_FILE_READ_NEEDS_POSITION) \<and>
      (has (mode s) MINI_FILE_UNBUFFERED \<longrightarrow> write_length s = 0 \<and> read_offset s = read_length s))"

text \<open>What the documentation of \<open>read\<close> and \<open>write\<close> says: a read takes the next bytes of the file's
  input, at most as many as asked for, none only at its end; a write appends a prefix of the bytes
  given. \<open>src\<close> and \<open>out\<close> are the input still to come and the output so far, of each descriptor.\<close>

definition reads_from :: "'k sys \<Rightarrow> ('k \<Rightarrow> int \<Rightarrow> byte list) \<Rightarrow> bool" where
  "reads_from K src =
     (\<forall>k f n. case sys_read K k f n of
        (Inl e, k') \<Rightarrow> src k' f = src k f
      | (Inr bs, k') \<Rightarrow> src k f = bs @ src k' f \<and> length bs \<le> n \<and> (bs = [] \<longrightarrow> n = 0 \<or> src k f = []))"

definition writes_to :: "'k sys \<Rightarrow> ('k \<Rightarrow> int \<Rightarrow> byte list) \<Rightarrow> bool" where
  "writes_to K out =
     (\<forall>k f bs. case sys_write K k f bs of
        (r, k') \<Rightarrow> r \<le> int (length bs) \<and> out k' f = out k f @ take (nat r) bs)"

lemma reads_fromD:
  assumes "reads_from K src"
  shows "sys_read K k f n = (Inl e, k') \<Longrightarrow> src k' f = src k f"
    and "sys_read K k f n = (Inr bs, k') \<Longrightarrow> src k f = bs @ src k' f"
    and "sys_read K k f n = (Inr bs, k') \<Longrightarrow> length bs \<le> n"
    and "sys_read K k f n = (Inr [], k') \<Longrightarrow> n = 0 \<or> src k f = []"
  using assms unfolding reads_from_def by (auto dest!: spec [where x = k] spec [where x = f] spec [where x = n])

lemma writes_toD:
  assumes "writes_to K out" "sys_write K k f bs = (r, k')"
  shows "r \<le> int (length bs)" "out k' f = out k f @ take (nat r) bs"
  using assms unfolding writes_to_def by (auto dest!: spec [where x = k] spec [where x = f] spec [where x = bs])

definition stream_input :: "('k \<Rightarrow> int \<Rightarrow> byte list) \<Rightarrow> 'k io \<Rightarrow> byte list" where
  "stream_input src c = unread (strm c) @ src (io_kern c) (fd (strm c))"

definition stream_output :: "('k \<Rightarrow> int \<Rightarrow> byte list) \<Rightarrow> 'k io \<Rightarrow> byte list" where
  "stream_output out c = out (io_kern c) (fd (strm c)) @ pending (strm c)"

lemma buf_get_Nil [simp]: "buf_get b off n = [] \<longleftrightarrow> n = 0"
  by (simp add: buf_get_def)

lemma unread_empty:
  "stream_ok s \<Longrightarrow> unread s = [] \<Longrightarrow> pushback_offset s = pushback_length s \<and> read_offset s = read_length s"
  by (auto simp: stream_ok_def unread_def)

lemma ensure_storage_ok:
  assumes "stream_ok s"
  shows "stream_ok (ensure_storage s)" "unread (ensure_storage s) = unread s"
    "pending (ensure_storage s) = pending s" "fd (ensure_storage s) = fd s" "mode (ensure_storage s) = mode s"
    "state (ensure_storage s) = state s" "write_length (ensure_storage s) = write_length s"
    "read_offset (ensure_storage s) = read_offset s" "read_length (ensure_storage s) = read_length s"
    "0 < buffer_size (ensure_storage s)" "write_buffer (ensure_storage s) \<noteq> No_buffer"
    "read_buffer (ensure_storage s) \<noteq> No_buffer"
  using assms
  by (auto simp: ensure_storage_def stream_ok_def unread_def pending_def MINI_FILE_BUFFER_SIZE_def Let_def)

subsection \<open>Reading takes the next bytes\<close>

text \<open>The state between two rounds of the read loop: no output pending, and what the last refill
  left is about to be consumed.\<close>

definition reading :: "nat \<Rightarrow> byte list \<Rightarrow> mini_file \<Rightarrow> bool" where
  "reading len acc s =
     (read_offset s \<le> read_length s \<and> read_length s \<le> buffer_size s \<and>
      pushback_offset s \<le> pushback_length s \<and> pushback_length s \<le> 4 \<and>
      write_length s = 0 \<and> \<not> has (state s) MINI_FILE_WRITE_NEEDS_SYNC \<and> read_buffer s \<noteq> No_buffer \<and>
      \<not> has (mode s) MINI_FILE_UNBUFFERED \<and> length acc \<le> len \<and>
      (read_offset s < read_length s \<longrightarrow>
         length acc < len \<or> has (state s) MINI_FILE_READ_NEEDS_POSITION))"

definition read_result :: "('k \<Rightarrow> int \<Rightarrow> byte list) \<Rightarrow> nat \<Rightarrow> byte list \<Rightarrow> 'k io \<Rightarrow> byte list \<Rightarrow> 'k io \<Rightarrow> bool" where
  "read_result src len acc c data c' =
     (data @ stream_input src c' = acc @ stream_input src c \<and> length data \<le> len \<and> prefix acc data \<and>
      (length data < len \<longrightarrow> feof c' \<or> ferror c') \<and>
      stream_ok (strm c') \<and> fd (strm c') = fd (strm c) \<and> mode (strm c') = mode (strm c) \<and>
      write_length (strm c') = 0 \<and> \<not> has (state (strm c')) MINI_FILE_WRITE_NEEDS_SYNC \<and>
      (has (mode (strm c)) MINI_FILE_UNBUFFERED \<longrightarrow>
         pushback_offset (strm c') = pushback_length (strm c')))"

lemma read_result_step:
  assumes "read_result src len (acc @ new) c1 data c'" "new @ unread (strm c1) = unread (strm c)"
    "fd (strm c1) = fd (strm c)" "mode (strm c1) = mode (strm c)" "io_kern c1 = io_kern c"
  shows "read_result src len acc c data c'"
  using assms by (auto simp: read_result_def stream_input_def prefix_def)

lemma read_buffered_spec:
  "reads_from K src \<Longrightarrow> reading len acc (strm c) \<Longrightarrow> read_buffered K len acc c = (data, c') \<Longrightarrow>
    read_result src len acc c data c'"
proof (induction K len acc c rule: read_buffered.induct)
  case (1 K len acc c)
  let ?s = "strm c"
  note law = "1.prems"(1) and R = "1.prems"(2) and E = "1.prems"(3)
  have base: "read_offset ?s \<le> read_length ?s" "read_length ?s \<le> buffer_size ?s"
    "pushback_offset ?s \<le> pushback_length ?s" "pushback_length ?s \<le> 4" "write_length ?s = 0"
    "\<not> has (state ?s) MINI_FILE_WRITE_NEEDS_SYNC" "read_buffer ?s \<noteq> No_buffer"
    "\<not> has (mode ?s) MINI_FILE_UNBUFFERED" "length acc \<le> len"
    using R by (simp_all add: reading_def)
  show ?case
  proof (cases "length acc < len")
    case False
    then have "data = acc" "c' = c" using E by (simp_all add: read_buffered.simps)
    then show ?thesis using False R by (auto simp: read_result_def reading_def stream_ok_def)
  next
    case room: True
    show ?thesis
    proof (cases "pushback_offset ?s < pushback_length ?s")
      case pb: True
      define chunk where "chunk = min (pushback_length ?s - pushback_offset ?s) (len - length acc)"
      define off where "off = pushback_offset ?s + chunk"
      define c1 where "c1 = set_state MINI_FILE_READ_NEEDS_POSITION (on_strm (\<lambda>s. if off = pushback_length s
          then s\<lparr>pushback_offset := 0, pushback_length := 0\<rparr> else s\<lparr>pushback_offset := off\<rparr>) c)"
      let ?new = "buf_get (pushback_bytes ?s) (pushback_offset ?s) chunk"
      have eq: "read_buffered K len acc c = read_buffered K len (acc @ ?new) c1"
        unfolding c1_def off_def chunk_def using room pb
        by (subst read_buffered.simps) (simp add: Let_def)
      have ch: "chunk \<le> pushback_length ?s - pushback_offset ?s" "chunk \<le> len - length acc"
        by (simp_all add: chunk_def)
      have r1: "reading len (acc @ ?new) (strm c1)"
        using base ch room R by (auto simp: reading_def c1_def io_defs off_def)
      have "?new @ unread (strm c1) = unread ?s"
        using buf_get_split [OF ch(1), of "pushback_bytes ?s" "pushback_offset ?s"] ch(1) pb
        by (auto simp: unread_def c1_def io_defs off_def diff_diff_left)
      moreover have "fd (strm c1) = fd ?s" "mode (strm c1) = mode ?s" "io_kern c1 = io_kern c"
        by (auto simp: c1_def io_defs)
      moreover have "read_result src len (acc @ ?new) c1 data c'"
        using "1.IH"(1) [OF room refl pb chunk_def off_def refl law] r1 E eq by (simp add: c1_def)
      ultimately show ?thesis using read_result_step [of src len acc ?new c1 data c' c] by simp
    next
      case npb: False
      show ?thesis
      proof (cases "read_offset ?s < read_length ?s")
        case rd: True
        define chunk where "chunk = min (read_length ?s - read_offset ?s) (len - length acc)"
        define c1 where "c1 = set_state MINI_FILE_READ_NEEDS_POSITION
          (on_strm (\<lambda>s. s\<lparr>read_offset := read_offset s + chunk\<rparr>) c)"
        let ?new = "buf_get (buffers ?s (read_buffer ?s)) (read_offset ?s) chunk"
        have eq: "read_buffered K len acc c = read_buffered K len (acc @ ?new) c1"
          using room npb rd by (subst read_buffered.simps) (simp add: Let_def chunk_def c1_def)
        have ch: "chunk \<le> read_length ?s - read_offset ?s" "chunk \<le> len - length acc"
          by (simp_all add: chunk_def)
        have r1: "reading len (acc @ ?new) (strm c1)"
          using base ch room R rd by (auto simp: reading_def c1_def io_defs)
        have "?new @ unread (strm c1) = unread ?s"
          using buf_get_split [OF ch(1), of "buffers ?s (read_buffer ?s)" "read_offset ?s"] npb
          by (simp add: unread_def c1_def io_defs diff_diff_left)
        moreover have "read_result src len (acc @ ?new) c1 data c'"
          using "1.IH"(2) [OF room refl npb rd chunk_def refl law] r1 E eq by (simp add: c1_def)
        ultimately show ?thesis
          using read_result_step [of src len acc ?new c1 data c' c] by (simp add: c1_def io_defs)
      next
        case nrd: False
        then have empty: "read_offset ?s = read_length ?s" "pushback_offset ?s = pushback_length ?s"
          using base npb by simp_all
        show ?thesis
        proof (cases "has (state ?s) MINI_FILE_EOF")
          case True
          then have "data = acc" "c' = c"
            using E room npb nrd by (simp_all add: read_buffered.simps)
          then show ?thesis using True base empty
            by (auto simp: read_result_def stream_ok_def feof_def)
        next
          case neof: False
          obtain r k where sys: "sys_read K (io_kern c) (fd ?s) (buffer_size ?s) = (r, k)" by fastforce
          show ?thesis
          proof (cases r)
            case (Inl e)
            have src: "src k (fd ?s) = src (io_kern c) (fd ?s)"
              using reads_fromD(1) [OF law sys [unfolded Inl]] .
            have "data = acc" "c' = mark_error e (set_state MINI_FILE_READ_NEEDS_POSITION (c\<lparr>io_kern := k\<rparr>))"
              using E room npb nrd neof sys Inl by (simp_all add: read_buffered.simps)
            then show ?thesis using base empty src
              by (auto simp: read_result_def stream_ok_def ferror_def io_defs stream_input_def unread_def)
          next
            case (Inr bs)
            have src: "src (io_kern c) (fd ?s) = bs @ src k (fd ?s)" "length bs \<le> buffer_size ?s"
              using reads_fromD(2,3) [OF law sys [unfolded Inr]] by simp_all
            show ?thesis
            proof (cases "bs = []")
              case True
              have "data = acc" "c' = clear_state MINI_FILE_READ_NEEDS_POSITION (set_state MINI_FILE_EOF
                  (on_strm (\<lambda>s. s\<lparr>read_offset := 0, read_length := 0\<rparr>) (c\<lparr>io_kern := k\<rparr>)))"
                using E room npb nrd neof sys Inr True by (simp_all add: read_buffered.simps)
              then show ?thesis using base empty src True
                by (auto simp: read_result_def stream_ok_def feof_def io_defs stream_input_def unread_def)
            next
              case False
              define c1 where "c1 = on_strm (\<lambda>s. s\<lparr>read_offset := 0, read_length := length bs,
                  buffers := (buffers s)(read_buffer s := buf_put (buffers s (read_buffer s)) 0 bs)\<rparr>)
                  (c\<lparr>io_kern := k\<rparr>)"
              have eq: "read_buffered K len acc c = read_buffered K len acc c1"
                using room npb nrd neof sys Inr False src(2)
                by (subst read_buffered.simps) (simp add: Let_def c1_def)
              have r1: "reading len acc (strm c1)"
                using base room src(2) by (simp add: reading_def c1_def io_defs)
              have "unread (strm c1) = bs" "unread ?s = []"
                using empty buf_get_put [of "length bs" bs] by (simp_all add: unread_def c1_def io_defs)
              moreover have "read_result src len acc c1 data c'"
                using "1.IH"(3) [OF room refl npb nrd neof refl sys [symmetric] refl Inr False _ law] src(2) r1 E eq
                by (simp add: c1_def)
              ultimately show ?thesis using src(1)
                by (auto simp: read_result_def stream_input_def c1_def io_defs)
            qed
          qed
        qed
      qed
    qed
  qed
qed


lemma read_direct_spec:
  "reads_from K src \<Longrightarrow> read_direct K len acc c = (data, c') \<Longrightarrow> length acc \<le> len \<Longrightarrow>
   stream_ok (strm c) \<Longrightarrow> unread (strm c) = [] \<Longrightarrow> write_length (strm c) = 0 \<Longrightarrow>
   \<not> has (state (strm c)) MINI_FILE_WRITE_NEEDS_SYNC \<Longrightarrow> has (mode (strm c)) MINI_FILE_UNBUFFERED \<Longrightarrow>
   read_result src len acc c data c'"
proof (induction K len acc c rule: read_direct.induct)
  case (1 K len acc c)
  let ?s = "strm c"
  note law = "1.prems"(1) and E = "1.prems"(2) and P = "1.prems"(3-8)
  show ?case
  proof (cases "length acc < len")
    case False
    then show ?thesis using E P unread_empty [OF P(2,3)]
      by (auto simp: read_direct.simps read_result_def stream_input_def)
  next
    case room: True
    obtain r k where sys: "sys_read K (io_kern c) (fd ?s) (len - length acc) = (r, k)" by fastforce
    show ?thesis
    proof (cases r)
      case (Inl e)
      have "data = acc" "c' = mark_error e (set_state MINI_FILE_READ_NEEDS_POSITION (c\<lparr>io_kern := k\<rparr>))"
        using E room sys Inl by (simp_all add: read_direct.simps)
      then show ?thesis using P reads_fromD(1) [OF law sys [unfolded Inl]]
        by (auto simp: read_result_def stream_ok_def ferror_def io_defs stream_input_def unread_def)
    next
      case (Inr bs)
      note src = reads_fromD(2,3) [OF law sys [unfolded Inr]]
      show ?thesis
      proof (cases "bs = []")
        case True
        have "data = acc" "c' = clear_state MINI_FILE_READ_NEEDS_POSITION (set_state MINI_FILE_EOF (c\<lparr>io_kern := k\<rparr>))"
          using E room sys Inr True by (simp_all add: read_direct.simps)
        then show ?thesis using P src True
          by (auto simp: read_result_def stream_ok_def feof_def io_defs stream_input_def unread_def)
      next
        case False
        define c1 where "c1 = set_state MINI_FILE_READ_NEEDS_POSITION (c\<lparr>io_kern := k\<rparr>)"
        have eq: "read_direct K len acc c = read_direct K len (acc @ bs) c1"
          using room sys Inr False src(2) by (subst read_direct.simps) (simp add: c1_def)
        have "length (acc @ bs) \<le> len" "stream_ok (strm c1)" "unread (strm c1) = []" "write_length (strm c1) = 0"
          "\<not> has (state (strm c1)) MINI_FILE_WRITE_NEEDS_SYNC" "has (mode (strm c1)) MINI_FILE_UNBUFFERED"
          using P src(2) room by (auto simp: c1_def io_defs stream_ok_def unread_def)
        then have "read_result src len (acc @ bs) c1 data c'"
          using "1.IH" [OF room refl refl sys [symmetric] refl Inr False _ law] src(2) E eq by (simp add: c1_def)
        then show ?thesis using src(1) P
          by (auto simp: read_result_def stream_input_def c1_def io_defs prefix_def unread_def)
      qed
    qed
  qed
qed

lemma stdio_read_spec:
  assumes law: "reads_from K src" and ok: "stream_ok (strm c)"
    and dir: "readable_stream (strm c)" "\<not> has (state (strm c)) MINI_FILE_WRITE_NEEDS_SYNC"
    and pb: "has (mode (strm c)) MINI_FILE_UNBUFFERED \<Longrightarrow> pushback_offset (strm c) = pushback_length (strm c)"
    and E: "stdio_read K len c = (data, c')"
  shows "read_result src len [] c data c'"
proof (cases "len = 0")
  case True
  have "write_length (strm c) = 0" using ok dir by (auto simp: stream_ok_def)
  then show ?thesis using True E ok dir pb by (auto simp: stdio_read_def read_result_def)
next
  case len: False
  have w0: "write_length (strm c) = 0" using ok dir by (auto simp: stream_ok_def)
  show ?thesis
  proof (cases "has (mode (strm c)) MINI_FILE_UNBUFFERED")
    case True
    have "unread (strm c) = []" using pb [OF True] ok True by (simp add: unread_def stream_ok_def)
    then show ?thesis
      using read_direct_spec [OF law _ _ ok, of len "[]" data c'] E True len dir w0
      by (simp add: stdio_read_def)
  next
    case False
    let ?c = "on_strm ensure_storage c"
    note es = ensure_storage_ok [OF ok]
    have "reading len [] (strm ?c)"
      using es ok dir False w0 len by (auto simp: reading_def stream_ok_def on_strm_def)
    moreover have "read_buffered K len [] ?c = (data, c')"
      using E len dir False by (simp add: stdio_read_def)
    ultimately have "read_result src len [] ?c data c'" using read_buffered_spec [OF law] by blast
    then show ?thesis by (auto simp: read_result_def stream_input_def on_strm_def es)
  qed
qed


subsection \<open>Writing appends, flushing loses nothing\<close>

lemma write_raw_spec:
  "writes_to K out \<Longrightarrow> write_raw K bs n c = (r, c') \<Longrightarrow> n \<le> length bs \<Longrightarrow> stream_ok (strm c) \<Longrightarrow>
   n \<le> r \<and> r \<le> length bs \<and> out (io_kern c') (fd (strm c)) = out (io_kern c) (fd (strm c)) @ drop n (take r bs) \<and>
   (r < length bs \<longrightarrow> ferror c') \<and> stream_ok (strm c') \<and> fd (strm c') = fd (strm c) \<and>
   mode (strm c') = mode (strm c) \<and> pending (strm c') = pending (strm c)"
proof (induction K bs n c rule: write_raw.induct)
  case (1 K bs n c)
  note law = "1.prems"(1) and E = "1.prems"(2) and le = "1.prems"(3) and ok = "1.prems"(4)
  obtain w k where sys: "sys_write K (io_kern c) (fd (strm c)) (drop n bs) = (w, k)" by fastforce
  note W = writes_toD [OF law sys]
  show ?case
  proof (cases "n < length bs")
    case False
    then show ?thesis using E ok le by (simp add: write_raw.simps)
  next
    case True
    show ?thesis
    proof (cases "w \<le> 0")
      case stop: True
      then have "r = n" "\<exists>e. c' = mark_error e (c\<lparr>io_kern := k\<rparr>)"
        using E True sys by (auto simp: write_raw.simps Let_def split: if_splits)
      then show ?thesis using W stop ok True
        by (auto simp: io_defs stream_ok_def ferror_def pending_def)
    next
      case go: False
      let ?n = "n + nat w"
      have eq: "write_raw K bs n c = write_raw K bs ?n (c\<lparr>io_kern := k\<rparr>)"
        using True go sys W(1) by (subst write_raw.simps) simp
      have le': "?n \<le> length bs" using W(1) True go by simp
      have IH: "?n \<le> r \<and> r \<le> length bs \<and>
          out (io_kern c') (fd (strm c)) = out k (fd (strm c)) @ drop ?n (take r bs) \<and>
          (r < length bs \<longrightarrow> ferror c') \<and> stream_ok (strm c') \<and> fd (strm c') = fd (strm c) \<and>
          mode (strm c') = mode (strm c) \<and> pending (strm c') = pending (strm c)"
        using "1.IH" [OF True refl refl sys [symmetric] refl _ _ _ law] go W(1) E eq le' ok by auto
      have "take (nat w) (drop n bs) @ drop ?n (take r bs) = drop n (take r bs)" if "?n \<le> r"
      proof -
        have "take (nat w) (drop n bs) = take (nat w) (drop n (take r bs))"
          using that by (simp add: drop_take min_def)
        then show ?thesis by (metis append_take_drop_id drop_drop add.commute)
      qed
      then show ?thesis using IH W(2) by auto
    qed
  qed
qed

lemma flush_loop_spec:
  "writes_to K out \<Longrightarrow> flush_loop K len n c = (r, c') \<Longrightarrow> n \<le> len \<Longrightarrow> stream_ok (strm c) \<Longrightarrow>
   write_length (strm c) = len \<Longrightarrow> 0 < len \<Longrightarrow>
   out (io_kern c') (fd (strm c)) @ pending (strm c') =
     out (io_kern c) (fd (strm c)) @ drop n (pending (strm c)) \<and>
   (r = 0 \<and> write_length (strm c') = 0 \<and> io_errno c' = io_errno c \<and> state (strm c') = state (strm c) \<or>
    r = c_EOF \<and> ferror c' \<and> 0 < write_length (strm c')) \<and>
   stream_ok (strm c') \<and> fd (strm c') = fd (strm c) \<and> mode (strm c') = mode (strm c) \<and>
   unread (strm c') = unread (strm c) \<and> write_buffer (strm c') = write_buffer (strm c) \<and>
   buffer_size (strm c') = buffer_size (strm c) \<and>
   has (state (strm c')) MINI_FILE_WRITE_NEEDS_SYNC"
proof (induction K len n c rule: flush_loop.induct)
  case (1 K len n c)
  let ?s = "strm c" and ?buf = "buffers (strm c) (write_buffer (strm c))"
  note law = "1.prems"(1) and E = "1.prems"(2) and le = "1.prems"(3) and ok = "1.prems"(4)
    and wl = "1.prems"(5) and pos = "1.prems"(6)
  have sync: "has (state ?s) MINI_FILE_WRITE_NEEDS_SYNC" using ok wl pos by (simp add: stream_ok_def)
  then have nrp: "\<not> has (state ?s) MINI_FILE_READ_NEEDS_POSITION" using ok by (auto simp: stream_ok_def)
  then have nor: "read_offset ?s = read_length ?s" using ok by (auto simp: stream_ok_def)
  have tail: "drop n (pending ?s) = buf_get ?buf n (len - n)"
    using buf_get_split [OF le, of ?buf 0] le by (simp add: pending_def wl)
  obtain w k where sys: "sys_write K (io_kern c) (fd ?s) (buf_get ?buf n (len - n)) = (w, k)" by fastforce
  note W = writes_toD [OF law sys]
  show ?case
  proof (cases "n < len")
    case False
    then have "r = 0" "c' = on_strm (\<lambda>s. s\<lparr>write_length := 0\<rparr>) c"
      using E by (simp_all add: flush_loop.simps)
    then show ?thesis using False le ok sync
      by (auto simp: on_strm_def pending_def stream_ok_def unread_def wl)
  next
    case room: True
    show ?thesis
    proof (cases "w \<le> 0")
      case stop: True
      let ?c1 = "on_strm (\<lambda>s. s\<lparr>write_length := len - n, buffers := (buffers s)(write_buffer s :=
          buf_put ?buf 0 (buf_get ?buf n (len - n)))\<rparr>) (c\<lparr>io_kern := k\<rparr>)"
      have res: "r = c_EOF" "\<exists>e. c' = mark_error e ?c1"
        using E room sys stop by (auto simp: flush_loop.simps Let_def split: if_splits)
      have "pending (strm ?c1) = buf_get ?buf n (len - n)"
        by (simp add: pending_def on_strm_def buf_get_put)
      then show ?thesis using res W stop ok room tail nor wl sync
        by (auto simp: io_defs stream_ok_def ferror_def pending_def unread_def)
    next
      case go: False
      let ?n = "n + nat w"
      have eq: "flush_loop K len n c = flush_loop K len ?n (c\<lparr>io_kern := k\<rparr>)"
        using room go sys W(1) by (subst flush_loop.simps) (simp add: Let_def)
      have le': "?n \<le> len" using W(1) room go by simp
      have "take (nat w) (drop n (pending ?s)) @ drop ?n (pending ?s) = drop n (pending ?s)"
        by (metis append_take_drop_id drop_drop add.commute)
      then show ?thesis
        using "1.IH" [OF room refl refl refl refl sys [symmetric] refl _ law] go W E eq le' ok wl pos tail by auto
    qed
  qed
qed

lemma flush_buffer_spec:
  assumes law: "writes_to K out" and ok: "stream_ok (strm c)" and w: "has (mode (strm c)) MINI_FILE_WRITABLE"
    and E: "flush_buffer K c = (r, c')"
  shows "stream_output out c' = stream_output out c"
    and "r = 0 \<and> write_length (strm c') = 0 \<and> io_errno c' = io_errno c \<and> state (strm c') = state (strm c) \<or>
         r = c_EOF \<and> ferror c' \<and> 0 < write_length (strm c')"
    and "stream_ok (strm c')" "fd (strm c') = fd (strm c)" "mode (strm c') = mode (strm c)"
    and "unread (strm c') = unread (strm c)"
    and "has (state (strm c)) MINI_FILE_WRITE_NEEDS_SYNC \<Longrightarrow> has (state (strm c')) MINI_FILE_WRITE_NEEDS_SYNC"
    and "write_buffer (strm c) \<noteq> No_buffer \<Longrightarrow> 0 < buffer_size (strm c) \<Longrightarrow>
         write_buffer (strm c') \<noteq> No_buffer \<and> buffer_size (strm c') = buffer_size (strm c)"
proof -
  have "stream_output out c' = stream_output out c \<and>
    (r = 0 \<and> write_length (strm c') = 0 \<and> io_errno c' = io_errno c \<and> state (strm c') = state (strm c) \<or>
     r = c_EOF \<and> ferror c' \<and> 0 < write_length (strm c')) \<and>
    stream_ok (strm c') \<and> fd (strm c') = fd (strm c) \<and> mode (strm c') = mode (strm c) \<and>
    unread (strm c') = unread (strm c) \<and>
    (has (state (strm c)) MINI_FILE_WRITE_NEEDS_SYNC \<longrightarrow> has (state (strm c')) MINI_FILE_WRITE_NEEDS_SYNC) \<and>
    (write_buffer (strm c) \<noteq> No_buffer \<longrightarrow> 0 < buffer_size (strm c) \<longrightarrow>
       write_buffer (strm c') \<noteq> No_buffer \<and> buffer_size (strm c') = buffer_size (strm c))"
  proof (cases "write_length (strm c) = 0")
    case True
    then show ?thesis using E w ok by (simp add: flush_buffer_def)
  next
    case False
    let ?c = "on_strm ensure_storage c"
    note es = ensure_storage_ok [OF ok]
    have "flush_loop K (write_length (strm c)) 0 ?c = (r, c')"
      using E w False by (simp add: flush_buffer_def)
    moreover have "stream_ok (strm ?c)" "write_length (strm ?c) = write_length (strm c)"
      using es by (simp_all add: on_strm_def)
    moreover have "write_buffer (strm c) \<noteq> No_buffer \<longrightarrow> 0 < buffer_size (strm c) \<longrightarrow>
        write_buffer (strm ?c) = write_buffer (strm c) \<and> buffer_size (strm ?c) = buffer_size (strm c)"
      by (simp add: on_strm_def ensure_storage_def Let_def)
    ultimately show ?thesis
      using flush_loop_spec [OF law, of "write_length (strm c)" 0 ?c r c'] False es
      by (auto simp: stream_output_def on_strm_def)
  qed
  then show "stream_output out c' = stream_output out c"
    and "r = 0 \<and> write_length (strm c') = 0 \<and> io_errno c' = io_errno c \<and> state (strm c') = state (strm c) \<or>
         r = c_EOF \<and> ferror c' \<and> 0 < write_length (strm c')"
    and "stream_ok (strm c')" "fd (strm c') = fd (strm c)" "mode (strm c') = mode (strm c)"
    and "unread (strm c') = unread (strm c)"
    and "has (state (strm c)) MINI_FILE_WRITE_NEEDS_SYNC \<Longrightarrow> has (state (strm c')) MINI_FILE_WRITE_NEEDS_SYNC"
    and "write_buffer (strm c) \<noteq> No_buffer \<Longrightarrow> 0 < buffer_size (strm c) \<Longrightarrow>
         write_buffer (strm c') \<noteq> No_buffer \<and> buffer_size (strm c') = buffer_size (strm c)"
    by blast+
qed


definition writing :: "mini_file \<Rightarrow> bool" where
  "writing s =
     (stream_ok s \<and> has (state s) MINI_FILE_WRITE_NEEDS_SYNC \<and> write_buffer s \<noteq> No_buffer \<and>
      0 < buffer_size s \<and> \<not> has (mode s) MINI_FILE_UNBUFFERED \<and> has (mode s) MINI_FILE_WRITABLE)"

lemma line_chunk_bounds:
  assumes "line_chunk s xs = (chunk, fl)" "xs \<noteq> []"
  shows "0 < chunk" "chunk \<le> length xs"
proof -
  have "length (takeWhile P xs) < length xs" if "x \<in> set xs" "\<not> P x" for P and x :: byte
    using that by (induction xs) auto
  then show "0 < chunk" "chunk \<le> length xs"
    using assms by (auto simp: line_chunk_def Suc_le_eq split: if_splits)
qed

lemma flush_keeps_writing:
  assumes "writes_to K out" "writing (strm c)" "flush_buffer K c = (r, c')"
  shows "writing (strm c')" "stream_output out c' = stream_output out c" "fd (strm c') = fd (strm c)"
    "mode (strm c') = mode (strm c)" "r \<noteq> c_EOF \<Longrightarrow> write_length (strm c') = 0" "r = c_EOF \<Longrightarrow> ferror c'"
proof -
  from assms(2) have "stream_ok (strm c)" "has (mode (strm c)) MINI_FILE_WRITABLE" by (simp_all add: writing_def)
  note F = flush_buffer_spec [OF assms(1) this assms(3)]
  show "writing (strm c')" "stream_output out c' = stream_output out c" "fd (strm c') = fd (strm c)"
    "mode (strm c') = mode (strm c)" using F(1,3,4,5,7,8) assms(2) by (auto simp: writing_def)
  show "r \<noteq> c_EOF \<Longrightarrow> write_length (strm c') = 0" "r = c_EOF \<Longrightarrow> ferror c'"
    using F(2) by (auto simp: c_EOF_def)
qed

lemma put_chunk:
  assumes "writing (strm c)" "write_length (strm c) + length xs \<le> buffer_size (strm c)" "chunk = length xs"
  defines "c' \<equiv> on_strm (\<lambda>s. s\<lparr>write_length := write_length s + chunk, buffers := (buffers s)(write_buffer s :=
      buf_put (buffers s (write_buffer s)) (write_length s) xs)\<rparr>) c"
  shows "writing (strm c')" "stream_output out c' = stream_output out c @ xs" "fd (strm c') = fd (strm c)"
    "mode (strm c') = mode (strm c)" "io_errno c' = io_errno c"
  using assms
  by (auto simp: writing_def stream_ok_def on_strm_def stream_output_def pending_def buf_get_append_put)

definition write_result :: "('k \<Rightarrow> int \<Rightarrow> byte list) \<Rightarrow> byte list \<Rightarrow> nat \<Rightarrow> 'k io \<Rightarrow> nat \<Rightarrow> 'k io \<Rightarrow> bool" where
  "write_result out bs a c n c' =
     (a \<le> n \<and> n \<le> length bs \<and> stream_output out c' = stream_output out c @ drop a (take n bs) \<and>
      (n < length bs \<longrightarrow> ferror c') \<and> stream_ok (strm c') \<and> fd (strm c') = fd (strm c) \<and>
      mode (strm c') = mode (strm c))"

lemma write_result_step:
  assumes "write_result out bs (a + k) c1 n c'" "stream_output out c1 = stream_output out c @ take k (drop a bs)"
    "fd (strm c1) = fd (strm c)" "mode (strm c1) = mode (strm c)"
  shows "write_result out bs a c n c'"
proof -
  have "a + k \<le> n" using assms(1) by (simp add: write_result_def)
  then have "take k (drop a bs) = take k (drop a (take n bs))" by (simp add: drop_take min_def)
  then have "take k (drop a bs) @ drop (a + k) (take n bs) = drop a (take n bs)"
    by (metis append_take_drop_id drop_drop add.commute)
  then show ?thesis using assms by (auto simp: write_result_def)
qed

lemma make_room:
  assumes law: "writes_to K out" and W: "writing (strm c)"
    and full: "full = (write_length (strm c) = buffer_size (strm c))"
    and pre: "(if full then (let (r, c) = flush_buffer K c in (r \<noteq> c_EOF, c)) else (True, c)) = (ok, c1)"
  shows "writing (strm c1) \<and> stream_output out c1 = stream_output out c \<and> fd (strm c1) = fd (strm c) \<and>
    mode (strm c1) = mode (strm c) \<and> (\<not> ok \<longrightarrow> ferror c1) \<and>
    (ok \<longrightarrow> write_length (strm c1) < buffer_size (strm c1))"
proof (cases full)
  case False
  then have "ok" "c1 = c" using pre by simp_all
  moreover have "write_length (strm c) \<le> buffer_size (strm c)" using W by (simp add: writing_def stream_ok_def)
  ultimately show ?thesis using W False full by simp
next
  case True
  obtain r d where f: "flush_buffer K c = (r, d)" by fastforce
  then have "ok = (r \<noteq> c_EOF)" "c1 = d" using pre True by simp_all
  moreover have "0 < buffer_size (strm d)" using flush_keeps_writing(1) [OF law W f] by (simp add: writing_def)
  ultimately show ?thesis using flush_keeps_writing [OF law W f] by simp
qed

lemma write_loop_spec:
  assumes law: "writes_to K out"
  shows "writing (strm c) \<Longrightarrow> a \<le> length bs \<Longrightarrow>
    \<exists>n c'. write_loop K bs a c = Some (n, c') \<and> write_result out bs a c n c'"
proof (induction "length bs - a" arbitrary: a c rule: less_induct)
  case less
  note W = less.prems(1) and le = less.prems(2)
  show ?case
  proof (cases "a < length bs")
    case False
    then show ?thesis using W le
      by (subst write_loop.simps) (simp add: write_result_def writing_def)
  next
    case room: True
    define full where "full = (write_length (strm c) = buffer_size (strm c))"
    obtain ok c1 where pre: "(if full then (let (r, c) = flush_buffer K c in (r \<noteq> c_EOF, c)) else (True, c)) = (ok, c1)"
      by (cases "if full then (let (r, c) = flush_buffer K c in (r \<noteq> c_EOF, c)) else (True, c)")
    have c1: "writing (strm c1)" "stream_output out c1 = stream_output out c" "fd (strm c1) = fd (strm c)"
      "mode (strm c1) = mode (strm c)" "\<not> ok \<longrightarrow> ferror c1" "ok \<longrightarrow> write_length (strm c1) < buffer_size (strm c1)"
      using make_room [OF law W full_def pre] by blast+
    show ?thesis
    proof (cases ok)
      case False
      then have "write_loop K bs a c = Some (a, c1)"
        using room pre by (subst write_loop.simps) (simp add: full_def Let_def)
      then show ?thesis using c1 False le by (auto simp: write_result_def writing_def)
    next
      case True
      let ?s = "strm c1"
      define xs where "xs = take (min (length bs - a) (buffer_size ?s - write_length ?s)) (drop a bs)"
      obtain k fl where lc: "line_chunk ?s xs = (k, fl)" by (cases "line_chunk ?s xs")
      have xs: "xs \<noteq> []" "length xs \<le> buffer_size ?s - write_length ?s" "length xs \<le> length bs - a"
        using room c1(6) True by (auto simp: xs_def)
      note k = line_chunk_bounds [OF lc xs(1)]
      define c2 where "c2 = on_strm (\<lambda>s. s\<lparr>write_length := write_length s + k, buffers := (buffers s)(write_buffer s :=
          buf_put (buffers s (write_buffer s)) (write_length s) (take k (drop a bs)))\<rparr>) c1"
      have room2: "write_length (strm c1) + length (take k (drop a bs)) \<le> buffer_size (strm c1)"
        "k = length (take k (drop a bs))" using k xs c1(6) True by auto
      note P = put_chunk [OF c1(1) room2, folded c2_def]
      show ?thesis
      proof (cases fl)
        case no: False
        have eq: "write_loop K bs a c = write_loop K bs (a + k) c2"
          using room pre True lc no
          by (subst write_loop.simps) (simp add: full_def Let_def c2_def xs_def [symmetric])
        have "\<exists>n c'. write_loop K bs (a + k) c2 = Some (n, c') \<and> write_result out bs (a + k) c2 n c'"
          using k xs P(1) room by (intro less.hyps) auto
        then show ?thesis unfolding eq
          using write_result_step [of out bs a k c2 _ _ c] P c1 by fastforce
      next
        case line: True
        obtain r c3 where fl: "flush_buffer K c2 = (r, c3)" by (cases "flush_buffer K c2")
        note F = flush_keeps_writing [OF law P(1) fl]
        have eq: "write_loop K bs a c = (if r = c_EOF then Some (a + k, c3) else write_loop K bs (a + k) c3)"
          using room pre True lc line fl
          by (subst write_loop.simps) (simp add: full_def Let_def c2_def xs_def [symmetric])
        have "\<exists>n c'. (if r = c_EOF then Some (a + k, c3) else write_loop K bs (a + k) c3) = Some (n, c') \<and>
            write_result out bs (a + k) c3 n c'"
        proof (cases "r = c_EOF")
          case True
          then show ?thesis using F k xs by (auto simp: write_result_def writing_def)
        next
          case False
          then show ?thesis using k xs F(1) room less.hyps [of "a + k" c3] by auto
        qed
        then show ?thesis unfolding eq
          using write_result_step [of out bs a k c3 _ _ c] P c1 F by fastforce
      qed
    qed
  qed
qed

lemma stdio_write_spec:
  assumes law: "writes_to K out" and ok: "stream_ok (strm c)"
    and dir: "has (mode (strm c)) MINI_FILE_WRITABLE" "\<not> has (state (strm c)) MINI_FILE_READ_NEEDS_POSITION"
  shows "\<exists>n c'. stdio_write K bs c = Some (n, c') \<and> write_result out bs 0 c n c'"
proof (cases "bs = []")
  case True
  then show ?thesis using ok by (simp add: stdio_write_def write_result_def)
next
  case bs: False
  let ?c = "set_state MINI_FILE_WRITE_NEEDS_SYNC c"
  have ok1: "stream_ok (strm ?c)" using ok dir by (auto simp: stream_ok_def io_defs)
  have same: "stream_output out ?c = stream_output out c" "fd (strm ?c) = fd (strm c)" "mode (strm ?c) = mode (strm c)"
    by (simp_all add: stream_output_def pending_def io_defs)
  show ?thesis
  proof (cases "has (mode (strm c)) MINI_FILE_UNBUFFERED")
    case True
    obtain r c' where w: "write_raw K bs 0 ?c = (r, c')" by fastforce
    have "pending (strm ?c) = []" using ok True by (simp add: pending_def stream_ok_def io_defs)
    then show ?thesis
      using write_raw_spec [OF law w _ ok1] True bs dir w same
      by (auto simp: stdio_write_def write_result_def stream_output_def)
  next
    case False
    let ?d = "on_strm ensure_storage ?c"
    note es = ensure_storage_ok [OF ok1]
    have "writing (strm ?d)"
      using es dir False ok1 by (simp add: writing_def on_strm_def io_defs)
    from write_loop_spec [OF law this, of 0 bs]
    obtain n c' where w: "write_loop K bs 0 ?d = Some (n, c')" "write_result out bs 0 ?d n c'" by auto
    have "stream_output out ?d = stream_output out c" "fd (strm ?d) = fd (strm c)" "mode (strm ?d) = mode (strm c)"
      using es same by (simp_all add: stream_output_def on_strm_def io_defs)
    then show ?thesis using w bs dir False
      by (auto simp: stdio_write_def write_result_def io_defs)
  qed
qed


subsection \<open>Reading without a buffer\<close>

definition with_pushback :: "nat \<Rightarrow> nat \<Rightarrow> 'k io \<Rightarrow> 'k io" where
  "with_pushback p q c = on_strm (\<lambda>s. s\<lparr>pushback_offset := p, pushback_length := q\<rparr>) c"

lemma with_pushback_same: "with_pushback (pushback_offset (strm c)) (pushback_length (strm c)) c = c"
  by (simp add: with_pushback_def on_strm_def)

lemma with_pushback_fields [simp]:
  "io_kern (with_pushback p q c) = io_kern c" "fd (strm (with_pushback p q c)) = fd (strm c)"
  "mode (strm (with_pushback p q c)) = mode (strm c)" "state (strm (with_pushback p q c)) = state (strm c)"
  "pushback_offset (strm (with_pushback p q c)) = p" "pushback_length (strm (with_pushback p q c)) = q"
  "with_pushback p q (with_pushback r t c) = with_pushback p q c"
  "with_pushback p q c\<lparr>io_kern := k\<rparr> = with_pushback p q (c\<lparr>io_kern := k\<rparr>)"
  "mark_error e (with_pushback p q c) = with_pushback p q (mark_error e c)"
  "set_state f (with_pushback p q c) = with_pushback p q (set_state f c)"
  "clear_state f (with_pushback p q c) = with_pushback p q (clear_state f c)"
  "feof (with_pushback p q c) = feof c" "ferror (with_pushback p q c) = ferror c"
  by (simp_all add: with_pushback_def io_defs feof_def ferror_def)

lemma read_direct_pushback:
  "read_direct K len acc (with_pushback p q c) =
    (fst (read_direct K len acc c), with_pushback p q (snd (read_direct K len acc c)))"
proof (induction K len acc c rule: read_direct.induct)
  case (1 K len acc c)
  show ?case
  proof (cases "length acc < len")
    case False
    then show ?thesis by (simp add: read_direct.simps)
  next
    case True
    obtain r k where sys: "sys_read K (io_kern c) (fd (strm c)) (len - length acc) = (r, k)" by fastforce
    note step = "1.IH" [OF True refl sys [symmetric] refl]
    show ?thesis
      using True sys step by (subst (1 2 3) read_direct.simps) (auto simp: Let_def split: sum.splits)
  qed
qed

lemma read_direct_pushback_bytes: "pushback_bytes (strm (snd (read_direct K len acc c))) = pushback_bytes (strm c)"
proof (induction K len acc c rule: read_direct.induct)
  case (1 K len acc c)
  show ?case
  proof (cases "length acc < len")
    case False
    then show ?thesis by (simp add: read_direct.simps)
  next
    case True
    obtain r k where sys: "sys_read K (io_kern c) (fd (strm c)) (len - length acc) = (r, k)" by fastforce
    show ?thesis
      using True sys "1.IH" [OF True refl sys [symmetric] refl]
      by (subst read_direct.simps) (auto simp: Let_def io_defs split: sum.splits)
  qed
qed

text \<open>Without a buffer the pushed-back bytes are not looked at: the bytes come from the kernel.\<close>

lemma read_unbuffered_spec:
  assumes "reads_from K src" "stream_ok (strm c)" "readable_stream (strm c)"
    "\<not> has (state (strm c)) MINI_FILE_WRITE_NEEDS_SYNC" "has (mode (strm c)) MINI_FILE_UNBUFFERED"
    "stdio_read K len c = (data, c')"
  shows "src (io_kern c) (fd (strm c)) = data @ src (io_kern c') (fd (strm c')) \<and> unread (strm c') = unread (strm c) \<and>
    length data \<le> len \<and> (length data < len \<longrightarrow> feof c' \<or> ferror c') \<and> stream_ok (strm c')"
proof -
  define p where "p = pushback_offset (strm c)"
  define q where "q = pushback_length (strm c)"
  define c0 where "c0 = with_pushback 0 0 c"
  have c: "c = with_pushback p q c0" by (simp add: p_def q_def c0_def with_pushback_same)
  have pq: "p \<le> q" "q \<le> 4" using assms(2) by (simp_all add: p_def q_def stream_ok_def)
  have u0: "has (mode (strm c0)) MINI_FILE_UNBUFFERED" using assms(5) by (simp add: c0_def)
  obtain d where d: "stdio_read K len c0 = (data, d)" "c' = with_pushback p q d"
    using assms(6) read_direct_pushback [of K len "[]" p q c0] u0 unfolding c
    by (cases "read_direct K len [] c0") (auto simp: stdio_read_def readable_stream_def split: if_splits)
  have ok: "stream_ok (strm c0)" using assms(2) by (simp add: c0_def with_pushback_def on_strm_def stream_ok_def)
  have r: "read_result src len [] c0 data d"
    by (rule stdio_read_spec [OF assms(1) ok _ _ _ d(1)]) (use assms(3,4) in \<open>simp_all add: c0_def readable_stream_def\<close>)
  have u: "has (mode (strm d)) MINI_FILE_UNBUFFERED" using r assms(5) by (simp add: read_result_def c0_def)
  have "unread (strm c0) = []" "unread (strm d) = []"
    using ok r u assms(5) by (auto simp: read_result_def unread_def stream_ok_def c0_def)
  moreover have "pushback_bytes (strm d) = pushback_bytes (strm c)"
    using d(1) read_direct_pushback_bytes [of K len "[]" c0] u0
    by (auto simp: stdio_read_def c0_def with_pushback_def io_defs split: if_splits)
  moreover have "read_offset (strm d) = read_length (strm d)" "read_offset (strm c) = read_length (strm c)"
    using r u assms(2,5) by (simp_all add: read_result_def stream_ok_def)
  then have "unread (strm c') = buf_get (pushback_bytes (strm d)) p (q - p)"
    "unread (strm c) = buf_get (pushback_bytes (strm c)) p (q - p)"
    by (simp_all add: d(2) unread_def with_pushback_def on_strm_def p_def q_def)
  moreover have "stream_ok (strm c')"
    using r pq by (simp add: d(2) read_result_def with_pushback_def on_strm_def stream_ok_def)
  ultimately show ?thesis
    using r by (auto simp: read_result_def stream_input_def d(2) c0_def)
qed

subsection \<open>Sequences of operations\<close>

definition can_read :: "mini_file \<Rightarrow> bool" where
  "can_read s =
     (stream_ok s \<and> readable_stream s \<and> \<not> has (state s) MINI_FILE_WRITE_NEEDS_SYNC \<and>
      (has (mode s) MINI_FILE_UNBUFFERED \<longrightarrow> pushback_offset s = pushback_length s))"

lemma stdio_read_can_read:
  assumes "reads_from K src" "can_read (strm c)" "stdio_read K len c = (data, c')"
  shows "can_read (strm c')" "stream_input src c = data @ stream_input src c'" "length data \<le> len"
    "length data < len \<Longrightarrow> feof c' \<or> ferror c'" "fd (strm c') = fd (strm c)" "mode (strm c') = mode (strm c)"
  using stdio_read_spec [OF assms(1) _ _ _ _ assms(3)] assms(2)
  by (auto simp: can_read_def read_result_def readable_stream_def)

lemma uchar_of_byte [simp]: "uchar (int_of_byte b) = b"
  by (simp add: uchar_def)

lemma byte_range: "0 \<le> int_of_byte b" "int_of_byte b < 256"
proof -
  have "int_of_byte b < 2 ^ LENGTH(8)" by (rule unsigned_less)
  then show "int_of_byte b < 256" by simp
qed simp

lemma fgetc_can_read:
  assumes "reads_from K src" "can_read (strm c)" "fgetc K c = (v, c')"
  shows "can_read (strm c')"
    "v = c_EOF \<and> stream_input src c' = stream_input src c \<and> (feof c' \<or> ferror c') \<or>
     0 \<le> v \<and> v < 256 \<and> stream_input src c = uchar v # stream_input src c'"
proof -
  obtain data where rd: "stdio_read K 1 c = (data, c')"
    and v: "v = (if length data \<noteq> 1 then c_EOF else int_of_byte (hd data))"
    using assms(3) by (auto simp: fgetc_def split: prod.splits if_splits)
  note R = stdio_read_can_read [OF assms(1,2) rd]
  show "can_read (strm c')" by (rule R)
  show "v = c_EOF \<and> stream_input src c' = stream_input src c \<and> (feof c' \<or> ferror c') \<or>
     0 \<le> v \<and> v < 256 \<and> stream_input src c = uchar v # stream_input src c'"
  proof (cases data)
    case Nil
    then show ?thesis using R v by simp
  next
    case (Cons b bs)
    then have "data = [b]" using R(3) by simp
    then show ?thesis using R(2) v byte_range [of b] by simp
  qed
qed

lemma fgets_loop_spec:
  assumes law: "reads_from K src"
  shows "can_read (strm c) \<Longrightarrow> newline \<notin> set acc \<Longrightarrow> newline = 10 \<Longrightarrow>
    fgets_loop K room acc c = (stop, line, c') \<Longrightarrow>
    \<exists>xs. line = acc @ xs \<and> stream_input src c = xs @ stream_input src c' \<and> length xs \<le> room \<and>
      can_read (strm c') \<and> newline \<notin> set (butlast line) \<and>
      (stop = Stopped \<longrightarrow> length xs = room \<or> line \<noteq> [] \<and> last line = newline \<or> feof c') \<and>
      (stop = Read_failed \<longrightarrow> ferror c')"
proof (induction room arbitrary: acc c)
  case 0
  then show ?case by (auto dest: in_set_butlastD)
next
  case (Suc room)
  obtain v d where g: "fgetc K c = (v, d)" by fastforce
  note G = fgetc_can_read [OF law Suc.prems(1) g]
  show ?case
  proof (cases "v = c_EOF")
    case True
    then have "line = acc" "c' = d" "stop = (if feof d then Stopped else Read_failed)"
      using Suc.prems(4) g by (auto split: if_splits)
    then show ?thesis using G True Suc.prems(2) by (auto simp: c_EOF_def dest: in_set_butlastD)
  next
    case no: False
    then have v: "0 \<le> v" "v < 256" "stream_input src c = uchar v # stream_input src d" using G(2) by auto
    show ?thesis
    proof (cases "v = 10")
      case True
      then have "line = acc @ [uchar 10]" "c' = d" "stop = Stopped"
        using Suc.prems(4) g no by auto
      then show ?thesis using v G(1) Suc.prems(2,3) True
        by (intro exI [of _ "[uchar 10]"]) (simp add: uchar_def)
    next
      case False
      have "uchar v \<noteq> newline"
      proof
        assume "uchar v = newline"
        then have "uint (word_of_int v :: byte) = uint (10 :: byte)" using Suc.prems(3) by (simp add: uchar_def)
        then show False using v False by (simp add: uint_word_of_int)
      qed
      then have nl: "newline \<notin> set (acc @ [uchar v])" using Suc.prems(2) by simp
      have "fgets_loop K room (acc @ [uchar v]) d = (stop, line, c')"
        using Suc.prems(4) g no False by simp
      from Suc.IH [OF G(1) nl Suc.prems(3) this] show ?thesis
        using v(3) by (elim exE, intro exI [of _ "uchar v # _"]) auto
    qed
  qed
qed

lemma pushback_unlocked_ok:
  assumes "stream_ok (strm c)" "pushback_unlocked bytes c = (r, c')" "r \<noteq> c_EOF"
  shows "stream_ok (strm c')" "stream_input src c' = bytes @ stream_input src c"
    "mode (strm c') = mode (strm c)" "\<not> has (state (strm c')) MINI_FILE_WRITE_NEEDS_SYNC"
    "readable_stream (strm c)" "\<not> feof c'"
proof -
  from assms(2,3) have g: "readable_stream (strm c)" "length bytes \<noteq> 0" "length bytes \<le> 4"
      "\<not> has (state (strm c)) MINI_FILE_WRITE_NEEDS_SYNC" "\<not> pushback_offset (strm c) < pushback_length (strm c)"
    and c': "c' = set_state MINI_FILE_READ_NEEDS_POSITION (clear_state MINI_FILE_EOF
        (on_strm (\<lambda>s. s\<lparr>pushback_bytes := buf_put (pushback_bytes s) 0 bytes,
           pushback_offset := 0, pushback_length := length bytes\<rparr>) c))"
    by (auto simp: pushback_unlocked_def Let_def split: if_splits)
  show "stream_ok (strm c')" using assms(1) g by (auto simp: c' stream_ok_def io_defs)
  show "stream_input src c' = bytes @ stream_input src c"
    using g assms(1) buf_get_put [of "length bytes" bytes _ 0]
    by (simp add: c' stream_input_def unread_def io_defs stream_ok_def)
  show "mode (strm c') = mode (strm c)" "\<not> has (state (strm c')) MINI_FILE_WRITE_NEEDS_SYNC"
    "readable_stream (strm c)" "\<not> feof c'"
    using g by (simp_all add: c' io_defs feof_def)
qed

lemma fflush_spec:
  assumes law: "writes_to K out" and ok: "stream_ok (strm c)" and w: "has (mode (strm c)) MINI_FILE_WRITABLE"
    and E: "fflush K c = (r, c')"
  shows "stream_ok (strm c')" "stream_output out c' = stream_output out c"
    "r = 0 \<and> write_length (strm c') = 0 \<and> io_errno c' = io_errno c \<and>
     \<not> has (state (strm c')) MINI_FILE_WRITE_NEEDS_SYNC \<or> r = c_EOF \<and> ferror c' \<and> 0 < write_length (strm c')"
proof -
  have v: "mode (strm c) AND (MINI_FILE_READABLE OR MINI_FILE_WRITABLE) \<noteq> 0"
    by (rule has_wider [OF w]) (simp add: mode_flags)
  obtain d where f: "flush_buffer K c = (r, d)"
    and c': "c' = (if r \<noteq> c_EOF then clear_state MINI_FILE_WRITE_NEEDS_SYNC d else d)"
    using E v w by (auto simp: fflush_def split: prod.splits)
  note F = flush_buffer_spec [OF law ok w f]
  show "stream_ok (strm c')" using F(2,3) c' by (auto simp: stream_ok_def io_defs c_EOF_def)
  show "stream_output out c' = stream_output out c"
    using F(1) c' by (auto simp: stream_output_def pending_def io_defs)
  show "r = 0 \<and> write_length (strm c') = 0 \<and> io_errno c' = io_errno c \<and>
     \<not> has (state (strm c')) MINI_FILE_WRITE_NEEDS_SYNC \<or> r = c_EOF \<and> ferror c' \<and> 0 < write_length (strm c')"
    using F(2) c' by (auto simp: io_defs c_EOF_def ferror_def)
qed

subsection \<open>Properties\<close>

text \<open>The static initialisers of the three standard streams, and a kernel for the witnesses: its state
  is the input still to come and the output so far, whatever the descriptor.\<close>

definition static_file :: "int \<Rightarrow> u32 \<Rightarrow> nat \<Rightarrow> mini_file" where
  "static_file d md nxt = \<lparr>fd = d, mode = md, state = 0, next_stream = nxt, write_length = 0,
     write_buffer = No_buffer, read_offset = 0, read_length = 0, pushback_offset = 0,
     pushback_length = 0, pushback_bytes = (\<lambda>_. 0), read_buffer = No_buffer, buffer_size = 0,
     buffers = (\<lambda>_ _. 0)\<rparr>"

definition pipe_kernel :: "(byte list \<times> byte list) sys" where
  "pipe_kernel = \<lparr>sys_read = (\<lambda>(i, out) d n. (Inr (take n i), (drop n i, out))),
     sys_write = (\<lambda>(i, out) d bs. (int (length bs), (i, out @ bs))),
     sys_lseek = (\<lambda>k d off w. (0, k)), sys_openat = (\<lambda>k d path fl md. (3, k)),
     sys_close = (\<lambda>k d. (0, k))\<rparr>"

definition example_io :: "u32 \<Rightarrow> byte list \<Rightarrow> (byte list \<times> byte list) io" where
  "example_io md input = \<lparr>strm = static_file 3 md 0, io_errno = 0, io_kern = (input, [])\<rparr>"

lemma pipe_reads: "reads_from pipe_kernel (\<lambda>k d. fst k)"
  by (auto simp: reads_from_def pipe_kernel_def)

lemma pipe_writes: "writes_to pipe_kernel (\<lambda>k d. snd k)"
  by (auto simp: writes_to_def pipe_kernel_def)

lemma static_file_ok: "stream_ok (static_file d md nxt)"
  by (simp add: stream_ok_def static_file_def has_def)

lemma example_can_read: "has md MINI_FILE_READABLE \<Longrightarrow> can_read (strm (example_io md input))"
  using static_file_ok [of 3 md 0]
  by (simp add: can_read_def example_io_def readable_stream_def) (simp add: static_file_def has_def)


text \<open>A buffered stream with a byte pushed back, and the same stream without a buffer.\<close>

definition pushed_example :: "u32 \<Rightarrow> (byte list \<times> byte list) io" where
  "pushed_example md = snd (ungetc 65 (example_io (MINI_FILE_READABLE OR md) [7, 8, 9]))"


text \<open>
  C12. Writing always returns, and appends to the stream's output (what the kernel has, then what is
  buffered) exactly the bytes it reports as accepted: short writes, full buffers and newline flushes
  included. Fewer bytes than offered means the error indicator is set.
\<close>

theorem write_appends:
  assumes "writes_to K out" and "stream_ok (strm c)" and "has (mode (strm c)) MINI_FILE_WRITABLE"
    and "\<not> has (state (strm c)) MINI_FILE_READ_NEEDS_POSITION"
  shows "\<exists>n c'. stdio_write K bs c = Some (n, c') \<and> n \<le> length bs \<and>
    stream_output out c' = stream_output out c @ take n bs \<and> (n < length bs \<longrightarrow> ferror c') \<and>
    stream_ok (strm c')"
  using stdio_write_spec [OF assms, of bs] by (auto simp: write_result_def)

theorem write_appends_witness:
  "\<exists>n c'. stdio_write pipe_kernel [1, 2, 3] (example_io MINI_FILE_WRITABLE []) = Some (n, c') \<and>
     stream_output (\<lambda>k d. snd k) c' = take n [1, 2, 3]"
proof -
  have "stream_ok (strm (example_io MINI_FILE_WRITABLE []))"
    "has (mode (strm (example_io MINI_FILE_WRITABLE []))) MINI_FILE_WRITABLE"
    "\<not> has (state (strm (example_io MINI_FILE_WRITABLE []))) MINI_FILE_READ_NEEDS_POSITION"
    by (simp_all add: example_io_def static_file_ok) (simp_all add: static_file_def has_def mode_flags)
  from write_appends [OF pipe_writes this, of "[1, 2, 3]"]
  show ?thesis by (auto simp: stream_output_def example_io_def static_file_def pending_def)
qed

text \<open>
  C13. \<open>fflush\<close> on a writable stream either hands everything pending to the kernel, leaves \<open>errno\<close> alone
  and lifts the write-to-read barrier, or reports an error, sets the error indicator and keeps the
  unwritten suffix: a later flush continues without losing or repeating a byte.
\<close>

theorem fflush_publishes_or_retains:
  assumes "writes_to K out" and "stream_ok (strm c)" and "has (mode (strm c)) MINI_FILE_WRITABLE"
  shows "\<exists>r c'. fflush K c = (r, c') \<and> stream_ok (strm c') \<and> stream_output out c' = stream_output out c \<and>
    (r = 0 \<and> pending (strm c') = [] \<and> io_errno c' = io_errno c \<and>
     \<not> has (state (strm c')) MINI_FILE_WRITE_NEEDS_SYNC \<or> r = c_EOF \<and> ferror c' \<and> pending (strm c') \<noteq> [])"
proof -
  obtain r c' where f: "fflush K c = (r, c')" by fastforce
  from fflush_spec [OF assms f] f show ?thesis by (auto simp: pending_def)
qed

theorem fflush_publishes_or_retains_witness:
  "\<exists>r c'. fflush pipe_kernel (example_io MINI_FILE_WRITABLE []) = (r, c') \<and> stream_ok (strm c')"
proof -
  have "stream_ok (strm (example_io MINI_FILE_WRITABLE []))"
    "has (mode (strm (example_io MINI_FILE_WRITABLE []))) MINI_FILE_WRITABLE"
    by (simp_all add: example_io_def static_file_ok) (simp_all add: static_file_def has_def mode_flags)
  from fflush_publishes_or_retains [OF pipe_writes this] show ?thesis by blast
qed

text \<open>
  C14. On a buffered stream a byte pushed back by \<open>ungetc\<close> is the next one \<open>fgetc\<close> returns, and the two
  together leave the stream's input as it was.
\<close>

theorem ungetc_then_fgetc:
  assumes "stream_ok (strm c)" and "\<not> has (mode (strm c)) MINI_FILE_UNBUFFERED"
    and "ungetc v c = (r, c1)" and "r \<noteq> c_EOF"
  shows "r = v mod 256 \<and> (\<exists>c2. fgetc K c1 = (r, c2) \<and> stream_input src c2 = stream_input src c)"
proof -
  obtain q where p: "pushback_unlocked [uchar v] c = (q, c1)" "q \<noteq> c_EOF" and r: "r = int_of_byte (uchar v)"
    using assms(3,4) by (auto simp: ungetc_def split: if_splits prod.splits)
  note P = pushback_unlocked_ok [OF assms(1) p]
  have st: "pushback_offset (strm c1) = 0" "pushback_length (strm c1) = 1" "pushback_bytes (strm c1) 0 = uchar v"
    using p by (auto simp: pushback_unlocked_def Let_def io_defs buf_put_def split: if_splits)
  define d where "d = on_strm ensure_storage c1"
  have sd: "pushback_offset (strm d) = 0" "pushback_length (strm d) = 1" "pushback_bytes (strm d) 0 = uchar v"
    using st by (simp_all add: d_def on_strm_def ensure_storage_def Let_def)
  define c2 where "c2 = set_state MINI_FILE_READ_NEEDS_POSITION
    (on_strm (\<lambda>s. s\<lparr>pushback_offset := 0, pushback_length := 0\<rparr>) d)"
  have "buf_get (pushback_bytes (strm d)) 0 1 = [uchar v]" using sd by (simp add: buf_get_def)
  then have "read_buffered K 1 [] d = read_buffered K 1 [uchar v] c2"
    using sd by (subst read_buffered.simps) (simp add: c2_def io_defs Let_def)
  also have "\<dots> = ([uchar v], c2)" by (simp add: read_buffered.simps)
  finally have "stdio_read K 1 c1 = ([uchar v], c2)"
    using P(3,4,5) assms(2) by (simp add: stdio_read_def d_def readable_stream_def)
  then have "fgetc K c1 = (r, c2)" by (simp add: fgetc_def r)
  moreover have "stream_input src c1 = uchar v # stream_input src c2"
    using sd ensure_storage_ok(2) [OF P(1)]
    by (simp add: stream_input_def c2_def d_def io_defs unread_def buf_get_def ensure_storage_ok [OF P(1)])
  then have "stream_input src c2 = stream_input src c" using P(2) [of src] by simp
  moreover have "r = v mod 256" by (simp add: r uchar_def uint_word_of_int)
  ultimately show ?thesis by blast
qed

theorem ungetc_then_fgetc_witness:
  "\<exists>c2. fgetc pipe_kernel (snd (ungetc 65 (example_io MINI_FILE_READABLE [7]))) = (65, c2)"
proof -
  let ?c = "example_io MINI_FILE_READABLE [7]"
  have 1: "stream_ok (strm ?c)" "\<not> has (mode (strm ?c)) MINI_FILE_UNBUFFERED"
    by (simp_all add: example_io_def static_file_ok) (simp_all add: static_file_def has_def mode_flags)
  have 2: "ungetc 65 ?c = (65, snd (ungetc 65 ?c))"
    by (simp add: ungetc_def pushback_unlocked_def example_io_def static_file_def has_def mode_flags
        readable_stream_def c_EOF_def uchar_def Let_def)
  from ungetc_then_fgetc [OF 1 2, of pipe_kernel] show ?thesis by (auto simp: c_EOF_def)
qed

text \<open>
  \<open>fgets\<close> takes from the stream's input exactly the bytes it stores: at most \<open>n - 1\<close>, none after a
  newline, closed by a NUL byte; it stops early only at a newline or at the end of the file.
\<close>

theorem fgets_takes_a_line:
  assumes "reads_from K src" and "can_read (strm c)" and "1 < n" and "s \<noteq> null_ptr"
    and "fgets K m s n c = ((p, m'), c')" and "p \<noteq> null_ptr"
  shows "\<exists>line. stream_input src c = line @ stream_input src c' \<and> p = s \<and>
    m' = write_bytes m s (line @ [0]) \<and> length line \<le> nat (n - 1) \<and> 10 \<notin> set (butlast line) \<and>
    (length line = nat (n - 1) \<or> line \<noteq> [] \<and> last line = 10 \<or> feof c') \<and> can_read (strm c')"
proof -
  obtain stop line d where l: "fgets_loop K (nat (n - 1)) [] c = (stop, line, d)" by (metis prod_cases3)
  have pre: "readable_stream (strm c)" "\<not> has (state (strm c)) MINI_FILE_WRITE_NEEDS_SYNC"
    using assms(2) by (simp_all add: can_read_def)
  have res: "stop = Stopped" "p = s" "m' = write_bytes m s (line @ [0])" "c' = d"
    using assms(3-6) pre l by (auto simp: fgets_def split: fgets_stop.splits if_splits)
  from fgets_loop_spec [OF assms(1,2) _ refl l] obtain xs where
    "line = xs" "stream_input src c = xs @ stream_input src d" "length xs \<le> nat (n - 1)"
    "can_read (strm d)" "10 \<notin> set (butlast line)"
    "stop = Stopped \<longrightarrow> length xs = nat (n - 1) \<or> line \<noteq> [] \<and> last line = 10 \<or> feof d"
    by auto
  then show ?thesis using res by (intro exI [of _ line]) auto
qed

theorem fgets_takes_a_line_witness:
  "\<exists>line. [104, 105, 10, 33] = line @ stream_input (\<lambda>k d. fst k)
      (snd (fgets pipe_kernel (\<lambda>_. 0) 50 10 (example_io MINI_FILE_READABLE [104, 105, 10, 33])))"
proof -
  let ?c = "example_io MINI_FILE_READABLE [104, 105, 10, 33]"
  have 1: "can_read (strm ?c)" by (rule example_can_read) (simp add: has_def mode_flags)
  obtain p m' c' where f: "fgets pipe_kernel (\<lambda>_. 0) 50 10 ?c = ((p, m'), c')" by (metis prod_cases3 surj_pair)
  have pre: "readable_stream (strm ?c)" "\<not> has (state (strm ?c)) MINI_FILE_WRITE_NEEDS_SYNC"
    using 1 by (simp_all add: can_read_def)
  have inp: "stream_input (\<lambda>k d. fst k) ?c = [104, 105, 10, 33]"
    by (simp add: stream_input_def example_io_def static_file_def unread_def)
  show ?thesis
  proof (cases "p = 0")
    case False
    from fgets_takes_a_line [OF pipe_reads 1 _ _ f False] f inp show ?thesis by auto
  next
    case True
    obtain stop line d where l: "fgets_loop pipe_kernel (nat (10 - 1)) [] ?c = (stop, line, d)" by (metis prod_cases3)
    have "c' = d" using f pre l True by (auto simp: fgets_def split: fgets_stop.splits if_splits)
    with fgets_loop_spec [OF pipe_reads 1 _ refl l] f inp show ?thesis by auto
  qed
qed

text \<open>
  \<open>ftell\<close> on a seekable stream without pending output reports the logical position: the length of
  the file less the input the program has not taken yet, so reading \<open>n\<close> bytes moves it by \<open>n\<close> and
  pushing one back moves it back by one.
\<close>

theorem ftell_is_logical_position:
  assumes "valid_stream (strm c)" and "stream_ok (strm c)" and "write_length (strm c) = 0"
    and "\<And>k d. sys_lseek K k d 0 SEEK_CUR = (int (pos k d), k)"
    and "\<And>k d. src k d = drop (pos k d) bytes" and "\<And>k d. pos k d \<le> length bytes"
    and "int (length bytes) \<le> LONG_MAX" and "length (unread (strm c)) \<le> pos (io_kern c) (fd (strm c))"
  shows "fst (ftell K c) = int (length bytes) - int (length (stream_input src c))"
proof -
  have len: "unread_input (strm c) = length (unread (strm c))"
    using assms(2) by (simp add: unread_input_def unread_def stream_ok_def)
  have "int (pos (io_kern c) (fd (strm c))) \<le> LONG_MAX"
    using assms(6) [of "io_kern c" "fd (strm c)"] assms(7) by linarith
  then show ?thesis
    using assms(1,3,4,5,8) assms(6) [of "io_kern c" "fd (strm c)"] len
    by (simp add: ftell_def stream_input_def Let_def of_nat_diff c_EOF_def)
qed

theorem ftell_is_logical_position_witness:
  "fst (ftell (pipe_kernel\<lparr>sys_lseek := (\<lambda>k d off w. (3 - int (length (take 3 (fst k))), k))\<rparr>)
     (example_io MINI_FILE_READABLE [])) = 3 - 0"
proof -
  let ?K = "pipe_kernel\<lparr>sys_lseek := (\<lambda>k d off w. (3 - int (length (take 3 (fst k))), k))\<rparr>"
  let ?c = "example_io MINI_FILE_READABLE []"
  let ?pos = "\<lambda>k d. 3 - length (take 3 (fst k))" and ?bytes = "[1, 2, 3] :: byte list"
  have 1: "valid_stream (strm ?c)" "stream_ok (strm ?c)" "write_length (strm ?c) = 0"
    by (simp_all add: example_io_def static_file_ok) (simp_all add: static_file_def valid_stream_def mode_flags)
  have 2: "sys_lseek ?K k d 0 SEEK_CUR = (int (?pos k d), k)" for k d
    by (simp add: pipe_kernel_def of_nat_diff)
  have 3: "?pos k d \<le> length ?bytes" "int (length ?bytes) \<le> LONG_MAX" for k :: "byte list \<times> byte list" and d :: int
    by (simp_all add: LONG_MAX_def)
  have 4: "length (unread (strm ?c)) \<le> ?pos (io_kern ?c) (fd (strm ?c))"
    by (simp add: example_io_def static_file_def unread_def)
  from ftell_is_logical_position [where pos = ?pos and K = ?K and bytes = ?bytes
      and src = "\<lambda>k d. drop (?pos k d) ?bytes", OF 1 2 refl 3 4]
  show ?thesis by (simp add: stream_input_def example_io_def static_file_def unread_def)
qed

text \<open>
  On an unbuffered stream \<open>ungetc\<close> reports success but the byte is not the next one read: \<open>fgetc\<close> goes
  to the kernel and returns the byte found there, and the pushed-back byte stays pending, out of order.
\<close>

theorem ungetc_skipped_when_unbuffered:
  assumes "readable_stream (strm c)" and "has (mode (strm c)) MINI_FILE_UNBUFFERED"
    and "\<not> has (state (strm c)) MINI_FILE_WRITE_NEEDS_SYNC"
    and "pushback_offset (strm c) = pushback_length (strm c)" and "v \<noteq> c_EOF"
    and "sys_read K (io_kern c) (fd (strm c)) 1 = (Inr [b], k)"
  shows "\<exists>c1 c2. ungetc v c = (int_of_byte (uchar v), c1) \<and> fgetc K c1 = (int_of_byte b, c2) \<and>
    pushback_offset (strm c2) < pushback_length (strm c2) \<and> pushback_bytes (strm c2) 0 = uchar v"
proof -
  define c1 where "c1 = set_state MINI_FILE_READ_NEEDS_POSITION (clear_state MINI_FILE_EOF
    (on_strm (\<lambda>s. s\<lparr>pushback_bytes := buf_put (pushback_bytes s) 0 [uchar v],
       pushback_offset := 0, pushback_length := 1\<rparr>) c))"
  define c2 where "c2 = set_state MINI_FILE_READ_NEEDS_POSITION (c1\<lparr>io_kern := k\<rparr>)"
  have "pushback_unlocked [uchar v] c = (0, c1)"
    using assms(1,3,4) by (simp add: pushback_unlocked_def c1_def)
  then have "ungetc v c = (int_of_byte (uchar v), c1)"
    using assms(5) by (simp add: ungetc_def c_EOF_def)
  moreover have "read_direct K 1 [] c1 = ([b], c2)"
    using assms(6) by (simp add: read_direct.simps c1_def c2_def io_defs)
  then have "fgetc K c1 = (int_of_byte b, c2)"
    using assms(1-3) by (simp add: fgetc_def stdio_read_def readable_stream_def c1_def io_defs)
  moreover have "pushback_offset (strm c2) < pushback_length (strm c2)" "pushback_bytes (strm c2) 0 = uchar v"
    by (simp_all add: c2_def c1_def io_defs buf_put_def)
  ultimately show ?thesis by blast
qed

theorem ungetc_skipped_when_unbuffered_witness:
  "\<exists>c1 c2. ungetc 65 (example_io (MINI_FILE_READABLE OR MINI_FILE_UNBUFFERED) [7]) = (65, c1) \<and>
     fgetc pipe_kernel c1 = (7, c2)"
  using ungetc_skipped_when_unbuffered [of "example_io (MINI_FILE_READABLE OR MINI_FILE_UNBUFFERED) [7]" 65 pipe_kernel 7]
  by (simp add: example_io_def static_file_def readable_stream_def has_def mode_flags pipe_kernel_def
      c_EOF_def uchar_def) blast

end
