(* ===== verification/Stdio_File.thy ===== *)
theory Stdio_File
  imports Stream
begin

unbundle bit_operations_syntax

section \<open>Opening, closing and the live streams (\<open>stdio/file.c\<close>, \<open>stdio/orientation.c\<close>, the rest of \<open>stdio/stdio.c\<close>)\<close>

text \<open>
  The world of the stdio library: every \<open>FILE\<close> object by its address (0 is the null pointer), the head
  of the list of live streams, \<open>errno\<close>, the kernel, and what was handed to \<open>free\<close>. The operations of
  \<open>Stream\<close> act on one object of it (\<open>on_file\<close>). The allocator and the active locale are arguments: the
  address \<open>malloc\<close> gave (0 if it failed, which sets \<open>errno\<close>), and whether the encoding is UTF-8. A string
  argument is its characters before the NUL, or \<^term>\<open>None\<close> for a null pointer. A walk of the list runs
  for ever if the list is cyclic, so it is a partial function; that it ends is part of what is proved
  from the registry invariant (\<open>registry\<close>).
\<close>

subsection \<open>The world\<close>

datatype release = Free_stream nat | Free_buffer nat | Free_candidate

record 'k world =
  files :: "nat \<Rightarrow> mini_file"
  mini_stream_head :: nat
  errno :: int
  kern :: 'k
  released :: "release list"

definition stdin_ptr :: nat where "stdin_ptr = 1"
definition stdout_ptr :: nat where "stdout_ptr = 2"
definition stderr_ptr :: nat where "stderr_ptr = 3"

text \<open>The three static streams and the list they start on; other addresses hold no stream yet.\<close>

definition initial_files :: "nat \<Rightarrow> mini_file" where
  "initial_files p =
     (if p = stdin_ptr then static_file 0 MINI_FILE_READABLE stdout_ptr
      else if p = stdout_ptr then static_file 1 MINI_FILE_WRITABLE stderr_ptr
      else if p = stderr_ptr then static_file 2 (MINI_FILE_WRITABLE OR MINI_FILE_UNBUFFERED) 0
      else static_file (- 1) 0 0)"

definition initial_world :: "'k \<Rightarrow> 'k world" where
  "initial_world k = \<lparr>files = initial_files, mini_stream_head = stdin_ptr, errno = 0, kern = k, released = []\<rparr>"

text \<open>An operation of \<open>Stream\<close> on the object at an address.\<close>

definition view :: "nat \<Rightarrow> 'k world \<Rightarrow> 'k io" where
  "view p w = \<lparr>strm = files w p, io_errno = errno w, io_kern = kern w\<rparr>"

definition put_back :: "nat \<Rightarrow> 'k io \<Rightarrow> 'k world \<Rightarrow> 'k world" where
  "put_back p c w = w\<lparr>files := (files w)(p := strm c), errno := io_errno c, kern := io_kern c\<rparr>"

definition on_file :: "('k io \<Rightarrow> 'a \<times> 'k io) \<Rightarrow> nat \<Rightarrow> 'k world \<Rightarrow> 'a \<times> 'k world" where
  "on_file f p w = (let (r, c) = f (view p w) in (r, put_back p c w))"

definition on_file_opt :: "('k io \<Rightarrow> ('a \<times> 'k io) option) \<Rightarrow> nat \<Rightarrow> 'k world \<Rightarrow> ('a \<times> 'k world) option" where
  "on_file_opt f p w = map_option (\<lambda>(r, c). (r, put_back p c w)) (f (view p w))"

definition upd_file :: "nat \<Rightarrow> (mini_file \<Rightarrow> mini_file) \<Rightarrow> 'k world \<Rightarrow> 'k world" where
  "upd_file p f w = w\<lparr>files := (files w)(p := f (files w p))\<rparr>"

definition set_errno :: "int \<Rightarrow> 'k world \<Rightarrow> 'k world" where
  "set_errno e w = w\<lparr>errno := e\<rparr>"

definition release_now :: "release \<Rightarrow> 'k world \<Rightarrow> 'k world" where
  "release_now x w = w\<lparr>released := x # released w\<rparr>"

subsection \<open>The list of live streams\<close>

definition stdio_register :: "nat \<Rightarrow> 'k world \<Rightarrow> 'k world" where
  "stdio_register p w =
     (upd_file p (\<lambda>s. s\<lparr>next_stream := mini_stream_head w\<rparr>) w)\<lparr>mini_stream_head := p\<rparr>"

text \<open>\<open>link\<close> is the head (\<^term>\<open>None\<close>) or the \<open>next\<close> field of a stream.\<close>

definition get_link :: "nat option \<Rightarrow> 'k world \<Rightarrow> nat" where
  "get_link l w = (case l of None \<Rightarrow> mini_stream_head w | Some q \<Rightarrow> next_stream (files w q))"

definition set_link :: "nat option \<Rightarrow> nat \<Rightarrow> 'k world \<Rightarrow> 'k world" where
  "set_link l p w = (case l of None \<Rightarrow> w\<lparr>mini_stream_head := p\<rparr>
     | Some q \<Rightarrow> upd_file q (\<lambda>s. s\<lparr>next_stream := p\<rparr>) w)"

partial_function (option) unlink_loop :: "nat \<Rightarrow> nat option \<Rightarrow> 'k world \<Rightarrow> 'k world option" where
  "unlink_loop p link w =
     (let q = get_link link w in
      if q = 0 then Some w
      else if q = p then
        Some (upd_file p (\<lambda>s. s\<lparr>next_stream := 0\<rparr>) (set_link link (next_stream (files w p)) w))
      else unlink_loop p (Some q) w)"

definition stdio_unregister :: "nat \<Rightarrow> 'k world \<Rightarrow> 'k world option" where
  "stdio_unregister p w = unlink_loop p None w"

partial_function (option) flush_all_loop :: "'k sys \<Rightarrow> nat \<Rightarrow> int \<Rightarrow> 'k world \<Rightarrow> (int \<times> 'k world) option" where
  "flush_all_loop K p first_error w =
     (if p = 0 then Some (first_error, w)
      else
        let nxt = next_stream (files w p);
            (first_error, w) =
              (if has (mode (files w p)) MINI_FILE_WRITABLE then
                 let (r, w) = on_file (flush_buffer K) p w
                 in (if r = c_EOF \<and> first_error = 0 then errno w else first_error, w)
               else (first_error, w))
        in flush_all_loop K nxt first_error w)"

definition flush_all :: "'k sys \<Rightarrow> 'k world \<Rightarrow> (int \<times> 'k world) option" where
  "flush_all K w =
     map_option (\<lambda>(first_error, w').
        if first_error \<noteq> 0 then (c_EOF, set_errno first_error w') else (0, set_errno (errno w) w'))
       (flush_all_loop K (mini_stream_head w) 0 w)"

definition fflush_ptr :: "'k sys \<Rightarrow> nat \<Rightarrow> 'k world \<Rightarrow> (int \<times> 'k world) option" where
  "fflush_ptr K p w = (if p = 0 then flush_all K w else Some (on_file (fflush K) p w))"

subsection \<open>Modes\<close>

definition MINI_AT_FDCWD :: int where "MINI_AT_FDCWD = - 100"
definition MINI_O_RDONLY :: u32 where "MINI_O_RDONLY = 0"
definition MINI_O_WRONLY :: u32 where "MINI_O_WRONLY = 1"
definition MINI_O_RDWR :: u32 where "MINI_O_RDWR = 2"
definition MINI_O_CREAT :: u32 where "MINI_O_CREAT = 64"
definition MINI_O_EXCL :: u32 where "MINI_O_EXCL = 128"
definition MINI_O_TRUNC :: u32 where "MINI_O_TRUNC = 512"
definition MINI_O_APPEND :: u32 where "MINI_O_APPEND = 1024"
definition MINI_O_TMPFILE :: u32 where "MINI_O_TMPFILE = 4259840"

lemmas open_flags = MINI_O_RDONLY_def MINI_O_WRONLY_def MINI_O_RDWR_def MINI_O_CREAT_def MINI_O_EXCL_def
  MINI_O_TRUNC_def MINI_O_APPEND_def MINI_O_TMPFILE_def

fun mode_letters :: "string \<Rightarrow> bool \<Rightarrow> bool \<Rightarrow> bool \<Rightarrow> (bool \<times> bool \<times> bool) option" where
  "mode_letters [] update binary exclusive = Some (update, binary, exclusive)"
| "mode_letters (c # cs) update binary exclusive =
     (if c = CHR ''+'' then (if update then None else mode_letters cs True binary exclusive)
      else if c = CHR ''b'' then (if binary then None else mode_letters cs update True exclusive)
      else if c = CHR ''x'' then (if exclusive then None else mode_letters cs update binary True)
      else None)"

text \<open>The flags for \<open>openat\<close> and the stream's mode, or \<^term>\<open>None\<close> for the return value 0.\<close>

definition parse_open_mode :: "string option \<Rightarrow> (u32 \<times> u32) option" where
  "parse_open_mode mstr =
     (case mstr of
        None \<Rightarrow> None
      | Some [] \<Rightarrow> None
      | Some (kind # cs) \<Rightarrow>
          if kind \<noteq> CHR ''r'' \<and> kind \<noteq> CHR ''w'' \<and> kind \<noteq> CHR ''a'' then None
          else (case mode_letters cs False False False of
              None \<Rightarrow> None
            | Some (update, binary, exclusive) \<Rightarrow>
                if exclusive \<and> kind \<noteq> CHR ''w'' then None
                else
                  let (flags, smode) =
                        (if update then (MINI_O_RDWR, MINI_FILE_READABLE OR MINI_FILE_WRITABLE OR MINI_FILE_OWNED)
                         else if kind = CHR ''r'' then (MINI_O_RDONLY, MINI_FILE_READABLE OR MINI_FILE_OWNED)
                         else (MINI_O_WRONLY, MINI_FILE_WRITABLE OR MINI_FILE_OWNED))
                  in if kind = CHR ''w'' then
                       Some ((flags OR (MINI_O_CREAT OR MINI_O_TRUNC)) OR (if exclusive then MINI_O_EXCL else 0), smode)
                     else if kind = CHR ''a'' then
                       Some (flags OR (MINI_O_CREAT OR MINI_O_APPEND), smode OR MINI_FILE_APPEND)
                     else Some (flags, smode)))"

subsection \<open>Opening and closing\<close>

definition initialize_owned_stream :: "nat \<Rightarrow> int \<Rightarrow> u32 \<Rightarrow> 'k world \<Rightarrow> 'k world" where
  "initialize_owned_stream p d m w =
     stdio_register p
       (upd_file p (\<lambda>s. s\<lparr>fd := d, mode := m, state := 0, next_stream := 0, write_length := 0,
          write_buffer := No_buffer, read_offset := 0, read_length := 0, pushback_offset := 0,
          pushback_length := 0, read_buffer := No_buffer, buffer_size := 0\<rparr>) w)"

definition reset_rebound_state :: "mini_file \<Rightarrow> mini_file" where
  "reset_rebound_state s =
     s\<lparr>state := 0, write_length := 0, read_offset := 0, read_length := 0, pushback_offset := 0,
       pushback_length := 0\<rparr>"

definition release_buffer :: "nat \<Rightarrow> 'k world \<Rightarrow> 'k world" where
  "release_buffer p w =
     (if p = 0 then w
      else
        let s = files w p;
            w = (if has (mode s) MINI_FILE_BUFFER_OWNED \<and> write_buffer s \<noteq> No_buffer
                 then release_now (Free_buffer p) w else w)
        in upd_file p (\<lambda>s. s\<lparr>mode := drop_flag MINI_FILE_BUFFER_OWNED (mode s), write_buffer := No_buffer,
             read_buffer := No_buffer, buffer_size := 0\<rparr>) w)"

definition discard_failed_rebind :: "nat \<Rightarrow> u32 \<Rightarrow> 'k world \<Rightarrow> 'k world option" where
  "discard_failed_rebind p owned w =
     (let w = upd_file p reset_rebound_state (release_buffer p w) in
      if owned \<noteq> 0 then map_option (release_now (Free_stream p)) (stdio_unregister p w)
      else Some (upd_file p (\<lambda>s. s\<lparr>fd := - 1, mode := 0\<rparr>) w))"

text \<open>\<open>malloc\<close> as the functions use it: the address it returned, 0 with ENOMEM.\<close>

definition malloc_failed :: "'k world \<Rightarrow> 'k world" where
  "malloc_failed w = set_errno ENOMEM w"

definition fopen :: "'k sys \<Rightarrow> nat \<Rightarrow> byte list option \<Rightarrow> string option \<Rightarrow> 'k world \<Rightarrow> nat \<times> 'k world" where
  "fopen K alloc filename mstr w =
     (case (filename, parse_open_mode mstr) of
        (Some path, Some (flags, smode)) \<Rightarrow>
          if alloc = 0 then (0, malloc_failed w)
          else
            let (result, k) = sys_openat K (kern w) MINI_AT_FDCWD path flags 0x1b6; w = w\<lparr>kern := k\<rparr>
            in if result < 0 then (0, set_errno (- result) (release_now (Free_stream alloc) w))
               else (alloc, initialize_owned_stream alloc result smode w)
      | _ \<Rightarrow> (0, set_errno EINVAL w))"

definition tmpfile :: "'k sys \<Rightarrow> nat \<Rightarrow> 'k world \<Rightarrow> nat \<times> 'k world" where
  "tmpfile K alloc w =
     (if alloc = 0 then (0, malloc_failed w)
      else
        let (result, k) = sys_openat K (kern w) MINI_AT_FDCWD (bytes_of ''/tmp'') (MINI_O_RDWR OR MINI_O_TMPFILE) 0x180;
            w = w\<lparr>kern := k\<rparr>
        in if result < 0 then (0, set_errno (- result) (release_now (Free_stream alloc) w))
           else (alloc, initialize_owned_stream alloc result
                   (MINI_FILE_READABLE OR MINI_FILE_WRITABLE OR MINI_FILE_OWNED) w))"

definition invalid_file :: "mini_file \<Rightarrow> bool" where
  "invalid_file s = (mode s AND (MINI_FILE_READABLE OR MINI_FILE_WRITABLE) = 0)"

text \<open>Flushing and closing the old association, as \<open>fclose\<close> and \<open>freopen\<close> do it: the first error.\<close>

definition flush_and_close :: "'k sys \<Rightarrow> nat \<Rightarrow> 'k world \<Rightarrow> int \<times> 'k world" where
  "flush_and_close K p w =
     (let (first_error, w) =
            (if has (mode (files w p)) MINI_FILE_WRITABLE then
               let (r, w) = on_file (flush_buffer K) p w in (if r = c_EOF then errno w else 0, w)
             else (0, w));
          (result, k) = sys_close K (kern w) (fd (files w p));
          w = w\<lparr>kern := k\<rparr>
      in (if result < 0 \<and> first_error = 0 then - result else first_error, w))"

definition freopen :: "'k sys \<Rightarrow> byte list option \<Rightarrow> string option \<Rightarrow> nat \<Rightarrow> 'k world \<Rightarrow> (nat \<times> 'k world) option" where
  "freopen K filename mstr p w =
     (case (filename, parse_open_mode mstr) of
        (Some path, Some (flags, parsed_mode)) \<Rightarrow>
          if p = 0 \<or> invalid_file (files w p) then Some (0, set_errno EINVAL w)
          else
            let ownership = mode (files w p) AND MINI_FILE_OWNED;
                buffer_policy = mode (files w p) AND
                  (MINI_FILE_UNBUFFERED OR MINI_FILE_LINE_BUFFERED OR MINI_FILE_BUFFER_OWNED);
                saved_errno = errno w;
                (first_error, w) = flush_and_close K p w
            in if first_error \<noteq> 0 then
                 map_option (\<lambda>w. (0, set_errno first_error w)) (discard_failed_rebind p ownership w)
               else
                 let (result, k) = sys_openat K (kern w) MINI_AT_FDCWD path flags 0x1b6; w = w\<lparr>kern := k\<rparr>
                 in if result < 0 then
                      map_option (\<lambda>w. (0, set_errno (- result) w)) (discard_failed_rebind p ownership w)
                    else
                      Some (p, set_errno saved_errno
                        (upd_file p (\<lambda>s. reset_rebound_state
                           (s\<lparr>fd := result, mode := drop_flag MINI_FILE_OWNED parsed_mode OR ownership OR buffer_policy\<rparr>))
                          w))
      | _ \<Rightarrow> Some (0, set_errno EINVAL w))"

definition fclose :: "'k sys \<Rightarrow> nat \<Rightarrow> 'k world \<Rightarrow> (int \<times> 'k world) option" where
  "fclose K p w =
     (if p = 0 then Some (c_EOF, set_errno EINVAL w)
      else if invalid_file (files w p) then
        Some (c_EOF, set_errno EINVAL (upd_file p (\<lambda>s. s\<lparr>state := raise_flag MINI_FILE_ERROR (state s)\<rparr>) w))
      else
        let owned = mode (files w p) AND MINI_FILE_OWNED;
            (first_error, w) = flush_and_close K p w
        in map_option (\<lambda>w.
             let w = release_buffer p w;
                 w = (if owned \<noteq> 0 then release_now (Free_stream p) w
                      else upd_file p (\<lambda>s. s\<lparr>fd := - 1, mode := 0, state := 0, next_stream := 0,
                             write_length := 0, read_offset := 0, read_length := 0,
                             pushback_offset := 0, pushback_length := 0\<rparr>) w)
             in if first_error \<noteq> 0 then (c_EOF, set_errno first_error w) else (0, w))
             (stdio_unregister p w))"

subsection \<open>Buffers\<close>

definition IOFBF :: int where "IOFBF = 0"
definition IOLBF :: int where "IOLBF = 1"
definition IONBF :: int where "IONBF = 2"
definition BUFSIZ :: nat where "BUFSIZ = 256"

text \<open>\<open>buf\<close> is the caller's buffer (its present bytes), \<open>alloc\<close> the one \<open>malloc\<close> gave or \<^term>\<open>None\<close>.\<close>

definition setvbuf ::
  "'k sys \<Rightarrow> nat \<Rightarrow> (nat \<Rightarrow> byte) option \<Rightarrow> (nat \<Rightarrow> byte) option \<Rightarrow> int \<Rightarrow> nat \<Rightarrow> 'k world \<Rightarrow> int \<times> 'k world" where
  "setvbuf K p buf alloc md sz w =
     (if p = 0 \<or> invalid_file (files w p) \<or> (md \<noteq> IOFBF \<and> md \<noteq> IOLBF \<and> md \<noteq> IONBF) \<or>
         (md \<noteq> IONBF \<and> sz = 0)
      then (c_EOF, set_errno EINVAL w)
      else if md \<noteq> IONBF \<and> buf = None \<and> alloc = None then (c_EOF, malloc_failed w)
      else
        let saved_errno = errno w;
            new_owned = md \<noteq> IONBF \<and> buf = None;
            give_up = (\<lambda>w. (c_EOF, if new_owned then release_now Free_candidate w else w));
            (flushed, w) = (if has (mode (files w p)) MINI_FILE_WRITABLE then on_file (fflush K) p w else (0, w))
        in if flushed = c_EOF then give_up w
           else
             let s = files w p;
                 (seeked, w) =
                   (if has (mode s) MINI_FILE_READABLE \<and>
                       (has (state s) MINI_FILE_READ_NEEDS_POSITION \<or> read_offset s \<noteq> read_length s \<or>
                        pushback_offset s < pushback_length s)
                    then on_file (fseek K 0 SEEK_CUR) p w else (0, w))
             in if seeked \<noteq> 0 then give_up w
                else
                  let w = release_buffer p w;
                      flag = (if md = IONBF then MINI_FILE_UNBUFFERED
                              else if md = IOLBF then MINI_FILE_LINE_BUFFERED else 0);
                      own = (if new_owned then MINI_FILE_BUFFER_OWNED else 0);
                      w = upd_file p (\<lambda>s. s\<lparr>mode := drop_flag (MINI_FILE_UNBUFFERED OR MINI_FILE_LINE_BUFFERED) (mode s)
                              OR flag OR own\<rparr>) w;
                      w = (if md \<noteq> IONBF then
                             upd_file p (\<lambda>s. s\<lparr>write_buffer := User_buffer, read_buffer := User_buffer, buffer_size := sz,
                               buffers := (buffers s)(User_buffer :=
                                 the (if buf = None then alloc else buf))\<rparr>) w
                           else w)
                  in (0, set_errno saved_errno
                        (upd_file p (\<lambda>s. s\<lparr>write_length := 0, read_offset := 0, read_length := 0,
                           pushback_offset := 0, pushback_length := 0\<rparr>) w)))"

definition setbuf :: "'k sys \<Rightarrow> nat \<Rightarrow> (nat \<Rightarrow> byte) option \<Rightarrow> 'k world \<Rightarrow> 'k world" where
  "setbuf K p buf w =
     (case buf of None \<Rightarrow> snd (setvbuf K p None None IONBF 0 w)
      | Some b \<Rightarrow> snd (setvbuf K p (Some b) None IOFBF BUFSIZ w))"

subsection \<open>Orientation\<close>

definition bind_wide_encoding :: "bool \<Rightarrow> mini_file \<Rightarrow> mini_file" where
  "bind_wide_encoding utf8 s =
     (if utf8 then s\<lparr>state := raise_flag MINI_FILE_WIDE_UTF8 (state s)\<rparr>
      else s\<lparr>state := drop_flag MINI_FILE_WIDE_UTF8 (state s)\<rparr>)"

definition orientation_value :: "mini_file \<Rightarrow> int" where
  "orientation_value s =
     (let orientation = state s AND MINI_FILE_ORIENTATION_MASK in
      if orientation = MINI_FILE_WIDE_ORIENTED then 1
      else if orientation = MINI_FILE_BYTE_ORIENTED then - 1 else 0)"

definition fwide :: "bool \<Rightarrow> nat \<Rightarrow> int \<Rightarrow> 'k world \<Rightarrow> int \<times> 'k world" where
  "fwide utf8 p md w =
     (if p = 0 \<or> invalid_file (files w p) then (0, set_errno EINVAL w)
      else
        let current = orientation_value (files w p) in
        if current = 0 \<and> md \<noteq> 0 then
          if 0 < md then
            (1, upd_file p (\<lambda>s. bind_wide_encoding utf8
                  (s\<lparr>state := raise_flag MINI_FILE_WIDE_ORIENTED (state s)\<rparr>)) w)
          else (- 1, upd_file p (\<lambda>s. s\<lparr>state := raise_flag MINI_FILE_BYTE_ORIENTED (state s)\<rparr>) w)
        else (current, w))"

definition require_orientation :: "bool \<Rightarrow> nat \<Rightarrow> u32 \<Rightarrow> 'k world \<Rightarrow> int \<times> 'k world" where
  "require_orientation utf8 p wanted w =
     (let raise = upd_file p (\<lambda>s. s\<lparr>state := raise_flag MINI_FILE_ERROR (state s)\<rparr>) in
      if p = 0 then (c_EOF, set_errno EINVAL w)
      else if invalid_file (files w p) then (c_EOF, set_errno EINVAL (raise w))
      else
        let current = state (files w p) AND MINI_FILE_ORIENTATION_MASK in
        if current = 0 then
          (0, upd_file p (\<lambda>s.
                let s = s\<lparr>state := raise_flag wanted (state s)\<rparr>
                in if wanted = MINI_FILE_WIDE_ORIENTED then bind_wide_encoding utf8 s else s) w)
        else if current \<noteq> wanted then (c_EOF, set_errno EINVAL (raise w))
        else (0, w))"

definition require_byte :: "bool \<Rightarrow> nat \<Rightarrow> 'k world \<Rightarrow> int \<times> 'k world" where
  "require_byte utf8 p w = require_orientation utf8 p MINI_FILE_BYTE_ORIENTED w"

definition require_wide :: "bool \<Rightarrow> nat \<Rightarrow> 'k world \<Rightarrow> int \<times> 'k world" where
  "require_wide utf8 p w = require_orientation utf8 p MINI_FILE_WIDE_ORIENTED w"

subsection \<open>The public byte and block functions (\<open>byte_sync.c\<close>, \<open>block_sync.c\<close>, \<open>position_sync.c\<close>)\<close>

text \<open>Each takes the lock, asks for byte orientation and calls the unlocked operation.\<close>

definition with_byte :: "bool \<Rightarrow> nat \<Rightarrow> 'a \<Rightarrow> ('k io \<Rightarrow> 'a \<times> 'k io) \<Rightarrow> 'k world \<Rightarrow> 'a \<times> 'k world" where
  "with_byte utf8 p failed f w =
     (let (r, w) = require_byte utf8 p w in if r = c_EOF then (failed, w) else on_file f p w)"

definition with_byte_opt ::
  "bool \<Rightarrow> nat \<Rightarrow> 'a \<Rightarrow> ('k io \<Rightarrow> ('a \<times> 'k io) option) \<Rightarrow> 'k world \<Rightarrow> ('a \<times> 'k world) option" where
  "with_byte_opt utf8 p failed f w =
     (let (r, w) = require_byte utf8 p w in if r = c_EOF then Some (failed, w) else on_file_opt f p w)"

definition pub_fgetc :: "bool \<Rightarrow> 'k sys \<Rightarrow> nat \<Rightarrow> 'k world \<Rightarrow> int \<times> 'k world" where
  "pub_fgetc u K p = with_byte u p c_EOF (fgetc K)"
definition pub_getc :: "bool \<Rightarrow> 'k sys \<Rightarrow> nat \<Rightarrow> 'k world \<Rightarrow> int \<times> 'k world" where
  "pub_getc u K p = with_byte u p c_EOF (fgetc K)"
definition pub_getchar :: "bool \<Rightarrow> 'k sys \<Rightarrow> 'k world \<Rightarrow> int \<times> 'k world" where
  "pub_getchar u K = with_byte u stdin_ptr c_EOF (fgetc K)"
definition pub_fgets :: "bool \<Rightarrow> 'k sys \<Rightarrow> mem \<Rightarrow> addr \<Rightarrow> int \<Rightarrow> nat \<Rightarrow> 'k world \<Rightarrow> (addr \<times> mem) \<times> 'k world" where
  "pub_fgets u K m s n p = with_byte u p (null_ptr, m) (fgets K m s n)"
definition pub_ungetc :: "bool \<Rightarrow> int \<Rightarrow> nat \<Rightarrow> 'k world \<Rightarrow> int \<times> 'k world" where
  "pub_ungetc u v p = with_byte u p c_EOF (ungetc v)"
definition pub_fputc :: "bool \<Rightarrow> 'k sys \<Rightarrow> int \<Rightarrow> nat \<Rightarrow> 'k world \<Rightarrow> (int \<times> 'k world) option" where
  "pub_fputc u K v p = with_byte_opt u p c_EOF (fputc K v)"
definition pub_putc :: "bool \<Rightarrow> 'k sys \<Rightarrow> int \<Rightarrow> nat \<Rightarrow> 'k world \<Rightarrow> (int \<times> 'k world) option" where
  "pub_putc u K v p = with_byte_opt u p c_EOF (fputc K v)"
definition pub_putchar :: "bool \<Rightarrow> 'k sys \<Rightarrow> int \<Rightarrow> 'k world \<Rightarrow> (int \<times> 'k world) option" where
  "pub_putchar u K v = with_byte_opt u stdout_ptr c_EOF (fputc K v)"
definition pub_fputs :: "bool \<Rightarrow> 'k sys \<Rightarrow> mem \<Rightarrow> addr \<Rightarrow> nat \<Rightarrow> 'k world \<Rightarrow> (int \<times> 'k world) option" where
  "pub_fputs u K m s p = with_byte_opt u p c_EOF (fputs K m s)"
definition pub_puts :: "bool \<Rightarrow> 'k sys \<Rightarrow> mem \<Rightarrow> addr \<Rightarrow> 'k world \<Rightarrow> (int \<times> 'k world) option" where
  "pub_puts u K m s = with_byte_opt u stdout_ptr c_EOF (puts K m s)"
definition pub_fread :: "bool \<Rightarrow> 'k sys \<Rightarrow> nat \<Rightarrow> nat \<Rightarrow> nat \<Rightarrow> 'k world \<Rightarrow> (nat \<times> byte list) \<times> 'k world" where
  "pub_fread u K sz n p = with_byte u p (0, []) (fread K sz n)"
definition pub_fwrite :: "bool \<Rightarrow> 'k sys \<Rightarrow> byte list \<Rightarrow> nat \<Rightarrow> nat \<Rightarrow> nat \<Rightarrow> 'k world \<Rightarrow> (nat \<times> 'k world) option" where
  "pub_fwrite u K bs sz n p = with_byte_opt u p 0 (fwrite K bs sz n)"

definition pub_fseek :: "'k sys \<Rightarrow> nat \<Rightarrow> int \<Rightarrow> int \<Rightarrow> 'k world \<Rightarrow> int \<times> 'k world" where
  "pub_fseek K p offset whence w =
     (if p = 0 then (- 1, set_errno EINVAL w) else on_file (fseek K offset whence) p w)"
definition pub_ftell :: "'k sys \<Rightarrow> nat \<Rightarrow> 'k world \<Rightarrow> int \<times> 'k world" where
  "pub_ftell K p w = (if p = 0 then (- 1, set_errno EINVAL w) else on_file (ftell K) p w)"
definition pub_rewind :: "'k sys \<Rightarrow> nat \<Rightarrow> 'k world \<Rightarrow> 'k world" where
  "pub_rewind K p w =
     (if p = 0 then set_errno EINVAL w else snd (on_file (\<lambda>c. ((), rewind K c)) p w))"
definition pub_feof :: "nat \<Rightarrow> 'k world \<Rightarrow> bool" where
  "pub_feof p w = (p \<noteq> 0 \<and> has (state (files w p)) MINI_FILE_EOF)"
definition pub_ferror :: "nat \<Rightarrow> 'k world \<Rightarrow> bool" where
  "pub_ferror p w = (p \<noteq> 0 \<and> has (state (files w p)) MINI_FILE_ERROR)"
definition pub_clearerr :: "nat \<Rightarrow> 'k world \<Rightarrow> 'k world" where
  "pub_clearerr p w =
     (if p = 0 then w
      else upd_file p (\<lambda>s. s\<lparr>state := drop_flag (MINI_FILE_EOF OR MINI_FILE_ERROR) (state s)\<rparr>) w)"


subsection \<open>Open modes\<close>

lemma mode_letters_eq:
  "mode_letters cs u b x =
     (if distinct cs \<and> set cs \<subseteq> {CHR ''+'', CHR ''b'', CHR ''x''} \<and> \<not> (u \<and> CHR ''+'' \<in> set cs) \<and>
         \<not> (b \<and> CHR ''b'' \<in> set cs) \<and> \<not> (x \<and> CHR ''x'' \<in> set cs)
      then Some (u \<or> CHR ''+'' \<in> set cs, b \<or> CHR ''b'' \<in> set cs, x \<or> CHR ''x'' \<in> set cs) else None)"
proof (induction cs arbitrary: u b x)
  case (Cons c cs)
  consider "c = CHR ''+''" | "c = CHR ''b''" | "c = CHR ''x''" | "c \<noteq> CHR ''+''" "c \<noteq> CHR ''b''" "c \<noteq> CHR ''x''" by blast
  then show ?case
  proof cases
    case 1
    then show ?thesis by (cases u; cases "CHR ''+'' \<in> set cs"; simp add: Cons.IH)
  next
    case 2
    then show ?thesis by (cases b; cases "CHR ''b'' \<in> set cs"; simp add: Cons.IH)
  next
    case 3
    then show ?thesis by (cases x; cases "CHR ''x'' \<in> set cs"; simp add: Cons.IH)
  qed simp
qed simp

lemma parse_open_mode_accepts_eq:
  "parse_open_mode (Some s) =
    (if s \<noteq> [] \<and> hd s \<in> {CHR ''r'', CHR ''w'', CHR ''a''} \<and> distinct (tl s) \<and>
        set (tl s) \<subseteq> {CHR ''+'', CHR ''b'', CHR ''x''} \<and> (CHR ''x'' \<in> set (tl s) \<longrightarrow> hd s = CHR ''w'')
     then Some
       ((if CHR ''+'' \<in> set (tl s) then MINI_O_RDWR else if hd s = CHR ''r'' then MINI_O_RDONLY else MINI_O_WRONLY) OR
        (if hd s = CHR ''w'' then MINI_O_CREAT OR MINI_O_TRUNC
         else if hd s = CHR ''a'' then MINI_O_CREAT OR MINI_O_APPEND else 0) OR
        (if CHR ''x'' \<in> set (tl s) then MINI_O_EXCL else 0),
        (if CHR ''+'' \<in> set (tl s) \<or> hd s = CHR ''r'' then MINI_FILE_READABLE else 0) OR
        (if CHR ''+'' \<in> set (tl s) \<or> hd s \<noteq> CHR ''r'' then MINI_FILE_WRITABLE else 0) OR MINI_FILE_OWNED OR
        (if hd s = CHR ''a'' then MINI_FILE_APPEND else 0))
     else None)"
proof (cases s)
  case Nil
  then show ?thesis by (simp add: parse_open_mode_def)
next
  case (Cons k cs)
  define ok where "ok = (distinct cs \<and> set cs \<subseteq> {CHR ''+'', CHR ''b'', CHR ''x''})"
  have letters: "mode_letters cs False False False =
      (if ok then Some (CHR ''+'' \<in> set cs, CHR ''b'' \<in> set cs, CHR ''x'' \<in> set cs) else None)"
    by (simp add: mode_letters_eq ok_def)
  have guard: "(s \<noteq> [] \<and> hd s \<in> {CHR ''r'', CHR ''w'', CHR ''a''} \<and> distinct (tl s) \<and>
        set (tl s) \<subseteq> {CHR ''+'', CHR ''b'', CHR ''x''} \<and> (CHR ''x'' \<in> set (tl s) \<longrightarrow> hd s = CHR ''w'')) =
      (k \<in> {CHR ''r'', CHR ''w'', CHR ''a''} \<and> ok \<and> (CHR ''x'' \<in> set cs \<longrightarrow> k = CHR ''w''))"
    by (simp add: Cons ok_def)
  show ?thesis
  proof (cases "k \<in> {CHR ''r'', CHR ''w'', CHR ''a''} \<and> ok")
    case False
    then show ?thesis unfolding guard by (auto simp: Cons parse_open_mode_def letters)
  next
    case True
    then consider (r) "k = CHR ''r''" | (w) "k = CHR ''w''" | (a) "k = CHR ''a''" by blast
    then show ?thesis
    proof cases
      case r
      then show ?thesis using True unfolding guard
        by (cases "CHR ''+'' \<in> set cs"; cases "CHR ''x'' \<in> set cs"; simp add: Cons parse_open_mode_def letters)
    next
      case w
      then show ?thesis using True unfolding guard
        by (cases "CHR ''+'' \<in> set cs"; cases "CHR ''x'' \<in> set cs"; simp add: Cons parse_open_mode_def letters or.assoc)
    next
      case a
      then show ?thesis using True unfolding guard
        by (cases "CHR ''+'' \<in> set cs"; cases "CHR ''x'' \<in> set cs"; simp add: Cons parse_open_mode_def letters or.assoc)
    qed
  qed
qed

text \<open>The mode strings \<open>fopen\<close> and \<open>freopen\<close> accept are exactly \<open>r\<close>, \<open>w\<close> or \<open>a\<close> followed by \<open>+\<close>, \<open>b\<close> and
  \<open>x\<close>, each at most once and in any order, \<open>x\<close> only with \<open>w\<close>; and each is given the access, creation and
  truncation flags and the stream mode of the standard.\<close>

theorem parse_open_mode_accepts:
  "parse_open_mode (Some s) =
    (if s \<noteq> [] \<and> hd s \<in> {CHR ''r'', CHR ''w'', CHR ''a''} \<and> distinct (tl s) \<and>
        set (tl s) \<subseteq> {CHR ''+'', CHR ''b'', CHR ''x''} \<and> (CHR ''x'' \<in> set (tl s) \<longrightarrow> hd s = CHR ''w'')
     then Some
       ((if CHR ''+'' \<in> set (tl s) then MINI_O_RDWR else if hd s = CHR ''r'' then MINI_O_RDONLY else MINI_O_WRONLY) OR
        (if hd s = CHR ''w'' then MINI_O_CREAT OR MINI_O_TRUNC
         else if hd s = CHR ''a'' then MINI_O_CREAT OR MINI_O_APPEND else 0) OR
        (if CHR ''x'' \<in> set (tl s) then MINI_O_EXCL else 0),
        (if CHR ''+'' \<in> set (tl s) \<or> hd s = CHR ''r'' then MINI_FILE_READABLE else 0) OR
        (if CHR ''+'' \<in> set (tl s) \<or> hd s \<noteq> CHR ''r'' then MINI_FILE_WRITABLE else 0) OR MINI_FILE_OWNED OR
        (if hd s = CHR ''a'' then MINI_FILE_APPEND else 0))
     else None)"
  by (rule parse_open_mode_accepts_eq)

lemma parse_open_mode_accepts_witness:
  "parse_open_mode (Some ''wx+'') =
     Some (MINI_O_RDWR OR (MINI_O_CREAT OR MINI_O_TRUNC) OR MINI_O_EXCL,
           MINI_FILE_READABLE OR MINI_FILE_WRITABLE OR MINI_FILE_OWNED)
   \<and> parse_open_mode (Some ''rx'') = None"
  using parse_open_mode_accepts [of "''wx+''"] parse_open_mode_accepts [of "''rx''"] by (simp add: or.assoc)

subsection \<open>The registry\<close>

fun chain :: "(nat \<Rightarrow> mini_file) \<Rightarrow> nat \<Rightarrow> nat list \<Rightarrow> bool" where
  "chain f p [] = (p = 0)"
| "chain f p (q # qs) = (p = q \<and> q \<noteq> 0 \<and> chain f (next_stream (f q)) qs)"

definition registry :: "'k world \<Rightarrow> nat list \<Rightarrow> bool" where
  "registry w ps = (chain (files w) (mini_stream_head w) ps \<and> distinct ps)"

lemma chain_cong:
  "(\<And>q. q \<in> set ps \<Longrightarrow> next_stream (f q) = next_stream (g q)) \<Longrightarrow> chain f p ps = chain g p ps"
  by (induction ps arbitrary: p) auto

lemma registry_cong:
  "(\<And>q. q \<in> set ps \<Longrightarrow> next_stream (files w q) = next_stream (files w' q)) \<Longrightarrow>
   mini_stream_head w = mini_stream_head w' \<Longrightarrow> registry w ps = registry w' ps"
  by (simp add: registry_def chain_cong [of ps "files w" "files w'"])

lemma chain_not_null: "chain f p ps \<Longrightarrow> 0 \<notin> set ps"
  by (induction ps arbitrary: p) auto

lemma registry_not_null: "registry w ps \<Longrightarrow> 0 \<notin> set ps"
  by (auto simp: registry_def dest: chain_not_null)

lemma register_registry:
  assumes "registry w ps" "p \<noteq> 0" "p \<notin> set ps"
  shows "registry (stdio_register p w) (p # ps)"
proof -
  have "chain ((files w)(p := (files w p)\<lparr>next_stream := mini_stream_head w\<rparr>)) (mini_stream_head w) ps"
    using assms by (subst chain_cong [of ps _ "files w"]) (auto simp: registry_def)
  then show ?thesis using assms by (simp add: registry_def stdio_register_def upd_file_def)
qed

text \<open>Unlinking ends, takes out exactly the stream, and touches nothing but links.\<close>

definition same_but_links :: "'k world \<Rightarrow> 'k world \<Rightarrow> bool" where
  "same_but_links w w' =
     (errno w' = errno w \<and> kern w' = kern w \<and> released w' = released w \<and>
      (\<forall>q. \<exists>n. files w' q = (files w q)\<lparr>next_stream := n\<rparr>))"

lemma relink_self [simp]: "\<exists>n. s = s\<lparr>next_stream := n\<rparr>"
  by (rule exI [of _ "next_stream s"]) simp

lemma unlink_loop_spec:
  "chain (files w) (get_link l w) ps \<Longrightarrow> distinct ps \<Longrightarrow> (\<forall>q. l = Some q \<longrightarrow> q \<notin> set ps) \<Longrightarrow>
   \<exists>w'. unlink_loop p l w = Some w' \<and> chain (files w') (get_link l w') (remove1 p ps) \<and> same_but_links w w' \<and>
     (l \<noteq> None \<longrightarrow> mini_stream_head w' = mini_stream_head w) \<and>
     (\<forall>q. q \<notin> set ps \<longrightarrow> l \<noteq> Some q \<longrightarrow> files w' q = files w q)"
proof (induction ps arbitrary: l)
  case Nil
  then show ?case
    by (subst unlink_loop.simps) (auto simp: same_but_links_def)
next
  case (Cons q ps)
  have q: "get_link l w = q" "q \<noteq> 0" "chain (files w) (next_stream (files w q)) ps"
    using Cons.prems(1) by auto
  show ?case
  proof (cases "q = p")
    case True
    let ?w = "upd_file p (\<lambda>s. s\<lparr>next_stream := 0\<rparr>) (set_link l (next_stream (files w p)) w)"
    have lp: "l \<noteq> Some p" using Cons.prems(3) True by auto
    have "unlink_loop p l w = Some ?w" using q True by (subst unlink_loop.simps) (simp add: Let_def)
    moreover have "get_link l ?w = next_stream (files w p)"
      using lp by (auto simp: get_link_def set_link_def upd_file_def split: option.split)
    moreover have "chain (files ?w) (next_stream (files w p)) ps"
      using q(3) True Cons.prems(2,3)
      by (subst chain_cong [of ps _ "files w"]) (auto simp: set_link_def upd_file_def split: option.split)
    moreover have "same_but_links w ?w"
      by (auto simp: same_but_links_def set_link_def upd_file_def split: option.split)
    moreover have "l \<noteq> None \<longrightarrow> mini_stream_head ?w = mini_stream_head w"
      "\<forall>r. r \<notin> set (q # ps) \<longrightarrow> l \<noteq> Some r \<longrightarrow> files ?w r = files w r"
      using True by (auto simp: set_link_def upd_file_def split: option.split)
    moreover have "remove1 p (q # ps) = ps" using True by simp
    ultimately show ?thesis by (intro exI [of _ ?w]) simp
  next
    case False
    have "chain (files w) (get_link (Some q) w) ps" using q by (simp add: get_link_def)
    from Cons.IH [OF this] Cons.prems(2) obtain w' where w': "unlink_loop p (Some q) w = Some w'"
      "chain (files w') (get_link (Some q) w') (remove1 p ps)" "same_but_links w w'"
      "mini_stream_head w' = mini_stream_head w" "\<forall>r. r \<notin> set ps \<longrightarrow> Some q \<noteq> Some r \<longrightarrow> files w' r = files w r"
      by auto
    have "unlink_loop p l w = Some w'" using q False w'(1) by (subst unlink_loop.simps) (simp add: Let_def)
    moreover have "get_link l w' = q"
      using w'(4,5) q(1) Cons.prems(3) by (auto simp: get_link_def split: option.splits)
    ultimately show ?thesis using w' q False Cons.prems(2)
      by (intro exI [of _ w']) (auto simp: get_link_def)
  qed
qed

lemma unregister_registry:
  assumes "registry w ps"
  obtains w' where "stdio_unregister p w = Some w'" "registry w' (remove1 p ps)" "same_but_links w w'"
    "\<And>q. q \<notin> set ps \<Longrightarrow> files w' q = files w q"
  using unlink_loop_spec [of w None ps p] assms
  by (auto simp: registry_def stdio_unregister_def get_link_def)

subsection \<open>Flushing every stream\<close>

text \<open>What flushing leaves alone: the link, and the output of other descriptors.\<close>

definition writes_apart :: "'k sys \<Rightarrow> ('k \<Rightarrow> int \<Rightarrow> byte list) \<Rightarrow> bool" where
  "writes_apart K out = (\<forall>k f bs g. g \<noteq> f \<longrightarrow> out (snd (sys_write K k f bs)) g = out k g)"

lemma flush_loop_frame:
  "flush_loop K len n c = (r, c') \<Longrightarrow>
   next_stream (strm c') = next_stream (strm c) \<and> fd (strm c') = fd (strm c) \<and> mode (strm c') = mode (strm c) \<and>
   (writes_apart K out \<longrightarrow> g \<noteq> fd (strm c) \<longrightarrow> out (io_kern c') g = out (io_kern c) g) \<and>
   (r = c_EOF \<longrightarrow> io_errno c' \<noteq> 0)"
proof (induction K len n c rule: flush_loop.induct)
  case (1 K len n c)
  let ?s = "strm c"
  obtain w k where sys: "sys_write K (io_kern c) (fd ?s) (buf_get (buffers ?s (write_buffer ?s)) n (len - n)) = (w, k)"
    by fastforce
  have out: "writes_apart K out \<longrightarrow> g \<noteq> fd ?s \<longrightarrow> out k g = out (io_kern c) g"
    using sys unfolding writes_apart_def by (metis snd_conv)
  consider "\<not> n < len" | "n < len" "w < 0 \<or> w = 0 \<or> int (len - n) < w"
    | "n < len" "\<not> (w < 0 \<or> w = 0 \<or> int (len - n) < w)" by blast
  then show ?case
  proof cases
    case 1
    then show ?thesis using "1.prems" by (auto simp: flush_loop.simps on_strm_def c_EOF_def)
  next
    case 2
    then show ?thesis using "1.prems" sys out
      by (subst (asm) flush_loop.simps) (auto simp: Let_def io_defs EIO_def)
  next
    case 3
    then have "flush_loop K len (n + nat w) (c\<lparr>io_kern := k\<rparr>) = (r, c')"
      using "1.prems" sys by (subst (asm) flush_loop.simps) (simp add: Let_def)
    then show ?thesis
      using "1.IH" [OF 3(1) refl refl refl refl sys [symmetric] refl] 3(2) out by auto
  qed
qed

lemma flush_buffer_frame:
  assumes "flush_buffer K c = (r, c')"
  shows "next_stream (strm c') = next_stream (strm c)"
    "writes_apart K out \<Longrightarrow> g \<noteq> fd (strm c) \<Longrightarrow> out (io_kern c') g = out (io_kern c) g"
    "r = c_EOF \<Longrightarrow> io_errno c' \<noteq> 0"
    "fd (strm c') = fd (strm c)" "mode (strm c') = mode (strm c)"
proof -
  have es: "next_stream (ensure_storage s) = next_stream s" "fd (ensure_storage s) = fd s"
    "mode (ensure_storage s) = mode s" for s
    by (simp_all add: ensure_storage_def Let_def)
  have "next_stream (strm c') = next_stream (strm c) \<and> fd (strm c') = fd (strm c) \<and> mode (strm c') = mode (strm c) \<and>
     (writes_apart K out \<longrightarrow> g \<noteq> fd (strm c) \<longrightarrow> out (io_kern c') g = out (io_kern c) g) \<and>
     (r = c_EOF \<longrightarrow> io_errno c' \<noteq> 0)"
    using assms flush_loop_frame [of K "write_length (strm c)" 0 "on_strm ensure_storage c" r c' out g]
    by (auto simp: flush_buffer_def io_defs es EINVAL_def c_EOF_def split: if_splits)
  then show "next_stream (strm c') = next_stream (strm c)"
    "writes_apart K out \<Longrightarrow> g \<noteq> fd (strm c) \<Longrightarrow> out (io_kern c') g = out (io_kern c) g"
    "r = c_EOF \<Longrightarrow> io_errno c' \<noteq> 0" "fd (strm c') = fd (strm c)" "mode (strm c') = mode (strm c)"
    by blast+
qed

definition writable :: "mini_file \<Rightarrow> bool" where
  "writable s = has (mode s) MINI_FILE_WRITABLE"

text \<open>What one stream of the list looks like after the sweep.\<close>

definition swept :: "mini_file \<Rightarrow> mini_file \<Rightarrow> bool" where
  "swept s s' =
     (stream_ok s' \<and> fd s' = fd s \<and> mode s' = mode s \<and> next_stream s' = next_stream s \<and> unread s' = unread s \<and>
      (if writable s then pending s' = [] \<and> state s' = state s \<or> pending s' \<noteq> [] \<and> has (state s') MINI_FILE_ERROR
       else s' = s))"

lemma flush_one:
  assumes law: "writes_to K out" and ok: "stream_ok (files w p)" and wr: "writable (files w p)"
    and E: "on_file (flush_buffer K) p w = (r, w')"
  shows "swept (files w p) (files w' p)" "\<And>q. q \<noteq> p \<Longrightarrow> files w' q = files w q"
    "mini_stream_head w' = mini_stream_head w" "released w' = released w"
    "r = 0 \<and> errno w' = errno w \<and> pending (files w' p) = [] \<or>
     r = c_EOF \<and> errno w' \<noteq> 0 \<and> pending (files w' p) \<noteq> []"
    "out (kern w') (fd (files w p)) @ pending (files w' p) = out (kern w) (fd (files w p)) @ pending (files w p)"
    "writes_apart K out \<Longrightarrow> g \<noteq> fd (files w p) \<Longrightarrow> out (kern w') g = out (kern w) g"
proof -
  obtain c' where f: "flush_buffer K (view p w) = (r, c')" and w': "w' = put_back p c' w"
    using E by (auto simp: on_file_def split: prod.splits)
  have okv: "stream_ok (strm (view p w))" and wrv: "has (mode (strm (view p w))) MINI_FILE_WRITABLE"
    using ok wr by (simp_all add: view_def writable_def)
  note F = flush_buffer_spec [OF law okv wrv f] and G = flush_buffer_frame [OF f]
  have p: "pending s = [] \<longleftrightarrow> write_length s = 0" for s by (simp add: pending_def)
  show "swept (files w p) (files w' p)"
    using F G(1) wr by (auto simp: swept_def w' put_back_def view_def p ferror_def)
  show "\<And>q. q \<noteq> p \<Longrightarrow> files w' q = files w q" "mini_stream_head w' = mini_stream_head w" "released w' = released w"
    by (simp_all add: w' put_back_def)
  show "r = 0 \<and> errno w' = errno w \<and> pending (files w' p) = [] \<or>
     r = c_EOF \<and> errno w' \<noteq> 0 \<and> pending (files w' p) \<noteq> []"
    using F(2) G(3) by (auto simp: w' put_back_def view_def p)
  show "out (kern w') (fd (files w p)) @ pending (files w' p) = out (kern w) (fd (files w p)) @ pending (files w p)"
    using F(1,4) by (simp add: stream_output_def w' put_back_def view_def)
  show "writes_apart K out \<Longrightarrow> g \<noteq> fd (files w p) \<Longrightarrow> out (kern w') g = out (kern w) g"
    using G(2) by (simp add: w' put_back_def view_def)
qed

lemma swept_id: "stream_ok s \<Longrightarrow> \<not> writable s \<Longrightarrow> swept s s"
  by (simp add: swept_def)

lemma flush_all_loop_spec:
  assumes law: "writes_to K out" and apart: "writes_apart K out"
  shows "chain (files w) p ps \<Longrightarrow> distinct ps \<Longrightarrow> \<forall>q \<in> set ps. stream_ok (files w q) \<Longrightarrow>
   inj_on (\<lambda>q. fd (files w q)) {q \<in> set ps. writable (files w q)} \<Longrightarrow>
   \<exists>e w'. flush_all_loop K p e0 w = Some (e, w') \<and> mini_stream_head w' = mini_stream_head w \<and>
     released w' = released w \<and> (\<forall>q. q \<notin> set ps \<longrightarrow> files w' q = files w q) \<and>
     (\<forall>q \<in> set ps. swept (files w q) (files w' q)) \<and>
     (e0 \<noteq> 0 \<longrightarrow> e = e0) \<and>
     (e0 = 0 \<longrightarrow> (e = 0) = (\<forall>q \<in> set ps. writable (files w q) \<longrightarrow> pending (files w' q) = [])) \<and>
     (\<forall>q \<in> set ps. writable (files w q) \<longrightarrow>
        out (kern w') (fd (files w q)) @ pending (files w' q) = out (kern w) (fd (files w q)) @ pending (files w q)) \<and>
     (\<forall>g. g \<notin> (\<lambda>q. fd (files w q)) ` {q \<in> set ps. writable (files w q)} \<longrightarrow> out (kern w') g = out (kern w) g)"
proof (induction ps arbitrary: p e0 w)
  case Nil
  then show ?case by (subst flush_all_loop.simps) simp
next
  case (Cons q ps)
  then have q: "p = q" "q \<noteq> 0" "chain (files w) (next_stream (files w q)) ps" "q \<notin> set ps" "distinct ps"
    "stream_ok (files w q)" by auto
  show ?case
  proof (cases "writable (files w q)")
    case False
    have "flush_all_loop K p e0 w = flush_all_loop K (next_stream (files w q)) e0 w"
      using q(1,2) False by (subst flush_all_loop.simps) (simp add: Let_def writable_def)
    moreover have "{r \<in> set (q # ps). writable (files w r)} = {r \<in> set ps. writable (files w r)}"
      using False by auto
    ultimately show ?thesis
      using Cons.IH [of w "next_stream (files w q)" e0] q False Cons.prems(3,4) swept_id [OF q(6) False] by auto
  next
    case True
    obtain r w1 where f: "on_file (flush_buffer K) q w = (r, w1)" by fastforce
    note F = flush_one [OF law q(6) True f]
    let ?e1 = "if r = c_EOF \<and> e0 = 0 then errno w1 else e0"
    have step: "flush_all_loop K p e0 w = flush_all_loop K (next_stream (files w q)) ?e1 w1"
      using q(1,2) True f by (subst flush_all_loop.simps) (simp add: Let_def writable_def)
    have same: "files w1 s = files w s" if "s \<in> set ps" for s
      using that q(4) by (intro F(2)) auto
    have ch: "chain (files w1) (next_stream (files w q)) ps"
      using q(3) same by (subst chain_cong [of ps _ "files w"]) auto
    have sub: "{s \<in> set ps. writable (files w1 s)} = {s \<in> set ps. writable (files w s)}" using same by auto
    have inj: "inj_on (\<lambda>s. fd (files w1 s)) {s \<in> set ps. writable (files w1 s)}"
      unfolding sub using Cons.prems(4) same by (auto simp: inj_on_def)
    have okps: "\<forall>s \<in> set ps. stream_ok (files w1 s)" using Cons.prems(3) same by auto
    from Cons.IH [OF ch q(5) okps inj, of ?e1] obtain e w' where
      R: "flush_all_loop K (next_stream (files w q)) ?e1 w1 = Some (e, w')"
        "mini_stream_head w' = mini_stream_head w1" "released w' = released w1"
        "\<forall>s. s \<notin> set ps \<longrightarrow> files w' s = files w1 s" "\<forall>s \<in> set ps. swept (files w1 s) (files w' s)"
        "?e1 \<noteq> 0 \<longrightarrow> e = ?e1"
        "?e1 = 0 \<longrightarrow> (e = 0) = (\<forall>s \<in> set ps. writable (files w1 s) \<longrightarrow> pending (files w' s) = [])"
        "\<forall>s \<in> set ps. writable (files w1 s) \<longrightarrow>
          out (kern w') (fd (files w1 s)) @ pending (files w' s) = out (kern w1) (fd (files w1 s)) @ pending (files w1 s)"
        "\<forall>g. g \<notin> (\<lambda>s. fd (files w1 s)) ` {s \<in> set ps. writable (files w1 s)} \<longrightarrow> out (kern w') g = out (kern w1) g"
      by blast
    have q': "files w' q = files w1 q" using R(4) q(4) by blast
    have fdq: "fd (files w q) \<noteq> fd (files w s)" if "s \<in> set ps" "writable (files w s)" for s
      using Cons.prems(4) that True q(4) by (auto simp: inj_on_def)
    have outside: "fd (files w q) \<notin> (\<lambda>s. fd (files w1 s)) ` {s \<in> set ps. writable (files w1 s)}"
    proof
      assume "fd (files w q) \<in> (\<lambda>s. fd (files w1 s)) ` {s \<in> set ps. writable (files w1 s)}"
      then obtain s where s: "s \<in> set ps" "writable (files w1 s)" "fd (files w q) = fd (files w1 s)" by blast
      with fdq [of s] same [of s] show False by simp
    qed
    show ?thesis
    proof (intro exI conjI)
      show "flush_all_loop K p e0 w = Some (e, w')" using step R(1) by simp
      show "mini_stream_head w' = mini_stream_head w" "released w' = released w" using R(2,3) F(3,4) by simp_all
      show "\<forall>s. s \<notin> set (q # ps) \<longrightarrow> files w' s = files w s" using R(4) F(2) by auto
      show "\<forall>s \<in> set (q # ps). swept (files w s) (files w' s)" using R(5) F(1) q' same by auto
      show "e0 \<noteq> 0 \<longrightarrow> e = e0" using R(6) by auto
      show "e0 = 0 \<longrightarrow> (e = 0) = (\<forall>s \<in> set (q # ps). writable (files w s) \<longrightarrow> pending (files w' s) = [])"
        using R(6,7) F(5) True q' same by (auto simp: c_EOF_def)
      show "\<forall>s \<in> set (q # ps). writable (files w s) \<longrightarrow>
          out (kern w') (fd (files w s)) @ pending (files w' s) = out (kern w) (fd (files w s)) @ pending (files w s)"
      proof (intro ballI impI)
        fix s assume s: "s \<in> set (q # ps)" "writable (files w s)"
        show "out (kern w') (fd (files w s)) @ pending (files w' s) = out (kern w) (fd (files w s)) @ pending (files w s)"
        proof (cases "s = q")
          case True
          have "out (kern w') (fd (files w q)) = out (kern w1) (fd (files w q))"
            using R(9) outside by blast
          then show ?thesis using True q' F(6) by simp
        next
          case False
          then have sp: "s \<in> set ps" using s by simp
          have "out (kern w1) (fd (files w s)) = out (kern w) (fd (files w s))"
            using F(7) [OF apart] fdq [OF sp s(2), symmetric] by blast
          then show ?thesis using R(8) sp s(2) same [OF sp] by auto
        qed
      qed
      show "\<forall>g. g \<notin> (\<lambda>s. fd (files w s)) ` {s \<in> set (q # ps). writable (files w s)} \<longrightarrow> out (kern w') g = out (kern w) g"
      proof (intro allI impI)
        fix g assume g: "g \<notin> (\<lambda>s. fd (files w s)) ` {s \<in> set (q # ps). writable (files w s)}"
        then have "g \<noteq> fd (files w q)" using True by auto
        moreover have "g \<notin> (\<lambda>s. fd (files w1 s)) ` {s \<in> set ps. writable (files w1 s)}"
          using g same by auto
        ultimately show "out (kern w') g = out (kern w) g" using R(9) F(7) [OF apart] by auto
      qed
    qed
  qed
qed

text \<open>C21. \<open>fflush(NULL)\<close> on a well-formed list of live streams with descriptors of their own returns and
  tries every writable stream: no byte of output is lost, repeated or sent to another descriptor,
  read-only streams and the list are untouched; it returns 0, with \<open>errno\<close> as before, exactly when
  every pending byte was handed to the kernel, and otherwise \<open>EOF\<close> with a nonzero \<open>errno\<close>, the bytes
  that could not be written staying pending in streams that have their error indicator set.\<close>

theorem fflush_null_flushes_all:
  assumes "writes_to K out" "writes_apart K out" "registry w ps" "\<forall>q \<in> set ps. stream_ok (files w q)"
    and "inj_on (\<lambda>q. fd (files w q)) {q \<in> set ps. writable (files w q)}"
  shows "\<exists>r w'. fflush_ptr K 0 w = Some (r, w') \<and> registry w' ps \<and>
    (\<forall>q \<in> set ps. swept (files w q) (files w' q)) \<and> (\<forall>q. q \<notin> set ps \<longrightarrow> files w' q = files w q) \<and>
    (\<forall>q \<in> set ps. writable (files w q) \<longrightarrow>
       out (kern w') (fd (files w q)) @ pending (files w' q) = out (kern w) (fd (files w q)) @ pending (files w q)) \<and>
    (r = 0 \<and> errno w' = errno w \<and> (\<forall>q \<in> set ps. writable (files w q) \<longrightarrow> pending (files w' q) = []) \<or>
     r = c_EOF \<and> errno w' \<noteq> 0 \<and> (\<exists>q \<in> set ps. writable (files w q) \<and> pending (files w' q) \<noteq> []))"
proof -
  obtain e w' where R: "flush_all_loop K (mini_stream_head w) 0 w = Some (e, w')"
      "mini_stream_head w' = mini_stream_head w" "released w' = released w"
      "\<forall>q. q \<notin> set ps \<longrightarrow> files w' q = files w q" "\<forall>q \<in> set ps. swept (files w q) (files w' q)"
      "(e = 0) = (\<forall>q \<in> set ps. writable (files w q) \<longrightarrow> pending (files w' q) = [])"
      "\<forall>q \<in> set ps. writable (files w q) \<longrightarrow>
        out (kern w') (fd (files w q)) @ pending (files w' q) = out (kern w) (fd (files w q)) @ pending (files w q)"
    using flush_all_loop_spec [OF assms(1,2), of w "mini_stream_head w" ps 0] assms(3-5)
    unfolding registry_def by auto
  define v where "v = (if e \<noteq> 0 then set_errno e w' else set_errno (errno w) w')"
  have v: "files v = files w'" "mini_stream_head v = mini_stream_head w'" "kern v = kern w'"
    "errno v = (if e = 0 then errno w else e)" by (simp_all add: v_def set_errno_def)
  have "registry v ps"
    using assms(3) R(2,5) v(1,2) by (subst registry_cong [of ps _ w]) (auto simp: swept_def)
  moreover have "fflush_ptr K 0 w = Some (if e \<noteq> 0 then c_EOF else 0, v)"
    by (simp add: fflush_ptr_def flush_all_def R(1) v_def)
  ultimately show ?thesis using R(4-7) v by (cases "e = 0") auto
qed

lemma initial_registry: "registry (initial_world k) [stdin_ptr, stdout_ptr, stderr_ptr]"
  by (simp add: registry_def initial_world_def initial_files_def static_file_def
      stdin_ptr_def stdout_ptr_def stderr_ptr_def)

lemma initial_ok: "stream_ok (initial_files q)"
  by (simp add: initial_files_def static_file_ok)

text \<open>Two descriptors' worth of output, for the witnesses.\<close>

definition split_kernel :: "(int \<Rightarrow> byte list) sys" where
  "split_kernel = \<lparr>sys_read = (\<lambda>k d n. (Inr [], k)),
     sys_write = (\<lambda>k d bs. (int (length bs), k(d := k d @ bs))),
     sys_lseek = (\<lambda>k d off w. (0, k)), sys_openat = (\<lambda>k d path fl md. (3, k)),
     sys_close = (\<lambda>k d. (0, k))\<rparr>"

lemma split_writes: "writes_to split_kernel (\<lambda>k. k)" "writes_apart split_kernel (\<lambda>k. k)"
  by (auto simp: writes_to_def writes_apart_def split_kernel_def)

lemma initial_descriptors:
  "inj_on (\<lambda>q. fd (files (initial_world k) q))
     {q \<in> set [stdin_ptr, stdout_ptr, stderr_ptr]. writable (files (initial_world k) q)}"
  by (auto simp: inj_on_def initial_world_def initial_files_def static_file_def stdin_ptr_def
      stdout_ptr_def stderr_ptr_def)

lemma fflush_null_flushes_all_witness:
  "\<exists>r w'. fflush_ptr split_kernel 0 (initial_world (\<lambda>_. [])) = Some (r, w') \<and>
     registry w' [stdin_ptr, stdout_ptr, stderr_ptr]"
proof -
  have "\<forall>q \<in> set [stdin_ptr, stdout_ptr, stderr_ptr]. stream_ok (files (initial_world (\<lambda>_. [])) q)"
    using initial_ok by (simp add: initial_world_def)
  from fflush_null_flushes_all [OF split_writes initial_registry this initial_descriptors]
  show ?thesis by blast
qed

text \<open>\<open>fflush(NULL)\<close> does not lift the write-to-read barrier \<open>fflush(stream)\<close> lifts: a live update stream
  that was written to refuses the next read with EINVAL although everything was flushed, while
  after \<open>fflush\<close> on the stream itself the barrier is gone.\<close>

theorem fflush_null_keeps_barrier:
  assumes "writes_to K out" "writes_apart K out" "registry w ps" "\<forall>q \<in> set ps. stream_ok (files w q)"
    and "inj_on (\<lambda>q. fd (files w q)) {q \<in> set ps. writable (files w q)}"
    and "p \<in> set ps" "writable (files w p)" "has (state (files w p)) MINI_FILE_WRITE_NEEDS_SYNC" "0 < n"
    and "fflush_ptr K 0 w = Some (r, w')"
  shows "on_file (stdio_read K n) p w' =
      ([], set_errno EINVAL (upd_file p (\<lambda>s. s\<lparr>state := raise_flag MINI_FILE_ERROR (state s)\<rparr>) w')) \<and>
    (fst (on_file (fflush K) p w) = 0 \<longrightarrow>
      \<not> has (state (files (snd (on_file (fflush K) p w)) p)) MINI_FILE_WRITE_NEEDS_SYNC)"
proof (rule conjI)
  obtain r' v where "fflush_ptr K 0 w = Some (r', v)" "\<forall>q \<in> set ps. swept (files w q) (files v q)"
    using fflush_null_flushes_all [OF assms(1-5)] by blast
  then have sw: "swept (files w p) (files w' p)" using assms(6,10) by simp
  have "has (state (files w' p)) MINI_FILE_WRITE_NEEDS_SYNC"
    using sw assms(7,8) by (auto simp: swept_def stream_ok_def pending_def)
  then show "on_file (stdio_read K n) p w' =
      ([], set_errno EINVAL (upd_file p (\<lambda>s. s\<lparr>state := raise_flag MINI_FILE_ERROR (state s)\<rparr>) w'))"
    using assms(9) by (simp add: on_file_def stdio_read_def view_def put_back_def io_defs set_errno_def upd_file_def)
  obtain r1 c1 where f: "fflush K (view p w) = (r1, c1)" by fastforce
  have "stream_ok (strm (view p w))" "has (mode (strm (view p w))) MINI_FILE_WRITABLE"
    using assms(4,6,7) by (simp_all add: view_def writable_def)
  from fflush_spec(3) [OF assms(1) this f]
  show "fst (on_file (fflush K) p w) = 0 \<longrightarrow>
      \<not> has (state (files (snd (on_file (fflush K) p w)) p)) MINI_FILE_WRITE_NEEDS_SYNC"
    using f by (auto simp: on_file_def put_back_def c_EOF_def)
qed

definition update_world :: "(int \<Rightarrow> byte list) world" where
  "update_world = \<lparr>files = (\<lambda>_. (static_file 3 (MINI_FILE_READABLE OR MINI_FILE_WRITABLE) 0)\<lparr>state := MINI_FILE_WRITE_NEEDS_SYNC\<rparr>),
     mini_stream_head = 4, errno = 0, kern = (\<lambda>_. []), released = []\<rparr>"

lemma update_world_facts:
  "registry update_world [4]" "\<forall>q \<in> set [4]. stream_ok (files update_world q)"
  "inj_on (\<lambda>q. fd (files update_world q)) {q \<in> set [4]. writable (files update_world q)}"
  "writable (files update_world 4)" "has (state (files update_world 4)) MINI_FILE_WRITE_NEEDS_SYNC"
  by (simp_all add: update_world_def registry_def static_file_def stream_ok_def writable_def has_def file_flags)

lemma fflush_null_keeps_barrier_witness:
  "\<exists>r w'. fflush_ptr split_kernel 0 update_world = Some (r, w') \<and> fst (on_file (stdio_read split_kernel 1) 4 w') = []"
proof -
  note f = update_world_facts
  from fflush_null_flushes_all [OF split_writes f(1-3)]
  obtain r w' where e: "fflush_ptr split_kernel 0 update_world = Some (r, w')" by blast
  have "4 \<in> set [4 :: nat]" "(0 :: nat) < 1" by simp_all
  from fflush_null_keeps_barrier [OF split_writes f(1-3) this(1) f(4,5) this(2) e]
  show ?thesis using e by auto
qed

subsection \<open>Closing\<close>

text \<open>A configured buffer the library owns is installed.\<close>

definition file_ok :: "mini_file \<Rightarrow> bool" where
  "file_ok s = (stream_ok s \<and>
     (has (mode s) MINI_FILE_BUFFER_OWNED \<longrightarrow> write_buffer s \<noteq> No_buffer \<and> 0 < buffer_size s))"

lemma flush_and_close_spec:
  assumes law: "writes_to K out" and ok: "file_ok (files w p)"
    and E: "flush_and_close K p w = (e, w')"
    and F: "(if writable (files w p) then on_file (flush_buffer K) p w else (0, w)) = (rf, w1)"
    and C: "sys_close K (kern w1) (fd (files w p)) = (rc, k)"
  shows "w' = w1\<lparr>kern := k\<rparr>" "e = (if rf = c_EOF then errno w1 else if rc < 0 then - rc else 0)"
    "rf = c_EOF \<longrightarrow> errno w1 \<noteq> 0" "\<And>q. q \<noteq> p \<Longrightarrow> files w1 q = files w q"
    "mini_stream_head w1 = mini_stream_head w" "released w1 = released w"
    "mode (files w1 p) = mode (files w p)" "next_stream (files w1 p) = next_stream (files w p)"
    "has (mode (files w p)) MINI_FILE_BUFFER_OWNED \<longrightarrow> write_buffer (files w1 p) \<noteq> No_buffer"
    "rf = c_EOF \<or> rf = 0 \<and> errno w1 = errno w" "fd (files w1 p) = fd (files w p)"
proof -
  have "(rf = c_EOF \<longrightarrow> errno w1 \<noteq> 0) \<and> (\<forall>q. q \<noteq> p \<longrightarrow> files w1 q = files w q) \<and>
    mini_stream_head w1 = mini_stream_head w \<and> released w1 = released w \<and>
    mode (files w1 p) = mode (files w p) \<and> next_stream (files w1 p) = next_stream (files w p) \<and>
    (has (mode (files w p)) MINI_FILE_BUFFER_OWNED \<longrightarrow> write_buffer (files w1 p) \<noteq> No_buffer) \<and>
    (rf = c_EOF \<or> rf = 0 \<and> errno w1 = errno w) \<and> fd (files w1 p) = fd (files w p)"
  proof (cases "writable (files w p)")
    case False
    then show ?thesis using F ok by (auto simp: file_ok_def c_EOF_def)
  next
    case True
    have so: "stream_ok (files w p)" using ok by (simp add: file_ok_def)
    have f: "on_file (flush_buffer K) p w = (rf, w1)" using F True by simp
    note O = flush_one [OF law so True f]
    obtain c1 where c1: "flush_buffer K (view p w) = (rf, c1)" "w1 = put_back p c1 w"
      using f by (auto simp: on_file_def split: prod.splits)
    have "stream_ok (strm (view p w))" "has (mode (strm (view p w))) MINI_FILE_WRITABLE"
      using so True by (simp_all add: view_def writable_def)
    from flush_buffer_spec(8) [OF law this c1(1)]
    have "has (mode (files w p)) MINI_FILE_BUFFER_OWNED \<longrightarrow> write_buffer (files w1 p) \<noteq> No_buffer"
      using ok by (simp add: file_ok_def c1(2) put_back_def view_def)
    with O(2-5) O(1) [unfolded swept_def] show ?thesis by (auto simp: c_EOF_def)
  qed
  note X = this
  have "flush_and_close K p w = (if rf = c_EOF then errno w1 else if rc < 0 then - rc else 0, w1\<lparr>kern := k\<rparr>)"
  proof (cases "writable (files w p)")
    case True
    then show ?thesis using F C X
      by (simp add: flush_and_close_def writable_def Let_def)
  next
    case False
    then have "rf = 0" "w1 = w" using F by simp_all
    then show ?thesis using C False by (simp add: flush_and_close_def writable_def c_EOF_def)
  qed
  with X show "w' = w1\<lparr>kern := k\<rparr>" "e = (if rf = c_EOF then errno w1 else if rc < 0 then - rc else 0)"
    "rf = c_EOF \<longrightarrow> errno w1 \<noteq> 0" "\<And>q. q \<noteq> p \<Longrightarrow> files w1 q = files w q"
    "mini_stream_head w1 = mini_stream_head w" "released w1 = released w"
    "mode (files w1 p) = mode (files w p)" "next_stream (files w1 p) = next_stream (files w p)"
    "has (mode (files w p)) MINI_FILE_BUFFER_OWNED \<longrightarrow> write_buffer (files w1 p) \<noteq> No_buffer"
    "rf = c_EOF \<or> rf = 0 \<and> errno w1 = errno w" "fd (files w1 p) = fd (files w p)"
    using E by auto
qed

text \<open>C22. \<open>fclose\<close> on a live stream returns. It flushes a writable stream, then closes the descriptor once,
  even when the flush failed, and takes the stream, and no other, out of the list of live streams;
  it frees a buffer of the library's and an owned \<open>FILE\<close>, each once, and leaves a predefined stream
  unusable. It returns 0 with \<open>errno\<close> unchanged when both steps worked, otherwise \<open>EOF\<close> with the error
  of the first that failed.\<close>

theorem fclose_releases:
  assumes "writes_to K out" "registry w ps" "p \<in> set ps" "file_ok (files w p)" "\<not> invalid_file (files w p)"
    and "(if writable (files w p) then on_file (flush_buffer K) p w else (0, w)) = (rf, w1)"
    and "sys_close K (kern w1) (fd (files w p)) = (rc, k)"
  shows "\<exists>r w'. fclose K p w = Some (r, w') \<and> registry w' (remove1 p ps) \<and> kern w' = k \<and>
    (\<forall>q. q \<noteq> p \<longrightarrow> (\<exists>n. files w' q = (files w q)\<lparr>next_stream := n\<rparr>)) \<and>
    released w' =
      (if has (mode (files w p)) MINI_FILE_OWNED then [Free_stream p] else []) @
      (if has (mode (files w p)) MINI_FILE_BUFFER_OWNED then [Free_buffer p] else []) @ released w \<and>
    (\<not> has (mode (files w p)) MINI_FILE_OWNED \<longrightarrow> invalid_file (files w' p) \<and> fd (files w' p) = - 1) \<and>
    (r = 0 \<and> rf = 0 \<and> 0 \<le> rc \<and> errno w' = errno w \<or>
     r = c_EOF \<and> errno w' = (if rf = c_EOF then errno w1 else - rc) \<and> (rf = c_EOF \<or> rc < 0))"
proof -
  have p0: "p \<noteq> 0" using registry_not_null [OF assms(2)] assms(3) by metis
  obtain e w2 where fc: "flush_and_close K p w = (e, w2)" by fastforce
  note F = flush_and_close_spec [OF assms(1,4) fc assms(6,7)]
  have w2: "files w2 = files w1" "mini_stream_head w2 = mini_stream_head w1" "kern w2 = k" "errno w2 = errno w1"
    "released w2 = released w1" by (simp_all add: F(1))
  have "next_stream (files w2 q) = next_stream (files w q)" for q
    using F(4,8) w2(1) by (cases "q = p") auto
  then have reg2: "registry w2 ps" using assms(2) F(5) w2(2) by (subst registry_cong [of ps _ w]) auto
  obtain w3 where u: "stdio_unregister p w2 = Some w3" "registry w3 (remove1 p ps)" "same_but_links w2 w3"
    by (rule unregister_registry [OF reg2, of p]) blast
  have w3: "errno w3 = errno w1" "kern w3 = k" "released w3 = released w"
    "\<And>q. \<exists>n. files w3 q = (files w1 q)\<lparr>next_stream := n\<rparr>"
    using u(3) w2 F(6) by (auto simp: same_but_links_def)
  have m3: "mode (files w3 p) = mode (files w p)" "write_buffer (files w3 p) = write_buffer (files w1 p)"
    using w3(4) [of p] F(7) by auto
  have pnot: "p \<notin> set (remove1 p ps)" using assms(2) by (auto simp: registry_def)
  define w4 where "w4 = release_buffer p w3"
  have w4: "\<And>q. q \<noteq> p \<Longrightarrow> files w4 q = files w3 q" "mini_stream_head w4 = mini_stream_head w3"
    "errno w4 = errno w1" "kern w4 = k"
    "released w4 = (if has (mode (files w p)) MINI_FILE_BUFFER_OWNED then [Free_buffer p] else []) @ released w"
    using p0 F(9) w3 by (auto simp: w4_def release_buffer_def Let_def upd_file_def release_now_def m3)
  define w5 where "w5 = (if mode (files w p) AND MINI_FILE_OWNED \<noteq> 0 then release_now (Free_stream p) w4
      else upd_file p (\<lambda>s. s\<lparr>fd := - 1, mode := 0, state := 0, next_stream := 0,
             write_length := 0, read_offset := 0, read_length := 0, pushback_offset := 0, pushback_length := 0\<rparr>) w4)"
  have w5: "\<And>q. q \<noteq> p \<Longrightarrow> files w5 q = files w3 q" "mini_stream_head w5 = mini_stream_head w3"
    "errno w5 = errno w1" "kern w5 = k"
    using w4 by (auto simp: w5_def release_now_def upd_file_def)
  have rel5: "released w5 = (if has (mode (files w p)) MINI_FILE_OWNED then [Free_stream p] else []) @
      (if has (mode (files w p)) MINI_FILE_BUFFER_OWNED then [Free_buffer p] else []) @ released w"
    using w4(5) by (auto simp: w5_def release_now_def upd_file_def has_def)
  have dead: "\<not> has (mode (files w p)) MINI_FILE_OWNED \<longrightarrow> invalid_file (files w5 p) \<and> fd (files w5 p) = - 1"
    by (simp add: w5_def has_def upd_file_def invalid_file_def)
  have reg5: "registry w5 (remove1 p ps)"
    using u(2) w5(1,2) pnot by (subst registry_cong [of _ _ w3]) (metis, simp_all)
  define w6 where "w6 = (if e \<noteq> 0 then set_errno e w5 else w5)"
  have cl: "fclose K p w = Some (if e \<noteq> 0 then c_EOF else 0, w6)"
    unfolding fclose_def using p0 assms(5) fc u(1)
    by (simp add: w4_def [symmetric] w5_def w6_def Let_def)
  have w6: "files w6 = files w5" "mini_stream_head w6 = mini_stream_head w5" "kern w6 = k"
    "released w6 = released w5" "errno w6 = (if e \<noteq> 0 then e else errno w1)"
    using w5 by (simp_all add: w6_def set_errno_def)
  have "registry w6 (remove1 p ps)" using reg5 w6(1,2) by (simp add: registry_def)
  moreover have "\<forall>q. q \<noteq> p \<longrightarrow> (\<exists>n. files w6 q = (files w q)\<lparr>next_stream := n\<rparr>)"
    using w5(1) w3(4) F(4) w6(1) by metis
  moreover have "(if e \<noteq> 0 then c_EOF else 0) = 0 \<and> rf = 0 \<and> 0 \<le> rc \<and> errno w6 = errno w \<or>
     (if e \<noteq> 0 then c_EOF else 0) = c_EOF \<and> errno w6 = (if rf = c_EOF then errno w1 else - rc) \<and> (rf = c_EOF \<or> rc < 0)"
    using F(2,3,10) w6(5) by (auto simp: c_EOF_def)
  ultimately show ?thesis using cl rel5 dead w6(1,3,4) by auto
qed

lemma fclose_releases_witness:
  "\<exists>w'. fclose split_kernel 4 update_world = Some (0, w') \<and> registry w' [] \<and> invalid_file (files w' 4)"
proof -
  note f = update_world_facts
  have m: "mode (files update_world 4) = MINI_FILE_READABLE OR MINI_FILE_WRITABLE"
    "write_length (files update_world 4) = 0" "fd (files update_world 4) = 3"
    by (simp_all add: update_world_def static_file_def)
  have ok: "file_ok (files update_world 4)" using f(2) m(1) by (simp add: file_ok_def has_def mode_flags)
  have val: "\<not> invalid_file (files update_world 4)" using m(1) by (simp add: invalid_file_def mode_flags)
  have fl: "(if writable (files update_world 4) then on_file (flush_buffer split_kernel) 4 update_world
      else (0, update_world)) = (0, update_world)"
    using f(4) m(1,2)
    by (simp add: on_file_def flush_buffer_def view_def put_back_def writable_def fun_upd_idem)
  have cl: "sys_close split_kernel (kern update_world) (fd (files update_world 4)) = (0, kern update_world)"
    by (simp add: split_kernel_def)
  from fclose_releases [OF split_writes(1) f(1) _ ok val fl cl] m(1)
  show ?thesis by (auto simp: has_def mode_flags c_EOF_def)
qed

text \<open>Opening puts the new stream at the head of the list, well formed, or leaves the list alone.\<close>

lemma fopen_registers:
  assumes "registry w ps" "alloc \<notin> set ps" "fopen K alloc filename mstr w = (r, w')"
  shows "r = 0 \<and> registry w' ps \<and> files w' = files w \<or>
    r = alloc \<and> r \<noteq> 0 \<and> registry w' (r # ps) \<and> file_ok (files w' r) \<and>
      (\<forall>q. q \<noteq> r \<longrightarrow> files w' q = files w q)"
proof -
  have new: "registry (initialize_owned_stream alloc d m v) (alloc # ps) \<and>
      (\<not> has m MINI_FILE_BUFFER_OWNED \<longrightarrow> file_ok (files (initialize_owned_stream alloc d m v) alloc)) \<and>
      (\<forall>q. q \<noteq> alloc \<longrightarrow> files (initialize_owned_stream alloc d m v) q = files v q)"
    if "registry v ps" "alloc \<noteq> 0" for v :: "'a world" and d m
  proof -
    define v1 where "v1 = upd_file alloc (\<lambda>s. s\<lparr>fd := d, mode := m, state := 0, next_stream := 0, write_length := 0,
          write_buffer := No_buffer, read_offset := 0, read_length := 0, pushback_offset := 0,
          pushback_length := 0, read_buffer := No_buffer, buffer_size := 0\<rparr>) v"
    have "registry v1 ps" using that(1) assms(2)
      by (subst registry_cong [of ps _ v]) (auto simp: v1_def upd_file_def)
    from register_registry [OF this that(2) assms(2)]
    show ?thesis unfolding initialize_owned_stream_def v1_def [symmetric]
      by (auto simp: stdio_register_def v1_def upd_file_def file_ok_def stream_ok_def has_def)
  qed
  have owned: "\<not> has m MINI_FILE_BUFFER_OWNED" if "parse_open_mode mstr = Some (fl, m)" for fl m
  proof (cases mstr)
    case None
    then show ?thesis using that by (simp add: parse_open_mode_def)
  next
    case (Some cs)
    then show ?thesis using that unfolding Some parse_open_mode_accepts_eq
      by (auto simp: has_def mode_flags split: if_splits)
  qed
  show ?thesis using assms(1,3) new owned
    by (auto simp: fopen_def malloc_failed_def set_errno_def release_now_def Let_def registry_def
        split: option.splits if_splits prod.splits)
qed
end
