(* ===== verification/Calendar.thy ===== *)
theory Calendar
  imports Prelude "HOL-Library.Signed_Division"
begin

section \<open>Calendar time (\<open>time/calendar.c\<close>, \<open>time/time.c\<close>)\<close>

text \<open>
  The conversions between seconds since 1970 and broken-down UTC time, their text forms, and the
  clock functions. \<open>long long\<close> values are integers: every intermediate value of the conversions stays
  below \<open>2^57\<close> for any input, so none wraps; C's truncating division is \<open>sdiv\<close> and \<open>smod\<close>. The
  \<open>unsigned\<close> temporaries of the two conversions are never negative and are integers as well.
  The calendar is checked against its definition: day numbers advance by one from each date to
  the next under the Gregorian rules, and day 0 is the first of January 1970.
\<close>

subsection \<open>Definitions\<close>

record tm =
  tm_sec :: int
  tm_min :: int
  tm_hour :: int
  tm_mday :: int
  tm_mon :: int
  tm_year :: int
  tm_wday :: int
  tm_yday :: int
  tm_isdst :: int

definition mini_seconds_per_day :: int where "mini_seconds_per_day = 86400"

definition floor_div :: "int \<Rightarrow> int \<Rightarrow> int" where
  "floor_div v d = (if v smod d < 0 then v sdiv d - 1 else v sdiv d)"

definition floor_mod :: "int \<Rightarrow> int \<Rightarrow> int" where
  "floor_mod v d = (if v smod d < 0 then v smod d + d else v smod d)"

definition is_leap_year :: "int \<Rightarrow> bool" where
  "is_leap_year y = (y smod 4 = 0 \<and> (y smod 100 \<noteq> 0 \<or> y smod 400 = 0))"

definition days_from_civil :: "int \<Rightarrow> int \<Rightarrow> int \<Rightarrow> int" where
  "days_from_civil year month day =
     (let year = year - (if month \<le> 2 then 1 else 0);
          era = floor_div year 400;
          year_of_era = year - era * 400;
          day_of_year = (153 * (if 2 < month then month - 3 else month + 9) + 2) div 5 + day - 1;
          day_of_era = year_of_era * 365 + year_of_era div 4 - year_of_era div 100 + day_of_year
      in era * 146097 + day_of_era - 719468)"

definition civil_from_days :: "int \<Rightarrow> int \<times> int \<times> int" where
  "civil_from_days days =
     (let z = days + 719468;
          era = floor_div z 146097;
          day_of_era = z - era * 146097;
          year_of_era = (day_of_era - day_of_era div 1460 + day_of_era div 36524 -
                         day_of_era div 146096) div 365;
          y = year_of_era + era * 400;
          day_of_year = day_of_era - (365 * year_of_era + year_of_era div 4 - year_of_era div 100);
          month_prime = (5 * day_of_year + 2) div 153;
          d = day_of_year - (153 * month_prime + 2) div 5 + 1;
          m = (if month_prime < 10 then month_prime + 3 else month_prime - 9)
      in (y + (if m \<le> 2 then 1 else 0), m, d))"

definition calendar_from_epoch :: "int \<Rightarrow> tm option" where
  "calendar_from_epoch timer =
     (let days0 = timer sdiv mini_seconds_per_day;
          second0 = timer smod mini_seconds_per_day;
          (days, second_of_day) =
            (if second0 < 0 then (days0 - 1, second0 + mini_seconds_per_day) else (days0, second0));
          (year, month, day) = civil_from_days days;
          year_offset = year - 1900
      in if year_offset < INT_MIN \<or> INT_MAX < year_offset then None
         else
           let year_start = days_from_civil year 1 1
           in Some \<lparr>tm_sec = second_of_day smod 60, tm_min = (second_of_day sdiv 60) smod 60,
                tm_hour = second_of_day sdiv 3600, tm_mday = day, tm_mon = month - 1,
                tm_year = year_offset, tm_wday = floor_mod (days + 4) 7,
                tm_yday = days - year_start, tm_isdst = 0\<rparr>)"

text \<open>The pointer arguments: \<^term>\<open>None\<close> is null. A result carries the new \<open>errno\<close>, if it was set.\<close>

definition gmtime :: "int option \<Rightarrow> tm option \<times> int option" where
  "gmtime timer =
     (case timer of None \<Rightarrow> (None, Some EINVAL)
      | Some t \<Rightarrow> (case calendar_from_epoch t of None \<Rightarrow> (None, Some ERANGE) | Some r \<Rightarrow> (Some r, None)))"

definition localtime :: "int option \<Rightarrow> tm option \<times> int option" where
  "localtime timer = gmtime timer"

definition mktime_total :: "tm \<Rightarrow> int" where
  "mktime_total t =
     (let year = tm_year t + 1900;
          month_years = floor_div (tm_mon t) 12;
          year = year + month_years;
          month = tm_mon t - month_years * 12 + 1;
          days = days_from_civil year month 1 + (tm_mday t - 1);
          second_of_day = tm_hour t * 3600 + tm_min t * 60 + tm_sec t;
          day_adjust = floor_div second_of_day mini_seconds_per_day;
          normalized_second = second_of_day - day_adjust * mini_seconds_per_day;
          days = days + day_adjust
      in days * mini_seconds_per_day + normalized_second)"

text \<open>The result, what the struct holds afterwards, and \<open>errno\<close>.\<close>

definition mktime :: "tm option \<Rightarrow> int \<times> tm option \<times> int option" where
  "mktime timeptr =
     (case timeptr of None \<Rightarrow> (- 1, None, Some EINVAL)
      | Some t \<Rightarrow>
          (case calendar_from_epoch (mktime_total t) of
             None \<Rightarrow> (- 1, Some t, Some ERANGE)
           | Some normalized \<Rightarrow> (mktime_total t, Some normalized, None)))"

definition valid_text_tm :: "tm \<Rightarrow> bool" where
  "valid_text_tm t =
     (\<not> (tm_sec t < 0 \<or> 60 < tm_sec t \<or> tm_min t < 0 \<or> 59 < tm_min t \<or> tm_hour t < 0 \<or> 23 < tm_hour t \<or>
         tm_mday t < 1 \<or> 31 < tm_mday t \<or> tm_mon t < 0 \<or> 11 < tm_mon t \<or> tm_wday t < 0 \<or> 6 < tm_wday t \<or>
         tm_yday t < 0 \<or> 365 < tm_yday t) \<and>
      0 \<le> tm_year t + 1900 \<and> tm_year t + 1900 \<le> 9999)"

definition mini_weekday_short :: "string list" where
  "mini_weekday_short = [''Sun'', ''Mon'', ''Tue'', ''Wed'', ''Thu'', ''Fri'', ''Sat'']"
definition mini_weekday_long :: "string list" where
  "mini_weekday_long = [''Sunday'', ''Monday'', ''Tuesday'', ''Wednesday'', ''Thursday'', ''Friday'', ''Saturday'']"
definition mini_month_short :: "string list" where
  "mini_month_short = [''Jan'', ''Feb'', ''Mar'', ''Apr'', ''May'', ''Jun'', ''Jul'', ''Aug'', ''Sep'',
     ''Oct'', ''Nov'', ''Dec'']"
definition mini_month_long :: "string list" where
  "mini_month_long = [''January'', ''February'', ''March'', ''April'', ''May'', ''June'', ''July'',
     ''August'', ''September'', ''October'', ''November'', ''December'']"

text \<open>\<open>(char)('0' + v)\<close>\<close>

definition digit_char :: "int \<Rightarrow> byte" where
  "digit_char v = word_of_int (48 + v)"

definition asctime :: "tm option \<Rightarrow> byte list option \<times> int option" where
  "asctime timeptr =
     (case timeptr of None \<Rightarrow> (None, Some EINVAL)
      | Some t \<Rightarrow>
          if \<not> valid_text_tm t then (None, Some EINVAL)
          else
            let year = tm_year t + 1900; day = tm_mday t;
                weekday = mini_weekday_short ! nat (tm_wday t);
                month = mini_month_short ! nat (tm_mon t)
            in (Some (bytes_of (take 3 weekday) @ bytes_of '' '' @ bytes_of (take 3 month) @ bytes_of '' '' @
                 [if 10 \<le> day then digit_char (day sdiv 10) else ch CHR '' '', digit_char (day smod 10)] @
                 bytes_of '' '' @
                 [digit_char (tm_hour t sdiv 10), digit_char (tm_hour t smod 10), ch CHR '':'',
                  digit_char (tm_min t sdiv 10), digit_char (tm_min t smod 10), ch CHR '':'',
                  digit_char (tm_sec t sdiv 10), digit_char (tm_sec t smod 10), ch CHR '' '',
                  digit_char ((year sdiv 1000) smod 10), digit_char ((year sdiv 100) smod 10),
                  digit_char ((year sdiv 10) smod 10), digit_char (year smod 10), 10, 0]), None))"

definition ctime :: "int option \<Rightarrow> byte list option \<times> int option" where
  "ctime timer =
     (case localtime timer of (None, e) \<Rightarrow> (None, e) | (Some t, e) \<Rightarrow> asctime (Some t))"

subsection \<open>Formatting\<close>

record time_writer =
  tw_buffer :: addr
  tw_capacity :: nat
  tw_length :: nat
  tw_failed :: int

type_synonym writer_state = "time_writer \<times> mem"

fun writer_finish :: "writer_state \<Rightarrow> writer_state" where
  "writer_finish (w, m) =
     (if tw_capacity w \<noteq> 0 \<and> tw_buffer w \<noteq> null_ptr then
        let position = (if tw_length w < tw_capacity w then tw_length w else tw_capacity w - 1)
        in (w, m(tw_buffer w + position := 0))
      else (w, m))"

fun writer_char :: "byte \<Rightarrow> writer_state \<Rightarrow> writer_state" where
  "writer_char v (w, m) =
     (if tw_failed w \<noteq> 0 then (w, m)
      else if tw_capacity w = 0 \<or> tw_capacity w - 1 \<le> tw_length w then (w\<lparr>tw_failed := 1\<rparr>, m)
      else
        let m = m(tw_buffer w + tw_length w := v);
            w = w\<lparr>tw_length := tw_length w + 1\<rparr>
        in (w, m(tw_buffer w + tw_length w := 0)))"

fun writer_text :: "byte list \<Rightarrow> writer_state \<Rightarrow> writer_state" where
  "writer_text [] s = s"
| "writer_text (b # bs) s = (if tw_failed (fst s) = 0 then writer_text bs (writer_char b s) else s)"

text \<open>The digits in reverse, at least one.\<close>

fun reverse_digits :: "nat \<Rightarrow> byte list" where
  "reverse_digits v = digit_char (int (v mod 10)) # (if v div 10 = 0 then [] else reverse_digits (v div 10))"

declare reverse_digits.simps [simp del]

definition writer_unsigned :: "nat \<Rightarrow> nat \<Rightarrow> byte \<Rightarrow> writer_state \<Rightarrow> writer_state" where
  "writer_unsigned v minimum pad s =
     (let digits = reverse_digits v
      in fold writer_char (rev digits) (fold writer_char (replicate (minimum - length digits) pad) s))"

definition weekday_for_date :: "int \<Rightarrow> int \<Rightarrow> int \<Rightarrow> int" where
  "weekday_for_date year month day = floor_mod (days_from_civil year month day + 4) 7"

definition iso_weeks_in_year :: "int \<Rightarrow> int" where
  "iso_weeks_in_year year =
     (let jan1 = weekday_for_date year 1 1
      in if jan1 = 4 \<or> (jan1 = 3 \<and> is_leap_year year) then 53 else 52)"

definition iso_week_fields :: "tm \<Rightarrow> int \<times> int" where
  "iso_week_fields t =
     (let year = tm_year t + 1900;
          iso_wday = (if tm_wday t = 0 then 7 else tm_wday t);
          week = (tm_yday t + 1 - iso_wday + 10) sdiv 7
      in if week < 1 then (year - 1, iso_weeks_in_year (year - 1))
         else if iso_weeks_in_year year < week then (year + 1, 1)
         else (year, week))"

text \<open>What one conversion character does to the writer: the \<open>switch\<close> of \<open>writer_format_code\<close>, first the
  conversions that write something themselves, then those made of others.\<close>

datatype time_act = Put_char byte | Put_text "byte list" | Put_unsigned int nat byte | Bad_code

fun do_act :: "time_act \<Rightarrow> writer_state \<Rightarrow> writer_state" where
  "do_act (Put_char b) s = writer_char b s"
| "do_act (Put_text bs) s = writer_text bs s"
| "do_act (Put_unsigned v n pad) s = writer_unsigned (nat v) n pad s"
| "do_act Bad_code (w, m) = (w\<lparr>tw_failed := 2\<rparr>, m)"

definition basic_code :: "tm \<Rightarrow> char \<Rightarrow> time_act" where
  "basic_code t code =
     (let year = tm_year t + 1900; zero = ch CHR ''0''; two = (\<lambda>v. Put_unsigned v 2 zero) in
      if code = CHR ''%'' then Put_char (ch CHR ''%'')
      else if code = CHR ''a'' then Put_text (bytes_of (mini_weekday_short ! nat (tm_wday t)))
      else if code = CHR ''A'' then Put_text (bytes_of (mini_weekday_long ! nat (tm_wday t)))
      else if code = CHR ''b'' \<or> code = CHR ''h'' then Put_text (bytes_of (mini_month_short ! nat (tm_mon t)))
      else if code = CHR ''B'' then Put_text (bytes_of (mini_month_long ! nat (tm_mon t)))
      else if code = CHR ''C'' then two (year sdiv 100)
      else if code = CHR ''d'' then two (tm_mday t)
      else if code = CHR ''e'' then Put_unsigned (tm_mday t) 2 (ch CHR '' '')
      else if code = CHR ''H'' then two (tm_hour t)
      else if code = CHR ''I'' then two (if tm_hour t smod 12 = 0 then 12 else tm_hour t smod 12)
      else if code = CHR ''j'' then Put_unsigned (tm_yday t + 1) 3 zero
      else if code = CHR ''m'' then two (tm_mon t + 1)
      else if code = CHR ''M'' then two (tm_min t)
      else if code = CHR ''n'' then Put_char 10
      else if code = CHR ''p'' then Put_text (bytes_of (if tm_hour t < 12 then ''AM'' else ''PM''))
      else if code = CHR ''S'' then two (tm_sec t)
      else if code = CHR ''t'' then Put_char 9
      else if code = CHR ''u'' then Put_unsigned (if tm_wday t = 0 then 7 else tm_wday t) 1 zero
      else if code = CHR ''U'' then two ((tm_yday t + 7 - tm_wday t) div 7)
      else if code = CHR ''V'' then two (snd (iso_week_fields t))
      else if code = CHR ''w'' then Put_unsigned (tm_wday t) 1 zero
      else if code = CHR ''W'' then two ((tm_yday t + 7 - (tm_wday t + 6) smod 7) div 7)
      else if code = CHR ''y'' then two (year smod 100)
      else if code = CHR ''Y'' then Put_unsigned year 4 zero
      else if code = CHR ''g'' then
        (let iso_year = fst (iso_week_fields t)
         in if iso_year < 0 \<or> 9999 < iso_year then Bad_code else two (iso_year smod 100))
      else if code = CHR ''G'' then
        (let iso_year = fst (iso_week_fields t)
         in if iso_year < 0 \<or> 9999 < iso_year then Bad_code else Put_unsigned iso_year 4 zero)
      else if code = CHR ''z'' then Put_text (bytes_of ''+0000'')
      else if code = CHR ''Z'' then Put_text (bytes_of ''UTC'')
      else Bad_code)"

definition pair_code :: "tm \<Rightarrow> char \<Rightarrow> time_act list" where
  "pair_code t code =
     (let c = basic_code t; lit = (\<lambda>x. Put_char (ch x)) in
      if code = CHR ''D'' then [c CHR ''m'', lit CHR ''/'', c CHR ''d'', lit CHR ''/'', c CHR ''y'']
      else if code = CHR ''F'' then [c CHR ''Y'', lit CHR ''-'', c CHR ''m'', lit CHR ''-'', c CHR ''d'']
      else if code = CHR ''R'' then [c CHR ''H'', lit CHR '':'', c CHR ''M'']
      else if code = CHR ''T'' then [c CHR ''H'', lit CHR '':'', c CHR ''M'', lit CHR '':'', c CHR ''S'']
      else if code = CHR ''r'' then [c CHR ''I'', lit CHR '':'', c CHR ''M'', lit CHR '':'', c CHR ''S'',
                                    lit CHR '' '', c CHR ''p'']
      else [c code])"

definition format_acts :: "tm \<Rightarrow> char \<Rightarrow> time_act list" where
  "format_acts t code =
     (let c = pair_code t; sp = [Put_char (ch CHR '' '')] in
      if code = CHR ''x'' then c CHR ''D''
      else if code = CHR ''X'' then c CHR ''T''
      else if code = CHR ''c'' then
        c CHR ''a'' @ sp @ c CHR ''b'' @ sp @ c CHR ''e'' @ sp @ c CHR ''T'' @ sp @ c CHR ''Y''
      else c code)"

definition writer_format_code :: "tm \<Rightarrow> char \<Rightarrow> writer_state \<Rightarrow> writer_state" where
  "writer_format_code t code = fold do_act (format_acts t code)"

text \<open>The conversion loop, over the format string's characters up to its NUL.\<close>

fun strftime_loop :: "tm \<Rightarrow> string \<Rightarrow> writer_state \<Rightarrow> writer_state" where
  "strftime_loop t [] s = s"
| "strftime_loop t (c # cs) s =
     (if tw_failed (fst s) \<noteq> 0 then s
      else if c \<noteq> CHR ''%'' then strftime_loop t cs (writer_char (ch c) s)
      else
        case cs of
          [] \<Rightarrow> do_act Bad_code s
        | d # ds \<Rightarrow>
            if d = CHR ''E'' \<or> d = CHR ''O'' then
              (case ds of [] \<Rightarrow> do_act Bad_code s
               | e # es \<Rightarrow> strftime_loop t es (writer_format_code t e s))
            else strftime_loop t ds (writer_format_code t d s))"

definition strftime :: "mem \<Rightarrow> addr \<Rightarrow> nat \<Rightarrow> string option \<Rightarrow> tm option \<Rightarrow> nat \<times> mem \<times> int option" where
  "strftime m s maxsize format timeptr =
     (case (format, timeptr) of
        (Some fmt, Some t) \<Rightarrow>
          if maxsize \<noteq> 0 \<and> s = null_ptr \<or> \<not> valid_text_tm t then (0, m, Some EINVAL)
          else
            let w = \<lparr>tw_buffer = s, tw_capacity = maxsize, tw_length = 0, tw_failed = 0\<rparr>;
                m0 = (if maxsize \<noteq> 0 then m(s := 0) else m);
                (w, m1) = writer_finish (strftime_loop t fmt (w, m0))
            in if tw_failed w \<noteq> 0 then (0, m1, if tw_failed w = 2 then Some EINVAL else None)
               else (tw_length w, m1, None)
      | _ \<Rightarrow> (0, m, Some EINVAL))"


subsection \<open>Clocks\<close>

text \<open>The system call is a parameter: its result and the time it stored. The functions return their
  value, the new \<open>errno\<close> (if it was set) and the time they stored through their pointer.\<close>

record timespec =
  tv_sec :: int
  tv_nsec :: int

type_synonym clock_gettime = "int \<Rightarrow> int \<times> timespec"

definition CLOCKS_PER_SEC :: int where "CLOCKS_PER_SEC = 1000000"
definition TIME_UTC :: int where "TIME_UTC = 1"
definition MINI_CLOCK_REALTIME :: int where "MINI_CLOCK_REALTIME = 0"
definition MINI_CLOCK_PROCESS_CPUTIME_ID :: int where "MINI_CLOCK_PROCESS_CPUTIME_ID = 2"

definition sample_clock :: "clock_gettime \<Rightarrow> int \<Rightarrow> int \<times> timespec \<times> int option" where
  "sample_clock sys clock_id =
     (let (r, ts) = sys clock_id in if r < 0 then (0, ts, Some (- r)) else (1, ts, None))"

definition time :: "clock_gettime \<Rightarrow> bool \<Rightarrow> int \<times> int option \<times> int option" where
  "time sys timer_given =
     (let (ok, ts, e) = sample_clock sys MINI_CLOCK_REALTIME
      in if ok = 0 then (- 1, e, None)
         else (tv_sec ts, e, if timer_given then Some (tv_sec ts) else None))"

definition timespec_get :: "clock_gettime \<Rightarrow> bool \<Rightarrow> int \<Rightarrow> int \<times> int option \<times> timespec option" where
  "timespec_get sys ts_given base =
     (if \<not> ts_given \<or> base \<noteq> TIME_UTC then (0, Some EINVAL, None)
      else let (ok, ts, e) = sample_clock sys MINI_CLOCK_REALTIME
           in if ok = 0 then (0, e, Some ts) else (TIME_UTC, e, Some ts))"

definition clock :: "clock_gettime \<Rightarrow> int \<times> int option" where
  "clock sys =
     (let (ok, ts, e) = sample_clock sys MINI_CLOCK_PROCESS_CPUTIME_ID
      in if ok = 0 then (- 1, e)
         else if tv_sec ts < 0 \<or> tv_nsec ts < 0 \<or> 1000000000 \<le> tv_nsec ts \<or>
                 LONG_MAX sdiv CLOCKS_PER_SEC < tv_sec ts then (- 1, Some ERANGE)
         else
           let seconds_part = tv_sec ts * CLOCKS_PER_SEC; micros_part = tv_nsec ts sdiv 1000
           in if LONG_MAX - seconds_part < micros_part then (- 1, Some ERANGE)
              else (seconds_part + micros_part, e))"

subsection \<open>The Gregorian calendar\<close>

text \<open>The reference: leap years, the lengths of the months, and the date after a date.\<close>

definition gregorian_leap :: "int \<Rightarrow> bool" where
  "gregorian_leap y = (4 dvd y \<and> (\<not> 100 dvd y \<or> 400 dvd y))"

definition month_length :: "int \<Rightarrow> int \<Rightarrow> int" where
  "month_length y m =
     (if m = 2 then (if gregorian_leap y then 29 else 28)
      else if m = 4 \<or> m = 6 \<or> m = 9 \<or> m = 11 then 30 else 31)"

fun valid_date :: "int \<times> int \<times> int \<Rightarrow> bool" where
  "valid_date (y, m, d) = (1 \<le> m \<and> m \<le> 12 \<and> 1 \<le> d \<and> d \<le> month_length y m)"

fun next_date :: "int \<times> int \<times> int \<Rightarrow> int \<times> int \<times> int" where
  "next_date (y, m, d) =
     (if d < month_length y m then (y, m, d + 1)
      else if m < 12 then (y, m + 1, 1) else (y + 1, 1, 1))"

definition day_number :: "int \<times> int \<times> int \<Rightarrow> int" where
  "day_number = (\<lambda>(y, m, d). days_from_civil y m d)"

lemma smod_sdiv_pos:
  assumes "0 < d"
  shows "(v::int) smod d = (if v < 0 then - ((- v) mod d) else v mod d)"
    and "v sdiv d = (if v < 0 then - ((- v) div d) else v div d)"
  using assms by (auto simp: signed_divide_int_def signed_modulo_int_def sgn_if minus_div_mult_eq_mod
      [symmetric] algebra_simps zmod_zminus1_eq_if)

lemma floor_div_eq: "0 < d \<Longrightarrow> floor_div v d = v div d"
  and floor_mod_eq: "0 < d \<Longrightarrow> floor_mod v d = v mod d"
proof -
  assume d: "0 < d"
  have neg: "v < 0 \<Longrightarrow> v div d = (if (- v) mod d = 0 then - ((- v) div d) else - ((- v) div d) - 1)"
    using d zdiv_zminus1_eq_if [of d "- v"] by simp
  have nmod: "v < 0 \<Longrightarrow> v mod d = (if (- v) mod d = 0 then 0 else d - (- v) mod d)"
    using d zmod_zminus1_eq_if [of "- v" d] by simp
  have rng: "0 \<le> (- v) mod d" "0 \<le> v mod d" using d by simp_all
  show "floor_div v d = v div d"
  proof (cases "v < 0")
    case True
    then show ?thesis using neg rng(1) unfolding floor_div_def smod_sdiv_pos [OF d]
      by (cases "(- v) mod d = 0") (simp_all only: if_True if_False, simp_all)
  qed (use rng in \<open>simp add: floor_div_def smod_sdiv_pos [OF d]\<close>)
  show "floor_mod v d = v mod d"
  proof (cases "v < 0")
    case True
    then show ?thesis using nmod rng(1) unfolding floor_mod_def smod_sdiv_pos [OF d]
      by (cases "(- v) mod d = 0") (simp_all only: if_True if_False, simp_all)
  qed (use rng in \<open>simp add: floor_mod_def smod_sdiv_pos [OF d]\<close>)
qed

lemma is_leap_year_gregorian: "is_leap_year y = gregorian_leap y"
  by (auto simp: is_leap_year_def gregorian_leap_def smod_sdiv_pos dvd_eq_mod_eq_0 zmod_zminus1_eq_if
      split: if_splits)

text \<open>The days before the first of March of year \<open>y\<close>, and before a month counted from March.\<close>

definition year_base :: "int \<Rightarrow> int" where
  "year_base y = 365 * y + y div 4 - y div 100 + y div 400"

definition month_base :: "int \<Rightarrow> int" where
  "month_base mp = (153 * mp + 2) div 5"

lemma year_base_era:
  "year_base y = (y div 400) * 146097 + (y mod 400) * 365 + (y mod 400) div 4 - (y mod 400) div 100"
proof -
  define e r where "e = y div 400" and "r = y mod 400"
  have y: "y = 400 * e + r" by (simp add: e_def r_def)
  have "y div 4 = 100 * e + r div 4" "y div 100 = 4 * e + r div 100" by (simp_all add: y)
  then show ?thesis by (simp add: year_base_def e_def [symmetric] r_def [symmetric]) (simp add: y)
qed

lemma days_from_civil_eq:
  "days_from_civil y m d =
     year_base (if m \<le> 2 then y - 1 else y) + month_base (if 2 < m then m - 3 else m + 9) + d - 1 - 719468"
proof -
  have r: "x - x div 400 * 400 = x mod 400" for x :: int
    by (simp add: minus_div_mult_eq_mod)
  show ?thesis
    unfolding days_from_civil_def Let_def floor_div_eq [of 400, simplified] r year_base_era month_base_def
    by (cases "m \<le> 2") (simp_all add: mult.commute)
qed

lemma div_step:
  assumes "0 < (n::int)"
  shows "y div n - (y - 1) div n = (if n dvd y then 1 else 0)"
proof -
  define q r where "q = (y - 1) div n" and "r = (y - 1) mod n"
  have y: "y = n * q + (r + 1)" and r: "0 \<le> r" "r < n"
    using assms by (auto simp: q_def r_def)
  show ?thesis
  proof (cases "r + 1 = n")
    case True
    then have y': "y = n * (q + 1)" using y by (simp add: algebra_simps)
    then have "y div n = q + 1" "n dvd y" using assms by simp_all
    then show ?thesis by (simp add: q_def [symmetric])
  next
    case False
    then have "y div n = q" "y mod n = r + 1" using y r by (simp_all add: div_pos_pos_trivial)
    then show ?thesis using r by (simp add: q_def [symmetric] dvd_eq_mod_eq_0)
  qed
qed

lemma leap_count:
  fixes a :: int
  assumes "a - a' = (if P then 1 else 0)" "b - b' = (if Q then 1 else 0)" "c - c' = (if R then 1 else 0)"
    and "Q \<Longrightarrow> P" "R \<Longrightarrow> Q"
  shows "365 * y + a - b + c = 365 * (y - 1) + a' - b' + c' + (if P \<and> (\<not> Q \<or> R) then 366 else 365)"
  using assms by (cases P; cases Q; cases R) simp_all

lemma year_base_step: "year_base y = year_base (y - 1) + (if gregorian_leap y then 366 else 365)"
  unfolding year_base_def gregorian_leap_def
proof (rule leap_count; (rule div_step)?)
  show "4 dvd y" if "100 dvd y" using that dvd_trans [of 4 100 y] by simp
  show "100 dvd y" if "400 dvd y" using that dvd_trans [of 100 400 y] by simp
qed simp_all

text \<open>The twelve months, one by one.\<close>

lemma month_cases:
  assumes "1 \<le> (m::int)" "m \<le> 12"
  obtains "m = 1" | "m = 2" | "m = 3" | "m = 4" | "m = 5" | "m = 6" | "m = 7" | "m = 8" | "m = 9"
    | "m = 10" | "m = 11" | "m = 12"
proof -
  have "m \<in> {1, 2, 3, 4, 5, 6, 7, 8, 9, 10, 11, 12}" using assms by simp presburger
  then show thesis using that by blast
qed

lemma day_number_step:
  assumes "valid_date x"
  shows "day_number (next_date x) = day_number x + 1 \<and> valid_date (next_date x)
    \<and> day_number (1970, 1, 1) = 0"
proof -
  obtain y m d where x: "x = (y, m, d)" by (cases x)
  have m: "1 \<le> m" "m \<le> 12" and d: "1 \<le> d" "d \<le> month_length y m" using assms by (auto simp: x)
  have "day_number (next_date x) = day_number x + 1 \<and> valid_date (next_date x)"
    by (rule month_cases [OF m]; insert d year_base_step [of y])
      (simp_all add: x day_number_def days_from_civil_eq month_length_def month_base_def)
  moreover have "day_number (1970, 1, 1) = 0" by code_simp
  ultimately show ?thesis by simp
qed

subsection \<open>Dates back from day numbers\<close>

definition year_numerator :: "int \<Rightarrow> int" where
  "year_numerator d = d - d div 1460 + d div 36524 - d div 146096"

text \<open>The first and the last day, within an era of 400 years, of the year (from March) \<open>y\<close>.\<close>

definition era_year_start :: "int \<Rightarrow> int" where
  "era_year_start y = 365 * y + y div 4 - y div 100"

definition era_year_last :: "int \<Rightarrow> int" where
  "era_year_last y = era_year_start y + (if gregorian_leap (y + 1) then 365 else 364)"

lemma div_le_shift: "a \<le> b \<Longrightarrow> b div 1460 - a div 1460 \<le> b - (a::int)"
proof -
  assume ab: "a \<le> b"
  have "b div 1460 \<le> (a + 1460 * (b - a)) div 1460" using ab by (intro zdiv_mono1) simp_all
  then show ?thesis by simp
qed

lemma year_numerator_mono:
  assumes "0 \<le> a" "a \<le> b" "b \<le> 146096"
  shows "year_numerator a \<le> year_numerator b"
proof (cases "b = 146096")
  case True
  have "a div 36524 - a div 146096 \<le> 3"
  proof (cases "a = 146096")
    case False
    then have "a div 36524 \<le> 146095 div 36524" using assms by (intro zdiv_mono1) simp_all
    then show ?thesis using assms pos_imp_zdiv_nonneg_iff [of 146096 a] by simp
  qed simp
  moreover have "b div 36524 - b div 146096 = 3" by (simp add: True)
  ultimately show ?thesis using div_le_shift [OF assms(2)] unfolding year_numerator_def by linarith
next
  case False
  have "a div 36524 \<le> b div 36524" using assms(2) by (intro zdiv_mono1) simp_all
  moreover have "a div 146096 = 0" "b div 146096 = 0" using False assms by simp_all
  ultimately show ?thesis using div_le_shift [OF assms(2)] unfolding year_numerator_def by linarith
qed

lemma year_table:
  "\<forall>y \<in> set [0..399]. 365 * y \<le> year_numerator (era_year_start y) \<and>
     year_numerator (era_year_last y) < 365 * (y + 1) \<and> 0 \<le> era_year_start y \<and> era_year_last y \<le> 146096"
  by code_simp

lemma era_year_inverse:
  assumes "0 \<le> y" "y < 400" "era_year_start y \<le> d" "d \<le> era_year_last y"
  shows "year_numerator d div 365 = y"
proof -
  have "y \<in> set [0..399]" using assms by simp
  from bspec [OF year_table this] have t: "365 * y \<le> year_numerator (era_year_start y)"
    "year_numerator (era_year_last y) < 365 * (y + 1)" "0 \<le> era_year_start y" "era_year_last y \<le> 146096"
    by simp_all
  have "year_numerator (era_year_start y) \<le> year_numerator d"
    "year_numerator d \<le> year_numerator (era_year_last y)"
    using assms t by (auto intro: year_numerator_mono)
  with t have "365 * y \<le> year_numerator d" "year_numerator d < 365 * (y + 1)" by simp_all
  then show ?thesis using int_div_pos_eq [of "year_numerator d" 365 y "year_numerator d - 365 * y"] by simp
qed

lemma month_inverse:
  assumes "1 \<le> m" "m \<le> 12" "1 \<le> d" "d \<le> month_length y m"
  defines "mp \<equiv> (if 2 < m then m - 3 else m + 9)"
  shows "(5 * (month_base mp + d - 1) + 2) div 153 = mp"
    and "0 \<le> month_base mp + d - 1"
    and "month_base mp + d - 1 \<le> (if gregorian_leap (y + (if m \<le> 2 then 0 else 1)) then 365 else 364)"
  subgoal unfolding mp_def
    by (rule month_cases [OF assms(1,2)]; insert assms(3,4);
        simp add: month_length_def month_base_def split: if_splits)
  subgoal unfolding mp_def
    by (rule month_cases [OF assms(1,2)]; insert assms(3,4);
        simp add: month_length_def month_base_def split: if_splits)
  subgoal unfolding mp_def
    by (rule month_cases [OF assms(1,2)]; insert assms(3,4);
        simp add: month_length_def month_base_def split: if_splits)
  done

text \<open>The year, the month and the day are recovered from the day number.\<close>

lemma civil_of_date:
  assumes "valid_date (y, m, d)"
  shows "civil_from_days (days_from_civil y m d) = (y, m, d)"
proof -
  have m: "1 \<le> m" "m \<le> 12" and d: "1 \<le> d" "d \<le> month_length y m" using assms by auto
  define yy where "yy = (if m \<le> 2 then y - 1 else y)"
  define mp where "mp = (if 2 < m then m - 3 else m + 9)"
  define doy where "doy = month_base mp + d - 1"
  define e r where "e = yy div 400" and "r = yy mod 400"
  have r: "0 \<le> r" "r < 400" and yy: "yy = 400 * e + r" by (simp_all add: e_def r_def)
  have doy: "0 \<le> doy" "doy \<le> (if gregorian_leap (r + 1) then 365 else 364)"
  proof -
    have "gregorian_leap (yy + 1) = gregorian_leap (r + 1)"
    proof -
      have "n dvd 400 * e + r + 1 \<longleftrightarrow> n dvd r + 1" if "n dvd 400" for n :: int
        using that dvd_add_right_iff [of n "400 * e" "r + 1"] by (simp add: add.assoc)
      from this [of 4] this [of 100] this [of 400] show ?thesis
        by (simp add: yy gregorian_leap_def)
    qed
    moreover have "yy + 1 = y + (if m \<le> 2 then 0 else 1)" by (simp add: yy_def)
    ultimately show "0 \<le> doy" "doy \<le> (if gregorian_leap (r + 1) then 365 else 364)"
      using month_inverse(2,3) [OF m d] unfolding doy_def mp_def by simp_all
  qed
  define doe where "doe = era_year_start r + doy"
  have in_year: "era_year_start r \<le> doe" "doe \<le> era_year_last r"
    using doy by (simp_all add: doe_def era_year_last_def)
  have "r \<in> set [0..399]" using r by simp
  from bspec [OF year_table this] have doe: "0 \<le> doe" "doe < 146097" using in_year by simp_all
  have z: "days_from_civil y m d + 719468 = 146097 * e + doe"
    unfolding days_from_civil_eq year_base_era yy_def [symmetric] mp_def [symmetric] e_def [symmetric]
      r_def [symmetric]
    by (simp add: doe_def doy_def era_year_start_def)
  have "(146097 * e + doe) div 146097 = e" using doe by simp
  then have era: "floor_div (days_from_civil y m d + 719468) 146097 = e"
    by (simp add: z floor_div_eq)
  have yoe: "(doe - doe div 1460 + doe div 36524 - doe div 146096) div 365 = r"
    using era_year_inverse [OF r in_year] by (simp add: year_numerator_def)
  have mi: "(5 * doy + 2) div 153 = mp" using month_inverse(1) [OF m d] by (simp add: doy_def mp_def)
  have doy_eq: "doe - (365 * r + r div 4 - r div 100) = doy" by (simp add: doe_def era_year_start_def)
  have zdoe: "days_from_civil y m d + 719468 - e * 146097 = doe" using z by simp
  have "civil_from_days (days_from_civil y m d) =
      (r + e * 400 + (if (if mp < 10 then mp + 3 else mp - 9) \<le> 2 then 1 else 0),
       if mp < 10 then mp + 3 else mp - 9, doy - (153 * mp + 2) div 5 + 1)"
    unfolding civil_from_days_def Let_def era zdoe yoe doy_eq mi by simp
  moreover have "(if mp < 10 then mp + 3 else mp - 9) = m" using m by (simp add: mp_def)
  moreover have "doy - (153 * mp + 2) div 5 + 1 = d" by (simp add: doy_def month_base_def)
  moreover have "r + e * 400 + (if m \<le> 2 then 1 else 0) = y" using yy by (simp add: yy_def split: if_splits)
  ultimately show ?thesis by simp
qed

lemma month_length_bounds: "28 \<le> month_length y m" "month_length y m \<le> 31"
  by (simp_all add: month_length_def)

lemma previous_date:
  assumes "valid_date x"
  obtains x' where "valid_date x'" "next_date x' = x"
proof -
  obtain y m d where x: "x = (y, m, d)" by (cases x)
  have m: "1 \<le> m" "m \<le> 12" and d: "1 \<le> d" "d \<le> month_length y m" using assms by (auto simp: x)
  show thesis
  proof (cases "d = 1")
    case False
    then show thesis using m d by (intro that [of "(y, m, d - 1)"]) (auto simp: x)
  next
    case d1: True
    show thesis
    proof (cases "m = 1")
      case True
      then show thesis using d1 by (intro that [of "(y - 1, 12, 31)"]) (auto simp: x month_length_def)
    next
      case False
      then show thesis using d1 m month_length_bounds(1) [of y "m - 1"]
        by (intro that [of "(y, m - 1, month_length y (m - 1))"]) (auto simp: x)
    qed
  qed
qed

lemma every_day_has_a_date: "\<exists>x. valid_date x \<and> day_number x = n"
proof (induction n rule: int_induct [of _ 0])
  case base
  have "valid_date (1970, 1, 1)" by (simp add: month_length_def)
  with day_number_step show ?case by blast
next
  case (step1 n)
  then obtain x where "valid_date x" "day_number x = n" by blast
  then show ?case using day_number_step [of x] by (metis add.commute)
next
  case (step2 n)
  then obtain x where x: "valid_date x" "day_number x = n" by blast
  obtain x' where "valid_date x'" "next_date x' = x" by (rule previous_date [OF x(1)])
  then have "day_number x' = n - 1" using day_number_step [of x'] x(2) by simp
  with \<open>valid_date x'\<close> show ?case by blast
qed

lemma civil_from_days_valid:
  "valid_date (civil_from_days n) \<and> day_number (civil_from_days n) = n"
proof -
  obtain y m d where x: "valid_date (y, m, d)" "day_number (y, m, d) = n"
    using every_day_has_a_date [of n] by (metis prod_cases3)
  then have "civil_from_days n = (y, m, d)" using civil_of_date [OF x(1)] by (simp add: day_number_def)
  with x show ?thesis by simp
qed

lemma day_of_year_bounds:
  assumes "valid_date (y, m, d)"
  shows "0 \<le> days_from_civil y m d - days_from_civil y 1 1"
    and "days_from_civil y m d - days_from_civil y 1 1 \<le> 365"
proof -
  have m: "1 \<le> m" "m \<le> 12" and d: "1 \<le> d" "d \<le> month_length y m" using assms by auto
  show "0 \<le> days_from_civil y m d - days_from_civil y 1 1"
    by (rule month_cases [OF m]; insert d year_base_step [of y];
        simp add: days_from_civil_eq month_length_def month_base_def split: if_splits)
  show "days_from_civil y m d - days_from_civil y 1 1 \<le> 365"
    by (rule month_cases [OF m]; insert d year_base_step [of y];
        simp add: days_from_civil_eq month_length_def month_base_def split: if_splits)
qed

lemma days_from_civil_shift: "days_from_civil y m 1 + (d - 1) = days_from_civil y m d"
  by (simp add: days_from_civil_eq)

text \<open>The seconds since 1970 a broken-down time stands for.\<close>

definition tm_date :: "tm \<Rightarrow> int \<times> int \<times> int" where
  "tm_date r = (tm_year r + 1900, tm_mon r + 1, tm_mday r)"

definition tm_seconds :: "tm \<Rightarrow> int" where
  "tm_seconds r = day_number (tm_date r) * 86400 + tm_hour r * 3600 + tm_min r * 60 + tm_sec r"

definition tm_in_range :: "tm \<Rightarrow> bool" where
  "tm_in_range r = (valid_date (tm_date r) \<and> 0 \<le> tm_sec r \<and> tm_sec r < 60 \<and> 0 \<le> tm_min r \<and> tm_min r < 60 \<and>
     0 \<le> tm_hour r \<and> tm_hour r < 24 \<and> 0 \<le> tm_yday r \<and> tm_yday r \<le> 365 \<and>
     tm_wday r = (day_number (tm_date r) + 4) mod 7 \<and>
     tm_yday r = day_number (tm_date r) - day_number (tm_year r + 1900, 1, 1))"

lemma second_fields:
  assumes "0 \<le> (s::int)" "s < 86400"
  shows "s smod 60 = s mod 60" "s sdiv 60 smod 60 = s div 60 mod 60" "s sdiv 3600 = s div 3600"
    "s div 3600 * 3600 + s div 60 mod 60 * 60 + s mod 60 = s" "s div 3600 < 24" "0 \<le> s div 3600"
proof -
  show "s smod 60 = s mod 60" "s sdiv 60 smod 60 = s div 60 mod 60" "s sdiv 3600 = s div 3600"
    using assms by (simp_all add: smod_sdiv_pos)
  have "s div 3600 = s div 60 div 60" by (simp add: zdiv_zmult2_eq [symmetric])
  then show "s div 3600 * 3600 + s div 60 mod 60 * 60 + s mod 60 = s"
    using div_mult_mod_eq [of s 60] div_mult_mod_eq [of "s div 60" 60] by linarith
  show "0 \<le> s div 3600" using assms by simp
  have "s div 3600 \<le> 86399 div 3600" using assms by (intro zdiv_mono1) simp_all
  then show "s div 3600 < 24" by simp
qed

lemma split_day:
  "(if t smod 86400 < 0 then (t sdiv 86400 - 1, t smod 86400 + 86400)
    else (t sdiv 86400, t smod 86400)) = (t div 86400, t mod (86400::int))"
  using floor_div_eq [of 86400 t] floor_mod_eq [of 86400 t]
  by (auto simp: floor_div_def floor_mod_def split: if_splits)

lemma calendar_from_epoch_fields:
  assumes "calendar_from_epoch t = Some r"
  shows "tm_in_range r" "tm_seconds r = t" "tm_isdst r = 0" "INT_MIN \<le> tm_year r" "tm_year r \<le> INT_MAX"
proof -
  obtain y m d where c: "civil_from_days (t div 86400) = (y, m, d)" by (cases "civil_from_days (t div 86400)")
  define s where "s = t mod 86400"
  have s: "0 \<le> s" "s < 86400" by (simp_all add: s_def)
  have v: "valid_date (y, m, d)" "days_from_civil y m d = t div 86400"
    using civil_from_days_valid [of "t div 86400"] by (auto simp: c day_number_def)
  have y: "INT_MIN \<le> y - 1900" "y - 1900 \<le> INT_MAX" and
    r: "r = \<lparr>tm_sec = s mod 60, tm_min = s div 60 mod 60, tm_hour = s div 3600, tm_mday = d,
        tm_mon = m - 1, tm_year = y - 1900, tm_wday = (t div 86400 + 4) mod 7,
        tm_yday = days_from_civil y m d - days_from_civil y 1 1, tm_isdst = 0\<rparr>"
    using assms
    unfolding calendar_from_epoch_def mini_seconds_per_day_def Let_def split_day prod.case
      s_def [symmetric] second_fields [OF s] floor_mod_eq [of 7, simplified] v(2) [symmetric]
      civil_of_date [OF v(1)]
    by (auto split: if_splits)
  have date: "tm_date r = (y, m, d)" by (simp add: tm_date_def r)
  show "tm_in_range r" unfolding tm_in_range_def date
    using second_fields(5,6) [OF s] v day_of_year_bounds [OF v(1)]
    by (simp add: r day_number_def del: valid_date.simps)
  have "tm_seconds r = t div 86400 * 86400 + (s div 3600 * 3600 + s div 60 mod 60 * 60 + s mod 60)"
    unfolding tm_seconds_def date day_number_def prod.case v(2) by (simp only: r tm.simps add.assoc)
  also have "\<dots> = t div 86400 * 86400 + s" by (simp only: second_fields(4) [OF s])
  finally show "tm_seconds r = t" by (simp add: s_def)
  show "tm_isdst r = 0" "INT_MIN \<le> tm_year r" "tm_year r \<le> INT_MAX" using y by (simp_all add: r)
qed

lemma mktime_total_in_range:
  assumes "tm_in_range r"
  shows "mktime_total r = tm_seconds r"
proof -
  have mon: "tm_mon r div 12 = 0" using assms by (auto simp: tm_in_range_def tm_date_def)
  have "mktime_total r = days_from_civil (tm_year r + 1900) (tm_mon r + 1) (tm_mday r) * 86400 +
      (tm_hour r * 3600 + tm_min r * 60 + tm_sec r)"
    unfolding mktime_total_def Let_def floor_div_eq [of 12, simplified] mon
      mini_seconds_per_day_def days_from_civil_shift
    by (simp add: algebra_simps days_from_civil_shift)
  then show ?thesis by (simp add: tm_seconds_def tm_date_def day_number_def)
qed

text \<open>C16. Breaking down a time and composing it again: whenever \<open>gmtime\<close> succeeds, its fields are those
  of a real date and time of day (day of week and of year included) that stands for the given number
  of seconds, and \<open>mktime\<close> on them returns that number and leaves the struct as it is.\<close>

theorem gmtime_mktime_roundtrip:
  assumes "gmtime (Some t) = (Some r, e)"
  shows "mktime (Some r) = (t, Some r, None) \<and> tm_in_range r \<and> tm_seconds r = t \<and> e = None"
proof -
  have c: "calendar_from_epoch t = Some r" and e: "e = None"
    using assms by (auto simp: gmtime_def split: option.splits)
  note f = calendar_from_epoch_fields [OF c]
  have "mktime (Some r) = (t, Some r, None)"
    using c f mktime_total_in_range [of r] by (simp add: mktime_def)
  with f e show ?thesis by simp
qed

lemma gmtime_mktime_roundtrip_witness:
  "mktime (fst (gmtime (Some (- 1)))) = (- 1, fst (gmtime (Some (- 1))), None)"
proof -
  have "fst (gmtime (Some (- 1))) \<noteq> None" by code_simp
  then obtain r e where r: "gmtime (Some (- 1)) = (Some r, e)"
    by (metis not_None_eq prod.exhaust_sel)
  show ?thesis using gmtime_mktime_roundtrip [OF r] r by simp
qed

subsection \<open>What the writer writes\<close>

text \<open>The writer's state after bytes \<open>bs\<close> were offered to a buffer of \<open>n\<close> bytes at \<open>a\<close>: as many of them
  as leave room for the closing NUL.\<close>

definition written :: "nat \<Rightarrow> addr \<Rightarrow> mem \<Rightarrow> byte list \<Rightarrow> writer_state" where
  "written n a m bs =
     (\<lparr>tw_buffer = a, tw_capacity = n, tw_length = min (length bs) (n - 1),
       tw_failed = (if length bs < n \<or> bs = [] then 0 else 1)\<rparr>,
      if n = 0 then m else write_bytes m a (take (n - 1) bs @ [0]))"

lemma write_bytes_close:
  "(write_bytes m a (xs @ [0]))(a + length xs := b, Suc (a + length xs) := 0) = write_bytes m a (xs @ [b, 0])"
  by (simp add: write_bytes_append)

lemma writer_char_written: "writer_char b (written n a m bs) = written n a m (bs @ [b])"
proof (cases "n = 0")
  case True
  then show ?thesis by (simp add: written_def)
next
  case n: False
  show ?thesis
  proof (cases "length bs < n - 1")
    case True
    then have "length bs < n" "take (n - 1) bs = bs" "take (n - 1) (bs @ [b]) = bs @ [b]"
      "min (length bs) (n - 1) = length bs" "min (length (bs @ [b])) (n - 1) = Suc (length bs)"
      "length (bs @ [b]) < n"
      using n by simp_all
    then show ?thesis using n True write_bytes_close [of m a bs b] by (simp add: written_def Let_def)
  next
    case False
    then have "take (n - 1) (bs @ [b]) = take (n - 1) bs" "\<not> length (bs @ [b]) < n"
      "min (length (bs @ [b])) (n - 1) = n - 1" "min (length bs) (n - 1) = n - 1"
      by simp_all
    then show ?thesis using n by (simp add: written_def)
  qed
qed

lemma writer_chars_written: "fold writer_char cs (written n a m bs) = written n a m (bs @ cs)"
  by (induction cs arbitrary: bs) (simp_all add: writer_char_written)

lemma written_failed_absorbs:
  "tw_failed (fst (written n a m bs)) \<noteq> 0 \<Longrightarrow> written n a m (bs @ cs) = written n a m bs"
  by (auto simp: written_def split: if_splits)

lemma writer_text_written: "writer_text cs (written n a m bs) = written n a m (bs @ cs)"
proof (induction cs arbitrary: bs)
  case (Cons c cs)
  show ?case
    using Cons.IH [of "bs @ [c]"] written_failed_absorbs [of n a m bs "c # cs"]
    by (cases "tw_failed (fst (written n a m bs)) = 0") (simp_all add: writer_char_written)
qed simp

text \<open>The text of a conversion, and of a format up to its first unknown conversion.\<close>

definition decimal_text :: "nat \<Rightarrow> nat \<Rightarrow> byte \<Rightarrow> byte list" where
  "decimal_text v n pad = replicate (n - length (reverse_digits v)) pad @ rev (reverse_digits v)"

fun act_text :: "time_act \<Rightarrow> byte list" where
  "act_text (Put_char b) = [b]"
| "act_text (Put_text bs) = bs"
| "act_text (Put_unsigned v n pad) = decimal_text (nat v) n pad"
| "act_text Bad_code = []"

definition code_text :: "tm \<Rightarrow> char \<Rightarrow> byte list option" where
  "code_text t code =
     (if Bad_code \<in> set (format_acts t code) then None
      else Some (concat (map act_text (format_acts t code))))"

fun expand_format :: "tm \<Rightarrow> string \<Rightarrow> byte list \<times> bool" where
  "expand_format t [] = ([], True)"
| "expand_format t (c # cs) =
     (if c \<noteq> CHR ''%'' then (let (bs, ok) = expand_format t cs in (ch c # bs, ok))
      else
        case cs of
          [] \<Rightarrow> ([], False)
        | d # ds \<Rightarrow>
            if d = CHR ''E'' \<or> d = CHR ''O'' then
              (case ds of [] \<Rightarrow> ([], False)
               | e # es \<Rightarrow> (case code_text t e of None \<Rightarrow> ([], False)
                   | Some x \<Rightarrow> let (bs, ok) = expand_format t es in (x @ bs, ok)))
            else (case code_text t d of None \<Rightarrow> ([], False)
                  | Some x \<Rightarrow> let (bs, ok) = expand_format t ds in (x @ bs, ok)))"

lemma do_act_written:
  "act \<noteq> Bad_code \<Longrightarrow> do_act act (written n a m bs) = written n a m (bs @ act_text act)"
  by (cases act) (simp_all add: writer_char_written writer_text_written writer_unsigned_def
      writer_chars_written decimal_text_def Let_def del: fold_replicate)

lemma do_acts_written:
  "Bad_code \<notin> set acts \<Longrightarrow> fold do_act acts (written n a m bs) = written n a m (bs @ concat (map act_text acts))"
proof (induction acts arbitrary: bs)
  case (Cons x acts)
  then have "x \<noteq> Bad_code" by auto
  with Cons show ?case by (simp add: do_act_written)
qed simp

lemma bad_code_alone: "Bad_code \<in> set (format_acts t code) \<Longrightarrow> format_acts t code = [Bad_code]"
  by (auto simp: format_acts_def pair_code_def Let_def basic_code_def split: if_splits)

definition spoiled :: "writer_state \<Rightarrow> writer_state" where
  "spoiled s = ((fst s)\<lparr>tw_failed := 2\<rparr>, snd s)"

lemma do_act_bad: "do_act Bad_code s = spoiled s"
  by (cases s) (simp add: spoiled_def)

lemma writer_format_code_written:
  "writer_format_code t code (written n a m bs) =
     (case code_text t code of None \<Rightarrow> spoiled (written n a m bs) | Some x \<Rightarrow> written n a m (bs @ x))"
proof (cases "Bad_code \<in> set (format_acts t code)")
  case True
  from bad_code_alone [OF this] show ?thesis by (simp add: writer_format_code_def code_text_def do_act_bad)
next
  case False
  from do_acts_written [OF this] False show ?thesis by (simp add: writer_format_code_def code_text_def)
qed

lemma strftime_loop_stops: "tw_failed (fst s) \<noteq> 0 \<Longrightarrow> strftime_loop t cs s = s"
  by (cases cs) simp_all

text \<open>The loop, from any point of it.\<close>

lemma strftime_loop_written:
  "strftime_loop t fmt (written n a m bs) =
     (let (cs, ok) = expand_format t fmt; s = written n a m (bs @ cs)
      in if ok \<or> tw_failed (fst s) \<noteq> 0 then s else spoiled s)"
proof (induction t fmt arbitrary: bs rule: expand_format.induct)
  case (1 t)
  then show ?case by simp
next
  case (2 t c cs)
  show ?case
  proof (cases "tw_failed (fst (written n a m bs)) = 0")
    case False
    then show ?thesis by (simp add: strftime_loop_stops written_failed_absorbs Let_def split: prod.split)
  next
    case run: True
    have code: "strftime_loop t es (writer_format_code t e (written n a m bs)) =
        (let (zs, ok) = (case code_text t e of None \<Rightarrow> ([], False)
             | Some x \<Rightarrow> let (ys, ok) = expand_format t es in (x @ ys, ok)); s = written n a m (bs @ zs)
         in if ok \<or> tw_failed (fst s) \<noteq> 0 then s else spoiled s)"
      if IH: "\<And>x ws. code_text t e = Some x \<Longrightarrow> strftime_loop t es (written n a m ws) =
         (let (cs, ok) = expand_format t es; s = written n a m (ws @ cs)
          in if ok \<or> tw_failed (fst s) \<noteq> 0 then s else spoiled s)" for e es
    proof (cases "code_text t e")
      case None
      then show ?thesis using run
        by (simp add: writer_format_code_written strftime_loop_stops spoiled_def Let_def)
    next
      case (Some x)
      then show ?thesis
        by (simp add: writer_format_code_written IH [OF Some] split: prod.split)
    qed
    show ?thesis
    proof (cases "c = CHR ''%''")
      case False
      then show ?thesis using run "2.IH"(1) [OF False, of "bs @ [ch c]"]
        by (simp add: writer_char_written split: prod.split)
    next
      case pc: True
      show ?thesis
      proof (cases cs)
        case Nil
        then show ?thesis using run pc by (simp add: do_act_bad)
      next
        case (Cons d ds)
        show ?thesis
        proof (cases "d = CHR ''E'' \<or> d = CHR ''O''")
          case eo: True
          show ?thesis
          proof (cases ds)
            case Nil
            then show ?thesis using run pc Cons eo by (auto simp: do_act_bad)
          next
            case (Cons e es)
            show ?thesis using code [of e es] "2.IH"(2) [of d ds e es] run pc \<open>cs = d # ds\<close> Cons eo
              by auto
          qed
        next
          case neo: False
          show ?thesis using code [of d ds] "2.IH"(3) [of d ds] run pc Cons neo by auto
        qed
      qed
    qed
  qed
qed

lemma writer_finish_written:
  assumes "n \<noteq> 0 \<Longrightarrow> a \<noteq> null_ptr"
  shows "writer_finish (written n a m bs) = written n a m bs"
    and "writer_finish (spoiled (written n a m bs)) = spoiled (written n a m bs)"
proof -
  have "write_bytes m a (take (n - 1) bs @ [0]) (a + min (length bs) (n - 1)) = 0" if "n \<noteq> 0"
    using write_bytes_inside [of "min (length bs) (n - 1)" "take (n - 1) bs @ [0]" m a] by (simp add: nth_append)
  then have "(write_bytes m a (take (n - 1) bs @ [0]))(a + min (length bs) (n - 1) := 0) =
      write_bytes m a (take (n - 1) bs @ [0])" if "n \<noteq> 0" using that by (simp add: fun_upd_idem)
  moreover have "min (length bs) (n - 1) < n" if "n \<noteq> 0" using that by auto
  ultimately show "writer_finish (written n a m bs) = written n a m bs"
    "writer_finish (spoiled (written n a m bs)) = spoiled (written n a m bs)"
    using assms by (auto simp: written_def spoiled_def)
qed

text \<open>C17. \<open>strftime\<close>, for any format, buffer size and time in range. If the format expands to a text that
  fits together with its closing NUL, exactly that is stored and its length returned. Otherwise
  nothing outside the buffer changes, the buffer holds as much of the text as fits, closed by NUL,
  and the result is 0, with EINVAL exactly when an unknown or truncated conversion was reached.\<close>

theorem strftime_writes_expansion:
  assumes "maxsize \<noteq> 0 \<Longrightarrow> s \<noteq> null_ptr" "valid_text_tm t" "expand_format t fmt = (bs, ok)"
  shows "strftime m s maxsize (Some fmt) (Some t) =
    (if ok \<and> length bs < maxsize then (length bs, write_bytes m s (bs @ [0]), None)
     else (0, if maxsize = 0 then m else write_bytes m s (take (maxsize - 1) bs @ [0]),
           if \<not> ok \<and> (length bs < maxsize \<or> bs = []) then Some EINVAL else None))"
proof -
  have start: "(\<lparr>tw_buffer = s, tw_capacity = maxsize, tw_length = 0, tw_failed = 0\<rparr>,
      if maxsize \<noteq> 0 then m(s := 0) else m) = written maxsize s m []"
    by (simp add: written_def)
  have "strftime_loop t fmt (written maxsize s m []) =
      (let w = written maxsize s m bs in if ok \<or> tw_failed (fst w) \<noteq> 0 then w else spoiled w)"
    using strftime_loop_written [of t fmt maxsize s m "[]"] assms(3) by simp
  then have fin: "writer_finish (strftime_loop t fmt (written maxsize s m [])) =
      (let w = written maxsize s m bs in if ok \<or> tw_failed (fst w) \<noteq> 0 then w else spoiled w)"
    using writer_finish_written [of maxsize s m bs] assms(1) by (simp add: Let_def)
  have guard: "\<not> (maxsize \<noteq> 0 \<and> s = null_ptr \<or> \<not> valid_text_tm t)" using assms by auto
  have "strftime m s maxsize (Some fmt) (Some t) =
      (let (w, m1) = (let w = written maxsize s m bs in if ok \<or> tw_failed (fst w) \<noteq> 0 then w else spoiled w)
       in if tw_failed w \<noteq> 0 then (0, m1, if tw_failed w = 2 then Some EINVAL else None)
          else (tw_length w, m1, None))"
    unfolding strftime_def option.case prod.case if_not_P [OF guard] Let_def start fin [unfolded Let_def]
    by (rule refl)
  then show ?thesis
    by (cases "length bs < maxsize"; cases "bs = []"; cases ok)
      (simp_all add: written_def spoiled_def Let_def)
qed

lemma strftime_writes_expansion_witness:
  "strftime (\<lambda>_. 7) 100 30 (Some ''%Y-%m-%dT%H:%M:%SZ %a'') (fst (gmtime (Some 951782399))) =
    (24, write_bytes (\<lambda>_. 7) 100 (bytes_of ''2000-02-28T23:59:59Z Mon'' @ [0]), None)"
proof -
  define t where "t = \<lparr>tm_sec = 59, tm_min = 59, tm_hour = 23, tm_mday = 28, tm_mon = 1, tm_year = 100,
     tm_wday = 1, tm_yday = 58, tm_isdst = 0\<rparr>"
  have g: "gmtime (Some 951782399) = (Some t, None)"
    unfolding t_def gmtime_def calendar_from_epoch_def by simp code_simp
  have e: "expand_format t ''%Y-%m-%dT%H:%M:%SZ %a'' = (bytes_of ''2000-02-28T23:59:59Z Mon'', True)"
    unfolding t_def by code_simp
  have v: "valid_text_tm t" by (simp add: t_def valid_text_tm_def)
  show ?thesis using strftime_writes_expansion [OF _ v e, of 30 100 "\<lambda>_. 7"] by (simp add: g)
qed

subsection \<open>Weeks\<close>

text \<open>ISO 8601: a week belongs to the year its Thursday lies in, and is numbered from there.\<close>

definition jan1 :: "int \<Rightarrow> int" where
  "jan1 y = days_from_civil y 1 1"

definition iso_week_of_day :: "int \<Rightarrow> int \<times> int" where
  "iso_week_of_day n =
     (let thursday = n - (n + 3) mod 7 + 3; year = fst (civil_from_days thursday)
      in (year, (thursday - jan1 year) div 7 + 1))"

definition year_length :: "int \<Rightarrow> int" where
  "year_length y = (if gregorian_leap y then 366 else 365)"

lemma jan1_Suc: "jan1 (y + 1) = jan1 y + year_length y"
  using year_base_step [of y] by (simp add: jan1_def days_from_civil_eq year_length_def)

lemma year_length_pos: "365 \<le> year_length y" "year_length y \<le> 366"
  by (simp_all add: year_length_def)

lemma jan1_mono: "y \<le> z \<Longrightarrow> jan1 y \<le> jan1 z"
proof (induction z rule: int_ge_induct)
  case (step z)
  then show ?case using jan1_Suc [of z] year_length_pos [of z] by simp
qed simp

lemma date_in_year:
  assumes "valid_date (y, m, d)"
  shows "jan1 y \<le> days_from_civil y m d" "days_from_civil y m d < jan1 (y + 1)"
proof -
  have m: "1 \<le> m" "m \<le> 12" and d: "1 \<le> d" "d \<le> month_length y m" using assms by auto
  show "jan1 y \<le> days_from_civil y m d" using day_of_year_bounds [OF assms] by (simp add: jan1_def)
  show "days_from_civil y m d < jan1 (y + 1)" unfolding jan1_Suc
    by (rule month_cases [OF m]; insert d year_base_step [of y];
        simp add: jan1_def year_length_def days_from_civil_eq month_length_def month_base_def split: if_splits)
qed

lemma year_of_day:
  assumes "jan1 y \<le> n" "n < jan1 (y + 1)"
  shows "fst (civil_from_days n) = y"
proof -
  obtain z m d where c: "civil_from_days n = (z, m, d)" by (cases "civil_from_days n")
  have v: "valid_date (z, m, d)" "days_from_civil z m d = n"
    using civil_from_days_valid [of n] by (auto simp: c day_number_def)
  note b = date_in_year [OF v(1), unfolded v(2)]
  have "z = y"
  proof (rule ccontr)
    assume "z \<noteq> y"
    then consider "z + 1 \<le> y" | "y + 1 \<le> z" by linarith
    then show False
      by cases (use jan1_mono [of "z + 1" y] jan1_mono [of "y + 1" z] b assms in \<open>simp_all\<close>)
  qed
  then show ?thesis by (simp add: c)
qed

lemma iso_weeks_in_year_eq:
  "iso_weeks_in_year y = (if jan1 y mod 7 = 0 \<or> jan1 y mod 7 = 6 \<and> year_length y = 366 then 53 else 52)"
proof -
  have "(jan1 y + 4) mod 7 = 4 \<longleftrightarrow> jan1 y mod 7 = 0" "(jan1 y + 4) mod 7 = 3 \<longleftrightarrow> jan1 y mod 7 = 6"
    by presburger+
  then show ?thesis
    by (simp add: iso_weeks_in_year_def weekday_for_date_def floor_mod_eq is_leap_year_gregorian
        jan1_def year_length_def Let_def)
qed

text \<open>A Thursday \<open>k\<close> days into a year: inside it, just before its end, or just after.\<close>

lemma thursday_weeks:
  assumes k: "(jan1 y + k) mod 7 = 0"
  shows "\<lbrakk>0 \<le> k; k < year_length y\<rbrakk> \<Longrightarrow> k div 7 + 1 \<le> iso_weeks_in_year y"
    and "\<lbrakk>year_length y - 3 \<le> k; k < year_length y\<rbrakk> \<Longrightarrow> iso_weeks_in_year y = k div 7 + 1"
    and "\<lbrakk>year_length y \<le> k; k < year_length y + 3\<rbrakk> \<Longrightarrow> iso_weeks_in_year y < k div 7 + 1"
proof -
  have l: "year_length y = 365 \<or> year_length y = 366" by (simp add: year_length_def)
  have c: "jan1 y mod 7 = (- k) mod 7"
  proof -
    have "(- k) mod 7 = (jan1 y - (jan1 y + k)) mod 7" by simp
    also have "\<dots> = jan1 y mod 7" by (subst mod_diff_right_eq [symmetric]) (simp add: k)
    finally show ?thesis ..
  qed
  have at_end: "iso_weeks_in_year y = k div 7 + 1" if "year_length y - 3 \<le> k" "k < year_length y"
  proof -
    have "k = 362 \<or> k = 363 \<or> k = 364 \<or> k = 365 \<and> year_length y = 366" using that l by linarith
    then show ?thesis unfolding iso_weeks_in_year_eq c by auto
  qed
  then show "\<lbrakk>year_length y - 3 \<le> k; k < year_length y\<rbrakk> \<Longrightarrow> iso_weeks_in_year y = k div 7 + 1" .
  show "k div 7 + 1 \<le> iso_weeks_in_year y" if "0 \<le> k" "k < year_length y"
  proof (cases "k < 364")
    case True
    then have "k div 7 \<le> 363 div 7" by (intro zdiv_mono1) simp_all
    then show ?thesis by (simp add: iso_weeks_in_year_eq)
  next
    case False
    with at_end that l show ?thesis by linarith
  qed
  show "iso_weeks_in_year y < k div 7 + 1" if "year_length y \<le> k" "k < year_length y + 3"
  proof -
    have "k = 365 \<and> year_length y = 365 \<or> k = 366 \<or> k = 367 \<or> k = 368" using that l by linarith
    then show ?thesis unfolding iso_weeks_in_year_eq c by auto
  qed
qed

text \<open>C18. The ISO 8601 week number and week-based year \<open>strftime\<close> prints (\<open>%V\<close>, \<open>%G\<close>, \<open>%g\<close>) are those of
  the definition: the year that holds the Thursday of the week, and the number of that Thursday
  among the Thursdays of its year; for every date of every year.\<close>

theorem iso_week_is_week_of_thursday:
  assumes "tm_in_range t"
  shows "iso_week_fields t = iso_week_of_day (day_number (tm_date t))"
proof -
  define y n where "y = tm_year t + 1900" and "n = day_number (tm_date t)"
  define w where "w = (if tm_wday t = 0 then 7 else tm_wday t)"
  define k where "k = tm_yday t - w + 4"
  have wd: "tm_wday t = (n + 4) mod 7" and yd: "tm_yday t = n - jan1 y"
    using assms by (simp_all add: tm_in_range_def n_def y_def jan1_def day_number_def)
  have w: "w = (n + 3) mod 7 + 1" 
  proof -
    define r where "r = (n + 3) mod 7"
    have "0 \<le> r" "r < 7" by (simp_all add: r_def)
    moreover have "(n + 4) mod 7 = (r + 1) mod 7" 
    proof -
      have "n + 4 = n + 3 + 1" by simp
      then show ?thesis unfolding r_def mod_add_left_eq by (rule arg_cong)
    qed
    ultimately show ?thesis unfolding w_def wd r_def [symmetric] by (cases "r = 6") simp_all
  qed
  define th where "th = n - (n + 3) mod 7 + 3"
  have th: "th = jan1 y + k" by (simp add: th_def k_def w yd)
  have th7: "th mod 7 = 0"
  proof -
    have "th = (n + 3) - (n + 3) mod 7" by (simp add: th_def)
    then show ?thesis by (simp add: minus_mod_eq_mult_div)
  qed
  have date: "jan1 y \<le> n" "n < jan1 y + year_length y"
    using date_in_year [of y "tm_mon t + 1" "tm_mday t"] assms
    by (simp_all add: tm_in_range_def tm_date_def day_number_def y_def n_def jan1_Suc [symmetric])
  have kr: "- 3 \<le> k" "k < year_length y + 3" using date w yd pos_mod_bound [of 7 "n + 3"] pos_mod_sign [of 7 "n + 3"]
    by (simp_all add: k_def)
  have week: "(tm_yday t + 1 - w + 10) sdiv 7 = k div 7 + 1"
  proof -
    have "0 \<le> tm_yday t + 1 - w + 10" using kr by (simp add: k_def)
    then have "(tm_yday t + 1 - w + 10) sdiv 7 = (k + 7) div 7" by (simp add: smod_sdiv_pos k_def algebra_simps)
    then show ?thesis by simp
  qed
  have impl: "iso_week_fields t =
      (if k div 7 + 1 < 1 then (y - 1, iso_weeks_in_year (y - 1))
       else if iso_weeks_in_year y < k div 7 + 1 then (y + 1, 1) else (y, k div 7 + 1))"
    unfolding iso_week_fields_def Let_def w_def [symmetric] y_def [symmetric] week ..
  have spec: "iso_week_of_day n = (fst (civil_from_days th), (th - jan1 (fst (civil_from_days th))) div 7 + 1)"
    by (simp add: iso_week_of_day_def th_def Let_def)
  note tw = thursday_weeks [of y k, folded th, OF th7]
  consider (before) "k < 0" | (inside) "0 \<le> k" "k < year_length y" | (after) "year_length y \<le> k"
    by linarith
  then have "iso_week_fields t = iso_week_of_day n"
  proof cases
    case before
    define k' where "k' = k + year_length (y - 1)"
    have prev: "jan1 y = jan1 (y - 1) + year_length (y - 1)" using jan1_Suc [of "y - 1"] by simp
    have th': "th = jan1 (y - 1) + k'" by (simp add: th k'_def prev)
    have k': "year_length (y - 1) - 3 \<le> k'" "k' < year_length (y - 1)" using kr before by (simp_all add: k'_def)
    have "iso_weeks_in_year (y - 1) = k' div 7 + 1"
      using thursday_weeks(2) [of "y - 1" k'] th7 k' by (simp add: th')
    moreover have "fst (civil_from_days th) = y - 1"
      using year_of_day [of "y - 1" th] k' year_length_pos [of "y - 1"] prev by (simp add: th')
    moreover have "k div 7 + 1 < 1" using before by (simp add: div_neg_pos_less0)
    ultimately show ?thesis unfolding impl spec by (simp add: th')
  next
    case inside
    have "fst (civil_from_days th) = y" using year_of_day [of y th] inside by (simp add: th jan1_Suc)
    moreover have "\<not> k div 7 + 1 < 1" using inside by (simp add: pos_imp_zdiv_nonneg_iff)
    moreover have "\<not> iso_weeks_in_year y < k div 7 + 1" using tw(1) [OF inside] by simp
    ultimately show ?thesis unfolding impl spec by (simp add: th)
  next
    case after
    have "fst (civil_from_days th) = y + 1"
      using year_of_day [of "y + 1" th] after kr year_length_pos [of "y + 1"] jan1_Suc [of y] jan1_Suc [of "y + 1"]
      by (simp add: th)
    moreover have "iso_weeks_in_year y < k div 7 + 1" using tw(3) after kr by simp
    moreover have "\<not> k div 7 + 1 < 1" using after year_length_pos [of y] by (simp add: pos_imp_zdiv_nonneg_iff)
    moreover have "(k - year_length y) div 7 = 0" using after kr by simp
    ultimately show ?thesis unfolding impl spec by (simp add: th jan1_Suc)
  qed
  then show ?thesis by (simp add: n_def)
qed

lemma iso_week_is_week_of_thursday_witness:
  "map_option iso_week_fields (fst (gmtime (Some 1104537600))) = Some (2004, 53)"
proof -
  have "fst (gmtime (Some 1104537600)) \<noteq> None" by code_simp
  then obtain t e where t: "gmtime (Some 1104537600) = (Some t, e)" by (metis not_None_eq prod.exhaust_sel)
  then have c: "calendar_from_epoch 1104537600 = Some t" by (auto simp: gmtime_def split: option.splits)
  note r = calendar_from_epoch_fields(1,2) [OF c]
  have "0 \<le> tm_sec t" "tm_sec t < 60" "0 \<le> tm_min t" "tm_min t < 60" "0 \<le> tm_hour t" "tm_hour t < 24"
    using r(1) by (simp_all add: tm_in_range_def)
  then have "day_number (tm_date t) = 12784" using r(2) unfolding tm_seconds_def by linarith
  then have "iso_week_fields t = iso_week_of_day 12784"
    using iso_week_is_week_of_thursday [OF r(1)] by simp
  also have "\<dots> = (2004, 53)" by code_simp
  finally show ?thesis by (simp add: t)
qed

text \<open>C15. The dates \<open>civil_from_days\<close> assigns to the days since 1970 are those of the Gregorian calendar,
  for every day, before and after 1970: day 0 is 1970-01-01, each next day has the next date under
  the rules of leap years and month lengths, and \<open>days_from_civil\<close> is the inverse.\<close>

theorem civil_from_days_counts_dates:
  "civil_from_days 0 = (1970, 1, 1) \<and> civil_from_days (n + 1) = next_date (civil_from_days n)
   \<and> valid_date (civil_from_days n) \<and> day_number (civil_from_days n) = n"
proof -
  note v = civil_from_days_valid [of n]
  note s = day_number_step [OF conjunct1 [OF v]]
  obtain y m d where d: "next_date (civil_from_days n) = (y, m, d)" by (cases "next_date (civil_from_days n)")
  have "civil_from_days (n + 1) = (y, m, d)"
    using civil_of_date [of y m d] s v by (simp add: d day_number_def)
  moreover have "civil_from_days 0 = (1970, 1, 1)" by code_simp
  ultimately show ?thesis using v d by simp
qed

text \<open>No product or sum of \<open>clock\<close> leaves the range of \<open>long\<close>, and the result is exact.\<close>

lemma clock_exact:
  assumes "clock sys = (c, None)" "c \<noteq> - 1"
  shows "0 \<le> c" "c \<le> LONG_MAX" "c = tv_sec (snd (sys 2)) * 1000000 + tv_nsec (snd (sys 2)) div 1000"
  using assms
  by (auto simp: clock_def sample_clock_def Let_def CLOCKS_PER_SEC_def MINI_CLOCK_PROCESS_CPUTIME_ID_def
      smod_sdiv_pos pos_imp_zdiv_nonneg_iff split: if_splits prod.splits)
end
