(* ===== verification/Wchar.thy ===== *)
theory Wchar
  imports Prelude
begin

unbundle bit_operations_syntax

section \<open>Multibyte and wide characters (\<open>wchar/wchar.c\<close>, \<open>stdlib/multibyte.c\<close>)\<close>

text \<open>
  The restartable conversions between bytes and wide characters, in the C encoding (ASCII) and in
  UTF-8, the string conversions over them and the basic wide-string functions. The encoding mode
  is an argument: it is \<open>__mini_locale_is_utf8()\<close>. A pointer that may be null is an option; a
  pointer to wide characters is counted in units of \<open>wchar_t\<close>, over a memory of its own. What the
  conversions should compute is the encoding form of the Unicode standard, given by arithmetic
  (\<open>utf8\<close>); the code's shifts and masks are proved to agree with it in both directions.
\<close>

subsection \<open>Definitions\<close>

type_synonym wchar = u32
type_synonym wmem = "addr \<Rightarrow> wchar"

record mbstate =
  mb_count :: u32
  mb_value :: u32

text \<open>The two static states, for calls without a state of their own, and \<open>errno\<close>.\<close>

record mb_env =
  mini_mbr_state :: mbstate
  mini_wcr_state :: mbstate
  mb_errno :: int

definition MINI_C_MB_MAX :: u32 where "MINI_C_MB_MAX = 0x7f"
definition MINI_UTF8_MAX :: u32 where "MINI_UTF8_MAX = 0x10ffff"
definition MINI_UTF8_SURROGATE_FIRST :: u32 where "MINI_UTF8_SURROGATE_FIRST = 0xd800"
definition MINI_UTF8_SURROGATE_LAST :: u32 where "MINI_UTF8_SURROGATE_LAST = 0xdfff"

text \<open>\<open>(size_t)-1\<close> and \<open>(size_t)-2\<close>.\<close>

definition conv_error :: u64 where "conv_error = - 1"
definition conv_incomplete :: u64 where "conv_incomplete = - 2"

definition reset_state :: mbstate where
  "reset_state = \<lparr>mb_count = 0, mb_value = 0\<rparr>"

definition state_remaining :: "mbstate \<Rightarrow> u32" where
  "state_remaining ps = mb_count ps AND 0xff"

definition state_total :: "mbstate \<Rightarrow> u32" where
  "state_total ps = drop_bit 8 (mb_count ps)"

definition start_state :: "u32 \<Rightarrow> u32 \<Rightarrow> u32 \<Rightarrow> mbstate" where
  "start_state tot remaining v = \<lparr>mb_count = push_bit 8 tot OR remaining, mb_value = v\<rparr>"

definition valid_scalar :: "u32 \<Rightarrow> bool" where
  "valid_scalar v =
     (v \<le> MINI_UTF8_MAX \<and> (v < MINI_UTF8_SURROGATE_FIRST \<or> MINI_UTF8_SURROGATE_LAST < v))"

definition minimum_scalar :: "u32 \<Rightarrow> u32" where
  "minimum_scalar tot = (if tot = 2 then 0x80 else if tot = 3 then 0x800 else 0x10000)"

definition mbsinit :: "mbstate option \<Rightarrow> bool" where
  "mbsinit ps = (case ps of None \<Rightarrow> True | Some s \<Rightarrow> mb_count s = 0 \<and> mb_value s = 0)"

text \<open>The decoders on a non-null input of \<open>n\<close> bytes: the result, the wide character stored (if one
  is), the new state, and the new \<open>errno\<close> (if it is set).\<close>

type_synonym conversion = "u64 \<times> wchar option \<times> mbstate \<times> int option"

definition c_decode :: "mem \<Rightarrow> addr \<Rightarrow> mbstate \<Rightarrow> conversion" where
  "c_decode m s st =
     (if \<not> mbsinit (Some st) then (conv_error, None, reset_state, Some EILSEQ)
      else if MINI_C_MB_MAX < ucast (m s) then (conv_error, None, st, Some EILSEQ)
      else (if m s = 0 then 0 else 1, Some (ucast (m s)), st, None))"

text \<open>The UTF-8 loop: what a byte does to a state between characters, and inside one.\<close>

definition utf8_lead :: "byte \<Rightarrow> mbstate option" where
  "utf8_lead b =
     (if 0xc2 \<le> b \<and> b \<le> 0xdf then Some (start_state 2 1 (ucast b AND 0x1f))
      else if 0xe0 \<le> b \<and> b \<le> 0xef then Some (start_state 3 2 (ucast b AND 0x0f))
      else if 0xf0 \<le> b \<and> b \<le> 0xf4 then Some (start_state 4 3 (ucast b AND 0x07))
      else None)"

function utf8_loop :: "mem \<Rightarrow> addr \<Rightarrow> nat \<Rightarrow> nat \<Rightarrow> mbstate \<Rightarrow> conversion" where
  "utf8_loop m s n used st =
     (if used < n then
        let b = m (s + used) in
        if state_remaining st = 0 then
          if b = 0 then (0, Some 0, reset_state, None)
          else if b \<le> 0x7f then (1, Some (ucast b), st, None)
          else case utf8_lead b of
              None \<Rightarrow> (conv_error, None, reset_state, Some EILSEQ)
            | Some st' \<Rightarrow> utf8_loop m s n (used + 1) st'
        else if b < 0x80 \<or> 0xbf < b then (conv_error, None, reset_state, Some EILSEQ)
        else
          let remaining = state_remaining st - 1;
              tot = state_total st;
              v = push_bit 6 (mb_value st) OR (ucast b AND 0x3f)
          in if remaining \<noteq> 0 then utf8_loop m s n (used + 1) (start_state tot remaining v)
             else if v < minimum_scalar tot \<or> \<not> valid_scalar v
               then (conv_error, None, reset_state, Some EILSEQ)
             else (of_nat (used + 1), Some v, reset_state, None)
      else (conv_incomplete, None, st, None))"
  by pat_completeness auto
termination by (relation "measure (\<lambda>(m, s, n, used, st). n - used)") auto

declare utf8_loop.simps [simp del]

definition set_err :: "int option \<Rightarrow> mb_env \<Rightarrow> mb_env" where
  "set_err e env = (case e of None \<Rightarrow> env | Some x \<Rightarrow> env\<lparr>mb_errno := x\<rparr>)"

text \<open>\<open>select_state\<close>: the caller's state, or the static one; and putting the new state back.\<close>

definition select_state :: "mbstate option \<Rightarrow> mbstate \<Rightarrow> mbstate" where
  "select_state ps fallback = (case ps of None \<Rightarrow> fallback | Some s \<Rightarrow> s)"

definition put_mbr :: "mbstate option \<Rightarrow> mbstate \<Rightarrow> mb_env \<Rightarrow> mbstate option \<times> mb_env" where
  "put_mbr ps st env = (case ps of None \<Rightarrow> (None, env\<lparr>mini_mbr_state := st\<rparr>) | Some _ \<Rightarrow> (Some st, env))"

definition put_wcr :: "mbstate option \<Rightarrow> mbstate \<Rightarrow> mb_env \<Rightarrow> mbstate option \<times> mb_env" where
  "put_wcr ps st env = (case ps of None \<Rightarrow> (None, env\<lparr>mini_wcr_state := st\<rparr>) | Some _ \<Rightarrow> (Some st, env))"

text \<open>\<open>__mini_mbrtowc_mode\<close>: the result, the character stored through \<open>pwc\<close> when it is not null, the
  caller's state and the environment.\<close>

definition mbrtowc_mode ::
  "mem \<Rightarrow> bool \<Rightarrow> addr option \<Rightarrow> nat \<Rightarrow> mbstate option \<Rightarrow> bool \<Rightarrow> mb_env
   \<Rightarrow> u64 \<times> wchar option \<times> mbstate option \<times> mb_env" where
  "mbrtowc_mode m pwc s n ps utf8 env =
     (let state = select_state ps (mini_mbr_state env) in
      case s of
        None \<Rightarrow> let (ps, env) = put_mbr ps reset_state env in (0, None, ps, env)
      | Some s \<Rightarrow>
          if n = 0 then (conv_incomplete, None, ps, env)
          else
            let (r, wc, st, e) = (if utf8 then utf8_loop m s n 0 state else c_decode m s state);
                (ps, env) = put_mbr ps st env
            in (r, if pwc then wc else None, ps, set_err e env))"

definition mbrtowc ::
  "bool \<Rightarrow> mem \<Rightarrow> bool \<Rightarrow> addr option \<Rightarrow> nat \<Rightarrow> mbstate option \<Rightarrow> mb_env
   \<Rightarrow> u64 \<times> wchar option \<times> mbstate option \<times> mb_env" where
  "mbrtowc utf8 m pwc s n ps env = mbrtowc_mode m pwc s n ps utf8 env"

text \<open>The bytes \<open>__mini_wcrtomb_mode\<close> stores for a character, if it stores any.\<close>

definition utf8_bytes :: "u32 \<Rightarrow> byte list" where
  "utf8_bytes v =
     (if v \<le> 0x7f then [ucast v]
      else if v \<le> 0x7ff then [ucast (0xc0 OR drop_bit 6 v), ucast (0x80 OR (v AND 0x3f))]
      else if v \<le> 0xffff then
        [ucast (0xe0 OR drop_bit 12 v), ucast (0x80 OR (drop_bit 6 v AND 0x3f)), ucast (0x80 OR (v AND 0x3f))]
      else
        [ucast (0xf0 OR drop_bit 18 v), ucast (0x80 OR (drop_bit 12 v AND 0x3f)),
         ucast (0x80 OR (drop_bit 6 v AND 0x3f)), ucast (0x80 OR (v AND 0x3f))])"

definition encode :: "bool \<Rightarrow> wchar \<Rightarrow> byte list option" where
  "encode utf8 wc =
     (if wc <s 0 then None
      else if \<not> utf8 then (if MINI_C_MB_MAX < wc then None else Some [ucast wc])
      else if \<not> valid_scalar wc then None
      else Some (utf8_bytes wc))"

definition wcrtomb_mode ::
  "mem \<Rightarrow> addr option \<Rightarrow> wchar \<Rightarrow> mbstate option \<Rightarrow> bool \<Rightarrow> mb_env
   \<Rightarrow> u64 \<times> mem \<times> mbstate option \<times> mb_env" where
  "wcrtomb_mode m s wc ps utf8 env =
     (let (ps, env) = put_wcr ps reset_state env in
      case s of
        None \<Rightarrow> (1, m, ps, env)
      | Some s \<Rightarrow>
          (case encode utf8 wc of
             None \<Rightarrow> (conv_error, m, ps, env\<lparr>mb_errno := EILSEQ\<rparr>)
           | Some bs \<Rightarrow> (of_nat (length bs), write_bytes m s bs, ps, env)))"

definition wcrtomb ::
  "bool \<Rightarrow> mem \<Rightarrow> addr option \<Rightarrow> wchar \<Rightarrow> mbstate option \<Rightarrow> mb_env \<Rightarrow> u64 \<times> mem \<times> mbstate option \<times> mb_env" where
  "wcrtomb utf8 m s wc ps env = wcrtomb_mode m s wc ps utf8 env"

function source_window :: "mem \<Rightarrow> addr \<Rightarrow> nat \<Rightarrow> nat \<Rightarrow> nat" where
  "source_window m s maximum l =
     (if l < maximum then (if m (s + l) = 0 then l + 1 else source_window m s maximum (l + 1)) else l)"
  by pat_completeness auto
termination by (relation "measure (\<lambda>(m, s, maximum, l). maximum - l)") auto

declare source_window.simps [simp del]

text \<open>The loop of \<open>mbsrtowcs\<close>: the result, the wide memory, the final \<open>*src\<close>
  (\<^term>\<open>Some None\<close> null, \<^term>\<open>None\<close> not stored), the state and the environment.\<close>

partial_function (option) mbsrtowcs_loop ::
  "bool \<Rightarrow> mem \<Rightarrow> wmem \<Rightarrow> addr option \<Rightarrow> addr \<Rightarrow> nat \<Rightarrow> nat \<Rightarrow> mbstate option \<Rightarrow> mb_env
   \<Rightarrow> (u64 \<times> wmem \<times> addr option option \<times> mbstate option \<times> mb_env) option" where
  "mbsrtowcs_loop utf8 m wm dst cursor count len ps env =
     (if dst \<noteq> None \<and> len \<le> count then Some (of_nat count, wm, Some (Some cursor), ps, env)
      else
        let window = source_window m cursor (if utf8 then 4 else 1) 0;
            (converted, wc, ps, env) = mbrtowc utf8 m True (Some cursor) window ps env;
            src = (if dst = None then None else Some (Some cursor))
        in if converted = conv_error then Some (conv_error, wm, src, ps, env)
           else if converted = conv_incomplete
             then Some (conv_error, wm, src, ps, env\<lparr>mb_errno := EILSEQ\<rparr>)
           else if converted = 0 then
             (case dst of None \<Rightarrow> Some (of_nat count, wm, None, ps, env)
              | Some d \<Rightarrow> Some (of_nat count, wm(d + count := 0), Some None, ps, env))
           else
             mbsrtowcs_loop utf8 m
               (case dst of None \<Rightarrow> wm | Some d \<Rightarrow> wm(d + count := the wc)) dst
               (cursor + unat converted) (count + 1) len ps env)"

text \<open>With a null destination the caller's state is only read, and a null state starts afresh.\<close>

definition mbsrtowcs ::
  "bool \<Rightarrow> mem \<Rightarrow> wmem \<Rightarrow> addr option \<Rightarrow> addr \<Rightarrow> nat \<Rightarrow> mbstate option \<Rightarrow> mb_env
   \<Rightarrow> (u64 \<times> wmem \<times> addr option option \<times> mbstate option \<times> mb_env) option" where
  "mbsrtowcs utf8 m wm dst src len ps env =
     (if dst = None then
        map_option (\<lambda>(r, wm, s, _, env). (r, wm, s, ps, env))
          (mbsrtowcs_loop utf8 m wm dst src 0 len (Some (case ps of None \<Rightarrow> reset_state | Some st \<Rightarrow> st)) env)
      else mbsrtowcs_loop utf8 m wm dst src 0 len ps env)"

partial_function (option) wcsrtombs_loop ::
  "bool \<Rightarrow> wmem \<Rightarrow> mem \<Rightarrow> addr option \<Rightarrow> addr \<Rightarrow> nat \<Rightarrow> nat \<Rightarrow> mbstate option \<Rightarrow> mb_env
   \<Rightarrow> (u64 \<times> mem \<times> addr option option \<times> mbstate option \<times> mb_env) option" where
  "wcsrtombs_loop utf8 wm m dst cursor count len ps env =
     (let (ps, env) = put_wcr ps reset_state env;
          src = (if dst = None then None else Some (Some cursor))
      in case encode utf8 (wm cursor) of
           None \<Rightarrow> Some (conv_error, m, src, ps, env\<lparr>mb_errno := EILSEQ\<rparr>)
         | Some encoded \<Rightarrow>
             if wm cursor = 0 then
               (case dst of None \<Rightarrow> Some (of_nat count, m, None, ps, env)
                | Some d \<Rightarrow>
                    if len \<le> count then Some (of_nat count, m, Some (Some cursor), ps, env)
                    else Some (of_nat count, m(d + count := 0), Some None, ps, env))
             else if dst \<noteq> None \<and> len - count < length encoded
               then Some (of_nat count, m, Some (Some cursor), ps, env)
             else
               wcsrtombs_loop utf8 wm (case dst of None \<Rightarrow> m | Some d \<Rightarrow> write_bytes m (d + count) encoded)
                 dst (cursor + 1) (count + length encoded) len ps env)"

definition wcsrtombs ::
  "bool \<Rightarrow> wmem \<Rightarrow> mem \<Rightarrow> addr option \<Rightarrow> addr \<Rightarrow> nat \<Rightarrow> mbstate option \<Rightarrow> mb_env
   \<Rightarrow> (u64 \<times> mem \<times> addr option option \<times> mbstate option \<times> mb_env) option" where
  "wcsrtombs utf8 wm m dst src len ps env =
     (if dst = None then
        map_option (\<lambda>(r, m, s, _, env). (r, m, s, ps, env))
          (wcsrtombs_loop utf8 wm m dst src 0 len (Some (case ps of None \<Rightarrow> reset_state | Some st \<Rightarrow> st)) env)
      else wcsrtombs_loop utf8 wm m dst src 0 len ps env)"

text \<open>The functions of \<open>multibyte.c\<close>, each with a fresh state.\<close>

definition mblen :: "bool \<Rightarrow> mem \<Rightarrow> addr option \<Rightarrow> nat \<Rightarrow> mb_env \<Rightarrow> int \<times> mb_env" where
  "mblen utf8 m s n env =
     (if s = None then (0, env)
      else let (r, wc, ps, env) = mbrtowc utf8 m False s n (Some reset_state) env
           in if r = conv_error \<or> r = conv_incomplete then (- 1, env) else (int (unat r), env))"

definition mbtowc :: "bool \<Rightarrow> mem \<Rightarrow> bool \<Rightarrow> addr option \<Rightarrow> nat \<Rightarrow> mb_env \<Rightarrow> int \<times> wchar option \<times> mb_env" where
  "mbtowc utf8 m pwc s n env =
     (if s = None then (0, None, env)
      else let (r, wc, ps, env) = mbrtowc utf8 m pwc s n (Some reset_state) env
           in if r = conv_error \<or> r = conv_incomplete then (- 1, wc, env) else (int (unat r), wc, env))"

definition wctomb :: "bool \<Rightarrow> mem \<Rightarrow> addr option \<Rightarrow> wchar \<Rightarrow> mb_env \<Rightarrow> int \<times> mem \<times> mb_env" where
  "wctomb utf8 m s wc env =
     (if s = None then (0, m, env)
      else let (r, m, ps, env) = wcrtomb utf8 m s wc (Some reset_state) env
           in if r = conv_error then (- 1, m, env) else (int (unat r), m, env))"

definition mbstowcs ::
  "bool \<Rightarrow> mem \<Rightarrow> wmem \<Rightarrow> addr option \<Rightarrow> addr \<Rightarrow> nat \<Rightarrow> mb_env \<Rightarrow> (u64 \<times> wmem \<times> mb_env) option" where
  "mbstowcs utf8 m wm dst src len env =
     map_option (\<lambda>(r, wm, _, _, env). (r, wm, env)) (mbsrtowcs utf8 m wm dst src len (Some reset_state) env)"

definition wcstombs ::
  "bool \<Rightarrow> wmem \<Rightarrow> mem \<Rightarrow> addr option \<Rightarrow> addr \<Rightarrow> nat \<Rightarrow> mb_env \<Rightarrow> (u64 \<times> mem \<times> mb_env) option" where
  "wcstombs utf8 wm m dst src len env =
     map_option (\<lambda>(r, m, _, _, env). (r, m, env)) (wcsrtombs utf8 wm m dst src len (Some reset_state) env)"

text \<open>Wide strings.\<close>

partial_function (option) wcslen_loop :: "wmem \<Rightarrow> addr \<Rightarrow> addr \<Rightarrow> nat option" where
  "wcslen_loop wm s cursor = (if wm cursor \<noteq> 0 then wcslen_loop wm s (cursor + 1) else Some (cursor - s))"

definition wcslen :: "wmem \<Rightarrow> addr \<Rightarrow> nat option" where
  "wcslen wm s = wcslen_loop wm s s"

partial_function (option) wcscmp :: "wmem \<Rightarrow> addr \<Rightarrow> addr \<Rightarrow> int option" where
  "wcscmp wm l r =
     (if wm l \<noteq> 0 \<and> wm l = wm r then wcscmp wm (l + 1) (r + 1)
      else if wm l <s wm r then Some (- 1) else if wm r <s wm l then Some 1 else Some 0)"

partial_function (option) wcscpy_loop :: "wmem \<Rightarrow> addr \<Rightarrow> addr \<Rightarrow> wmem option" where
  "wcscpy_loop wm dst src =
     (let wm' = wm(dst := wm src) in if wm' src \<noteq> 0 then wcscpy_loop wm' (dst + 1) (src + 1) else Some wm')"

definition wcscpy :: "wmem \<Rightarrow> addr \<Rightarrow> addr \<Rightarrow> (wmem \<times> addr) option" where
  "wcscpy wm dst src = map_option (\<lambda>wm'. (wm', dst)) (wcscpy_loop wm dst src)"


subsection \<open>The encoding form\<close>

text \<open>UTF-8 as the Unicode standard gives it, by arithmetic on scalar values.\<close>

definition scalar :: "nat \<Rightarrow> bool" where
  "scalar v = (v < 0xd800 \<or> 0xdfff < v \<and> v \<le> 0x10ffff)"

definition utf8 :: "nat \<Rightarrow> nat list" where
  "utf8 v =
     (if v < 0x80 then [v]
      else if v < 0x800 then [0xc0 + v div 64, 0x80 + v mod 64]
      else if v < 0x10000 then [0xe0 + v div 4096, 0x80 + v div 64 mod 64, 0x80 + v mod 64]
      else [0xf0 + v div 262144, 0x80 + v div 4096 mod 64, 0x80 + v div 64 mod 64, 0x80 + v mod 64])"

lemma word_and_mask_mod: "unat (x AND mask k) = unat (x :: 'a::len word) mod 2 ^ k"
  by (simp only: take_bit_eq_mask [symmetric] unsigned_take_bit_eq take_bit_eq_mod [where 'a = nat])

lemma or_is_sum:
  fixes x :: "'a::len word"
  assumes "c AND mask k = 0" "unat x < 2 ^ k"
  shows "c OR x = c + x"
proof -
  have "unat (x AND mask k) = unat x" using assms(2) by (simp add: word_and_mask_mod)
  then have "x = x AND mask k" by (simp add: unsigned_word_eqI word_unat_eq_iff)
  then have "c AND x = (c AND mask k) AND x" by (metis and.assoc and.commute)
  then have "c AND x = 0" using assms(1) by simp
  then show ?thesis using word_plus_and_or [of c x] by simp
qed

text \<open>A byte of the encoding: a marker in the high bits and a number below it.\<close>

lemma marked_byte:
  fixes c x :: u32
  assumes "c AND mask k = 0" "unat x < 2 ^ k" "unat c + unat x < 256"
  shows "(ucast (c OR x) :: byte) = of_nat (unat c + unat x)"
proof -
  have "c OR x = of_nat (unat c + unat x)" using or_is_sum [OF assms(1,2)] by simp
  moreover have "unat (of_nat (unat c + unat x) :: u32) = unat c + unat x"
    using assms(3) by (simp only: unsigned_of_nat of_nat_id) (rule take_bit_nat_eq_self, simp)
  ultimately have "unat (c OR x) = unat c + unat x" by simp
  then show ?thesis by (metis of_nat_unat)
qed

lemma marked_bytes [c_consts]:
  fixes x :: u32
  shows "(ucast (0x80 OR (x AND 0x3f)) :: byte) = of_nat (0x80 + unat x mod 64)"
    and "unat x < 32 \<Longrightarrow> (ucast (0xc0 OR x) :: byte) = of_nat (0xc0 + unat x)"
    and "unat x < 16 \<Longrightarrow> (ucast (0xe0 OR x) :: byte) = of_nat (0xe0 + unat x)"
    and "unat x < 8 \<Longrightarrow> (ucast (0xf0 OR x) :: byte) = of_nat (0xf0 + unat x)"
proof -
  have m: "(0x3f :: u32) = mask 6" by (simp add: mask_eq_exp_minus_1)
  have l: "unat (x AND mask 6) < 64" by (simp only: word_and_mask_mod) simp
  then have "(ucast (0x80 OR (x AND mask 6)) :: byte) = of_nat (unat (0x80 :: u32) + unat (x AND mask 6))"
    by (intro marked_byte [where k = 6]) (simp_all add: mask_eq_exp_minus_1)
  then show "(ucast (0x80 OR (x AND 0x3f)) :: byte) = of_nat (0x80 + unat x mod 64)"
    unfolding m word_and_mask_mod by simp
  show "unat x < 32 \<Longrightarrow> (ucast (0xc0 OR x) :: byte) = of_nat (0xc0 + unat x)"
    using marked_byte [of "0xc0" 5 x] by (simp add: mask_eq_exp_minus_1)
  show "unat x < 16 \<Longrightarrow> (ucast (0xe0 OR x) :: byte) = of_nat (0xe0 + unat x)"
    using marked_byte [of "0xe0" 4 x] by (simp add: mask_eq_exp_minus_1)
  show "unat x < 8 \<Longrightarrow> (ucast (0xf0 OR x) :: byte) = of_nat (0xf0 + unat x)"
    using marked_byte [of "0xf0" 3 x] by (simp add: mask_eq_exp_minus_1)
qed

lemma valid_scalar_eq: "valid_scalar v = scalar (unat v)"
  by (simp add: valid_scalar_def scalar_def word_le_nat_alt word_less_nat_alt MINI_UTF8_MAX_def
      MINI_UTF8_SURROGATE_FIRST_def MINI_UTF8_SURROGATE_LAST_def; linarith)

lemma utf8_bytes_eq:
  assumes "valid_scalar v"
  shows "utf8_bytes v = map of_nat (utf8 (unat v))"
proof -
  have le: "v \<le> 0x7f \<longleftrightarrow> unat v < 0x80" "v \<le> 0x7ff \<longleftrightarrow> unat v < 0x800" "v \<le> 0xffff \<longleftrightarrow> unat v < 0x10000"
    by (simp_all add: word_le_nat_alt; linarith)+
  have top: "unat v \<le> 0x10ffff" using assms by (auto simp: valid_scalar_eq scalar_def)
  have d: "unat (drop_bit k v) = unat v div 2 ^ k" for k
    by (simp only: unat_drop_bit_eq drop_bit_eq_div [where 'a = nat])
  have "unat v < 0x800 \<Longrightarrow> unat v div 64 < 32" "unat v < 0x10000 \<Longrightarrow> unat v div 4096 < 16"
    "unat v div 262144 < 8" using top by (auto simp: less_mult_imp_div_less)
  then show ?thesis unfolding utf8_bytes_def utf8_def le by (simp add: c_consts d)
qed

subsection \<open>The decoder, byte by byte\<close>

definition tail :: "byte \<Rightarrow> bool" where
  "tail b = (0x80 \<le> unat b \<and> unat b \<le> 0xbf)"

definition bad_sequence :: conversion where
  "bad_sequence = (conv_error, None, reset_state, Some EILSEQ)"

definition in_sequence :: "u32 \<Rightarrow> u32 \<Rightarrow> bool" where
  "in_sequence t r = ((t, r) \<in> {(2, 1), (3, 2), (3, 1), (4, 3), (4, 2), (4, 1)})"

lemma start_state_fields:
  assumes "in_sequence t r"
  shows "state_remaining (start_state t r v) = r" "state_total (start_state t r v) = t" "r \<noteq> 0"
    "mb_value (start_state t r v) = v"
  using assms by (auto simp: in_sequence_def state_remaining_def state_total_def start_state_def)

lemma unat_ucast_byte: "unat (ucast (b :: byte) :: u32) = unat b"
proof -
  have "unat b < 2 ^ LENGTH(8)" by (rule unsigned_less)
  then have "take_bit LENGTH(32) (unat b) = unat b" by (intro take_bit_nat_eq_self) simp
  then show ?thesis by (simp only: unsigned_ucast_eq)
qed

lemma ucast_and_mask: "unat (ucast (b :: byte) AND mask k :: u32) = unat b mod 2 ^ k"
  by (simp only: word_and_mask_mod unat_ucast_byte)

lemma continued_value:
  assumes "unat v < 2 ^ 26"
  shows "push_bit 6 v OR (ucast (b :: byte) AND 0x3f) = (of_nat (unat v * 64 + unat b mod 64) :: u32)"
proof -
  define x where "x = (ucast b AND mask 6 :: u32)"
  have x: "unat x = unat b mod 64" using ucast_and_mask [of b 6] by (simp add: x_def)
  have "push_bit 6 v AND mask 6 = 0"
    by (simp add: take_bit_eq_mask [symmetric] take_bit_push_bit)
  then have "push_bit 6 v OR x = push_bit 6 v + x" using x by (intro or_is_sum [where k = 6]) simp_all
  also have "\<dots> = of_nat (unat v * 64 + unat b mod 64)"
    by (simp add: x [symmetric] push_bit_eq_mult)
  also have "x = ucast b AND 0x3f" by (simp add: x_def mask_eq_exp_minus_1)
  finally show ?thesis .
qed

lemma unat_small: "x < 2 ^ 32 \<Longrightarrow> unat (of_nat x :: u32) = x"
  by (simp only: unsigned_of_nat of_nat_id) (rule take_bit_nat_eq_self, simp)

definition min_scalar :: "u32 \<Rightarrow> nat" where
  "min_scalar t = (if t = 2 then 0x80 else if t = 3 then 0x800 else 0x10000)"

lemma utf8_loop_tail:
  assumes "in_sequence t r" "unat v < 2 ^ 26" "used < n"
  shows "utf8_loop m s n used (start_state t r v) =
    (let b = m (s + used); w = unat v * 64 + unat b mod 64 in
     if \<not> tail b then bad_sequence
     else if r \<noteq> 1 then utf8_loop m s n (used + 1) (start_state t (r - 1) (of_nat w))
     else if w < min_scalar t \<or> \<not> scalar w then bad_sequence
     else (of_nat (used + 1), Some (of_nat w), reset_state, None))"
proof -
  note f = start_state_fields [OF assms(1)]
  have w: "unat (of_nat (unat v * 64 + unat (m (s + used)) mod 64) :: u32) =
      unat v * 64 + unat (m (s + used)) mod 64"
  proof (rule unat_small)
    have "unat (m (s + used)) mod 64 < 64" by simp
    moreover have "unat v * 64 + 64 \<le> 2 ^ 32" using assms(2) by simp
    ultimately show "unat v * 64 + unat (m (s + used)) mod 64 < 2 ^ 32" by linarith
  qed
  have t: "(m (s + used) < 0x80 \<or> 0xbf < m (s + used)) = (\<not> tail (m (s + used)))"
    by (auto simp: tail_def word_less_nat_alt)
  have mn: "(of_nat (unat v * 64 + unat (m (s + used)) mod 64) < minimum_scalar t) =
      (unat v * 64 + unat (m (s + used)) mod 64 < min_scalar t)"
    unfolding word_less_nat_alt w by (simp add: minimum_scalar_def min_scalar_def)
  show ?thesis
    by (subst utf8_loop.simps)
      (use assms(3) f in \<open>simp only: f t mn valid_scalar_eq w continued_value [OF assms(2)] Let_def
        bad_sequence_def if_True if_False simp_thms right_minus_eq refl if_not_P\<close>)
qed

lemma utf8_lead_eq:
  "utf8_lead b =
    (if 0xc2 \<le> unat b \<and> unat b \<le> 0xdf then Some (start_state 2 1 (of_nat (unat b mod 32)))
     else if 0xe0 \<le> unat b \<and> unat b \<le> 0xef then Some (start_state 3 2 (of_nat (unat b mod 16)))
     else if 0xf0 \<le> unat b \<and> unat b \<le> 0xf4 then Some (start_state 4 3 (of_nat (unat b mod 8)))
     else None)"
proof -
  have c: "ucast b AND mask k = (of_nat (unat b mod 2 ^ k) :: u32)" for k
    using ucast_and_mask [of b k] by (metis of_nat_unat ucast_id)
  show ?thesis
    using c [of 5] c [of 4] c [of 3]
    by (simp add: utf8_lead_def word_le_nat_alt mask_eq_exp_minus_1)
qed

lemma utf8_loop_first:
  assumes "0 < n"
  shows "utf8_loop m s n 0 reset_state =
    (if m s = 0 then (0, Some 0, reset_state, None)
     else if unat (m s) < 0x80 then (1, Some (ucast (m s)), reset_state, None)
     else case utf8_lead (m s) of None \<Rightarrow> bad_sequence | Some st \<Rightarrow> utf8_loop m s n 1 st)"
  using assms
  by (subst utf8_loop.simps)
    (auto simp: state_remaining_def reset_state_def bad_sequence_def word_le_nat_alt Let_def split: option.split)

lemma utf8_loop_end: "n \<le> used \<Longrightarrow> utf8_loop m s n used st = (conv_incomplete, None, st, None)"
  by (subst utf8_loop.simps) simp

lemma byte_of_nat: "x < 256 \<Longrightarrow> unat (of_nat x :: byte) = x"
  by (simp only: unsigned_of_nat of_nat_id) (rule take_bit_nat_eq_self, simp)

lemma in_sequence_table [simp]:
  "in_sequence 2 1" "in_sequence 3 2" "in_sequence 3 1" "in_sequence 4 3" "in_sequence 4 2" "in_sequence 4 1"
  by (simp_all add: in_sequence_def)

lemma base64_digits:
  fixes v :: nat
  shows "v div 64 * 64 + v mod 64 = v"
    and "(v div 4096 * 64 + v div 64 mod 64) * 64 + v mod 64 = v"
    and "((v div 262144 * 64 + v div 4096 mod 64) * 64 + v div 64 mod 64) * 64 + v mod 64 = v"
proof -
  show a: "v div 64 * 64 + v mod 64 = v" for v :: nat by simp
  have b: "v div 4096 = v div 64 div 64" "v div 262144 = v div 64 div 64 div 64"
    by (simp_all add: div_mult2_eq [symmetric])
  show c: "(v div 4096 * 64 + v div 64 mod 64) * 64 + v mod 64 = v"
    by (simp only: b a)
  show "((v div 262144 * 64 + v div 4096 mod 64) * 64 + v div 64 mod 64) * 64 + v mod 64 = v"
    by (simp only: b a)
qed

lemma byte_field:
  fixes b :: nat
  assumes "c mod k = 0" "c \<le> b" "b < c + k"
  shows "b mod k = b - c"
proof -
  obtain x where "b = c + x" using assms(2) le_Suc_ex by blast
  then show ?thesis using assms by (simp add: mod_add_left_eq [of c k x, symmetric])
qed

text \<open>Two, three and four bytes.\<close>

lemma decode_two:
  assumes "0xc2 \<le> unat (m s)" "unat (m s) \<le> 0xdf" "1 < n"
  shows "utf8_loop m s n 0 reset_state =
    (if tail (m (s + 1)) then (2, Some (of_nat (unat (m s) mod 32 * 64 + unat (m (s + 1)) mod 64)), reset_state, None)
     else bad_sequence)"
proof -
  define w where "w = unat (m s) mod 32 * 64 + unat (m (s + 1)) mod 64"
  have "utf8_loop m s n 0 reset_state = utf8_loop m s n 1 (start_state 2 1 (of_nat (unat (m s) mod 32)))"
    using assms by (subst utf8_loop_first) (auto simp: utf8_lead_eq)
  also have "\<dots> = (if \<not> tail (m (s + 1)) then bad_sequence
      else if w < 0x80 \<or> \<not> scalar w then bad_sequence else (2, Some (of_nat w), reset_state, None))"
  proof -
    have u: "unat (of_nat (unat (m s) mod 32) :: u32) = unat (m s) mod 32" by (rule unat_small) simp
    show ?thesis using assms(3)
      by (subst utf8_loop_tail) (simp_all add: u min_scalar_def Let_def w_def)
  qed
  finally have eq: "utf8_loop m s n 0 reset_state = (if \<not> tail (m (s + 1)) then bad_sequence
      else if w < 0x80 \<or> \<not> scalar w then bad_sequence else (2, Some (of_nat w), reset_state, None))" .
  have "2 \<le> unat (m s) mod 32" using byte_field [of "0xc0" 32 "unat (m s)"] assms by simp
  moreover have "unat (m s) mod 32 < 32" "unat (m (s + 1)) mod 64 < 64" by simp_all
  ultimately have "0x80 \<le> w" "w < 0x800" unfolding w_def by linarith+
  then have "\<not> (w < 0x80 \<or> \<not> scalar w)" by (simp add: scalar_def)
  with eq show ?thesis by (simp add: w_def)
qed

lemma decode_three:
  assumes "0xe0 \<le> unat (m s)" "unat (m s) \<le> 0xef" "2 < n"
  shows "utf8_loop m s n 0 reset_state =
    (let w = (unat (m s) mod 16 * 64 + unat (m (s + 1)) mod 64) * 64 + unat (m (s + 2)) mod 64 in
     if tail (m (s + 1)) \<and> tail (m (s + 2)) \<and> 0x800 \<le> w \<and> scalar w
     then (3, Some (of_nat w), reset_state, None) else bad_sequence)"
proof -
  define x where "x = unat (m s) mod 16"
  define y where "y = x * 64 + unat (m (s + 1)) mod 64"
  have x: "x < 16" by (simp add: x_def)
  have y: "y < 1024"
  proof -
    have "unat (m (s + 1)) mod 64 < 64" by simp
    with x show ?thesis unfolding y_def by linarith
  qed
  have u: "unat (of_nat x :: u32) = x" "unat (of_nat y :: u32) = y" using x y by (auto intro: unat_small)
  have "utf8_loop m s n 0 reset_state = utf8_loop m s n 1 (start_state 3 2 (of_nat x))"
    using assms by (subst utf8_loop_first) (auto simp: utf8_lead_eq x_def)
  also have "\<dots> = (if \<not> tail (m (s + 1)) then bad_sequence
      else utf8_loop m s n 2 (start_state 3 1 (of_nat y)))"
    using assms(3) x by (subst utf8_loop_tail) (simp_all add: u Let_def y_def numeral_2_eq_2 [symmetric])
  also have "utf8_loop m s n 2 (start_state 3 1 (of_nat y)) =
      (let w = y * 64 + unat (m (s + 2)) mod 64 in if \<not> tail (m (s + 2)) then bad_sequence
       else if w < 0x800 \<or> \<not> scalar w then bad_sequence else (3, Some (of_nat w), reset_state, None))"
    using assms(3) y by (subst utf8_loop_tail) (simp_all add: u Let_def min_scalar_def)
  finally show ?thesis unfolding Let_def y_def x_def by (simp add: not_less)
qed

lemma decode_four:
  assumes "0xf0 \<le> unat (m s)" "unat (m s) \<le> 0xf4" "3 < n"
  shows "utf8_loop m s n 0 reset_state =
    (let w = ((unat (m s) mod 8 * 64 + unat (m (s + 1)) mod 64) * 64 + unat (m (s + 2)) mod 64) * 64 +
             unat (m (s + 3)) mod 64 in
     if tail (m (s + 1)) \<and> tail (m (s + 2)) \<and> tail (m (s + 3)) \<and> 0x10000 \<le> w \<and> scalar w
     then (4, Some (of_nat w), reset_state, None) else bad_sequence)"
proof -
  define x where "x = unat (m s) mod 8"
  define y where "y = x * 64 + unat (m (s + 1)) mod 64"
  define z where "z = y * 64 + unat (m (s + 2)) mod 64"
  have x: "x < 8" by (simp add: x_def)
  have r: "unat (m (s + 1)) mod 64 < 64" "unat (m (s + 2)) mod 64 < 64" by simp_all
  have y: "y < 512" using x r(1) unfolding y_def by linarith
  have z: "z < 32768" using y r(2) unfolding z_def by linarith
  have u: "unat (of_nat x :: u32) = x" "unat (of_nat y :: u32) = y" "unat (of_nat z :: u32) = z"
    using x y z by (auto intro: unat_small)
  have "utf8_loop m s n 0 reset_state = utf8_loop m s n 1 (start_state 4 3 (of_nat x))"
    using assms by (subst utf8_loop_first) (auto simp: utf8_lead_eq x_def)
  also have "\<dots> = (if \<not> tail (m (s + 1)) then bad_sequence
      else utf8_loop m s n 2 (start_state 4 2 (of_nat y)))"
    using assms(3) x by (subst utf8_loop_tail) (simp_all add: u Let_def y_def numeral_2_eq_2 [symmetric])
  also have "utf8_loop m s n 2 (start_state 4 2 (of_nat y)) = (if \<not> tail (m (s + 2)) then bad_sequence
      else utf8_loop m s n 3 (start_state 4 1 (of_nat z)))"
    using assms(3) y by (subst utf8_loop_tail) (simp_all add: u Let_def z_def numeral_3_eq_3 [symmetric])
  also have "utf8_loop m s n 3 (start_state 4 1 (of_nat z)) =
      (let w = z * 64 + unat (m (s + 3)) mod 64 in if \<not> tail (m (s + 3)) then bad_sequence
       else if w < 0x10000 \<or> \<not> scalar w then bad_sequence else (4, Some (of_nat w), reset_state, None))"
    using assms(3) z by (subst utf8_loop_tail) (simp_all add: u Let_def min_scalar_def)
  finally show ?thesis unfolding Let_def z_def y_def x_def by (simp add: not_less)
qed

text \<open>Too few bytes never give a character.\<close>

lemma short_two:
  assumes "in_sequence t 2" "unat v < 2 ^ 26" "n \<le> used + 1"
  shows "fst (snd (utf8_loop m s n used (start_state t 2 v))) = None"
proof (cases "used < n")
  case True
  then show ?thesis using assms
    by (subst utf8_loop_tail) (simp_all add: Let_def bad_sequence_def utf8_loop_end)
qed (simp add: utf8_loop_end)

lemma short_three:
  assumes "v < 2 ^ 16" "n \<le> used + 2"
  shows "fst (snd (utf8_loop m s n used (start_state 4 3 (of_nat v)))) = None"
proof (cases "used < n")
  case True
  have u: "unat (of_nat v :: u32) = v" using assms by (intro unat_small) simp
  define w where "w = v * 64 + unat (m (s + used)) mod 64"
  have "unat (m (s + used)) mod 64 < 64" by simp
  then have "w < 2 ^ 26" using assms(1) unfolding w_def by simp
  then have w: "unat (of_nat w :: u32) < 2 ^ 26" by (subst unat_small) simp_all
  have "fst (snd (utf8_loop m s n (used + 1) (start_state 4 2 (of_nat w)))) = None"
    using assms(2) by (intro short_two w) simp_all
  then show ?thesis using True assms u
    by (subst utf8_loop_tail) (simp_all add: Let_def bad_sequence_def w_def)
qed (simp add: utf8_loop_end)

definition starts_with :: "mem \<Rightarrow> addr \<Rightarrow> nat \<Rightarrow> nat list \<Rightarrow> bool" where
  "starts_with m s n xs = (length xs \<le> n \<and> read_bytes m s (length xs) = map of_nat xs)"

lemma starts_with_simps:
  "starts_with m s n [a] \<longleftrightarrow> 0 < n \<and> m s = of_nat a"
  "starts_with m s n [a, b] \<longleftrightarrow> 1 < n \<and> m s = of_nat a \<and> m (s + 1) = of_nat b"
  "starts_with m s n [a, b, c] \<longleftrightarrow> 2 < n \<and> m s = of_nat a \<and> m (s + 1) = of_nat b \<and> m (s + 2) = of_nat c"
  "starts_with m s n [a, b, c, d] \<longleftrightarrow>
     3 < n \<and> m s = of_nat a \<and> m (s + 1) = of_nat b \<and> m (s + 2) = of_nat c \<and> m (s + 3) = of_nat d"
  by (auto simp: starts_with_def read_bytes_Suc numeral_3_eq_3)

lemma tail_encoded: "x < 64 \<Longrightarrow> tail (of_nat (0x80 + x))" "x < 64 \<Longrightarrow> unat (of_nat (0x80 + x) :: byte) mod 64 = x"
  using byte_of_nat [of "0x80 + x"] mod_add_left_eq [of 128 64 x] by (simp_all add: tail_def)

lemma decode_encoded:
  assumes v: "scalar v" and s: "starts_with m s n (utf8 v)"
  shows "utf8_loop m s n 0 reset_state =
    (of_nat (if v = 0 then 0 else length (utf8 v)), Some (of_nat v), reset_state, None)"
proof -
  note te = tail_encoded [of "v mod 64"] tail_encoded [of "v div 64 mod 64"] tail_encoded [of "v div 4096 mod 64"]
  consider (one) "v < 0x80" | (two) "0x80 \<le> v" "v < 0x800" | (three) "0x800 \<le> v" "v < 0x10000"
    | (four) "0x10000 \<le> v" "v \<le> 0x10ffff" using v unfolding scalar_def by linarith
  then show ?thesis
  proof cases
    case one
    then have u: "utf8 v = [v]" by (simp add: utf8_def)
    then have b: "0 < n" "m s = of_nat v" "unat (m s) = v"
      using s one byte_of_nat [of v] by (simp_all add: starts_with_simps)
    then have "m s = 0 \<longleftrightarrow> v = 0" by (metis unat_eq_0 word_unat_eq_iff)
    then show ?thesis using one b u by (simp add: utf8_loop_first) (metis of_nat_unat)
  next
    case two
    then have u: "utf8 v = [0xc0 + v div 64, 0x80 + v mod 64]" by (simp add: utf8_def)
    have x: "v div 64 < 32" using two by (simp add: less_mult_imp_div_less)
    have b: "1 < n" "m s = of_nat (0xc0 + v div 64)" "m (s + 1) = of_nat (0x80 + v mod 64)"
      using s unfolding u starts_with_simps by simp_all
    have m0: "unat (m s) = 0xc0 + v div 64" using x byte_of_nat [of "0xc0 + v div 64"] by (simp add: b(2))
    have f: "unat (m s) mod 32 = v div 64" using m0 byte_field [of "0xc0" 32 "unat (m s)"] x by simp
    have t: "tail (m (s + 1))" "unat (m (s + 1)) mod 64 = v mod 64"
      unfolding b by (rule te; simp)+
    have r: "0xc2 \<le> unat (m s)" "unat (m s) \<le> 0xdf" using m0 x two by simp_all
    show ?thesis unfolding decode_two [of m s n, OF r b(1)] f t base64_digits u using two t(1) by simp
  next
    case three
    then have u: "utf8 v = [0xe0 + v div 4096, 0x80 + v div 64 mod 64, 0x80 + v mod 64]"
      by (simp add: utf8_def)
    have x: "v div 4096 < 16" using three by (simp add: less_mult_imp_div_less)
    have b: "2 < n" "m s = of_nat (0xe0 + v div 4096)" "m (s + 1) = of_nat (0x80 + v div 64 mod 64)"
      "m (s + 2) = of_nat (0x80 + v mod 64)"
      using s unfolding u starts_with_simps by simp_all
    have m0: "unat (m s) = 0xe0 + v div 4096" using x byte_of_nat [of "0xe0 + v div 4096"] by (simp add: b(2))
    have f: "unat (m s) mod 16 = v div 4096" using m0 byte_field [of "0xe0" 16 "unat (m s)"] x by simp
    have t: "tail (m (s + 1))" "unat (m (s + 1)) mod 64 = v div 64 mod 64"
      "tail (m (s + 2))" "unat (m (s + 2)) mod 64 = v mod 64"
      unfolding b by (rule te; simp)+
    have r: "0xe0 \<le> unat (m s)" "unat (m s) \<le> 0xef" using m0 x by simp_all
    show ?thesis unfolding decode_three [of m s n, OF r b(1)] f t base64_digits u Let_def using three v t by simp
  next
    case four
    then have u: "utf8 v = [0xf0 + v div 262144, 0x80 + v div 4096 mod 64, 0x80 + v div 64 mod 64, 0x80 + v mod 64]"
      by (simp add: utf8_def)
    have x: "v div 262144 \<le> 4" using div_le_mono [OF four(2), of 262144] by simp
    have b: "3 < n" "m s = of_nat (0xf0 + v div 262144)" "m (s + 1) = of_nat (0x80 + v div 4096 mod 64)"
      "m (s + 2) = of_nat (0x80 + v div 64 mod 64)" "m (s + 3) = of_nat (0x80 + v mod 64)"
      using s unfolding u starts_with_simps by simp_all
    have m0: "unat (m s) = 0xf0 + v div 262144" using x byte_of_nat [of "0xf0 + v div 262144"] by (simp add: b(2))
    have f: "unat (m s) mod 8 = v div 262144" using m0 byte_field [of "0xf0" 8 "unat (m s)"] x by simp
    have t: "tail (m (s + 1))" "unat (m (s + 1)) mod 64 = v div 4096 mod 64"
      "tail (m (s + 2))" "unat (m (s + 2)) mod 64 = v div 64 mod 64"
      "tail (m (s + 3))" "unat (m (s + 3)) mod 64 = v mod 64"
      unfolding b by (rule te; simp)+
    have r: "0xf0 \<le> unat (m s)" "unat (m s) \<le> 0xf4" using m0 x by simp_all
    show ?thesis unfolding decode_four [of m s n, OF r b(1)] f t base64_digits u Let_def using four v t by simp
  qed
qed

text \<open>The other direction: whatever the decoder takes for a character is its encoding.\<close>

lemma tail_byte: "tail b \<Longrightarrow> b = of_nat (0x80 + unat b mod 64)"
proof -
  assume "tail b"
  then have "unat b = 0x80 + unat b mod 64"
    using byte_field [of "0x80" 64 "unat b"] by (simp add: tail_def)
  then show ?thesis by (metis of_nat_unat ucast_id)
qed

lemma lead_byte:
  assumes "c mod k = 0" "c \<le> unat b" "unat b < c + k"
  shows "b = of_nat (c + unat (b :: byte) mod k)"
proof -
  have "unat b = c + unat b mod k" using byte_field [OF assms] assms(2) by simp
  then show ?thesis by (metis of_nat_unat ucast_id)
qed

lemma digits64:
  fixes x :: nat
  assumes "y < 64"
  shows "(x * 64 + y) div 64 = x" "(x * 64 + y) mod 64 = y"
  using assms by simp_all

lemma decoded_is_encoding:
  assumes res: "utf8_loop m s n 0 reset_state = (r, Some w, st, e)" and n: "0 < n"
  shows "scalar (unat w) \<and> starts_with m s n (utf8 (unat w))"
proof -
  have res': "fst (snd (utf8_loop m s n 0 reset_state)) = Some w" using res by simp
  consider (low) "unat (m s) < 0x80" | (bad) "0x80 \<le> unat (m s)" "utf8_lead (m s) = None"
    | (two) "0xc2 \<le> unat (m s)" "unat (m s) \<le> 0xdf" | (three) "0xe0 \<le> unat (m s)" "unat (m s) \<le> 0xef"
    | (four) "0xf0 \<le> unat (m s)" "unat (m s) \<le> 0xf4"
  proof -
    have "utf8_lead (m s) = None \<or> 0xc2 \<le> unat (m s) \<and> unat (m s) \<le> 0xdf \<or>
      0xe0 \<le> unat (m s) \<and> unat (m s) \<le> 0xef \<or> 0xf0 \<le> unat (m s) \<and> unat (m s) \<le> 0xf4"
      by (simp add: utf8_lead_eq)
    then show thesis using that not_less by blast
  qed
  then show ?thesis
  proof cases
    case low
    then have w: "w = ucast (m s)" using res n by (auto simp: utf8_loop_first split: if_splits)
    have "unat w = unat (m s)" unfolding w by (rule unat_ucast_byte)
    then show ?thesis using low n by (simp add: scalar_def utf8_def starts_with_simps)
  next
    case bad
    then show ?thesis using res n by (auto simp: utf8_loop_first bad_sequence_def split: if_splits)
  next
    case two
    define x y where "x = unat (m s) mod 32" and "y = unat (m (s + 1)) mod 64"
    have xy: "2 \<le> x" "x < 32" "y < 64" using byte_field [of "0xc0" 32 "unat (m s)"] two by (simp_all add: x_def y_def)
    have "1 < n"
    proof (rule ccontr)
      assume "\<not> 1 < n"
      then show False using res n two
        by (auto simp: utf8_loop_first utf8_lead_eq utf8_loop_end split: if_splits)
    qed
    with res have t: "tail (m (s + 1))" and w: "w = of_nat (x * 64 + y)"
      unfolding decode_two [of m s n, OF two \<open>1 < n\<close>] x_def y_def by (auto simp: bad_sequence_def split: if_splits)
    have uw: "unat w = x * 64 + y" unfolding w using xy by (intro unat_small) simp
    have "m s = of_nat (0xc0 + x)" unfolding x_def using two by (intro lead_byte) simp_all
    moreover have "m (s + 1) = of_nat (0x80 + y)" unfolding y_def by (rule tail_byte [OF t])
    moreover have "utf8 (x * 64 + y) = [0xc0 + x, 0x80 + y]" using xy digits64 [OF xy(3), of x] by (simp add: utf8_def)
    moreover have "scalar (x * 64 + y)" using xy by (simp add: scalar_def)
    ultimately show ?thesis unfolding uw using \<open>1 < n\<close> by (simp only: starts_with_simps simp_thms)
  next
    case three
    define x y z where "x = unat (m s) mod 16" and "y = unat (m (s + 1)) mod 64" and "z = unat (m (s + 2)) mod 64"
    have xyz: "x < 16" "y < 64" "z < 64" by (simp_all add: x_def y_def z_def)
    have "2 < n"
    proof (rule ccontr)
      assume "\<not> 2 < n"
      moreover have "utf8_loop m s n 0 reset_state = utf8_loop m s n 1 (start_state 3 2 (of_nat x))"
        using three n by (subst utf8_loop_first) (auto simp: utf8_lead_eq x_def)
      moreover have "unat (of_nat x :: u32) < 2 ^ 26" using xyz by (subst unat_small) simp_all
      ultimately show False using res' short_two [of 3 "of_nat x" n 1 m s] by simp
    qed
    with res have t: "tail (m (s + 1))" "tail (m (s + 2))" and w: "w = of_nat ((x * 64 + y) * 64 + z)"
      and v: "0x800 \<le> (x * 64 + y) * 64 + z" "scalar ((x * 64 + y) * 64 + z)"
      unfolding decode_three [of m s n, OF three \<open>2 < n\<close>] x_def y_def z_def Let_def
      by (auto simp: bad_sequence_def split: if_splits)
    have lt: "(x * 64 + y) * 64 + z < 0x10000" using xyz by simp
    have uw: "unat w = (x * 64 + y) * 64 + z" unfolding w using lt by (intro unat_small) simp
    have "m s = of_nat (0xe0 + x)" unfolding x_def using three by (intro lead_byte) simp_all
    moreover have "m (s + 1) = of_nat (0x80 + y)" unfolding y_def by (rule tail_byte [OF t(1)])
    moreover have "m (s + 2) = of_nat (0x80 + z)" unfolding z_def by (rule tail_byte [OF t(2)])
    moreover have "((x * 64 + y) * 64 + z) div 4096 = x"
      using digits64 [OF xyz(3), of "x * 64 + y"] digits64 [OF xyz(2), of x] div_mult2_eq [of _ 64 64] by simp
    then have "utf8 ((x * 64 + y) * 64 + z) = [0xe0 + x, 0x80 + y, 0x80 + z]"
      using v(1) lt digits64 [OF xyz(3), of "x * 64 + y"] digits64 [OF xyz(2), of x] unfolding utf8_def by simp
    ultimately show ?thesis unfolding uw using \<open>2 < n\<close> v(2) by (simp only: starts_with_simps simp_thms)
  next
    case four
    define x y z q where "x = unat (m s) mod 8" and "y = unat (m (s + 1)) mod 64" and "z = unat (m (s + 2)) mod 64"
      and "q = unat (m (s + 3)) mod 64"
    have xyz: "x < 8" "y < 64" "z < 64" "q < 64" by (simp_all add: x_def y_def z_def q_def)
    have "3 < n"
    proof (rule ccontr)
      assume "\<not> 3 < n"
      moreover have "utf8_loop m s n 0 reset_state = utf8_loop m s n 1 (start_state 4 3 (of_nat x))"
        using four n by (subst utf8_loop_first) (auto simp: utf8_lead_eq x_def)
      ultimately show False using res' xyz short_three [of x n 1 m s] by simp
    qed
    with res have t: "tail (m (s + 1))" "tail (m (s + 2))" "tail (m (s + 3))"
      and w: "w = of_nat (((x * 64 + y) * 64 + z) * 64 + q)"
      and v: "0x10000 \<le> ((x * 64 + y) * 64 + z) * 64 + q" "scalar (((x * 64 + y) * 64 + z) * 64 + q)"
      unfolding decode_four [of m s n, OF four \<open>3 < n\<close>] x_def y_def z_def q_def Let_def
      by (auto simp: bad_sequence_def split: if_splits)
    have uw: "unat w = ((x * 64 + y) * 64 + z) * 64 + q" unfolding w using xyz by (intro unat_small) simp
    note d = digits64 [OF xyz(4), of "(x * 64 + y) * 64 + z"] digits64 [OF xyz(3), of "x * 64 + y"]
      digits64 [OF xyz(2), of x]
    have "m s = of_nat (0xf0 + x)" unfolding x_def using four by (intro lead_byte) simp_all
    moreover have "m (s + 1) = of_nat (0x80 + y)" unfolding y_def by (rule tail_byte [OF t(1)])
    moreover have "m (s + 2) = of_nat (0x80 + z)" unfolding z_def by (rule tail_byte [OF t(2)])
    moreover have "m (s + 3) = of_nat (0x80 + q)" unfolding q_def by (rule tail_byte [OF t(3)])
    moreover have "(((x * 64 + y) * 64 + z) * 64 + q) div 4096 = x * 64 + y"
      using d div_mult2_eq [of _ 64 64] by simp
    moreover have "(((x * 64 + y) * 64 + z) * 64 + q) div 262144 = x"
      using d div_mult2_eq [of _ 64 4096] div_mult2_eq [of _ 64 64] by simp
    ultimately have "m s = of_nat (0xf0 + x)" "m (s + 1) = of_nat (0x80 + y)" "m (s + 2) = of_nat (0x80 + z)"
        "m (s + 3) = of_nat (0x80 + q)"
      and "utf8 (((x * 64 + y) * 64 + z) * 64 + q) = [0xf0 + x, 0x80 + y, 0x80 + z, 0x80 + q]"
      using v(1) d unfolding utf8_def by simp_all
    then show ?thesis unfolding uw using \<open>3 < n\<close> v(2) by (simp only: starts_with_simps simp_thms)
  qed
qed

subsection \<open>Characters\<close>

lemma put_mbr_same: "select_state ps (mini_mbr_state env) = st \<Longrightarrow> put_mbr ps st env = (ps, env)"
  by (auto simp: select_state_def put_mbr_def split: option.splits)

lemma in_sequence_step: "in_sequence t r \<Longrightarrow> r \<noteq> 1 \<Longrightarrow> in_sequence t (r - 1)"
  by (auto simp: in_sequence_def)

text \<open>What the first byte announces: the length of the form, or 0 if no form starts with it. The bytes at
  hand are cut off when they are fewer and all those after the first are continuation bytes.\<close>

definition form_size :: "byte \<Rightarrow> nat" where
  "form_size b =
     (if unat b < 0x80 then 1
      else if 0xc2 \<le> unat b \<and> unat b \<le> 0xdf then 2
      else if 0xe0 \<le> unat b \<and> unat b \<le> 0xef then 3
      else if 0xf0 \<le> unat b \<and> unat b \<le> 0xf4 then 4 else 0)"

definition cut_off :: "mem \<Rightarrow> addr \<Rightarrow> nat \<Rightarrow> bool" where
  "cut_off m s n = (n < form_size (m s) \<and> (\<forall>i \<in> {1 ..< n}. tail (m (s + i))))"

lemma utf8_lead_form:
  "utf8_lead b = Some st \<Longrightarrow> \<exists>t r v. in_sequence t r \<and> st = start_state t r v \<and>
     t = of_nat (form_size b) \<and> form_size b = unat r + 1"
proof -
  assume "utf8_lead b = Some st"
  then consider v where "st = start_state 2 1 v" "form_size b = 2" | v where "st = start_state 3 2 v" "form_size b = 3"
    | v where "st = start_state 4 3 v" "form_size b = 4"
    unfolding utf8_lead_eq form_size_def by (auto split: if_splits)
  then show ?thesis
  proof cases
    case (1 v)
    then show ?thesis by (intro exI [of _ 2] exI [of _ 1] exI [of _ v]) simp
  next
    case (2 v)
    then show ?thesis by (intro exI [of _ 3] exI [of _ 2] exI [of _ v]) simp
  next
    case (3 v)
    then show ?thesis by (intro exI [of _ 4] exI [of _ 3] exI [of _ v]) simp
  qed
qed

lemma in_sequence_after: "in_sequence t r \<Longrightarrow> k < unat r \<Longrightarrow> in_sequence t (r - of_nat k)"
proof -
  assume q: "in_sequence t r" "k < unat r"
  then have "unat r \<le> 3" by (auto simp: in_sequence_def)
  then have "k = 0 \<or> k = 1 \<or> k = 2" using q(2) by linarith
  then show ?thesis using q by (elim disjE) (auto simp: in_sequence_def)
qed

lemma seq_loop_none:
  assumes "in_sequence t r" "used \<le> n" "utf8_loop m s n used (start_state t r v) = (res, None, st, e)"
  shows "if n < used + unat r \<and> (\<forall>i \<in> {used ..< n}. tail (m (s + i)))
    then res = conv_incomplete \<and> e = None \<and> (\<exists>v'. st = start_state t (r - of_nat (n - used)) v')
    else (res, None, st, e) = bad_sequence"
  using assms
proof (induction "unat r" arbitrary: r used v)
  case 0
  then show ?case by (auto simp: in_sequence_def)
next
  case (Suc k)
  note f = start_state_fields [OF Suc.prems(1)]
  show ?case
  proof (cases "used < n")
    case False
    then show ?thesis using Suc.prems f(3) by (auto simp: utf8_loop_end unat_gt_0)
  next
    case True
    define b where "b = m (s + used)"
    have t: "(b < 0x80 \<or> 0xbf < b) = (\<not> tail b)" by (auto simp: tail_def word_less_nat_alt)
    show ?thesis
    proof (cases "tail b")
      case False
      then have "(res, None, st, e) = bad_sequence"
        using Suc.prems(3) True t by (simp add: utf8_loop.simps [of m s n used] f b_def bad_sequence_def Let_def)
      moreover have "\<not> (\<forall>i \<in> {used ..< n}. tail (m (s + i)))" using False True by (auto simp: b_def)
      ultimately show ?thesis by auto
    next
      case tl: True
      define w where "w = push_bit 6 v OR (ucast b AND 0x3f :: u32)"
      have more: "(\<forall>i \<in> {used ..< n}. tail (m (s + i))) \<longleftrightarrow> (\<forall>i \<in> {used + 1 ..< n}. tail (m (s + i)))"
        using tl True by (auto simp: b_def le_less)
      show ?thesis
      proof (cases "r = 1")
        case True
        have "(res, None, st, e) = bad_sequence"
          using Suc.prems(3) \<open>used < n\<close> tl t unfolding True
          by (auto simp: utf8_loop.simps [of m s n used] f [unfolded True] b_def bad_sequence_def Let_def split: if_splits)
        then show ?thesis using \<open>used < n\<close> True by simp
      next
        case False
        then have k: "unat (r - 1) = k" using Suc.hyps(2) f(3) by (simp add: unat_minus_one)
        have run: "utf8_loop m s n (used + 1) (start_state t (r - 1) w) = (res, None, st, e)"
          using Suc.prems(3) True tl t False
          by (simp add: utf8_loop.simps [of m s n used] f b_def w_def Let_def)
        have "of_nat (n - used) = 1 + (of_nat (n - (used + 1)) :: u32)"
          using True by (metis Suc_diff_Suc add.commute of_nat_Suc plus_1_eq_Suc)
        then have eq: "r - 1 - of_nat (n - (used + 1)) = r - of_nat (n - used)" by simp
        have cnd: "n < used + 1 + unat (r - 1) \<longleftrightarrow> n < used + unat r" using k Suc.hyps(2) by linarith
        have "used + 1 \<le> n" using True by simp
        from Suc.hyps(1) [OF k [symmetric] in_sequence_step [OF Suc.prems(1) False] this run]
        show ?thesis unfolding eq cnd more .
      qed
    qed
  qed
qed

lemma first_loop_none:
  assumes "0 < n" "utf8_loop m s n 0 reset_state = (res, None, st, e)"
  shows "if cut_off m s n
    then res = conv_incomplete \<and> e = None \<and> state_total st = of_nat (form_size (m s)) \<and>
      state_remaining st = of_nat (form_size (m s) - n)
    else (res, None, st, e) = bad_sequence"
proof (cases "unat (m s) < 0x80 \<or> utf8_lead (m s) = None")
  case True
  then have "form_size (m s) \<le> 1" "(res, None, st, e) = bad_sequence"
    using assms by (auto simp: utf8_loop_first form_size_def utf8_lead_eq split: if_splits)
  then show ?thesis using assms(1) by (simp add: cut_off_def)
next
  case False
  then obtain st0 where l: "utf8_lead (m s) = Some st0" by auto
  then obtain t r v where q: "in_sequence t r" "st0 = start_state t r v" "t = of_nat (form_size (m s))"
    "form_size (m s) = unat r + 1"
    using utf8_lead_form by blast
  have "m s \<noteq> 0" using False by auto
  then have run: "utf8_loop m s n 1 (start_state t r v) = (res, None, st, e)"
    using assms False l q(2) by (simp add: utf8_loop_first)
  have c: "cut_off m s n \<longleftrightarrow> n < 1 + unat r \<and> (\<forall>i \<in> {1 ..< n}. tail (m (s + i)))"
    by (simp add: cut_off_def q(4))
  show ?thesis
  proof (cases "cut_off m s n")
    case True
    then have k: "n - 1 < unat r" using assms(1) unfolding c by linarith
    obtain v' where "st = start_state t (r - of_nat (n - 1)) v'" "res = conv_incomplete" "e = None"
      using seq_loop_none [OF q(1) _ run] assms(1) True unfolding c by auto
    moreover have "r - of_nat (n - 1) = of_nat (form_size (m s) - n)"
    proof -
      have "form_size (m s) - n = unat r - (n - 1)" using q(4) assms(1) by simp
      then show ?thesis using k by (simp add: of_nat_diff)
    qed
    ultimately show ?thesis
      using True start_state_fields [OF in_sequence_after [OF q(1) k]] q(3) by simp
  next
    case False
    then show ?thesis using seq_loop_none [OF q(1) _ run] assms(1) unfolding c by auto
  qed
qed

lemma form_size_utf8: "scalar v \<Longrightarrow> form_size (of_nat (List.hd (utf8 v))) = length (utf8 v)"
proof -
  assume "scalar v"
  then consider "v < 0x80" | "0x80 \<le> v" "v < 0x800" | "0x800 \<le> v" "v < 0x10000" | "0x10000 \<le> v" "v div 262144 \<le> 4"
  proof -
    have "v \<le> 0x10ffff" using \<open>scalar v\<close> by (auto simp: scalar_def)
    then have "v div 262144 \<le> 4" using div_le_mono [where m = v and n = 1114111 and k = 262144] by simp
    then show thesis using that not_less by blast
  qed
  then show ?thesis
  proof cases
    case 1
    then show ?thesis using byte_of_nat [of v] by (simp add: utf8_def form_size_def)
  next
    case 2
    have "v div 64 < 32" "2 \<le> v div 64" using 2 div_le_mono [OF 2(1), of 64] by (simp_all add: less_mult_imp_div_less)
    then show ?thesis using 2 byte_of_nat [of "0xc0 + v div 64"] by (simp add: utf8_def form_size_def)
  next
    case 3
    then have "v div 4096 < 16" by (simp add: less_mult_imp_div_less)
    then show ?thesis using 3 byte_of_nat [of "0xe0 + v div 4096"] by (simp add: utf8_def form_size_def)
  next
    case 4
    then show ?thesis using byte_of_nat [of "0xf0 + v div 262144"] by (simp add: utf8_def form_size_def)
  qed
qed

lemma form_size_at:
  assumes "scalar v" "starts_with m s n (utf8 v)"
  shows "form_size (m s) \<le> n"
proof -
  have "utf8 v \<noteq> []" by (simp add: utf8_def)
  then obtain a as where a: "utf8 v = a # as" by (cases "utf8 v") auto
  then have "m s = of_nat a" "length (utf8 v) \<le> n" using assms(2) by (simp_all add: starts_with_def read_bytes_Suc)
  then show ?thesis using form_size_utf8 [OF assms(1)] by (simp add: a)
qed



text \<open>The euro sign, cut off after two bytes, and a byte that starts nothing.\<close>

definition euro_bytes :: mem where "euro_bytes = write_bytes (\<lambda>_. 0) 0 [0xe2, 0x82, 0xac, 0xff]"
definition quiet_env :: mb_env where "quiet_env = \<lparr>mini_mbr_state = reset_state, mini_wcr_state = reset_state, mb_errno = 0\<rparr>"


subsection \<open>Restarting\<close>

text \<open>The states a conversion can be left in.\<close>

definition mb_ok :: "mbstate \<Rightarrow> bool" where
  "mb_ok st = (st = reset_state \<or> (\<exists>t r v. in_sequence t r \<and> st = start_state t r v))"

lemma utf8_lead_sequence: "utf8_lead b = Some st \<Longrightarrow> \<exists>t r v. in_sequence t r \<and> st = start_state t r v"
  by (auto simp: utf8_lead_def split: if_splits intro: in_sequence_table)

definition seq_state :: "mbstate \<Rightarrow> bool" where
  "seq_state st = (\<exists>t r v. in_sequence t r \<and> st = start_state t r v)"

lemma seq_state_remaining: "seq_state st \<Longrightarrow> state_remaining st \<noteq> 0"
  by (auto simp: seq_state_def start_state_fields)

lemma seq_state_next:
  "seq_state st \<Longrightarrow> state_remaining st - 1 \<noteq> 0 \<Longrightarrow>
   seq_state (start_state (state_total st) (state_remaining st - 1) v)"
proof -
  assume "seq_state st" and r: "state_remaining st - 1 \<noteq> 0"
  then obtain t q u where st: "in_sequence t q" "st = start_state t q u" by (auto simp: seq_state_def)
  with r have "in_sequence t (q - 1)" by (intro in_sequence_step) (auto simp: start_state_fields)
  with st show ?thesis by (auto simp: seq_state_def start_state_fields)
qed

definition shift_result :: "nat \<Rightarrow> conversion \<Rightarrow> conversion" where
  "shift_result k = (\<lambda>(r, w, st, e). (if w = None then r else r + of_nat k, w, st, e))"

lemma utf8_loop_shift:
  "seq_state st \<Longrightarrow> utf8_loop m s (k + j) (k + i) st = shift_result k (utf8_loop m (s + k) j i st)"
proof (induction m "s + k" j i st rule: utf8_loop.induct)
  case (1 m n used st)
  note rem = seq_state_remaining [OF "1.prems"]
  show ?case
  proof (cases "used < n")
    case False
    then show ?thesis by (simp add: utf8_loop_end shift_result_def)
  next
    case True
    define b where "b = m (s + k + used)"
    have b': "m (s + (k + used)) = b" by (simp add: b_def add.assoc)
    show ?thesis
    proof (cases "b < 0x80 \<or> 0xbf < b")
      case bad: True
      then show ?thesis using True rem
        by (subst (1 2) utf8_loop.simps) (simp add: b' b_def [symmetric] Let_def shift_result_def)
    next
      case ok: False
      show ?thesis
      proof (cases "state_remaining st - 1 = 0")
        case last: True
        then show ?thesis using True rem ok
          by (subst (1 2) utf8_loop.simps)
            (simp add: b' b_def [symmetric] Let_def shift_result_def algebra_simps)
      next
        case False
        define st' where "st' = start_state (state_total st) (state_remaining st - 1)
          (push_bit 6 (mb_value st) OR (ucast b AND 0x3f))"
        have "seq_state st'" unfolding st'_def by (rule seq_state_next [OF "1.prems" False])
        then have "utf8_loop m s (k + n) (k + (used + 1)) st' = shift_result k (utf8_loop m (s + k) n (used + 1) st')"
          using "1.hyps"(2) [OF True refl, folded b_def, OF rem ok refl refl refl False]
          by (simp add: st'_def b_def)
        moreover have "utf8_loop m s (k + n) (k + used) st = utf8_loop m s (k + n) (k + used + 1) st'"
          using True rem ok False
          by (subst utf8_loop.simps) (simp add: b' Let_def st'_def)
        moreover have "utf8_loop m (s + k) n used st = utf8_loop m (s + k) n (used + 1) st'"
          using True rem ok False
          by (subst utf8_loop.simps) (simp add: b_def [symmetric] Let_def st'_def)
        ultimately show ?thesis by simp
      qed
    qed
  qed
qed

lemma utf8_lead_seq: "utf8_lead b = Some st \<Longrightarrow> seq_state st"
  using utf8_lead_sequence by (auto simp: seq_state_def)

text \<open>A conversion that wants more bytes has taken each byte it was given into its state.\<close>

lemma incomplete_step:
  assumes loop: "utf8_loop m s n used st = (conv_incomplete, None, st1, e)" and used: "used < n"
  obtains st' where "\<And>q. used < q \<Longrightarrow> utf8_loop m s q used st = utf8_loop m s q (used + 1) st'"
    and "seq_state st \<or> st = reset_state \<Longrightarrow> seq_state st'"
proof -
  have inc: "conv_error \<noteq> conv_incomplete" by (simp add: conv_error_def conv_incomplete_def)
  define b where "b = m (s + used)"
  note unf = utf8_loop.simps [of m s _ used st, folded b_def]
  show thesis
  proof (cases "state_remaining st = 0")
    case z: True
    from loop have "utf8_lead b \<noteq> None" "b \<noteq> 0" "\<not> b \<le> 0x7f"
      unfolding unf [of n] using used z inc by (auto simp: Let_def split: if_splits option.splits)
    then obtain st' where st': "b \<noteq> 0" "\<not> b \<le> 0x7f" "utf8_lead b = Some st'" by blast
    show thesis
    proof (rule that [of st'])
      show "utf8_loop m s q used st = utf8_loop m s q (used + 1) st'" if "used < q" for q
        using that z st' by (subst unf) (simp add: Let_def)
      show "seq_state st'" by (rule utf8_lead_seq [OF st'(3)])
    qed
  next
    case nz: False
    from loop have ok: "\<not> (b < 0x80 \<or> 0xbf < b)" and more: "state_remaining st - 1 \<noteq> 0"
      unfolding unf [of n] using used nz inc by (auto simp: Let_def split: if_splits)
    show thesis
    proof (rule that)
      show "utf8_loop m s q used st = utf8_loop m s q (used + 1)
          (start_state (state_total st) (state_remaining st - 1) (push_bit 6 (mb_value st) OR (ucast b AND 0x3f)))"
        if "used < q" for q
        using that nz ok more by (subst unf) (simp add: Let_def)
      show "seq_state (start_state (state_total st) (state_remaining st - 1)
          (push_bit 6 (mb_value st) OR (ucast b AND 0x3f)))" if "seq_state st \<or> st = reset_state"
        using that nz more by (intro seq_state_next) (auto simp: reset_state_def state_remaining_def)
    qed
  qed
qed

lemma utf8_loop_incomplete:
  assumes "utf8_loop m s (used + i) used st = (conv_incomplete, None, st1, e)"
  shows "utf8_loop m s (used + i + j) used st = utf8_loop m s (used + i + j) (used + i) st1
    \<and> (0 < i \<longrightarrow> seq_state st \<or> st = reset_state \<longrightarrow> seq_state st1) \<and> e = None"
  using assms
proof (induction i arbitrary: used st)
  case 0
  then show ?case by (simp add: utf8_loop_end)
next
  case (Suc i)
  obtain st' where st': "\<And>q. used < q \<Longrightarrow> utf8_loop m s q used st = utf8_loop m s q (used + 1) st'"
    "seq_state st \<or> st = reset_state \<Longrightarrow> seq_state st'"
    by (rule incomplete_step [OF Suc.prems]) auto
  have "utf8_loop m s (used + 1 + i) (used + 1) st' = (conv_incomplete, None, st1, e)"
    using st'(1) [of "used + Suc i"] Suc.prems by simp
  note ih = Suc.IH [OF this]
  have "st1 = st'" if "i = 0" using st'(1) [of "used + Suc i"] Suc.prems that by (simp add: utf8_loop_end)
  then show ?case using ih st'(1) [of "used + Suc i + j"] st'(2) by (cases "i = 0") auto
qed

text \<open>Restartability: when a first call gets only the beginning of a character and returns
  \<open>(size_t)-2\<close>, a second call on the bytes that follow, with the state the first one left, delivers the
  same character, state and \<open>errno\<close> as one call on all the bytes, and the two counts add up.\<close>

theorem mbrtowc_restarts:
  assumes first: "mbrtowc True m True (Some s) k (Some st) env = (conv_incomplete, None, Some st1, env1)"
    and "0 < k" "0 < j" "mb_ok st"
    and second: "mbrtowc True m True (Some (s + k)) j (Some st1) env1 = (r, w, ps2, env2)"
  shows "env1 = env \<and> mb_ok st1 \<and>
    mbrtowc True m True (Some s) (k + j) (Some st) env = (if w = None then r else of_nat k + r, w, ps2, env2)"
proof -
  obtain r0 w0 t0 e0 where l: "utf8_loop m s k 0 st = (r0, w0, t0, e0)" by (cases "utf8_loop m s k 0 st")
  have a: "r0 = conv_incomplete" "w0 = None" "st1 = t0" "env1 = set_err e0 env"
    using first assms(2) l by (simp_all add: mbrtowc_def mbrtowc_mode_def select_state_def put_mbr_def)
  have st: "seq_state st \<or> st = reset_state" using assms(4) by (auto simp: mb_ok_def seq_state_def)
  have "utf8_loop m s (0 + k) 0 st = (conv_incomplete, None, t0, e0)" using l a by simp
  note inc = utf8_loop_incomplete [OF this, of j]
  have sq: "seq_state t0" and e0: "e0 = None" using inc st assms(2) by auto
  have "utf8_loop m s (k + j) 0 st = utf8_loop m s (k + j) (k + 0) t0" using inc by simp
  also have "\<dots> = shift_result k (utf8_loop m (s + k) j 0 t0)" by (rule utf8_loop_shift [OF sq])
  finally have all: "utf8_loop m s (k + j) 0 st = shift_result k (utf8_loop m (s + k) j 0 t0)" .
  obtain r' w' t' e' where l2: "utf8_loop m (s + k) j 0 t0 = (r', w', t', e')" by (cases "utf8_loop m (s + k) j 0 t0")
  show ?thesis
    using second assms(2,3) l2 all a e0 sq
    by (auto simp: mb_ok_def seq_state_def mbrtowc_def mbrtowc_mode_def select_state_def put_mbr_def shift_result_def set_err_def
        add.commute)
qed

definition fresh_env :: mb_env where
  "fresh_env = \<lparr>mini_mbr_state = reset_state, mini_wcr_state = reset_state, mb_errno = 0\<rparr>"

lemma mbrtowc_restarts_witness:
  "mbrtowc True (write_bytes (\<lambda>_. 0) 0 [0xe2, 0x82, 0xac]) True (Some 0) 3 (Some reset_state) fresh_env =
   (3, Some 0x20ac, Some reset_state, fresh_env)"
proof -
  define m :: mem where "m = write_bytes (\<lambda>_. 0) 0 [0xe2, 0x82, 0xac]"
  have a: "mbrtowc True m True (Some 0) 1 (Some reset_state) fresh_env =
      (conv_incomplete, None, Some (start_state 3 2 2), fresh_env)"
    unfolding m_def by code_simp
  have b: "mbrtowc True m True (Some (0 + 1)) 2 (Some (start_state 3 2 2)) fresh_env =
      (2, Some 0x20ac, Some reset_state, fresh_env)"
    unfolding m_def by code_simp
  show ?thesis
    using mbrtowc_restarts [OF a _ _ _ b] 
    by (auto simp: mb_ok_def m_def numeral_3_eq_3 intro: in_sequence_table)
qed

subsection \<open>Strings\<close>

definition wide_at :: "wmem \<Rightarrow> addr \<Rightarrow> wchar list \<Rightarrow> bool" where
  "wide_at wm p ws = ((\<forall>i < length ws. wm (p + i) = ws ! i \<and> ws ! i \<noteq> 0) \<and> wm (p + length ws) = 0)"

definition write_wide :: "wmem \<Rightarrow> addr \<Rightarrow> wchar list \<Rightarrow> wmem" where
  "write_wide wm a ws = (\<lambda>p. if a \<le> p \<and> p < a + length ws then ws ! (p - a) else wm p)"

definition encoded :: "bool \<Rightarrow> wchar list \<Rightarrow> byte list" where
  "encoded u ws = concat (map (\<lambda>w. the (encode u w)) ws)"

lemma write_wide_Nil [simp]: "write_wide wm a [] = wm"
  by (rule ext) (auto simp: write_wide_def)

lemma write_wide_snoc: "(write_wide wm a xs)(a + length xs := w) = write_wide wm a (xs @ [w])"
  by (rule ext) (auto simp: write_wide_def nth_append)

lemma encoded_append: "encoded u (xs @ ys) = encoded u xs @ encoded u ys"
  by (simp add: encoded_def)

lemma encoded_single: "encode u w = Some bs \<Longrightarrow> encoded u [w] = bs"
  by (simp add: encoded_def)

text \<open>The bytes of one character: one to four, none of them NUL unless the character is.\<close>

lemma utf8_length: "1 \<le> length (utf8 v)" "length (utf8 v) \<le> 4"
  by (simp_all add: utf8_def)

lemma utf8_range:
  assumes "scalar v" "x \<in> set (utf8 v)"
  shows "x < 256" "x = 0 \<longleftrightarrow> v = 0"
proof -
  have "v < 0x800 \<Longrightarrow> v div 64 < 32" "v < 0x10000 \<Longrightarrow> v div 4096 < 16" "v div 262144 < 8"
    "v div 64 mod 64 < 64" "v div 4096 mod 64 < 64" "v mod 64 < 64"
    using assms(1) by (auto simp: scalar_def less_mult_imp_div_less)
  then show "x < 256" "x = 0 \<longleftrightarrow> v = 0" using assms(2) unfolding utf8_def
    by (auto split: if_splits)
qed

lemma encode_utf8: "encode True w = (if w <s 0 \<or> \<not> valid_scalar w then None else Some (utf8_bytes w))"
  by (simp add: encode_def)

lemma encode_bytes:
  assumes "encode u w = Some bs" "w \<noteq> 0"
  shows "1 \<le> length bs" "length bs \<le> 4" "0 \<notin> set bs"
proof -
  have "1 \<le> length bs \<and> length bs \<le> 4 \<and> 0 \<notin> set bs"
  proof (cases u)
    case True
    then have v: "valid_scalar w" "bs = utf8_bytes w" using assms(1) by (auto simp: encode_utf8 split: if_splits)
    note bs = v(2) [unfolded utf8_bytes_eq [OF v(1)]]
    have ne: "x \<noteq> 0 \<and> x < 256" if "x \<in> set (utf8 (unat w))" for x
      using utf8_range [OF _ that] v(1) assms(2) by (auto simp: valid_scalar_eq unat_eq_0)
    have "(of_nat x :: byte) \<noteq> 0" if "x \<in> set (utf8 (unat w))" for x
      using byte_of_nat [of x] ne [OF that] by auto
    then show ?thesis using utf8_length [of "unat w"] by (auto simp: bs)
  next
    case False
    then have w: "w \<le> 0x7f" "bs = [ucast w]"
      using assms(1) by (auto simp: encode_def MINI_C_MB_MAX_def split: if_splits)
    have "unat w < 0x80" using w(1) by (simp add: word_le_nat_alt)
    then have "unat (ucast w :: byte) = unat w" using byte_of_nat [of "unat w"] by simp
    then have "(ucast w :: byte) \<noteq> 0" using assms(2) by (auto simp: unat_eq_0)
    then show ?thesis by (simp add: w(2))
  qed
  then show "1 \<le> length bs" "length bs \<le> 4" "0 \<notin> set bs" by simp_all
qed

lemma encode_zero: "encode u 0 = Some [0]"
  by (simp add: encode_def valid_scalar_def utf8_bytes_def MINI_C_MB_MAX_def MINI_UTF8_MAX_def
      MINI_UTF8_SURROGATE_FIRST_def)

lemma source_window_covers:
  assumes "l \<le> maximum" "\<And>i. l \<le> i \<Longrightarrow> i < k \<Longrightarrow> m (s + i) \<noteq> 0" "k \<le> maximum"
  shows "k \<le> source_window m s maximum l"
  using assms
proof (induction m s maximum l rule: source_window.induct)
  case (1 m s maximum l)
  consider "maximum \<le> l" | "l < maximum" "m (s + l) = 0" | "l < maximum" "m (s + l) \<noteq> 0" by linarith
  then show ?case
  proof cases
    case 1
    then show ?thesis using "1.prems"(3) by (subst source_window.simps) simp
  next
    case 2
    then have "k \<le> l" using "1.prems"(2) [of l] by (metis le_refl not_less)
    then show ?thesis using 2 by (subst source_window.simps) simp
  next
    case 3
    then have "k \<le> source_window m s maximum (l + 1)" using "1.IH" "1.prems" by simp
    then show ?thesis using 3 by (subst source_window.simps) simp
  qed
qed

text \<open>What one round of \<open>mbsrtowcs\<close> reads back: a character \<open>wcrtomb\<close> has written.\<close>

lemma mbrtowc_encoded:
  assumes "encode u w = Some bs" "w \<noteq> 0" "read_bytes m c (length bs) = bs"
  shows "mbrtowc u m True (Some c) (source_window m c (if u then 4 else 1) 0) (Some reset_state) env =
    (of_nat (length bs), Some w, Some reset_state, env)"
proof -
  note b = encode_bytes [OF assms(1,2)]
  define win where "win = source_window m c (if u then 4 else 1) 0"
  have mem: "m (c + i) = bs ! i" if "i < length bs" for i
    using that assms(3) by (metis nth_read_bytes)
  have nz: "m (c + i) \<noteq> 0" if "i < length bs" for i
    using mem [OF that] b(3) nth_mem [OF that] by auto
  have len: "u \<or> length bs = 1" using assms(1) by (auto simp: encode_def split: if_splits)
  have win: "length bs \<le> win" "0 < win"
    using source_window_covers [of 0 "if u then 4 else 1" "length bs" m c] nz len b unfolding win_def by auto
  show ?thesis
  proof (cases u)
    case True
    then have v: "valid_scalar w" "bs = map of_nat (utf8 (unat w))"
      using assms(1) utf8_bytes_eq [of w] by (auto simp: encode_utf8 split: if_splits)
    have "starts_with m c win (utf8 (unat w))"
      using win(1) assms(3) by (simp add: starts_with_def v(2))
    then have "utf8_loop m c win 0 reset_state = (of_nat (length bs), Some w, reset_state, None)"
      using decode_encoded [of "unat w" m c win] v assms(2) by (simp add: valid_scalar_eq unat_eq_0)
    then show ?thesis using win True unfolding win_def [symmetric]
      by (simp add: mbrtowc_def mbrtowc_mode_def select_state_def put_mbr_def set_err_def)
  next
    case False
    then have w: "w \<le> 0x7f" "bs = [ucast w]"
      using assms(1) by (auto simp: encode_def MINI_C_MB_MAX_def split: if_splits)
    have "unat w < 0x80" using w(1) by (simp add: word_le_nat_alt)
    then have uw: "unat (ucast w :: byte) = unat w" using byte_of_nat [of "unat w"] by simp
    have mc: "m c = ucast w" using mem [of 0] by (simp add: w(2))
    have "(ucast (ucast w :: byte) :: u32) = w"
      by (simp only: word_unat_eq_iff unat_ucast_byte uw)
    then have "c_decode m c reset_state = (1, Some w, reset_state, None)"
      using w(1) nz [of 0] mc by (simp add: c_decode_def mbsinit_def reset_state_def MINI_C_MB_MAX_def w(2) not_less)
    then show ?thesis using win False unfolding win_def [symmetric]
      by (simp add: mbrtowc_def mbrtowc_mode_def select_state_def put_mbr_def set_err_def w(2))
  qed
qed

lemma mbrtowc_end:
  assumes "m c = 0"
  shows "mbrtowc u m True (Some c) (source_window m c (if u then 4 else 1) 0) (Some reset_state) env =
    (0, Some 0, Some reset_state, env)"
proof -
  have w: "source_window m c (if u then 4 else 1) 0 = 1"
    using assms by (subst source_window.simps) simp
  show ?thesis unfolding w using assms
    by (cases u) (simp_all add: mbrtowc_def mbrtowc_mode_def select_state_def put_mbr_def set_err_def
        utf8_loop_first c_decode_def mbsinit_def MINI_C_MB_MAX_def, simp_all add: reset_state_def)
qed

lemma small_count:
  assumes "1 \<le> k" "k \<le> 4"
  shows "(of_nat k :: u64) \<noteq> conv_error" "(of_nat k :: u64) \<noteq> conv_incomplete" "(of_nat k :: u64) \<noteq> 0"
    "unat (of_nat k :: u64) = k"
proof -
  consider "k = 1" | "k = 2" | "k = 3" | "k = 4" using assms by linarith
  then show "(of_nat k :: u64) \<noteq> conv_error" "(of_nat k :: u64) \<noteq> conv_incomplete" "(of_nat k :: u64) \<noteq> 0"
    "unat (of_nat k :: u64) = k"
    by (cases; simp add: conv_error_def conv_incomplete_def)+
qed

lemma write_wide_Cons: "write_wide wm a (w # ws) = write_wide (wm(a := w)) (a + 1) ws"
  by (rule ext) (auto simp: write_wide_def nth_Cons' le_Suc_eq)

lemma encoded_Cons: "encode u w = Some bs \<Longrightarrow> encoded u (w # ws) = bs @ encoded u ws"
  by (simp add: encoded_def)

lemma wide_at_Cons: "wide_at wm p (w # ws) \<longleftrightarrow> wm p = w \<and> w \<noteq> 0 \<and> wide_at wm (p + 1) ws"
  by (auto simp: wide_at_def nth_Cons' All_less_Suc2)

lemma read_bytes_run: "read_bytes m a (n + k) = read_bytes m a n @ read_bytes m (a + n) k"
  by (rule nth_equalityI) (auto simp: nth_append)

lemma wcsrtombs_loop_all:
  "wide_at wm c ws \<Longrightarrow> \<forall>w \<in> set ws. encode u w \<noteq> None \<Longrightarrow> count + length (encoded u ws) < len \<Longrightarrow>
   wcsrtombs_loop u wm m (Some d) c count len (Some reset_state) env =
     Some (of_nat (count + length (encoded u ws)), write_bytes m (d + count) (encoded u ws @ [0]), Some None,
           Some reset_state, env)"
proof (induction ws arbitrary: c count m)
  case Nil
  then show ?case
    by (subst wcsrtombs_loop.simps) (simp add: wide_at_def encode_zero put_wcr_def encoded_def)
next
  case (Cons w ws)
  then obtain bs where bs: "encode u w = Some bs" by auto
  have w: "wm c = w" "w \<noteq> 0" "wide_at wm (c + 1) ws" using Cons.prems(1) by (simp_all add: wide_at_Cons)
  have e: "encoded u (w # ws) = bs @ encoded u ws" by (rule encoded_Cons [OF bs])
  have "wcsrtombs_loop u wm m (Some d) c count len (Some reset_state) env =
      wcsrtombs_loop u wm (write_bytes m (d + count) bs) (Some d) (c + 1) (count + length bs) len (Some reset_state) env"
    using w bs Cons.prems(3) e by (subst wcsrtombs_loop.simps) (auto simp: put_wcr_def)
  also have "\<dots> = Some (of_nat (count + length bs + length (encoded u ws)),
      write_bytes (write_bytes m (d + count) bs) (d + (count + length bs)) (encoded u ws @ [0]), Some None,
      Some reset_state, env)"
    using Cons.prems w(3) e by (intro Cons.IH) simp_all
  finally show ?case by (simp add: e write_bytes_append add.assoc fun_upd_def)
qed

lemma mbsrtowcs_loop_all:
  "0 \<notin> set ws \<Longrightarrow> \<forall>w \<in> set ws. encode u w \<noteq> None \<Longrightarrow> count + length ws < len \<Longrightarrow>
   read_bytes m c (length (encoded u ws @ [0])) = encoded u ws @ [0] \<Longrightarrow>
   mbsrtowcs_loop u m wm (Some d) c count len (Some reset_state) env =
     Some (of_nat (count + length ws), write_wide wm (d + count) (ws @ [0]), Some None, Some reset_state, env)"
proof (induction ws arbitrary: c count wm)
  case Nil
  then have "m c = 0" by (simp add: encoded_def read_bytes_Suc)
  note this mbrtowc_end [of m c u env, OF this]
  with Nil show ?case
    by (subst mbsrtowcs_loop.simps) (simp add: conv_error_def conv_incomplete_def Let_def write_wide_Cons)
next
  case (Cons w ws)
  then obtain bs where bs: "encode u w = Some bs" by auto
  have e: "encoded u (w # ws) = bs @ encoded u ws" by (rule encoded_Cons [OF bs])
  have w0: "w \<noteq> 0" using Cons.prems(1) by auto
  have mem: "read_bytes m c (length bs + length (encoded u ws @ [0])) = bs @ (encoded u ws @ [0])"
    using Cons.prems(4) by (simp add: e)
  have mem1: "read_bytes m c (length bs) = bs"
    and mem2: "read_bytes m (c + length bs) (length (encoded u ws @ [0])) = encoded u ws @ [0]"
    using mem unfolding read_bytes_run by (simp_all only: append_eq_append_conv length_read_bytes simp_thms)
  note b = encode_bytes [OF bs w0]
  note sm = small_count [OF b(1,2)]
  have "mbsrtowcs_loop u m wm (Some d) c count len (Some reset_state) env =
      mbsrtowcs_loop u m (wm(d + count := w)) (Some d) (c + length bs) (count + 1) len (Some reset_state) env"
    using Cons.prems(3) sm mbrtowc_encoded [OF bs w0 mem1, of env]
    by (subst mbsrtowcs_loop.simps) (simp add: Let_def)
  also have "\<dots> = Some (of_nat (count + 1 + length ws), write_wide (wm(d + count := w)) (d + (count + 1)) (ws @ [0]),
      Some None, Some reset_state, env)"
    using Cons.prems mem2 by (intro Cons.IH) simp_all
  finally show ?case by (simp add: write_wide_Cons add.assoc)
qed

text \<open>C20. Converting a wide string to bytes and back: for every wide string all of whose characters the
  encoding has (both encodings), \<open>wcstombs\<close> into a large enough buffer stores the encoded characters
  and a NUL, nothing else, and returns their number of bytes; \<open>mbstowcs\<close> on the result stores the same
  wide characters, a null character and nothing else, and returns how many; \<open>errno\<close> is left alone.\<close>

theorem wcstombs_mbstowcs_roundtrip:
  assumes "wide_at wm p ws" "\<forall>w \<in> set ws. encode u w \<noteq> None"
    and "length (encoded u ws) < len" "length ws < len2"
  shows "wcstombs u wm m (Some d) p len env =
      Some (of_nat (length (encoded u ws)), write_bytes m d (encoded u ws @ [0]), env) \<and>
    mbstowcs u (write_bytes m d (encoded u ws @ [0])) wm2 (Some q) d len2 env =
      Some (of_nat (length ws), write_wide wm2 q (ws @ [0]), env)"
proof -
  have r: "wcstombs u wm m (Some d) p len env =
      Some (of_nat (length (encoded u ws)), write_bytes m d (encoded u ws @ [0]), env)"
    using assms(3) wcsrtombs_loop_all [OF assms(1,2), of 0 len m d env]
    by (simp_all add: wcstombs_def wcsrtombs_def)
  have "0 \<notin> set ws" using assms(1) by (auto simp: wide_at_def in_set_conv_nth)
  moreover have "read_bytes (write_bytes m d (encoded u ws @ [0])) d (length (encoded u ws @ [0])) = encoded u ws @ [0]"
    by (rule read_write_same)
  ultimately have "mbstowcs u (write_bytes m d (encoded u ws @ [0])) wm2 (Some q) d len2 env =
      Some (of_nat (length ws), write_wide wm2 q (ws @ [0]), env)"
    using assms(2,4) mbsrtowcs_loop_all [of ws u 0 len2 _ d wm2 q env]
    by (simp add: mbstowcs_def mbsrtowcs_def)
  with r show ?thesis by simp
qed

lemma wcstombs_mbstowcs_roundtrip_witness:
  "wcstombs True (write_wide (\<lambda>_. 0) 0 [0x41, 0x20ac]) (\<lambda>_. 7) (Some 50) 0 5 fresh_env =
     Some (4, write_bytes (\<lambda>_. 7) 50 [0x41, 0xe2, 0x82, 0xac, 0], fresh_env)"
proof -
  define wm where "wm = write_wide (\<lambda>_. 0) 0 [0x41, 0x20ac]"
  have e: "encode True 0x41 = Some [0x41]" "encode True 0x20ac = Some [0xe2, 0x82, 0xac]" by code_simp+
  have "wide_at wm 0 [0x41, 0x20ac]"
    by (simp add: wm_def wide_at_Cons) (simp add: wide_at_def write_wide_def)
  then show ?thesis
    using wcstombs_mbstowcs_roundtrip [of wm 0 "[0x41, 0x20ac]" True 5 3 "\<lambda>_. 7" 50 fresh_env "\<lambda>_. 0" 0] e
    by (simp add: encoded_def wm_def [symmetric])
qed

text \<open>Wide strings.\<close>

lemma wcslen_counts:
  assumes "wide_at wm s ws"
  shows "wcslen wm s = Some (length ws)"
proof -
  have "wide_at wm c ws \<Longrightarrow> s \<le> c \<Longrightarrow> wcslen_loop wm s c = Some (c - s + length ws)" for c
  proof (induction ws arbitrary: c)
    case Nil
    then show ?case by (subst wcslen_loop.simps) (simp add: wide_at_def)
  next
    case (Cons w ws)
    then show ?case using Cons.IH [of "c + 1"] by (subst wcslen_loop.simps) (simp add: wide_at_Cons)
  qed
  with assms show ?thesis by (simp add: wcslen_def)
qed

text \<open>Two bytes no character starts with (\<open>E0 80\<close>, the start of overlong forms) count as incomplete: the
  rejection comes with the third byte, whatever it is.\<close>

lemma overlong_prefix_is_incomplete:
  "fst (mbrtowc True (write_bytes (\<lambda>_. 0) 0 [0xe0, 0x80]) True (Some 0) 2 (Some reset_state) fresh_env)
     = conv_incomplete"
  by code_simp

end
