(* ===== verification/Termination.thy ===== *)
theory Termination
  imports Stdio_File "HOL-Library.Multiset"
begin

section \<open>Exit handlers and fork handlers (\<open>crt/termination.c\<close>, \<open>process/atfork.c\<close>, \<open>process/process.c\<close>)\<close>

text \<open>
  A process here is the two tables of exit handlers, the table of fork handlers, and the stdio world
  of \<open>Stdio_File\<close>. A function pointer is a number, 0 the null pointer; what a handler does is an
  argument of the model (\<open>call\<close>: it may read and change the whole process, register more handlers, or
  never return). The futex locks around the tables are a component of their own (\<open>Futex\<close>): each
  operation below is one critical section of them, or one critical section and then the call.
\<close>

subsection \<open>The tables\<close>

type_synonym fn = nat

definition MINI_ATEXIT_CAPACITY :: u32 where "MINI_ATEXIT_CAPACITY = 32"
definition MINI_QUICK_EXIT_CAPACITY :: u32 where "MINI_QUICK_EXIT_CAPACITY = 32"
definition MINI_ATFORK_CAPACITY :: u32 where "MINI_ATFORK_CAPACITY = 8"

lemmas capacity_defs [c_consts] =
  MINI_ATEXIT_CAPACITY_def MINI_QUICK_EXIT_CAPACITY_def MINI_ATFORK_CAPACITY_def

record mini_atfork_handler =
  prepare_fn :: fn
  parent_fn :: fn
  child_fn :: fn

record 'k process =
  mini_atexit_handlers :: "fn list"
  mini_atexit_count :: u32
  mini_quick_exit_handlers :: "fn list"
  mini_quick_exit_count :: u32
  atfork_handlers :: "mini_atfork_handler list"
  atfork_count :: u32
  stdio :: "'k world"

text \<open>The tables as the loader leaves them: zeroed.\<close>

definition initial_process :: "'k world \<Rightarrow> 'k process" where
  "initial_process w =
     \<lparr>mini_atexit_handlers = replicate 32 0, mini_atexit_count = 0,
      mini_quick_exit_handlers = replicate 32 0, mini_quick_exit_count = 0,
      atfork_handlers = replicate 8 \<lparr>prepare_fn = 0, parent_fn = 0, child_fn = 0\<rparr>, atfork_count = 0,
      stdio = w\<rparr>"

subsection \<open>Exit handlers\<close>

definition atexit :: "fn \<Rightarrow> 'k process \<Rightarrow> int \<times> 'k process" where
  "atexit func p =
     (if func = 0 then (- 1, p)
      else if mini_atexit_count p \<noteq> MINI_ATEXIT_CAPACITY then
        (0, p\<lparr>mini_atexit_handlers := (mini_atexit_handlers p)[unat (mini_atexit_count p) := func],
              mini_atexit_count := mini_atexit_count p + 1\<rparr>)
      else (- 1, p))"

definition at_quick_exit :: "fn \<Rightarrow> 'k process \<Rightarrow> int \<times> 'k process" where
  "at_quick_exit func p =
     (if func = 0 then (- 1, p)
      else if mini_quick_exit_count p \<noteq> MINI_QUICK_EXIT_CAPACITY then
        (0, p\<lparr>mini_quick_exit_handlers := (mini_quick_exit_handlers p)[unat (mini_quick_exit_count p) := func],
              mini_quick_exit_count := mini_quick_exit_count p + 1\<rparr>)
      else (- 1, p))"

text \<open>The critical section of one turn of the loop: \<^term>\<open>None\<close> when the loop is left.\<close>

definition pop_atexit :: "'k process \<Rightarrow> (fn \<times> 'k process) option" where
  "pop_atexit p =
     (if mini_atexit_count p = 0 then None
      else let n = mini_atexit_count p - 1
        in Some (mini_atexit_handlers p ! unat n,
                 p\<lparr>mini_atexit_count := n,
                   mini_atexit_handlers := (mini_atexit_handlers p)[unat n := 0]\<rparr>))"

definition pop_quick_exit :: "'k process \<Rightarrow> (fn \<times> 'k process) option" where
  "pop_quick_exit p =
     (if mini_quick_exit_count p = 0 then None
      else let n = mini_quick_exit_count p - 1
        in Some (mini_quick_exit_handlers p ! unat n,
                 p\<lparr>mini_quick_exit_count := n,
                   mini_quick_exit_handlers := (mini_quick_exit_handlers p)[unat n := 0]\<rparr>))"

text \<open>The loop \<open>for (;;)\<close>: a handler may register more, so it may run for ever.\<close>

partial_function (option) run_handlers ::
  "('p \<Rightarrow> (fn \<times> 'p) option) \<Rightarrow> (fn \<Rightarrow> 'p \<Rightarrow> 'p option) \<Rightarrow> 'p \<Rightarrow> 'p option" where
  "run_handlers pop call p =
     (case pop p of
        None \<Rightarrow> Some p
      | Some (handler, p1) \<Rightarrow> Option.bind (call handler p1) (run_handlers pop call))"

text \<open>\<open>_Exit\<close> ends the process: its status, and the state it leaves behind.\<close>

definition Exit_group :: "int \<Rightarrow> 'k process \<Rightarrow> int \<times> 'k process" where
  "Exit_group status p = (status, p)"

definition exit_process :: "'k sys \<Rightarrow> (fn \<Rightarrow> 'k process \<Rightarrow> 'k process option) \<Rightarrow> int \<Rightarrow> 'k process \<Rightarrow> (int \<times> 'k process) option" where
  "exit_process K call status p =
     Option.bind (run_handlers pop_atexit call p) (\<lambda>p1.
     Option.bind (flush_all K (stdio p1)) (\<lambda>(_, w).
     Some (Exit_group status (p1\<lparr>stdio := w\<rparr>))))"

definition quick_exit :: "(fn \<Rightarrow> 'k process \<Rightarrow> 'k process option) \<Rightarrow> int \<Rightarrow> 'k process \<Rightarrow> (int \<times> 'k process) option" where
  "quick_exit call status p =
     Option.bind (run_handlers pop_quick_exit call p) (\<lambda>p1. Some (Exit_group status p1))"

subsection \<open>Fork handlers\<close>

definition pthread_atfork :: "fn \<Rightarrow> fn \<Rightarrow> fn \<Rightarrow> 'k process \<Rightarrow> int \<times> 'k process" where
  "pthread_atfork pre par chi p =
     (if atfork_count p = MINI_ATFORK_CAPACITY then (ENOMEM, p)
      else (0, p\<lparr>atfork_handlers := (atfork_handlers p)[unat (atfork_count p) :=
                    \<lparr>prepare_fn = pre, parent_fn = par, child_fn = chi\<rparr>],
                 atfork_count := atfork_count p + 1\<rparr>))"

text \<open>The copy the caller gets: the array's first \<open>count\<close> elements.\<close>

definition atfork_snapshot :: "'k process \<Rightarrow> mini_atfork_handler list" where
  "atfork_snapshot p = take (unat (atfork_count p)) (atfork_handlers p)"

text \<open>One of the four loops of \<open>fork\<close>: call every function that is not null, in the order given.\<close>

fun call_each :: "(fn \<Rightarrow> 'p \<Rightarrow> 'p option) \<Rightarrow> fn list \<Rightarrow> 'p \<Rightarrow> 'p option" where
  "call_each call [] p = Some p"
| "call_each call (f # fs) p = Option.bind (if f \<noteq> 0 then call f p else Some p) (call_each call fs)"

text \<open>\<open>kfork\<close> is the system call: its raw result and the kernel after it, as the returning process
  sees them. \<open>fork\<close> returns in the parent and in the child.\<close>

definition fork :: "('k \<Rightarrow> int \<times> 'k) \<Rightarrow> (fn \<Rightarrow> 'k process \<Rightarrow> 'k process option) \<Rightarrow> 'k process \<Rightarrow> (int \<times> 'k process) option" where
  "fork kfork call p =
     (let hs = atfork_snapshot p
      in Option.bind (call_each call (map prepare_fn (rev hs)) p) (\<lambda>p1.
         let (result, k) = kfork (kern (stdio p1)); p2 = p1\<lparr>stdio := (stdio p1)\<lparr>kern := k\<rparr>\<rparr>
         in if result = 0 then
              Option.bind (call_each call (map child_fn hs) p2) (\<lambda>p3. Some (0, p3))
            else if result < 0 then
              Option.bind (call_each call (map parent_fn hs) p2) (\<lambda>p3.
                Some (- 1, p3\<lparr>stdio := set_errno (- result) (stdio p3)\<rparr>))
            else Option.bind (call_each call (map parent_fn hs) p2) (\<lambda>p3. Some (result, p3))))"

subsection \<open>The contract of a table of handlers\<close>

text \<open>
  What the loops rely on, whichever table they empty: registering pushes on a stack of at most \<open>cap\<close>
  handlers, or refuses and changes nothing; taking one pops it; neither touches the rest of the process.
\<close>

locale handler_table =
  fixes register :: "fn \<Rightarrow> 'p \<Rightarrow> int \<times> 'p"
    and pop :: "'p \<Rightarrow> (fn \<times> 'p) option"
    and stack :: "'p \<Rightarrow> fn list"
    and ok :: "'p \<Rightarrow> bool"
    and rest :: "'p \<Rightarrow> 'w"
    and cap :: nat
  assumes register_null: "register 0 p = (- 1, p)"
    and register_full: "ok p \<Longrightarrow> length (stack p) = cap \<Longrightarrow> register h p = (- 1, p)"
    and register_push: "ok p \<Longrightarrow> h \<noteq> 0 \<Longrightarrow> length (stack p) < cap \<Longrightarrow>
      \<exists>p'. register h p = (0, p') \<and> ok p' \<and> stack p' = h # stack p \<and> rest p' = rest p"
    and stack_bounded: "ok p \<Longrightarrow> length (stack p) \<le> cap"
    and pop_empty: "ok p \<Longrightarrow> stack p = [] \<Longrightarrow> pop p = None"
    and pop_top: "ok p \<Longrightarrow> stack p = h # hs \<Longrightarrow>
      \<exists>p'. pop p = Some (h, p') \<and> ok p' \<and> stack p' = hs \<and> rest p' = rest p"

text \<open>Registering a list of handlers in turn, and what running bodies in order does to the rest.\<close>

fun register_all :: "(fn \<Rightarrow> 'p \<Rightarrow> int \<times> 'p) \<Rightarrow> fn list \<Rightarrow> 'p \<Rightarrow> int list \<times> 'p" where
  "register_all reg [] p = ([], p)"
| "register_all reg (h # hs) p =
     (let (r, p1) = reg h p; (rs, p2) = register_all reg hs p1 in (r # rs, p2))"

fun run_bodies :: "(fn \<Rightarrow> 'w \<Rightarrow> 'w option) \<Rightarrow> fn list \<Rightarrow> 'w \<Rightarrow> 'w option" where
  "run_bodies body [] w = Some w"
| "run_bodies body (h # hs) w = Option.bind (body h w) (run_bodies body hs)"

text \<open>A handler that leaves the table alone and acts on the rest as \<open>body\<close> does.\<close>

definition acts_as :: "('p \<Rightarrow> bool) \<Rightarrow> ('p \<Rightarrow> fn list) \<Rightarrow> ('p \<Rightarrow> 'w) \<Rightarrow> (fn \<Rightarrow> 'p \<Rightarrow> 'p option) \<Rightarrow> (fn \<Rightarrow> 'w \<Rightarrow> 'w option) \<Rightarrow> fn \<Rightarrow> bool" where
  "acts_as ok stack rest call body h =
     (\<forall>p. ok p \<longrightarrow> (case body h (rest p) of
        None \<Rightarrow> call h p = None
      | Some w \<Rightarrow> \<exists>p'. call h p = Some p' \<and> ok p' \<and> stack p' = stack p \<and> rest p' = w))"

lemma acts_as_None: "acts_as ok stack rest call body h \<Longrightarrow> ok p \<Longrightarrow> body h (rest p) = None \<Longrightarrow> call h p = None"
  unfolding acts_as_def by (drule spec [of _ p]) simp

lemma acts_as_Some:
  "acts_as ok stack rest call body h \<Longrightarrow> ok p \<Longrightarrow> body h (rest p) = Some w \<Longrightarrow>
   \<exists>p'. call h p = Some p' \<and> ok p' \<and> stack p' = stack p \<and> rest p' = w"
  unfolding acts_as_def by (drule spec [of _ p]) simp

context handler_table begin

lemma register_all_push:
  "ok p \<Longrightarrow> 0 \<notin> set hs \<Longrightarrow> length hs + length (stack p) \<le> cap \<Longrightarrow>
   \<exists>p'. register_all register hs p = (replicate (length hs) 0, p') \<and> ok p' \<and>
     stack p' = rev hs @ stack p \<and> rest p' = rest p"
proof (induction hs arbitrary: p)
  case Nil
  then show ?case by simp
next
  case (Cons h hs)
  then obtain p1 where p1: "register h p = (0, p1)" "ok p1" "stack p1 = h # stack p" "rest p1 = rest p"
    using register_push [of p h] by auto
  obtain p2 where "register_all register hs p1 = (replicate (length hs) 0, p2)" "ok p2"
      "stack p2 = rev hs @ stack p1" "rest p2 = rest p1"
    using Cons.IH [OF p1(2)] Cons.prems p1(3) by auto
  then show ?case using p1 by simp
qed

lemma run_handlers_in_order:
  "ok p \<Longrightarrow> \<forall>h \<in> set (stack p). acts_as ok stack rest call body h \<Longrightarrow>
   (case run_bodies body (stack p) (rest p) of
      None \<Rightarrow> run_handlers pop call p = None
    | Some w \<Rightarrow> \<exists>p'. run_handlers pop call p = Some p' \<and> ok p' \<and> stack p' = [] \<and> rest p' = w)"
proof (induction "stack p" arbitrary: p)
  case Nil
  then show ?case using pop_empty [of p] by (auto simp: run_handlers.simps [of pop call p])
next
  case (Cons h hs)
  obtain p1 where p1: "pop p = Some (h, p1)" "ok p1" "stack p1 = hs" "rest p1 = rest p"
    using pop_top [OF Cons.prems(1) Cons.hyps(2) [symmetric]] by blast
  have act: "acts_as ok stack rest call body h" using Cons.prems(2) Cons.hyps(2) [symmetric] by simp
  note unf = run_handlers.simps [of pop call p]
  show ?case
  proof (cases "body h (rest p)")
    case None
    then have "call h p1 = None" using act p1(2,4) by (simp add: acts_as_None)
    then show ?thesis using None p1(1) unf Cons.hyps(2) [symmetric] by simp
  next
    case (Some w)
    then obtain p2 where p2: "call h p1 = Some p2" "ok p2" "stack p2 = hs" "rest p2 = w"
      using acts_as_Some [OF act p1(2), of w] p1(3,4) by auto
    have "run_handlers pop call p = run_handlers pop call p2" using unf p1(1) p2(1) by simp
    moreover have "\<forall>g \<in> set (stack p2). acts_as ok stack rest call body g"
      using Cons.prems(2) Cons.hyps(2) [symmetric] p2(3) by simp
    ultimately show ?thesis
      using Cons.hyps(1) [of p2] p2 Some Cons.hyps(2) [symmetric] by (simp split: option.splits)
  qed
qed

text \<open>Handlers may register more: if each registers only handlers of a lower rank, the loop ends.\<close>

lemma run_handlers_ends:
  assumes "\<And>h q. ok q \<Longrightarrow> I (rest q) \<Longrightarrow> \<exists>q' new. call h q = Some q' \<and> ok q' \<and> I (rest q') \<and>
      stack q' = new @ stack q \<and> (\<forall>g \<in> set new. rank g < (rank h :: nat))"
  shows "ok p \<Longrightarrow> I (rest p) \<Longrightarrow> \<exists>p'. run_handlers pop call p = Some p' \<and> ok p' \<and> stack p' = [] \<and> I (rest p')"
proof (induction "mset (map rank (stack p))" arbitrary: p rule: wf_induct_rule [OF wf_mult [OF wf_less_than]])
  case 1
  show ?case
  proof (cases "stack p")
    case Nil
    then show ?thesis using pop_empty [OF "1.prems"(1)] "1.prems" by (auto simp: run_handlers.simps [of pop call p])
  next
    case (Cons h hs)
    obtain p1 where p1: "pop p = Some (h, p1)" "ok p1" "stack p1 = hs" "rest p1 = rest p"
      using pop_top [OF "1.prems"(1) Cons] by blast
    obtain p2 new where p2: "call h p1 = Some p2" "ok p2" "I (rest p2)" "stack p2 = new @ hs"
        "\<forall>g \<in> set new. rank g < rank h"
      using assms [OF p1(2), of h] "1.prems"(2) p1(3,4) by auto
    have "(mset (map rank hs) + mset (map rank new), mset (map rank hs) + {#rank h#}) \<in> mult less_than"
      by (rule one_step_implies_mult) (use p2(5) in auto)
    then have "(mset (map rank (stack p2)), mset (map rank (stack p))) \<in> mult less_than"
      using p2(4) Cons by (simp add: union_commute)
    from "1.hyps" [OF this p2(2,3)]
    show ?thesis using p1(1) p2(1) by (simp add: run_handlers.simps [of pop call p])
  qed
qed

end

subsection \<open>The two tables meet it\<close>

definition atexit_stack :: "'k process \<Rightarrow> fn list" where
  "atexit_stack p = rev (take (unat (mini_atexit_count p)) (mini_atexit_handlers p))"

definition quick_exit_stack :: "'k process \<Rightarrow> fn list" where
  "quick_exit_stack p = rev (take (unat (mini_quick_exit_count p)) (mini_quick_exit_handlers p))"

definition process_ok :: "'k process \<Rightarrow> bool" where
  "process_ok p =
     (length (mini_atexit_handlers p) = 32 \<and> mini_atexit_count p \<le> 32 \<and>
      length (mini_quick_exit_handlers p) = 32 \<and> mini_quick_exit_count p \<le> 32)"

lemma unat_le_32: "(n :: u32) \<le> 32 \<longleftrightarrow> unat n \<le> 32"
  by (simp add: word_le_nat_alt)

lemma unat_inc_32:
  assumes "(n :: u32) \<le> 32" "n \<noteq> 32"
  shows "unat (n + 1) = Suc (unat n)" "unat n < 32"
proof -
  have n: "unat n \<le> 32" using assms(1) by (simp add: unat_le_32)
  have "unat n \<noteq> 32" using assms(2) by (simp add: word_unat_eq_iff)
  with n show "unat n < 32" by simp
  with n show "unat (n + 1) = Suc (unat n)" by (simp add: unat_word_ariths)
qed

lemma unat_dec_32:
  assumes "(n :: u32) \<noteq> 0"
  shows "unat n = Suc (unat (n - 1))"
  using assms by (simp add: unat_minus_one unat_gt_0)

lemma take_set_last:
  "n < length xs \<Longrightarrow> take (Suc n) (xs[n := x]) = take n xs @ [x]"
  by (simp add: take_Suc_conv_app_nth)


lemma pop_stack:
  assumes "n \<noteq> 0" "(n :: u32) \<le> 32" "length xs = 32"
  shows "rev (take (unat n) xs) = xs ! unat (n - 1) # rev (take (unat (n - 1)) (xs[unat (n - 1) := y]))"
    and "n - 1 \<le> 32"
proof -
  note d = unat_dec_32 [OF assms(1)]
  have "unat (n - 1) < length xs" using d assms(2,3) by (simp add: unat_le_32)
  then show "rev (take (unat n) xs) = xs ! unat (n - 1) # rev (take (unat (n - 1)) (xs[unat (n - 1) := y]))"
    by (simp add: d take_Suc_conv_app_nth)
  show "n - 1 \<le> 32" using d assms(2) by (simp add: unat_le_32)
qed

lemma push_stack:
  assumes "n \<noteq> 32" "(n :: u32) \<le> 32" "length xs = 32"
  shows "rev (take (unat (n + 1)) (xs[unat n := h])) = h # rev (take (unat n) xs)" and "n + 1 \<le> 32"
  using unat_inc_32 [OF assms(2,1)] assms(3) by (simp_all add: take_set_last unat_le_32)

lemma full_stack:
  "(n :: u32) \<le> 32 \<Longrightarrow> length (xs :: 'a list) = 32 \<Longrightarrow> length (rev (take (unat n) xs)) = unat n \<and> (unat n = 32 \<longleftrightarrow> n = 32)"
  by (simp add: unat_le_32 word_unat_eq_iff)

lemmas exit_table_defs = process_ok_def atexit_stack_def quick_exit_stack_def atexit_def at_quick_exit_def
  pop_atexit_def pop_quick_exit_def MINI_ATEXIT_CAPACITY_def MINI_QUICK_EXIT_CAPACITY_def

text \<open>What the table at hand does not touch: the stdio world and the other table.\<close>

interpretation exit_table: handler_table atexit pop_atexit atexit_stack process_ok
    "\<lambda>p. (stdio p, quick_exit_stack p)" 32
proof (unfold_locales, goal_cases)
  case (1 p) then show ?case by (simp add: atexit_def)
next
  case (2 p h) then show ?case
    using full_stack [of "mini_atexit_count p" "mini_atexit_handlers p"] by (auto simp: exit_table_defs)
next
  case (3 p h) then show ?case
    using push_stack(1) [of "mini_atexit_count p" "mini_atexit_handlers p" h] push_stack(2) [of "mini_atexit_count p" "mini_atexit_handlers p"]
      full_stack [of "mini_atexit_count p" "mini_atexit_handlers p"] by (auto simp: exit_table_defs)
next
  case (4 p) then show ?case by (simp add: exit_table_defs)
next
  case (5 p) then show ?case
    by (auto simp: exit_table_defs unat_eq_zero)
next
  case (6 p h hs) then show ?case
    using pop_stack(1) [of "mini_atexit_count p" "mini_atexit_handlers p" 0] pop_stack(2) [of "mini_atexit_count p" "mini_atexit_handlers p"] by (auto simp: exit_table_defs Let_def)
qed

interpretation quick_exit_table: handler_table at_quick_exit pop_quick_exit quick_exit_stack process_ok
    "\<lambda>p. (stdio p, atexit_stack p)" 32
proof (unfold_locales, goal_cases)
  case (1 p) then show ?case by (simp add: at_quick_exit_def)
next
  case (2 p h) then show ?case
    using full_stack [of "mini_quick_exit_count p" "mini_quick_exit_handlers p"] by (auto simp: exit_table_defs)
next
  case (3 p h) then show ?case
    using push_stack(1) [of "mini_quick_exit_count p" "mini_quick_exit_handlers p" h] push_stack(2) [of "mini_quick_exit_count p" "mini_quick_exit_handlers p"]
      full_stack [of "mini_quick_exit_count p" "mini_quick_exit_handlers p"] by (auto simp: exit_table_defs)
next
  case (4 p) then show ?case by (simp add: exit_table_defs)
next
  case (5 p) then show ?case
    by (auto simp: exit_table_defs unat_eq_zero)
next
  case (6 p h hs) then show ?case
    using pop_stack(1) [of "mini_quick_exit_count p" "mini_quick_exit_handlers p" 0] pop_stack(2) [of "mini_quick_exit_count p" "mini_quick_exit_handlers p"] by (auto simp: exit_table_defs Let_def)
qed


lemma initial_process_ok:
  "process_ok (initial_process w)" "atexit_stack (initial_process w) = []"
  "quick_exit_stack (initial_process w) = []" "stdio (initial_process w) = w"
  by (simp_all add: exit_table_defs initial_process_def)

subsection \<open>What \<open>exit\<close> and \<open>quick_exit\<close> do\<close>

text \<open>The handlers that run are those on the stack, top first, each once.\<close>

lemma acts_as_table:
  assumes "\<And>p. call h p = map_option (\<lambda>w. p\<lparr>stdio := w\<rparr>) (body h (stdio p))"
  shows "acts_as process_ok atexit_stack (\<lambda>p. (stdio p, quick_exit_stack p)) call
           (\<lambda>h (w, qs). map_option (\<lambda>w. (w, qs)) (body h w)) h"
    and "acts_as process_ok quick_exit_stack (\<lambda>p. (stdio p, atexit_stack p)) call
           (\<lambda>h (w, qs). map_option (\<lambda>w. (w, qs)) (body h w)) h"
  by (auto simp: acts_as_def assms exit_table_defs split: option.splits)

lemma run_bodies_pair:
  "run_bodies (\<lambda>h (w, qs). map_option (\<lambda>w. (w, qs)) (body h w)) hs (w, q) =
   map_option (\<lambda>w. (w, q)) (run_bodies body hs w)"
  by (induction hs arbitrary: w) (auto split: Option.bind_splits)

lemma exit_loop_runs:
  assumes "process_ok p" "\<And>h p. h \<in> set (atexit_stack p0) \<Longrightarrow> call h p = map_option (\<lambda>w. p\<lparr>stdio := w\<rparr>) (body h (stdio p))"
    and "atexit_stack p = atexit_stack p0"
  shows "map_option (\<lambda>p'. (stdio p', atexit_stack p')) (run_handlers pop_atexit call p) =
         map_option (\<lambda>w. (w, [])) (run_bodies body (atexit_stack p) (stdio p))"
proof -
  have "\<forall>h \<in> set (atexit_stack p). acts_as process_ok atexit_stack (\<lambda>p. (stdio p, quick_exit_stack p)) call
           (\<lambda>h (w, qs). map_option (\<lambda>w. (w, qs)) (body h w)) h"
    using assms(2,3) by (intro ballI acts_as_table(1)) simp
  from exit_table.run_handlers_in_order [OF assms(1) this]
  show ?thesis unfolding run_bodies_pair by (auto split: option.splits)
qed

lemma quick_exit_loop_runs:
  assumes "process_ok p" "\<And>h p. h \<in> set (quick_exit_stack p0) \<Longrightarrow> call h p = map_option (\<lambda>w. p\<lparr>stdio := w\<rparr>) (body h (stdio p))"
    and "quick_exit_stack p = quick_exit_stack p0"
  shows "map_option (\<lambda>p'. (stdio p', atexit_stack p')) (run_handlers pop_quick_exit call p) =
         map_option (\<lambda>w. (w, atexit_stack p)) (run_bodies body (quick_exit_stack p) (stdio p))"
proof -
  have "\<forall>h \<in> set (quick_exit_stack p). acts_as process_ok quick_exit_stack (\<lambda>p. (stdio p, atexit_stack p)) call
           (\<lambda>h (w, qs). map_option (\<lambda>w. (w, qs)) (body h w)) h"
    using assms(2,3) by (intro ballI acts_as_table(2)) simp
  from quick_exit_table.run_handlers_in_order [OF assms(1) this]
  show ?thesis unfolding run_bodies_pair by (auto split: option.splits)
qed

text \<open>C23. Register the handlers \<open>hs\<close> with \<open>atexit\<close> and then \<open>gs\<close> with \<open>at_quick_exit\<close>, at most 32 of each,
  in a fresh process, where a handler does to the stdio world what \<open>body\<close> says (possibly never
  returning) and registers nothing. Every registration succeeds and a 33rd of either kind is refused;
  \<open>exit\<close> runs exactly the first list, last registered first, each once, then flushes all streams, and
  ends with the given status; \<open>quick_exit\<close> runs exactly the second list the same way and flushes nothing.\<close>

theorem exit_runs_handlers_in_reverse:
  assumes "length hs \<le> 32" "length gs \<le> 32" "0 \<notin> set hs" "0 \<notin> set gs"
    and "\<forall>h \<in> set hs \<union> set gs. \<forall>p. call h p = map_option (\<lambda>w. p\<lparr>stdio := w\<rparr>) (body h (stdio p))"
    and "register_all atexit hs (initial_process w0) = (rs, p1)" "register_all at_quick_exit gs p1 = (qs, p)"
  shows "rs = replicate (length hs) 0 \<and> qs = replicate (length gs) 0 \<and>
    (length hs = 32 \<longrightarrow> atexit f p = (- 1, p)) \<and> (length gs = 32 \<longrightarrow> at_quick_exit f p = (- 1, p)) \<and>
    map_option (map_prod id stdio) (exit_process K call status p) =
      Option.bind (run_bodies body (rev hs) w0) (\<lambda>w. map_option (\<lambda>(_, w'). (status, w')) (flush_all K w)) \<and>
    map_option (map_prod id stdio) (quick_exit call status p) =
      map_option (Pair status) (run_bodies body (rev gs) w0)"
proof -
  note I = initial_process_ok [of w0]
  have 1: "rs = replicate (length hs) 0" "process_ok p1" "atexit_stack p1 = rev hs" "stdio p1 = w0"
      "quick_exit_stack p1 = []"
    using exit_table.register_all_push [OF I(1) assms(3)] assms(1,6) I by auto
  have 2: "qs = replicate (length gs) 0" "process_ok p" "quick_exit_stack p = rev gs" "stdio p = w0"
      "atexit_stack p = rev hs"
    using quick_exit_table.register_all_push [OF 1(2) assms(4)] assms(2,7) 1 by auto
  have E: "map_option (\<lambda>p'. (stdio p', atexit_stack p')) (run_handlers pop_atexit call p) =
         map_option (\<lambda>w. (w, [])) (run_bodies body (rev hs) w0)"
    using exit_loop_runs [OF 2(2), of p call body] assms(5) 2(4,5) by auto
  have Q: "map_option (\<lambda>p'. (stdio p', atexit_stack p')) (run_handlers pop_quick_exit call p) =
         map_option (\<lambda>w. (w, rev hs)) (run_bodies body (rev gs) w0)"
    using quick_exit_loop_runs [OF 2(2), of p call body] assms(5) 2(3,4,5) by auto
  show ?thesis
    using E Q 1(1) 2 exit_table.register_full [OF 2(2), of f] quick_exit_table.register_full [OF 2(2), of f]
    by (auto simp: exit_process_def quick_exit_def Exit_group_def map_option_case split: option.splits Option.bind_splits)
qed


text \<open>Two handlers that write a byte to the kernel's record of descriptor 1, to see the order.\<close>

definition note_body :: "nat \<Rightarrow> (int \<Rightarrow> byte list) world \<Rightarrow> (int \<Rightarrow> byte list) world option" where
  "note_body h w = Some (w\<lparr>kern := (kern w)(1 := kern w 1 @ [of_nat h])\<rparr>)"

lemma exit_runs_handlers_in_reverse_witness:
  "map_option (map_prod id stdio)
     (quick_exit (\<lambda>h p. map_option (\<lambda>w. p\<lparr>stdio := w\<rparr>) (note_body h (stdio p))) 3
       (snd (register_all at_quick_exit [7, 9]
         (snd (register_all atexit [5] (initial_process (initial_world (\<lambda>_. []))))))) ) =
   Some (3, (initial_world (\<lambda>_. []))\<lparr>kern := (\<lambda>_. [])(1 := [9, 7])\<rparr>)"
proof -
  let ?call = "\<lambda>h p. map_option (\<lambda>w. p\<lparr>stdio := w\<rparr>) (note_body h (stdio p))"
  let ?w = "initial_world (\<lambda>_. []) :: (int \<Rightarrow> byte list) world"
  have c: "length [5 :: nat] \<le> 32" "length [7, 9 :: nat] \<le> 32" "0 \<notin> set [5 :: nat]" "0 \<notin> set [7, 9 :: nat]"
    by simp_all
  have a: "\<forall>h \<in> set [5] \<union> set [7, 9]. \<forall>p. ?call h p = map_option (\<lambda>w. p\<lparr>stdio := w\<rparr>) (note_body h (stdio p))"
    by (intro ballI allI refl)
  obtain rs p1 where 1: "register_all atexit [5] (initial_process ?w) = (rs, p1)" by fastforce
  obtain qs p where 2: "register_all at_quick_exit [7, 9] p1 = (qs, p)" by fastforce
  have p: "snd (register_all at_quick_exit [7, 9] (snd (register_all atexit [5] (initial_process ?w)))) = p"
    by (simp only: 1 2 snd_conv)
  have b: "run_bodies note_body (rev [7, 9]) ?w = Some (?w\<lparr>kern := (\<lambda>_. [])(1 := [9, 7])\<rparr>)"
    by (simp add: note_body_def initial_world_def)
  have "map_option (map_prod id stdio) (quick_exit ?call 3 p) = map_option (Pair 3) (run_bodies note_body (rev [7, 9]) ?w)"
    using exit_runs_handlers_in_reverse [OF c a 1 2, of _ _ 3] by blast
  then show ?thesis by (simp only: p b option.map)
qed

subsection \<open>When \<open>exit\<close> returns to the kernel\<close>

text \<open>The streams are in order: the list is well formed and no two writable streams share a descriptor.\<close>

definition streams_in_order :: "'k world \<Rightarrow> bool" where
  "streams_in_order w = (\<exists>ps. registry w ps \<and> (\<forall>q \<in> set ps. stream_ok (files w q)) \<and>
     inj_on (\<lambda>q. fd (files w q)) {q \<in> set ps. writable (files w q)})"

lemma flush_all_returns:
  assumes "writes_to K out" "writes_apart K out" "streams_in_order w"
  shows "\<exists>r w'. flush_all K w = Some (r, w')"
proof -
  obtain ps where ps: "chain (files w) (mini_stream_head w) ps" "distinct ps" "\<forall>q \<in> set ps. stream_ok (files w q)"
      "inj_on (\<lambda>q. fd (files w q)) {q \<in> set ps. writable (files w q)}"
    using assms(3) by (auto simp: streams_in_order_def registry_def)
  from flush_all_loop_spec [OF assms(1,2) ps, of 0]
  obtain e w' where "flush_all_loop K (mini_stream_head w) 0 w = Some (e, w')" by blast
  then show ?thesis by (simp add: flush_all_def)
qed

text \<open>C24. Handlers may themselves register handlers while \<open>exit\<close> runs. If every handler returns, leaves
  the streams in order and registers only handlers of a lower rank, \<open>exit\<close> ends the process with the given
  status, and no handler is left over.\<close>

theorem exit_ends:
  assumes "writes_to K out" "writes_apart K out" "process_ok p" "streams_in_order (stdio p)"
    and "\<forall>h q. process_ok q \<longrightarrow> streams_in_order (stdio q) \<longrightarrow>
      (\<exists>q' new. call h q = Some q' \<and> process_ok q' \<and> streams_in_order (stdio q') \<and>
         atexit_stack q' = new @ atexit_stack q \<and> (\<forall>g \<in> set new. rank g < (rank h :: nat)))"
  shows "\<exists>p'. exit_process K call status p = Some (status, p') \<and> mini_atexit_count p' = 0"
proof -
  have step: "\<And>h q. process_ok q \<Longrightarrow> streams_in_order (fst (stdio q, quick_exit_stack q)) \<Longrightarrow>
      \<exists>q' new. call h q = Some q' \<and> process_ok q' \<and> streams_in_order (fst (stdio q', quick_exit_stack q')) \<and>
         atexit_stack q' = new @ atexit_stack q \<and> (\<forall>g \<in> set new. rank g < rank h)"
    using assms(5) by simp
  have "streams_in_order (fst (stdio p, quick_exit_stack p))" using assms(4) by simp
  from exit_table.run_handlers_ends [where I = "\<lambda>w. streams_in_order (fst w)", OF step assms(3) this]
  obtain p1 where p1: "run_handlers pop_atexit call p = Some p1" "process_ok p1" "atexit_stack p1 = []"
      "streams_in_order (stdio p1)" by auto
  obtain r w where w: "flush_all K (stdio p1) = Some (r, w)"
    using flush_all_returns [OF assms(1,2) p1(4)] by blast
  have "mini_atexit_count p1 = 0" using p1(2,3) by (auto simp: exit_table_defs unat_eq_zero)
  then show ?thesis using p1(1) w by (simp add: exit_process_def Exit_group_def)
qed

text \<open>Handler 2 registers handler 1, which registers nothing.\<close>

definition chained_call :: "fn \<Rightarrow> (int \<Rightarrow> byte list) process \<Rightarrow> (int \<Rightarrow> byte list) process option" where
  "chained_call h p = (if h = 2 then Some (snd (atexit 1 p)) else Some p)"

lemma chained_call_ranked:
  assumes "process_ok q"
  shows "\<exists>q' new. chained_call h q = Some q' \<and> process_ok q' \<and> stdio q' = stdio q \<and>
         atexit_stack q' = new @ atexit_stack q \<and> (\<forall>g \<in> set new. g < h)"
proof (cases "h = 2")
  case True
  show ?thesis
  proof (cases "length (atexit_stack q) < 32")
    case less: True
    obtain q' where "atexit 1 q = (0, q')" "process_ok q'" "atexit_stack q' = 1 # atexit_stack q" "stdio q' = stdio q"
      using exit_table.register_push [OF assms, of 1] less by auto
    then show ?thesis using True by (intro exI [of _ q'] exI [of _ "[1]"]) (simp add: chained_call_def)
  next
    case False
    then have "atexit 1 q = (- 1, q)"
      using exit_table.register_full [OF assms] exit_table.stack_bounded [OF assms] by force
    then show ?thesis using assms True by (intro exI [of _ q] exI [of _ "[]"]) (simp add: chained_call_def)
  qed
next
  case False
  then show ?thesis using assms by (intro exI [of _ q] exI [of _ "[]"]) (simp add: chained_call_def)
qed

lemma exit_ends_witness:
  "\<exists>p'. exit_process split_kernel chained_call 1 (snd (atexit 2 (initial_process (initial_world (\<lambda>_. []))))) =
     Some (1, p') \<and> mini_atexit_count p' = 0"
proof -
  let ?w = "initial_world (\<lambda>_. []) :: (int \<Rightarrow> byte list) world"
  have ok: "\<forall>q \<in> set [stdin_ptr, stdout_ptr, stderr_ptr]. stream_ok (files ?w q)"
    using initial_ok by (simp add: initial_world_def)
  have w: "streams_in_order ?w"
    unfolding streams_in_order_def
    by (intro exI [of _ "[stdin_ptr, stdout_ptr, stderr_ptr]"] conjI initial_registry ok initial_descriptors)
  note I = initial_process_ok [of ?w]
  obtain p1 :: "(int \<Rightarrow> byte list) process"
    where p1: "atexit 2 (initial_process ?w) = (0, p1)" "process_ok p1" "stdio p1 = ?w"
    using exit_table.register_push [OF I(1), of 2] I by auto
  have ranked: "\<forall>h q. process_ok q \<longrightarrow> streams_in_order (stdio q) \<longrightarrow>
      (\<exists>q' new. chained_call h q = Some q' \<and> process_ok q' \<and> streams_in_order (stdio q') \<and>
         atexit_stack q' = new @ atexit_stack q \<and> (\<forall>g \<in> set new. id g < id h))"
  proof (intro allI impI)
    fix h and q :: "(int \<Rightarrow> byte list) process"
    assume q: "process_ok q" "streams_in_order (stdio q)"
    from chained_call_ranked [OF q(1), of h] obtain q' new where
      "chained_call h q = Some q'" "process_ok q'" "stdio q' = stdio q"
      "atexit_stack q' = new @ atexit_stack q" "\<forall>g \<in> set new. g < h" by blast
    with q(2) show "\<exists>q' new. chained_call h q = Some q' \<and> process_ok q' \<and> streams_in_order (stdio q') \<and>
         atexit_stack q' = new @ atexit_stack q \<and> (\<forall>g \<in> set new. id g < id h)"
      by (intro exI [of _ q'] exI [of _ new]) simp
  qed
  have "streams_in_order (stdio p1)" using w p1(3) by simp
  from exit_ends [OF split_writes p1(2) this ranked]
  show ?thesis using p1(1) by simp
qed


subsection \<open>What \<open>fork\<close> does\<close>

text \<open>Registering triples in turn.\<close>

fun atfork_all :: "mini_atfork_handler list \<Rightarrow> 'k process \<Rightarrow> int list \<times> 'k process" where
  "atfork_all [] p = ([], p)"
| "atfork_all (t # ts) p =
     (let (r, p1) = pthread_atfork (prepare_fn t) (parent_fn t) (child_fn t) p;
          (rs, p2) = atfork_all ts p1 in (r # rs, p2))"

definition atfork_ok :: "'k process \<Rightarrow> bool" where
  "atfork_ok p = (length (atfork_handlers p) = 8 \<and> atfork_count p \<le> 8)"

lemma pthread_atfork_push:
  assumes "atfork_ok p" "length (atfork_snapshot p) < 8"
  shows "\<exists>p'. pthread_atfork (prepare_fn t) (parent_fn t) (child_fn t) p = (0, p') \<and> atfork_ok p' \<and>
    atfork_snapshot p' = atfork_snapshot p @ [t] \<and> stdio p' = stdio p"
proof -
  have n: "unat (atfork_count p) < 8"
    using assms by (simp add: atfork_ok_def atfork_snapshot_def word_le_nat_alt)
  then have m: "unat (atfork_count p + 1) = Suc (unat (atfork_count p))" by (simp add: unat_word_ariths)
  have "atfork_count p \<noteq> MINI_ATFORK_CAPACITY" using n by (auto simp: MINI_ATFORK_CAPACITY_def)
  then show ?thesis using assms(1) n m
    by (simp add: pthread_atfork_def atfork_ok_def atfork_snapshot_def take_set_last word_le_nat_alt)
qed

lemma pthread_atfork_full:
  assumes "atfork_ok p" "length (atfork_snapshot p) = 8"
  shows "pthread_atfork a b c p = (ENOMEM, p)"
  using assms by (simp add: pthread_atfork_def atfork_ok_def atfork_snapshot_def MINI_ATFORK_CAPACITY_def
      word_le_nat_alt word_unat_eq_iff)

lemma atfork_all_push:
  "atfork_ok p \<Longrightarrow> length ts + length (atfork_snapshot p) \<le> 8 \<Longrightarrow>
   \<exists>p'. atfork_all ts p = (replicate (length ts) 0, p') \<and> atfork_ok p' \<and>
     atfork_snapshot p' = atfork_snapshot p @ ts \<and> stdio p' = stdio p"
proof (induction ts arbitrary: p)
  case Nil
  then show ?case by simp
next
  case (Cons t ts)
  obtain p1 where p1: "pthread_atfork (prepare_fn t) (parent_fn t) (child_fn t) p = (0, p1)" "atfork_ok p1"
      "atfork_snapshot p1 = atfork_snapshot p @ [t]" "stdio p1 = stdio p"
    using pthread_atfork_push [of p t] Cons.prems by auto
  obtain p2 where "atfork_all ts p1 = (replicate (length ts) 0, p2)" "atfork_ok p2"
      "atfork_snapshot p2 = atfork_snapshot p1 @ ts" "stdio p2 = stdio p1"
    using Cons.IH [OF p1(2)] Cons.prems(2) p1(3) by auto
  then show ?case using p1 by simp
qed

lemma call_each_runs_bodies:
  "(\<And>h p. h \<in> set fs \<Longrightarrow> h \<noteq> 0 \<Longrightarrow> call h p = map_option (\<lambda>w. p\<lparr>stdio := w\<rparr>) (body h (stdio p))) \<Longrightarrow>
   call_each call fs p = map_option (\<lambda>w. p\<lparr>stdio := w\<rparr>) (run_bodies body (filter (\<lambda>f. f \<noteq> 0) fs) (stdio p))"
proof (induction fs arbitrary: p)
  case Nil
  then show ?case by simp
next
  case (Cons f fs)
  then show ?case by (cases "f = 0") (auto split: Option.bind_splits)
qed

text \<open>Register at most 8 triples of fork handlers in a fresh process, where a handler that is not
  null does to the stdio world what \<open>body\<close> says and registers nothing. Every registration succeeds, a
  ninth is refused with \<open>ENOMEM\<close> and changes nothing. \<open>fork\<close> runs the prepare handlers last registered
  first, then asks the kernel, then runs the child handlers in the child or the parent handlers in the
  parent, both first registered first, skipping null ones; it returns 0 in the child, the child's number in the parent, and
  after a failed call -1 with the kernel's error in \<open>errno\<close>, whatever the parent handlers did to it.\<close>

theorem fork_runs_handlers:
  assumes "length ts \<le> 8"
    and "\<forall>h. h \<noteq> 0 \<longrightarrow> (\<forall>p. call h p = map_option (\<lambda>w. p\<lparr>stdio := w\<rparr>) (body h (stdio p)))"
    and "atfork_all ts (initial_process w0) = (rs, p)"
  shows "rs = replicate (length ts) 0 \<and>
    (length ts = 8 \<longrightarrow> pthread_atfork a b c p = (ENOMEM, p)) \<and>
    map_option (map_prod id stdio) (fork kfork call p) =
      Option.bind (run_bodies body (filter (\<lambda>f. f \<noteq> 0) (map prepare_fn (rev ts))) w0) (\<lambda>w1.
      let (result, k) = kfork (kern w1); w2 = w1\<lparr>kern := k\<rparr>
      in if result = 0 then map_option (Pair 0) (run_bodies body (filter (\<lambda>f. f \<noteq> 0) (map child_fn ts)) w2)
         else map_option (\<lambda>w3. if result < 0 then (- 1, set_errno (- result) w3) else (result, w3))
                (run_bodies body (filter (\<lambda>f. f \<noteq> 0) (map parent_fn ts)) w2))"
proof -
  have i: "atfork_ok (initial_process w0)" "atfork_snapshot (initial_process w0) = []" "stdio (initial_process w0) = w0"
    by (simp_all add: atfork_ok_def initial_process_def atfork_snapshot_def)
  have p: "rs = replicate (length ts) 0" "atfork_ok p" "atfork_snapshot p = ts" "stdio p = w0"
    using atfork_all_push [OF i(1), of ts] assms(1,3) i by auto
  have c: "call_each call fs q = map_option (\<lambda>w. q\<lparr>stdio := w\<rparr>) (run_bodies body (filter (\<lambda>f. f \<noteq> 0) fs) (stdio q))" for fs q
    using assms(2) by (intro call_each_runs_bodies) auto
  show ?thesis
    using p pthread_atfork_full [OF p(2), of a b c]
    by (auto simp: fork_def c Let_def map_option_case split: option.splits Option.bind_splits prod.splits)
qed

lemma fork_runs_handlers_witness:
  "map_option (map_prod id (\<lambda>p. kern (stdio p) 1))
     (fork (\<lambda>k. (42, k)) (\<lambda>h p. map_option (\<lambda>w. p\<lparr>stdio := w\<rparr>) (note_body h (stdio p)))
       (snd (atfork_all [\<lparr>prepare_fn = 1, parent_fn = 2, child_fn = 3\<rparr>, \<lparr>prepare_fn = 4, parent_fn = 0, child_fn = 6\<rparr>,
          \<lparr>prepare_fn = 7, parent_fn = 8, child_fn = 9\<rparr>] (initial_process (initial_world (\<lambda>_. [])))))) =
   Some (42, [7, 4, 1, 2, 8])"
proof -
  let ?ts = "[\<lparr>prepare_fn = 1, parent_fn = 2, child_fn = 3\<rparr>, \<lparr>prepare_fn = 4, parent_fn = 0, child_fn = 6\<rparr>,
          \<lparr>prepare_fn = 7, parent_fn = 8, child_fn = 9\<rparr>] :: mini_atfork_handler list"
  let ?call = "\<lambda>h p. map_option (\<lambda>w. p\<lparr>stdio := w\<rparr>) (note_body h (stdio p))"
  let ?w = "initial_world (\<lambda>_. []) :: (int \<Rightarrow> byte list) world"
  have l: "length ?ts \<le> 8" by simp
  have a: "\<forall>h. h \<noteq> 0 \<longrightarrow> (\<forall>p. ?call h p = map_option (\<lambda>w. p\<lparr>stdio := w\<rparr>) (note_body h (stdio p)))" by simp
  obtain rs p where 1: "atfork_all ?ts (initial_process ?w) = (rs, p)" by fastforce
  have "map_option (map_prod id stdio) (fork (\<lambda>k. (42, k)) ?call p) =
      Some (42, ?w\<lparr>kern := (\<lambda>_. [])(1 := [7, 4, 1, 2, 8])\<rparr>)"
    using fork_runs_handlers [OF l a 1, of undefined undefined undefined "\<lambda>k. (42, k)"]
    by (simp add: note_body_def initial_world_def)
  from arg_cong [OF this, of "map_option (map_prod id (\<lambda>w. kern w 1))"]
  show ?thesis unfolding 1 snd_conv by (simp add: option.map_comp prod.map_comp o_def)
qed

end
