(* ===== verification/Futex.thy ===== *)
theory Futex
  imports Prelude
begin

section \<open>Interleaved runs and the private futex lock (\<open>internal/futex_lock.h\<close>)\<close>

text \<open>
  The concurrent components are state machines: an event names a thread and its next access to shared
  memory (or what the kernel does to it), and \<open>exec\<close> says what the event does to the state, or that it
  cannot happen now. A run is any sequence of events, so a property of the reachable states holds for
  every interleaving. The atomic operations of \<open><stdatomic.h>\<close> are sequentially consistent, one event
  each. The futex system call is the kernel's part: a wait returns at once when the word differs from
  the expected value, otherwise the thread sleeps until it is woken or interrupted; a wake takes one
  sleeper if there is one.
\<close>

subsection \<open>Runs\<close>

inductive reachable :: "('e \<Rightarrow> 's \<Rightarrow> 's option) \<Rightarrow> 's \<Rightarrow> 's \<Rightarrow> bool" for exec :: "'e \<Rightarrow> 's \<Rightarrow> 's option" and s0 :: 's where
  start: "reachable exec s0 s0"
| continue: "reachable exec s0 s \<Longrightarrow> exec e s = Some s' \<Longrightarrow> reachable exec s0 s'"

inductive_cases reachable_last: "reachable exec s0 s"

fun run :: "('e \<Rightarrow> 's \<Rightarrow> 's option) \<Rightarrow> 'e list \<Rightarrow> 's \<Rightarrow> 's option" where
  "run exec [] s = Some s"
| "run exec (e # es) s = Option.bind (exec e s) (run exec es)"

lemma run_reachable: "reachable exec s0 s \<Longrightarrow> run exec es s = Some s' \<Longrightarrow> reachable exec s0 s'"
proof (induction es arbitrary: s)
  case Nil
  then show ?case by simp
next
  case (Cons e es)
  then obtain s1 where s1: "exec e s = Some s1" "run exec es s1 = Some s'"
    by (auto split: Option.bind_splits)
  show ?case using Cons.IH [OF continue [OF Cons.prems(1) s1(1)] s1(2)] .
qed

lemmas run_from_start = run_reachable [OF start]

lemma reachable_invariant:
  assumes "reachable exec s0 s" "I s0" "\<And>s e s'. I s \<Longrightarrow> exec e s = Some s' \<Longrightarrow> I s'"
  shows "I s"
  using assms(1) by induction (auto intro: assms(2,3))

subsection \<open>The contract of a lock word taken by exchange\<close>

text \<open>
  A word that is 0 when free: an exchange that finds 0 takes the lock, one that finds something else does
  not, and only a holder puts 0 back. \<open>inv\<close> is what a client needs on the way to show it (it may itself
  rely on there being one holder). Three components keep this contract: the futex lock, \<open>call_once\<close> and
  the mutexes.
\<close>

definition one_holder :: "('s \<Rightarrow> int) \<Rightarrow> ('s \<Rightarrow> 't \<Rightarrow> bool) \<Rightarrow> 's \<Rightarrow> bool" where
  "one_holder word holds s =
     ((word s \<noteq> 0 \<longleftrightarrow> (\<exists>t. holds s t)) \<and> (\<forall>t u. holds s t \<longrightarrow> holds s u \<longrightarrow> t = u))"

locale exchange_lock =
  fixes exec :: "'e \<Rightarrow> 's \<Rightarrow> 's option"
    and s0 :: 's
    and word :: "'s \<Rightarrow> int"
    and holds :: "'s \<Rightarrow> 't \<Rightarrow> bool"
    and inv :: "'s \<Rightarrow> bool"
  assumes start_free: "word s0 = 0" "\<not> holds s0 t"
    and start_inv: "inv s0"
    and exec_lock: "inv s \<Longrightarrow> one_holder word holds s \<Longrightarrow> exec e s = Some s' \<Longrightarrow>
      (word s' = word s \<and> holds s' = holds s) \<or>
      (word s = 0 \<and> word s' \<noteq> 0 \<and> (\<exists>t. holds s' = (holds s)(t := True))) \<or>
      (word s \<noteq> 0 \<and> word s' \<noteq> 0 \<and> holds s' = holds s) \<or>
      (word s' = 0 \<and> (\<exists>t. holds s t \<and> holds s' = (holds s)(t := False)))"
    and exec_inv: "inv s \<Longrightarrow> one_holder word holds s \<Longrightarrow> exec e s = Some s' \<Longrightarrow> inv s'"
begin

lemma reachable_one_holder: "reachable exec s0 s \<Longrightarrow> one_holder word holds s \<and> inv s"
proof (rule reachable_invariant [of exec s0])
  show "one_holder word holds s0 \<and> inv s0" by (simp add: one_holder_def start_free start_inv)
  show "one_holder word holds s' \<and> inv s'" if "one_holder word holds s \<and> inv s" "exec e s = Some s'" for s e s'
  proof
    show "inv s'" using that exec_inv by blast
    show "one_holder word holds s'"
      using exec_lock [OF conjunct2 [OF that(1)] conjunct1 [OF that(1)] that(2)] conjunct1 [OF that(1)]
      unfolding one_holder_def by (elim disjE conjE exE) (auto split: if_splits)
  qed
qed

lemma excluded: "reachable exec s0 s \<Longrightarrow> holds s t \<Longrightarrow> holds s u \<Longrightarrow> t = u"
  using reachable_one_holder by (auto simp: one_holder_def)

end

subsection \<open>The lock\<close>

text \<open>Where a thread stands in \<open>mini_futex_lock_acquire\<close> and \<open>mini_futex_lock_release\<close>.\<close>

datatype lock_pc =
    Outside
  | Acquire_exchange      \<comment> \<open>at the condition of the while loop\<close>
  | Acquire_wait          \<comment> \<open>the exchange found the lock taken; entering the futex wait\<close>
  | Asleep
  | Critical              \<comment> \<open>acquire has returned\<close>
  | Release_wake          \<comment> \<open>the releasing exchange found a nonzero word\<close>

record 't lock_state =
  lock_word :: int
  lock_pcs :: "'t \<Rightarrow> lock_pc"

datatype 't lock_event =
    Call_acquire 't
  | Exchange_one 't
  | Futex_wait 't
  | Futex_return 't       \<comment> \<open>the wait fails or is interrupted\<close>
  | Exchange_zero 't
  | Futex_wake 't "'t option"

definition lock_goto :: "'t \<Rightarrow> lock_pc \<Rightarrow> 't lock_state \<Rightarrow> 't lock_state" where
  "lock_goto t pc s = s\<lparr>lock_pcs := (lock_pcs s)(t := pc)\<rparr>"

text \<open>\<open>ts\<close> are the threads of the process: a wake finds nobody when none of them sleeps.\<close>

fun lock_exec :: "'t list \<Rightarrow> 't lock_event \<Rightarrow> 't lock_state \<Rightarrow> 't lock_state option" where
  "lock_exec ts (Call_acquire t) s =
     (if lock_pcs s t = Outside \<and> t \<in> set ts then Some (lock_goto t Acquire_exchange s) else None)"
| "lock_exec ts (Exchange_one t) s =
     (if lock_pcs s t = Acquire_exchange then
        Some (lock_goto t (if lock_word s \<noteq> 0 then Acquire_wait else Critical) (s\<lparr>lock_word := 1\<rparr>))
      else None)"
| "lock_exec ts (Futex_wait t) s =
     (if lock_pcs s t = Acquire_wait then
        Some (lock_goto t (if lock_word s = 1 then Asleep else Acquire_exchange) s)
      else None)"
| "lock_exec ts (Futex_return t) s =
     (if lock_pcs s t = Asleep \<or> lock_pcs s t = Acquire_wait then Some (lock_goto t Acquire_exchange s) else None)"
| "lock_exec ts (Exchange_zero t) s =
     (if lock_pcs s t = Critical then
        Some (lock_goto t (if lock_word s \<noteq> 0 then Release_wake else Outside) (s\<lparr>lock_word := 0\<rparr>))
      else None)"
| "lock_exec ts (Futex_wake t (Some u)) s =
     (if lock_pcs s t = Release_wake \<and> lock_pcs s u = Asleep then
        Some (lock_goto u Acquire_exchange (lock_goto t Outside s))
      else None)"
| "lock_exec ts (Futex_wake t None) s =
     (if lock_pcs s t = Release_wake \<and> list_all (\<lambda>u. lock_pcs s u \<noteq> Asleep) ts then Some (lock_goto t Outside s)
      else None)"

definition free_lock :: "'t lock_state" where
  "free_lock = \<lparr>lock_word = 0, lock_pcs = \<lambda>_. Outside\<rparr>"

text \<open>Somebody who will come to the lock or to the wake again, when a thread sleeps.\<close>

definition awake_in_protocol :: "'t lock_state \<Rightarrow> bool" where
  "awake_in_protocol s = (\<exists>u. lock_pcs s u \<in> {Acquire_exchange, Critical, Release_wake})"

definition lock_inv :: "'t list \<Rightarrow> 't lock_state \<Rightarrow> bool" where
  "lock_inv ts s =
     ((\<forall>t. lock_pcs s t \<noteq> Outside \<longrightarrow> t \<in> set ts) \<and> lock_word s \<in> {0, 1} \<and>
      ((\<exists>t. lock_pcs s t = Asleep) \<longrightarrow> awake_in_protocol s))"

lemma critical_goto:
  "(\<lambda>u. lock_pcs (lock_goto t pc s) u = Critical) = (\<lambda>u. lock_pcs s u = Critical)(t := (pc = Critical))"
  by (auto simp: lock_goto_def)

lemma critical_word: "(\<lambda>u. lock_pcs (s\<lparr>lock_word := w\<rparr>) u = Critical) = (\<lambda>u. lock_pcs s u = Critical)"
  by simp

lemma lock_word_goto [simp]: "lock_word (lock_goto t pc s) = lock_word s"
  by (simp add: lock_goto_def)

lemma not_held: "\<not> f t \<Longrightarrow> f(t := False) = f"
  by (rule fun_upd_idem) simp

lemma lock_exec_keeps_lock:
  assumes "one_holder lock_word (\<lambda>s t. lock_pcs s t = Critical) s" "lock_exec ts e s = Some s'"
  shows "(lock_word s' = lock_word s \<and> (\<lambda>t. lock_pcs s' t = Critical) = (\<lambda>t. lock_pcs s t = Critical)) \<or>
      (lock_word s = 0 \<and> lock_word s' \<noteq> 0 \<and> (\<exists>t. (\<lambda>t. lock_pcs s' t = Critical) = (\<lambda>t. lock_pcs s t = Critical)(t := True))) \<or>
      (lock_word s \<noteq> 0 \<and> lock_word s' \<noteq> 0 \<and> (\<lambda>t. lock_pcs s' t = Critical) = (\<lambda>t. lock_pcs s t = Critical)) \<or>
      (lock_word s' = 0 \<and> (\<exists>t. lock_pcs s t = Critical \<and> (\<lambda>t. lock_pcs s' t = Critical) = (\<lambda>t. lock_pcs s t = Critical)(t := False)))"
proof (cases e)
  case (Exchange_one t)
  then show ?thesis using assms
    by (cases "lock_word s = 0") (auto simp: critical_goto critical_word not_held split: if_splits)
next
  case (Exchange_zero t)
  then have t: "lock_pcs s t = Critical" using assms(2) by (auto split: if_splits)
  then have "lock_word s \<noteq> 0" using assms(1) by (auto simp: one_holder_def)
  then have "s' = lock_goto t Release_wake (s\<lparr>lock_word := 0\<rparr>)" using Exchange_zero assms(2) t by simp
  then have "lock_word s' = 0" "(\<lambda>t. lock_pcs s' t = Critical) = (\<lambda>t. lock_pcs s t = Critical)(t := False)"
    by (simp_all add: critical_goto critical_word)
  then show ?thesis using t by blast
next
  case (Futex_wake t u)
  then show ?thesis using assms(2)
    by (cases u) (auto simp: critical_goto critical_word not_held split: if_splits)
qed (use assms(2) in \<open>auto simp: critical_goto critical_word not_held split: if_splits\<close>)

lemma awake_intro: "lock_pcs s u \<in> {Acquire_exchange, Critical, Release_wake} \<Longrightarrow> awake_in_protocol s"
  by (auto simp: awake_in_protocol_def)

lemma awake_goto:
  "pc \<in> {Acquire_exchange, Critical, Release_wake} \<Longrightarrow> awake_in_protocol (lock_goto t pc s)"
  by (auto simp: awake_in_protocol_def lock_goto_def)

lemma lock_invI:
  "(\<And>t. lock_pcs s t \<noteq> Outside \<Longrightarrow> t \<in> set ts) \<Longrightarrow> lock_word s \<in> {0, 1} \<Longrightarrow> awake_in_protocol s \<Longrightarrow> lock_inv ts s"
  by (simp add: lock_inv_def)

text \<open>An event that puts the thread where it is still awake needs nothing else.\<close>

lemma lock_inv_awake:
  assumes "lock_inv ts s" "w \<in> {0, 1}" "t \<in> set ts" "pc \<in> {Acquire_exchange, Critical, Release_wake}"
  shows "lock_inv ts (lock_goto t pc (s\<lparr>lock_word := w\<rparr>))"
proof (rule lock_invI)
  show "awake_in_protocol (lock_goto t pc (s\<lparr>lock_word := w\<rparr>))" by (rule awake_goto [OF assms(4)])
qed (use assms(1-3) in \<open>auto simp: lock_inv_def lock_goto_def split: if_splits\<close>)

lemma lock_exec_keeps_inv:
  assumes I: "lock_inv ts s" and one: "one_holder lock_word (\<lambda>s t. lock_pcs s t = Critical) s"
    and "lock_exec ts e s = Some s'"
  shows "lock_inv ts s'"
proof -
  have inr: "\<And>t. lock_pcs s t \<noteq> Outside \<Longrightarrow> t \<in> set ts" and w: "lock_word s \<in> {0, 1}"
    using I by (auto simp: lock_inv_def)
  have same: "lock_goto t pc s = lock_goto t pc (s\<lparr>lock_word := lock_word s\<rparr>)" for t pc by simp
  have holder: "\<exists>u. lock_pcs s u = Critical" if "lock_word s \<noteq> 0" using one that by (auto simp: one_holder_def)
  show ?thesis
  proof (cases e)
    case (Call_acquire t)
    then show ?thesis using assms(3) lock_inv_awake [OF I w] by (auto split: if_splits)
  next
    case (Exchange_one t)
    then have t: "lock_pcs s t = Acquire_exchange" using assms(3) by (auto split: if_splits)
    then have ts: "t \<in> set ts" using inr by simp
    show ?thesis
    proof (cases "lock_word s = 0")
      case True
      then have "s' = lock_goto t Critical (s\<lparr>lock_word := 1\<rparr>)" using Exchange_one assms(3) t by simp
      then show ?thesis using lock_inv_awake [OF I _ ts] by simp
    next
      case False
      then obtain u where u: "lock_pcs s u = Critical" using holder by blast
      have s': "s' = lock_goto t Acquire_wait (s\<lparr>lock_word := 1\<rparr>)" using Exchange_one assms(3) t False by simp
      then have "lock_pcs s' u = Critical" using u t by (auto simp: lock_goto_def)
      then have "awake_in_protocol s'" by (intro awake_intro [of _ u]) simp
      then show ?thesis using inr ts s' by (intro lock_invI) (auto simp: lock_goto_def split: if_splits)
    qed
  next
    case (Futex_wait t)
    then have t: "lock_pcs s t = Acquire_wait" using assms(3) by (auto split: if_splits)
    then have ts: "t \<in> set ts" using inr by simp
    show ?thesis
    proof (cases "lock_word s = 1")
      case True
      then obtain u where u: "lock_pcs s u = Critical" using holder by auto
      have s': "s' = lock_goto t Asleep s" using Futex_wait assms(3) t True by simp
      then have "lock_pcs s' u = Critical" using u t by (auto simp: lock_goto_def)
      then have "awake_in_protocol s'" by (intro awake_intro [of _ u]) simp
      then show ?thesis using inr ts s' w by (intro lock_invI) (auto simp: lock_goto_def split: if_splits)
    next
      case False
      then have "s' = lock_goto t Acquire_exchange s" using Futex_wait assms(3) t by simp
      then show ?thesis using lock_inv_awake [OF I w ts] by simp
    qed
  next
    case (Futex_return t)
    then show ?thesis using assms(3) lock_inv_awake [OF I w] inr by (auto split: if_splits)
  next
    case (Exchange_zero t)
    then have t: "lock_pcs s t = Critical" using assms(3) by (auto split: if_splits)
    then have ts: "t \<in> set ts" using inr by simp
    have "lock_word s \<noteq> 0" using one t by (auto simp: one_holder_def)
    then have "s' = lock_goto t Release_wake (s\<lparr>lock_word := 0\<rparr>)" using Exchange_zero assms(3) t by simp
    then show ?thesis using lock_inv_awake [OF I _ ts] by simp
  next
    case (Futex_wake t v)
    show ?thesis
    proof (cases v)
      case None
      then have "s' = lock_goto t Outside s" "\<forall>u. lock_pcs s u \<noteq> Asleep"
        using Futex_wake assms(3) inr by (auto simp: list_all_iff split: if_splits)
      then show ?thesis using inr w by (auto simp: lock_inv_def lock_goto_def split: if_splits)
    next
      case (Some u)
      then have u: "s' = lock_goto u Acquire_exchange (lock_goto t Outside s)" "lock_pcs s u = Asleep"
        using Futex_wake assms(3) by (auto split: if_splits)
      have "u \<in> set ts" using inr [of u] u(2) by simp
      then show ?thesis unfolding u(1) using inr w
        by (intro lock_invI awake_goto) (auto simp: lock_goto_def split: if_splits)
    qed
  qed
qed

interpretation futex_lock: exchange_lock "lock_exec ts" free_lock lock_word
    "\<lambda>s t. lock_pcs s t = Critical" "lock_inv ts" for ts :: "'t list"
proof (unfold_locales, goal_cases)
  case (4 s e s')
  then show ?case using lock_exec_keeps_lock by blast
next
  case (5 s e s')
  then show ?case using lock_exec_keeps_inv by blast
qed (simp_all add: free_lock_def lock_inv_def)

text \<open>C25. In every interleaving of any number of threads, at most one thread is between the end of
  \<open>mini_futex_lock_acquire\<close> and its release, the word is 0 exactly when there is none, and no wake-up is
  lost: while a thread sleeps, another one holds the lock, is about to wake a sleeper, or is about to
  try for the lock.\<close>

theorem futex_lock_excludes:
  assumes "reachable (lock_exec ts) free_lock s"
  shows "(\<forall>t u. lock_pcs s t = Critical \<longrightarrow> lock_pcs s u = Critical \<longrightarrow> t = u) \<and>
    (lock_word s = 0 \<longleftrightarrow> (\<forall>t. lock_pcs s t \<noteq> Critical)) \<and>
    ((\<exists>t. lock_pcs s t = Asleep) \<longrightarrow> awake_in_protocol s)"
  using futex_lock.reachable_one_holder [OF assms] by (auto simp: one_holder_def lock_inv_def)

text \<open>One thread holds the lock, a second one sleeps on it.\<close>

lemma futex_lock_excludes_witness:
  "\<exists>s. run (lock_exec [1, 2]) [Call_acquire 1, Exchange_one 1, Call_acquire 2, Exchange_one 2, Futex_wait 2] free_lock = Some s \<and>
     lock_pcs s 1 = Critical \<and> lock_pcs s (2 :: nat) = Asleep \<and> lock_word s \<noteq> 0 \<and> awake_in_protocol s"
proof -
  let ?es = "[Call_acquire 1, Exchange_one 1, Call_acquire 2, Exchange_one 2, Futex_wait (2 :: nat)]"
  obtain s where s: "run (lock_exec [1, 2]) ?es free_lock = Some s"
    and pc: "lock_pcs s 1 = Critical" "lock_pcs s 2 = Asleep"
    by (simp add: free_lock_def lock_goto_def)
  from futex_lock_excludes [OF run_from_start [OF s]] pc
  have "lock_word s \<noteq> 0 \<and> awake_in_protocol s" by blast
  with s pc show ?thesis by blast
qed

end
