(* ===== verification/Mutex.thy ===== *)
theory Mutex
  imports Futex
begin

unbundle bit_operations_syntax

section \<open>Mutexes (\<open>thread/mutex.c\<close>)\<close>

text \<open>
  One mutex shared by any number of threads. Every access of a call to the shared words is an event of
  its own, so two calls interleave between any two of their accesses; the argument checks read nothing
  shared but the type, which only \<open>mtx_init\<close> writes. A thread is its control block's address, 0 where it
  has none. What the kernel answers to a futex wait is not restricted at all: any result at any time,
  so what is proved does not rest on the kernel. \<open>held\<close> is a ghost of the specification: how many
  successful acquisitions of a thread are not yet matched by a release. Every call saves and restores
  \<open>errno\<close>, which is left out. \<open>mtx_init\<close> and \<open>mtx_destroy\<close> must not run while other threads use the mutex; they
  are functions on the object.
\<close>

subsection \<open>The object and its type\<close>

definition thrd_success :: int where "thrd_success = 0"
definition thrd_timedout :: int where "thrd_timedout = 2"
definition thrd_busy :: int where "thrd_busy = 3"
definition thrd_error :: int where "thrd_error = 4"

definition mtx_plain :: int where "mtx_plain = 0"
definition mtx_recursive :: int where "mtx_recursive = 1"
definition mtx_timed :: int where "mtx_timed = 2"

definition MINI_RAW_EINTR :: int where "MINI_RAW_EINTR = - 4"
definition MINI_RAW_EAGAIN :: int where "MINI_RAW_EAGAIN = - 11"
definition MINI_RAW_ETIMEDOUT :: int where "MINI_RAW_ETIMEDOUT = - 110"
definition MINI_NSEC_PER_SEC :: int where "MINI_NSEC_PER_SEC = 1000000000"
definition MINI_MTX_TYPE_MASK :: int where "MINI_MTX_TYPE_MASK = mtx_recursive OR mtx_timed"

lemmas mtx_consts [c_consts] = thrd_success_def thrd_timedout_def thrd_busy_def thrd_error_def
  mtx_plain_def mtx_recursive_def mtx_timed_def MINI_RAW_EINTR_def MINI_RAW_EAGAIN_def
  MINI_RAW_ETIMEDOUT_def MINI_NSEC_PER_SEC_def MINI_MTX_TYPE_MASK_def

record time_point =
  tp_sec :: int
  tp_nsec :: int

record mtx =
  m_state :: int
  m_type :: int
  m_owner :: nat
  m_depth :: int

definition valid_type :: "int \<Rightarrow> bool" where
  "valid_type ty = (0 \<le> ty \<and> ty AND NOT MINI_MTX_TYPE_MASK = 0)"

definition valid_time_point :: "time_point option \<Rightarrow> bool" where
  "valid_time_point tp = (case tp of None \<Rightarrow> False | Some p \<Rightarrow> 0 \<le> tp_nsec p \<and> tp_nsec p < MINI_NSEC_PER_SEC)"

abbreviation is_recursive :: "mtx \<Rightarrow> bool" where
  "is_recursive m \<equiv> m_type m AND mtx_recursive \<noteq> 0"

definition mtx_init :: "mtx option \<Rightarrow> int \<Rightarrow> int \<times> mtx option" where
  "mtx_init p ty =
     (case p of
        None \<Rightarrow> (thrd_error, None)
      | Some m \<Rightarrow> if \<not> valid_type ty then (thrd_error, Some m)
                 else (thrd_success, Some (m\<lparr>m_state := 0, m_type := ty, m_owner := 0, m_depth := 0\<rparr>)))"

definition mtx_destroy :: "mtx option \<Rightarrow> mtx option" where
  "mtx_destroy p = map_option (\<lambda>m. m\<lparr>m_depth := 0, m_owner := 0, m_state := 0, m_type := mtx_plain\<rparr>) p"

subsection \<open>The calls, access by access\<close>

datatype mtx_call = Lock | Timedlock "time_point option" | Trylock | Unlock

text \<open>Where a thread stands: the access to the mutex it does next.\<close>

datatype mtx_pc =
    Out int                    \<comment> \<open>in no call; the result of the last one\<close>
  | Own_state mtx_call bool    \<comment> \<open>\<open>owned_by\<close>: load the state; the flag marks the recursive test of trylock\<close>
  | Own_owner mtx_call bool    \<comment> \<open>\<open>owned_by\<close>: load the owner\<close>
  | Rec_load | Rec_add         \<comment> \<open>\<open>recurse_owned\<close>\<close>
  | Acq_xchg mtx_call          \<comment> \<open>\<open>acquire_unlocked\<close>\<close>
  | Acq_owner | Acq_depth
  | Waiting mtx_call           \<comment> \<open>in the futex wait\<close>
  | Unl_load | Unl_dec | Unl_depth | Unl_owner | Unl_xchg | Unl_wake

text \<open>The checks at the start of a call, by the thread \<open>owner\<close>.\<close>

definition call_start :: "mtx \<Rightarrow> nat \<Rightarrow> mtx_call \<Rightarrow> mtx_pc" where
  "call_start m owner c =
     (if \<not> valid_type (m_type m) then Out thrd_error
      else case c of
        Timedlock tp \<Rightarrow>
          if m_type m AND mtx_timed = 0 \<or> \<not> valid_time_point tp then Out thrd_error
          else if owner = 0 then Out thrd_error else Own_state c False
      | Lock \<Rightarrow> if owner = 0 then Out thrd_error else Own_state c False
      | Trylock \<Rightarrow> if owner = 0 then Out thrd_error else Own_state c (is_recursive m)
      | Unlock \<Rightarrow> if owner = 0 then Out thrd_error else Own_state c False)"

text \<open>What follows \<open>owned_by\<close>.\<close>

definition when_owned :: "mtx \<Rightarrow> mtx_call \<Rightarrow> bool \<Rightarrow> mtx_pc" where
  "when_owned m c first =
     (case c of
        Unlock \<Rightarrow> Unl_load
      | Trylock \<Rightarrow> if first then Rec_load else Out thrd_busy
      | _ \<Rightarrow> if is_recursive m then Rec_load else Out thrd_error)"

definition when_not_owned :: "mtx_call \<Rightarrow> bool \<Rightarrow> mtx_pc" where
  "when_not_owned c first =
     (case c of
        Unlock \<Rightarrow> Out thrd_error
      | Trylock \<Rightarrow> if first then Own_state c False else Acq_xchg c
      | _ \<Rightarrow> Acq_xchg c)"

text \<open>After an exchange that found the mutex taken.\<close>

definition when_taken :: "mtx_call \<Rightarrow> mtx_pc" where
  "when_taken c =
     (case c of
        Trylock \<Rightarrow> Out thrd_busy
      | Timedlock (Some p) \<Rightarrow> if tp_sec p < 0 then Out thrd_timedout else Waiting c
      | _ \<Rightarrow> Waiting c)"

text \<open>After the futex wait returned \<open>r\<close>.\<close>

definition after_wait :: "mtx_call \<Rightarrow> int \<Rightarrow> mtx_pc" where
  "after_wait c r =
     (if 0 \<le> r \<or> r = MINI_RAW_EAGAIN \<or> r = MINI_RAW_EINTR then Acq_xchg c
      else if (case c of Timedlock _ \<Rightarrow> True | _ \<Rightarrow> False) \<and> r = MINI_RAW_ETIMEDOUT then Out thrd_timedout
      else Out thrd_error)"

text \<open>The next access of thread \<open>t\<close>: what it does to the mutex, and where the thread stands then.\<close>

fun mtx_access :: "nat \<Rightarrow> mtx_pc \<Rightarrow> mtx \<Rightarrow> (mtx_pc \<times> mtx) option" where
  "mtx_access t (Own_state c b) m = Some (if m_state m \<noteq> 0 then Own_owner c b else when_not_owned c b, m)"
| "mtx_access t (Own_owner c b) m = Some (if m_owner m = t then when_owned m c b else when_not_owned c b, m)"
| "mtx_access t Rec_load m = Some (if m_depth m \<le> 0 \<or> m_depth m = INT_MAX then Out thrd_error else Rec_add, m)"
| "mtx_access t Rec_add m = Some (Out thrd_success, m\<lparr>m_depth := m_depth m + 1\<rparr>)"
| "mtx_access t (Acq_xchg c) m = Some (if m_state m \<noteq> 0 then when_taken c else Acq_owner, m\<lparr>m_state := 1\<rparr>)"
| "mtx_access t Acq_owner m = Some (Acq_depth, m\<lparr>m_owner := t\<rparr>)"
| "mtx_access t Acq_depth m = Some (Out thrd_success, m\<lparr>m_depth := 1\<rparr>)"
| "mtx_access t Unl_load m =
     Some (if m_depth m \<le> 0 then Out thrd_error
           else if is_recursive m \<and> 1 < m_depth m then Unl_dec
           else if m_depth m \<noteq> 1 then Out thrd_error
           else Unl_depth, m)"
| "mtx_access t Unl_dec m = Some (Out thrd_success, m\<lparr>m_depth := m_depth m - 1\<rparr>)"
| "mtx_access t Unl_depth m = Some (Unl_owner, m\<lparr>m_depth := 0\<rparr>)"
| "mtx_access t Unl_owner m = Some (Unl_xchg, m\<lparr>m_owner := 0\<rparr>)"
| "mtx_access t Unl_xchg m = Some (if m_state m = 0 then Out thrd_error else Unl_wake, m\<lparr>m_state := 0\<rparr>)"
| "mtx_access t Unl_wake m = Some (Out thrd_success, m)"
| "mtx_access t (Out r) m = None"
| "mtx_access t (Waiting c) m = None"

subsection \<open>All threads\<close>

record mtx_system =
  the_mtx :: mtx
  mtx_pcs :: "nat \<Rightarrow> mtx_pc"
  held :: "nat \<Rightarrow> int"

text \<open>The ghost: acquisitions and releases, at the access that makes them true.\<close>

fun held_after :: "mtx_pc \<Rightarrow> int \<Rightarrow> int" where
  "held_after Acq_depth h = 1"
| "held_after Rec_add h = h + 1"
| "held_after Unl_dec h = h - 1"
| "held_after Unl_xchg h = 0"
| "held_after _ h = h"

datatype mtx_event =
    Call nat bool mtx_call     \<comment> \<open>a thread calls; the flag: with a null pointer\<close>
  | Access nat
  | Futex_answer nat int

definition mtx_goto :: "nat \<Rightarrow> mtx_pc \<Rightarrow> mtx \<Rightarrow> mtx_system \<Rightarrow> mtx_system" where
  "mtx_goto t pc m s =
     s\<lparr>the_mtx := m, mtx_pcs := (mtx_pcs s)(t := pc), held := (held s)(t := held_after (mtx_pcs s t) (held s t))\<rparr>"

fun mtx_exec :: "mtx_event \<Rightarrow> mtx_system \<Rightarrow> mtx_system option" where
  "mtx_exec (Call t null c) s =
     (case mtx_pcs s t of
        Out _ \<Rightarrow> Some (mtx_goto t (if null then Out thrd_error else call_start (the_mtx s) t c) (the_mtx s) s)
      | _ \<Rightarrow> None)"
| "mtx_exec (Access t) s =
     (case mtx_access t (mtx_pcs s t) (the_mtx s) of None \<Rightarrow> None | Some (pc, m) \<Rightarrow> Some (mtx_goto t pc m s))"
| "mtx_exec (Futex_answer t r) s =
     (case mtx_pcs s t of Waiting c \<Rightarrow> Some (mtx_goto t (after_wait c r) (the_mtx s) s) | _ \<Rightarrow> None)"

text \<open>A mutex just initialized, no thread in a call.\<close>

definition mtx_start :: "int \<Rightarrow> mtx_system" where
  "mtx_start ty = \<lparr>the_mtx = \<lparr>m_state = 0, m_type = ty, m_owner = 0, m_depth = 0\<rparr>,
     mtx_pcs = \<lambda>_. Out thrd_success, held = \<lambda>_. 0\<rparr>"

subsection \<open>The invariant\<close>

text \<open>A thread that owns the mutex, from the exchange that takes it to the one that gives it back.\<close>

definition mtx_holds :: "mtx_system \<Rightarrow> nat \<Rightarrow> bool" where
  "mtx_holds s t = (0 < held s t \<or> mtx_pcs s t \<in> {Acq_owner, Acq_depth})"

text \<open>What thread \<open>t\<close>, with \<open>h\<close> unmatched acquisitions, knows of the mutex where it stands.\<close>

definition thread_inv :: "mtx \<Rightarrow> nat \<Rightarrow> mtx_pc \<Rightarrow> int \<Rightarrow> bool" where
  "thread_inv m t pc h =
     (0 \<le> h \<and> h \<le> INT_MAX \<and> (1 < h \<longrightarrow> is_recursive m) \<and> (t = 0 \<longrightarrow> (\<exists>r. pc = Out r) \<and> h = 0) \<and>
      (case pc of
         Out _ \<Rightarrow> 0 < h \<longrightarrow> m_owner m = t \<and> m_depth m = h
       | Own_state _ first \<Rightarrow> (0 < h \<longrightarrow> m_owner m = t \<and> m_depth m = h) \<and> (first \<longrightarrow> is_recursive m)
       | Own_owner _ first \<Rightarrow> (0 < h \<longrightarrow> m_owner m = t \<and> m_depth m = h) \<and> (first \<longrightarrow> is_recursive m)
       | Rec_load \<Rightarrow> 0 < h \<and> m_owner m = t \<and> m_depth m = h \<and> is_recursive m
       | Rec_add \<Rightarrow> 0 < h \<and> h < INT_MAX \<and> m_owner m = t \<and> m_depth m = h \<and> is_recursive m
       | Acq_xchg _ \<Rightarrow> h = 0
       | Waiting _ \<Rightarrow> h = 0
       | Acq_owner \<Rightarrow> h = 0 \<and> m_owner m = 0
       | Acq_depth \<Rightarrow> h = 0 \<and> m_owner m = t
       | Unl_load \<Rightarrow> 0 < h \<and> m_owner m = t \<and> m_depth m = h
       | Unl_dec \<Rightarrow> 1 < h \<and> m_owner m = t \<and> m_depth m = h
       | Unl_depth \<Rightarrow> h = 1 \<and> m_owner m = t \<and> m_depth m = h
       | Unl_owner \<Rightarrow> h = 1 \<and> m_owner m = t
       | Unl_xchg \<Rightarrow> h = 1 \<and> m_owner m = 0
       | Unl_wake \<Rightarrow> h = 0))"

definition mtx_inv :: "int \<Rightarrow> mtx_system \<Rightarrow> bool" where
  "mtx_inv ty s =
     (m_type (the_mtx s) = ty \<and> (\<forall>t. thread_inv (the_mtx s) t (mtx_pcs s t) (held s t)) \<and>
      (m_owner (the_mtx s) \<noteq> 0 \<longrightarrow> mtx_holds s (m_owner (the_mtx s))))"

text \<open>What a thread that does not own the mutex knows does not depend on its fields.\<close>

lemma thread_inv_other:
  "thread_inv m t pc h \<Longrightarrow> \<not> (0 < h \<or> pc \<in> {Acq_owner, Acq_depth}) \<Longrightarrow> m_type m' = m_type m \<Longrightarrow> thread_inv m' t pc h"
  by (cases pc) (auto simp: thread_inv_def)

lemma thread_inv_cong:
  "m_owner m' = m_owner m \<Longrightarrow> m_depth m' = m_depth m \<Longrightarrow> m_type m' = m_type m \<Longrightarrow> thread_inv m' t pc h = thread_inv m t pc h"
  by (cases pc) (simp_all add: thread_inv_def)

lemma mtx_goto_sel [simp]:
  "the_mtx (mtx_goto t pc m s) = m" "mtx_pcs (mtx_goto t pc m s) = (mtx_pcs s)(t := pc)"
  "held (mtx_goto t pc m s) = (held s)(t := held_after (mtx_pcs s t) (held s t))"
  by (simp_all add: mtx_goto_def)

lemma mtx_holds_goto:
  "mtx_holds (mtx_goto t pc m s) = (mtx_holds s)(t := (0 < held_after (mtx_pcs s t) (held s t) \<or> pc \<in> {Acq_owner, Acq_depth}))"
  by (auto simp: mtx_holds_def fun_eq_iff)

text \<open>A thread moves, and changes owner and depth only where it owns the mutex or nobody does.\<close>

definition good_move :: "mtx_system \<Rightarrow> nat \<Rightarrow> mtx_pc \<Rightarrow> mtx \<Rightarrow> bool" where
  "good_move s t pc m =
     (thread_inv m t pc (held_after (mtx_pcs s t) (held s t)) \<and> m_type m = m_type (the_mtx s) \<and>
      (m_owner m = m_owner (the_mtx s) \<and> m_depth m = m_depth (the_mtx s) \<or> (\<forall>u. u \<noteq> t \<longrightarrow> \<not> mtx_holds s u)) \<and>
      (m_owner m \<noteq> 0 \<longrightarrow> mtx_holds (mtx_goto t pc m s) (m_owner m)))"

lemma good_move_inv:
  assumes I: "mtx_inv ty s" and g: "good_move s t pc m"
  shows "mtx_inv ty (mtx_goto t pc m s)"
proof -
  have "thread_inv m u (mtx_pcs s u) (held s u)" if "u \<noteq> t" for u
  proof (cases "mtx_holds s u")
    case True
    then have "m_owner m = m_owner (the_mtx s)" "m_depth m = m_depth (the_mtx s)"
      using g that by (auto simp: good_move_def)
    then show ?thesis using I g thread_inv_cong [of m "the_mtx s"] by (simp add: mtx_inv_def good_move_def)
  next
    case False
    then show ?thesis using I g thread_inv_other [of "the_mtx s" u "mtx_pcs s u" "held s u" m]
      by (simp add: mtx_inv_def mtx_holds_def good_move_def)
  qed
  then show ?thesis using I g by (simp add: mtx_inv_def good_move_def)
qed

text \<open>What an event may do to the lock.\<close>

definition lock_move :: "mtx_system \<Rightarrow> mtx_system \<Rightarrow> bool" where
  "lock_move s s' =
     ((m_state (the_mtx s') = m_state (the_mtx s) \<and> mtx_holds s' = mtx_holds s) \<or>
      (m_state (the_mtx s) = 0 \<and> m_state (the_mtx s') \<noteq> 0 \<and> (\<exists>t. mtx_holds s' = (mtx_holds s)(t := True))) \<or>
      (m_state (the_mtx s) \<noteq> 0 \<and> m_state (the_mtx s') \<noteq> 0 \<and> mtx_holds s' = mtx_holds s) \<or>
      (m_state (the_mtx s') = 0 \<and> (\<exists>t. mtx_holds s t \<and> mtx_holds s' = (mtx_holds s)(t := False))))"

lemma lock_move_same:
  "m_state m = m_state (the_mtx s) \<or> m_state m \<noteq> 0 \<and> m_state (the_mtx s) \<noteq> 0 \<Longrightarrow>
   (0 < held_after (mtx_pcs s t) (held s t) \<or> pc \<in> {Acq_owner, Acq_depth}) = mtx_holds s t \<Longrightarrow>
   lock_move s (mtx_goto t pc m s)"
  by (auto simp: lock_move_def mtx_holds_goto fun_upd_idem)

text \<open>The starts and the branch points that touch nothing.\<close>

lemma call_start_inv:
  "thread_inv m t (Out r) h \<Longrightarrow> thread_inv m t (call_start m t c) h \<and> call_start m t c \<notin> {Acq_owner, Acq_depth}"
  by (cases c) (auto simp: call_start_def thread_inv_def)

lemma when_not_owned_inv:
  "thread_inv m t (Own_state c b) 0 \<Longrightarrow>
   thread_inv m t (when_not_owned c b) 0 \<and> when_not_owned c b \<notin> {Acq_owner, Acq_depth}"
  by (cases c) (auto simp: when_not_owned_def thread_inv_def)

lemma when_owned_inv:
  "thread_inv m t (Own_owner c b) h \<Longrightarrow> 0 < h \<Longrightarrow>
   thread_inv m t (when_owned m c b) h \<and> when_owned m c b \<notin> {Acq_owner, Acq_depth}"
  by (cases c) (auto simp: when_owned_def thread_inv_def)

lemma when_taken_inv:
  "thread_inv m t (Acq_xchg c) h \<Longrightarrow> thread_inv m t (when_taken c) h \<and> when_taken c \<notin> {Acq_owner, Acq_depth}"
  by (cases c) (auto simp: when_taken_def thread_inv_def split: option.splits)

lemma after_wait_inv:
  "thread_inv m t (Waiting c) h \<Longrightarrow> thread_inv m t (after_wait c r) h \<and> after_wait c r \<notin> {Acq_owner, Acq_depth}"
  by (auto simp: after_wait_def thread_inv_def split: mtx_call.splits)

lemma stay_inv:
  assumes "mtx_inv ty s" "thread_inv (the_mtx s) t pc (held s t)" "pc \<notin> {Acq_owner, Acq_depth}"
    "mtx_pcs s t \<notin> {Acq_owner, Acq_depth, Rec_add, Unl_dec, Unl_xchg}"
  shows "good_move s t pc (the_mtx s) \<and> lock_move s (mtx_goto t pc (the_mtx s) s)"
proof -
  have h: "held_after (mtx_pcs s t) (held s t) = held s t" using assms(4) by (cases "mtx_pcs s t") auto
  have "mtx_holds s t = (0 < held s t)" using assms(4) by (auto simp: mtx_holds_def)
  then have "mtx_holds (mtx_goto t pc (the_mtx s) s) = mtx_holds s" using assms(3) h
    by (auto simp: mtx_holds_goto fun_upd_idem)
  then show ?thesis using assms(1,2) h by (simp add: good_move_def mtx_inv_def lock_move_def)
qed

lemma stay_move:
  "mtx_inv ty s \<Longrightarrow> m = the_mtx s \<Longrightarrow> thread_inv (the_mtx s) t pc (held s t) \<Longrightarrow> pc \<notin> {Acq_owner, Acq_depth} \<Longrightarrow>
   mtx_pcs s t \<notin> {Acq_owner, Acq_depth, Rec_add, Unl_dec, Unl_xchg} \<Longrightarrow>
   good_move s t pc m \<and> lock_move s (mtx_goto t pc m s)"
  using stay_inv by blast

lemma moves_intro:
  "good_move s t pc m \<and> lock_move s (mtx_goto t pc m s) \<Longrightarrow> s' = mtx_goto t pc m s \<Longrightarrow>
   \<exists>t pc m. s' = mtx_goto t pc m s \<and> good_move s t pc m \<and> lock_move s s'"
  by blast

lemma access_moves:
  assumes I: "mtx_inv ty s" and one: "one_holder (\<lambda>s. m_state (the_mtx s)) mtx_holds s"
    and A: "mtx_access t (mtx_pcs s t) (the_mtx s) = Some (pc, m)"
  shows "good_move s t pc m \<and> lock_move s (mtx_goto t pc m s)"
proof -
  let ?m = "the_mtx s"
  have T: "thread_inv ?m t (mtx_pcs s t) (held s t)" using I by (simp add: mtx_inv_def)
  have O: "m_owner ?m \<noteq> 0 \<Longrightarrow> mtx_holds s (m_owner ?m)" using I by (simp add: mtx_inv_def)
  have alone: "mtx_holds s t \<Longrightarrow> \<forall>u. u \<noteq> t \<longrightarrow> \<not> mtx_holds s u" using one by (auto simp: one_holder_def)
  have state: "mtx_holds s t \<Longrightarrow> m_state ?m \<noteq> 0" using one by (auto simp: one_holder_def)
  have nobody: "m_state ?m = 0 \<Longrightarrow> \<not> mtx_holds s u" for u using one by (auto simp: one_holder_def)
  note inv = T [unfolded thread_inv_def]
  have "\<not> (\<exists>r. mtx_pcs s t = Out r)" using A by auto
  then have tn: "t \<noteq> 0" using inv by metis
  show ?thesis
  proof (cases "mtx_pcs s t")
    case (Out r)
    then show ?thesis using A by simp
  next
    case (Waiting c)
    then show ?thesis using A by simp
  next
    case (Own_state c b)
    show ?thesis
    proof (cases "m_state ?m = 0")
      case True
      then have "held s t = 0" using nobody [OF True, of t] inv by (simp add: mtx_holds_def)
      then show ?thesis using A True Own_state T when_not_owned_inv [of ?m t c b]
        by (intro stay_move [OF I]) (auto)
    next
      case False
      then have "pc = Own_owner c b" "m = ?m" using A Own_state by auto
      moreover have "thread_inv ?m t (Own_owner c b) (held s t)" using inv Own_state tn by (simp add: thread_inv_def)
      ultimately show ?thesis using Own_state by (intro stay_move [OF I]) (auto)
    qed
  next
    case (Own_owner c b)
    show ?thesis
    proof (cases "m_owner ?m = t")
      case True
      then have "0 < held s t" using O tn Own_owner by (auto simp: mtx_holds_def)
      then show ?thesis using A True Own_owner T when_owned_inv [of ?m t c b "held s t"]
        by (intro stay_move [OF I]) (auto)
    next
      case False
      then have h: "held s t = 0" using inv Own_owner by auto
      have "thread_inv ?m t (Own_state c b) 0" using inv Own_owner h tn by (simp add: thread_inv_def)
      then show ?thesis using A False Own_owner h when_not_owned_inv [of ?m t c b]
        by (intro stay_move [OF I]) (auto)
    qed
  next
    case Rec_load
    then show ?thesis using A inv tn by (intro stay_move [OF I]) (auto simp: thread_inv_def split: if_splits)
  next
    case Rec_add
    then have H: "mtx_holds s t" using inv by (simp add: mtx_holds_def)
    have p: "pc = Out thrd_success" "m = ?m\<lparr>m_depth := m_depth ?m + 1\<rparr>" using A Rec_add by auto
    have "lock_move s (mtx_goto t pc m s)" using p H Rec_add inv by (intro lock_move_same) auto
    then show ?thesis using p Rec_add inv alone [OF H] tn by (auto simp: good_move_def thread_inv_def mtx_holds_goto)
  next
    case (Acq_xchg c)
    then have H: "\<not> mtx_holds s t" using inv by (simp add: mtx_holds_def)
    show ?thesis
    proof (cases "m_state ?m = 0")
      case True
      then have p: "pc = Acq_owner" "m = ?m\<lparr>m_state := 1\<rparr>" using A Acq_xchg by auto
      have o: "m_owner ?m = 0" using O nobody [OF True] by blast
      have "good_move s t pc m" using p Acq_xchg inv o tn by (auto simp: good_move_def thread_inv_def)
      moreover have "mtx_holds (mtx_goto t pc m s) = (mtx_holds s)(t := True)"
        using p by (simp add: mtx_holds_goto)
      ultimately show ?thesis using True p(2) by (auto simp: lock_move_def)
    next
      case False
      then have p: "pc = when_taken c" "m = ?m\<lparr>m_state := 1\<rparr>" using A Acq_xchg by auto
      have w: "thread_inv ?m t pc (held s t)" "pc \<notin> {Acq_owner, Acq_depth}"
        using when_taken_inv [of ?m t c "held s t"] T Acq_xchg p(1) by auto
      have "thread_inv m t pc (held s t)" using w(1) thread_inv_cong [of m ?m t pc "held s t"] p(2) by simp
      moreover have same: "mtx_holds (mtx_goto t pc m s) = mtx_holds s"
        using w(2) H Acq_xchg inv by (auto simp: mtx_holds_goto fun_upd_idem)
      ultimately have "good_move s t pc m" using p(2) Acq_xchg O by (simp add: good_move_def)
      then show ?thesis using same False p(2) by (auto simp: lock_move_def)
    qed
  next
    case Acq_owner
    then have H: "mtx_holds s t" by (simp add: mtx_holds_def)
    have p: "pc = Acq_depth" "m = ?m\<lparr>m_owner := t\<rparr>" using A Acq_owner by auto
    have "lock_move s (mtx_goto t pc m s)" using p H Acq_owner by (intro lock_move_same) auto
    then show ?thesis using p Acq_owner inv alone [OF H] tn by (auto simp: good_move_def thread_inv_def mtx_holds_goto)
  next
    case Acq_depth
    then have H: "mtx_holds s t" by (simp add: mtx_holds_def)
    have p: "pc = Out thrd_success" "m = ?m\<lparr>m_depth := 1\<rparr>" using A Acq_depth by auto
    have "lock_move s (mtx_goto t pc m s)" using p H Acq_depth by (intro lock_move_same) auto
    then show ?thesis using p Acq_depth inv alone [OF H] tn
      by (auto simp: good_move_def thread_inv_def mtx_holds_goto INT_MAX_def)
  next
    case Unl_load
    then show ?thesis using A inv tn by (intro stay_move [OF I]) (auto simp: thread_inv_def split: if_splits)
  next
    case Unl_dec
    then have H: "mtx_holds s t" using inv by (simp add: mtx_holds_def)
    have p: "pc = Out thrd_success" "m = ?m\<lparr>m_depth := m_depth ?m - 1\<rparr>" using A Unl_dec by auto
    have "lock_move s (mtx_goto t pc m s)" using p H Unl_dec inv by (intro lock_move_same) auto
    then show ?thesis using p Unl_dec inv alone [OF H] tn by (auto simp: good_move_def thread_inv_def mtx_holds_goto)
  next
    case Unl_depth
    then have H: "mtx_holds s t" using inv by (simp add: mtx_holds_def)
    have p: "pc = Unl_owner" "m = ?m\<lparr>m_depth := 0\<rparr>" using A Unl_depth by auto
    have "lock_move s (mtx_goto t pc m s)" using p H Unl_depth inv by (intro lock_move_same) auto
    then show ?thesis using p Unl_depth inv alone [OF H] tn by (auto simp: good_move_def thread_inv_def mtx_holds_goto)
  next
    case Unl_owner
    then have H: "mtx_holds s t" using inv by (simp add: mtx_holds_def)
    have p: "pc = Unl_xchg" "m = ?m\<lparr>m_owner := 0\<rparr>" using A Unl_owner by auto
    have "lock_move s (mtx_goto t pc m s)" using p H Unl_owner inv by (intro lock_move_same) auto
    then show ?thesis using p Unl_owner inv alone [OF H] tn by (auto simp: good_move_def thread_inv_def mtx_holds_goto)
  next
    case Unl_xchg
    then have H: "mtx_holds s t" using inv by (simp add: mtx_holds_def)
    have p: "pc = Unl_wake" "m = ?m\<lparr>m_state := 0\<rparr>" using A Unl_xchg state [OF H] by auto
    have "mtx_holds (mtx_goto t pc m s) = (mtx_holds s)(t := False)" using p Unl_xchg by (simp add: mtx_holds_goto)
    then have "lock_move s (mtx_goto t pc m s)" using H p by (auto simp: lock_move_def)
    then show ?thesis using p Unl_xchg inv tn by (auto simp: good_move_def thread_inv_def)
  next
    case Unl_wake
    then show ?thesis using A inv tn by (intro stay_move [OF I]) (auto simp: thread_inv_def)
  qed
qed

lemma exec_moves:
  assumes I: "mtx_inv ty s" and one: "one_holder (\<lambda>s. m_state (the_mtx s)) mtx_holds s"
    and E: "mtx_exec e s = Some s'"
  shows "\<exists>t pc m. s' = mtx_goto t pc m s \<and> good_move s t pc m \<and> lock_move s s'"
proof -
  have T: "thread_inv (the_mtx s) t (mtx_pcs s t) (held s t)" for t using I by (simp add: mtx_inv_def)
  show ?thesis
  proof (cases e)
    case (Call t null c)
    then obtain r where r: "mtx_pcs s t = Out r"
        "s' = mtx_goto t (if null then Out thrd_error else call_start (the_mtx s) t c) (the_mtx s) s"
      using E by (auto split: mtx_pc.splits)
    have e: "thread_inv (the_mtx s) t (Out thrd_error) (held s t)" using T [of t] r(1) by (simp add: thread_inv_def)
    have "thread_inv (the_mtx s) t (call_start (the_mtx s) t c) (held s t) \<and>
        call_start (the_mtx s) t c \<notin> {Acq_owner, Acq_depth}"
      using call_start_inv [of "the_mtx s" t r "held s t" c] T [of t] r(1) by simp
    then show ?thesis using r(1) e by (intro moves_intro [OF stay_move [OF I refl] r(2)]) auto
  next
    case (Access t)
    then obtain pc m where a: "mtx_access t (mtx_pcs s t) (the_mtx s) = Some (pc, m)" "s' = mtx_goto t pc m s"
      using E by (auto split: option.splits)
    then show ?thesis by (intro moves_intro [OF access_moves [OF I one a(1)] a(2)])
  next
    case (Futex_answer t r)
    then obtain c where c: "mtx_pcs s t = Waiting c" "s' = mtx_goto t (after_wait c r) (the_mtx s) s"
      using E by (auto split: mtx_pc.splits)
    have "thread_inv (the_mtx s) t (after_wait c r) (held s t) \<and> after_wait c r \<notin> {Acq_owner, Acq_depth}"
      using after_wait_inv [of "the_mtx s" t c "held s t" r] T [of t] c(1) by simp
    then show ?thesis using c(1) by (intro moves_intro [OF stay_move [OF I refl] c(2)]) auto
  qed
qed

interpretation mtx_lock: exchange_lock mtx_exec "mtx_start ty" "\<lambda>s. m_state (the_mtx s)" mtx_holds "mtx_inv ty" for ty
proof (unfold_locales, goal_cases)
  case (4 s e s')
  then show ?case using exec_moves [of ty s e s'] unfolding lock_move_def by blast
next
  case (5 s e s')
  then show ?case using exec_moves [of ty s e s'] good_move_inv by blast
qed (simp_all add: mtx_start_def mtx_holds_def mtx_inv_def thread_inv_def INT_MAX_def)


subsection \<open>What the mutex promises\<close>

text \<open>C26. Any number of threads lock, trylock, timed-lock and unlock one mutex, in any interleaving of their
  single accesses and whatever the kernel answers. At most one thread has an unmatched acquisition; between calls the
  owner field is that thread and the depth its number of acquisitions, which is at most 1 unless the
  mutex is recursive. A thread without an acquisition that calls \<open>mtx_unlock\<close> leaves the mutex as it is,
  and a thread with one never gets an error from it: the branches for a depth that is not positive, a depth above 1 on a
  plain mutex and a word already 0 are never taken.\<close>

theorem mtx_excludes:
  assumes "reachable mtx_exec (mtx_start ty) s"
  shows "(\<forall>t u. 0 < held s t \<longrightarrow> 0 < held s u \<longrightarrow> t = u) \<and>
    (\<forall>t r. mtx_pcs s t = Out r \<longrightarrow> 0 < held s t \<longrightarrow>
       m_state (the_mtx s) \<noteq> 0 \<and> m_owner (the_mtx s) = t \<and> m_depth (the_mtx s) = held s t) \<and>
    (\<forall>t. held s t \<le> (if ty AND mtx_recursive \<noteq> 0 then INT_MAX else 1)) \<and>
    (\<forall>t b s'. mtx_pcs s t \<in> {Own_state Unlock b, Own_owner Unlock b} \<longrightarrow> held s t = 0 \<longrightarrow> mtx_exec (Access t) s = Some s' \<longrightarrow>
       the_mtx s' = the_mtx s \<and> mtx_pcs s' t \<in> {Own_owner Unlock b, Out thrd_error}) \<and>
    (\<forall>t b s'. mtx_pcs s t \<in> {Own_state Unlock b, Own_owner Unlock b, Unl_load, Unl_dec, Unl_depth, Unl_owner, Unl_xchg, Unl_wake} \<longrightarrow>
       (0 < held s t \<or> mtx_pcs s t = Unl_wake) \<longrightarrow>
       mtx_exec (Access t) s = Some s' \<longrightarrow> mtx_pcs s' t \<noteq> Out thrd_error)"
proof (intro conjI allI impI)
  have one: "one_holder (\<lambda>s. m_state (the_mtx s)) mtx_holds s" and I: "mtx_inv ty s"
    using mtx_lock.reachable_one_holder [OF assms] by blast+
  have ty: "m_type (the_mtx s) = ty" using I by (simp add: mtx_inv_def)
  have T: "thread_inv (the_mtx s) t (mtx_pcs s t) (held s t)" for t using I by (simp add: mtx_inv_def)
  have H: "0 < held s t \<Longrightarrow> mtx_holds s t" for t by (simp add: mtx_holds_def)
  have S: "0 < held s t \<Longrightarrow> m_state (the_mtx s) \<noteq> 0" for t using H one unfolding one_holder_def by blast
  show "t = u" if "0 < held s t" "0 < held s u" for t u
    using that H one unfolding one_holder_def by blast
  show "m_state (the_mtx s) \<noteq> 0" if "0 < held s t" for t using S [OF that] .
  show "m_owner (the_mtx s) = t" "m_depth (the_mtx s) = held s t" if "mtx_pcs s t = Out r" "0 < held s t" for t r
    using that T [of t] by (simp_all add: thread_inv_def)
  show "held s t \<le> (if ty AND mtx_recursive \<noteq> 0 then INT_MAX else 1)" for t
    using T [of t] ty by (auto simp: thread_inv_def)
  have owner: "m_owner (the_mtx s) \<noteq> t"
    if "mtx_pcs s t \<in> {Own_state Unlock b, Own_owner Unlock b}" "held s t = 0" for t b
  proof
    assume o: "m_owner (the_mtx s) = t"
    have "t \<noteq> 0" using T [of t] that(1) unfolding thread_inv_def by (metis insertE empty_iff mtx_pc.distinct(1) mtx_pc.distinct(3))
    then have "mtx_holds s t" using I o by (auto simp: mtx_inv_def)
    then show False using that by (auto simp: mtx_holds_def)
  qed
  show "the_mtx s' = the_mtx s" "mtx_pcs s' t \<in> {Own_owner Unlock b, Out thrd_error}"
    if "mtx_pcs s t \<in> {Own_state Unlock b, Own_owner Unlock b}" "held s t = 0" "mtx_exec (Access t) s = Some s'" for t b s'
    using owner [OF that(1,2)] that by (auto simp: when_not_owned_def)
  show "mtx_pcs s' t \<noteq> Out thrd_error"
    if "mtx_pcs s t \<in> {Own_state Unlock b, Own_owner Unlock b, Unl_load, Unl_dec, Unl_depth, Unl_owner, Unl_xchg, Unl_wake}"
      "0 < held s t \<or> mtx_pcs s t = Unl_wake" "mtx_exec (Access t) s = Some s'" for t b s'
    using that S [of t] T [of t]
    by (auto simp: thread_inv_def when_owned_def thrd_success_def thrd_error_def split: if_splits)
qed

text \<open>Thread 1 takes a recursive mutex twice; thread 2 finds it taken and waits.\<close>

definition lock_fresh :: "nat \<Rightarrow> mtx_event list" where
  "lock_fresh t = [Call t False Lock, Access t, Access t, Access t, Access t]"

definition relock :: "nat \<Rightarrow> mtx_event list" where
  "relock t = [Call t False Lock, Access t, Access t, Access t, Access t]"

lemma mtx_excludes_witness:
  "\<exists>s. run mtx_exec (lock_fresh 1 @ relock 1 @ [Call 2 False Lock, Access 2, Access 2, Access 2]) (mtx_start mtx_recursive) = Some s \<and>
     held s 1 = 2 \<and> m_owner (the_mtx s) = 1 \<and> m_depth (the_mtx s) = 2 \<and> mtx_pcs s 2 = Waiting Lock \<and> \<not> 0 < held s 2"
proof -
  let ?es = "lock_fresh 1 @ relock 1 @ [Call 2 False Lock, Access 2, Access 2, Access 2]"
  obtain s where s: "run mtx_exec ?es (mtx_start mtx_recursive) = Some s"
    and pc: "held s 1 = 2" "mtx_pcs s 1 = Out thrd_success" "mtx_pcs s 2 = Waiting Lock"
    by (simp add: lock_fresh_def relock_def mtx_start_def call_start_def valid_type_def when_owned_def
        when_not_owned_def when_taken_def mtx_goto_def mtx_consts INT_MAX_def)
  from mtx_excludes [OF run_from_start [OF s]] pc
  have "m_owner (the_mtx s) = 1 \<and> m_depth (the_mtx s) = 2" "\<not> 0 < held s 2"
    by (metis One_nat_def zero_less_numeral, metis numeral_eq_one_iff semiring_norm(85) zero_less_numeral)
  with s pc show ?thesis by blast
qed

end
