(* ===== verification/Once.thy ===== *)
theory Once
  imports Futex
begin

section \<open>Once-only initialization (\<open>thread/once.c\<close>)\<close>

text \<open>
  All calls of \<open>call_once\<close> in a process, on any number of flags, sharing the one private lock word. The code never
  asks which thread runs it, so the model's actors are the calls themselves (numbers); an initializer
  that calls \<open>call_once\<close> again on another flag is just another actor. Each atomic access is one event.
  A futex wait may come back at any time with any result, which the code ignores; a futex wake touches
  no memory, so it is part of the event before it. \<open>started\<close> and \<open>finished\<close> are ghosts of the specification: how often the
  initializer of a flag was called and came back.
\<close>

definition MINI_ONCE_UNINITIALIZED :: int where "MINI_ONCE_UNINITIALIZED = 0"
definition MINI_ONCE_RUNNING :: int where "MINI_ONCE_RUNNING = 1"
definition MINI_ONCE_COMPLETE :: int where "MINI_ONCE_COMPLETE = 2"

lemmas once_consts [c_consts] = MINI_ONCE_UNINITIALIZED_def MINI_ONCE_RUNNING_def MINI_ONCE_COMPLETE_def

datatype once_pc =
    Not_called
  | Lock_xchg | Lock_wait           \<comment> \<open>the first \<open>once_lock\<close>\<close>
  | Load_state
  | Unlock_complete                 \<comment> \<open>\<open>once_unlock\<close> before the return for a complete flag\<close>
  | Store_running | Unlock_running
  | In_func                         \<comment> \<open>the initializer runs\<close>
  | Relock_xchg | Relock_wait       \<comment> \<open>the second \<open>once_lock\<close>\<close>
  | Store_complete | Unlock_stored
  | Unlock_retry | Flag_wait        \<comment> \<open>another call is running the initializer\<close>
  | Returned

record 'f once_state =
  mini_once_lock_word :: int
  flag_state :: "'f \<Rightarrow> int"
  once_pcs :: "nat \<Rightarrow> once_pc"
  started :: "'f \<Rightarrow> nat"
  finished :: "'f \<Rightarrow> nat"

definition once_goto :: "nat \<Rightarrow> once_pc \<Rightarrow> 'f once_state \<Rightarrow> 'f once_state" where
  "once_goto c pc s = s\<lparr>once_pcs := (once_pcs s)(c := pc)\<rparr>"

text \<open>The next access of call \<open>c\<close>; \<open>on c\<close> is the flag it was given.\<close>

definition once_exec :: "(nat \<Rightarrow> 'f) \<Rightarrow> nat \<Rightarrow> 'f once_state \<Rightarrow> 'f once_state option" where
  "once_exec on c s =
     (let f = on c; unlocked = s\<lparr>mini_once_lock_word := 0\<rparr>
      in case once_pcs s c of
        Not_called \<Rightarrow> Some (once_goto c Lock_xchg s)
      | Lock_xchg \<Rightarrow>
          Some (once_goto c (if mini_once_lock_word s \<noteq> 0 then Lock_wait else Load_state) (s\<lparr>mini_once_lock_word := 1\<rparr>))
      | Lock_wait \<Rightarrow> Some (once_goto c Lock_xchg s)
      | Load_state \<Rightarrow>
          Some (once_goto c (if flag_state s f = MINI_ONCE_COMPLETE then Unlock_complete
                             else if flag_state s f = MINI_ONCE_UNINITIALIZED then Store_running
                             else Unlock_retry) s)
      | Unlock_complete \<Rightarrow> Some (once_goto c Returned unlocked)
      | Store_running \<Rightarrow>
          Some (once_goto c Unlock_running (s\<lparr>flag_state := (flag_state s)(f := MINI_ONCE_RUNNING)\<rparr>))
      | Unlock_running \<Rightarrow> Some (once_goto c In_func (unlocked\<lparr>started := (started s)(f := started s f + 1)\<rparr>))
      | In_func \<Rightarrow> Some (once_goto c Relock_xchg (s\<lparr>finished := (finished s)(f := finished s f + 1)\<rparr>))
      | Relock_xchg \<Rightarrow>
          Some (once_goto c (if mini_once_lock_word s \<noteq> 0 then Relock_wait else Store_complete) (s\<lparr>mini_once_lock_word := 1\<rparr>))
      | Relock_wait \<Rightarrow> Some (once_goto c Relock_xchg s)
      | Store_complete \<Rightarrow>
          Some (once_goto c Unlock_stored (s\<lparr>flag_state := (flag_state s)(f := MINI_ONCE_COMPLETE)\<rparr>))
      | Unlock_stored \<Rightarrow> Some (once_goto c Returned unlocked)
      | Unlock_retry \<Rightarrow> Some (once_goto c Flag_wait unlocked)
      | Flag_wait \<Rightarrow> Some (once_goto c Lock_xchg s)
      | Returned \<Rightarrow> None)"

definition once_start :: "'f once_state" where
  "once_start = \<lparr>mini_once_lock_word = 0, flag_state = \<lambda>_. MINI_ONCE_UNINITIALIZED,
     once_pcs = \<lambda>_. Not_called, started = \<lambda>_. 0, finished = \<lambda>_. 0\<rparr>"

subsection \<open>The lock word\<close>

definition in_section :: "once_pc \<Rightarrow> bool" where
  "in_section pc = (pc \<in> {Load_state, Unlock_complete, Store_running, Unlock_running, Store_complete, Unlock_stored, Unlock_retry})"

definition once_holds :: "'f once_state \<Rightarrow> nat \<Rightarrow> bool" where
  "once_holds s c = in_section (once_pcs s c)"

text \<open>The call that runs the initializer of its flag, from the store of the running mark to that of the
  complete mark.\<close>

definition runner :: "once_pc \<Rightarrow> bool" where
  "runner pc = (pc \<in> {Unlock_running, In_func, Relock_xchg, Relock_wait, Store_complete})"

text \<open>How often the initializer has been called and come back, seen from the running call.\<close>

definition runs_of :: "once_pc \<Rightarrow> nat \<times> nat" where
  "runs_of pc = (if pc = Unlock_running then (0, 0) else if pc = In_func then (1, 0) else (1, 1))"

text \<open>Where the calls on a flag that do not run its initializer may stand, by the flag's state.\<close>

definition saw_complete :: "once_pc \<Rightarrow> bool" where
  "saw_complete pc = (pc \<in> {Unlock_complete, Unlock_stored, Returned})"

definition bystander :: "int \<Rightarrow> once_pc \<Rightarrow> bool" where
  "bystander st pc = (\<not> runner pc \<and> (st \<noteq> 2 \<longrightarrow> \<not> saw_complete pc) \<and> (st \<noteq> 0 \<longrightarrow> pc \<noteq> Store_running))"

definition flag_inv :: "(nat \<Rightarrow> 'f) \<Rightarrow> 'f once_state \<Rightarrow> 'f \<Rightarrow> bool" where
  "flag_inv on s f =
     (if flag_state s f = 1 then
        \<exists>c. on c = f \<and> runner (once_pcs s c) \<and> (started s f, finished s f) = runs_of (once_pcs s c) \<and>
            (\<forall>d. on d = f \<longrightarrow> d \<noteq> c \<longrightarrow> bystander 1 (once_pcs s d))
      else
        (flag_state s f = 0 \<and> (started s f, finished s f) = (0, 0) \<or> flag_state s f = 2 \<and> (started s f, finished s f) = (1, 1)) \<and>
        (\<forall>d. on d = f \<longrightarrow> bystander (flag_state s f) (once_pcs s d)))"

definition once_inv :: "(nat \<Rightarrow> 'f) \<Rightarrow> 'f once_state \<Rightarrow> bool" where
  "once_inv on s = (\<forall>f. flag_inv on s f)"

lemma once_goto_sel [simp]:
  "mini_once_lock_word (once_goto c pc s) = mini_once_lock_word s" "flag_state (once_goto c pc s) = flag_state s"
  "once_pcs (once_goto c pc s) = (once_pcs s)(c := pc)" "started (once_goto c pc s) = started s"
  "finished (once_goto c pc s) = finished s"
  by (simp_all add: once_goto_def)

lemma once_holds_goto: "once_holds (once_goto c pc s) = (once_holds s)(c := in_section pc)"
  by (auto simp: once_holds_def fun_eq_iff)

lemma once_holds_update [simp]:
  "once_holds (s\<lparr>mini_once_lock_word := w\<rparr>) = once_holds s" "once_holds (s\<lparr>flag_state := g\<rparr>) = once_holds s"
  "once_holds (s\<lparr>started := h\<rparr>) = once_holds s" "once_holds (s\<lparr>finished := h\<rparr>) = once_holds s"
  by (auto simp: once_holds_def)

text \<open>An event of call \<open>c\<close> is of no concern to the other flags.\<close>

lemma flag_inv_other:
  assumes "flag_inv on s f" "\<And>d. on d = f \<Longrightarrow> once_pcs s' d = once_pcs s d"
    "flag_state s' f = flag_state s f" "started s' f = started s f" "finished s' f = finished s f"
  shows "flag_inv on s' f"
proof (cases "flag_state s f = 1")
  case True
  then obtain c where "on c = f" "runner (once_pcs s c)" "(started s f, finished s f) = runs_of (once_pcs s c)"
      "\<forall>d. on d = f \<longrightarrow> d \<noteq> c \<longrightarrow> bystander 1 (once_pcs s d)"
    using assms(1) by (auto simp: flag_inv_def)
  then show ?thesis using True assms(2-) unfolding flag_inv_def by (auto intro!: exI [of _ c])
next
  case False
  then show ?thesis using assms by (auto simp: flag_inv_def)
qed

lemma once_inv_step:
  assumes "once_inv on s" "flag_inv on s' (on c)"
    "\<And>d. d \<noteq> c \<Longrightarrow> once_pcs s' d = once_pcs s d"
    "\<And>f. f \<noteq> on c \<Longrightarrow> flag_state s' f = flag_state s f \<and> started s' f = started s f \<and> finished s' f = finished s f"
  shows "once_inv on s'"
  unfolding once_inv_def
proof
  fix f
  show "flag_inv on s' f"
  proof (cases "f = on c")
    case True
    then show ?thesis using assms(2) by simp
  next
    case False
    have "once_pcs s' d = once_pcs s d" if "on d = f" for d using that False assms(3) [of d] by blast
    then show ?thesis
      using flag_inv_other [of on s f s'] assms(1) assms(4) [OF False] by (simp add: once_inv_def)
  qed
qed

text \<open>Events that move no flag and start or end nobody's turn.\<close>

lemma flag_inv_move:
  assumes I: "flag_inv on s (on c)"
    and s': "flag_state s' = flag_state s" "started s' = started s" "finished s' = finished s" "once_pcs s' = (once_pcs s)(c := pc)"
    and new: "if runner (once_pcs s c) then runner pc \<and> runs_of pc = runs_of (once_pcs s c)
       else bystander (flag_state s (on c)) pc"
  shows "flag_inv on s' (on c)"
proof (cases "flag_state s (on c) = 1")
  case True
  then obtain d where d: "on d = on c" "runner (once_pcs s d)"
      "(started s (on c), finished s (on c)) = runs_of (once_pcs s d)"
      "\<forall>e. on e = on c \<longrightarrow> e \<noteq> d \<longrightarrow> bystander 1 (once_pcs s e)"
    using I by (auto simp: flag_inv_def)
  have "on d = on c \<and> runner (((once_pcs s)(c := pc)) d) \<and>
      (started s (on c), finished s (on c)) = runs_of (((once_pcs s)(c := pc)) d) \<and>
      (\<forall>e. on e = on c \<longrightarrow> e \<noteq> d \<longrightarrow> bystander 1 (((once_pcs s)(c := pc)) e))"
  proof (cases "c = d")
    case eq: True
    then show ?thesis using d new by simp
  next
    case ne: False
    then have "\<not> runner (once_pcs s c)" using d(4) by (simp add: bystander_def)
    then show ?thesis using d new ne True by simp
  qed
  then show ?thesis unfolding flag_inv_def s' if_P [OF True] by (rule exI)
next
  case False
  then have "\<not> runner (once_pcs s c)" using I by (auto simp: flag_inv_def bystander_def)
  then show ?thesis using False I new unfolding flag_inv_def s' by auto
qed


text \<open>The four events that do: the running mark, the call, the return and the complete mark.\<close>

lemma runner_turn:
  assumes I: "flag_inv on s (on c)" and c: "runner (once_pcs s c)"
  shows "flag_state s (on c) = 1" "(started s (on c), finished s (on c)) = runs_of (once_pcs s c)"
    "\<And>d. on d = on c \<Longrightarrow> d \<noteq> c \<Longrightarrow> bystander 1 (once_pcs s d)"
proof -
  show f: "flag_state s (on c) = 1"
  proof (rule ccontr)
    assume "flag_state s (on c) \<noteq> 1"
    then have "bystander (flag_state s (on c)) (once_pcs s c)" using I by (simp add: flag_inv_def)
    then show False using c by (simp add: bystander_def)
  qed
  then obtain d where d: "on d = on c" "runner (once_pcs s d)"
      "(started s (on c), finished s (on c)) = runs_of (once_pcs s d)"
      "\<forall>e. on e = on c \<longrightarrow> e \<noteq> d \<longrightarrow> bystander 1 (once_pcs s e)"
    using I by (auto simp: flag_inv_def)
  have "c = d" using d(4) c by (auto simp: bystander_def)
  then show "(started s (on c), finished s (on c)) = runs_of (once_pcs s c)"
      "\<And>d. on d = on c \<Longrightarrow> d \<noteq> c \<Longrightarrow> bystander 1 (once_pcs s d)"
    using d by blast+
qed

lemma flag_inv_turn:
  assumes "flag_state s' (on c) = 1" "runner (once_pcs s' c)"
    "(started s' (on c), finished s' (on c)) = runs_of (once_pcs s' c)"
    "\<And>d. on d = on c \<Longrightarrow> d \<noteq> c \<Longrightarrow> bystander 1 (once_pcs s' d)"
  shows "flag_inv on s' (on c)"
  unfolding flag_inv_def if_P [OF assms(1)] using assms(2-4) by blast

lemma once_exec_inv:
  assumes I: "once_inv on s" and one: "one_holder mini_once_lock_word once_holds s" and E: "once_exec on c s = Some s'"
  shows "once_inv on s'"
proof (rule once_inv_step [OF I])
  show "once_pcs s' d = once_pcs s d" if "d \<noteq> c" for d
    using E that by (cases "once_pcs s c") (auto simp: once_exec_def Let_def)
  show "flag_state s' f = flag_state s f \<and> started s' f = started s f \<and> finished s' f = finished s f" if "f \<noteq> on c" for f
    using E that by (cases "once_pcs s c") (auto simp: once_exec_def Let_def)
  have F: "flag_inv on s (on c)" using I by (simp add: once_inv_def)
  have alone: "once_pcs s d \<noteq> Store_running" if "once_pcs s c = Store_running" "d \<noteq> c" for d
  proof
    assume "once_pcs s d = Store_running"
    then have "once_holds s c" "once_holds s d" using that(1) by (simp_all add: once_holds_def in_section_def)
    then show False using one that(2) unfolding one_holder_def by blast
  qed
  note S = once_exec_def Let_def runner_def runs_of_def bystander_def saw_complete_def
  show "flag_inv on s' (on c)"
  proof (cases "once_pcs s c \<in> {Store_running, Unlock_running, In_func, Store_complete}")
    case False
    have b: "\<not> runner (once_pcs s c) \<Longrightarrow> bystander (flag_state s (on c)) (once_pcs s c)"
    proof (cases "flag_state s (on c) = 1")
      case True
      then obtain d where "on d = on c" "runner (once_pcs s d)" "\<forall>e. on e = on c \<longrightarrow> e \<noteq> d \<longrightarrow> bystander 1 (once_pcs s e)"
        using F by (auto simp: flag_inv_def)
      then show "\<not> runner (once_pcs s c) \<Longrightarrow> ?thesis" using True by (cases "c = d") auto
    qed (use F in \<open>simp add: flag_inv_def\<close>)
    have st: "flag_state s (on c) \<in> {0, 1, 2}" using F by (auto simp: flag_inv_def split: if_splits)
    show ?thesis
      by (rule flag_inv_move [OF F, where pc = "once_pcs s' c"])
        (use E False b st in \<open>cases "once_pcs s c"; auto simp: S once_consts split: if_splits\<close>)+
  next
    case True
    then consider "once_pcs s c = Store_running" | "once_pcs s c = Unlock_running" | "once_pcs s c = In_func"
      | "once_pcs s c = Store_complete" by blast
    then show ?thesis
    proof cases
      case 1
      then have f: "flag_state s (on c) = 0" "(started s (on c), finished s (on c)) = (0, 0)"
          "\<And>d. on d = on c \<Longrightarrow> bystander 0 (once_pcs s d)"
        using F by (auto simp: flag_inv_def bystander_def runner_def split: if_splits)
      show ?thesis
      proof (rule flag_inv_turn)
        show "bystander 1 (once_pcs s' d)" if "on d = on c" "d \<noteq> c" for d
          using f(3) [OF that(1)] alone [OF 1 that(2)] that(2) E 1 by (auto simp: once_exec_def bystander_def)
      qed (use E 1 f(2) in \<open>auto simp: S once_consts\<close>)
    next
      case 2
      then have r: "runner (once_pcs s c)" by (simp add: runner_def)
      show ?thesis
        by (rule flag_inv_turn) (use E 2 runner_turn [OF F r] in \<open>auto simp: S once_consts\<close>)
    next
      case 3
      then have r: "runner (once_pcs s c)" by (simp add: runner_def)
      show ?thesis
        by (rule flag_inv_turn) (use E 3 runner_turn [OF F r] in \<open>auto simp: S once_consts\<close>)
    next
      case 4
      then have r: "runner (once_pcs s c)" by (simp add: runner_def)
      note t = runner_turn [OF F r]
      have n: "s' = once_goto c Unlock_stored (s\<lparr>flag_state := (flag_state s)(on c := 2)\<rparr>)"
        using E 4 by (auto simp: S once_consts)
      have "bystander 2 (once_pcs s' d)" if "on d = on c" for d
        using t(3) [OF that] n by (cases "d = c") (auto simp: bystander_def runner_def saw_complete_def)
      moreover have "(started s (on c), finished s (on c)) = (1, 1)" using t(2) 4 by (simp add: runs_of_def)
      ultimately show ?thesis unfolding flag_inv_def using n by auto
    qed
  qed
qed

lemma once_exec_lock:
  assumes one: "one_holder mini_once_lock_word once_holds s" and E: "once_exec on c s = Some s'"
  shows "(mini_once_lock_word s' = mini_once_lock_word s \<and> once_holds s' = once_holds s) \<or>
      (mini_once_lock_word s = 0 \<and> mini_once_lock_word s' \<noteq> 0 \<and> once_holds s' = (once_holds s)(c := True)) \<or>
      (mini_once_lock_word s \<noteq> 0 \<and> mini_once_lock_word s' \<noteq> 0 \<and> once_holds s' = once_holds s) \<or>
      (mini_once_lock_word s' = 0 \<and> once_holds s c \<and> once_holds s' = (once_holds s)(c := False))"
proof -
  have h: "once_holds s c = in_section (once_pcs s c)" by (simp add: once_holds_def)
  have same: "(once_holds s)(c := b) = once_holds s" if "once_holds s c = b" for b using that by (rule fun_upd_idem)
  show ?thesis
    using E h same [of True] same [of False]
    by (cases "once_pcs s c"; cases "mini_once_lock_word s = 0")
      (auto simp: once_exec_def Let_def once_holds_goto in_section_def split: if_splits)
qed

interpretation once_lock: exchange_lock "once_exec on" once_start mini_once_lock_word once_holds "once_inv on"
  for on :: "nat \<Rightarrow> 'f"
proof (unfold_locales, goal_cases)
  case (4 s e s')
  then show ?case using once_exec_lock [of s on e s'] by blast
next
  case (5 s e s')
  then show ?case using once_exec_inv by blast
qed (simp_all add: once_start_def once_holds_def in_section_def once_inv_def flag_inv_def bystander_def runner_def
    saw_complete_def once_consts)


subsection \<open>What \<open>call_once\<close> promises\<close>

text \<open>C27. Any number of calls on any flags, in any interleaving: the initializer of a flag is called at most once
  and by at most one call at a time, every call that has returned does so after the initializer came
  back, and calls that wait for the private lock word never see two of them in its section.\<close>

theorem call_once_runs_once:
  assumes "reachable (once_exec on) once_start s"
  shows "started s f \<le> 1 \<and> finished s f \<le> started s f \<and>
    (\<forall>c. once_pcs s c = Returned \<longrightarrow> finished s (on c) = 1 \<and> flag_state s (on c) = MINI_ONCE_COMPLETE) \<and>
    (\<forall>c d. once_pcs s c = In_func \<longrightarrow> once_pcs s d = In_func \<longrightarrow> on c = on d \<longrightarrow> c = d) \<and>
    (\<forall>c d. once_holds s c \<longrightarrow> once_holds s d \<longrightarrow> c = d)"
proof (intro conjI allI impI)
  have one: "one_holder mini_once_lock_word once_holds s" and "once_inv on s"
    using once_lock.reachable_one_holder [OF assms] by blast+
  then have F: "flag_inv on s g" for g by (simp add: once_inv_def)
  show "started s f \<le> 1" "finished s f \<le> started s f"
    using F [of f] by (auto simp: flag_inv_def runs_of_def split: if_splits)
  show "c = d" if "once_holds s c" "once_holds s d" for c d
    using one that unfolding one_holder_def by blast
  show "c = d" if "once_pcs s c = In_func" "once_pcs s d = In_func" "on c = on d" for c d
    using runner_turn(3) [OF F [of "on c"], of d] that by (auto simp: runner_def bystander_def)
  show "flag_state s (on c) = MINI_ONCE_COMPLETE" "finished s (on c) = 1" if c: "once_pcs s c = Returned" for c
  proof -
    show f: "flag_state s (on c) = MINI_ONCE_COMPLETE"
    proof (rule ccontr)
      assume n: "flag_state s (on c) \<noteq> MINI_ONCE_COMPLETE"
      show False
      proof (cases "flag_state s (on c) = 1")
        case True
        then obtain d where "runner (once_pcs s d)" "\<forall>e. on e = on c \<longrightarrow> e \<noteq> d \<longrightarrow> bystander 1 (once_pcs s e)"
          using F [of "on c"] by (auto simp: flag_inv_def)
        then show False using c by (cases "c = d") (auto simp: bystander_def runner_def saw_complete_def)
      next
        case False
        then show False using F [of "on c"] c n
          by (auto simp: flag_inv_def bystander_def saw_complete_def once_consts)
      qed
    qed
    then show "finished s (on c) = 1" using F [of "on c"] by (simp add: flag_inv_def once_consts)
  qed
qed

text \<open>Two calls on one flag: the second finds the initializer running and waits, the first completes.\<close>

lemma call_once_runs_once_witness:
  "\<exists>s. run (once_exec (\<lambda>_. ())) ([1, 1, 1, 1, 1] @ [2, 2, 2, 2] @ [1, 1, 1, 1]) once_start = Some s \<and>
     once_pcs s 1 = Returned \<and> once_pcs s 2 = Flag_wait \<and> finished s () = 1 \<and> started s () \<le> 1"
proof -
  let ?es = "[1, 1, 1, 1, 1] @ [2, 2, 2, 2] @ [1, 1, 1, 1] :: nat list"
  obtain s where s: "run (once_exec (\<lambda>_. ())) ?es once_start = Some s"
    and pc: "once_pcs s 1 = Returned" "once_pcs s 2 = Flag_wait"
    by (simp add: once_start_def once_exec_def once_consts Let_def)
  show ?thesis using call_once_runs_once [OF run_from_start [OF s], of "()"] s pc by auto
qed

end
