(* ===== verification/Tss.thy ===== *)
theory Tss
  imports Mutex
begin

unbundle bit_operations_syntax

section \<open>Thread-specific storage (\<open>thread/tss.c\<close>)\<close>

text \<open>
  A registry of 32 slots shared by all threads, and in each thread's control block a value and the
  generation it was stored under. A key is a slot index and a generation; deleting a key leaves the
  values of other threads where they are, unreachable because the next key of the slot has another
  generation. The registry is only touched under its lock (the contract is in \<open>Futex\<close>) and the
  control block only by its own thread, so an operation is one step here. \<open>errno\<close> is put back by every
  operation and is not part of the state. Destructors are the application's: what one does to the
  storage and to the rest of the world is an argument.
\<close>

subsection \<open>State\<close>

definition MINI_TSS_MAX_KEYS :: nat where "MINI_TSS_MAX_KEYS = 32"
definition MINI_TSS_INDEX_BITS :: nat where "MINI_TSS_INDEX_BITS = 5"
definition MINI_TSS_INDEX_MASK :: u32 where "MINI_TSS_INDEX_MASK = push_bit MINI_TSS_INDEX_BITS 1 - 1"
definition MINI_TSS_GENERATION_MASK :: u32 where "MINI_TSS_GENERATION_MASK = 0x07ffffff"
definition TSS_DTOR_ITERATIONS :: nat where "TSS_DTOR_ITERATIONS = 4"
definition thrd_nomem :: int where "thrd_nomem = 1"

lemmas tss_consts [c_consts] = MINI_TSS_MAX_KEYS_def MINI_TSS_INDEX_BITS_def MINI_TSS_INDEX_MASK_def
  MINI_TSS_GENERATION_MASK_def TSS_DTOR_ITERATIONS_def thrd_nomem_def

record key_slot =
  generation :: u32
  active :: bool
  destructor :: addr

record tcb =
  tss_values :: "nat \<Rightarrow> u64"
  tss_generations :: "nat \<Rightarrow> u32"

type_synonym thread = nat

record tss =
  mini_tss_keys :: "nat \<Rightarrow> key_slot"
  tcbs :: "thread \<Rightarrow> tcb"

definition tss_start :: tss where
  "tss_start = \<lparr>mini_tss_keys = \<lambda>_. \<lparr>generation = 0, active = False, destructor = 0\<rparr>,
     tcbs = \<lambda>_. \<lparr>tss_values = \<lambda>_. 0, tss_generations = \<lambda>_. 0\<rparr>\<rparr>"

subsection \<open>Operations\<close>

definition decode_key :: "u32 \<Rightarrow> (nat \<times> u32) option" where
  "decode_key key =
     (let index = unat (key AND MINI_TSS_INDEX_MASK); gen = drop_bit MINI_TSS_INDEX_BITS key
      in if MINI_TSS_MAX_KEYS \<le> index \<or> gen = 0 then None else Some (index, gen))"

definition key_is_active_locked :: "nat \<Rightarrow> u32 \<Rightarrow> tss \<Rightarrow> bool" where
  "key_is_active_locked index gen s = (active (mini_tss_keys s index) \<and> generation (mini_tss_keys s index) = gen)"

definition next_generation :: "u32 \<Rightarrow> u32" where
  "next_generation g = (let g' = (g + 1) AND MINI_TSS_GENERATION_MASK in if g' = 0 then 1 else g')"

definition encode_key :: "nat \<Rightarrow> u32 \<Rightarrow> u32" where
  "encode_key index gen = push_bit MINI_TSS_INDEX_BITS gen OR of_nat index"

definition take_slot :: "nat \<Rightarrow> addr \<Rightarrow> tss \<Rightarrow> int \<times> u32 option \<times> tss" where
  "take_slot index dtor s =
     (let gen = next_generation (generation (mini_tss_keys s index))
      in (thrd_success, Some (encode_key index gen),
          s\<lparr>mini_tss_keys := (mini_tss_keys s)(index := \<lparr>generation = gen, active = True, destructor = dtor\<rparr>)\<rparr>))"

function create_from :: "nat \<Rightarrow> addr \<Rightarrow> tss \<Rightarrow> int \<times> u32 option \<times> tss" where
  "create_from index dtor s =
     (if index < MINI_TSS_MAX_KEYS then
        if \<not> active (mini_tss_keys s index) then take_slot index dtor s
        else create_from (index + 1) dtor s
      else (thrd_nomem, None, s))"
  by auto
termination
  by (relation "measure (\<lambda>(index, dtor, s). MINI_TSS_MAX_KEYS - index)") auto

declare create_from.simps [simp del]

text \<open>The result, the key stored through the pointer, the new state.\<close>

definition tss_create :: "bool \<Rightarrow> addr \<Rightarrow> tss \<Rightarrow> int \<times> u32 option \<times> tss" where
  "tss_create key_is_null dtor s = (if key_is_null then (thrd_error, None, s) else create_from 0 dtor s)"

definition on_tcb :: "thread \<Rightarrow> (tcb \<Rightarrow> tcb) \<Rightarrow> tss \<Rightarrow> tss" where
  "on_tcb t f s = s\<lparr>tcbs := (tcbs s)(t := f (tcbs s t))\<rparr>"

definition store_value :: "nat \<Rightarrow> u32 \<Rightarrow> u64 \<Rightarrow> tcb \<Rightarrow> tcb" where
  "store_value index gen v b = b\<lparr>tss_values := (tss_values b)(index := v), tss_generations := (tss_generations b)(index := gen)\<rparr>"

definition tss_delete :: "thread \<Rightarrow> u32 \<Rightarrow> tss \<Rightarrow> tss" where
  "tss_delete t key s =
     (case decode_key key of
        None \<Rightarrow> s
      | Some (index, gen) \<Rightarrow>
          let s' = (if key_is_active_locked index gen s
                    then s\<lparr>mini_tss_keys := (mini_tss_keys s)(index := (mini_tss_keys s index)\<lparr>active := False, destructor := 0\<rparr>)\<rparr>
                    else s)
          in if tss_generations (tcbs s' t) index = gen then on_tcb t (store_value index 0 0) s' else s')"

definition tss_get :: "thread \<Rightarrow> u32 \<Rightarrow> tss \<Rightarrow> u64" where
  "tss_get t key s =
     (case decode_key key of
        None \<Rightarrow> 0
      | Some (index, gen) \<Rightarrow>
          if key_is_active_locked index gen s \<and> tss_generations (tcbs s t) index = gen
          then tss_values (tcbs s t) index else 0)"

definition tss_set :: "thread \<Rightarrow> u32 \<Rightarrow> u64 \<Rightarrow> tss \<Rightarrow> int \<times> tss" where
  "tss_set t key v s =
     (case decode_key key of
        None \<Rightarrow> (thrd_error, s)
      | Some (index, gen) \<Rightarrow>
          if \<not> key_is_active_locked index gen s then (thrd_error, s)
          else (thrd_success, on_tcb t (store_value index gen v) s))"

text \<open>A round of destructors: collecting under the lock, then calling. The pairs are a destructor and its value.\<close>

definition due :: "thread \<Rightarrow> tss \<Rightarrow> nat \<Rightarrow> bool" where
  "due t s index =
     (active (mini_tss_keys s index) \<and> destructor (mini_tss_keys s index) \<noteq> 0 \<and>
      tss_generations (tcbs s t) index = generation (mini_tss_keys s index) \<and> tss_values (tcbs s t) index \<noteq> 0)"

function collect :: "thread \<Rightarrow> nat \<Rightarrow> tss \<Rightarrow> (addr \<times> u64) list \<times> tss" where
  "collect t index s =
     (if index < MINI_TSS_MAX_KEYS then
        if due t s index then
          let call = (destructor (mini_tss_keys s index), tss_values (tcbs s t) index);
              (calls, s') = collect t (index + 1) (on_tcb t (\<lambda>b. b\<lparr>tss_values := (tss_values b)(index := 0)\<rparr>) s)
          in (call # calls, s')
        else collect t (index + 1) s
      else ([], s))"
  by auto
termination
  by (relation "measure (\<lambda>(t, index, s). MINI_TSS_MAX_KEYS - index)") auto

declare collect.simps [simp del]

text \<open>The storage and the rest of the world run together; \<open>D\<close> is a call of a destructor.\<close>

type_synonym 'w dtor_call = "addr \<Rightarrow> u64 \<Rightarrow> tss \<times> 'w \<Rightarrow> tss \<times> 'w"

fun run_passes :: "'w dtor_call \<Rightarrow> thread \<Rightarrow> nat \<Rightarrow> tss \<times> 'w \<Rightarrow> tss \<times> 'w" where
  "run_passes D t 0 sw = sw"
| "run_passes D t (Suc n) sw =
     (let (calls, s') = collect t 0 (fst sw)
      in if calls = [] then (s', snd sw)
         else run_passes D t n (fold (\<lambda>(d, v). D d v) calls (s', snd sw)))"

definition run_destructors :: "'w dtor_call \<Rightarrow> thread \<Rightarrow> tss \<times> 'w \<Rightarrow> tss \<times> 'w" where
  "run_destructors D t sw = run_passes D t TSS_DTOR_ITERATIONS sw"

subsection \<open>Keys\<close>

lemma decode_encode:
  assumes "index < MINI_TSS_MAX_KEYS" "gen \<noteq> 0" "gen \<le> MINI_TSS_GENERATION_MASK"
  shows "decode_key (encode_key index gen) = Some (index, gen)"
proof -
  have u: "unat (of_nat index :: u32) = index" "of_nat index \<le> (31 :: u32)"
    using assms(1) by (simp_all add: tss_consts word_le_nat_alt unat_of_nat)
  have m: "(31 :: u32) = mask 5" by (simp add: mask_eq_exp_minus_1)
  have l: "(of_nat index :: u32) < 2 ^ 5" "gen < 2 ^ 27"
    using u(2) assms(3) by (simp_all add: word_le_nat_alt word_less_nat_alt tss_consts)
  have i: "(of_nat index :: u32) AND 31 = of_nat index" "drop_bit 5 (of_nat index :: u32) = 0"
    using l(1) u(1) unfolding m take_bit_eq_mask [symmetric]
    by (simp_all only: word_unat_eq_iff unat_drop_bit_eq unsigned_take_bit_eq word_less_nat_alt)
      (simp_all add: drop_bit_nat_def take_bit_nat_def)
  have "unat gen * 32 < 2 ^ 32" using l(2) by (simp add: word_less_nat_alt)
  then have "unat (push_bit 5 gen) = unat gen * 32"
    by (simp add: push_bit_eq_mult unat_word_ariths)
  then have g: "push_bit 5 gen AND 31 = 0" "drop_bit 5 (push_bit 5 gen) = gen"
    unfolding m take_bit_eq_mask [symmetric]
    by (simp_all add: word_unat_eq_iff unat_drop_bit_eq drop_bit_nat_def unsigned_take_bit_eq take_bit_nat_def)
  show ?thesis
    using assms u i g by (simp add: decode_key_def encode_key_def tss_consts bit.conj_disj_distrib2 bit.conj_disj_distrib drop_bit_or Let_def)
qed


lemma decode_key_range:
  assumes "decode_key key = Some (index, gen)"
  shows "index < MINI_TSS_MAX_KEYS" "gen \<noteq> 0"
  using assms by (auto simp: decode_key_def Let_def split: if_splits)

lemma decode_key_inj:
  assumes "decode_key key = Some (index, gen)" "decode_key key' = Some (index, gen)"
  shows "key = key'"
proof -
  have "unat (key AND 31) = unat (key' AND 31)" "drop_bit 5 key = drop_bit 5 key'"
    using assms by (auto simp: decode_key_def Let_def tss_consts split: if_splits)
  moreover have "x = push_bit 5 (drop_bit 5 x) + (x AND 31)" for x :: u32
    using bits_ident [of 5 x] by (simp add: take_bit_eq_mask mask_eq_exp_minus_1)
  ultimately show ?thesis by (metis word_unat_eq_iff)
qed

subsection \<open>Well-formed storage\<close>

text \<open>Generations fit their field, live keys are not zero, and no thread holds a generation that a slot has not
  reached: what a thread holds for a slot without the slot's generation is stale.\<close>

definition tss_ok :: "tss \<Rightarrow> bool" where
  "tss_ok s = (\<forall>i. generation (mini_tss_keys s i) \<le> MINI_TSS_GENERATION_MASK \<and>
     (active (mini_tss_keys s i) \<longrightarrow> generation (mini_tss_keys s i) \<noteq> 0) \<and>
     (\<forall>t. tss_generations (tcbs s t) i \<le> generation (mini_tss_keys s i)))"

definition generations_left :: "nat \<Rightarrow> tss \<Rightarrow> bool" where
  "generations_left n s = (\<forall>i. unat (generation (mini_tss_keys s i)) + n \<le> unat MINI_TSS_GENERATION_MASK)"

lemma tss_okI: "(\<And>i. generation (mini_tss_keys s i) \<le> MINI_TSS_GENERATION_MASK) \<Longrightarrow>
    (\<And>i. active (mini_tss_keys s i) \<Longrightarrow> generation (mini_tss_keys s i) \<noteq> 0) \<Longrightarrow>
    (\<And>i t. tss_generations (tcbs s t) i \<le> generation (mini_tss_keys s i)) \<Longrightarrow> tss_ok s"
  by (simp add: tss_ok_def)

lemma tss_okD:
  assumes "tss_ok s"
  shows "generation (mini_tss_keys s i) \<le> MINI_TSS_GENERATION_MASK"
    "active (mini_tss_keys s i) \<Longrightarrow> generation (mini_tss_keys s i) \<noteq> 0"
    "tss_generations (tcbs s t) i \<le> generation (mini_tss_keys s i)"
  using assms by (auto simp: tss_ok_def)

lemma next_generation_up:
  assumes "unat g + 1 \<le> unat MINI_TSS_GENERATION_MASK"
  shows "next_generation g = g + 1" "unat (g + 1) = unat g + 1"
proof -
  have u: "unat (g + 1) = unat g + 1" using assms by (simp add: tss_consts unat_word_ariths)
  have m: "(134217727 :: u32) = mask 27" by (simp add: mask_eq_exp_minus_1)
  have "unat (take_bit 27 (g + 1)) = unat (g + 1)"
    using assms unfolding unsigned_take_bit_eq u by (simp add: take_bit_nat_def tss_consts)
  then have "(g + 1) AND MINI_TSS_GENERATION_MASK = g + 1"
    by (simp add: tss_consts m take_bit_eq_mask [symmetric] word_unat_eq_iff)
  moreover have "g + 1 \<noteq> 0" using u by (metis add_is_0 one_neq_zero unat_0)
  ultimately show "next_generation g = g + 1" "unat (g + 1) = unat g + 1"
    using u by (simp_all add: next_generation_def)
qed

text \<open>Creating takes the first free slot.\<close>

lemma create_from_cases:
  assumes "\<forall>i < start. active (mini_tss_keys s i)" "start \<le> MINI_TSS_MAX_KEYS"
  shows "(\<forall>i < MINI_TSS_MAX_KEYS. active (mini_tss_keys s i)) \<and> create_from start dtor s = (thrd_nomem, None, s) \<or>
    (\<exists>i < MINI_TSS_MAX_KEYS. \<not> active (mini_tss_keys s i) \<and> create_from start dtor s = take_slot i dtor s)"
  using assms
proof (induction start dtor s rule: create_from.induct)
  case (1 index dtor s)
  show ?case
  proof (cases "index < MINI_TSS_MAX_KEYS")
    case False
    then show ?thesis using 1(2,3) by (subst (1) create_from.simps) auto
  next
    case True
    show ?thesis
    proof (cases "active (mini_tss_keys s index)")
      case False
      then show ?thesis using True by (intro disjI2 exI [of _ index]) (subst create_from.simps, simp)
    next
      case act: True
      have "\<forall>i < index + 1. active (mini_tss_keys s i)" using act 1(2) less_Suc_eq by auto
      from 1(1) [OF True _ this] True act show ?thesis by (subst (1 2) create_from.simps) simp
    qed
  qed
qed

text \<open>What a key stands for: the destructor of a live key, and a thread's value.\<close>

definition live_key :: "tss \<Rightarrow> u32 \<Rightarrow> addr option" where
  "live_key s key = (case decode_key key of None \<Rightarrow> None
     | Some (index, gen) \<Rightarrow> if key_is_active_locked index gen s then Some (destructor (mini_tss_keys s index)) else None)"

text \<open>Keys given out before and not live: they stay dead.\<close>

definition stale_key :: "tss \<Rightarrow> u32 \<Rightarrow> bool" where
  "stale_key s key = (case decode_key key of None \<Rightarrow> True
     | Some (index, gen) \<Rightarrow> gen \<le> generation (mini_tss_keys s index) \<and> \<not> key_is_active_locked index gen s)"

lemma tss_start_ok: "tss_ok tss_start" "generations_left 0x07ffffff tss_start"
  by (simp_all add: tss_ok_def tss_start_def generations_left_def tss_consts)

lemma take_slot_spec:
  assumes "tss_ok s" "generations_left (Suc n) s" "i < MINI_TSS_MAX_KEYS" "\<not> active (mini_tss_keys s i)"
    and "take_slot i dtor s = (r, k, s')"
  shows "tss_ok s' \<and> generations_left n s' \<and> r = thrd_success \<and>
    (\<exists>key. k = Some key \<and> live_key s key = None \<and> \<not> stale_key s key \<and>
        live_key s' = (live_key s)(key \<mapsto> dtor) \<and> (\<forall>t. tss_get t key s' = 0) \<and>
        (\<forall>t key'. key' \<noteq> key \<longrightarrow> tss_get t key' s' = tss_get t key' s)) \<and>
    (\<forall>key. stale_key s key \<longrightarrow> stale_key s' key)"
proof -
  define g where "g = generation (mini_tss_keys s i)"
  have all: "unat (generation (mini_tss_keys s j)) + Suc n \<le> unat MINI_TSS_GENERATION_MASK" for j
    using assms(2) unfolding generations_left_def by blast
  have left: "unat g + 1 \<le> unat MINI_TSS_GENERATION_MASK" using all [of i] unfolding g_def by linarith
  note g1 = next_generation_up [OF left]
  have gm: "g + 1 \<noteq> 0" "g + 1 \<le> MINI_TSS_GENERATION_MASK" "g < g + 1"
    using g1(2) left by (auto simp: word_le_nat_alt word_less_nat_alt)
  define key where "key = encode_key i (g + 1)"
  have dk: "decode_key key = Some (i, g + 1)" unfolding key_def by (rule decode_encode [OF assms(3) gm(1,2)])
  have r: "r = thrd_success" "k = Some key"
    "s' = s\<lparr>mini_tss_keys := (mini_tss_keys s)(i := \<lparr>generation = g + 1, active = True, destructor = dtor\<rparr>)\<rparr>"
    using assms(5) g1(1) by (auto simp: take_slot_def Let_def key_def g_def)
  have sel: "tcbs s' = tcbs s" "mini_tss_keys s' j = (if j = i then \<lparr>generation = g + 1, active = True, destructor = dtor\<rparr> else mini_tss_keys s j)" for j
    by (simp_all add: r(3))
  have ok: "tss_ok s'"
  proof (rule tss_okI)
    show "generation (mini_tss_keys s' j) \<le> MINI_TSS_GENERATION_MASK" for j
      using tss_okD(1) [OF assms(1), of j] gm(2) by (simp add: sel)
    show "active (mini_tss_keys s' j) \<Longrightarrow> generation (mini_tss_keys s' j) \<noteq> 0" for j
      using tss_okD(2) [OF assms(1), of j] gm(1) by (simp add: sel split: if_splits)
    show "tss_generations (tcbs s' t) j \<le> generation (mini_tss_keys s' j)" for j t
      using tss_okD(3) [OF assms(1), of t j] gm(3) by (auto simp: sel g_def)
  qed
  have gl: "generations_left n s'"
  proof (unfold generations_left_def, rule allI)
    show "unat (generation (mini_tss_keys s' j)) + n \<le> unat MINI_TSS_GENERATION_MASK" for j
      using all [of j] all [of i] g1(2) by (cases "j = i") (simp_all add: sel g_def)
  qed
  have other: "decode_key key' \<noteq> Some (i, g + 1)" if "key' \<noteq> key" for key'
    using decode_key_inj [of key' i "g + 1" key] dk that by blast
  have below: "tss_generations (tcbs s t) i \<noteq> g + 1" for t
    using tss_okD(3) [OF assms(1), of t i] gm(3) by (auto simp: g_def)
  have live: "live_key s' key' = ((live_key s)(key \<mapsto> dtor)) key'" for key'
    using dk other [of key'] assms(4) by (auto simp: live_key_def key_is_active_locked_def sel split: option.splits prod.splits)
  have get: "tss_get t key' s' = tss_get t key' s" if "key' \<noteq> key" for t key'
    using other [OF that] assms(4) by (auto simp: tss_get_def key_is_active_locked_def sel split: option.splits prod.splits)
  have stale: "stale_key s' key'" if "stale_key s key'" for key'
    using that gm(3) by (auto simp: stale_key_def key_is_active_locked_def sel g_def split: option.splits prod.splits)
  have new: "live_key s key = None" "\<not> stale_key s key" "tss_get t key s' = 0" for t
    using dk gm(3) below [of t] assms(4)
    by (auto simp: live_key_def stale_key_def tss_get_def key_is_active_locked_def sel g_def not_le)
  have lk: "live_key s' = (live_key s)(key \<mapsto> dtor)" using live by (rule ext)
  show ?thesis using ok gl r(1,2) lk get stale new by blast
qed

lemma create_spec:
  assumes "tss_ok s" "generations_left (Suc n) s" "tss_create False dtor s = (r, k, s')"
  shows "tss_ok s'" "generations_left n s'"
    "r = thrd_success \<and> (\<exists>i < MINI_TSS_MAX_KEYS. \<not> active (mini_tss_keys s i)) \<and> (\<exists>key. k = Some key \<and> live_key s key = None \<and> \<not> stale_key s key \<and>
        live_key s' = (live_key s)(key \<mapsto> dtor) \<and> (\<forall>t. tss_get t key s' = 0) \<and>
        (\<forall>t key'. key' \<noteq> key \<longrightarrow> tss_get t key' s' = tss_get t key' s)) \<or>
     r = thrd_nomem \<and> k = None \<and> s' = s \<and> (\<forall>i < MINI_TSS_MAX_KEYS. active (mini_tss_keys s i))"
    "\<And>key'. stale_key s key' \<Longrightarrow> stale_key s' key'"
proof -
  have gl: "generations_left n s" using assms(2) by (auto simp: generations_left_def intro: Suc_leD)
  from create_from_cases [of 0 s dtor]
  consider "\<forall>i < MINI_TSS_MAX_KEYS. active (mini_tss_keys s i)" "create_from 0 dtor s = (thrd_nomem, None, s)"
    | i where "i < MINI_TSS_MAX_KEYS" "\<not> active (mini_tss_keys s i)" "create_from 0 dtor s = take_slot i dtor s" by auto
  then have "tss_ok s' \<and> generations_left n s' \<and> (r = thrd_success \<and> (\<exists>i < MINI_TSS_MAX_KEYS. \<not> active (mini_tss_keys s i)) \<and> (\<exists>key. k = Some key \<and> live_key s key = None \<and> \<not> stale_key s key \<and>
        live_key s' = (live_key s)(key \<mapsto> dtor) \<and> (\<forall>t. tss_get t key s' = 0) \<and>
        (\<forall>t key'. key' \<noteq> key \<longrightarrow> tss_get t key' s' = tss_get t key' s)) \<or>
     r = thrd_nomem \<and> k = None \<and> s' = s \<and> (\<forall>i < MINI_TSS_MAX_KEYS. active (mini_tss_keys s i))) \<and>
     (\<forall>key. stale_key s key \<longrightarrow> stale_key s' key)"
  proof cases
    case 1
    then show ?thesis using assms(1,3) gl by (simp add: tss_create_def)
  next
    case 2
    then have "take_slot i dtor s = (r, k, s')" using assms(3) by (simp add: tss_create_def)
    from take_slot_spec [OF assms(1,2) 2(1,2) this] 2(1,2) show ?thesis by blast
  qed
  then show "tss_ok s'" "generations_left n s'"
    "r = thrd_success \<and> (\<exists>i < MINI_TSS_MAX_KEYS. \<not> active (mini_tss_keys s i)) \<and> (\<exists>key. k = Some key \<and> live_key s key = None \<and> \<not> stale_key s key \<and>
        live_key s' = (live_key s)(key \<mapsto> dtor) \<and> (\<forall>t. tss_get t key s' = 0) \<and>
        (\<forall>t key'. key' \<noteq> key \<longrightarrow> tss_get t key' s' = tss_get t key' s)) \<or>
     r = thrd_nomem \<and> k = None \<and> s' = s \<and> (\<forall>i < MINI_TSS_MAX_KEYS. active (mini_tss_keys s i))"
    "\<And>key'. stale_key s key' \<Longrightarrow> stale_key s' key'" by blast+
qed


lemma generations_left_cong:
  "(\<And>i. generation (mini_tss_keys s' i) = generation (mini_tss_keys s i)) \<Longrightarrow> generations_left n s' = generations_left n s"
  by (simp add: generations_left_def)

lemma delete_spec:
  assumes "tss_ok s" "s' = tss_delete t key s"
  shows "tss_ok s'" "generations_left n s' = generations_left n s" "live_key s' = (live_key s)(key := None)"
    "tss_get t' key' s' = (if key' = key then 0 else tss_get t' key' s)"
    "stale_key s key' \<or> key' = key \<and> live_key s key \<noteq> None \<Longrightarrow> stale_key s' key'"
proof -
  have "tss_ok s' \<and> generations_left n s' = generations_left n s \<and> live_key s' = (live_key s)(key := None) \<and>
    tss_get t' key' s' = (if key' = key then 0 else tss_get t' key' s) \<and>
    (stale_key s key' \<or> key' = key \<and> live_key s key \<noteq> None \<longrightarrow> stale_key s' key')"
  proof (cases "decode_key key")
    case None
    then show ?thesis using assms by (auto simp: tss_delete_def live_key_def tss_get_def fun_eq_iff)
  next
    case (Some p)
    obtain i g where d: "decode_key key = Some (i, g)" using Some by (cases p) auto
    note dr = decode_key_range [OF d]
    define live where "live = key_is_active_locked i g s"
    have keys: "mini_tss_keys s' j = (if live \<and> j = i then (mini_tss_keys s i)\<lparr>active := False, destructor := 0\<rparr> else mini_tss_keys s j)" for j
      unfolding assms(2) tss_delete_def d by (simp add: Let_def on_tcb_def live_def)
    have tcb: "tss_generations (tcbs s' u) j = (if u = t \<and> j = i \<and> tss_generations (tcbs s t) i = g then 0 else tss_generations (tcbs s u) j)"
      "tss_values (tcbs s' u) j = (if u = t \<and> j = i \<and> tss_generations (tcbs s t) i = g then 0 else tss_values (tcbs s u) j)" for u j
      unfolding assms(2) tss_delete_def d by (auto simp: Let_def on_tcb_def store_value_def)
    have other: "decode_key k \<noteq> Some (i, g)" if "k \<noteq> key" for k using decode_key_inj [of k i g key] d that by blast
    have ok: "tss_ok s'"
      using tss_okD [OF assms(1)] by (intro tss_okI) (auto simp: keys tcb)
    have gl: "generations_left n s' = generations_left n s" by (rule generations_left_cong) (simp add: keys)
    have dead: "\<not> key_is_active_locked i g s'" by (auto simp: key_is_active_locked_def keys live_def)
    have act: "key_is_active_locked j h s' = key_is_active_locked j h s" if "(j, h) \<noteq> (i, g)" for j h
      using that by (auto simp: key_is_active_locked_def keys live_def)
    have live': "live_key s' k = ((live_key s)(key := None)) k" for k
      using dead d act other [of k] by (auto simp: live_key_def keys key_is_active_locked_def live_def split: option.splits)
    have get: "tss_get t' key' s' = (if key' = key then 0 else tss_get t' key' s)"
    proof (cases "key' = key")
      case True
      then show ?thesis using d dead by (simp add: tss_get_def)
    next
      case False
      show ?thesis
      proof (cases "decode_key key'")
        case (Some q)
        obtain j h where q: "decode_key key' = Some (j, h)" using Some by (cases q) auto
        have "(j, h) \<noteq> (i, g)" using q other [OF False] by auto
        then show ?thesis using False q act [of j h] decode_key_range [OF q] by (auto simp: tss_get_def tcb)
      qed (use False in \<open>simp add: tss_get_def\<close>)
    qed
    have stale: "stale_key s' key'" if "stale_key s key' \<or> key' = key \<and> live_key s key \<noteq> None"
    proof (cases "decode_key key'")
      case (Some q)
      obtain j h where q: "decode_key key' = Some (j, h)" using Some by (cases q) auto
      show ?thesis
      proof (cases "key' = key")
        case True
        then show ?thesis using that d dead by (auto simp: stale_key_def live_key_def keys key_is_active_locked_def split: if_splits)
      next
        case False
        then have "(j, h) \<noteq> (i, g)" using q other [OF False] by auto
        then show ?thesis using that False q act [of j h] by (auto simp: stale_key_def keys)
      qed
    qed (simp add: stale_key_def)
    show ?thesis using ok gl live' get stale by (auto simp: fun_eq_iff)
  qed
  then show "tss_ok s'" "generations_left n s' = generations_left n s" "live_key s' = (live_key s)(key := None)"
    "tss_get t' key' s' = (if key' = key then 0 else tss_get t' key' s)"
    "stale_key s key' \<or> key' = key \<and> live_key s key \<noteq> None \<Longrightarrow> stale_key s' key'" by blast+
qed

lemma set_spec:
  assumes "tss_ok s" "tss_set t key v s = (r, s')"
  shows "tss_ok s'" "generations_left n s' = generations_left n s" "live_key s' = live_key s"
    "r = (if live_key s key \<noteq> None then thrd_success else thrd_error)"
    "tss_get t' key' s' = (if live_key s key \<noteq> None \<and> t' = t \<and> key' = key then v else tss_get t' key' s)"
    "stale_key s' key' = stale_key s key'"
proof -
  have "tss_ok s' \<and> generations_left n s' = generations_left n s \<and> live_key s' = live_key s \<and>
    r = (if live_key s key \<noteq> None then thrd_success else thrd_error) \<and>
    tss_get t' key' s' = (if live_key s key \<noteq> None \<and> t' = t \<and> key' = key then v else tss_get t' key' s) \<and>
    stale_key s' key' = stale_key s key'"
  proof (cases "live_key s key")
    case None
    then have "s' = s" "r = thrd_error" using assms(2) by (auto simp: tss_set_def live_key_def split: option.splits prod.splits if_splits)
    then show ?thesis using None assms(1) by simp
  next
    case (Some dtor)
    then obtain i g where d: "decode_key key = Some (i, g)" "key_is_active_locked i g s"
      by (auto simp: live_key_def split: option.splits prod.splits if_splits)
    have r: "r = thrd_success" "mini_tss_keys s' = mini_tss_keys s"
      "tss_generations (tcbs s' u) j = (if u = t \<and> j = i then g else tss_generations (tcbs s u) j)"
      "tss_values (tcbs s' u) j = (if u = t \<and> j = i then v else tss_values (tcbs s u) j)" for u j
      using assms(2) d by (auto simp: tss_set_def on_tcb_def store_value_def)
    have act: "key_is_active_locked j h s' = key_is_active_locked j h s" for j h by (simp add: key_is_active_locked_def r(2))
    have only: "h = g" if "key_is_active_locked i h s" for h using that d(2) by (simp add: key_is_active_locked_def)
    have "tss_ok s'" using tss_okD [OF assms(1)] d(2) by (intro tss_okI) (auto simp: r key_is_active_locked_def)
    moreover have "tss_get t' key' s' = (if t' = t \<and> key' = key then v else tss_get t' key' s)"
    proof (cases "decode_key key'")
      case (Some q)
      obtain j h where q: "decode_key key' = Some (j, h)" using Some by (cases q) auto
      show ?thesis
      proof (cases "j = i")
        case True
        have same: "key' = key \<longleftrightarrow> h = g" using True q d(1) decode_key_inj [of key' i g key] by auto
        have a: "key_is_active_locked j h s' = (h = g)" "key_is_active_locked j h s = (h = g)"
          unfolding act using only [of h] d(2) True by blast+
        show ?thesis
          unfolding tss_get_def q option.case prod.case a r(3) [of t' j] r(4) [of t' j] same
          by (cases "h = g"; cases "t' = t") (simp_all only: True simp_thms if_True if_False if_cancel refl)
      next
        case False
        then have "key' \<noteq> key" using q d(1) by auto
        then show ?thesis using False q act by (simp add: tss_get_def r(3,4))
      qed
    qed (use d(1) in \<open>auto simp: tss_get_def\<close>)
    moreover have "live_key s' = live_key s"
      by (rule ext) (simp add: live_key_def act r(2) split: option.splits)
    moreover have "stale_key s' key' = stale_key s key'"
      by (simp add: stale_key_def act r(2) split: option.splits)
    moreover have "generations_left n s' = generations_left n s" by (rule generations_left_cong) (simp add: r(2))
    ultimately show ?thesis using Some r(1) by simp
  qed
  then show "tss_ok s'" "generations_left n s' = generations_left n s" "live_key s' = live_key s"
    "r = (if live_key s key \<noteq> None then thrd_success else thrd_error)"
    "tss_get t' key' s' = (if live_key s key \<noteq> None \<and> t' = t \<and> key' = key then v else tss_get t' key' s)"
    "stale_key s' key' = stale_key s key'" by blast+
qed

subsection \<open>The storage as a map from keys\<close>

text \<open>What a client sees: which keys are live, with their destructors, and a value for every thread and key.\<close>

record key_store =
  live :: "u32 \<rightharpoonup> addr"
  holds :: "thread \<Rightarrow> u32 \<Rightarrow> u64"

definition seen :: "tss \<Rightarrow> key_store" where
  "seen s = \<lparr>live = live_key s, holds = \<lambda>t key. tss_get t key s\<rparr>"

datatype tss_call = Create addr | Delete thread u32 | Put thread u32 u64

fun after_call :: "tss_call \<Rightarrow> tss \<Rightarrow> (int \<times> u32 option) \<times> tss" where
  "after_call (Create dtor) s = (case tss_create False dtor s of (r, k, s') \<Rightarrow> ((r, k), s'))"
| "after_call (Delete t key) s = ((thrd_success, None), tss_delete t key s)"
| "after_call (Put t key v) s = (case tss_set t key v s of (r, s') \<Rightarrow> ((r, None), s'))"

fun after_calls :: "tss_call list \<Rightarrow> tss \<Rightarrow> (int \<times> u32 option) list \<times> tss" where
  "after_calls [] s = ([], s)"
| "after_calls (c # cs) s = (let (r, s') = after_call c s; (rs, s'') = after_calls cs s' in (r # rs, s''))"

text \<open>The contract: there is room for 32 keys; a new key is one that is not live and holds the null value in
  every thread.\<close>

inductive store_step :: "tss_call \<Rightarrow> int \<times> u32 option \<Rightarrow> key_store \<Rightarrow> key_store \<Rightarrow> bool" where
  created: "card (dom (live a)) < MINI_TSS_MAX_KEYS \<Longrightarrow> live a key = None \<Longrightarrow>
    store_step (Create dtor) (thrd_success, Some key) a
      (a\<lparr>live := (live a)(key \<mapsto> dtor), holds := \<lambda>t. (holds a t)(key := 0)\<rparr>)"
| full: "card (dom (live a)) = MINI_TSS_MAX_KEYS \<Longrightarrow> store_step (Create dtor) (thrd_nomem, None) a a"
| deleted: "store_step (Delete t key) (thrd_success, None) a
      (a\<lparr>live := (live a)(key := None), holds := \<lambda>u. (holds a u)(key := 0)\<rparr>)"
| put: "live a key \<noteq> None \<Longrightarrow>
    store_step (Put t key v) (thrd_success, None) a (a\<lparr>holds := (holds a)(t := (holds a t)(key := v))\<rparr>)"
| refused: "live a key = None \<Longrightarrow> store_step (Put t key v) (thrd_error, None) a a"

inductive store_steps :: "tss_call list \<Rightarrow> (int \<times> u32 option) list \<Rightarrow> key_store \<Rightarrow> key_store \<Rightarrow> bool" where
  no_step: "store_steps [] [] a a"
| a_step: "store_step c r a a' \<Longrightarrow> store_steps cs rs a' a'' \<Longrightarrow> store_steps (c # cs) (r # rs) a a''"

text \<open>There is one live key for every active slot.\<close>

lemma live_key_slots:
  assumes "tss_ok s"
  shows "card (dom (live_key s)) = card {i. i < MINI_TSS_MAX_KEYS \<and> active (mini_tss_keys s i)}"
proof -
  let ?key = "\<lambda>i. encode_key i (generation (mini_tss_keys s i))" and ?I = "{i. i < MINI_TSS_MAX_KEYS \<and> active (mini_tss_keys s i)}"
  have dec: "decode_key (?key i) = Some (i, generation (mini_tss_keys s i))" if "i \<in> ?I" for i
    using that tss_okD [OF assms, of i] by (intro decode_encode) auto
  have "dom (live_key s) = ?key ` ?I"
  proof (rule set_eqI, rule iffI)
    fix key assume "key \<in> dom (live_key s)"
    then obtain i g where d: "decode_key key = Some (i, g)" "key_is_active_locked i g s"
      by (auto simp: live_key_def split: option.splits prod.splits if_splits)
    then have i: "i \<in> ?I" "g = generation (mini_tss_keys s i)"
      using decode_key_range [OF d(1)] by (auto simp: key_is_active_locked_def)
    have "key = ?key i" by (rule decode_key_inj [OF d(1)]) (use dec [OF i(1)] i(2) in simp)
    then show "key \<in> ?key ` ?I" using i(1) by blast
  next
    fix key assume "key \<in> ?key ` ?I"
    then show "key \<in> dom (live_key s)" using dec by (auto simp: live_key_def key_is_active_locked_def)
  qed
  moreover have "inj_on ?key ?I"
  proof (rule inj_onI)
    fix i j assume ij: "i \<in> ?I" "j \<in> ?I" "?key i = ?key j"
    show "i = j" using dec [OF ij(1)] dec [OF ij(2)] unfolding ij(3) by simp
  qed
  ultimately show ?thesis by (simp add: card_image)
qed

lemma live_key_room:
  assumes "tss_ok s"
  shows "i < MINI_TSS_MAX_KEYS \<Longrightarrow> \<not> active (mini_tss_keys s i) \<Longrightarrow> card (dom (live_key s)) < MINI_TSS_MAX_KEYS"
    "\<forall>i < MINI_TSS_MAX_KEYS. active (mini_tss_keys s i) \<Longrightarrow> card (dom (live_key s)) = MINI_TSS_MAX_KEYS"
proof -
  let ?I = "{i. i < MINI_TSS_MAX_KEYS \<and> active (mini_tss_keys s i)}"
  show "card (dom (live_key s)) < MINI_TSS_MAX_KEYS" if "i < MINI_TSS_MAX_KEYS" "\<not> active (mini_tss_keys s i)"
  proof -
    have "?I \<subset> {..<MINI_TSS_MAX_KEYS}" using that by auto
    from psubset_card_mono [OF _ this] show ?thesis using live_key_slots [OF assms] by simp
  qed
  show "card (dom (live_key s)) = MINI_TSS_MAX_KEYS" if "\<forall>i < MINI_TSS_MAX_KEYS. active (mini_tss_keys s i)"
  proof -
    have "?I = {..<MINI_TSS_MAX_KEYS}" using that by auto
    then show ?thesis using live_key_slots [OF assms] by simp
  qed
qed

lemma after_call_refines:
  assumes "tss_ok s" "generations_left (Suc n) s" "after_call c s = (r, s')"
  shows "tss_ok s' \<and> generations_left n s' \<and> store_step c r (seen s) (seen s') \<and> (\<forall>key. stale_key s key \<longrightarrow> stale_key s' key)"
proof -
  have gl: "generations_left n s" using assms(2) by (auto simp: generations_left_def intro: Suc_leD)
  show ?thesis
  proof (cases c)
    case (Create dtor)
    then obtain q k where q: "tss_create False dtor s = (q, k, s')" "r = (q, k)" using assms(3) by (auto split: prod.splits)
    note cs = create_spec [OF assms(1,2) q(1)]
    have "store_step c r (seen s) (seen s')"
      using cs(3)
    proof (elim disjE conjE exE)
      fix i key assume i: "i < MINI_TSS_MAX_KEYS" "\<not> active (mini_tss_keys s i)"
        and k: "q = thrd_success" "k = Some key" "live_key s key = None" "live_key s' = (live_key s)(key \<mapsto> dtor)"
        "\<forall>t. tss_get t key s' = 0" "\<forall>t key'. key' \<noteq> key \<longrightarrow> tss_get t key' s' = tss_get t key' s"
      have "seen s' = (seen s)\<lparr>live := (live (seen s))(key \<mapsto> dtor), holds := \<lambda>t. (holds (seen s) t)(key := 0)\<rparr>"
        using k by (auto simp: seen_def fun_eq_iff)
      then show ?thesis using created [of "seen s" key dtor] live_key_room(1) [OF assms(1) i] k(1,2,3) q(2) Create by (simp add: seen_def)
    next
      assume f: "q = thrd_nomem" "k = None" "s' = s" "\<forall>i < MINI_TSS_MAX_KEYS. active (mini_tss_keys s i)"
      show ?thesis using full [of "seen s" dtor] live_key_room(2) [OF assms(1) f(4)] f(1,2,3) q(2) Create by (simp add: seen_def)
    qed
    then show ?thesis using cs(1,2,4) by blast
  next
    case (Delete t key)
    then have d: "s' = tss_delete t key s" "r = (thrd_success, None)" using assms(3) by simp_all
    note ds = delete_spec [OF assms(1) d(1)]
    have "seen s' = (seen s)\<lparr>live := (live (seen s))(key := None), holds := \<lambda>u. (holds (seen s) u)(key := 0)\<rparr>"
      using ds(3) ds(4) by (auto simp: seen_def fun_eq_iff)
    then have "store_step c r (seen s) (seen s')" using deleted [of t key "seen s"] d(2) Delete by simp
    then show ?thesis using ds(1) ds(2) [of n] ds(5) gl by blast
  next
    case (Put t key v)
    then obtain q where q: "tss_set t key v s = (q, s')" "r = (q, None)" using assms(3) by (auto split: prod.splits)
    note ss = set_spec [OF assms(1) q(1)]
    have "store_step c r (seen s) (seen s')"
    proof (cases "live_key s key")
      case None
      then have "seen s' = seen s" using ss(3) ss(5) by (auto simp: seen_def fun_eq_iff)
      then show ?thesis using None refused [of "seen s" key t v] q(2) ss(4) Put by (simp add: seen_def)
    next
      case (Some dtor)
      have "seen s' = (seen s)\<lparr>holds := (holds (seen s))(t := (holds (seen s) t)(key := v))\<rparr>"
        using Some ss(3) ss(5) by (auto simp: seen_def fun_eq_iff)
      then show ?thesis using Some put [of "seen s" key t v] q(2) ss(4) Put by (simp add: seen_def)
    qed
    then show ?thesis using ss(1) ss(2) [of n] ss(6) gl by blast
  qed
qed

lemma after_calls_refine:
  assumes "tss_ok s" "generations_left (length cs + n) s" "after_calls cs s = (rs, s')"
  shows "tss_ok s' \<and> generations_left n s' \<and> store_steps cs rs (seen s) (seen s') \<and> (\<forall>key. stale_key s key \<longrightarrow> stale_key s' key)"
  using assms
proof (induction cs arbitrary: s rs)
  case Nil
  then show ?case by (auto intro: no_step)
next
  case (Cons c cs)
  obtain r t where t: "after_call c s = (r, t)" by fastforce
  obtain qs where q: "after_calls cs t = (qs, s')" "rs = r # qs" using Cons.prems(3) t by (auto split: prod.splits)
  from after_call_refines [OF Cons.prems(1) _ t, of "length cs + n"] Cons.prems(2)
  have one: "tss_ok t" "generations_left (length cs + n) t" "store_step c r (seen s) (seen t)" "\<And>key. stale_key s key \<Longrightarrow> stale_key t key"
    by auto
  from Cons.IH [OF one(1,2) q(1)] one(3,4) q(2) show ?case by (auto intro: a_step)
qed

lemma stale_key_dead:
  assumes "stale_key s key"
  shows "live_key s key = None" "tss_get t key s = 0" "tss_set t key v s = (thrd_error, s)"
  using assms by (auto simp: stale_key_def live_key_def tss_get_def tss_set_def split: option.splits)

subsection \<open>Destructors\<close>

definition spent :: "thread \<Rightarrow> tss \<Rightarrow> (nat \<Rightarrow> bool) \<Rightarrow> tss" where
  "spent t s P = on_tcb t (\<lambda>b. b\<lparr>tss_values := \<lambda>i. if P i then 0 else tss_values b i\<rparr>) s"

lemma due_cong:
  "mini_tss_keys s' = mini_tss_keys s \<Longrightarrow> tss_generations (tcbs s' t) i = tss_generations (tcbs s t) i \<Longrightarrow>
   tss_values (tcbs s' t) i = tss_values (tcbs s t) i \<Longrightarrow> due t s' i = due t s i"
  by (simp add: due_def)

lemma collect_spec:
  "index \<le> MINI_TSS_MAX_KEYS \<Longrightarrow>
   collect t index s = (map (\<lambda>i. (destructor (mini_tss_keys s i), tss_values (tcbs s t) i)) (filter (due t s) [index..<MINI_TSS_MAX_KEYS]),
     spent t s (\<lambda>i. index \<le> i \<and> i < MINI_TSS_MAX_KEYS \<and> due t s i))"
proof (induction t index s rule: collect.induct)
  case (1 t index s)
  have tcb_eq: "on_tcb t (\<lambda>b. b) s = s" by (simp add: on_tcb_def)
  show ?case
  proof (cases "index < MINI_TSS_MAX_KEYS")
    case False
    then show ?thesis using 1(3) by (subst collect.simps) (simp add: spent_def tcb_eq cong: conj_cong)
  next
    case True
    have step: "[index..<MINI_TSS_MAX_KEYS] = index # [index + 1..<MINI_TSS_MAX_KEYS]" using True by (simp add: upt_conv_Cons)
    show ?thesis
    proof (cases "due t s index")
      case False
      have p: "(\<lambda>i. index + 1 \<le> i \<and> i < MINI_TSS_MAX_KEYS \<and> due t s i) = (\<lambda>i. index \<le> i \<and> i < MINI_TSS_MAX_KEYS \<and> due t s i)"
        using False by (auto simp: fun_eq_iff Suc_le_eq dest: le_neq_implies_less)
      from 1(2) [OF True False] True show ?thesis
        unfolding p by (subst collect.simps) (use True False in \<open>simp add: step\<close>)
    next
      case duei: True
      define s1 where "s1 = on_tcb t (\<lambda>b. b\<lparr>tss_values := (tss_values b)(index := 0)\<rparr>) s"
      have s1: "mini_tss_keys s1 = mini_tss_keys s" "tss_generations (tcbs s1 t) = tss_generations (tcbs s t)"
        "tss_values (tcbs s1 t) = (tss_values (tcbs s t))(index := 0)"
        by (simp_all add: s1_def on_tcb_def)
      have d: "due t s1 i = due t s i" if "i \<noteq> index" for i by (rule due_cong) (use that in \<open>simp_all add: s1\<close>)
      have f: "filter (due t s1) [index + 1..<MINI_TSS_MAX_KEYS] = filter (due t s) [index + 1..<MINI_TSS_MAX_KEYS]"
        by (rule filter_cong) (auto simp: d)
      have m: "map (\<lambda>i. (destructor (mini_tss_keys s1 i), tss_values (tcbs s1 t) i)) (filter (due t s) [index + 1..<MINI_TSS_MAX_KEYS])
          = map (\<lambda>i. (destructor (mini_tss_keys s i), tss_values (tcbs s t) i)) (filter (due t s) [index + 1..<MINI_TSS_MAX_KEYS])"
        by (rule map_cong) (auto simp: s1)
      have sp: "spent t s1 (\<lambda>i. index + 1 \<le> i \<and> i < MINI_TSS_MAX_KEYS \<and> due t s1 i) = spent t s (\<lambda>i. index \<le> i \<and> i < MINI_TSS_MAX_KEYS \<and> due t s i)"
      proof -
        have v: "(if index + 1 \<le> i \<and> i < MINI_TSS_MAX_KEYS \<and> due t s1 i then 0 else tss_values (tcbs s1 t) i)
            = (if index \<le> i \<and> i < MINI_TSS_MAX_KEYS \<and> due t s i then 0 else tss_values (tcbs s t) i)" for i
          using d [of i] duei True by (cases "i = index") (simp_all add: s1 Suc_le_eq)
        show ?thesis unfolding spent_def on_tcb_def using v by (simp add: s1 s1_def on_tcb_def)
      qed
      have "collect t (index + 1) s1 = (map (\<lambda>i. (destructor (mini_tss_keys s1 i), tss_values (tcbs s1 t) i)) (filter (due t s1) [index + 1..<MINI_TSS_MAX_KEYS]),
          spent t s1 (\<lambda>i. index + 1 \<le> i \<and> i < MINI_TSS_MAX_KEYS \<and> due t s1 i))"
        using 1(1) [OF True duei refl] True unfolding s1_def by simp
      then show ?thesis using True duei unfolding f m sp
        by (subst collect.simps) (simp add: step Let_def s1_def [symmetric])
    qed
  qed
qed

definition due_calls :: "thread \<Rightarrow> tss \<Rightarrow> (addr \<times> u64) list" where
  "due_calls t s = map (\<lambda>i. (destructor (mini_tss_keys s i), tss_values (tcbs s t) i)) (filter (due t s) [0..<MINI_TSS_MAX_KEYS])"

lemma spent_due: "\<not> due t (spent t s (\<lambda>i. i < MINI_TSS_MAX_KEYS \<and> due t s i)) i \<or> MINI_TSS_MAX_KEYS \<le> i"
  by (auto simp: due_def spent_def on_tcb_def)

lemma calls_on_world:
  assumes "\<And>d v s w. fst (D d v (s, w)) = s"
  shows "fold (\<lambda>(d, v). D d v) calls (s, w) = (s, fold (\<lambda>(d, v) w. snd (D d v (s, w))) calls w)"
proof (induction calls arbitrary: w)
  case (Cons c calls)
  obtain d v where c: "c = (d, v)" by (cases c)
  have "D d v (s, w) = (s, snd (D d v (s, w)))" using assms [of d v s w] by (metis prod.collapse)
  then show ?case using Cons [of "snd (D d v (s, w))"] by (simp add: c)
qed simp

subsection \<open>Properties\<close>

text \<open>C28. The storage keeps its invariant and implements the map of keys: over any sequence of creations, deletions
  and assignments from the start, as long as no slot can have used up its 27-bit generations, every
  call has a result the contract allows and what the threads read is what the contract says. So a created key
  is not one of the live ones, reads as null in every thread, creation fails exactly when 32 keys are live,
  and a value is seen by its own thread under its own key only.\<close>

theorem tss_refines_key_store:
  assumes "length calls \<le> unat MINI_TSS_GENERATION_MASK" "after_calls calls tss_start = (rs, s)"
  shows "tss_ok s \<and> store_steps calls rs \<lparr>live = Map.empty, holds = \<lambda>_ _. 0\<rparr> (seen s)"
proof -
  have start: "seen tss_start = \<lparr>live = Map.empty, holds = \<lambda>_ _. 0\<rparr>"
    by (auto simp: seen_def live_key_def tss_get_def tss_start_def key_is_active_locked_def fun_eq_iff split: option.splits)
  have left: "generations_left (length calls + 0) tss_start"
    using assms(1) by (simp add: generations_left_def tss_start_def)
  show ?thesis using after_calls_refine [OF tss_start_ok(1) left assms(2)] by (simp add: start)
qed

text \<open>C29. A deleted key stays dead, in the thread that deleted it and in all others, whatever is created, deleted or
  stored later: it reads as null and cannot be stored to, although its slot is used again.\<close>

theorem tss_deleted_key_stays_dead:
  assumes "length before + length later \<le> unat MINI_TSS_GENERATION_MASK"
    and "after_calls before tss_start = (rs, s)" "live_key s key \<noteq> None"
    and "after_calls later (tss_delete t key s) = (qs, s')"
  shows "live_key s' key = None \<and> tss_get u key s' = 0 \<and> tss_set u key v s' = (thrd_error, s')"
proof -
  have left: "generations_left (length before + length later) tss_start"
    using assms(1) by (simp add: generations_left_def tss_start_def)
  have s: "tss_ok s" "generations_left (length later + 0) s"
    using after_calls_refine [OF tss_start_ok(1) left assms(2)] by simp_all
  note d = delete_spec [OF s(1) refl, where t = t and key = key]
  have "stale_key (tss_delete t key s) key" using d(5) assms(3) by blast
  then have "stale_key s' key"
    using after_calls_refine [OF d(1) _ assms(4), of 0] d(2) s(2) by simp
  then show ?thesis using stale_key_dead [of s' key] by blast
qed

text \<open>When a thread ends, the destructor of every live key with a destructor and a value in that thread is called once,
  in slot order, with the value, after the value has been cleared; destructors that leave the storage alone
  leave nothing to call.\<close>

theorem destructors_run_once:
  fixes D :: "'w dtor_call"
  assumes "\<And>d v s w. fst (D d v (s, w)) = s"
  shows "\<exists>s'. run_destructors D t (s, w) = (s', fold (\<lambda>(d, v) w. snd (D d v (s', w))) (due_calls t s) w) \<and>
    s' = spent t s (\<lambda>i. i < MINI_TSS_MAX_KEYS \<and> due t s i) \<and> due_calls t s' = []"
proof -
  define s' where "s' = spent t s (\<lambda>i. i < MINI_TSS_MAX_KEYS \<and> due t s i)"
  have one: "collect t 0 s = (due_calls t s, s')"
    using collect_spec [of 0 t s] by (simp add: due_calls_def s'_def)
  have none: "filter (due t s') [0..<MINI_TSS_MAX_KEYS] = []"
    using spent_due [of t s] by (auto simp: s'_def filter_empty_conv simp flip: not_le)
  have "(\<lambda>i. i < MINI_TSS_MAX_KEYS \<and> due t s' i) = (\<lambda>_. False)"
    using none by (auto simp: filter_empty_conv fun_eq_iff)
  moreover have "on_tcb t (\<lambda>b. b) s' = s'" by (simp add: on_tcb_def)
  ultimately have two: "collect t 0 s' = ([], s')"
    using collect_spec [of 0 t s'] none by (simp add: spent_def)
  have again: "run_passes D t n (s', v) = (s', v)" for n v
    by (cases n) (simp_all add: two)
  have idle: "s' = s" if "due_calls t s = []"
  proof -
    have "(\<lambda>i. i < MINI_TSS_MAX_KEYS \<and> due t s i) = (\<lambda>_. False)"
      using that by (auto simp: due_calls_def filter_empty_conv fun_eq_iff)
    then show ?thesis by (simp add: s'_def spent_def on_tcb_def)
  qed
  have "run_destructors D t (s, w) = (s', fold (\<lambda>(d, v) w. snd (D d v (s', w))) (due_calls t s) w)"
  proof -
    have four: "TSS_DTOR_ITERATIONS = Suc 3" by (simp add: tss_consts)
    note run = calls_on_world [of D "due_calls t s" s' w, OF assms(1)]
    show ?thesis
      unfolding run_destructors_def four run_passes.simps fst_conv one snd_conv prod.case Let_def run again
      by simp
  qed
  moreover have "due_calls t s' = []" using none by (simp add: due_calls_def)
  ultimately show ?thesis using s'_def by blast
qed

text \<open>A round: the values due are cleared, then every destructor due is called with its value, in slot order.\<close>

definition dtor_round :: "'w dtor_call \<Rightarrow> thread \<Rightarrow> tss \<times> 'w \<Rightarrow> tss \<times> 'w" where
  "dtor_round D t sw =
     fold (\<lambda>(d, v). D d v) (due_calls t (fst sw))
       (spent t (fst sw) (\<lambda>i. i < MINI_TSS_MAX_KEYS \<and> due t (fst sw) i), snd sw)"

lemma nothing_due: "due_calls t s = [] \<Longrightarrow> spent t s (\<lambda>i. i < MINI_TSS_MAX_KEYS \<and> due t s i) = s"
proof -
  assume "due_calls t s = []"
  then have "(\<lambda>i. i < MINI_TSS_MAX_KEYS \<and> due t s i) = (\<lambda>_. False)"
    by (auto simp: due_calls_def filter_empty_conv fun_eq_iff)
  then show ?thesis by (simp add: spent_def on_tcb_def)
qed

lemma run_passes_rounds:
  "\<exists>k \<le> n. run_passes D t n sw = (dtor_round D t ^^ k) sw \<and>
     (\<forall>j < k. due_calls t (fst ((dtor_round D t ^^ j) sw)) \<noteq> []) \<and>
     (k < n \<longrightarrow> due_calls t (fst ((dtor_round D t ^^ k) sw)) = [])"
proof (induction n arbitrary: sw)
  case (Suc n)
  have c: "collect t 0 (fst sw) = (due_calls t (fst sw), spent t (fst sw) (\<lambda>i. i < MINI_TSS_MAX_KEYS \<and> due t (fst sw) i))"
    using collect_spec [of 0 t "fst sw"] by (simp add: due_calls_def)
  show ?case
  proof (cases "due_calls t (fst sw) = []")
    case True
    then have "run_passes D t (Suc n) sw = sw" by (simp add: c nothing_due)
    then show ?thesis using True by (intro exI [of _ 0]) simp
  next
    case False
    then have step: "run_passes D t (Suc n) sw = run_passes D t n (dtor_round D t sw)"
      by (simp add: c dtor_round_def)
    obtain k where k: "k \<le> n" "run_passes D t n (dtor_round D t sw) = (dtor_round D t ^^ Suc k) sw"
      "\<forall>j < k. due_calls t (fst ((dtor_round D t ^^ Suc j) sw)) \<noteq> []"
      "k < n \<longrightarrow> due_calls t (fst ((dtor_round D t ^^ Suc k) sw)) = []"
      using Suc [of "dtor_round D t sw"] unfolding funpow_Suc_right comp_apply by blast
    have "due_calls t (fst ((dtor_round D t ^^ j) sw)) \<noteq> []" if "j < Suc k" for j
      using that k(3) False by (cases j) simp_all
    then show ?thesis using k step by (intro exI [of _ "Suc k"]) simp
  qed
qed simp

text \<open>C30. When a thread ends, its destructors run in rounds, whatever they do to the storage or to the rest of the
  program. A round clears the value of every live key that has a destructor and a value in the thread, and
  then calls each of these destructors once, in slot order, with the value. There is another round exactly
  when something is due again, up to four rounds.\<close>

theorem tss_destructors_run_in_rounds:
  fixes D :: "'w dtor_call"
  shows "\<exists>k \<le> 4. run_destructors D t (s, w) = (dtor_round D t ^^ k) (s, w) \<and>
    (\<forall>j < k. due_calls t (fst ((dtor_round D t ^^ j) (s, w))) \<noteq> []) \<and>
    (k < 4 \<longrightarrow> due_calls t (fst ((dtor_round D t ^^ k) (s, w))) = [])"
  using run_passes_rounds [of 4 D t "(s, w)"] by (simp add: run_destructors_def tss_consts)

subsection \<open>Witnesses\<close>

text \<open>A thread creates a key, stores, deletes it, and the slot is taken again.\<close>

definition reuse_calls :: "tss_call list" where
  "reuse_calls = [Create 7, Put 0 32 99, Delete 0 32, Create 9, Put 1 32 5, Put 1 64 6]"

lemma first_slot: "create_from 0 d s = take_slot 0 d s" if "\<not> active (mini_tss_keys s 0)"
  using that by (subst create_from.simps) (simp add: tss_consts)

lemma first_keys: "decode_key 32 = Some (0, 1)" "decode_key 64 = Some (0, 2)" "encode_key 0 1 = 32" "encode_key 0 2 = 64"
  "next_generation 0 = 1" "next_generation 1 = 2"
  by (simp_all add: decode_key_def encode_key_def next_generation_def tss_consts Let_def)

lemmas reuse_defs = tss_create_def take_slot_def Let_def key_is_active_locked_def tss_set_def tss_get_def tss_delete_def
  on_tcb_def store_value_def first_slot first_keys tss_start_def

lemma reuse_run:
  "map fst (fst (after_calls reuse_calls tss_start)) = [thrd_success, thrd_success, thrd_success, thrd_success, thrd_error, thrd_success]"
  by (simp add: reuse_calls_def reuse_defs)

lemma tss_refines_key_store_witness:
  "\<exists>rs s. map fst rs = [thrd_success, thrd_success, thrd_success, thrd_success, thrd_error, thrd_success] \<and>
     tss_ok s \<and> store_steps reuse_calls rs \<lparr>live = Map.empty, holds = \<lambda>_ _. 0\<rparr> (seen s)"
proof -
  obtain rs s where r: "after_calls reuse_calls tss_start = (rs, s)" by fastforce
  have len: "length reuse_calls \<le> unat MINI_TSS_GENERATION_MASK" by (simp add: reuse_calls_def tss_consts)
  have "map fst rs = [thrd_success, thrd_success, thrd_success, thrd_success, thrd_error, thrd_success]"
    using reuse_run unfolding r by (simp only: fst_conv)
  with tss_refines_key_store [OF len r] show ?thesis by (intro exI [of _ rs] exI [of _ s]) (elim conjE, intro conjI)
qed

lemma tss_deleted_key_stays_dead_witness:
  "\<exists>rs s qs s'. after_calls [Create 7, Put 0 32 99] tss_start = (rs, s) \<and> tss_get 0 32 s = 99 \<and>
     after_calls [Create 9, Put 0 64 6] (tss_delete 0 32 s) = (qs, s') \<and> tss_get 0 64 s' = 6 \<and>
     tss_get 0 32 s' = 0 \<and> tss_set 1 32 5 s' = (thrd_error, s')"
proof -
  obtain rs s where r: "after_calls [Create 7, Put 0 32 99] tss_start = (rs, s)" by fastforce
  obtain qs s' where q: "after_calls [Create 9, Put 0 64 6] (tss_delete 0 32 s) = (qs, s')" by fastforce
  have s: "s = snd (after_calls [Create 7, Put 0 32 99] tss_start)" "s' = snd (after_calls [Create 9, Put 0 64 6] (tss_delete 0 32 s))"
    using r q by simp_all
  have len: "length [Create 7, Put 0 32 99] + length [Create 9, Put 0 64 6] \<le> unat MINI_TSS_GENERATION_MASK"
    by (simp add: tss_consts)
  have "live_key s 32 \<noteq> None" "tss_get 0 32 s = 99" "tss_get 0 64 s' = 6"
    unfolding s by (simp_all add: reuse_defs live_key_def)
  then show ?thesis
    using r q tss_deleted_key_stays_dead [OF len r _ q, where u = 0] tss_deleted_key_stays_dead [OF len r _ q, where u = 1] by blast
qed

definition logged :: "addr \<Rightarrow> u64 \<Rightarrow> tss \<times> (addr \<times> u64) list \<Rightarrow> tss \<times> (addr \<times> u64) list" where
  "logged d v sw = (fst sw, snd sw @ [(d, v)])"

definition two_keys :: tss where
  "two_keys = \<lparr>mini_tss_keys = \<lambda>i. \<lparr>generation = 1, active = i < 2, destructor = if i = 0 then 7 else 9\<rparr>,
     tcbs = \<lambda>_. \<lparr>tss_values = \<lambda>i. of_nat i + 5, tss_generations = \<lambda>_. 1\<rparr>\<rparr>"

lemma two_keys_due: "due_calls t two_keys = [(7, 5), (9, 6)]"
proof -
  have d: "due t two_keys = (\<lambda>i. i < 2 \<and> (of_nat i :: u64) + 5 \<noteq> 0)" by (auto simp: due_def two_keys_def fun_eq_iff)
  have split: "[0..<MINI_TSS_MAX_KEYS] = [0, 1] @ [2..<32]"
    unfolding MINI_TSS_MAX_KEYS_def by (simp add: upt_conv_Cons)
  have rest: "filter (due t two_keys) [2..<32] = []" unfolding d filter_empty_conv by simp
  show ?thesis unfolding due_calls_def split filter_append rest by (simp add: d) (simp add: two_keys_def)
qed

lemma destructors_run_once_witness:
  "snd (run_destructors logged 3 (two_keys, [])) = [(7, 5), (9, 6)]"
proof -
  have quiet: "fst (logged d v (s, w)) = s" for d v s w by (simp add: logged_def)
  show ?thesis using destructors_run_once [of logged 3 two_keys "[]", OF quiet] by (auto simp: two_keys_due logged_def)
qed

text \<open>A destructor that stores its value again: it is called four times, and the value is left behind.\<close>

definition rearm :: "addr \<Rightarrow> u64 \<Rightarrow> tss \<times> u64 list \<Rightarrow> tss \<times> u64 list" where
  "rearm d v sw = (snd (tss_set 3 32 v (fst sw)), snd sw @ [v])"

definition one_key :: tss where
  "one_key = \<lparr>mini_tss_keys = \<lambda>i. \<lparr>generation = 1, active = i = 0, destructor = 7\<rparr>,
     tcbs = \<lambda>_. \<lparr>tss_values = \<lambda>i. if i = 0 then 5 else 0, tss_generations = \<lambda>_. 1\<rparr>\<rparr>"

lemma one_key_due: "due_calls 3 one_key = [(7, 5)]"
proof -
  have d: "due 3 one_key = (\<lambda>i. i = 0)" by (auto simp: due_def one_key_def fun_eq_iff)
  have split: "[0..<MINI_TSS_MAX_KEYS] = [0] @ [1..<32]" unfolding MINI_TSS_MAX_KEYS_def by (simp add: upt_conv_Cons)
  have "filter (due 3 one_key) [1..<32] = []" unfolding d filter_empty_conv by simp
  then show ?thesis unfolding due_calls_def split filter_append by (simp add: d) (simp add: one_key_def)
qed

lemma rearm_round: "dtor_round rearm 3 (one_key, l) = (one_key, l @ [5])"
proof -
  have d: "(\<lambda>i. i < MINI_TSS_MAX_KEYS \<and> due 3 one_key i) = (\<lambda>i. i = 0)"
    by (auto simp: due_def one_key_def fun_eq_iff MINI_TSS_MAX_KEYS_def)
  show ?thesis
    unfolding dtor_round_def fst_conv d one_key_due
    by (simp add: rearm_def tss_set_def first_keys key_is_active_locked_def spent_def on_tcb_def store_value_def)
      (simp add: one_key_def fun_eq_iff)
qed

lemma rearm_rounds: "(dtor_round rearm 3 ^^ k) (one_key, l) = (one_key, l @ replicate k 5)"
  by (induction k arbitrary: l) (simp_all add: funpow_Suc_right rearm_round del: funpow.simps(2) add: replicate_app_Cons_same)

theorem tss_destructors_run_in_rounds_witness:
  "run_destructors rearm 3 (one_key, []) = (one_key, [5, 5, 5, 5])"
proof -
  obtain k where k: "run_destructors rearm 3 (one_key, []) = (dtor_round rearm 3 ^^ k) (one_key, [])" "k \<le> 4"
    "k < 4 \<longrightarrow> due_calls 3 (fst ((dtor_round rearm 3 ^^ k) (one_key, []))) = []"
    using tss_destructors_run_in_rounds [of rearm 3 one_key "[]"] by blast
  then have "k = 4" by (simp add: rearm_rounds one_key_due)
  moreover have "replicate 4 (5 :: u64) = [5, 5, 5, 5]" by (simp add: eval_nat_numeral)
  ultimately show ?thesis using k(1) by (simp only: rearm_rounds append_Nil)
qed

end
