(* ===== verification/Binary64.thy ===== *)
theory Binary64
  imports Prelude Complex_Main
begin

unbundle bit_operations_syntax

section \<open>The C type \<open>double\<close>\<close>

text \<open>
  The language's \<open>double\<close> on x86-64: binary64 of IEEE 754 with round to nearest, ties to even, as the
  SSE2 instructions compute it. A \<open>double\<close> is its 64 bits, as the source takes them apart with byte
  copies. Finite results are rounded from the exact quotient of two natural numbers; nothing here is
  simplified, overflow and subnormal results included. The operations on the constants of the
  source are evaluated by rewriting.
\<close>

type_synonym f64 = "64 word"

definition f64_neg :: "f64 \<Rightarrow> bool" where "f64_neg b = (2 ^ 63 \<le> unat b)"
definition f64_exp :: "f64 \<Rightarrow> nat" where "f64_exp b = unat b div 2 ^ 52 mod 2 ^ 11"
definition f64_frac :: "f64 \<Rightarrow> nat" where "f64_frac b = unat b mod 2 ^ 52"

definition f64_nan :: "f64 \<Rightarrow> bool" where "f64_nan b = (f64_exp b = 0x7ff \<and> f64_frac b \<noteq> 0)"
definition f64_inf :: "f64 \<Rightarrow> bool" where "f64_inf b = (f64_exp b = 0x7ff \<and> f64_frac b = 0)"
definition f64_finite :: "f64 \<Rightarrow> bool" where "f64_finite b = (f64_exp b \<noteq> 0x7ff)"

text \<open>A finite magnitude is \<open>f64_sig * 2 ^ f64_pow\<close>.\<close>

definition f64_sig :: "f64 \<Rightarrow> nat" where
  "f64_sig b = (if f64_exp b = 0 then f64_frac b else 2 ^ 52 + f64_frac b)"

definition f64_pow :: "f64 \<Rightarrow> int" where
  "f64_pow b = (if f64_exp b = 0 then - 1074 else int (f64_exp b) - 1075)"

definition f64_mag :: "f64 \<Rightarrow> real" where
  "f64_mag b = real (f64_sig b) * 2 powi f64_pow b"

definition f64_val :: "f64 \<Rightarrow> real" where
  "f64_val b = (if f64_neg b then - f64_mag b else f64_mag b)"

definition f64_make :: "bool \<Rightarrow> nat \<Rightarrow> f64" where
  "f64_make neg n = of_nat ((if neg then 2 ^ 63 else 0) + n)"

subsection \<open>Rounding\<close>

fun bits_of :: "nat \<Rightarrow> nat" where
  "bits_of n = (if n = 0 then 0 else Suc (bits_of (n div 2)))"

declare bits_of.simps [simp del]

definition pow_up :: "int \<Rightarrow> nat" where "pow_up k = 2 ^ nat k"

text \<open>Nearest even of the quotient of two numbers.\<close>

definition round_div :: "nat \<Rightarrow> nat \<Rightarrow> nat" where
  "round_div n d =
     (let m = n div d; r = n mod d in if d < 2 * r \<or> d = 2 * r \<and> odd m then m + 1 else m)"

text \<open>The exponent of the leading bit of \<open>p / q\<close>.\<close>

definition lead_exp :: "nat \<Rightarrow> nat \<Rightarrow> int" where
  "lead_exp p q =
     (let e = int (bits_of p) - int (bits_of q)
      in if q * pow_up e \<le> p * pow_up (- e) then e else e - 1)"

definition f64_round :: "bool \<Rightarrow> nat \<Rightarrow> nat \<Rightarrow> f64" where
  "f64_round neg p q =
     (if p = 0 then f64_make neg 0
      else let e = max (lead_exp p q) (- 1022); k = e - 52;
               m = round_div (p * pow_up (- k)) (q * pow_up k);
               n = nat (e + 1022) * 2 ^ 52 + m
           in f64_make neg (min n (0x7ff * 2 ^ 52)))"

subsection \<open>Operations\<close>

definition f64_minus :: "f64 \<Rightarrow> f64" where "f64_minus b = b + 0x8000000000000000"

definition f64_default_nan :: f64 where "f64_default_nan = 0xfff8000000000000"
definition f64_infinity :: "bool \<Rightarrow> f64" where "f64_infinity neg = f64_make neg (0x7ff * 2 ^ 52)"

definition f64_of_nat :: "nat \<Rightarrow> f64" where "f64_of_nat n = f64_round False n 1"

text \<open>A decimal literal \<open>d * 10 ^ e\<close>.\<close>

definition f64_lit :: "nat \<Rightarrow> int \<Rightarrow> f64" where
  "f64_lit d e = f64_round False (d * 10 ^ nat e) (10 ^ nat (- e))"

definition f64_mul :: "f64 \<Rightarrow> f64 \<Rightarrow> f64" where
  "f64_mul a b =
     (let neg = (f64_neg a \<noteq> f64_neg b); k = f64_pow a + f64_pow b
      in if f64_nan a then a else if f64_nan b then b
         else if f64_inf a \<or> f64_inf b then
           (if f64_finite a \<and> f64_sig a = 0 \<or> f64_finite b \<and> f64_sig b = 0 then f64_default_nan else f64_infinity neg)
         else f64_round neg (f64_sig a * f64_sig b * pow_up k) (pow_up (- k)))"

definition f64_div :: "f64 \<Rightarrow> f64 \<Rightarrow> f64" where
  "f64_div a b =
     (let neg = (f64_neg a \<noteq> f64_neg b); k = f64_pow a - f64_pow b
      in if f64_nan a then a else if f64_nan b then b
         else if f64_inf a then (if f64_inf b then f64_default_nan else f64_infinity neg)
         else if f64_inf b then f64_make neg 0
         else if f64_sig b = 0 then (if f64_sig a = 0 then f64_default_nan else f64_infinity neg)
         else f64_round neg (f64_sig a * pow_up k) (f64_sig b * pow_up (- k)))"

text \<open>The exact value of a finite number over a common power of two.\<close>

definition f64_scaled :: "int \<Rightarrow> f64 \<Rightarrow> int" where
  "f64_scaled k b = (if f64_neg b then - 1 else 1) * int (f64_sig b * pow_up (f64_pow b - k))"

definition f64_sub :: "f64 \<Rightarrow> f64 \<Rightarrow> f64" where
  "f64_sub a b =
     (if f64_nan a then a else if f64_nan b then b
      else if f64_inf a then (if f64_inf b \<and> f64_neg a = f64_neg b then f64_default_nan else a)
      else if f64_inf b then f64_minus b
      else let k = min (f64_pow a) (f64_pow b); d = f64_scaled k a - f64_scaled k b
           in if d = 0 then f64_make (f64_neg a \<and> \<not> f64_neg b) 0
              else f64_round (d < 0) (nat \<bar>d\<bar> * pow_up k) (pow_up (- k)))"

text \<open>\<open>a < b\<close>; false with a NaN.\<close>

definition f64_less :: "f64 \<Rightarrow> f64 \<Rightarrow> bool" where
  "f64_less a b =
     (if f64_nan a \<or> f64_nan b then False
      else if f64_inf a \<or> f64_inf b then
        (if f64_inf a then f64_neg a \<and> \<not> (f64_inf b \<and> f64_neg b) else \<not> f64_neg b)
      else let k = min (f64_pow a) (f64_pow b) in f64_scaled k a < f64_scaled k b)"

definition f64_eq :: "f64 \<Rightarrow> f64 \<Rightarrow> bool" where
  "f64_eq a b =
     (if f64_nan a \<or> f64_nan b then False
      else a = b \<or> f64_finite a \<and> f64_sig a = 0 \<and> f64_finite b \<and> f64_sig b = 0)"

text \<open>\<open>(unsigned long long)a\<close> for \<open>0 \<le> a < 2 ^ 64\<close>: truncation.\<close>

definition f64_to_u64 :: "f64 \<Rightarrow> u64" where
  "f64_to_u64 a = of_nat (f64_sig a * pow_up (f64_pow a) div pow_up (- f64_pow a))"

subsection \<open>Evaluation\<close>

lemma bits_of_numeral:
  "bits_of 0 = 0" "bits_of 1 = 1" "bits_of (Suc 0) = 1" "bits_of (numeral Num.One) = 1"
  "bits_of (numeral (Num.Bit0 n)) = bits_of (numeral n) + 1"
  "bits_of (numeral (Num.Bit1 n)) = bits_of (numeral n) + 1"
  by (simp_all add: bits_of.simps [of 0] bits_of.simps [of "Suc 0"] bits_of.simps [of "numeral (Num.Bit0 n)"]
      bits_of.simps [of "numeral (Num.Bit1 n)"])

lemmas f64_eval = bits_of_numeral pow_up_def round_div_def lead_exp_def f64_round_def f64_make_def f64_of_nat_def
  f64_lit_def f64_mul_def f64_div_def f64_less_def f64_scaled_def f64_sub_def f64_neg_def f64_exp_def f64_frac_def
  f64_nan_def f64_inf_def f64_finite_def f64_sig_def f64_pow_def f64_to_u64_def f64_minus_def f64_infinity_def f64_eq_def Let_def

text \<open>Rounding a decimal literal, a quotient, and the ends of the normal range.\<close>

lemma f64_samples:
  "f64_lit 1 (- 1) = 0x3FB999999999999A"
  "f64_div 0x3FF0000000000000 0x4008000000000000 = 0x3FD5555555555555"
  "f64_lit 22250738585072014 (- 324) = 0x0010000000000000"
  "f64_lit 17976931348623157 292 = 0x7FEFFFFFFFFFFFFF"
  by (simp_all add: f64_eval cong: let_weak_cong)

end
