(* ===== verification/Float_Parse.thy ===== *)
theory Float_Parse
  imports Binary64 Strconv
begin

section \<open>Text to floating point (\<open>internal/float_parse.c\<close>, \<open>stdlib/strtod.c\<close>)\<close>

text \<open>
  The one reader of floating numbers behind \<open>strtod\<close> and \<open>scanf\<close>. The caller's source of characters is a
  record of operations on a context, as \<open>struct mini_float_source\<close> is; the context, the characters still
  allowed, \<open>errno\<close> and the result are one state. Counters keep their C width. The loops over the input
  end where the source ends, so they are partial functions. Scaling computes in \<open>Binary64\<close>, step by
  step as the code does.
\<close>

definition MINI_FLOAT_EOF :: int where "MINI_FLOAT_EOF = - 1"
definition MINI_FLOAT_DECIMAL_DIGITS :: u32 where "MINI_FLOAT_DECIMAL_DIGITS = 18"
definition MINI_FLOAT_HEX_DIGITS :: u32 where "MINI_FLOAT_HEX_DIGITS = 15"
definition MINI_FLOAT_EXPONENT_CAP :: u64 where "MINI_FLOAT_EXPONENT_CAP = 10000000000"
definition MINI_FLOAT_DOUBLE_MAX :: f64 where "MINI_FLOAT_DOUBLE_MAX = f64_lit 17976931348623157 292"
definition MINI_FLOAT_DOUBLE_MIN_NORMAL :: f64 where
  "MINI_FLOAT_DOUBLE_MIN_NORMAL = f64_lit 22250738585072014 (- 324)"
definition MINI_FLOAT_PARSE_WIDTH_MAX :: u64 where "MINI_FLOAT_PARSE_WIDTH_MAX = - 1"

datatype parse_policy = PARSE_STRTO | PARSE_SCAN

datatype parse_status = MATCH_FAIL | SUCCESS | INPUT_FAIL | RANGE_FAIL

text \<open>\<open>mark\<close> and \<open>restore\<close> may both be absent; a checkpoint is an address.\<close>

record 'c float_source =
  src_get :: "'c \<Rightarrow> int \<times> 'c"
  src_unget :: "int \<Rightarrow> 'c \<Rightarrow> int \<times> 'c"
  src_mark :: "('c \<Rightarrow> nat) option"
  src_restore :: "(nat \<Rightarrow> 'c \<Rightarrow> 'c) option"

record 'c reader =
  rd_context :: 'c
  remaining :: u64
  rd_errno :: int
  rd_result :: f64

subsection \<open>Characters\<close>

definition ascii_space :: "int \<Rightarrow> bool" where
  "ascii_space c = (c = ch CHR '' '' \<or> c = 9 \<or> c = 10 \<or> c = 11 \<or> c = 12 \<or> c = 13)"

definition ascii_digit :: "int \<Rightarrow> bool" where
  "ascii_digit c = (ch CHR ''0'' \<le> c \<and> c \<le> ch CHR ''9'')"

definition ascii_hex :: "int \<Rightarrow> int" where
  "ascii_hex c =
     (if ch CHR ''0'' \<le> c \<and> c \<le> ch CHR ''9'' then c - ch CHR ''0''
      else if ch CHR ''a'' \<le> c \<and> c \<le> ch CHR ''f'' then c - ch CHR ''a'' + 10
      else if ch CHR ''A'' \<le> c \<and> c \<le> ch CHR ''F'' then c - ch CHR ''A'' + 10
      else - 1)"

definition ascii_equal_ci :: "int \<Rightarrow> int \<Rightarrow> bool" where
  "ascii_equal_ci c lower = (c = lower \<or> c = lower - (ch CHR ''a'' - ch CHR ''A''))"

definition nan_payload_char :: "int \<Rightarrow> bool" where
  "nan_payload_char c =
     (ascii_digit c \<or> ch CHR ''a'' \<le> c \<and> c \<le> ch CHR ''z'' \<or>
      ch CHR ''A'' \<le> c \<and> c \<le> ch CHR ''Z'' \<or> c = ch CHR ''_'')"

subsection \<open>The reader\<close>

definition reader_get :: "'c float_source \<Rightarrow> 'c reader \<Rightarrow> int \<times> 'c reader" where
  "reader_get S r =
     (if remaining r = 0 then (MINI_FLOAT_EOF, r)
      else let (c, x) = src_get S (rd_context r)
        in (c, if c \<noteq> MINI_FLOAT_EOF then r\<lparr>rd_context := x, remaining := remaining r - 1\<rparr> else r\<lparr>rd_context := x\<rparr>))"

definition reader_unget :: "'c float_source \<Rightarrow> int \<Rightarrow> 'c reader \<Rightarrow> int \<times> 'c reader" where
  "reader_unget S c r =
     (if c = MINI_FLOAT_EOF then (MINI_FLOAT_EOF, r)
      else let (q, x) = src_unget S c (rd_context r)
        in if q = MINI_FLOAT_EOF then (MINI_FLOAT_EOF, r\<lparr>rd_context := x\<rparr>)
           else (c, r\<lparr>rd_context := x, remaining := remaining r + 1\<rparr>))"

text \<open>\<open>if (c != EOF && reader_unget(reader, c) == EOF) return INPUT_FAIL;\<close> before a status.\<close>

definition unget_then :: "'c float_source \<Rightarrow> int \<Rightarrow> parse_status \<Rightarrow> 'c reader \<Rightarrow> parse_status \<times> 'c reader" where
  "unget_then S c st r =
     (if c = MINI_FLOAT_EOF then (st, r)
      else let (q, r') = reader_unget S c r in (if q = MINI_FLOAT_EOF then INPUT_FAIL else st, r'))"

partial_function (option) skip_leading_space :: "'c float_source \<Rightarrow> 'c \<Rightarrow> (int \<times> 'c) option" where
  "skip_leading_space S x =
     (let (c, x1) = src_get S x
      in if c = MINI_FLOAT_EOF then Some (0, x1)
         else if \<not> ascii_space c then
           (let (q, x2) = src_unget S c x1 in Some (if q = MINI_FLOAT_EOF then (- 1, x2) else (1, x2)))
         else skip_leading_space S x1)"

definition has_checkpoints :: "'c float_source \<Rightarrow> bool" where
  "has_checkpoints S = (src_mark S \<noteq> None \<and> src_restore S \<noteq> None)"

text \<open>Go back to a checkpoint and what was allowed there.\<close>

definition go_back :: "'c float_source \<Rightarrow> nat \<Rightarrow> u64 \<Rightarrow> 'c reader \<Rightarrow> 'c reader" where
  "go_back S checkpoint saved r = r\<lparr>rd_context := the (src_restore S) checkpoint (rd_context r), remaining := saved\<rparr>"

text \<open>Where the policy allows it: put the character back, mark, take it again. The checkpoint is 0
  without one.\<close>

definition set_checkpoint :: "'c float_source \<Rightarrow> parse_policy \<Rightarrow> int \<Rightarrow> 'c reader \<Rightarrow> (nat \<times> u64 \<times> 'c reader) option" where
  "set_checkpoint S policy c r =
     (if policy = PARSE_STRTO \<and> has_checkpoints S then
        let (q, r1) = reader_unget S c r
        in if q = MINI_FLOAT_EOF then None
           else Some (the (src_mark S) (rd_context r1), remaining r1, snd (reader_get S r1))
      else Some (0, remaining r, r))"

subsection \<open>Digits\<close>

record digits_acc =
  significand :: u64
  stored_digits :: u32
  fractional_digits :: u64
  discarded_digits :: u64
  significant_started :: bool
  first_discarded :: int
  discarded_nonzero :: bool

definition acc0 :: digits_acc where
  "acc0 = \<lparr>significand = 0, stored_digits = 0, fractional_digits = 0, discarded_digits = 0,
     significant_started = False, first_discarded = - 1, discarded_nonzero = False\<rparr>"

definition accumulate_digit :: "int \<Rightarrow> bool \<Rightarrow> u32 \<Rightarrow> u64 \<Rightarrow> digits_acc \<Rightarrow> digits_acc" where
  "accumulate_digit digit after_point digit_limit base a0 =
     (let a = (if after_point then a0\<lparr>fractional_digits := fractional_digits a0 + 1\<rparr> else a0)
      in if \<not> significant_started a \<and> digit = 0 then a
         else let b = a\<lparr>significant_started := True\<rparr>
           in if stored_digits b < digit_limit then
                b\<lparr>significand := significand b * base + word_of_int digit, stored_digits := stored_digits b + 1\<rparr>
              else let d = b\<lparr>discarded_digits := discarded_digits b + 1\<rparr>
                in if first_discarded d < 0 then d\<lparr>first_discarded := digit\<rparr>
                   else if digit \<noteq> 0 then d\<lparr>discarded_nonzero := True\<rparr> else d)"

definition round_significand :: "int \<Rightarrow> digits_acc \<Rightarrow> u64" where
  "round_significand base a =
     (let half = base div 2
      in if half < first_discarded a \<or>
            first_discarded a = half \<and> (discarded_nonzero a \<or> odd (significand a))
         then significand a + 1 else significand a)"

definition accumulate_exponent :: "int \<Rightarrow> u64 \<times> bool \<Rightarrow> u64 \<times> bool" where
  "accumulate_exponent digit = (\<lambda>(exponent, overflow).
     if overflow then (exponent, True)
     else if (MINI_FLOAT_EXPONENT_CAP - word_of_int digit) div 10 < exponent then (exponent, True)
     else (exponent * 10 + word_of_int digit, False))"

subsection \<open>Scaling\<close>

definition signed_infinity :: "bool \<Rightarrow> f64" where
  "signed_infinity negative = (if negative then 0xfff0000000000000 else 0x7ff0000000000000)"

definition signed_nan :: "bool \<Rightarrow> f64" where
  "signed_nan negative = (if negative then 0xfff8000000000000 else 0x7ff8000000000000)"

definition signed_zero :: "bool \<Rightarrow> f64" where
  "signed_zero negative = (if negative then f64_minus 0 else 0)"

definition range_fail :: "f64 \<Rightarrow> 'c reader \<Rightarrow> parse_status \<times> 'c reader" where
  "range_fail v r = (RANGE_FAIL, r\<lparr>rd_result := v, rd_errno := ERANGE\<rparr>)"

definition finish_range :: "f64 \<Rightarrow> 'c reader \<Rightarrow> parse_status \<times> 'c reader" where
  "finish_range value r =
     (let magnitude = (if f64_less value 0 then f64_minus value else value); r1 = r\<lparr>rd_result := value\<rparr>
      in if \<not> f64_eq magnitude 0 \<and> f64_less magnitude MINI_FLOAT_DOUBLE_MIN_NORMAL
         then (RANGE_FAIL, r1\<lparr>rd_errno := ERANGE\<rparr>) else (SUCCESS, r1))"

definition decimal_powers :: "f64 list" where
  "decimal_powers = map (f64_lit 1) [1, 2, 4, 8, 16, 32, 64, 128, 256]"

definition binary_powers :: "f64 list" where
  "binary_powers = [f64_lit 2 0, f64_lit 4 0, f64_lit 16 0, f64_lit 256 0, f64_lit 65536 0,
     f64_lit 4294967296 0, f64_lit 18446744073709551616 0, f64_lit 34028236692093846 22,
     f64_lit 1157920892373162 62, f64_lit 13407807929942597 138]"

text \<open>The loops over the bits of the exponent's magnitude: \<^term>\<open>Inl True\<close> is an overflow, \<^term>\<open>Inl False\<close> an exponent
  past the table.\<close>

fun scale_decimal_loop :: "bool \<Rightarrow> nat \<Rightarrow> nat \<Rightarrow> f64 \<Rightarrow> bool + f64" where
  "scale_decimal_loop up index magnitude value =
     (if magnitude = 0 then Inr value
      else if odd magnitude then
        if up then
          if f64_less (f64_div MINI_FLOAT_DOUBLE_MAX (decimal_powers ! index)) value then Inl True
          else scale_decimal_loop up (index + 1) (magnitude div 2) (f64_mul value (decimal_powers ! index))
        else scale_decimal_loop up (index + 1) (magnitude div 2) (f64_div value (decimal_powers ! index))
      else scale_decimal_loop up (index + 1) (magnitude div 2) value)"

fun scale_binary_loop :: "bool \<Rightarrow> nat \<Rightarrow> nat \<Rightarrow> f64 \<Rightarrow> bool + f64" where
  "scale_binary_loop up index magnitude value =
     (if magnitude = 0 then Inr value
      else if odd magnitude then
        if length binary_powers \<le> index then Inl False
        else if up then
          if f64_less (f64_div MINI_FLOAT_DOUBLE_MAX (binary_powers ! index)) value then Inl True
          else scale_binary_loop up (index + 1) (magnitude div 2) (f64_mul value (binary_powers ! index))
        else scale_binary_loop up (index + 1) (magnitude div 2) (f64_div value (binary_powers ! index))
      else scale_binary_loop up (index + 1) (magnitude div 2) value)"

declare scale_decimal_loop.simps [simp del] scale_binary_loop.simps [simp del]

text \<open>\<open>(double)(long long)significand\<close>: digits are few enough that the conversion does not change it.\<close>

definition f64_of_signed :: "u64 \<Rightarrow> f64" where
  "f64_of_signed w = f64_round (sint w < 0) (nat \<bar>sint w\<bar>) 1"

definition finish_scale :: "bool \<Rightarrow> f64 \<Rightarrow> 'c reader \<Rightarrow> parse_status \<times> 'c reader" where
  "finish_scale negative value r =
     (if f64_eq value 0 then range_fail (if negative then f64_minus value else value) r
      else finish_range (if negative then f64_minus value else value) r)"

definition scale_decimal :: "u64 \<Rightarrow> int \<Rightarrow> bool \<Rightarrow> 'c reader \<Rightarrow> parse_status \<times> 'c reader" where
  "scale_decimal sig exponent negative r =
     (if sig = 0 then (SUCCESS, r\<lparr>rd_result := signed_zero negative\<rparr>)
      else if 511 < exponent then range_fail (signed_infinity negative) r
      else if exponent < - 511 then range_fail (signed_zero negative) r
      else case scale_decimal_loop (0 < exponent) 0 (nat \<bar>exponent\<bar>) (f64_of_signed sig) of
        Inl _ \<Rightarrow> range_fail (signed_infinity negative) r
      | Inr value \<Rightarrow> finish_scale negative value r)"

definition scale_binary :: "u64 \<Rightarrow> int \<Rightarrow> bool \<Rightarrow> 'c reader \<Rightarrow> parse_status \<times> 'c reader" where
  "scale_binary sig exponent negative r =
     (if sig = 0 then (SUCCESS, r\<lparr>rd_result := signed_zero negative\<rparr>)
      else if 2047 < exponent then range_fail (signed_infinity negative) r
      else if exponent < - 2047 then range_fail (signed_zero negative) r
      else case scale_binary_loop (0 < exponent) 0 (nat \<bar>exponent\<bar>) (f64_of_signed sig) of
        Inl True \<Rightarrow> range_fail (signed_infinity negative) r
      | Inl False \<Rightarrow> range_fail (if 0 < exponent then signed_infinity negative else signed_zero negative) r
      | Inr value \<Rightarrow> finish_scale negative value r)"

subsection \<open>Exponents\<close>

text \<open>The digits from \<open>c\<close> on: how many, the exponent so far, and the character that ended them.\<close>

partial_function (option) exponent_digits ::
  "'c float_source \<Rightarrow> int \<Rightarrow> u32 \<Rightarrow> u64 \<times> bool \<Rightarrow> 'c reader \<Rightarrow> (int \<times> u32 \<times> (u64 \<times> bool) \<times> 'c reader) option" where
  "exponent_digits S c digits acc r =
     (if ascii_digit c then
        (let acc' = accumulate_exponent (c - ch CHR ''0'') acc; (c', r') = reader_get S r
         in if c' = MINI_FLOAT_EOF then Some (c', digits + 1, acc', r') else exponent_digits S c' (digits + 1) acc' r')
      else Some (c, digits, acc, r))"

text \<open>The result: a status, whether the exponent is negative, its value, whether it overflowed.\<close>

definition parse_exponent ::
  "'c float_source \<Rightarrow> int \<Rightarrow> parse_policy \<Rightarrow> 'c reader \<Rightarrow> ((parse_status \<times> bool \<times> u64 \<times> bool) \<times> 'c reader) option" where
  "parse_exponent S marker policy r0 =
     (case set_checkpoint S policy marker r0 of
        None \<Rightarrow> Some ((INPUT_FAIL, False, 0, False), snd (reader_unget S marker r0))
      | Some (checkpoint, saved, r1) \<Rightarrow>
          let (c1, r2) = reader_get S r1
          in if c1 = MINI_FLOAT_EOF then
               Some (if checkpoint \<noteq> 0 then ((SUCCESS, False, 0, False), go_back S checkpoint saved r2)
                     else ((MATCH_FAIL, False, 0, False), r2))
             else
               let signed = (c1 = ch CHR ''+'' \<or> c1 = ch CHR ''-'');
                   negative = (c1 = ch CHR ''-'');
                   (c2, r3) = (if signed then reader_get S r2 else (c1, r2))
               in if signed \<and> c2 = MINI_FLOAT_EOF then
                    Some (if checkpoint \<noteq> 0 then ((SUCCESS, negative, 0, False), go_back S checkpoint saved r3)
                          else ((MATCH_FAIL, negative, 0, False), r3))
                  else map_option (\<lambda>(c3, digits, (value, overflow), r4).
                      if digits = 0 then
                        if checkpoint \<noteq> 0 then ((SUCCESS, negative, value, overflow), go_back S checkpoint saved r4)
                        else (let (st, r5) = unget_then S c3 MATCH_FAIL r4 in ((st, negative, value, overflow), r5))
                      else (let (st, r5) = unget_then S c3 SUCCESS r4 in ((st, negative, value, overflow), r5)))
                    (exponent_digits S c2 0 (0, False) r3))"

subsection \<open>Numbers\<close>

text \<open>The digits and the point: the character that ended them, how many digits, their record. The
  decimal loop stops at the end of the input after taking a character, the hexadecimal one tests for
  it first; both stop there.\<close>

partial_function (option) number_loop ::
  "'c float_source \<Rightarrow> (int \<Rightarrow> int) \<Rightarrow> u32 \<Rightarrow> u64 \<Rightarrow> int \<Rightarrow> bool \<Rightarrow> u32 \<Rightarrow> digits_acc \<Rightarrow> 'c reader \<Rightarrow>
     (int \<times> u32 \<times> digits_acc \<times> 'c reader) option" where
  "number_loop S digit_of digit_limit base c after_point digits a r =
     (if c = MINI_FLOAT_EOF then Some (c, digits, a, r)
      else if 0 \<le> digit_of c then
        (let (c', r') = reader_get S r
         in number_loop S digit_of digit_limit base c' after_point (digits + 1)
              (accumulate_digit (digit_of c) after_point digit_limit base a) r')
      else if c = ch CHR ''.'' \<and> \<not> after_point then
        (let (c', r') = reader_get S r in number_loop S digit_of digit_limit base c' True digits a r')
      else Some (c, digits, a, r))"

definition decimal_digit :: "int \<Rightarrow> int" where
  "decimal_digit c = (if ascii_digit c then c - ch CHR ''0'' else - 1)"

text \<open>After the digits: the exponent, the rounding of the discarded digits, the scaling. \<open>weight\<close> is the power of
  the base's digits in the exponent's base, \<open>scale\<close> the routine for it.\<close>

definition finish_number ::
  "'c float_source \<Rightarrow> parse_policy \<Rightarrow> bool \<Rightarrow> bool \<Rightarrow> int \<Rightarrow> u64 \<Rightarrow>
     (u64 \<Rightarrow> int \<Rightarrow> bool \<Rightarrow> 'c reader \<Rightarrow> parse_status \<times> 'c reader) \<Rightarrow> int set \<Rightarrow>
     int \<times> u32 \<times> digits_acc \<times> 'c reader \<Rightarrow> (parse_status \<times> 'c reader) option" where
  "finish_number S policy negative convert base weight scale markers = (\<lambda>(c, digits, a, r).
     if digits = 0 then Some (unget_then S c MATCH_FAIL r)
     else Option.bind
       (if c \<in> markers then parse_exponent S c policy r
        else Some (let (st, r') = unget_then S c SUCCESS r in ((st, False, 0, False), r')))
       (\<lambda>((status, exponent_negative, explicit_exponent, exponent_overflow), r').
        Some (if status = MATCH_FAIL \<or> status = INPUT_FAIL then (status, r')
              else if \<not> convert then (SUCCESS, r')
              else let sig = round_significand base a
                in if sig = 0 then (SUCCESS, r'\<lparr>rd_result := signed_zero negative\<rparr>)
                   else if exponent_overflow then
                     range_fail (if exponent_negative then signed_zero negative else signed_infinity negative) r'
                   else let exponent = sint (discarded_digits a * weight) - sint (fractional_digits a * weight);
                            exponent = (if exponent_negative then exponent - sint explicit_exponent
                                        else exponent + sint explicit_exponent)
                     in scale sig exponent negative r')))"

definition parse_decimal :: "'c float_source \<Rightarrow> int \<Rightarrow> parse_policy \<Rightarrow> bool \<Rightarrow> bool \<Rightarrow> 'c reader \<Rightarrow> (parse_status \<times> 'c reader) option" where
  "parse_decimal S first policy negative convert r =
     Option.bind (number_loop S decimal_digit MINI_FLOAT_DECIMAL_DIGITS 10 first False 0 acc0 r)
       (finish_number S policy negative convert 10 1 scale_decimal {ch CHR ''e'', ch CHR ''E''})"

definition parse_hex :: "'c float_source \<Rightarrow> parse_policy \<Rightarrow> bool \<Rightarrow> bool \<Rightarrow> 'c reader \<Rightarrow> (parse_status \<times> 'c reader) option" where
  "parse_hex S policy negative convert r =
     (let (c, r1) = reader_get S r
      in Option.bind (number_loop S ascii_hex MINI_FLOAT_HEX_DIGITS 16 c False 0 acc0 r1)
       (finish_number S policy negative convert 16 4 scale_binary {ch CHR ''p'', ch CHR ''P''}))"

subsection \<open>Infinities and NaNs\<close>

fun match_required :: "'c float_source \<Rightarrow> int list \<Rightarrow> 'c reader \<Rightarrow> parse_status \<times> 'c reader" where
  "match_required S [] r = (SUCCESS, r)"
| "match_required S (t # ts) r =
     (let (c, r1) = reader_get S r
      in if c = MINI_FLOAT_EOF then (MATCH_FAIL, r1)
         else if \<not> ascii_equal_ci c t then unget_then S c MATCH_FAIL r1
         else match_required S ts r1)"

definition text_nf :: "int list" where "text_nf = [ch CHR ''n'', ch CHR ''f'']"
definition text_nity :: "int list" where "text_nity = [ch CHR ''n'', ch CHR ''i'', ch CHR ''t'', ch CHR ''y'']"
definition text_an :: "int list" where "text_an = [ch CHR ''a'', ch CHR ''n'']"

definition give :: "bool \<Rightarrow> f64 \<Rightarrow> 'c reader \<Rightarrow> parse_status \<times> 'c reader" where
  "give convert v r = (SUCCESS, if convert then r\<lparr>rd_result := v\<rparr> else r)"

definition parse_infinity :: "'c float_source \<Rightarrow> parse_policy \<Rightarrow> bool \<Rightarrow> bool \<Rightarrow> 'c reader \<Rightarrow> parse_status \<times> 'c reader" where
  "parse_infinity S policy negative convert r =
     (let inf = signed_infinity negative; (status, r1) = match_required S text_nf r
      in if status \<noteq> SUCCESS then (status, r1)
         else let (c, r2) = reader_get S r1
           in if c = MINI_FLOAT_EOF then give convert inf r2
              else if ascii_equal_ci c (ch CHR ''i'') then
                (case set_checkpoint S policy c r2 of
                   None \<Rightarrow> (INPUT_FAIL, snd (reader_unget S c r2))
                 | Some (checkpoint, saved, r3) \<Rightarrow>
                     let (status, r4) = match_required S text_nity r3
                     in if status \<noteq> SUCCESS then
                          if checkpoint \<noteq> 0 then give convert inf (go_back S checkpoint saved r4) else (status, r4)
                        else give convert inf r4)
              else let (q, r3) = reader_unget S c r2
                in if q = MINI_FLOAT_EOF then (INPUT_FAIL, r3) else give convert inf r3)"

partial_function (option) payload_loop :: "'c float_source \<Rightarrow> int \<Rightarrow> 'c reader \<Rightarrow> (int \<times> 'c reader) option" where
  "payload_loop S c r =
     (if c \<noteq> MINI_FLOAT_EOF \<and> nan_payload_char c then (let (c', r') = reader_get S r in payload_loop S c' r')
      else Some (c, r))"

definition parse_nan :: "'c float_source \<Rightarrow> parse_policy \<Rightarrow> bool \<Rightarrow> bool \<Rightarrow> 'c reader \<Rightarrow> (parse_status \<times> 'c reader) option" where
  "parse_nan S policy negative convert r =
     (let nan = signed_nan negative; (status, r1) = match_required S text_an r
      in if status \<noteq> SUCCESS then Some (status, r1)
         else let (c, r2) = reader_get S r1
           in if c = MINI_FLOAT_EOF then Some (give convert nan r2)
              else if c = ch CHR ''('' then
                (case set_checkpoint S policy c r2 of
                   None \<Rightarrow> Some (INPUT_FAIL, snd (reader_unget S c r2))
                 | Some (checkpoint, saved, r3) \<Rightarrow>
                     let (c1, r4) = reader_get S r3
                     in map_option (\<lambda>(c2, r5).
                          if c2 \<noteq> ch CHR '')'' then
                            if checkpoint \<noteq> 0 then give convert nan (go_back S checkpoint saved r5)
                            else unget_then S c2 MATCH_FAIL r5
                          else give convert nan r5)
                        (payload_loop S c1 r4))
              else let (q, r3) = reader_unget S c r2
                in Some (if q = MINI_FLOAT_EOF then (INPUT_FAIL, r3) else give convert nan r3))"

subsection \<open>The engine\<close>

definition float_parse ::
  "'c float_source \<Rightarrow> u64 \<Rightarrow> bool \<Rightarrow> parse_policy \<Rightarrow> bool \<Rightarrow> 'c reader \<Rightarrow> (parse_status \<times> 'c reader) option" where
  "float_parse S width skip policy convert r0 =
     Option.bind (if skip then skip_leading_space S (rd_context r0) else Some (1, rd_context r0)) (\<lambda>(skipped, x).
     let r1 = r0\<lparr>rd_context := x\<rparr>
     in if skipped < 0 then Some (INPUT_FAIL, r1)
        else let (c0, r2) = reader_get S (r1\<lparr>remaining := width\<rparr>)
          in if c0 = MINI_FLOAT_EOF then Some (INPUT_FAIL, r2)
             else let signed = (c0 = ch CHR ''+'' \<or> c0 = ch CHR ''-''); negative = (c0 = ch CHR ''-'');
                      (c, r3) = (if signed then reader_get S r2 else (c0, r2))
               in if signed \<and> c = MINI_FLOAT_EOF then Some (MATCH_FAIL, r3)
                  else if ascii_equal_ci c (ch CHR ''i'') then Some (parse_infinity S policy negative convert r3)
                  else if ascii_equal_ci c (ch CHR ''n'') then parse_nan S policy negative convert r3
                  else if c = ch CHR ''0'' then
                    let checkpoint = (if policy = PARSE_STRTO \<and> has_checkpoints S then the (src_mark S) (rd_context r3) else 0);
                        saved = remaining r3; (nxt, r4) = reader_get S r3
                    in if nxt = ch CHR ''x'' \<or> nxt = ch CHR ''X'' then
                         map_option (\<lambda>(status, r5).
                           if status \<noteq> MATCH_FAIL \<or> policy = PARSE_SCAN then (status, r5)
                           else if checkpoint \<noteq> 0 then give convert (signed_zero negative) (go_back S checkpoint saved r5)
                           else (status, r5))
                           (parse_hex S policy negative convert r4)
                       else if nxt \<noteq> MINI_FLOAT_EOF then
                         (let (q, r5) = reader_unget S nxt r4
                          in if q = MINI_FLOAT_EOF then Some (INPUT_FAIL, r5)
                             else parse_decimal S c policy negative convert r5)
                       else parse_decimal S c policy negative convert r4
                  else parse_decimal S c policy negative convert r3)"

subsection \<open>Strings\<close>

text \<open>A string as a source: the context is the cursor.\<close>

definition string_get :: "mem \<Rightarrow> addr \<Rightarrow> int \<times> addr" where
  "string_get m p = (if m p = 0 then (- 1, p) else (uint (m p), p + 1))"

definition string_unget :: "mem \<Rightarrow> addr \<Rightarrow> int \<Rightarrow> addr \<Rightarrow> int \<times> addr" where
  "string_unget m start c p =
     (if c = - 1 \<or> p = start \<or> m (p - 1) \<noteq> uchar c then (- 1, p) else (c, p - 1))"

definition string_source :: "mem \<Rightarrow> addr \<Rightarrow> addr float_source" where
  "string_source m start =
     \<lparr>src_get = string_get m, src_unget = string_unget m start,
      src_mark = Some (\<lambda>p. p), src_restore = Some (\<lambda>mark p. mark)\<rparr>"

text \<open>The number, where \<open>*endptr\<close> points afterwards (if it is wanted), and \<open>errno\<close>.\<close>

record strtod_result =
  sd_value :: f64
  sd_end :: "addr option"
  sd_errno :: int

definition parse_string :: "mem \<Rightarrow> addr \<Rightarrow> bool \<Rightarrow> int \<Rightarrow> (parse_status \<times> strtod_result) option" where
  "parse_string m nptr endptr errno =
     map_option (\<lambda>(status, r).
        if status = MATCH_FAIL \<or> status = INPUT_FAIL then
          (status, \<lparr>sd_value = 0, sd_end = (if endptr then Some nptr else None), sd_errno = rd_errno r\<rparr>)
        else (status, \<lparr>sd_value = rd_result r, sd_end = (if endptr then Some (rd_context r) else None), sd_errno = rd_errno r\<rparr>))
       (float_parse (string_source m nptr) MINI_FLOAT_PARSE_WIDTH_MAX True PARSE_STRTO True
          \<lparr>rd_context = nptr, remaining = 0, rd_errno = errno, rd_result = 0\<rparr>)"

definition strtod :: "mem \<Rightarrow> addr \<Rightarrow> bool \<Rightarrow> int \<Rightarrow> strtod_result option" where
  "strtod m nptr endptr errno = map_option snd (parse_string m nptr endptr errno)"


subsection \<open>Reading a string\<close>

text \<open>The reader of a string is determined by its position: the width counts down from the position where
  the number starts.\<close>

definition reader_at :: "addr \<Rightarrow> addr reader \<Rightarrow> addr \<Rightarrow> addr reader" where
  "reader_at q r p = r\<lparr>rd_context := p, remaining := - 1 - of_nat (p - q)\<rparr>"

definition char_at :: "mem \<Rightarrow> addr \<Rightarrow> int" where
  "char_at m p = (if m p = 0 then - 1 else uint (m p))"

definition past :: "mem \<Rightarrow> addr \<Rightarrow> addr" where
  "past m p = (if m p = 0 then p else p + 1)"

lemma reader_at_sel [simp]:
  "rd_context (reader_at q r p) = p" "rd_errno (reader_at q r p) = rd_errno r" "rd_result (reader_at q r p) = rd_result r"
  by (simp_all add: reader_at_def)

lemma byte_not_eof: "uint (b :: byte) \<noteq> - 1"
proof -
  have "0 \<le> uint b" by simp
  then show ?thesis by linarith
qed

lemma char_not_eof: "m p \<noteq> 0 \<Longrightarrow> char_at m p \<noteq> MINI_FLOAT_EOF"
  using byte_not_eof by (simp add: char_at_def MINI_FLOAT_EOF_def)

lemma char_eof_iff: "char_at m p = MINI_FLOAT_EOF \<longleftrightarrow> m p = 0"
  using char_not_eof [of m p] by (auto simp: char_at_def MINI_FLOAT_EOF_def)

lemma width_left:
  assumes "p - q < 2 ^ 63"
  shows "(- 1 - of_nat (p - q) :: u64) \<noteq> 0" "(- 1 - of_nat (p - q) :: u64) - 1 = - 1 - of_nat (Suc (p - q))"
proof -
  have "unat (of_nat (p - q) :: u64) = p - q" using assms by (simp add: unat_of_nat)
  moreover have "unat (- 1 :: u64) = 2 ^ 64 - 1" by (simp add: unsigned_minus_1_eq_mask mask_eq_exp_minus_1)
  ultimately have "(of_nat (p - q) :: u64) \<noteq> - 1" using assms by (auto simp: word_unat_eq_iff)
  then show "(- 1 - of_nat (p - q) :: u64) \<noteq> 0" by (metis eq_iff_diff_eq_0)
  show "(- 1 - of_nat (p - q) :: u64) - 1 = - 1 - of_nat (Suc (p - q))" by simp
qed

lemma get_at:
  assumes "q \<le> p" "p - q < 2 ^ 63"
  shows "reader_get (string_source m start) (reader_at q r p) = (char_at m p, reader_at q r (past m p))"
  using width_left [OF assms(2)] assms(1) char_not_eof [of m p]
  by (auto simp: reader_get_def reader_at_def string_source_def string_get_def char_at_def past_def Suc_diff_le MINI_FLOAT_EOF_def)

lemma unget_at:
  assumes "q \<le> p" "start \<le> p" "m p \<noteq> 0"
  shows "reader_unget (string_source m start) (char_at m p) (reader_at q r (past m p)) = (char_at m p, reader_at q r p)"
proof -
  have "uchar (uint (m p)) = m p" by (simp add: uchar_def)
  moreover have "uint (m p) \<noteq> - 1" by (rule byte_not_eof)
  moreover have "(- 1 - of_nat (Suc (p - q)) :: u64) + 1 = - 1 - of_nat (p - q)" by simp
  ultimately show ?thesis using assms
    by (simp add: reader_unget_def reader_at_def string_source_def string_unget_def char_at_def past_def Suc_diff_le MINI_FLOAT_EOF_def)
qed

lemma unget_then_at:
  assumes "q \<le> p" "start \<le> p"
  shows "unget_then (string_source m start) (char_at m p) st (reader_at q r (past m p)) = (st, reader_at q r p)"
  using unget_at [OF assms, of m r] char_eof_iff [of m p]
  by (cases "m p = 0") (auto simp: unget_then_def past_def)

text \<open>A run of digits and what stops it.\<close>

definition digit_run :: "mem \<Rightarrow> (int \<Rightarrow> int) \<Rightarrow> addr \<Rightarrow> nat \<Rightarrow> bool" where
  "digit_run m digit_of p n =
     ((\<forall>i < n. m (p + i) \<noteq> 0 \<and> 0 \<le> digit_of (uint (m (p + i)))) \<and>
      (m (p + n) \<noteq> 0 \<longrightarrow> digit_of (uint (m (p + n))) < 0))"

definition run_digits :: "mem \<Rightarrow> (int \<Rightarrow> int) \<Rightarrow> addr \<Rightarrow> nat \<Rightarrow> int list" where
  "run_digits m digit_of p n = map (\<lambda>i. digit_of (uint (m (p + i)))) [0..<n]"

lemma run_digits_Suc: "run_digits m d p (Suc n) = d (uint (m p)) # run_digits m d (p + 1) n"
  by (simp add: run_digits_def map_upt_Suc del: upt_Suc)

lemma number_loop_run:
  assumes "q \<le> p" "p + n - q < 2 ^ 63" "digit_run m digit_of p n" "char_at m (p + n) \<noteq> ch CHR ''.''"
  shows "number_loop (string_source m start) digit_of lmt base (char_at m p) False k a (reader_at q r (past m p)) =
    Some (char_at m (p + n), k + of_nat n, fold (\<lambda>d. accumulate_digit d False lmt base) (run_digits m digit_of p n) a,
          reader_at q r (past m (p + n)))"
  using assms
proof (induction n arbitrary: p k a)
  case 0
  then show ?case
    using char_eof_iff [of m p]
    by (subst number_loop.simps) (auto simp: digit_run_def run_digits_def char_at_def)
next
  case (Suc n)
  have d: "m p \<noteq> 0" "0 \<le> digit_of (uint (m p))" using Suc.prems(3) by (force simp: digit_run_def)+
  have run: "digit_run m digit_of (p + 1) n" using Suc.prems(3) by (auto simp: digit_run_def)
  have g: "reader_get (string_source m start) (reader_at q r (p + 1)) = (char_at m (p + 1), reader_at q r (past m (p + 1)))"
    using Suc.prems(1,2) by (intro get_at) auto
  note IH = Suc.IH [OF _ _ run, of "k + 1" "accumulate_digit (digit_of (uint (m p))) False lmt base a"]
  show ?case
    using d char_not_eof [of m p, OF d(1)] Suc.prems(1,2,4) IH g
    by (subst number_loop.simps) (simp add: char_at_def past_def run_digits_Suc add.assoc)
qed


text \<open>Digits that fit are accumulated exactly.\<close>

definition acc_holds :: "nat \<Rightarrow> nat \<Rightarrow> digits_acc \<Rightarrow> bool" where
  "acc_holds b v a =
     (significand a = of_nat v \<and> significant_started a = (v \<noteq> 0) \<and> fractional_digits a = 0 \<and> discarded_digits a = 0 \<and>
      first_discarded a = - 1 \<and> \<not> discarded_nonzero a \<and>
      (if v = 0 then stored_digits a = 0 else 0 < unat (stored_digits a) \<and> b ^ (unat (stored_digits a) - 1) \<le> v))"

definition digits_nat :: "nat \<Rightarrow> int list \<Rightarrow> nat \<Rightarrow> nat" where
  "digits_nat b ds v = foldl (\<lambda>v d. v * b + nat d) v ds"

lemma digits_nat_simps [simp]:
  "digits_nat b [] v = v" "digits_nat b (d # ds) v = digits_nat b ds (v * b + nat d)"
  by (simp_all add: digits_nat_def)

lemma digits_nat_ge: "0 < b \<Longrightarrow> v \<le> digits_nat b ds v"
proof (induction ds arbitrary: v)
  case (Cons d ds)
  have "v \<le> v * b + nat d" using Cons.prems by (simp add: trans_le_add1)
  then show ?case using Cons.IH [OF Cons.prems, of "v * b + nat d"] by simp
qed simp

lemma acc0_holds: "acc_holds b 0 acc0"
  by (simp add: acc_holds_def acc0_def)

lemma acc_step:
  assumes a: "acc_holds b v a" and d: "0 \<le> d" "nat d < b" and fits: "v * b + nat d < b ^ unat lmt" and "unat lmt < 100"
  shows "acc_holds b (v * b + nat d) (accumulate_digit d False lmt (of_nat b) a)"
proof (cases "v = 0 \<and> d = 0")
  case True
  then show ?thesis using a by (simp add: acc_holds_def accumulate_digit_def)
next
  case False
  have b: "1 < b \<or> v = 0"
  proof (rule ccontr)
    assume n: "\<not> (1 < b \<or> v = 0)"
    then have "b = 1" using d(2) by simp
    then show False using fits n by simp
  qed
  have lt: "unat (stored_digits a) < unat lmt"
  proof (cases "v = 0")
    case True
    have "0 < nat d" using True False d(1) by auto
    then have "b ^ unat lmt \<noteq> 1" using fits True by linarith
    then show ?thesis using a True by (cases "unat lmt") (auto simp: acc_holds_def)
  next
    case v: False
    then have s: "0 < unat (stored_digits a)" "b ^ (unat (stored_digits a) - 1) \<le> v" using a by (simp_all add: acc_holds_def)
    then have "b ^ unat (stored_digits a) = b ^ (unat (stored_digits a) - 1) * b"
      by (metis Suc_diff_1 power_Suc2)
    also have "\<dots> \<le> v * b" using s(2) by simp
    finally have "b ^ unat (stored_digits a) < b ^ unat lmt" using fits by linarith
    then show ?thesis using b v by (simp add: power_less_imp_less_exp)
  qed
  have inc: "unat (stored_digits a + 1) = unat (stored_digits a) + 1"
    using lt assms(5) by (simp add: unat_word_ariths)
  have v': "v * b + nat d \<noteq> 0" using False d b by (cases "v = 0") auto
  have sig: "(of_nat v * of_nat b + word_of_int d :: u64) = of_nat (v * b + nat d)"
    using d(1) by (simp add: of_nat_nat)
  have ge: "b ^ unat (stored_digits a) \<le> v * b + nat d"
  proof (cases "v = 0")
    case True
    then show ?thesis using a v' by (simp add: acc_holds_def)
  next
    case False
    then have s: "0 < unat (stored_digits a)" "b ^ (unat (stored_digits a) - 1) \<le> v" using a by (simp_all add: acc_holds_def)
    then have "b ^ unat (stored_digits a) = b ^ (unat (stored_digits a) - 1) * b"
      by (metis Suc_diff_1 power_Suc2)
    also have "\<dots> \<le> v * b" using s(2) by simp
    finally show ?thesis by linarith
  qed
  have "significant_started a \<or> d \<noteq> 0" using False a by (auto simp: acc_holds_def)
  then have "accumulate_digit d False lmt (of_nat b) a =
      a\<lparr>significant_started := True, significand := significand a * of_nat b + word_of_int d, stored_digits := stored_digits a + 1\<rparr>"
    using lt by (auto simp: accumulate_digit_def Let_def word_less_nat_alt)
  moreover define w where "w = v * b + nat d"
  ultimately show ?thesis
    using a inc sig [folded w_def] ge [folded w_def] v' [folded w_def] unfolding w_def [symmetric]
    by (simp add: acc_holds_def)
qed

lemma acc_run:
  "acc_holds b v a \<Longrightarrow> \<forall>d \<in> set ds. 0 \<le> d \<and> nat d < b \<Longrightarrow> digits_nat b ds v < b ^ unat lmt \<Longrightarrow> unat lmt < 100 \<Longrightarrow>
   acc_holds b (digits_nat b ds v) (fold (\<lambda>d. accumulate_digit d False lmt (of_nat b)) ds a)"
proof (induction ds arbitrary: v a)
  case (Cons d ds)
  have d: "0 \<le> d" "nat d < b" using Cons.prems(2) by auto
  have "v * b + nat d \<le> digits_nat b ds (v * b + nat d)" using d by (intro digits_nat_ge) simp
  then have "v * b + nat d < b ^ unat lmt" using Cons.prems(3) by simp
  from Cons.IH [OF acc_step [OF Cons.prems(1) d this Cons.prems(4)]] Cons.prems show ?case by simp
qed simp

subsection \<open>Rounding of whole numbers\<close>

lemma bits_of_bounds: "0 < n \<Longrightarrow> 0 < bits_of n \<and> 2 ^ (bits_of n - 1) \<le> n \<and> n < 2 ^ bits_of n"
proof (induction n rule: bits_of.induct)
  case (1 n)
  have e: "bits_of n = Suc (bits_of (n div 2))" using "1.prems" by (subst bits_of.simps) simp
  show ?case
  proof (cases "n div 2 = 0")
    case True
    then have "n = 1" using "1.prems" by linarith
    then show ?thesis by (simp add: bits_of_numeral)
  next
    case False
    then have IH: "0 < bits_of (n div 2)" "2 ^ (bits_of (n div 2) - 1) \<le> n div 2" "n div 2 < 2 ^ bits_of (n div 2)"
      using "1.IH" "1.prems" by auto
    obtain k where k: "bits_of (n div 2) = Suc k" using IH(1) by (cases "bits_of (n div 2)") auto
    have "2 ^ Suc k \<le> n" "n < 2 ^ Suc (Suc k)" using IH(2,3) k by auto
    then show ?thesis using e k by simp
  qed
qed

lemma lead_exp_nat: "0 < n \<Longrightarrow> lead_exp n 1 = int (bits_of n) - 1"
  using bits_of_bounds [of n] by (simp add: lead_exp_def bits_of_numeral pow_up_def Let_def nat_diff_distrib')

lemma round_div_bounds:
  assumes "0 < d" "lo * d \<le> n" "n < hi * d"
  shows "lo \<le> round_div n d" "round_div n d \<le> hi"
proof -
  have "lo \<le> n div d" using assms(1,2) by (simp add: less_eq_div_iff_mult_less_eq)
  moreover have "n div d < hi" using assms(1,3) by (simp add: div_less_iff_less_mult)
  ultimately show "lo \<le> round_div n d" "round_div n d \<le> hi" by (auto simp: round_div_def Let_def)
qed

lemma f64_round_nat:
  assumes "0 < n" "n < 2 ^ 63"
  shows "\<exists>N. f64_round False n 1 = of_nat N \<and> 1023 * 2 ^ 52 \<le> N \<and> N < 1087 * 2 ^ 52"
proof -
  define b where "b = bits_of n"
  have b: "0 < b" "2 ^ (b - 1) \<le> n" "n < 2 ^ b" using bits_of_bounds [OF assms(1)] by (simp_all add: b_def)
  have "(2 :: nat) ^ (b - 1) < 2 ^ 63" using b(2) assms(2) by linarith
  then have "b - 1 < 63" by (rule power_less_imp_less_exp [rotated]) simp
  then have b63: "b \<le> 63" by simp
  define e where "e = int b - 1"
  have e: "lead_exp n 1 = e" using lead_exp_nat [OF assms(1)] by (simp add: e_def b_def)
  have em: "max e (- 1022) = e" using b(1) by (simp add: e_def)
  define m where "m = round_div (n * pow_up (52 - e)) (pow_up (e - 52))"
  have pw: "b - 1 + nat (52 - e) = 52 + nat (e - 52)" using b(1) by (auto simp: e_def nat_diff_distrib')
  have "2 ^ 52 * pow_up (e - 52) = 2 ^ (b - 1) * pow_up (52 - e)"
    unfolding pow_up_def power_add [symmetric] pw by simp
  then have lo: "2 ^ 52 * pow_up (e - 52) \<le> n * pow_up (52 - e)" using b(2) by (simp add: mult_le_mono1)
  have pw2: "b + nat (52 - e) = 53 + nat (e - 52)" using b(1) pw by linarith
  have "2 ^ 53 * pow_up (e - 52) = 2 ^ b * pow_up (52 - e)"
    unfolding pow_up_def power_add [symmetric] pw2 by simp
  moreover have "n * pow_up (52 - e) < 2 ^ b * pow_up (52 - e)"
    using b(3) by (simp add: pow_up_def)
  ultimately have hi: "n * pow_up (52 - e) < 2 ^ 53 * pow_up (e - 52)" by simp
  have m: "2 ^ 52 \<le> m" "m \<le> 2 ^ 53"
    unfolding m_def by (rule round_div_bounds [OF _ lo hi], simp add: pow_up_def)+
  have ne: "nat (e + 1022) = b + 1021" using b(1) by (simp add: e_def nat_eq_iff)
  define N where "N = (b + 1021) * 2 ^ 52 + m"
  have "f64_round False n 1 = of_nat (min N (0x7ff * 2 ^ 52))"
    using assms(1) unfolding f64_round_def e em Let_def m_def ne N_def f64_make_def by simp
  moreover have "1023 * 2 ^ 52 \<le> N" "N < 1087 * 2 ^ 52" using m b(1) b63 by (simp_all add: N_def)
  ultimately show ?thesis by (intro exI [of _ N]) simp
qed


lemma min_normal: "MINI_FLOAT_DOUBLE_MIN_NORMAL = 0x0010000000000000"
  by (simp add: MINI_FLOAT_DOUBLE_MIN_NORMAL_def f64_samples)

text \<open>A positive double of at least 1 below \<open>2 ^ 64\<close>, and its negation.\<close>

lemma f64_fields:
  assumes "1023 * 2 ^ 52 \<le> N" "N < 1087 * 2 ^ 52"
  shows "\<not> f64_neg (of_nat N)" "f64_neg (f64_minus (of_nat N))"
    and "x \<in> {of_nat N, f64_minus (of_nat N)} \<Longrightarrow> f64_exp x = N div 2 ^ 52 \<and> f64_frac x = N mod 2 ^ 52"
proof -
  have u: "unat (of_nat N :: f64) = N" using assms(2) by (simp add: unat_of_nat)
  have m: "unat (f64_minus (of_nat N)) = N + 2 ^ 63"
    using assms(2) u by (simp add: f64_minus_def unat_word_ariths)
  show "\<not> f64_neg (of_nat N)" using assms(2) u by (simp add: f64_neg_def)
  show "f64_neg (f64_minus (of_nat N))" using m by (simp add: f64_neg_def)
  have "N div 2 ^ 52 < 2 ^ 11" using assms(2) by (simp add: div_less_iff_less_mult)
  moreover have "(N + 2 ^ 63) div 2 ^ 52 = N div 2 ^ 52 + 2 ^ 11"
    using div_mult_self3 [of "2 ^ 52" "2 ^ 11" N] by (simp add: add.commute)
  moreover have "(N + 2 ^ 63) mod 2 ^ 52 = N mod 2 ^ 52"
    using mod_mult_self3 [of "2 ^ 11" "2 ^ 52" N] by (simp add: add.commute)
  ultimately show "x \<in> {of_nat N, f64_minus (of_nat N)} \<Longrightarrow> f64_exp x = N div 2 ^ 52 \<and> f64_frac x = N mod 2 ^ 52"
    using u m by (auto simp: f64_exp_def f64_frac_def)
qed

lemma f64_minus_minus [simp]: "f64_minus (f64_minus b) = b"
  by (simp add: f64_minus_def add.assoc)

lemma finish_scale_normal:
  assumes N: "1023 * 2 ^ 52 \<le> N" "N < 1087 * 2 ^ 52"
  shows "finish_scale neg (of_nat N) r = (SUCCESS, r\<lparr>rd_result := if neg then f64_minus (of_nat N) else of_nat N\<rparr>)"
proof -
  have e: "1023 \<le> N div 2 ^ 52" using N(1) by (simp add: less_eq_div_iff_mult_less_eq)
  have e': "N div 2 ^ 52 < 1087" using N(2) by (simp add: div_less_iff_less_mult)
  have F: "f64_finite x" "\<not> f64_nan x" "\<not> f64_inf x" "0 < f64_sig x" "2 ^ 52 \<le> f64_sig x" "- 52 \<le> f64_pow x"
    if "x \<in> {of_nat N, f64_minus (of_nat N)}" for x
    using f64_fields(3) [OF N that] e e' by (simp_all add: f64_finite_def f64_nan_def f64_inf_def f64_sig_def f64_pow_def)
  have z: "\<not> f64_nan 0" "\<not> f64_inf 0" "f64_finite 0" "f64_sig 0 = 0" "f64_pow 0 = - 1074"
    by (simp_all add: f64_eval)
  have mn: "\<not> f64_nan 0x0010000000000000" "\<not> f64_inf 0x0010000000000000" "f64_sig 0x0010000000000000 = 2 ^ 52"
    "f64_pow 0x0010000000000000 = - 1074" "\<not> f64_neg 0x0010000000000000"
    by (simp_all add: f64_eval)
  have pos: "0 < f64_scaled (- 1074) (of_nat N)" "f64_scaled (- 1074) (f64_minus (of_nat N)) < 0"
    using F f64_fields(1,2) [OF N] by (simp_all add: f64_scaled_def pow_up_def)
  have z0: "f64_scaled (- 1074) 0 = 0" using z(4) by (simp add: f64_scaled_def)
  have k: "min (f64_pow x) (- 1074) = - 1074" if "x \<in> {of_nat N, f64_minus (of_nat N)}" for x
    using F(6) [OF that] by simp
  have lt: "\<not> f64_less (of_nat N) 0" "f64_less (f64_minus (of_nat N)) 0"
    using F(2,3) [of "of_nat N"] F(2,3) [of "f64_minus (of_nat N)"] k [of "of_nat N"] k [of "f64_minus (of_nat N)"] z z0 pos
    by (simp_all add: f64_less_def Let_def)
  have "f64_scaled (- 1074) 0x0010000000000000 = 2 ^ 52" using mn by (simp add: f64_scaled_def pow_up_def)
  moreover have "2 ^ 52 \<le> f64_scaled (- 1074) (of_nat N)"
  proof -
    have "2 ^ 52 * 1 \<le> f64_sig (of_nat N) * pow_up (f64_pow (of_nat N) + 1074)"
      using F(5) [of "of_nat N"] by (intro mult_le_mono) (simp_all add: pow_up_def)
    then have "int (2 ^ 52) \<le> int (f64_sig (of_nat N) * pow_up (f64_pow (of_nat N) + 1074))"
      by (intro iffD2 [OF of_nat_le_iff]) simp
    then show ?thesis using f64_fields(1) [OF N] by (simp add: f64_scaled_def)
  qed
  ultimately have "\<not> f64_less (of_nat N) 0x0010000000000000"
    using F(2,3) [of "of_nat N"] k [of "of_nat N"] mn by (simp add: f64_less_def Let_def)
  moreover have ne: "\<not> f64_eq x 0" if "x \<in> {of_nat N, f64_minus (of_nat N)}" for x
    using F [OF that] z by (auto simp: f64_eq_def)
  ultimately show ?thesis
    using lt by (cases neg) (simp_all add: finish_scale_def finish_range_def min_normal Let_def)
qed

lemma scale_decimal_whole:
  assumes "n < 2 ^ 63"
  shows "scale_decimal (of_nat n) 0 neg r =
    (SUCCESS, r\<lparr>rd_result := if neg then f64_minus (f64_round False n 1) else f64_round False n 1\<rparr>)"
proof (cases "n = 0")
  case True
  then show ?thesis by (simp add: scale_decimal_def signed_zero_def f64_round_def f64_make_def)
next
  case False
  have "unat (of_nat n :: u64) = n" using assms by (simp add: unat_of_nat)
  then have u: "uint (of_nat n :: u64) = int n" "(of_nat n :: u64) \<noteq> 0" using False by (auto simp: uint_nat)
  have "sint (of_nat n :: u64) = int n" using assms u(1) by (simp add: sint_uint signed_take_bit_int_eq_self)
  then have s: "f64_of_signed (of_nat n) = f64_round False n 1" by (simp add: f64_of_signed_def)
  obtain N where N: "f64_round False n 1 = of_nat N" "1023 * 2 ^ 52 \<le> N" "N < 1087 * 2 ^ 52"
    using f64_round_nat [of n] assms False by auto
  have "scale_decimal_loop False 0 0 v = Inr v" for v by (subst scale_decimal_loop.simps) simp
  then show ?thesis using u(2) s N(1) by (simp add: scale_decimal_def finish_scale_normal [OF N(2,3)])
qed


subsection \<open>Whole decimal numbers\<close>

lemma ascii_byte:
  "ascii_space (uint (x :: byte)) = is_c_space x" "0 \<le> decimal_digit (uint x) \<longleftrightarrow> is_digit_in 10 x"
  "is_digit_in 10 x \<Longrightarrow> decimal_digit (uint x) = digit_value x"
proof -
  have eq: "uint x = c \<longleftrightarrow> x = word_of_int c" if "0 \<le> c" "c < 256" for c
    using that by (auto simp: uint_word_of_int take_bit_int_eq_self word_eq_iff_unsigned)
  show "ascii_space (uint x) = is_c_space x" by (simp add: ascii_space_def is_c_space_def eq)
  have le: "uint (x - b) = uint x - uint b" if "b \<le> x" for b :: byte
    using that by (simp add: uint_sub_if' word_le_def)
  show "0 \<le> decimal_digit (uint x) \<longleftrightarrow> is_digit_in 10 x" "is_digit_in 10 x \<Longrightarrow> decimal_digit (uint x) = digit_value x"
    by (auto simp: decimal_digit_def ascii_digit_def is_digit_in_def digit_value_def le word_le_def)
qed

lemma digits_val_nat: "digits_val 10 ds = digits_nat 10 (map digit_value ds) 0"
  by (simp add: digits_val_def digits_nat_def foldl_map)

lemma digits_of_string:
  assumes "cstr_at m p xs"
  defines "ds \<equiv> takeWhile (is_digit_in 10) xs"
  shows "digit_run m decimal_digit p (length ds)" "run_digits m decimal_digit p (length ds) = map digit_value ds"
    "char_at m (p + length ds) = (case dropWhile (is_digit_in 10) xs of [] \<Rightarrow> - 1 | x # _ \<Rightarrow> uint x)"
proof -
  have xs: "xs = ds @ dropWhile (is_digit_in 10) xs" by (simp add: ds_def)
  have at: "m (p + i) = ds ! i" "m (p + i) \<noteq> 0" "is_digit_in 10 (ds ! i)" if "i < length ds" for i
  proof -
    have l: "length ds \<le> length xs" by (simp add: ds_def length_takeWhile_le)
    have "xs ! i = ds ! i" using that by (metis xs nth_append)
    then show "m (p + i) = ds ! i" "m (p + i) \<noteq> 0" using cstr_at_nth [OF assms(1), of i] that l by auto
    show "is_digit_in 10 (ds ! i)" using that nth_mem set_takeWhileD unfolding ds_def by metis
  qed
  have rest: "cstr_at m (p + length ds) (dropWhile (is_digit_in 10) xs)"
    using cstr_at_drop [OF assms(1), of "length ds"] by (simp add: ds_def length_takeWhile_le dropWhile_eq_drop)
  have stop: "m (p + length ds) \<noteq> 0 \<longrightarrow> \<not> is_digit_in 10 (m (p + length ds))"
    using rest hd_dropWhile [of "is_digit_in 10" xs] by (cases "dropWhile (is_digit_in 10) xs") auto
  show "digit_run m decimal_digit p (length ds)"
    using at stop ascii_byte(2) by (auto simp: digit_run_def not_le [symmetric])
  show "run_digits m decimal_digit p (length ds) = map digit_value ds"
    using at ascii_byte(3) by (intro nth_equalityI) (simp_all add: run_digits_def)
  show "char_at m (p + length ds) = (case dropWhile (is_digit_in 10) xs of [] \<Rightarrow> - 1 | x # _ \<Rightarrow> uint x)"
    using rest by (cases "dropWhile (is_digit_in 10) xs"; simp only: list.case) (auto simp: char_at_def)
qed

text \<open>A signed double of a whole number.\<close>

definition f64_whole :: "bool \<Rightarrow> nat \<Rightarrow> f64" where
  "f64_whole neg n = (if neg then f64_minus (f64_round False n 1) else f64_round False n 1)"

lemma parse_decimal_whole:
  assumes xs: "cstr_at m p xs" and q: "q \<le> p" "start \<le> p" "p + length xs - q < 2 ^ 63" "length xs < 2 ^ 32"
    and ds: "takeWhile (is_digit_in 10) xs = ds" "ds \<noteq> []" "digits_val 10 ds < 10 ^ 18"
    and stop: "char_at m (p + length ds) \<notin> {ch CHR ''.'', ch CHR ''e'', ch CHR ''E''}"
  shows "parse_decimal (string_source m start) (char_at m p) policy neg True (reader_at q r (past m p)) =
    Some (SUCCESS, (reader_at q r (p + length ds))\<lparr>rd_result := f64_whole neg (digits_val 10 ds)\<rparr>)"
proof -
  note D = digits_of_string [OF xs, unfolded ds(1)]
  have len: "length ds \<le> length xs" using ds(1) length_takeWhile_le by metis
  let ?a = "fold (\<lambda>d. accumulate_digit d False MINI_FLOAT_DECIMAL_DIGITS 10) (map digit_value ds) acc0"
  have dig: "\<forall>d \<in> set (map digit_value ds). 0 \<le> d \<and> nat d < 10"
    using set_takeWhileD [of _ "is_digit_in 10" xs] ds(1) by (fastforce simp: is_digit_in_def)
  have a: "acc_holds 10 (digits_val 10 ds) ?a"
    using acc_run [OF acc0_holds dig, of MINI_FLOAT_DECIMAL_DIGITS] ds(3)
    by (simp add: digits_val_nat MINI_FLOAT_DECIMAL_DIGITS_def)
  have loop: "number_loop (string_source m start) decimal_digit MINI_FLOAT_DECIMAL_DIGITS 10 (char_at m p) False 0 acc0
      (reader_at q r (past m p)) = Some (char_at m (p + length ds), of_nat (length ds), ?a, reader_at q r (past m (p + length ds)))"
    using number_loop_run [OF q(1) _ D(1), of start MINI_FLOAT_DECIMAL_DIGITS 10 0 acc0 r] stop q(3) len
    by (simp add: D(2))
  have n: "(of_nat (length ds) :: u32) \<noteq> 0" using q(4) len ds(2) by (simp add: word_unat_eq_iff unat_of_nat)
  have u: "unget_then (string_source m start) (char_at m (p + length ds)) SUCCESS (reader_at q r (past m (p + length ds))) =
      (SUCCESS, reader_at q r (p + length ds))"
    using q by (intro unget_then_at) auto
  have v: "round_significand 10 ?a = of_nat (digits_val 10 ds)"
    "sint (discarded_digits ?a * 1) - sint (fractional_digits ?a * 1) = 0"
    using a by (simp_all add: acc_holds_def round_significand_def)
  have z: "(of_nat (digits_val 10 ds) :: u64) = 0 \<longleftrightarrow> digits_val 10 ds = 0"
    using ds(3) by (simp add: word_unat_eq_iff unat_of_nat)
  have zero: "signed_zero neg = f64_whole neg 0" by (simp add: signed_zero_def f64_whole_def f64_round_def f64_make_def)
  have "digits_val 10 ds < 2 ^ 63" using ds(3) by simp
  then show ?thesis
    using n stop u v z zero scale_decimal_whole [of "digits_val 10 ds" neg "reader_at q r (p + length ds)"]
    by (simp add: parse_decimal_def loop finish_number_def Let_def f64_whole_def)
qed


lemma skip_leading_space_at:
  "cstr_at m p xs \<Longrightarrow> start \<le> p \<Longrightarrow> skip_leading_space (string_source m start) p =
     Some (if dropWhile is_c_space xs = [] then 0 else 1, p + length (takeWhile is_c_space xs))"
proof (induction xs arbitrary: p)
  case Nil
  then show ?case
    by (subst skip_leading_space.simps) (simp add: string_source_def string_get_def MINI_FLOAT_EOF_def)
next
  case (Cons x xs)
  have ne: "uint x \<noteq> - 1" by (rule byte_not_eof)
  have "uchar (uint x) = x" by (simp add: uchar_def)
  then show ?case
    using Cons ne by (subst skip_leading_space.simps)
      (auto simp: string_source_def string_get_def string_unget_def MINI_FLOAT_EOF_def ascii_byte(1))
qed

lemma digit_byte_eq:
  "is_digit_in 10 x \<longleftrightarrow> 48 \<le> x \<and> x \<le> 57"
proof -
  have le: "uint (x - b) = uint x - uint b" if "b \<le> x" for b :: byte
    using that by (simp add: uint_sub_if' word_le_def)
  show ?thesis by (auto simp: is_digit_in_def digit_value_def le word_le_def)
qed

lemma uint_byte_eq: "0 \<le> c \<Longrightarrow> c < 256 \<Longrightarrow> uint (x :: byte) = c \<longleftrightarrow> x = word_of_int c"
  by (auto simp: uint_word_of_int take_bit_int_eq_self word_eq_iff_unsigned)

text \<open>What follows the sign: the start of a number that is not \<open>0x\<close>, \<open>inf\<close> or \<open>nan\<close>.\<close>

lemma float_parse_digits:
  assumes xs: "cstr_at m p xs" and q: "q \<le> p" "start \<le> p" "p + length xs - q < 2 ^ 62" "length xs < 2 ^ 32"
    and ds: "takeWhile (is_digit_in 10) xs = ds" "ds \<noteq> []" "digits_val 10 ds < 10 ^ 18"
    and stop: "char_at m (p + length ds) \<notin> ch ` {CHR ''.'', CHR ''e'', CHR ''E'', CHR ''x'', CHR ''X''}"
    and r3: "r3 = reader_at q r (past m p)" and c: "c = char_at m p"
  shows "(if c = ch CHR ''0'' then
           let checkpoint = (if policy = PARSE_STRTO \<and> has_checkpoints (string_source m start)
                             then the (src_mark (string_source m start)) (rd_context r3) else 0);
               saved = remaining r3; (nxt, r4) = reader_get (string_source m start) r3
           in if nxt = ch CHR ''x'' \<or> nxt = ch CHR ''X'' then P checkpoint saved r4
              else if nxt \<noteq> MINI_FLOAT_EOF then
                (let (u, r5) = reader_unget (string_source m start) nxt r4
                 in if u = MINI_FLOAT_EOF then Some (INPUT_FAIL, r5)
                    else parse_decimal (string_source m start) c policy neg True r5)
              else parse_decimal (string_source m start) c policy neg True r4
         else parse_decimal (string_source m start) c policy neg True r3) =
    Some (SUCCESS, (reader_at q r (p + length ds))\<lparr>rd_result := f64_whole neg (digits_val 10 ds)\<rparr>)"
proof -
  have st: "char_at m (p + length ds) \<notin> {ch CHR ''.'', ch CHR ''e'', ch CHR ''E''}" using stop by auto
  have "p + length xs - q < 2 ^ 63" using q(3) by simp
  note D = parse_decimal_whole [OF xs q(1,2) this q(4) ds st]
  have first: "m p \<noteq> 0" using xs ds(1,2) by (cases xs) auto
  then have r: "r3 = reader_at q r (Suc p)" by (simp add: r3 past_def)
  have g: "reader_get (string_source m start) r3 = (char_at m (Suc p), reader_at q r (past m (Suc p)))"
    unfolding r using q(1,3) xs first by (intro get_at) (cases xs; simp)+
  have nx: "char_at m (Suc p) \<noteq> ch CHR ''x'' \<and> char_at m (Suc p) \<noteq> ch CHR ''X''"
  proof (cases "length ds = 1")
    case True
    then show ?thesis using stop by auto
  next
    case False
    then have l: "1 < length ds" using ds(2) by (cases ds) auto
    then have "1 < length xs" "xs ! 1 = ds ! 1"
      using ds(1) length_takeWhile_le [of "is_digit_in 10" xs] by (auto simp: takeWhile_nth)
    then have "m (Suc p) = ds ! 1" "m (Suc p) \<noteq> 0" using cstr_at_nth [OF xs, of 1] by auto
    moreover have "is_digit_in 10 (ds ! 1)" using nth_mem [OF l] ds(1) set_takeWhileD by metis
    ultimately show ?thesis by (auto simp: char_at_def digit_byte_eq uint_byte_eq)
  qed
  have u: "reader_unget (string_source m start) (char_at m (Suc p)) (reader_at q r (past m (Suc p))) =
      (char_at m (Suc p), reader_at q r (Suc p))" if "m (Suc p) \<noteq> 0"
    using q that by (intro unget_at) auto
  have pd: "parse_decimal (string_source m start) c policy neg True (reader_at q r (Suc p)) =
      Some (SUCCESS, (reader_at q r (p + length ds))\<lparr>rd_result := f64_whole neg (digits_val 10 ds)\<rparr>)"
    using D [of policy neg r] first c by (simp add: past_def)
  show ?thesis
  proof (cases "m (Suc p) = 0")
    case True
    then have e: "past m (Suc p) = Suc p" "char_at m (Suc p) = MINI_FLOAT_EOF" by (simp_all add: past_def char_eof_iff)
    show ?thesis using pd g nx unfolding r e by (cases "c = ch CHR ''0''") (simp_all add: Let_def)
  next
    case False
    then have "char_at m (Suc p) \<noteq> MINI_FLOAT_EOF" by (simp add: char_eof_iff)
    then show ?thesis using pd g nx u [OF False] unfolding r by (cases "c = ch CHR ''0''") (simp_all add: Let_def)
  qed
qed

text \<open>C31. On a string that starts (after white space and an optional sign) with decimal digits standing for a
  number below \<open>10 ^ 18\<close> and not going on as a fraction, an exponent or a hexadecimal prefix, \<open>strtod\<close>
  returns, gives the nearest double to that number (ties to even, negated after a minus sign, so minus
  zero for \<open>-0\<close>), leaves \<open>errno\<close> alone and points past the last digit.\<close>

theorem strtod_rounds_whole_numbers:
  assumes "cstr_at m p xs" "length xs < 2 ^ 32"
    and "split_sign (dropWhile is_c_space xs) = (neg, r)"
    and "takeWhile (is_digit_in 10) r = ds" "ds \<noteq> []" "digits_val 10 ds < 10 ^ 18"
    and "take 1 (dropWhile (is_digit_in 10) r) \<notin> {[ch CHR ''.''], [ch CHR ''e''], [ch CHR ''E''], [ch CHR ''x''], [ch CHR ''X'']}"
  shows "strtod m p endptr e = Some
    \<lparr>sd_value = f64_whole neg (digits_val 10 ds),
     sd_end = (if endptr then Some (p + (length xs - length (dropWhile (is_digit_in 10) r))) else None), sd_errno = e\<rparr>"
proof -
  define S where "S = string_source m p"
  define ys where "ys = dropWhile is_c_space xs"
  define q where "q = p + length (takeWhile is_c_space xs)"
  have ql: "length (takeWhile is_c_space xs) + length ys = length xs"
    unfolding ys_def by (metis length_append takeWhile_dropWhile_id)
  have qs: "cstr_at m q ys"
    using cstr_at_drop [OF assms(1), of "length (takeWhile is_c_space xs)"] length_takeWhile_le [of is_c_space xs]
    by (simp add: q_def ys_def dropWhile_eq_drop)
  have yne: "ys \<noteq> []"
  proof
    assume "ys = []"
    then have "r = []" using assms(3) by (simp add: ys_def [symmetric] split_sign_def)
    then show False using assms(4,5) by simp
  qed
  define r1 where "r1 = \<lparr>rd_context = q, remaining = MINI_FLOAT_PARSE_WIDTH_MAX, rd_errno = e, rd_result = (0 :: f64)\<rparr>"
  have r1: "r1 = reader_at q r1 q" by (simp add: r1_def reader_at_def MINI_FLOAT_PARSE_WIDTH_MAX_def)
  have g0: "reader_get S r1 = (char_at m q, reader_at q r1 (past m q))"
    unfolding S_def by (subst r1) (rule get_at, simp_all)
  have mq: "m q = hd ys" "m q \<noteq> 0" using qs yne by (cases ys; simp)+
  then have cq: "char_at m q = uint (hd ys)" "char_at m q \<noteq> MINI_FLOAT_EOF"
    using char_eof_iff [of m q] by (simp add: char_at_def, simp)
  define d where "d = (if length r = length ys then q else Suc q)"
  have rs: "ys = r \<or> (\<exists>x. ys = x # r \<and> (x = ch CHR ''+'' \<or> x = ch CHR ''-'') \<and> neg = (x = ch CHR ''-''))"
    and nosign: "ys = r \<longrightarrow> \<not> neg \<and> hd ys \<noteq> ch CHR ''+'' \<and> hd ys \<noteq> ch CHR ''-''"
    using assms(3) yne by (cases ys; auto simp: ys_def [symmetric] split_sign_def split: if_splits)+
  have ds_at: "cstr_at m d r" using rs qs by (auto simp: d_def)
  have dl: "q \<le> d" "d \<le> q + 1" "length r \<le> length ys" using rs by (auto simp: d_def)
  have rdigit: "r \<noteq> []" "is_digit_in 10 (hd r)" using assms(4,5) by (cases r; auto split: if_splits)+
  have md: "m d = hd r" using ds_at rdigit(1) by (cases r) auto
  have cd: "char_at m d = uint (hd r)" "48 \<le> uint (hd r)" "uint (hd r) \<le> 57"
    using rdigit(2) md by (auto simp: char_at_def digit_byte_eq word_le_def)
  have drop: "cstr_at m (d + length ds) (dropWhile (is_digit_in 10) r)"
    using cstr_at_drop [OF ds_at, of "length ds"] assms(4) length_takeWhile_le [of "is_digit_in 10" r]
    by (auto simp: dropWhile_eq_drop)
  have stop: "char_at m (d + length ds) \<notin> ch ` {CHR ''.'', CHR ''e'', CHR ''E'', CHR ''x'', CHR ''X''}"
    using drop assms(7) by (cases "dropWhile (is_digit_in 10) r") (auto simp: char_at_def uint_byte_eq)
  have big: "length xs < 4294967296" using assms(2) by simp
  have len: "d + length r - q < 2 ^ 62" using dl ql big by simp
  have len2: "length r < 2 ^ 32" using dl(3) ql big by simp
  note core = float_parse_digits [OF ds_at dl(1) _ len len2 assms(4-6) stop refl refl,
    where start = p and policy = PARSE_STRTO and neg = neg and r = r1]
  have pd: "p \<le> d" using dl(1) by (simp add: q_def)
  have sk: "skip_leading_space S p = Some (1, q)"
    using skip_leading_space_at [OF assms(1), of p] yne by (simp add: S_def q_def ys_def)
  have F: "float_parse S MINI_FLOAT_PARSE_WIDTH_MAX True PARSE_STRTO True
      \<lparr>rd_context = p, remaining = 0, rd_errno = e, rd_result = 0\<rparr> =
    Some (SUCCESS, (reader_at q r1 (d + length ds))\<lparr>rd_result := f64_whole neg (digits_val 10 ds)\<rparr>)"
  proof -
    have np: "\<not> ascii_equal_ci (char_at m d) (ch CHR ''i'')" "\<not> ascii_equal_ci (char_at m d) (ch CHR ''n'')"
      using cd by (auto simp: ascii_equal_ci_def)
    have ctx: "rd_context \<lparr>rd_context = p, remaining = 0, rd_errno = e, rd_result = (0 :: f64)\<rparr> = p"
      and pos: "(1 :: int) < 0 \<longleftrightarrow> False" by simp_all
    have start: "\<lparr>rd_context = p, remaining = 0, rd_errno = e, rd_result = 0\<rparr>\<lparr>rd_context := q,
        remaining := MINI_FLOAT_PARSE_WIDTH_MAX\<rparr> = r1" by (simp add: r1_def)
    have sgn: "(char_at m q = ch CHR ''+'' \<or> char_at m q = ch CHR ''-'') = (ys \<noteq> r)" "(char_at m q = ch CHR ''-'') = neg"
      using rs nosign yne by (auto simp: cq(1) uint_byte_eq)
    have r3: "(if char_at m q = ch CHR ''+'' \<or> char_at m q = ch CHR ''-''
        then reader_get S (reader_at q r1 (past m q)) else (char_at m q, reader_at q r1 (past m q))) =
        (char_at m d, reader_at q r1 (past m d))"
    proof (cases "ys = r")
      case True
      then show ?thesis by (simp only: sgn(1)) (simp add: d_def)
    next
      case False
      then have "length r \<noteq> length ys" using rs by auto
      then have "d = Suc q" by (simp add: d_def)
      moreover have "reader_get S (reader_at q r1 (Suc q)) = (char_at m (Suc q), reader_at q r1 (past m (Suc q)))"
        unfolding S_def by (rule get_at) simp_all
      ultimately show ?thesis using False mq(2) by (simp only: sgn(1)) (simp add: past_def)
    qed
    have cne: "char_at m d \<noteq> MINI_FLOAT_EOF" using cd by (auto simp: MINI_FLOAT_EOF_def)
    note parse = core [OF pd, folded S_def, where P = "\<lambda>checkpoint saved r4. map_option (\<lambda>(status, r5).
        if status \<noteq> MATCH_FAIL \<or> PARSE_STRTO = PARSE_SCAN then (status, r5)
        else if checkpoint \<noteq> 0 then give True (signed_zero neg) (go_back S checkpoint saved r5)
        else (status, r5)) (parse_hex S PARSE_STRTO neg True r4)"]
    show ?thesis
      unfolding float_parse_def
      by (simp only: ctx sk bind.bind_lunit Let_def prod.case if_True start g0 cq(2) if_False r3 [unfolded sgn(2)] cne np simp_thms sgn(2)
          pos parse [unfolded Let_def simp_thms])
  qed
  have "length ds + length (dropWhile (is_digit_in 10) r) = length r"
    using assms(4) by (metis length_append takeWhile_dropWhile_id)
  moreover have "d + length r = q + length ys" using rs by (auto simp: d_def)
  ultimately have "d + length ds = p + (length xs - length (dropWhile (is_digit_in 10) r))" using ql q_def dl(3) by linarith
  then show ?thesis using F by (simp add: strtod_def parse_string_def S_def r1_def)
qed

theorem strtod_rounds_whole_numbers_witness:
  "strtod (write_bytes (\<lambda>_. 0) 1 [32, 45, 52, 50, 33]) 1 True 7 =
     Some \<lparr>sd_value = 0xC045000000000000, sd_end = Some 5, sd_errno = 7\<rparr>"
proof -
  let ?m = "write_bytes (\<lambda>_. 0) 1 [32, 45, 52, 50, 33] :: mem"
  have h: "cstr_at ?m 1 [32, 45, 52, 50, 33]" by simp
  have s: "split_sign (dropWhile is_c_space [32, 45, 52, 50, 33]) = (True, [52, 50, 33])"
    by (simp add: is_c_space_def split_sign_def)
  have t: "takeWhile (is_digit_in 10) [52, 50, 33] = [52, 50]" "dropWhile (is_digit_in 10) [52, 50, 33] = [33]"
    by (simp_all add: is_digit_in_def digit_value_def)
  have v: "digits_val 10 [52, 50] = 42" by (simp add: digits_val_def digit_value_def)
  have w: "f64_whole True 42 = 0xC045000000000000"
    by (simp add: f64_whole_def f64_eval cong: let_weak_cong)
  show ?thesis
    using strtod_rounds_whole_numbers [OF h _ s t(1), of True 7]
    by (simp add: v w is_digit_in_def digit_value_def)
qed

subsection \<open>Exponents past the table of powers\<close>

lemma scale_binary_loop_overrun:
  assumes "10 \<le> i + n" "2 ^ n \<le> mag" "mag < 2 ^ Suc n" 
  shows "scale_binary_loop False i mag v = Inl False"
  using assms
proof (induction n arbitrary: i mag v)
  case 0
  then have "mag = 1" by simp
  then show ?case using 0 by (subst scale_binary_loop.simps) (simp add: binary_powers_def)
next
  case (Suc n)
  have "scale_binary_loop False (i + 1) (mag div 2) w = Inl False" for w
    using Suc.prems by (intro Suc.IH) auto
  moreover have "mag \<noteq> 0" using Suc.prems(2) by (metis not_one_le_zero one_le_numeral one_le_power order_trans)
  ultimately show ?case by (subst scale_binary_loop.simps) simp
qed

text \<open>The table of powers of two ends at \<open>2 ^ 512\<close>: for every significand but zero an exponent from -2047 to -1024 is
  answered with a zero and \<open>ERANGE\<close>, also when the number is a normal double.\<close>

theorem scale_binary_gives_up:
  assumes "sig \<noteq> 0" "- 2047 \<le> e" "e \<le> - 1024"
  shows "scale_binary sig e neg r = (RANGE_FAIL, r\<lparr>rd_result := signed_zero neg, rd_errno := ERANGE\<rparr>)"
proof -
  have "scale_binary_loop False 0 (nat \<bar>e\<bar>) (f64_of_signed sig) = Inl False"
    using assms(2,3) by (intro scale_binary_loop_overrun [of _ 10]) auto
  then show ?thesis using assms by (simp add: scale_binary_def range_fail_def)
qed

text \<open>\<open>0x18p-1026\<close> is 1.5 * 2 ^ -1022, a normal number (first line), and read as zero.\<close>

theorem scale_binary_gives_up_witness:
  "f64_round False 24 (2 ^ 1026) = 0x0018000000000000 \<and>
   strtod (write_bytes (\<lambda>_. 0) 1 [48, 120, 49, 56, 112, 45, 49, 48, 50, 54]) 1 True 7 =
     Some \<lparr>sd_value = 0, sd_end = Some 11, sd_errno = ERANGE\<rparr>"
proof -
  let ?m = "write_bytes (\<lambda>_. 0) 1 [48, 120, 49, 56, 112, 45, 49, 48, 50, 54] :: mem"
  have "f64_round False 24 (2 ^ 1026) = 0x0018000000000000"
    by (simp add: f64_eval cong: let_weak_cong)
  moreover have "strtod ?m 1 True 7 = Some \<lparr>sd_value = 0, sd_end = Some 11, sd_errno = ERANGE\<rparr>"
    by (simp add: scale_binary_gives_up strtod_def parse_string_def float_parse_def string_source_def skip_leading_space.simps
        string_get_def reader_get_def reader_unget_def string_unget_def ascii_equal_ci_def
        ascii_space_def MINI_FLOAT_PARSE_WIDTH_MAX_def MINI_FLOAT_EOF_def has_checkpoints_def parse_hex_def 
        number_loop.simps finish_number_def parse_exponent_def set_checkpoint_def exponent_digits.simps accumulate_digit_def
        ascii_hex_def acc0_def accumulate_exponent_def ascii_digit_def round_significand_def unget_then_def MINI_FLOAT_HEX_DIGITS_def
        MINI_FLOAT_EXPONENT_CAP_def signed_zero_def go_back_def uchar_def
        cong: let_weak_cong if_weak_cong)
  ultimately show ?thesis by simp
qed

end
