(* ===== verification/Format.thy ===== *)
theory Format
  imports Stream Wchar Binary64
begin

unbundle bit_operations_syntax

section \<open>Formatted output (\<open>stdio/format.c\<close>)\<close>

text \<open>
  The interpreter of format strings behind \<open>printf\<close> and \<open>snprintf\<close>: directives, arguments, the text of
  each conversion, and the two sinks the text goes to, a stream and a buffer.

  Memory is read only: the buffer of a memory sink is an object of its own, counted from its start,
  as the \<open>restrict\<close> of the prototypes asks. Wide strings sit in the wide memory of \<open>Wchar\<close>. Arguments
  are the words the entry code has saved, and the words of the overflow area after them. The result
  \<open>EOF\<close> of an emitting function is \<^term>\<open>False\<close>; the count of characters is a field of the state.
\<close>

subsection \<open>Types\<close>

definition MINI_PRINTF_INT_MAX :: u32 where "MINI_PRINTF_INT_MAX = drop_bit 1 (NOT 0)"
definition MINI_FORMAT_PAD_CHUNK :: nat where "MINI_FORMAT_PAD_CHUNK = 16"
definition MINI_FLOAT_DECIMAL_MAX_PRECISION :: u32 where "MINI_FLOAT_DECIMAL_MAX_PRECISION = 9"
definition MINI_FLOAT_HEX_MAX_PRECISION :: u32 where "MINI_FLOAT_HEX_MAX_PRECISION = 13"
definition MINI_FLOAT_TEXT_CAPACITY :: nat where "MINI_FLOAT_TEXT_CAPACITY = 96"

record format_args =
  gp :: "nat \<Rightarrow> u64"
  fp :: "nat \<Rightarrow> f64"
  overflow_area :: "nat \<Rightarrow> u64"
  overflow_next :: nat
  gp_index :: nat
  gp_count :: nat
  fp_index :: nat
  fp_count :: nat

datatype format_length = LEN_NONE | LEN_HH | LEN_H | LEN_L | LEN_LL

datatype sink_kind = SINK_FILE | SINK_MEMORY

text \<open>The sink, and what else a call carries: the stream with \<open>errno\<close> and the kernel, and the count.\<close>

record 'k sink =
  sink_kind :: sink_kind
  sink_io :: "'k io"
  sink_buffer :: "nat \<Rightarrow> byte"
  sink_size :: nat
  sink_stored :: nat
  sink_utf8 :: bool
  wide_semantics :: bool
  out_count :: u32

record format_spec =
  spec_left :: bool
  spec_plus :: bool
  spec_space :: bool
  alternate :: bool
  spec_zero :: bool
  spec_width :: u32
  precision_set :: bool
  precision :: u32
  spec_length :: format_length
  conversion :: byte

datatype float_class = FLOAT_FINITE | FLOAT_INFINITY | FLOAT_NAN

record float_parts =
  float_kind :: float_class
  negative :: bool
  exponent_field :: u32
  fraction :: u64

definition set_fmt_errno :: "int \<Rightarrow> 'k sink \<Rightarrow> 'k sink" where
  "set_fmt_errno e s = s\<lparr>sink_io := (sink_io s)\<lparr>io_errno := e\<rparr>\<rparr>"

text \<open>An emitting function: not returning is \<^term>\<open>None\<close>. \<open>emit_then\<close> is \<open>if (f == EOF) return EOF; g\<close>.\<close>

type_synonym 'k emitter = "'k sink \<Rightarrow> (bool \<times> 'k sink) option"

definition emit_nothing :: "'k emitter" where "emit_nothing s = Some (True, s)"

definition emit_fail :: "int \<Rightarrow> 'k emitter" where "emit_fail e s = Some (False, set_fmt_errno e s)"

definition emit_then :: "'k emitter \<Rightarrow> 'k emitter \<Rightarrow> 'k emitter" where
  "emit_then f g s = Option.bind (f s) (\<lambda>(ok, s'). if ok then g s' else Some (False, s'))"

definition emit_all :: "'k emitter list \<Rightarrow> 'k emitter" where
  "emit_all fs = foldr emit_then fs emit_nothing"

definition emit_if :: "bool \<Rightarrow> 'k emitter \<Rightarrow> 'k emitter" where
  "emit_if b f = (if b then f else emit_nothing)"

subsection \<open>Arguments\<close>

definition next_word :: "format_args \<Rightarrow> u64 \<times> format_args" where
  "next_word a =
     (if gp_index a < gp_count a then (gp a (gp_index a), a\<lparr>gp_index := gp_index a + 1\<rparr>)
      else (overflow_area a (overflow_next a), a\<lparr>overflow_next := overflow_next a + 1\<rparr>))"

definition next_double :: "format_args \<Rightarrow> f64 \<times> format_args" where
  "next_double a =
     (if fp_index a < fp_count a then (fp a (fp_index a), a\<lparr>fp_index := fp_index a + 1\<rparr>)
      else (overflow_area a (overflow_next a), a\<lparr>overflow_next := overflow_next a + 1\<rparr>))"

definition word_to_int :: "u64 \<Rightarrow> int" where
  "word_to_int w =
     (let v = ucast w :: u32; max_value = drop_bit 1 (NOT 0)
      in if v \<le> max_value then uint v else - 1 - uint (NOT v))"

definition word_to_long_long :: "u64 \<Rightarrow> int" where
  "word_to_long_long w =
     (let max_value = drop_bit 1 (NOT 0) in if w \<le> max_value then uint w else - 1 - uint (NOT w))"

definition next_signed :: "format_args \<Rightarrow> format_length \<Rightarrow> int \<times> format_args" where
  "next_signed a len =
     (let (w, a') = next_word a
      in (if len = LEN_HH then sint (word_of_int (word_to_int w) :: 8 word)
          else if len = LEN_H then sint (word_of_int (word_to_int w) :: 16 word)
          else if len = LEN_L \<or> len = LEN_LL then word_to_long_long w
          else word_to_int w, a'))"

definition next_unsigned :: "format_args \<Rightarrow> format_length \<Rightarrow> u64 \<times> format_args" where
  "next_unsigned a len =
     (let (w, a') = next_word a
      in (if len = LEN_HH then ucast (ucast (ucast w :: u32) :: 8 word)
          else if len = LEN_H then ucast (ucast (ucast w :: u32) :: 16 word)
          else if len = LEN_L \<or> len = LEN_LL then w
          else ucast (ucast w :: u32), a'))"

subsection \<open>The sinks\<close>

definition reserve_count :: "nat \<Rightarrow> 'k sink \<Rightarrow> bool \<times> 'k sink" where
  "reserve_count amount s =
     (if unat (MINI_PRINTF_INT_MAX - out_count s) < amount then (False, set_fmt_errno EINVAL s)
      else (True, s\<lparr>out_count := out_count s + of_nat amount\<rparr>))"

definition sink_write :: "'k sys \<Rightarrow> byte list \<Rightarrow> 'k emitter" where
  "sink_write K bytes s =
     (case sink_kind s of
        SINK_FILE \<Rightarrow>
          map_option (\<lambda>(written, c). (written = length bytes, s\<lparr>sink_io := c\<rparr>)) (stdio_write K bytes (sink_io s))
      | SINK_MEMORY \<Rightarrow>
          Some (True,
            if sink_size s \<noteq> 0 \<and> sink_stored s < sink_size s - 1 then
              let available = (sink_size s - 1) - sink_stored s;
                  copied = (if length bytes < available then length bytes else available);
                  stored = sink_stored s + copied
              in s\<lparr>sink_buffer := (buf_put (sink_buffer s) (sink_stored s) (take copied bytes))(stored := 0),
                   sink_stored := stored\<rparr>
            else s))"

definition emit_bytes :: "'k sys \<Rightarrow> byte list \<Rightarrow> 'k emitter" where
  "emit_bytes K bytes s =
     (let (ok, s') = reserve_count (length bytes) s in if \<not> ok then Some (False, s') else sink_write K bytes s')"

function repeat_loop :: "'k sys \<Rightarrow> byte \<Rightarrow> nat \<Rightarrow> 'k emitter" where
  "repeat_loop K b amount =
     (if amount \<noteq> 0 then
        let chunk = (if MINI_FORMAT_PAD_CHUNK < amount then MINI_FORMAT_PAD_CHUNK else amount)
        in emit_then (emit_bytes K (replicate chunk b)) (repeat_loop K b (amount - chunk))
      else emit_nothing)"
  by auto
termination
  by (relation "measure (\<lambda>(K, b, amount). amount)") (auto simp: MINI_FORMAT_PAD_CHUNK_def)

declare repeat_loop.simps [simp del]

definition emit_repeat :: "'k sys \<Rightarrow> byte \<Rightarrow> u32 \<Rightarrow> 'k emitter" where
  "emit_repeat K b amount s =
     (if MINI_PRINTF_INT_MAX - out_count s < amount then Some (False, set_fmt_errno EINVAL s)
      else repeat_loop K b (unat amount) s)"


subsection \<open>Directives\<close>

definition is_digit :: "byte \<Rightarrow> bool" where
  "is_digit c = (ch CHR ''0'' \<le> c \<and> c \<le> ch CHR ''9'')"

text \<open>The result of the source, where the cursor is then, and the number stored.\<close>

partial_function (option) decimal_loop :: "mem \<Rightarrow> addr \<Rightarrow> u32 \<Rightarrow> (int \<times> addr \<times> u32) option" where
  "decimal_loop m p result =
     (if is_digit (m p) then
        let digit = ucast (m p - ch CHR ''0'')
        in if (MINI_PRINTF_INT_MAX - digit) div 10 < result then Some (- 1, p, 0)
           else decimal_loop m (p + 1) (result * 10 + digit)
      else Some (1, p, result))"

definition parse_decimal :: "mem \<Rightarrow> addr \<Rightarrow> (int \<times> addr \<times> u32) option" where
  "parse_decimal m p = (if \<not> is_digit (m p) then Some (0, p, 0) else decimal_loop m p 0)"

definition negative_int_width :: "int \<Rightarrow> u32" where
  "negative_int_width v = 0 - word_of_int v"

definition empty_spec :: format_spec where
  "empty_spec = \<lparr>spec_left = False, spec_plus = False, spec_space = False, alternate = False, spec_zero = False,
     spec_width = 0, precision_set = False, precision = 0, spec_length = LEN_NONE, conversion = 0\<rparr>"

partial_function (option) parse_flags :: "mem \<Rightarrow> addr \<Rightarrow> format_spec \<Rightarrow> (addr \<times> format_spec) option" where
  "parse_flags m p spec =
     (if m p = ch CHR ''-'' then parse_flags m (p + 1) (spec\<lparr>spec_left := True\<rparr>)
      else if m p = ch CHR ''+'' then parse_flags m (p + 1) (spec\<lparr>spec_plus := True\<rparr>)
      else if m p = ch CHR '' '' then parse_flags m (p + 1) (spec\<lparr>spec_space := True\<rparr>)
      else if m p = ch CHR ''#'' then parse_flags m (p + 1) (spec\<lparr>alternate := True\<rparr>)
      else if m p = ch CHR ''0'' then parse_flags m (p + 1) (spec\<lparr>spec_zero := True\<rparr>)
      else Some (p, spec))"

text \<open>Width and precision: \<^term>\<open>Some None\<close> is a rejected directive.\<close>

type_synonym spec_step = "(addr \<times> format_spec \<times> format_args) option option"

definition parse_width :: "mem \<Rightarrow> addr \<Rightarrow> format_spec \<Rightarrow> format_args \<Rightarrow> spec_step" where
  "parse_width m p spec a =
     (if m p = ch CHR ''*'' then
        let (w, a') = next_word a; width = word_to_int w
        in if width < 0 then
             let spec' = spec\<lparr>spec_left := True, spec_width := negative_int_width width\<rparr>
             in Some (if MINI_PRINTF_INT_MAX < spec_width spec' then None else Some (p + 1, spec', a'))
           else Some (Some (p + 1, spec\<lparr>spec_width := word_of_int width\<rparr>, a'))
      else map_option (\<lambda>(parsed, p', v).
             if parsed < 0 then None
             else Some (p', if parsed = 0 then spec else spec\<lparr>spec_width := v\<rparr>, a)) (parse_decimal m p))"

definition parse_precision :: "mem \<Rightarrow> addr \<Rightarrow> format_spec \<Rightarrow> format_args \<Rightarrow> spec_step" where
  "parse_precision m p spec a =
     (if m p = ch CHR ''.'' then
        let spec' = spec\<lparr>precision_set := True\<rparr>
        in if m (p + 1) = ch CHR ''*'' then
             let (w, a') = next_word a; v = word_to_int w
             in Some (Some (p + 2,
                  if v < 0 then spec'\<lparr>precision_set := False\<rparr> else spec'\<lparr>precision := word_of_int v\<rparr>, a'))
           else map_option (\<lambda>(parsed, p', v).
                  if parsed < 0 then None
                  else Some (p', if parsed = 0 then spec'\<lparr>precision := 0\<rparr> else spec'\<lparr>precision := v\<rparr>, a))
                (parse_decimal m (p + 1))
      else Some (Some (p, spec, a)))"

definition parse_length :: "mem \<Rightarrow> addr \<Rightarrow> addr \<times> format_length" where
  "parse_length m p =
     (if m p = ch CHR ''h'' then (if m (p + 1) = ch CHR ''h'' then (p + 2, LEN_HH) else (p + 1, LEN_H))
      else if m p = ch CHR ''l'' then (if m (p + 1) = ch CHR ''l'' then (p + 2, LEN_LL) else (p + 1, LEN_L))
      else (p, LEN_NONE))"

text \<open>The cursor is behind the percent sign.\<close>

definition parse_spec :: "mem \<Rightarrow> addr \<Rightarrow> format_args \<Rightarrow> spec_step" where
  "parse_spec m p a =
     Option.bind (parse_flags m p empty_spec) (\<lambda>(p1, spec1).
     Option.bind (parse_width m p1 spec1 a) (\<lambda>width. case width of
         None \<Rightarrow> Some None
       | Some (p2, spec2, a2) \<Rightarrow>
     Option.bind (parse_precision m p2 spec2 a2) (\<lambda>prec. case prec of
         None \<Rightarrow> Some None
       | Some (p3, spec3, a3) \<Rightarrow>
           let (p4, len) = parse_length m p3; spec4 = spec3\<lparr>spec_length := len\<rparr>
           in if m p4 = 0 then Some None
              else Some (Some (p4 + 1, spec4\<lparr>conversion := m p4\<rparr>, a3)))))"

subsection \<open>Strings and characters\<close>

partial_function (option) string_length_limit :: "mem \<Rightarrow> addr \<Rightarrow> bool \<Rightarrow> u32 \<Rightarrow> nat \<Rightarrow> nat option" where
  "string_length_limit m s limited limit len =
     (if m (s + len) \<noteq> 0 \<and> (\<not> limited \<or> len < unat limit) then string_length_limit m s limited limit (len + 1)
      else Some len)"

text \<open>A text between its padding. The width is compared with \<open>units\<close>, what the text counts for.\<close>

definition padding_for :: "u32 \<Rightarrow> nat \<Rightarrow> u32" where
  "padding_for width units = (if units < unat width then width - of_nat units else 0)"

definition emit_padded :: "'k sys \<Rightarrow> format_spec \<Rightarrow> nat \<Rightarrow> 'k emitter \<Rightarrow> 'k emitter" where
  "emit_padded K spec units body =
     emit_all [emit_if (\<not> spec_left spec) (emit_repeat K (ch CHR '' '') (padding_for (spec_width spec) units)),
       body,
       emit_if (spec_left spec) (emit_repeat K (ch CHR '' '') (padding_for (spec_width spec) units))]"

definition null_text :: mem where
  "null_text i = (if i < 6 then bytes_of ''(null)'' ! i else 0)"

definition emit_string :: "'k sys \<Rightarrow> mem \<Rightarrow> format_spec \<Rightarrow> addr \<Rightarrow> 'k emitter" where
  "emit_string K m spec s st =
     (let (m', s') = (if s = 0 then (null_text, 0) else (m, s))
      in Option.bind (string_length_limit m' s' (precision_set spec) (precision spec) 0) (\<lambda>len.
           emit_padded K spec len (emit_bytes K (read_bytes m' s' len)) st))"

definition emit_character :: "'k sys \<Rightarrow> format_spec \<Rightarrow> int \<Rightarrow> 'k emitter" where
  "emit_character K spec v = emit_padded K spec 1 (emit_bytes K [uchar v])"

text \<open>The bytes of a wide character from the initial state; \<^term>\<open>None\<close> is \<open>(size_t)-1\<close> with \<open>errno\<close> at \<open>EILSEQ\<close>.\<close>

definition encode_wide_value :: "wchar \<Rightarrow> bool \<Rightarrow> byte list option" where
  "encode_wide_value v u8 = encode u8 v"

definition emit_wide_character :: "'k sys \<Rightarrow> format_spec \<Rightarrow> int \<Rightarrow> 'k emitter" where
  "emit_wide_character K spec v s =
     (case encode_wide_value (word_of_int v) (sink_utf8 s) of
        None \<Rightarrow> emit_fail EILSEQ s
      | Some bytes \<Rightarrow>
          emit_padded K spec (if wide_semantics s then 1 else length bytes) (emit_bytes K bytes) s)"

definition wide_null_text :: wmem where
  "wide_null_text i = (if i < 6 then map of_char ''(null)'' ! i else 0)"

text \<open>The characters to write and the bytes they take, or an \<open>errno\<close>.\<close>

partial_function (option) wide_extent ::
  "wmem \<Rightarrow> addr \<Rightarrow> format_spec \<Rightarrow> bool \<Rightarrow> bool \<Rightarrow> nat \<Rightarrow> nat \<Rightarrow> (int + nat \<times> nat) option" where
  "wide_extent wm v spec u8 wide characters bytes_total =
     (if wm (v + characters) \<noteq> 0 then
        (case encode_wide_value (wm (v + characters)) u8 of
           None \<Rightarrow> Some (Inl EILSEQ)
         | Some bytes \<Rightarrow>
             if precision_set spec \<and>
                (if wide then unat (precision spec) \<le> characters
                 else unat (precision spec) < bytes_total + length bytes)
             then Some (Inr (characters, bytes_total))
             else if 2 ^ 64 - 1 - length bytes < bytes_total then Some (Inl EINVAL)
             else wide_extent wm v spec u8 wide (characters + 1) (bytes_total + length bytes))
      else Some (Inr (characters, bytes_total)))"

definition emit_encoded :: "'k sys \<Rightarrow> wchar \<Rightarrow> 'k emitter" where
  "emit_encoded K c s =
     (case encode_wide_value c (sink_utf8 s) of None \<Rightarrow> emit_fail EILSEQ s | Some bytes \<Rightarrow> emit_bytes K bytes s)"

definition emit_wide_string :: "'k sys \<Rightarrow> wmem \<Rightarrow> format_spec \<Rightarrow> addr \<Rightarrow> 'k emitter" where
  "emit_wide_string K wm spec v s =
     (let (wm', v') = (if v = 0 then (wide_null_text, 0) else (wm, v))
      in Option.bind (wide_extent wm' v' spec (sink_utf8 s) (wide_semantics s) 0 0) (\<lambda>extent. case extent of
           Inl e \<Rightarrow> emit_fail e s
         | Inr (characters, bytes_total) \<Rightarrow>
             let units = uint (of_nat (if wide_semantics s then characters else bytes_total) :: u32)
             in emit_padded K spec (nat units)
                  (emit_all (map (\<lambda>i. emit_encoded K (wm' (v' + i))) [0..<characters])) s))"

text \<open>One multibyte character, byte by byte: an \<open>errno\<close> or the bytes it takes.\<close>

partial_function (option) decode_loop :: "mem \<Rightarrow> addr \<Rightarrow> bool \<Rightarrow> nat \<Rightarrow> mbstate \<Rightarrow> (int + nat) option" where
  "decode_loop m v u8 used st =
     (let (converted, wc, ps, env) = mbrtowc_mode m True (Some (v + used)) 1 (Some st) u8
            \<lparr>mini_mbr_state = reset_state, mini_wcr_state = reset_state, mb_errno = 0\<rparr>
      in if converted = conv_error then Some (Inl (mb_errno env))
         else if converted \<noteq> conv_incomplete then Some (Inr (used + 1))
         else if m (v + (used + 1)) = 0 then Some (Inl EILSEQ)
         else decode_loop m v u8 (used + 1) (case ps of None \<Rightarrow> reset_state | Some st' \<Rightarrow> st'))"

definition decode_multibyte_character :: "mem \<Rightarrow> addr \<Rightarrow> bool \<Rightarrow> (int + nat) option" where
  "decode_multibyte_character m v u8 =
     (if v = 0 \<or> m v = 0 then Some (Inl EILSEQ) else decode_loop m v u8 0 reset_state)"

partial_function (option) multibyte_extent ::
  "mem \<Rightarrow> addr \<Rightarrow> format_spec \<Rightarrow> bool \<Rightarrow> nat \<Rightarrow> nat \<Rightarrow> (int + nat \<times> nat) option" where
  "multibyte_extent m cursor spec u8 characters bytes_total =
     (if m cursor \<noteq> 0 \<and> (\<not> precision_set spec \<or> characters < unat (precision spec)) then
        Option.bind (decode_multibyte_character m cursor u8) (\<lambda>decoded. case decoded of
            Inl e \<Rightarrow> Some (Inl e)
          | Inr len \<Rightarrow>
              if 2 ^ 64 - 1 - len < bytes_total then Some (Inl EINVAL)
              else multibyte_extent m (cursor + len) spec u8 (characters + 1) (bytes_total + len))
      else Some (Inr (characters, bytes_total)))"

definition emit_multibyte_string_wide :: "'k sys \<Rightarrow> mem \<Rightarrow> format_spec \<Rightarrow> addr \<Rightarrow> 'k emitter" where
  "emit_multibyte_string_wide K m spec v s =
     (let (m', v') = (if v = 0 then ((\<lambda>i. null_text (i - 1)), 1) else (m, v))
      in Option.bind (multibyte_extent m' v' spec (sink_utf8 s) 0 0) (\<lambda>extent. case extent of
           Inl e \<Rightarrow> emit_fail e s
         | Inr (characters, bytes_total) \<Rightarrow>
             emit_padded K spec characters (emit_bytes K (read_bytes m' v' bytes_total)) s))"


subsection \<open>Integers\<close>

definition lower_digits :: "byte list" where "lower_digits = bytes_of ''0123456789abcdef''"
definition upper_digits :: "byte list" where "upper_digits = bytes_of ''0123456789ABCDEF''"

text \<open>The digits of a number, the last one first.\<close>

partial_function (option) make_digits :: "u64 \<Rightarrow> u32 \<Rightarrow> bool \<Rightarrow> byte list \<Rightarrow> byte list option" where
  "make_digits v base uppercase digits =
     (let digits' = digits @ [(if uppercase then upper_digits else lower_digits) ! unat (v mod ucast base)];
          v' = v div ucast base
      in if v' \<noteq> 0 then make_digits v' base uppercase digits' else Some digits')"

text \<open>The sign, and the mark of a base, in front of a number.\<close>

definition sign_prefix :: "format_spec \<Rightarrow> bool \<Rightarrow> byte list" where
  "sign_prefix spec neg =
     (if neg then bytes_of ''-'' else if spec_plus spec then bytes_of ''+''
      else if spec_space spec then bytes_of '' '' else [])"

definition emit_number ::
  "'k sys \<Rightarrow> format_spec \<Rightarrow> u64 \<Rightarrow> bool \<Rightarrow> u32 \<Rightarrow> bool \<Rightarrow> bool \<Rightarrow> 'k emitter" where
  "emit_number K spec magnitude neg base uppercase signed_conversion s =
     Option.bind (make_digits magnitude base uppercase []) (\<lambda>digits.
       let digits = (if precision_set spec \<and> precision spec = 0 \<and> magnitude = 0 then [] else digits);
           prefix_text = (if signed_conversion then sign_prefix spec neg else []) @
             (if alternate spec \<and> base = 16 \<and> magnitude \<noteq> 0
              then bytes_of ''0'' @ (if uppercase then bytes_of ''X'' else bytes_of ''x'') else []);
           precision_zeros = (if precision_set spec \<and> length digits < unat (precision spec)
             then precision spec - of_nat (length digits) else 0);
           (digits, precision_zeros) =
             (if alternate spec \<and> base = 8 then
                if digits = [] then ([ch CHR ''0''], precision_zeros)
                else if precision_zeros = 0 \<and> digits ! (length digits - 1) \<noteq> ch CHR ''0'' then (digits, 1)
                else (digits, precision_zeros)
              else (digits, precision_zeros));
           body_length = of_nat (length prefix_text) + precision_zeros + of_nat (length digits);
           padding = (if body_length < spec_width spec then spec_width spec - body_length else 0);
           zeros = (spec_zero spec \<and> \<not> spec_left spec \<and> \<not> precision_set spec);
           zero_padding = (if zeros then padding else 0);
           spaces = (if zeros then 0 else padding)
       in emit_all
            ([emit_if (\<not> spec_left spec) (emit_repeat K (ch CHR '' '') spaces),
              emit_if (prefix_text \<noteq> []) (emit_bytes K prefix_text),
              emit_repeat K (ch CHR ''0'') zero_padding,
              emit_repeat K (ch CHR ''0'') precision_zeros] @
             map (\<lambda>d. emit_bytes K [d]) (rev digits) @
             [emit_if (spec_left spec) (emit_repeat K (ch CHR '' '') spaces)]) s)"

subsection \<open>Floating point\<close>

definition decompose_double :: "f64 \<Rightarrow> float_parts" where
  "decompose_double bits =
     (let e = ucast (drop_bit 52 bits AND 0x7ff) :: u32; f = bits AND 0xfffffffffffff
      in \<lparr>float_kind = (if e = 0x7ff then (if f = 0 then FLOAT_INFINITY else FLOAT_NAN) else FLOAT_FINITE),
          negative = (drop_bit 63 bits \<noteq> 0), exponent_field = e, fraction = f\<rparr>)"

definition is_upper_float :: "byte \<Rightarrow> bool" where
  "is_upper_float c = (c = ch CHR ''F'' \<or> c = ch CHR ''E'' \<or> c = ch CHR ''G'' \<or> c = ch CHR ''A'')"

text \<open>\<open>float_sign\<close> gives the same text as the sign of an integer.\<close>

definition emit_float_text ::
  "'k sys \<Rightarrow> format_spec \<Rightarrow> bool \<Rightarrow> byte list \<Rightarrow> byte list \<Rightarrow> bool \<Rightarrow> 'k emitter" where
  "emit_float_text K spec neg radix_prefix txt zero_allowed =
     (let sign = sign_prefix spec neg;
          total_length = of_nat (length sign) + of_nat (length radix_prefix) + of_nat (length txt);
          padding = (if total_length < spec_width spec then spec_width spec - total_length else 0);
          zeros = (spec_zero spec \<and> \<not> spec_left spec \<and> zero_allowed)
      in emit_all
           [emit_if (\<not> spec_left spec) (emit_repeat K (ch CHR '' '') (if zeros then 0 else padding)),
            emit_if (sign \<noteq> []) (emit_bytes K sign),
            emit_if (radix_prefix \<noteq> []) (emit_bytes K radix_prefix),
            emit_repeat K (ch CHR ''0'') (if zeros then padding else 0),
            emit_if (txt \<noteq> []) (emit_bytes K txt),
            emit_if (spec_left spec) (emit_repeat K (ch CHR '' '') (if zeros then 0 else padding))])"

definition decimal_scale :: "u32 \<Rightarrow> u64" where
  "decimal_scale p = [1, 10, 100, 1000, 10000, 100000, 1000000, 10000000, 100000000, 1000000000] ! unat p"

text \<open>\<open>'0' + n % 10\<close>, and the last digits of a number, the first one first.\<close>

definition digit_char :: "'a::len word \<Rightarrow> byte" where
  "digit_char n = ch CHR ''0'' + ucast (n mod 10)"

fun low_digits :: "nat \<Rightarrow> u64 \<Rightarrow> byte list" where
  "low_digits 0 v = []"
| "low_digits (Suc n) v = low_digits n (v div 10) @ [digit_char v]"

text \<open>\<open>(double)n\<close>.\<close>

definition double_of :: "u64 \<Rightarrow> f64" where "double_of n = f64_of_nat (unat n)"

function exponent_reverse :: "u32 \<Rightarrow> nat \<Rightarrow> byte list \<Rightarrow> byte list" where
  "exponent_reverse magnitude minimum_digits reverse =
     (let reverse' = reverse @ [digit_char magnitude]; magnitude' = magnitude div 10
      in if magnitude' \<noteq> 0 \<or> length reverse' < minimum_digits
         then exponent_reverse magnitude' minimum_digits reverse' else reverse')"
  by auto
termination
proof (relation "measures [\<lambda>(n, d, r). unat n, \<lambda>(n, d, r). d - length r]", goal_cases)
  case (2 magnitude minimum_digits reverse r' q)
  then show ?case
  proof (cases "magnitude = 0")
    case False
    then have "unat (magnitude div 10) < unat magnitude" by (simp add: unat_div unat_gt_0)
    then show ?thesis using 2 by simp
  qed auto
qed simp

declare exponent_reverse.simps [simp del]

definition append_exponent :: "byte \<Rightarrow> int \<Rightarrow> nat \<Rightarrow> byte list" where
  "append_exponent marker e minimum_digits =
     (let magnitude = (if e < 0 then word_of_int (- (e + 1)) + 1 else word_of_int e)
      in [marker, if e < 0 then ch CHR ''-'' else ch CHR ''+''] @ rev (exponent_reverse magnitude minimum_digits []))"

definition f64_ten :: f64 where "f64_ten = f64_lit 10 0"
definition f64_one :: f64 where "f64_one = f64_lit 1 0"
definition f64_half :: f64 where "f64_half = f64_lit 5 (- 1)"
definition f64_two64 :: f64 where "f64_two64 = f64_lit 18446744073709551616 0"

text \<open>Round to nearest, ties to even: whether the remainder asks for one more.\<close>

definition rounds_up :: "f64 \<Rightarrow> u64 \<Rightarrow> bool" where
  "rounds_up remainder parity =
     (f64_less f64_half remainder \<or> f64_eq remainder f64_half \<and> parity AND 1 \<noteq> 0)"

partial_function (option) scale_down :: "f64 \<Rightarrow> int \<Rightarrow> (f64 \<times> int) option" where
  "scale_down normalized e =
     (if f64_less f64_ten normalized \<or> f64_eq normalized f64_ten
      then scale_down (f64_div normalized f64_ten) (e + 1) else Some (normalized, e))"

partial_function (option) scale_up :: "f64 \<Rightarrow> int \<Rightarrow> (f64 \<times> int) option" where
  "scale_up normalized e =
     (if f64_less normalized f64_one then scale_up (f64_mul normalized f64_ten) (e - 1) else Some (normalized, e))"

definition make_significant_decimal :: "f64 \<Rightarrow> u32 \<Rightarrow> (byte list \<times> int) option" where
  "make_significant_decimal v digit_count =
     (if f64_eq v 0 then Some (replicate (unat digit_count) (ch CHR ''0''), 0)
      else Option.bind (scale_down v 0) (\<lambda>(n1, e1). Option.bind (scale_up n1 e1) (\<lambda>(normalized, e).
        let scale = decimal_scale (digit_count - 1);
            scaled = f64_mul normalized (double_of scale);
            magnitude = f64_to_u64 scaled;
            remainder = f64_sub scaled (double_of magnitude);
            magnitude = (if rounds_up remainder magnitude then magnitude + 1 else magnitude);
            (magnitude, e) = (if magnitude = scale * 10 then (scale, e + 1) else (magnitude, e))
        in Some (low_digits (unat digit_count) magnitude, e))))"

text \<open>The texts of the conversions; \<^term>\<open>Some None\<close> is a refused precision or value.\<close>

definition precision_or :: "u32 \<Rightarrow> format_spec \<Rightarrow> u32" where
  "precision_or d spec = (if precision_set spec then precision spec else d)"

definition make_fixed_text :: "format_spec \<Rightarrow> f64 \<Rightarrow> byte list option option" where
  "make_fixed_text spec v =
     (let prec = precision_or 6 spec
      in if MINI_FLOAT_DECIMAL_MAX_PRECISION < prec \<or> \<not> f64_less v f64_two64 then Some None
         else
           let whole = f64_to_u64 v;
               scale = decimal_scale prec;
               fbits = f64_sub v (double_of whole);
               scaled = f64_mul fbits (double_of scale);
               fractional = f64_to_u64 scaled;
               remainder = f64_sub scaled (double_of fractional);
               up = rounds_up remainder (if prec = 0 then whole else fractional);
               fractional = (if up then fractional + 1 else fractional);
               (whole, fractional) = (if up \<and> fractional = scale then (whole + 1, 0) else (whole, fractional))
           in Option.bind (make_digits whole 10 False []) (\<lambda>reverse.
                Some (Some (rev reverse @ (if prec \<noteq> 0 \<or> alternate spec then bytes_of ''.'' else []) @
                  (if prec \<noteq> 0 then low_digits (unat prec) fractional else [])))))"

definition make_scientific_text :: "format_spec \<Rightarrow> f64 \<Rightarrow> byte list option option" where
  "make_scientific_text spec v =
     (let prec = precision_or 6 spec
      in if MINI_FLOAT_DECIMAL_MAX_PRECISION < prec then Some None
         else Option.bind (make_significant_decimal v (prec + 1)) (\<lambda>(digits, e).
           Some (Some ([digits ! 0] @
             (if prec \<noteq> 0 \<or> alternate spec then bytes_of ''.'' @ map (\<lambda>i. digits ! i) [1..<Suc (unat prec)] else []) @
             append_exponent (if conversion spec = ch CHR ''E'' then ch CHR ''E'' else ch CHR ''e'') e 2))))"

text \<open>Trailing zeros are dropped down to the first digit.\<close>

fun effective_digits :: "byte list \<Rightarrow> nat \<Rightarrow> nat" where
  "effective_digits digits (Suc (Suc n)) =
     (if digits ! Suc n = ch CHR ''0'' then effective_digits digits (Suc n) else Suc (Suc n))"
| "effective_digits digits n = n"

definition make_general_text :: "format_spec \<Rightarrow> f64 \<Rightarrow> byte list option option" where
  "make_general_text spec v =
     (let prec = precision_or 6 spec; prec = (if prec = 0 then 1 else prec)
      in if MINI_FLOAT_DECIMAL_MAX_PRECISION < prec then Some None
         else Option.bind (make_significant_decimal v prec) (\<lambda>(digits, e).
           let effective = (if alternate spec then unat prec else effective_digits digits (unat prec))
           in Some (Some (
             if e < - 4 \<or> sint prec \<le> e then
               [digits ! 0] @
               (if 1 < effective \<or> alternate spec then bytes_of ''.'' @ map (\<lambda>i. digits ! i) [1..<effective] else []) @
               append_exponent (if conversion spec = ch CHR ''G'' then ch CHR ''E'' else ch CHR ''e'') e 2
             else
               let point = e + 1
               in if point \<le> 0 then
                    bytes_of ''0.'' @ replicate (nat (- point)) (ch CHR ''0'') @ map (\<lambda>i. digits ! i) [0..<effective]
                  else
                    map (\<lambda>i. if i < effective then digits ! i else ch CHR ''0'') [0..<nat point] @
                    (if nat point < effective \<or> alternate spec
                     then bytes_of ''.'' @ map (\<lambda>i. digits ! i) [nat point..<effective] else [])))))"

definition hex_digit :: "u32 \<Rightarrow> bool \<Rightarrow> byte" where
  "hex_digit v uppercase = (if uppercase then upper_digits else lower_digits) ! unat (v AND 15)"

fun trim_hex :: "nat \<Rightarrow> u64 \<Rightarrow> nat \<times> u64" where
  "trim_hex 0 kept = (0, kept)"
| "trim_hex (Suc n) kept = (if kept AND 0xf = 0 then trim_hex n (drop_bit 4 kept) else (Suc n, kept))"

text \<open>The leading digit, the number of hexadecimal places and the digits kept.\<close>

definition hex_rounded :: "format_spec \<Rightarrow> u64 \<Rightarrow> u32 \<Rightarrow> u32 \<times> nat \<times> u64" where
  "hex_rounded spec fbits leading =
     (if \<not> precision_set spec then
        let (places, kept) = trim_hex (unat MINI_FLOAT_HEX_MAX_PRECISION) fbits in (leading, places, kept)
      else if precision spec = MINI_FLOAT_HEX_MAX_PRECISION then (leading, unat (precision spec), fbits)
      else
        let places = unat (precision spec);
            discard = unat ((MINI_FLOAT_HEX_MAX_PRECISION - precision spec) * 4);
            mask_bits = push_bit discard 1 - 1;
            remainder = fbits AND mask_bits;
            half = push_bit (discard - 1) 1;
            kept = (if places = 0 then 0 else drop_bit discard fbits);
            parity = (if places = 0 then ucast leading else kept)
        in if half < remainder \<or> remainder = half \<and> parity AND 1 \<noteq> 0 then
             (if places = 0 then (leading + 1, places, kept)
              else if kept + 1 = push_bit (places * 4) 1 then (leading + 1, places, 0)
              else (leading, places, kept + 1))
           else (leading, places, kept))"

definition make_hex_text :: "format_spec \<Rightarrow> float_parts \<Rightarrow> byte list option" where
  "make_hex_text spec parts =
     (if precision_set spec \<and> MINI_FLOAT_HEX_MAX_PRECISION < precision spec then None
      else
        let uppercase = (conversion spec = ch CHR ''A'');
            (leading, exponent2) =
              (if exponent_field parts = 0 \<and> fraction parts = 0 then (0, 0)
               else if exponent_field parts = 0 then (0, - 1022)
               else (1, uint (exponent_field parts) - 1023));
            (leading, places, kept) = hex_rounded spec (fraction parts) leading
        in Some ([hex_digit leading uppercase] @
             (if places \<noteq> 0 \<or> alternate spec then
                bytes_of ''.'' @
                map (\<lambda>i. hex_digit (ucast (drop_bit ((places - 1 - i) * 4) kept)) uppercase) [0..<places]
              else []) @
             append_exponent (if uppercase then ch CHR ''P'' else ch CHR ''p'') exponent2 1))"

definition emit_floating :: "'k sys \<Rightarrow> format_spec \<Rightarrow> f64 \<Rightarrow> 'k emitter" where
  "emit_floating K spec v s =
     (let uppercase = is_upper_float (conversion spec);
          parts = decompose_double v;
          magnitude = (if negative parts then f64_minus v else v);
          c = conversion spec;
          emit_text = (\<lambda>radix_prefix made. Option.bind made (\<lambda>txt. case txt of
              None \<Rightarrow> emit_fail EINVAL s
            | Some bs \<Rightarrow> emit_float_text K spec (negative parts) radix_prefix bs True s))
      in if spec_length spec \<noteq> LEN_NONE \<and> spec_length spec \<noteq> LEN_L then emit_fail EINVAL s
         else if float_kind parts \<noteq> FLOAT_FINITE then
           emit_float_text K spec (negative parts) []
             (if float_kind parts = FLOAT_INFINITY then (if uppercase then bytes_of ''INF'' else bytes_of ''inf'')
              else (if uppercase then bytes_of ''NAN'' else bytes_of ''nan'')) False s
         else if c = ch CHR ''f'' \<or> c = ch CHR ''F'' then emit_text [] (make_fixed_text spec magnitude)
         else if c = ch CHR ''e'' \<or> c = ch CHR ''E'' then emit_text [] (make_scientific_text spec magnitude)
         else if c = ch CHR ''g'' \<or> c = ch CHR ''G'' then emit_text [] (make_general_text spec magnitude)
         else if c = ch CHR ''a'' \<or> c = ch CHR ''A'' then
           emit_text (if uppercase then bytes_of ''0X'' else bytes_of ''0x'') (Some (make_hex_text spec parts))
         else emit_fail EINVAL s)"


subsection \<open>Conversions and the loop over the format\<close>

text \<open>A pointer to wide characters counts in units of \<open>wchar_t\<close>.\<close>

definition wide_pointer :: "u64 \<Rightarrow> addr" where "wide_pointer w = unat w div 4"

text \<open>The arguments left after a conversion and what it emits.\<close>

definition emit_conversion ::
  "'k sys \<Rightarrow> mem \<Rightarrow> wmem \<Rightarrow> format_spec \<Rightarrow> format_args \<Rightarrow> format_args \<times> 'k emitter" where
  "emit_conversion K m wm spec a =
     (let c = conversion spec; len = spec_length spec
      in if c = ch CHR ''s'' then
           (if len = LEN_NONE then
              let (w, a') = next_word a
              in (a', \<lambda>s. if wide_semantics s then emit_multibyte_string_wide K m spec (unat w) s
                          else emit_string K m spec (unat w) s)
            else if len = LEN_L then
              let (w, a') = next_word a in (a', emit_wide_string K wm spec (wide_pointer w))
            else (a, emit_fail EINVAL))
         else if c = ch CHR ''c'' then
           (if precision_set spec then (a, emit_fail EINVAL)
            else let (w, a') = next_word a; v = word_to_int w
              in (a', if len = LEN_NONE then
                        (\<lambda>s. if wide_semantics s \<and> 0x7f < uint (uchar v) then emit_fail EILSEQ s
                              else emit_character K spec v s)
                      else if len = LEN_L then emit_wide_character K spec v
                      else emit_fail EINVAL))
         else if c = ch CHR ''d'' \<or> c = ch CHR ''i'' then
           let (v, a') = next_signed a len;
               magnitude = (if v < 0 then 0 - word_of_int v else word_of_int v)
           in (a', emit_number K spec magnitude (v < 0) 10 False True)
         else if c = ch CHR ''u'' \<or> c = ch CHR ''o'' \<or> c = ch CHR ''x'' \<or> c = ch CHR ''X'' then
           let (v, a') = next_unsigned a len;
               base = (if c = ch CHR ''o'' then 8 else if c = ch CHR ''x'' \<or> c = ch CHR ''X'' then 16 else 10)
           in (a', emit_number K spec v False base (c = ch CHR ''X'') False)
         else if c \<in> {ch CHR ''f'', ch CHR ''F'', ch CHR ''e'', ch CHR ''E'', ch CHR ''g'', ch CHR ''G'', ch CHR ''a'', ch CHR ''A''} then
           let (v, a') = next_double a in (a', emit_floating K spec v)
         else if c = ch CHR ''%'' then
           (a, if len \<noteq> LEN_NONE \<or> precision_set spec then emit_fail EINVAL
               else emit_character K spec (ch CHR ''%''))
         else (a, emit_fail EINVAL))"

partial_function (option) literal_end :: "mem \<Rightarrow> addr \<Rightarrow> addr option" where
  "literal_end m cursor =
     (if m cursor \<noteq> 0 \<and> m cursor \<noteq> ch CHR ''%'' then literal_end m (cursor + 1) else Some cursor)"

partial_function (option) dispatch_loop ::
  "'k sys \<Rightarrow> mem \<Rightarrow> wmem \<Rightarrow> addr \<Rightarrow> format_args \<Rightarrow> 'k sink \<Rightarrow> (int \<times> 'k sink) option" where
  "dispatch_loop K m wm cursor a s =
     (if m cursor \<noteq> 0 then
        Option.bind (literal_end m cursor) (\<lambda>cursor'.
        Option.bind (emit_if (cursor' \<noteq> cursor) (emit_bytes K (read_bytes m cursor (cursor' - cursor))) s) (\<lambda>(ok, s1).
          if \<not> ok then Some (c_EOF, s1)
          else if m cursor' = 0 then Some (sint (out_count s1), s1)
          else Option.bind (parse_spec m (cursor' + 1) a) (\<lambda>parsed. case parsed of
              None \<Rightarrow> Some (c_EOF, set_fmt_errno EINVAL s1)
            | Some (next_cursor, spec, a') \<Rightarrow>
                Option.bind (snd (emit_conversion K m wm spec a') s1) (\<lambda>(ok, s2).
                  if \<not> ok then Some (c_EOF, s2)
                  else dispatch_loop K m wm next_cursor (fst (emit_conversion K m wm spec a')) s2))))
      else Some (sint (out_count s), s))"

text \<open>Null pointers are \<^term>\<open>None\<close>.\<close>

definition format_dispatch ::
  "'k sys \<Rightarrow> mem \<Rightarrow> wmem \<Rightarrow> addr \<Rightarrow> format_args option \<Rightarrow> 'k sink \<Rightarrow> (int \<times> 'k sink) option" where
  "format_dispatch K m wm format args s =
     (case args of
        None \<Rightarrow> Some (c_EOF, set_fmt_errno EINVAL s)
      | Some a \<Rightarrow>
          if format = 0 then Some (c_EOF, set_fmt_errno EINVAL s)
          else dispatch_loop K m wm format a (s\<lparr>out_count := 0\<rparr>))"

definition file_sink :: "'k io \<Rightarrow> bool \<Rightarrow> 'k sink" where
  "file_sink c u8 = \<lparr>sink_kind = SINK_FILE, sink_io = c, sink_buffer = \<lambda>_. 0, sink_size = 0, sink_stored = 0,
     sink_utf8 = u8, wide_semantics = False, out_count = 0\<rparr>"

text \<open>\<open>__mini_format_dispatch\<close> on a stream that is not null.\<close>

definition mini_format_dispatch ::
  "'k sys \<Rightarrow> mem \<Rightarrow> wmem \<Rightarrow> bool \<Rightarrow> 'k io \<Rightarrow> addr \<Rightarrow> format_args option \<Rightarrow> (int \<times> 'k io) option" where
  "mini_format_dispatch K m wm u8 c format args =
     (if \<not> has (mode (strm c)) MINI_FILE_WRITABLE
      then Some (c_EOF, mark_error EINVAL c)
      else map_option (\<lambda>(r, s). (r, sink_io s)) (format_dispatch K m wm format args (file_sink c u8)))"

text \<open>The buffer: null is \<^term>\<open>None\<close>. The stream of a memory sink is not used, only \<open>errno\<close>.\<close>

definition memory_sink :: "'k io \<Rightarrow> (nat \<Rightarrow> byte) \<Rightarrow> nat \<Rightarrow> bool \<Rightarrow> bool \<Rightarrow> 'k sink" where
  "memory_sink c buf n u8 wide = \<lparr>sink_kind = SINK_MEMORY, sink_io = c,
     sink_buffer = (if n \<noteq> 0 then buf(0 := 0) else buf), sink_size = n, sink_stored = 0,
     sink_utf8 = u8, wide_semantics = wide, out_count = 0\<rparr>"

definition snprintf_dispatch_mode ::
  "'k sys \<Rightarrow> mem \<Rightarrow> wmem \<Rightarrow> 'k io \<Rightarrow> (nat \<Rightarrow> byte) option \<Rightarrow> nat \<Rightarrow> addr \<Rightarrow> format_args option \<Rightarrow> bool \<Rightarrow> bool
   \<Rightarrow> (int \<times> (nat \<Rightarrow> byte) option \<times> 'k io) option" where
  "snprintf_dispatch_mode K m wm c buffer n format args u8 wide =
     (case buffer of
        None \<Rightarrow>
          if n \<noteq> 0 then Some (c_EOF, None, c\<lparr>io_errno := EINVAL\<rparr>)
          else map_option (\<lambda>(r, s). (r, None, sink_io s))
                 (format_dispatch K m wm format args (memory_sink c (\<lambda>_. 0) 0 u8 wide))
      | Some buf \<Rightarrow>
          map_option (\<lambda>(r, s). (r, Some (sink_buffer s), sink_io s))
            (format_dispatch K m wm format args (memory_sink c buf n u8 wide)))"

definition mini_snprintf_dispatch ::
  "'k sys \<Rightarrow> mem \<Rightarrow> wmem \<Rightarrow> bool \<Rightarrow> 'k io \<Rightarrow> (nat \<Rightarrow> byte) option \<Rightarrow> nat \<Rightarrow> addr \<Rightarrow> format_args option
   \<Rightarrow> (int \<times> (nat \<Rightarrow> byte) option \<times> 'k io) option" where
  "mini_snprintf_dispatch K m wm u8 c buffer n format args =
     snprintf_dispatch_mode K m wm c buffer n format args u8 False"

record public_va_list =
  gp_offset :: u32
  fp_offset :: u32
  overflow_arg_area :: "nat \<Rightarrow> u64"
  reg_save_area :: addr

definition load_public_word :: "mem \<Rightarrow> addr \<Rightarrow> u64" where
  "load_public_word m p = word_rcat (rev (read_bytes m p 8))"

definition normalize_public_va_list :: "mem \<Rightarrow> public_va_list \<Rightarrow> format_args" where
  "normalize_public_va_list m st =
     \<lparr>gp = \<lambda>i. load_public_word m (reg_save_area st + unat (gp_offset st) + i * 8),
      fp = \<lambda>i. load_public_word m (reg_save_area st + unat (fp_offset st) + i * 16),
      overflow_area = overflow_arg_area st, overflow_next = 0,
      gp_index = 0,
      gp_count = (if gp_offset st < 48 then min 5 (unat ((48 - gp_offset st) div 8)) else 0),
      fp_index = 0,
      fp_count = (if fp_offset st < 176 then min 8 (unat ((176 - fp_offset st) div 16)) else 0)\<rparr>"

definition mini_vsnprintf_wide_mode ::
  "'k sys \<Rightarrow> mem \<Rightarrow> wmem \<Rightarrow> 'k io \<Rightarrow> (nat \<Rightarrow> byte) option \<Rightarrow> nat \<Rightarrow> addr \<Rightarrow> public_va_list \<Rightarrow> bool
   \<Rightarrow> (int \<times> (nat \<Rightarrow> byte) option \<times> 'k io) option" where
  "mini_vsnprintf_wide_mode K m wm c buffer n format ap u8 =
     snprintf_dispatch_mode K m wm c buffer n format (Some (normalize_public_va_list m ap)) u8 True"

end
