(* ===== verification/Format_Spec.thy ===== *)
theory Format_Spec
  imports Format Strconv
begin

unbundle bit_operations_syntax

section \<open>What formatted output writes\<close>

text \<open>
  An emitting function decides what it writes from the count, the encoding and the wide flag, never
  from the sink: it runs a script of chunks (\<open>scripted\<close>). So one call on a buffer of any size, and on a
  stream, goes through the same chunks, and the two sinks are compared on scripts. The text of a
  number is given separately.
\<close>

subsection \<open>Scripts\<close>

datatype finish = Fine | Error int | Diverges

primrec run_script :: "'k sys \<Rightarrow> byte list list \<Rightarrow> finish \<Rightarrow> 'k emitter" where
  "run_script K [] fin = (case fin of Fine \<Rightarrow> emit_nothing | Error e \<Rightarrow> emit_fail e | Diverges \<Rightarrow> (\<lambda>s. None))"
| "run_script K (c # cs) fin = emit_then (emit_bytes K c) (run_script K cs fin)"

definition out_key :: "'k sink \<Rightarrow> u32 \<times> bool \<times> bool" where
  "out_key s = (out_count s, sink_utf8 s, wide_semantics s)"

definition scripted :: "'k sys \<Rightarrow> 'k emitter \<Rightarrow> bool" where
  "scripted K e = (\<forall>k. \<exists>cs fin. \<forall>s. out_key s = k \<longrightarrow> e s = run_script K cs fin s)"

named_theorems scripts \<open>emitting functions are scripted\<close>

lemma scriptedI: "(\<And>k. \<exists>cs fin. \<forall>s. out_key s = k \<longrightarrow> e s = run_script K cs fin s) \<Longrightarrow> scripted K e"
  by (simp add: scripted_def)

lemma out_key_errno [simp]: "out_key (set_fmt_errno e s) = out_key s"
  by (simp add: out_key_def set_fmt_errno_def)

lemma emit_bytes_key:
  "emit_bytes K c s = Some (True, s') \<Longrightarrow>
   out_key s' = (out_count s + of_nat (length c), sink_utf8 s, wide_semantics s)"
  by (auto simp: emit_bytes_def reserve_count_def sink_write_def out_key_def Let_def
      split: if_splits sink_kind.splits)

lemma emit_then_assoc: "emit_then (emit_then f g) h = emit_then f (emit_then g h)"
  by (rule ext) (simp add: emit_then_def split: Option.bind_split)

lemma emit_nothing_then [simp]: "emit_then emit_nothing g = g"
  by (rule ext) (simp add: emit_then_def emit_nothing_def)

lemma then_emit_nothing [simp]: "emit_then f emit_nothing = f"
  by (rule ext) (auto simp: emit_then_def emit_nothing_def split: Option.bind_split)

lemma emit_fail_then [simp]: "emit_then (emit_fail e) g = emit_fail e"
  by (rule ext) (simp add: emit_then_def emit_fail_def)

lemma diverges_then [simp]: "emit_then (\<lambda>s. None) g = (\<lambda>s. None)"
  by (rule ext) (simp add: emit_then_def)

lemma run_script_then:
  "emit_then (run_script K cs fin) g = (case fin of Fine \<Rightarrow> emit_then (run_script K cs Fine) g
     | Error e \<Rightarrow> run_script K cs (Error e) | Diverges \<Rightarrow> run_script K cs Diverges)"
  by (induction cs) (simp_all add: emit_then_assoc split: finish.splits)

lemma run_script_append: "run_script K (cs @ cs') fin = emit_then (run_script K cs Fine) (run_script K cs' fin)"
  by (induction cs) (simp_all add: emit_then_assoc)

lemma run_script_key:
  "run_script K cs fin s = Some (True, s') \<Longrightarrow>
   out_key s' = (out_count s + of_nat (length (concat cs)), sink_utf8 s, wide_semantics s)"
proof (induction cs arbitrary: s)
  case Nil
  then show ?case by (auto simp: emit_nothing_def emit_fail_def out_key_def split: finish.splits)
next
  case (Cons c cs)
  then obtain s1 where s1: "emit_bytes K c s = Some (True, s1)" "run_script K cs fin s1 = Some (True, s')"
    by (auto simp: emit_then_def split: Option.bind_splits if_splits)
  from Cons.IH [OF s1(2)] emit_bytes_key [OF s1(1)] show ?case by (simp add: out_key_def add.assoc)
qed

lemma emit_then_cong:
  "f s = f' s \<Longrightarrow> (\<And>s'. f s = Some (True, s') \<Longrightarrow> g s' = g' s') \<Longrightarrow> emit_then f g s = emit_then f' g' s"
  by (auto simp: emit_then_def split: Option.bind_split if_splits)

lemma scripted_then [scripts]:
  assumes "scripted K f" "scripted K g"
  shows "scripted K (emit_then f g)"
proof (rule scriptedI)
  fix k :: "u32 \<times> bool \<times> bool"
  obtain cs fin where f: "out_key s = k \<Longrightarrow> f s = run_script K cs fin s" for s
    using assms(1) unfolding scripted_def by metis
  obtain cs' fin' where g: "out_key s = (fst k + of_nat (length (concat cs)), snd k) \<Longrightarrow> g s = run_script K cs' fin' s" for s
    using assms(2) unfolding scripted_def by metis
  have step: "emit_then f g s = emit_then (run_script K cs fin) (run_script K cs' fin') s" if k: "out_key s = k" for s
  proof (rule emit_then_cong)
    show "f s = run_script K cs fin s" using f [OF k] .
    fix s' assume "f s = Some (True, s')"
    then have "out_key s' = (fst k + of_nat (length (concat cs)), snd k)"
      using f [OF k] run_script_key [of K cs fin s s'] k by (auto simp: out_key_def)
    then show "g s' = run_script K cs' fin' s'" by (rule g)
  qed
  show "\<exists>cs fin. \<forall>s. out_key s = k \<longrightarrow> emit_then f g s = run_script K cs fin s"
  proof (cases fin)
    case Fine
    then show ?thesis using step by (metis run_script_append)
  qed (use step in \<open>auto simp: run_script_then\<close>)
qed

lemma scripted_nothing [scripts]: "scripted K emit_nothing"
  by (rule scriptedI, rule exI [of _ "[]"], rule exI [of _ Fine]) simp

lemma scripted_fail [scripts]: "scripted K (emit_fail e)"
  by (rule scriptedI, rule exI [of _ "[]"], rule exI [of _ "Error e"]) simp

lemma scripted_diverges [scripts]: "scripted K (\<lambda>s. None)"
  by (rule scriptedI, rule exI [of _ "[]"], rule exI [of _ Diverges]) simp

lemma scripted_bytes [scripts]: "scripted K (emit_bytes K bs)"
  by (rule scriptedI, rule exI [of _ "[bs]"], rule exI [of _ Fine]) simp

text \<open>A case distinction on what the script may depend on.\<close>

lemma scripted_by_key:
  assumes "\<And>s. e s = f (out_key s) s" "\<And>k. scripted K (f k)"
  shows "scripted K e"
  using assms unfolding scripted_def by metis

lemma scripted_bind [scripts]:
  assumes "\<And>x. scripted K (f x)"
  shows "scripted K (\<lambda>s. Option.bind v (\<lambda>x. f x s))"
  using assms by (cases v) (simp_all add: scripts)

lemma scripted_if [scripts]: "scripted K f \<Longrightarrow> scripted K g \<Longrightarrow> scripted K (if b then f else g)"
  by simp

lemma scripted_emit_if [scripts]: "scripted K f \<Longrightarrow> scripted K (emit_if b f)"
  by (simp add: emit_if_def scripts)

lemma scripted_all [scripts]: "(\<And>f. f \<in> set fs \<Longrightarrow> scripted K f) \<Longrightarrow> scripted K (emit_all fs)"
  by (induction fs) (simp_all add: emit_all_def scripts)

lemma emit_all_simps:
  "emit_all [] = emit_nothing" "emit_all (f # fs) = emit_then f (emit_all fs)"
  "emit_all (fs @ gs) = emit_then (emit_all fs) (emit_all gs)"
  by (induction fs) (simp_all add: emit_all_def emit_then_assoc)

lemma scripted_map [scripts]: "(\<And>x. scripted K (f x)) \<Longrightarrow> scripted K (emit_all (map f xs))"
  by (rule scripted_all) auto

lemma scripted_repeat [scripts]: "scripted K (emit_repeat K b n)"
proof -
  have loop: "scripted K (repeat_loop K b i)" for i
  proof (induction i rule: less_induct)
    case (less i)
    then show ?case
      by (subst repeat_loop.simps) (auto simp: Let_def MINI_FORMAT_PAD_CHUNK_def intro!: scripts)
  qed
  show ?thesis
  proof (rule scripted_by_key)
    show "emit_repeat K b n s = (\<lambda>k. if MINI_PRINTF_INT_MAX - fst k < n then emit_fail EINVAL
        else repeat_loop K b (unat n)) (out_key s) s" for s
      by (simp add: emit_repeat_def out_key_def emit_fail_def)
  qed (simp add: loop scripts)
qed

lemma scripted_padded [scripts]: "scripted K e \<Longrightarrow> scripted K (emit_padded K spec n e)"
  unfolding emit_padded_def emit_all_simps by (intro scripts)


lemma scripted_string [scripts]: "scripted K (emit_string K m spec v)"
  unfolding emit_string_def by (cases "v = 0") (simp_all, (intro scripts)+)

lemma scripted_character [scripts]: "scripted K (emit_character K spec v)"
  unfolding emit_character_def by (intro scripts)

lemma scripted_encoded [scripts]: "scripted K (emit_encoded K c)"
proof (rule scripted_by_key)
  show "emit_encoded K c s = (\<lambda>k. case encode_wide_value c (fst (snd k)) of None \<Rightarrow> emit_fail EILSEQ
      | Some bytes \<Rightarrow> emit_bytes K bytes) (out_key s) s" for s
    by (simp add: emit_encoded_def out_key_def split: option.split)
qed (auto split: option.split intro!: scripts)

lemma scripted_wide_character [scripts]: "scripted K (emit_wide_character K spec v)"
proof (rule scripted_by_key)
  show "emit_wide_character K spec v s = (\<lambda>k. case encode_wide_value (word_of_int v) (fst (snd k)) of
      None \<Rightarrow> emit_fail EILSEQ
    | Some bytes \<Rightarrow> emit_padded K spec (if snd (snd k) then 1 else length bytes) (emit_bytes K bytes)) (out_key s) s" for s
    by (simp add: emit_wide_character_def out_key_def split: option.split)
qed (auto split: option.split intro!: scripts)

lemma scripted_extent:
  assumes "\<And>c b. scripted K (f c b)"
  shows "scripted K (\<lambda>s. Option.bind v (\<lambda>extent. case extent of Inl e \<Rightarrow> emit_fail e s | Inr (c, b) \<Rightarrow> f c b s))"
proof (cases v)
  case (Some x)
  then show ?thesis using assms by (cases x) (auto simp: scripts split: prod.split)
qed (simp add: scripts)

lemma scripted_wide_string [scripts]: "scripted K (emit_wide_string K wm spec v)"
proof (rule scripted_by_key)
  define wm' v' where "wm' = (if v = 0 then wide_null_text else wm)" and "v' = (if v = 0 then 0 else v)"
  show "emit_wide_string K wm spec v s = (\<lambda>k s. Option.bind (wide_extent wm' v' spec (fst (snd k)) (snd (snd k)) 0 0)
      (\<lambda>extent. case extent of Inl e \<Rightarrow> emit_fail e s
       | Inr (c, b) \<Rightarrow> emit_padded K spec (nat (uint (of_nat (if snd (snd k) then c else b) :: u32)))
            (emit_all (map (\<lambda>i. emit_encoded K (wm' (v' + i))) [0..<c])) s)) (out_key s) s" for s
    unfolding wm'_def v'_def by (cases "v = 0") (simp_all add: emit_wide_string_def out_key_def)
qed (rule scripted_extent, intro scripts)

lemma scripted_multibyte_wide [scripts]: "scripted K (emit_multibyte_string_wide K m spec v)"
proof (rule scripted_by_key)
  define m' v' where "m' = (if v = 0 then (\<lambda>i. null_text (i - 1)) else m)" and "v' = (if v = 0 then 1 else v)"
  show "emit_multibyte_string_wide K m spec v s = (\<lambda>k s. Option.bind (multibyte_extent m' v' spec (fst (snd k)) 0 0)
      (\<lambda>extent. case extent of Inl e \<Rightarrow> emit_fail e s
       | Inr (c, b) \<Rightarrow> emit_padded K spec c (emit_bytes K (read_bytes m' v' b)) s)) (out_key s) s" for s
    unfolding m'_def v'_def by (cases "v = 0") (simp_all add: emit_multibyte_string_wide_def out_key_def)
qed (rule scripted_extent, intro scripts)

lemma scripted_number [scripts]: "scripted K (emit_number K spec magnitude neg base uppercase signed_conversion)"
  unfolding emit_number_def Let_def case_prod_beta emit_all_simps by (intro scripts)

lemma scripted_float_text [scripts]: "scripted K (emit_float_text K spec neg radix_prefix txt z)"
  unfolding emit_float_text_def Let_def emit_all_simps by (intro scripts)

lemma scripted_text_or_fail:
  "scripted K (\<lambda>s. Option.bind made (\<lambda>txt. case txt of None \<Rightarrow> emit_fail EINVAL s
     | Some bs \<Rightarrow> emit_float_text K spec neg r bs True s))"
proof (rule scripted_bind)
  show "scripted K (\<lambda>s. case made' of None \<Rightarrow> emit_fail EINVAL s | Some bs \<Rightarrow> emit_float_text K spec neg r bs True s)" for made' :: "byte list option"
    by (cases made') (simp_all add: scripts)
qed

lemma scripted_choice: "scripted K f \<Longrightarrow> scripted K g \<Longrightarrow> scripted K (\<lambda>s. if b then f s else g s)"
  by (cases b) simp_all

lemma scripted_floating [scripts]: "scripted K (emit_floating K spec v)"
  unfolding emit_floating_def Let_def
  by (intro scripted_choice scripted_text_or_fail) (rule scripts)+

lemma scripted_conversion [scripts]: "scripted K (snd (emit_conversion K m wm spec a))"
proof -
  have s: "scripted K (\<lambda>s. if wide_semantics s then emit_multibyte_string_wide K m spec v s else emit_string K m spec v s)" for v
    by (rule scripted_by_key [where f = "\<lambda>k. if snd (snd k) then emit_multibyte_string_wide K m spec v else emit_string K m spec v"])
      (auto simp: out_key_def intro!: scripts)
  have c: "scripted K (\<lambda>s. if wide_semantics s \<and> 0x7f < uint (uchar v) then emit_fail EILSEQ s
      else emit_character K spec v s)" for v
    by (rule scripted_by_key [where f = "\<lambda>k. if snd (snd k) \<and> 0x7f < uint (uchar v) then emit_fail EILSEQ
        else emit_character K spec v"]) (auto simp: out_key_def intro!: scripts)
  show ?thesis
    unfolding emit_conversion_def Let_def case_prod_beta
    by (simp only: if_distrib [where f = snd] snd_conv) (intro scripted_if scripts s c)
qed

subsection \<open>Where the directives end\<close>

text \<open>The cursor of a parser moves forward over bytes that are not NUL.\<close>

definition steps :: "mem \<Rightarrow> addr \<Rightarrow> addr \<Rightarrow> bool" where
  "steps m p q = (p \<le> q \<and> (\<forall>i. p \<le> i \<and> i < q \<longrightarrow> m i \<noteq> 0))"

lemma steps_refl [simp]: "steps m p p"
  by (auto simp: steps_def)

lemma steps_trans: "steps m p q \<Longrightarrow> steps m q r \<Longrightarrow> steps m p r"
  by (auto simp: steps_def) (metis not_le)

lemma steps_one: "m p \<noteq> 0 \<Longrightarrow> steps m (Suc p) q \<Longrightarrow> steps m p q"
  by (auto simp: steps_def) (metis Suc_leI le_neq_implies_less)

lemma steps_Suc [simp]: "m p \<noteq> 0 \<Longrightarrow> steps m p (Suc p)"
  by (rule steps_one) simp_all

lemma literal_end_steps:
  assumes "literal_end m p = Some q"
  shows "steps m p q \<and> (m q = 0 \<or> m q = ch CHR ''%'')"
  by (rule literal_end.raw_induct [OF _ assms, where P = "\<lambda>m p q. steps m p q \<and> (m q = 0 \<or> m q = ch CHR ''%'')"])
    (auto split: if_splits intro: steps_one)

lemma digit_nonzero: "is_digit b \<Longrightarrow> b \<noteq> 0"
  by (auto simp: is_digit_def)

lemma decimal_loop_steps:
  assumes "decimal_loop m p r = Some x"
  shows "steps m p (fst (snd x))"
proof (rule decimal_loop.raw_induct [OF _ assms, where P = "\<lambda>m p r x. steps m p (fst (snd x))"], goal_cases)
  case (1 f m p r x)
  show ?case
  proof (cases "is_digit (m p)")
    case True
    then obtain r' where "f m (p + 1) r' = Some x \<or> fst (snd x) = p" using 1(2) by (auto simp: Let_def split: if_splits)
    then show ?thesis using 1(1) [of m "p + 1" r' x] digit_nonzero [OF True] by (auto intro: steps_one)
  qed (use 1 in auto)
qed

lemma parse_decimal_steps: "parse_decimal m p = Some (st, q, v) \<Longrightarrow> steps m p q"
  using decimal_loop_steps [of m p 0 "(st, q, v)"] by (auto simp: parse_decimal_def split: if_splits)

lemma parse_flags_steps:
  assumes "parse_flags m p spec = Some x"
  shows "steps m p (fst x)"
proof (rule parse_flags.raw_induct [OF _ assms, where P = "\<lambda>m p spec x. steps m p (fst x)"], goal_cases)
  case (1 f m p spec x)
  show ?case
  proof (cases "m p \<in> {ch CHR ''-'', ch CHR ''+'', ch CHR '' '', ch CHR ''#'', ch CHR ''0''}")
    case True
    then obtain spec' where "f m (p + 1) spec' = Some x" using 1(2) by (auto split: if_splits)
    then have "steps m (Suc p) (fst x)" using 1(1) [of m "p + 1" spec' x] by simp
    moreover have "m p \<noteq> 0" using True by auto
    ultimately show ?thesis by (rule steps_one [rotated])
  qed (use 1 in auto)
qed

lemma parse_width_steps: "parse_width m p spec a = Some (Some (q, spec', a')) \<Longrightarrow> steps m p q"
  by (cases "m p = ch CHR ''*''")
    (auto simp: parse_width_def Let_def split: if_splits prod.splits dest: parse_decimal_steps)

lemma parse_precision_steps:
  assumes "parse_precision m p spec a = Some (Some (q, spec', a'))"
  shows "steps m p q"
proof (cases "m p = ch CHR ''.''")
  case True
  then have p: "m p \<noteq> 0" by simp
  show ?thesis
  proof (cases "m (Suc p) = ch CHR ''*''")
    case star: True
    then have "q = Suc (Suc p)" using assms True by (auto simp: parse_precision_def Let_def split: prod.splits)
    then show ?thesis using steps_trans [OF steps_Suc [of m p] steps_Suc [of m "Suc p"]] p star by simp
  next
    case False
    then obtain st v where "parse_decimal m (Suc p) = Some (st, q, v)"
      using assms True by (auto simp: parse_precision_def Let_def split: if_splits)
    from parse_decimal_steps [OF this] p show ?thesis by (rule steps_one [rotated])
  qed
qed (use assms in \<open>simp add: parse_precision_def\<close>)

lemma parse_length_steps: "parse_length m p = (q, len) \<Longrightarrow> steps m p q"
  using steps_trans [OF steps_Suc [of m p] steps_Suc [of m "Suc p"]]
  by (auto simp: parse_length_def split: if_splits)

lemma parse_spec_steps:
  assumes "parse_spec m p a = Some (Some (q, spec, a'))"
  shows "steps m p q \<and> p < q"
proof -
  obtain p1 s1 p2 s2 a2 p3 s3 a3 p4 len where w: "parse_flags m p empty_spec = Some (p1, s1)"
      "parse_width m p1 s1 a = Some (Some (p2, s2, a2))" "parse_precision m p2 s2 a2 = Some (Some (p3, s3, a3))"
      "parse_length m p3 = (p4, len)" "m p4 \<noteq> 0" "q = p4 + 1"
    using assms by (auto simp: parse_spec_def Let_def split: Option.bind_splits option.splits prod.splits if_splits)
  have s: "steps m p p4"
    using parse_flags_steps [OF w(1)] parse_width_steps [OF w(2)] parse_precision_steps [OF w(3)] parse_length_steps [OF w(4)]
    by (auto intro: steps_trans)
  then have "steps m p (Suc p4)" using w(5) by (auto intro: steps_trans)
  moreover have "p \<le> p4" using s by (simp add: steps_def)
  ultimately show ?thesis using w(6) by simp
qed

lemma cstr_at_steps:
  assumes "cstr_at m p xs" "steps m p q"
  shows "q \<le> p + length xs" "cstr_at m q (drop (q - p) xs)"
proof -
  show "q \<le> p + length xs" using assms cstr_at_end [OF assms(1)] by (auto simp: steps_def) (metis le_add1 not_le)
  then show "cstr_at m q (drop (q - p) xs)" using cstr_at_drop [OF assms(1), of "q - p"] assms(2) by (simp add: steps_def)
qed

subsection \<open>The whole format is a script\<close>

text \<open>The result of a call from the end of its emitting function.\<close>

definition as_result :: "'k emitter \<Rightarrow> 'k sink \<Rightarrow> (int \<times> 'k sink) option" where
  "as_result e s = map_option (\<lambda>(ok, s'). (if ok then sint (out_count s') else c_EOF, s')) (e s)"

lemma as_result_then:
  "as_result (emit_then f g) s = Option.bind (f s) (\<lambda>(ok, s'). if ok then as_result g s' else Some (c_EOF, s'))"
  by (auto simp: as_result_def emit_then_def split: Option.bind_split)

lemma as_result_ends:
  "as_result emit_nothing s = Some (sint (out_count s), s)" "as_result (\<lambda>s. None) s = None"
  "as_result (emit_fail e) s = Some (c_EOF, set_fmt_errno e s)"
  by (simp_all add: as_result_def emit_nothing_def emit_fail_def)

text \<open>What follows a percent sign at \<open>p - 1\<close>.\<close>

definition directive ::
  "'k sys \<Rightarrow> mem \<Rightarrow> wmem \<Rightarrow> addr \<Rightarrow> format_args \<Rightarrow> 'k sink \<Rightarrow> (int \<times> 'k sink) option" where
  "directive K m wm p a s = Option.bind (parse_spec m p a) (\<lambda>parsed. case parsed of
      None \<Rightarrow> Some (c_EOF, set_fmt_errno EINVAL s)
    | Some (nc, spec, a') \<Rightarrow>
        Option.bind (snd (emit_conversion K m wm spec a') s) (\<lambda>(ok, s2).
          if \<not> ok then Some (c_EOF, s2)
          else dispatch_loop K m wm nc (fst (emit_conversion K m wm spec a')) s2))"

lemma directive_scripted:
  assumes "\<And>nc spec a'. parse_spec m p a = Some (Some (nc, spec, a')) \<Longrightarrow>
      \<exists>e. scripted K e \<and> (\<forall>s. dispatch_loop K m wm nc (fst (emit_conversion K m wm spec a')) s = as_result e s)"
  shows "\<exists>e. scripted K e \<and> (\<forall>s. directive K m wm p a s = as_result e s)" (is "\<exists>e. ?P e")
proof -
  consider "parse_spec m p a = None" | "parse_spec m p a = Some None"
    | nc spec a' where "parse_spec m p a = Some (Some (nc, spec, a'))"
    by (metis option.exhaust prod_cases3)
  then show ?thesis
  proof cases
    case 1
    then have "?P (\<lambda>s. None)" by (simp add: scripts as_result_ends directive_def)
    then show ?thesis by blast
  next
    case 2
    then have "?P (emit_fail EINVAL)" by (simp add: scripts as_result_ends directive_def)
    then show ?thesis by blast
  next
    case 3
    from assms [OF 3] obtain e where e: "scripted K e"
      "\<And>s. dispatch_loop K m wm nc (fst (emit_conversion K m wm spec a')) s = as_result e s" by blast
    have "directive K m wm p a s = as_result (emit_then (snd (emit_conversion K m wm spec a')) e) s" for s
      by (auto simp: 3 directive_def as_result_then e(2) intro!: bind_option_cong)
    then have "?P (emit_then (snd (emit_conversion K m wm spec a')) e)"
      using scripted_then [OF scripted_conversion e(1)] by blast
    then show ?thesis by blast
  qed
qed

lemma dispatch_loop_unfold:
  assumes "m cursor \<noteq> 0" "literal_end m cursor = Some q"
  shows "dispatch_loop K m wm cursor a s =
    Option.bind (emit_if (q \<noteq> cursor) (emit_bytes K (read_bytes m cursor (q - cursor))) s) (\<lambda>(ok, s1).
      if \<not> ok then Some (c_EOF, s1)
      else if m q = 0 then Some (sint (out_count s1), s1) else directive K m wm (Suc q) a s1)"
  using assms unfolding directive_def Suc_eq_plus1 by (subst dispatch_loop.simps) simp

lemma dispatch_loop_scripted:
  assumes "cstr_at m cursor xs"
  shows "\<exists>e. scripted K e \<and> (\<forall>s. dispatch_loop K m wm cursor a s = as_result e s)" (is "\<exists>e. ?P cursor a e")
  using assms
proof (induction "length xs" arbitrary: xs cursor a rule: less_induct)
  case less
  show ?case
  proof (cases "m cursor = 0 \<or> literal_end m cursor = None")
    case True
    then have "?P cursor a emit_nothing \<or> ?P cursor a (\<lambda>s. None)"
      by (auto simp: scripts dispatch_loop.simps as_result_ends)
    then show ?thesis by blast
  next
    case False
    then obtain q where q: "m cursor \<noteq> 0" "literal_end m cursor = Some q" by auto
    define lit where "lit = emit_if (q \<noteq> cursor) (emit_bytes K (read_bytes m cursor (q - cursor)))"
    have lit: "scripted K lit" unfolding lit_def by (intro scripts)
    show ?thesis
    proof (cases "m q = 0")
      case True
      then have "dispatch_loop K m wm cursor a s = as_result (emit_then lit emit_nothing) s" for s
        unfolding dispatch_loop_unfold [OF q] as_result_then lit_def
        by (auto simp: as_result_ends intro!: bind_option_cong)
      then show ?thesis using lit by auto
    next
      case False
      have "\<exists>e. scripted K e \<and> (\<forall>s. directive K m wm (Suc q) a s = as_result e s)"
      proof (rule directive_scripted)
        fix nc spec a' assume p: "parse_spec m (Suc q) a = Some (Some (nc, spec, a'))"
        have "steps m cursor (Suc q)" "steps m (Suc q) nc" "Suc q < nc"
          using literal_end_steps [OF q(2)] parse_spec_steps [OF p] False by (auto intro: steps_trans)
        then have st: "steps m cursor nc" "cursor < nc" by (blast intro: steps_trans, auto simp: steps_def)
        note d = cstr_at_steps [OF less.prems st(1)]
        have "length (drop (nc - cursor) xs) < length xs" using d(1) st(2) by simp
        from less.hyps [OF this d(2)] show "\<exists>e. ?P nc (fst (emit_conversion K m wm spec a')) e" .
      qed
      then obtain e where e: "scripted K e" "\<And>s. directive K m wm (Suc q) a s = as_result e s" by blast
      have "dispatch_loop K m wm cursor a s = as_result (emit_then lit e) s" for s
        unfolding dispatch_loop_unfold [OF q] as_result_then lit_def
        using False e(2) by (auto intro!: bind_option_cong)
      then show ?thesis using scripted_then [OF lit e(1)] by blast
    qed
  qed
qed

lemma format_dispatch_scripted:
  assumes "cstr_at m format xs" "format \<noteq> 0"
  shows "\<exists>cs fin. \<forall>s. sink_utf8 s = u8 \<and> wide_semantics s = wide \<longrightarrow>
    format_dispatch K m wm format (Some a) s = as_result (run_script K cs fin) (s\<lparr>out_count := 0\<rparr>)"
proof -
  obtain e where e: "scripted K e" "\<And>s. dispatch_loop K m wm format a s = as_result e s"
    using dispatch_loop_scripted [OF assms(1)] by blast
  then obtain cs fin where "out_key s = (0, u8, wide) \<Longrightarrow> e s = run_script K cs fin s" for s
    unfolding scripted_def by metis
  then have "format_dispatch K m wm format (Some a) s = as_result (run_script K cs fin) (s\<lparr>out_count := 0\<rparr>)"
    if "sink_utf8 s = u8 \<and> wide_semantics s = wide" for s
    using that assms(2) e(2) by (simp add: format_dispatch_def as_result_def out_key_def)
  then show ?thesis by blast
qed


subsection \<open>Scripts on a buffer\<close>

text \<open>The buffer after a text: as many bytes as fit before the NUL.\<close>

definition truncated :: "nat \<Rightarrow> byte list \<Rightarrow> (nat \<Rightarrow> byte) \<Rightarrow> nat \<Rightarrow> byte" where
  "truncated n t buf i =
     (if n = 0 then buf i else if i < min (n - 1) (length t) then t ! i
      else if i = min (n - 1) (length t) then 0 else buf i)"

definition mem_sink :: "'k io \<Rightarrow> nat \<Rightarrow> (nat \<Rightarrow> byte) \<Rightarrow> bool \<Rightarrow> bool \<Rightarrow> byte list \<Rightarrow> u32 \<Rightarrow> 'k sink" where
  "mem_sink c n buf u8 wide t k = \<lparr>sink_kind = SINK_MEMORY, sink_io = c, sink_buffer = truncated n t buf,
     sink_size = n, sink_stored = min (n - 1) (length t), sink_utf8 = u8, wide_semantics = wide, out_count = k\<rparr>"

lemma truncated_0 [simp]: "truncated 0 t buf = buf"
  by (rule ext) (simp add: truncated_def)

lemma memory_sink_start: "memory_sink c buf n u8 wide = mem_sink c n buf u8 wide [] 0"
  by (auto simp: memory_sink_def mem_sink_def truncated_def fun_eq_iff)

lemma mem_sink_errno [simp]: "set_fmt_errno e (mem_sink c n buf u8 wide t k) = mem_sink (c\<lparr>io_errno := e\<rparr>) n buf u8 wide t k"
  by (simp add: set_fmt_errno_def mem_sink_def)

lemma mem_sink_count [simp]:
  "out_count (mem_sink c n buf u8 wide t k) = k" "sink_io (mem_sink c n buf u8 wide t k) = c"
  "sink_buffer (mem_sink c n buf u8 wide t k) = truncated n t buf"
  "sink_utf8 (mem_sink c n buf u8 wide t k) = u8" "wide_semantics (mem_sink c n buf u8 wide t k) = wide"
  "(mem_sink c n buf u8 wide t k)\<lparr>out_count := k'\<rparr> = mem_sink c n buf u8 wide t k'"
  by (simp_all add: mem_sink_def)

lemma truncated_step:
  assumes "length t < n - 1" and that: "length t + min c (length bs) \<le> n - 1"
  shows "(buf_put (truncated n t buf) (length t) (take c bs))(length t + min c (length bs) := 0) =
    truncated n (t @ take c bs) buf"
proof
  fix i
  have n: "n \<noteq> 0" "min (n - 1) (length (t @ take c bs)) = length t + min c (length bs)" "min (n - 1) (length t) = length t"
    using assms that by auto
  show "((buf_put (truncated n t buf) (length t) (take c bs))(length t + min c (length bs) := 0)) i =
      truncated n (t @ take c bs) buf i"
    unfolding truncated_def n(2,3) using n(1) by (auto simp: buf_put_def nth_append)
qed

lemma truncated_take: "truncated n (t @ take (n - 1 - length t) bs) buf = truncated n (t @ bs) buf"
  unfolding truncated_def by (rule ext) (auto simp: nth_append min_def)

lemma mem_sink_write: "sink_write K bs (mem_sink c n buf u8 wide t k) = Some (True, mem_sink c n buf u8 wide (t @ bs) k)"
proof (cases "n \<noteq> 0 \<and> length t < n - 1")
  case True
  define j where "j = (if length bs < n - 1 - length t then length bs else n - 1 - length t)"
  have j: "min j (length bs) = j" "length t + j \<le> n - 1" "min (n - 1) (length (t @ bs)) = length t + j"
    using True by (auto simp: j_def)
  have "take j bs = take (n - 1 - length t) bs" by (simp add: j_def)
  then have "truncated n (t @ take j bs) buf = truncated n (t @ bs) buf" using truncated_take by metis
  then have "(buf_put (truncated n t buf) (length t) (take j bs))(length t + j := 0) = truncated n (t @ bs) buf"
    using truncated_step [of t n j bs buf] True j by simp
  then show ?thesis using True j(3)
    by (auto simp: sink_write_def mem_sink_def Let_def j_def)
next
  case False
  then have "n = 0 \<or> min (n - 1) (length (t @ bs)) = n - 1 \<and> min (n - 1) (length t) = n - 1" by auto
  then have "truncated n (t @ bs) buf = truncated n t buf"
    unfolding truncated_def by (intro ext) (auto simp: nth_append)
  then show ?thesis using False by (auto simp: sink_write_def mem_sink_def)
qed

text \<open>The chunks that fit the count, and whether all do.\<close>

fun fitting :: "u32 \<Rightarrow> byte list list \<Rightarrow> byte list \<times> bool" where
  "fitting k [] = ([], True)"
| "fitting k (c # cs) =
     (if unat (MINI_PRINTF_INT_MAX - k) < length c then ([], False)
      else let (t, ok) = fitting (k + of_nat (length c)) cs in (c @ t, ok))"

lemma mem_emit_bytes:
  "emit_bytes K bs (mem_sink c n buf u8 wide t k) =
     (if unat (MINI_PRINTF_INT_MAX - k) < length bs then Some (False, mem_sink (c\<lparr>io_errno := EINVAL\<rparr>) n buf u8 wide t k)
      else Some (True, mem_sink c n buf u8 wide (t @ bs) (k + of_nat (length bs))))"
  by (simp add: emit_bytes_def reserve_count_def mem_sink_write)

lemma mem_run_script:
  "run_script K cs fin (mem_sink c n buf u8 wide t k) =
     (case fitting k cs of (u, ok) \<Rightarrow>
        let k' = k + of_nat (length u); s = (\<lambda>c. mem_sink c n buf u8 wide (t @ u) k')
        in if \<not> ok then Some (False, s (c\<lparr>io_errno := EINVAL\<rparr>))
           else case fin of Fine \<Rightarrow> Some (True, s c) | Error e \<Rightarrow> Some (False, s (c\<lparr>io_errno := e\<rparr>)) | Diverges \<Rightarrow> None)"
proof (induction cs arbitrary: t k)
  case Nil
  then show ?case by (simp add: emit_nothing_def emit_fail_def split: finish.split)
next
  case (Cons x cs)
  show ?case
    by (cases "fitting (k + of_nat (length x)) cs")
      (simp add: emit_then_def mem_emit_bytes Cons.IH Let_def add.assoc split: finish.split)
qed

lemma fitting_length:
  assumes "fitting k cs = (t, ok)" "unat k \<le> unat MINI_PRINTF_INT_MAX"
  shows "unat k + length t \<le> unat MINI_PRINTF_INT_MAX"
  using assms
proof (induction cs arbitrary: k t ok)
  case (Cons c cs)
  show ?case
  proof (cases "unat (MINI_PRINTF_INT_MAX - k) < length c")
    case True
    then show ?thesis using Cons.prems by auto
  next
    case False
    then have u: "unat (k + of_nat (length c)) = unat k + length c" "unat k + length c \<le> unat MINI_PRINTF_INT_MAX"
      using Cons.prems(2) by (auto simp: unat_sub word_le_nat_alt MINI_PRINTF_INT_MAX_def unat_word_ariths unat_of_nat)
    obtain t' where t': "fitting (k + of_nat (length c)) cs = (t', ok)" "t = c @ t'"
      using Cons.prems(1) False by (auto split: prod.splits)
    from Cons.IH [OF t'(1)] u show ?thesis by (simp add: t'(2))
  qed
qed simp

lemma fitting_count:
  assumes "fitting 0 cs = (t, ok)"
  shows "sint (of_nat (length t) :: u32) = int (length t)"
proof -
  have "length t \<le> 2147483647" using fitting_length [OF assms] by (simp add: MINI_PRINTF_INT_MAX_def)
  then show ?thesis by (simp add: signed_of_nat signed_take_bit_int_eq_self)
qed

text \<open>C33. A call of \<open>snprintf\<close> that returns for one buffer returns for every other one, of any size (0 and a null
  pointer included), with the same value and the same \<open>errno\<close>. There is one text behind all of them:
  a buffer of \<open>n\<close> bytes gets its first \<open>n - 1\<close> bytes and a NUL, and is not touched past them, and a
  result that is not negative is the length of the text. Any format string, any arguments.\<close>

theorem snprintf_truncates:
  assumes "cstr_at m format xs" "format \<noteq> 0"
    and "snprintf_dispatch_mode K m wm c (Some buf0) n0 format (Some a) u8 wide = Some (r, b0, c')"
  shows "\<exists>t. (r = int (length t) \<and> io_errno c' = io_errno c \<or> r = c_EOF) \<and>
    (\<forall>buf n. snprintf_dispatch_mode K m wm c (Some buf) n format (Some a) u8 wide = Some (r, Some (truncated n t buf), c')) \<and>
    snprintf_dispatch_mode K m wm c None 0 format (Some a) u8 wide = Some (r, None, c')"
proof -
  obtain cs fin where run: "\<And>s. sink_utf8 s = u8 \<Longrightarrow> wide_semantics s = wide \<Longrightarrow>
      format_dispatch K m wm format (Some a) s = as_result (run_script K cs fin) (s\<lparr>out_count := 0\<rparr>)"
    using format_dispatch_scripted [OF assms(1,2)] by metis
  obtain t ok where fit: "fitting 0 cs = (t, ok)" by fastforce
  note [simp] = snprintf_dispatch_mode_def memory_sink_start run as_result_def mem_run_script fit Let_def fitting_count [OF fit]
  show ?thesis
    using assms(3) by (intro exI [of _ t]) (cases ok; cases fin; auto)
qed


subsection \<open>Scripts on a stream\<close>

text \<open>Writing does not touch the flag that asks for positioning before a write, nor the encoding of a wide stream.\<close>

definition needs_position :: "'k io \<Rightarrow> bool" where "needs_position c = has (state (strm c)) MINI_FILE_READ_NEEDS_POSITION"

definition kept_flags :: "'k io \<Rightarrow> bool \<times> bool" where
  "kept_flags c = (needs_position c, has (state (strm c)) MINI_FILE_WIDE_UTF8)"

lemma wide_flag_apart [simp]:
  "\<not> has MINI_FILE_ERROR MINI_FILE_WIDE_UTF8" "\<not> has MINI_FILE_WRITE_NEEDS_SYNC MINI_FILE_WIDE_UTF8"
  by (simp_all add: has_def MINI_FILE_ERROR_def MINI_FILE_WRITE_NEEDS_SYNC_def MINI_FILE_WIDE_UTF8_def)

lemma kept_flags_mark [simp]: "kept_flags (mark_error e c) = kept_flags c" "kept_flags (set_state MINI_FILE_WRITE_NEEDS_SYNC c) = kept_flags c"
  "kept_flags (c\<lparr>io_kern := k\<rparr>) = kept_flags c" "kept_flags (c\<lparr>io_errno := e\<rparr>) = kept_flags c"
  by (simp_all add: kept_flags_def needs_position_def io_defs)

lemma kept_flags_on_strm [simp]: "(\<And>s. state (f s) = state s) \<Longrightarrow> kept_flags (on_strm f c) = kept_flags c"
  by (simp add: kept_flags_def needs_position_def on_strm_def)

lemma ensure_storage_state [simp]: "state (ensure_storage s) = state s"
  by (simp add: ensure_storage_def Let_def)

lemma write_raw_kept_flags: "kept_flags (snd (write_raw K bs n c)) = kept_flags c"
proof (induction K bs n c rule: write_raw.induct)
  case (1 K bs n c)
  show ?case
    by (subst write_raw.simps) (use 1 in \<open>auto simp: Let_def split: prod.split\<close>)
qed

lemma flush_loop_kept_flags: "kept_flags (snd (flush_loop K len n c)) = kept_flags c"
proof (induction K len n c rule: flush_loop.induct)
  case (1 K len n c)
  show ?case
    by (subst flush_loop.simps) (use 1 in \<open>auto simp: Let_def split: prod.split\<close>)
qed

lemma flush_buffer_kept_flags: "flush_buffer K c = (r, c') \<Longrightarrow> kept_flags c' = kept_flags c"
  using flush_loop_kept_flags [of K "write_length (strm c)" 0 "on_strm ensure_storage c"]
  by (auto simp: flush_buffer_def split: if_splits)

lemma write_loop_kept_flags:
  assumes "write_loop K bs n c = Some x"
  shows "kept_flags (snd x) = kept_flags c"
proof (rule write_loop.raw_induct [OF _ assms, where P = "\<lambda>K bs n c x. kept_flags (snd x) = kept_flags c"], goal_cases)
  case (1 f K bs n c x)
  obtain ok c1 where pre: "(if write_length (strm c) = buffer_size (strm c)
      then (let (r, c) = flush_buffer K c in (r \<noteq> c_EOF, c)) else (True, c)) = (ok, c1)" by fastforce
  have r1: "kept_flags c1 = kept_flags c" using pre by (auto split: if_splits prod.splits dest: flush_buffer_kept_flags)
  obtain k fl where lc: "line_chunk (strm c1) (take (min (length bs - n) (buffer_size (strm c1) - write_length (strm c1))) (drop n bs)) = (k, fl)"
    by fastforce
  define c2 where "c2 = on_strm (\<lambda>s. s\<lparr>write_length := write_length s + k, buffers := (buffers s)(write_buffer s :=
      buf_put (buffers s (write_buffer s)) (write_length s) (take k (drop n bs)))\<rparr>) c1"
  have r2: "kept_flags c2 = kept_flags c" using r1 by (simp add: c2_def)
  have ih: "f K bs i d = Some x \<Longrightarrow> kept_flags (snd x) = kept_flags d" for i d by (rule 1(1))
  have E: "(if n < length bs then
      if \<not> ok then Some (n, c1)
      else if fl then (let (r, c3) = flush_buffer K c2 in if r = c_EOF then Some (n + k, c3) else f K bs (n + k) c3)
      else f K bs (n + k) c2
    else Some (n, c)) = Some x"
    using 1(2) unfolding Let_def pre [unfolded Let_def] prod.case lc c2_def .
  obtain r c3 where F: "flush_buffer K c2 = (r, c3)" by fastforce
  show ?case
  proof (cases "n < length bs \<and> ok")
    case True
    then show ?thesis using E F r2 ih flush_buffer_kept_flags [OF F] by (cases fl; cases "r = c_EOF") auto
  next
    case False
    then show ?thesis using E r1 by (cases "n < length bs") auto
  qed
qed

lemma stdio_write_kept_flags: "stdio_write K bs c = Some (n, c') \<Longrightarrow> kept_flags c' = kept_flags c"
  using write_loop_kept_flags [of K bs 0 "on_strm ensure_storage (set_state MINI_FILE_WRITE_NEEDS_SYNC c)" "(n, c')"]
    write_raw_kept_flags [of K bs 0 "set_state MINI_FILE_WRITE_NEEDS_SYNC c"]
  by (auto simp: stdio_write_def Let_def split: if_splits)


definition can_write :: "('k \<Rightarrow> int \<Rightarrow> byte list) \<Rightarrow> 'k sys \<Rightarrow> 'k io \<Rightarrow> bool" where
  "can_write out K c = (writes_to K out \<and> stream_ok (strm c) \<and> has (mode (strm c)) MINI_FILE_WRITABLE \<and> \<not> needs_position c)"

lemma stdio_write_can:
  assumes "can_write out K c"
  shows "\<exists>n c'. stdio_write K bs c = Some (n, c') \<and> n \<le> length bs \<and> can_write out K c' \<and>
    stream_output out c' = stream_output out c @ take n bs \<and> (n < length bs \<longrightarrow> ferror c')"
proof -
  obtain n c' where w: "stdio_write K bs c = Some (n, c')" "write_result out bs 0 c n c'"
    using stdio_write_spec [of K out c bs] assms by (auto simp: can_write_def needs_position_def)
  then show ?thesis
    using assms stdio_write_kept_flags [OF w(1)] by (auto simp: can_write_def write_result_def kept_flags_def)
qed

lemma file_emit_bytes:
  assumes "sink_kind s = SINK_FILE" "can_write out K (sink_io s)" "\<not> unat (MINI_PRINTF_INT_MAX - out_count s) < length bs"
  shows "\<exists>n s'. emit_bytes K bs s = Some (n = length bs, s') \<and> n \<le> length bs \<and> sink_kind s' = SINK_FILE \<and>
    can_write out K (sink_io s') \<and> out_count s' = out_count s + of_nat (length bs) \<and>
    stream_output out (sink_io s') = stream_output out (sink_io s) @ take n bs \<and> (n < length bs \<longrightarrow> ferror (sink_io s'))"
  using stdio_write_can [OF assms(2), of bs] assms(1,3)
  by (auto simp: emit_bytes_def reserve_count_def sink_write_def Let_def)

text \<open>Written so far, after a number of bytes of the text: either all of it, or the stream has failed.\<close>

definition file_end :: "('k \<Rightarrow> int \<Rightarrow> byte list) \<Rightarrow> 'k sys \<Rightarrow> 'k sink \<Rightarrow> byte list \<Rightarrow> bool \<Rightarrow> bool \<Rightarrow> 'k sink \<Rightarrow> bool" where
  "file_end out K s t fine ok s' =
     (can_write out K (sink_io s') \<and> (\<exists>n \<le> length t.
        stream_output out (sink_io s') = stream_output out (sink_io s) @ take n t \<and>
        (n = length t \<and> ok = fine \<and> (ok \<longrightarrow> out_count s' = out_count s + of_nat (length t)) \<or> \<not> ok \<and> ferror (sink_io s'))))"

lemma can_write_errno [simp]: "can_write out K (c\<lparr>io_errno := e\<rparr>) = can_write out K c"
  by (simp add: can_write_def needs_position_def)

lemma stream_output_errno [simp]: "stream_output out (c\<lparr>io_errno := e\<rparr>) = stream_output out c"
  by (simp add: stream_output_def)

lemma file_run_script:
  assumes "sink_kind s = SINK_FILE" "can_write out K (sink_io s)" "fitting (out_count s) cs = (t, fits)" "fits \<longrightarrow> fin \<noteq> Diverges"
  shows "\<exists>ok s'. run_script K cs fin s = Some (ok, s') \<and> file_end out K s t (fits \<and> fin = Fine) ok s'"
  using assms
proof (induction cs arbitrary: s t)
  case Nil
  then show ?case
    by (cases fin) (auto simp: emit_nothing_def emit_fail_def set_fmt_errno_def file_end_def)
next
  case (Cons c cs)
  show ?case
  proof (cases "unat (MINI_PRINTF_INT_MAX - out_count s) < length c")
    case True
    then show ?thesis using Cons.prems
      by (auto simp: emit_then_def emit_bytes_def reserve_count_def set_fmt_errno_def file_end_def)
  next
    case False
    from file_emit_bytes [OF Cons.prems(1,2) False] obtain n s1 where s1:
      "emit_bytes K c s = Some (n = length c, s1)" "n \<le> length c" "sink_kind s1 = SINK_FILE" "can_write out K (sink_io s1)"
      "out_count s1 = out_count s + of_nat (length c)"
      "stream_output out (sink_io s1) = stream_output out (sink_io s) @ take n c" "n < length c \<longrightarrow> ferror (sink_io s1)" by blast
    obtain u where u: "fitting (out_count s1) cs = (u, fits)" "t = c @ u"
      using Cons.prems(3) False by (auto simp: s1(5) split: prod.splits)
    show ?thesis
    proof (cases "n = length c")
      case True
      from Cons.IH [OF s1(3,4) u(1) Cons.prems(4)] obtain ok s' where
        "run_script K cs fin s1 = Some (ok, s')" "file_end out K s1 u (fits \<and> fin = Fine) ok s'" by blast
      moreover from this(2) obtain i where "i \<le> length u" "can_write out K (sink_io s')"
        "stream_output out (sink_io s') = stream_output out (sink_io s1) @ take i u"
        "i = length u \<and> ok = (fits \<and> fin = Fine) \<and> (ok \<longrightarrow> out_count s' = out_count s1 + of_nat (length u)) \<or>
         \<not> ok \<and> ferror (sink_io s')" unfolding file_end_def by blast
      then have "file_end out K s t (fits \<and> fin = Fine) ok s'"
        using s1(5,6) True unfolding file_end_def u(2) by (intro conjI exI [of _ "length c + i"]) (auto simp: add.assoc)
      ultimately show ?thesis using s1(1) True by (auto simp: emit_then_def)
    next
      case False
      then have "file_end out K s t (fits \<and> fin = Fine) False s1"
        using s1 unfolding file_end_def u(2) by (intro conjI exI [of _ n]) auto
      then show ?thesis using s1(1) False by (auto simp: emit_then_def)
    qed
  qed
qed

text \<open>C34. \<open>fprintf\<close> to a stream in good order returns, and writes what \<open>snprintf\<close> stores: all of it, with the same
  result, or a part of it, with \<open>EOF\<close> and the error indicator set. What is written is what the kernel has
  and what is buffered; the text is the one of which every buffer gets as much as it holds.\<close>

theorem fprintf_writes_snprintf_text:
  assumes "cstr_at m format xs" "format \<noteq> 0"
    and "mini_snprintf_dispatch K m wm u8 c0 (Some buf0) n0 format (Some a) = Some (r, b0, c1)"
    and "writes_to K out" "stream_ok (strm c)" "has (mode (strm c)) MINI_FILE_WRITABLE"
    and "\<not> has (state (strm c)) MINI_FILE_READ_NEEDS_POSITION"
  shows "\<exists>t r' c' k.
    (\<forall>buf n. mini_snprintf_dispatch K m wm u8 c0 (Some buf) n format (Some a) = Some (r, Some (truncated n t buf), c1)) \<and>
    mini_format_dispatch K m wm u8 c format (Some a) = Some (r', c') \<and> stream_ok (strm c') \<and>
    stream_output out c' = stream_output out c @ take k t \<and>
    (k = length t \<and> r' = r \<or> k \<le> length t \<and> r' = c_EOF \<and> ferror c')"
proof -
  obtain cs fin where run: "\<And>s. sink_utf8 s = u8 \<Longrightarrow> \<not> wide_semantics s \<Longrightarrow>
      format_dispatch K m wm format (Some a) s = as_result (run_script K cs fin) (s\<lparr>out_count := 0\<rparr>)"
    using format_dispatch_scripted [OF assms(1,2), of u8 False] by metis
  obtain t fits where fit: "fitting 0 cs = (t, fits)" by fastforce
  note [simp] = mini_snprintf_dispatch_def snprintf_dispatch_mode_def memory_sink_start run as_result_def mem_run_script fit Let_def
    fitting_count [OF fit]
  have mem: "fits \<longrightarrow> fin \<noteq> Diverges" "r = (if fits \<and> fin = Fine then int (length t) else c_EOF)"
    "\<forall>buf n. mini_snprintf_dispatch K m wm u8 c0 (Some buf) n format (Some a) = Some (r, Some (truncated n t buf), c1)"
    using assms(3) by (cases fits; cases fin; auto)+
  let ?s = "(file_sink c u8)\<lparr>out_count := 0\<rparr>"
  have s: "sink_kind ?s = SINK_FILE" "can_write out K (sink_io ?s)" "fitting (out_count ?s) cs = (t, fits)" "sink_io ?s = c"
    using assms(4-7) fit by (simp_all add: file_sink_def can_write_def needs_position_def)
  have "\<exists>ok s'. run_script K cs fin ?s = Some (ok, s') \<and> file_end out K ?s t (fits \<and> fin = Fine) ok s'"
    using file_run_script [OF s(1-3)] mem(1) by blast
  then obtain ok s' where e: "run_script K cs fin ?s = Some (ok, s')" "file_end out K ?s t (fits \<and> fin = Fine) ok s'" by blast
  then obtain k where k: "k \<le> length t" "can_write out K (sink_io s')" "stream_output out (sink_io s') = stream_output out c @ take k t"
    "k = length t \<and> ok = (fits \<and> fin = Fine) \<and> (ok \<longrightarrow> out_count s' = of_nat (length t)) \<or> \<not> ok \<and> ferror (sink_io s')"
    unfolding file_end_def s(4) by (auto simp: file_sink_def)
  have "mini_format_dispatch K m wm u8 c format (Some a) =
      Some (if ok then sint (out_count s') else c_EOF, sink_io s')"
    using assms(6) e(1) by (simp add: mini_format_dispatch_def file_sink_def)
  then show ?thesis
    using mem(2,3) k by (intro exI [of _ t] exI [of _ "if ok then sint (out_count s') else c_EOF"] exI [of _ "sink_io s'"] exI [of _ k])
      (auto simp: can_write_def)
qed

end
