(* ===== verification/Format_Number.thy ===== *)
theory Format_Number
  imports Format_Spec
begin

unbundle bit_operations_syntax

section \<open>The text of an integer conversion\<close>

text \<open>
  \<open>number_text\<close> is the text the C standard gives to an integer conversion, on natural numbers and
  lists. The code builds it with counts in 32 bits and digits last one first; it is proved to write
  exactly this text, and the text is read back by \<open>strtol\<close>.
\<close>

subsection \<open>The reference\<close>

definition digit_at :: "bool \<Rightarrow> nat \<Rightarrow> byte" where
  "digit_at uppercase i = (if uppercase then upper_digits else lower_digits) ! i"

fun digits_of :: "nat \<Rightarrow> bool \<Rightarrow> nat \<Rightarrow> byte list" where
  "digits_of b uppercase v =
     (if v < b \<or> b < 2 then [digit_at uppercase v]
      else digits_of b uppercase (v div b) @ [digit_at uppercase (v mod b)])"

declare digits_of.simps [simp del]

definition number_layout :: "format_spec \<Rightarrow> byte list \<Rightarrow> byte list \<Rightarrow> byte list" where
  "number_layout spec front body =
     (let pad = unat (spec_width spec) - (length front + length body)
      in if spec_left spec then front @ body @ replicate pad (ch CHR '' '')
         else if spec_zero spec \<and> \<not> precision_set spec then front @ replicate pad (ch CHR ''0'') @ body
         else replicate pad (ch CHR '' '') @ front @ body)"

definition number_body :: "format_spec \<Rightarrow> nat \<Rightarrow> nat \<Rightarrow> bool \<Rightarrow> byte list" where
  "number_body spec v b uppercase =
     (let ds = (if precision_set spec \<and> precision spec = 0 \<and> v = 0 then [] else digits_of b uppercase v);
          body = replicate ((if precision_set spec then unat (precision spec) else 0) - length ds) (ch CHR ''0'') @ ds
      in if alternate spec \<and> b = 8 \<and> (body = [] \<or> hd body \<noteq> ch CHR ''0'') then ch CHR ''0'' # body else body)"

definition number_front :: "format_spec \<Rightarrow> nat \<Rightarrow> bool \<Rightarrow> nat \<Rightarrow> bool \<Rightarrow> bool \<Rightarrow> byte list" where
  "number_front spec v neg b uppercase signed_conversion =
     (if signed_conversion then sign_prefix spec neg else []) @
     (if alternate spec \<and> b = 16 \<and> v \<noteq> 0 then bytes_of (if uppercase then ''0X'' else ''0x'') else [])"

definition number_text :: "format_spec \<Rightarrow> nat \<Rightarrow> bool \<Rightarrow> nat \<Rightarrow> bool \<Rightarrow> bool \<Rightarrow> byte list" where
  "number_text spec v neg b uppercase signed_conversion =
     number_layout spec (number_front spec v neg b uppercase signed_conversion) (number_body spec v b uppercase)"

subsection \<open>Digits\<close>

lemma make_digits_of:
  assumes "2 \<le> unat b"
  shows "make_digits v b uppercase acc = Some (acc @ rev (digits_of (unat b) uppercase (unat v)))"
proof (induction "unat v" arbitrary: v acc rule: less_induct)
  case less
  have b: "unat (ucast b :: u64) = unat b" unfolding unsigned_ucast_eq
    by (rule take_bit_nat_eq_self) (rule order.strict_trans [OF unsigned_less [of b]], simp)
  have d: "unat (v div ucast b) = unat v div unat b" "unat (v mod ucast b) = unat v mod unat b"
    by (simp_all add: unat_div unat_mod b)
  show ?case
  proof (cases "unat v < unat b")
    case True
    then have "v div ucast b = 0" using d(1) by (simp add: unat_eq_zero [symmetric])
    then show ?thesis using True d(2) by (subst make_digits.simps) (simp add: digits_of.simps [of _ _ "unat v"] digit_at_def)
  next
    case False
    then have nz: "unat v div unat b \<noteq> 0" using assms by (simp add: div_eq_0_iff)
    then have "v div ucast b \<noteq> 0" using d(1) by (metis unat_0)
    moreover have "unat (v div ucast b) < unat v" using d(1) nz assms by (metis div_less_dividend gr0I div_0 less_le_trans one_less_numeral_iff semiring_norm(76))
    ultimately show ?thesis using False assms less.hyps [of "v div ucast b"] d
      by (subst make_digits.simps) (simp add: digits_of.simps [of _ _ "unat v"] digit_at_def)
  qed
qed

lemma digits_of_nonempty [simp]: "digits_of b uppercase v \<noteq> []"
  by (subst digits_of.simps) simp

lemma digits_of_length:
  assumes "2 \<le> b" "v < b ^ n" "0 < n"
  shows "length (digits_of b uppercase v) \<le> n"
  using assms(2,3)
proof (induction n arbitrary: v)
  case (Suc n)
  show ?case
  proof (cases "v < b")
    case False
    then have "0 < n" using Suc.prems by (cases n) auto
    moreover have "v div b < b ^ n" using Suc.prems(1) assms(1) by (simp add: div_less_iff_less_mult mult.commute)
    ultimately show ?thesis using Suc.IH [of "v div b"] False by (subst digits_of.simps) simp
  qed (subst digits_of.simps, simp)
qed simp

lemma digits_of_u64_length:
  assumes "2 \<le> b"
  shows "length (digits_of b uppercase (unat (v :: u64))) \<le> 64"
proof (rule digits_of_length [OF assms])
  have "unat v < 2 ^ 64" using unsigned_less [of v] by simp
  also have "(2 :: nat) ^ 64 \<le> b ^ 64" using assms by (rule power_mono) simp
  finally show "unat v < b ^ 64" .
qed simp

subsection \<open>Emitting a text\<close>

definition emits :: "'k sys \<Rightarrow> 'k emitter \<Rightarrow> byte list \<Rightarrow> bool" where
  "emits K e t = (\<forall>c n buf u8 wide u k. unat k + length t \<le> unat MINI_PRINTF_INT_MAX \<longrightarrow>
     e (mem_sink c n buf u8 wide u k) = Some (True, mem_sink c n buf u8 wide (u @ t) (k + of_nat (length t))))"

named_theorems emitting \<open>what emitting functions write to a buffer\<close>

lemma emitsI: "(\<And>c n buf u8 wide u k. unat k + length t \<le> unat MINI_PRINTF_INT_MAX \<Longrightarrow>
     e (mem_sink c n buf u8 wide u k) = Some (True, mem_sink c n buf u8 wide (u @ t) (k + of_nat (length t)))) \<Longrightarrow> emits K e t"
  by (simp add: emits_def)

lemma emitsD: "emits K e t \<Longrightarrow> unat k + length t \<le> unat MINI_PRINTF_INT_MAX \<Longrightarrow>
     e (mem_sink c n buf u8 wide u k) = Some (True, mem_sink c n buf u8 wide (u @ t) (k + of_nat (length t)))"
  by (simp add: emits_def)

lemma count_room:
  assumes "unat (k :: u32) + i \<le> unat MINI_PRINTF_INT_MAX"
  shows "unat (MINI_PRINTF_INT_MAX - k) = unat MINI_PRINTF_INT_MAX - unat k" "unat (k + of_nat i) = unat k + i"
proof -
  show "unat (MINI_PRINTF_INT_MAX - k) = unat MINI_PRINTF_INT_MAX - unat k"
    using assms by (simp add: unat_sub word_le_nat_alt)
  show "unat (k + of_nat i) = unat k + i"
    using assms by (simp add: MINI_PRINTF_INT_MAX_def unat_word_ariths unat_of_nat)
qed

lemma emits_nothing [emitting]: "emits K emit_nothing []"
  by (rule emitsI) (simp add: emit_nothing_def)

lemma emits_bytes [emitting]: "emits K (emit_bytes K bs) bs"
  by (rule emitsI) (auto simp: mem_emit_bytes count_room)

lemma emits_then [emitting]:
  assumes "emits K f t" "emits K g u"
  shows "emits K (emit_then f g) (t @ u)"
proof (rule emitsI)
  fix c n buf u8 wide v and k :: u32 assume k: "unat k + length (t @ u) \<le> unat MINI_PRINTF_INT_MAX"
  then have "unat k + length t \<le> unat MINI_PRINTF_INT_MAX" "unat (k + of_nat (length t)) + length u \<le> unat MINI_PRINTF_INT_MAX"
    using count_room(2) [of k "length t"] by auto
  from emitsD [OF assms(1) this(1)] emitsD [OF assms(2) this(2)]
  show "emit_then f g (mem_sink c n buf u8 wide v k) =
      Some (True, mem_sink c n buf u8 wide (v @ t @ u) (k + of_nat (length (t @ u))))"
    by (simp add: emit_then_def add.assoc)
qed

lemma emits_repeat_loop: "emits K (repeat_loop K b i) (replicate i b)"
proof (induction i rule: less_induct)
  case (less i)
  show ?case
  proof (cases "i = 0")
    case False
    define j where "j = (if MINI_FORMAT_PAD_CHUNK < i then MINI_FORMAT_PAD_CHUNK else i)"
    have j: "0 < j" "j \<le> i" using False by (auto simp: j_def MINI_FORMAT_PAD_CHUNK_def)
    then have r: "replicate i b = replicate j b @ replicate (i - j) b" by (metis le_add_diff_inverse replicate_add)
    show ?thesis using False j less [of "i - j"] unfolding r
      by (subst repeat_loop.simps) (simp add: j_def [symmetric] emits_then emits_bytes)
  qed (subst repeat_loop.simps, simp add: emitting)
qed

lemma emits_repeat [emitting]: "emits K (emit_repeat K b i) (replicate (unat i) b)"
proof (rule emitsI)
  fix c n buf u8 wide u and k :: u32 assume k: "unat k + length (replicate (unat i) b) \<le> unat MINI_PRINTF_INT_MAX"
  then have "\<not> MINI_PRINTF_INT_MAX - k < i" using count_room(1) [of k "unat i"] by (simp add: word_less_nat_alt)
  then show "emit_repeat K b i (mem_sink c n buf u8 wide u k) =
      Some (True, mem_sink c n buf u8 wide (u @ replicate (unat i) b) (k + of_nat (length (replicate (unat i) b))))"
    using emitsD [OF emits_repeat_loop [of K b "unat i"] k] by (simp add: emit_repeat_def)
qed

lemma emits_if [emitting]: "emits K e t \<Longrightarrow> emits K (emit_if b e) (if b then t else [])"
  by (simp add: emit_if_def emitting)

lemma emits_each_byte: "emits K (emit_all (map (\<lambda>d. emit_bytes K [d]) ds)) ds"
proof (induction ds)
  case (Cons d ds)
  show ?case using emits_then [OF emits_bytes [of K "[d]"] Cons] by (simp add: emit_all_simps)
qed (simp add: emit_all_simps emitting)

lemma emits_if_bytes: "emits K (emit_if (bs \<noteq> []) (emit_bytes K bs)) bs"
  using emits_if [OF emits_bytes, of K "bs \<noteq> []" bs] by (cases bs) simp_all


subsection \<open>The code writes the reference text\<close>

text \<open>The precision zeros and digits the code arrives at, for the digits of the number.\<close>

definition zeros_and_digits :: "format_spec \<Rightarrow> u32 \<Rightarrow> byte list \<Rightarrow> byte list \<times> u32" where
  "zeros_and_digits spec base digits =
     (let precision_zeros = (if precision_set spec \<and> length digits < unat (precision spec)
             then precision spec - of_nat (length digits) else 0)
      in if alternate spec \<and> base = 8 then
           if digits = [] then ([ch CHR ''0''], precision_zeros)
           else if precision_zeros = 0 \<and> digits ! (length digits - 1) \<noteq> ch CHR ''0'' then (digits, 1)
           else (digits, precision_zeros)
         else (digits, precision_zeros))"

lemma unat_sub_of_nat: "i < unat (w :: u32) \<Longrightarrow> unat (w - of_nat i) = unat w - i"
proof -
  assume i: "i < unat w"
  moreover have "unat w < 2 ^ 32" using unsigned_less [of w] by simp
  ultimately have "i < 2 ^ 32" by simp
  then have u: "unat (of_nat i :: u32) = i" by (simp add: unsigned_of_nat take_bit_nat_eq_self)
  moreover have "of_nat i \<le> w" using i u by (simp add: word_le_nat_alt)
  ultimately have u: "unat (of_nat i :: u32) = i" "of_nat i \<le> w" by simp_all
  with u show ?thesis by (simp add: unat_sub)
qed

lemma zeros_and_digits_body:
  assumes "zeros_and_digits spec base (rev ds) = (digits', zeros)" "b = unat base"
    and "ds = (if precision_set spec \<and> precision spec = 0 \<and> v = 0 then [] else digits_of b uppercase v)"
  shows "replicate (unat zeros) (ch CHR ''0'') @ rev digits' = number_body spec v b uppercase"
proof -
  define z where "z = (if precision_set spec \<and> length ds < unat (precision spec) then precision spec - of_nat (length ds) else 0)"
  have z: "unat z = (if precision_set spec then unat (precision spec) else 0) - length ds"
    by (auto simp: z_def unat_sub_of_nat)
  have e: "base = 8 \<longleftrightarrow> b = 8" using assms(2) by (auto simp: word_unat_eq_iff)
  have body: "number_body spec v b uppercase =
      (let body = replicate (unat z) (ch CHR ''0'') @ ds
       in if alternate spec \<and> b = 8 \<and> (body = [] \<or> hd body \<noteq> ch CHR ''0'') then ch CHR ''0'' # body else body)"
    unfolding number_body_def z assms(3) [symmetric] Let_def ..
  show ?thesis
  proof (cases "ds = []")
    case True
    then have "precision_set spec" "precision spec = 0" using assms(3) by (auto split: if_splits)
    then show ?thesis using assms(1) True unfolding body
      by (auto simp: zeros_and_digits_def z_def e Let_def split: if_splits)
  next
    case False
    then have r: "rev ds ! (length ds - 1) = hd ds" by (simp add: rev_nth hd_conv_nth)
    have "(digits', zeros) = (if alternate spec \<and> b = 8 then
        if rev ds = [] then ([ch CHR ''0''], z)
        else if z = 0 \<and> rev ds ! (length ds - 1) \<noteq> ch CHR ''0'' then (rev ds, 1) else (rev ds, z) else (rev ds, z))"
      unfolding assms(1) [symmetric] zeros_and_digits_def length_rev z_def [symmetric] Let_def e ..
    then have "(digits', zeros) = (if alternate spec \<and> b = 8 \<and> z = 0 \<and> hd ds \<noteq> ch CHR ''0'' then (rev ds, 1) else (rev ds, z))"
      using False unfolding r by (auto split: if_splits)
    then show ?thesis using False unfolding body Let_def
      by (cases "z = 0") (auto simp: hd_append unat_eq_zero)
  qed
qed


lemma sign_prefix_length: "length (sign_prefix spec neg) \<le> 1"
  by (simp add: sign_prefix_def)

lemma number_front_length: "length (number_front spec v neg b uppercase sc) \<le> 3"
  using sign_prefix_length [of spec neg] by (auto simp: number_front_def)

lemma number_body_length:
  assumes "precision spec \<le> MINI_PRINTF_INT_MAX" "2 \<le> b"
  shows "length (number_body spec (unat (v :: u64)) b uppercase) \<le> 2147483647 + 65"
proof -
  have "unat (precision spec) \<le> 2147483647" using assms(1) by (simp add: word_le_nat_alt MINI_PRINTF_INT_MAX_def)
  then show ?thesis using digits_of_u64_length [OF assms(2), of uppercase v] by (auto simp: number_body_def Let_def)
qed

lemma emits_number:
  assumes "spec_width spec \<le> MINI_PRINTF_INT_MAX" "precision spec \<le> MINI_PRINTF_INT_MAX" "base \<in> {8, 10, 16}"
  shows "emits K (emit_number K spec v neg base uppercase sc) (number_text spec (unat v) neg (unat base) uppercase sc)"
proof -
  have b: "2 \<le> unat base" "base = 16 \<longleftrightarrow> unat base = 16" using assms(3) by auto
  define ds where "ds = (if precision_set spec \<and> precision spec = 0 \<and> unat v = 0 then [] else digits_of (unat base) uppercase (unat v))"
  obtain digits' zeros where zd: "zeros_and_digits spec base (rev ds) = (digits', zeros)" by fastforce
  define front where "front = number_front spec (unat v) neg (unat base) uppercase sc"
  define body where "body = number_body spec (unat v) (unat base) uppercase"
  have body: "replicate (unat zeros) (ch CHR ''0'') @ rev digits' = body"
    unfolding body_def by (rule zeros_and_digits_body [OF zd refl ds_def])
  define total_length where "total_length = of_nat (length front) + zeros + (of_nat (length digits') :: u32)"
  define padding where "padding = (if total_length < spec_width spec then spec_width spec - total_length else 0)"
  have lb: "length body = unat zeros + length digits'" unfolding body [symmetric] by simp
  have l: "length front + length body \<le> 2147483647 + 68"
    using number_front_length [of spec "unat v" neg "unat base" uppercase sc]
      number_body_length [OF assms(2) b(1), of v uppercase] by (simp add: front_def body_def)
  have tl: "unat total_length = length front + length body"
    using l unfolding total_length_def lb by (simp add: unat_word_ariths unat_of_nat)
  have pad: "unat padding = unat (spec_width spec) - (length front + length body)"
    unfolding padding_def tl [symmetric] by (simp add: unat_sub word_less_nat_alt word_le_nat_alt)
  define zero where "zero = (spec_zero spec \<and> \<not> spec_left spec \<and> \<not> precision_set spec)"
  define parts where "parts = [emit_if (\<not> spec_left spec) (emit_repeat K (ch CHR '' '') (if zero then 0 else padding)),
      emit_if (front \<noteq> []) (emit_bytes K front), emit_repeat K (ch CHR ''0'') (if zero then padding else 0),
      emit_repeat K (ch CHR ''0'') zeros] @ map (\<lambda>d. emit_bytes K [d]) (rev digits') @
      [emit_if (spec_left spec) (emit_repeat K (ch CHR '' '') (if zero then 0 else padding))]"
  have e: "emit_number K spec v neg base uppercase sc = emit_all parts"
  proof
    fix s
    have vz: "v = 0 \<longleftrightarrow> unat v = 0" by (simp add: unat_eq_zero)
    have rv: "(if precision_set spec \<and> precision spec = 0 \<and> v = 0 then [] else rev (digits_of (unat base) uppercase (unat v))) = rev ds"
      by (simp add: ds_def vz)
    have fr: "(if sc then sign_prefix spec neg else []) @
             (if alternate spec \<and> base = 16 \<and> v \<noteq> 0
              then bytes_of ''0'' @ (if uppercase then bytes_of ''X'' else bytes_of ''x'') else []) = front"
      by (simp add: front_def number_front_def b(2) vz)
    show "emit_number K spec v neg base uppercase sc s = emit_all parts s"
      unfolding emit_number_def make_digits_of [OF b(1)] append_Nil bind.simps(2) rv fr Let_def
        zd [unfolded zeros_and_digits_def Let_def] prod.case total_length_def [symmetric] padding_def [symmetric]
        zero_def [symmetric] parts_def ..
  qed
  have t: "number_text spec (unat v) neg (unat base) uppercase sc =
      (if \<not> spec_left spec then replicate (unat (if zero then 0 else padding)) (ch CHR '' '') else []) @ front @
      replicate (unat (if zero then padding else 0)) (ch CHR ''0'') @ replicate (unat zeros) (ch CHR ''0'') @ rev digits' @
      (if spec_left spec then replicate (unat (if zero then 0 else padding)) (ch CHR '' '') else []) @ []"
    unfolding number_text_def number_layout_def front_def [symmetric] body_def [symmetric] body [symmetric]
    by (simp add: zero_def Let_def pad lb)
  show ?thesis
    unfolding e t parts_def emit_all_simps append_Cons append_Nil emit_then_assoc emit_nothing_then by (intro emitting emits_each_byte emits_if_bytes)
qed

subsection \<open>Reading the text back\<close>

lemma digit_at_value:
  assumes "i < 16"
  shows "digit_value (digit_at uppercase i) = int i" "digit_at uppercase i \<noteq> 0"
proof -
  have "i = 0 \<or> i = 1 \<or> i = 2 \<or> i = 3 \<or> i = 4 \<or> i = 5 \<or> i = 6 \<or> i = 7 \<or>
      i = 8 \<or> i = 9 \<or> i = 10 \<or> i = 11 \<or> i = 12 \<or> i = 13 \<or> i = 14 \<or> i = 15" using assms by presburger
  then have "digit_value (digit_at uppercase i) = int i \<and> digit_at uppercase i \<noteq> 0"
    by (elim disjE) (simp_all add: digit_at_def upper_digits_def lower_digits_def digit_value_def)
  then show "digit_value (digit_at uppercase i) = int i" "digit_at uppercase i \<noteq> 0" by simp_all
qed

lemma digits_of_set:
  assumes "2 \<le> b" "b \<le> 16"
  shows "\<forall>d \<in> set (digits_of b uppercase v). is_digit_in (int b) d \<and> d \<noteq> 0"
proof (induction v rule: less_induct)
  case (less v)
  show ?case
  proof (cases "v < b")
    case True
    then show ?thesis using assms digit_at_value [of v uppercase] by (subst digits_of.simps) (simp add: is_digit_in_def)
  next
    case False
    have "v div b < v" using False assms by simp
    moreover have "v mod b < 16" using assms by (meson mod_less_divisor less_le_trans pos2)
    ultimately show ?thesis using less [of "v div b"] False assms digit_at_value [of "v mod b" uppercase]
      by (subst digits_of.simps) (auto simp: is_digit_in_def)
  qed
qed

lemma digits_val_snoc: "digits_val b (ds @ [d]) = digits_val b ds * nat b + nat (digit_value d)"
  by (simp add: digits_val_def)

lemma digits_of_val:
  assumes "2 \<le> b" "b \<le> 16"
  shows "digits_val (int b) (digits_of b uppercase v) = v"
proof (induction v rule: less_induct)
  case (less v)
  show ?case
  proof (cases "v < b")
    case True
    then show ?thesis using assms digit_at_value(1) [of v uppercase] by (subst digits_of.simps) (simp add: digits_val_def)
  next
    case False
    have "v div b < v" using False assms by simp
    moreover have "v mod b < 16" using assms by (meson mod_less_divisor less_le_trans pos2)
    ultimately show ?thesis using less [of "v div b"] False assms digit_at_value(1) [of "v mod b" uppercase]
      by (subst digits_of.simps) (simp add: digits_val_snoc)
  qed
qed

lemma digits_val_zeros: "digits_val b (replicate z (ch CHR ''0'') @ ds) = digits_val b ds"
  "digits_val b (ch CHR ''0'' # ds) = digits_val b ds"
  by (induction z) (simp_all add: digits_val_def digit_value_def)

text \<open>The body is the digits behind some zeros.\<close>

lemma number_body_zeros:
  assumes "\<not> (precision_set spec \<and> precision spec = 0 \<and> v = 0)"
  obtains z where "number_body spec v b uppercase = replicate z (ch CHR ''0'') @ digits_of b uppercase v"
proof -
  define z where "z = (if precision_set spec then unat (precision spec) else 0) - length (digits_of b uppercase v)"
  have "number_body spec v b uppercase = replicate z (ch CHR ''0'') @ digits_of b uppercase v \<or>
      number_body spec v b uppercase = replicate (Suc z) (ch CHR ''0'') @ digits_of b uppercase v"
    unfolding number_body_def Let_def z_def using assms by (simp only: if_False simp_thms) auto
  then show ?thesis using that by blast
qed

text \<open>The digits of the body, whatever the precision, stand for the number.\<close>

lemma number_body_digits:
  assumes "\<not> (precision_set spec \<and> precision spec = 0 \<and> v = 0)" "2 \<le> b" "b \<le> 16"
  shows "digits_val (int b) (number_body spec v b uppercase) = v" "number_body spec v b uppercase \<noteq> []"
    "\<forall>d \<in> set (number_body spec v b uppercase). is_digit_in (int b) d \<and> d \<noteq> 0"
proof -
  have z: "is_digit_in (int b) (ch CHR ''0'')" using assms(2) by (simp add: is_digit_in_def digit_value_def)
  obtain i where i: "number_body spec v b uppercase = replicate i (ch CHR ''0'') @ digits_of b uppercase v"
    using number_body_zeros [OF assms(1)] by blast
  show "digits_val (int b) (number_body spec v b uppercase) = v" "number_body spec v b uppercase \<noteq> []"
    unfolding i digits_val_zeros digits_of_val [OF assms(2,3)] by simp_all
  show "\<forall>d \<in> set (number_body spec v b uppercase). is_digit_in (int b) d \<and> d \<noteq> 0"
    using digits_of_set [OF assms(2,3), of uppercase v] z unfolding i by auto
qed

lemma digit_not_special: "is_digit_in 10 d \<Longrightarrow> \<not> is_c_space d \<and> d \<noteq> ch CHR ''+'' \<and> d \<noteq> ch CHR ''-''"
  by (auto simp: is_digit_in_def digit_value_def is_c_space_def)

lemma space_facts: "is_c_space (ch CHR '' '')" "\<not> is_digit_in 10 (ch CHR '' '')"
  by (simp_all add: is_c_space_def is_digit_in_def digit_value_def)

lemma drop_replicate_space: "dropWhile is_c_space (replicate i (ch CHR '' '') @ xs) = dropWhile is_c_space xs"
  by (induction i) (simp_all add: space_facts [simplified])

lemma take_digits:
  assumes "\<forall>d \<in> set ds. is_digit_in 10 d"
  shows "takeWhile (is_digit_in 10) (ds @ replicate i (ch CHR '' '')) = ds"
    "dropWhile (is_digit_in 10) (ds @ replicate i (ch CHR '' '')) = replicate i (ch CHR '' '')"
  using assms by (simp_all, (cases i; simp add: space_facts [simplified])+)

lemma number_text_parse:
  assumes "\<not> (precision_set spec \<and> precision spec = 0 \<and> v = 0)"
  obtains ds i where "strto_parse 10 (number_text spec v neg 10 uppercase True) = (neg, 10, ds, replicate i (ch CHR '' ''))"
    "digits_val 10 ds = v" "ds \<noteq> []" "0 \<notin> set (number_text spec v neg 10 uppercase True)"
proof -
  note body = number_body_digits [OF assms, of 10 uppercase, simplified]
  define sign where "sign = sign_prefix spec neg"
  obtain i ds j where T: "number_text spec v neg 10 uppercase True = replicate i (ch CHR '' '') @ sign @ ds @ replicate j (ch CHR '' '')"
    "digits_val 10 ds = v" "ds \<noteq> []" "\<forall>d \<in> set ds. is_digit_in 10 d \<and> d \<noteq> 0"
  proof (cases "spec_left spec")
    case True
    then show ?thesis using body
      by (intro that [of 0 "number_body spec v 10 uppercase" "unat (spec_width spec) - (length sign + length (number_body spec v 10 uppercase))"])
        (auto simp: number_text_def number_layout_def number_front_def sign_def Let_def)
  next
    case False
    define pad where "pad = unat (spec_width spec) - (length sign + length (number_body spec v 10 uppercase))"
    show ?thesis
    proof (cases "spec_zero spec \<and> \<not> precision_set spec")
      case True
      have "is_digit_in 10 (ch CHR ''0'')" by (simp add: is_digit_in_def digit_value_def)
      then show ?thesis using body True False
        by (intro that [of 0 "replicate pad (ch CHR ''0'') @ number_body spec v 10 uppercase" 0])
          (auto simp: number_text_def number_layout_def number_front_def sign_def [symmetric] Let_def pad_def digits_val_zeros [simplified])
    next
      case nz: False
      show ?thesis using body nz False
        by (intro that [of pad "number_body spec v 10 uppercase" 0])
          (auto simp: number_text_def number_layout_def number_front_def sign_def Let_def pad_def)
    qed
  qed
  have h: "\<not> is_c_space (hd ds)" "hd ds \<noteq> ch CHR ''+''" "hd ds \<noteq> ch CHR ''-''"
    using T(3,4) digit_not_special [of "hd ds"] by auto
  have sp: "split_sign (dropWhile is_c_space (sign @ ds @ replicate j (ch CHR '' ''))) = (neg, ds @ replicate j (ch CHR '' ''))"
    using h T(3) by (cases ds) (auto simp: sign_def sign_prefix_def split_sign_def is_c_space_def)
  have "strto_parse 10 (number_text spec v neg 10 uppercase True) = (neg, 10, ds, replicate j (ch CHR '' ''))"
    using T(4) by (simp add: strto_parse_def T(1) drop_replicate_space [simplified] sp [simplified] split_base_def take_digits [simplified] space_facts [simplified])
  moreover have "0 \<notin> set (number_text spec v neg 10 uppercase True)"
    using T(4) by (auto simp: T(1) sign_def sign_prefix_def)
  ultimately show ?thesis using that T(2,3) by blast
qed


lemma uint_not: "uint (NOT w :: 'a::len word) = 2 ^ LENGTH('a) - 1 - uint w"
proof -
  have "NOT w = - 1 - w" by (simp add: not_eq_complement)
  moreover have "uint (- 1 - w) = uint (- 1 :: 'a word) - uint w" by (simp only: uint_minus_simple_iff [symmetric] word_n1_ge)
  ultimately show ?thesis by (simp add: unsigned_minus_1_eq_mask mask_eq_exp_minus_1)
qed

lemma sint_by_uint:
  "sint w = (if uint w < 2 ^ (LENGTH('a) - 1) then uint w else uint w - 2 ^ LENGTH('a))" for w :: "'a::len word"
proof -
  have s: "sint w = (uint w + 2 ^ (LENGTH('a) - 1)) mod 2 ^ LENGTH('a) - 2 ^ (LENGTH('a) - 1)"
    using int_word_sint [of "uint w", where 'a = 'a] by simp
  have p: "(2 :: int) ^ LENGTH('a) = 2 * 2 ^ (LENGTH('a) - 1)" by (metis len_gt_0 power_eq_if zero_less_iff_neq_zero)
  have u: "0 \<le> uint w" "uint w < 2 ^ LENGTH('a)" by (simp_all add: uint_lt2p)
  show ?thesis
  proof (cases "uint w < 2 ^ (LENGTH('a) - 1)")
    case True
    then show ?thesis unfolding s p using u by (simp add: mod_pos_pos_trivial)
  next
    case False
    then have "(uint w + 2 ^ (LENGTH('a) - 1)) mod 2 ^ LENGTH('a) = uint w + 2 ^ (LENGTH('a) - 1) - 2 ^ LENGTH('a)"
      using u p by (intro int_mod_pos_eq [of _ _ 1]) auto
    then show ?thesis unfolding s using False p by simp
  qed
qed

text \<open>The conversions of argument words are the two's complement readings.\<close>

lemma word_to_int_sint: "word_to_int w = sint (ucast w :: u32)"
  by (auto simp: word_to_int_def Let_def word_le_def uint_not sint_by_uint)

lemma word_to_long_long_sint: "word_to_long_long w = sint w"
  by (auto simp: word_to_long_long_def Let_def word_le_def uint_not sint_by_uint)

lemma sint_range:
  fixes w :: "'a::len word"
  assumes "LENGTH('a) \<le> 64"
  shows "- (2 ^ 63) \<le> sint w \<and> sint w < 2 ^ 63"
proof -
  have "LENGTH('a) - 1 \<le> 63" using assms by simp
  then have "(2 :: int) ^ (LENGTH('a) - 1) \<le> 2 ^ 63" by (rule power_increasing) simp
  then show ?thesis using sint_ge [of w] sint_lt [of w] by linarith
qed

lemma next_signed_range:
  assumes "next_signed a len = (v, a')"
  shows "- (2 ^ 63) \<le> v \<and> v < 2 ^ 63"
  using assms sint_range [where 'a = 8] sint_range [where 'a = 16] sint_range [where 'a = 32] sint_range [where 'a = 64]
  by (auto simp: next_signed_def word_to_int_sint word_to_long_long_sint split: prod.splits if_splits)

lemma magnitude_of:
  assumes "- (2 ^ 63) \<le> v" "v < 2 ^ 63"
  shows "unat (if v < 0 then 0 - word_of_int v else word_of_int v :: u64) = nat \<bar>v\<bar>"
proof -
  have "(if v < 0 then 0 - word_of_int v else word_of_int v :: u64) = word_of_int \<bar>v\<bar>" by simp
  moreover have "unat (word_of_int \<bar>v\<bar> :: u64) = nat \<bar>v\<bar>"
    using assms by (simp add: unsigned_of_int take_bit_int_eq_self)
  ultimately show ?thesis by simp
qed

lemma emits_signed:
  assumes "conversion spec \<in> {ch CHR ''d'', ch CHR ''i''}" "next_signed a (spec_length spec) = (v, a')"
    and "spec_width spec \<le> MINI_PRINTF_INT_MAX" "precision spec \<le> MINI_PRINTF_INT_MAX"
  shows "emits K (snd (emit_conversion K m wm spec a)) (number_text spec (nat \<bar>v\<bar>) (v < 0) 10 False True)"
proof -
  have "snd (emit_conversion K m wm spec a) =
      emit_number K spec (if v < 0 then 0 - word_of_int v else word_of_int v) (v < 0) 10 False True"
    using assms(1,2) by (auto simp: emit_conversion_def Let_def)
  then show ?thesis
    using emits_number [OF assms(3,4), of 10 K "if v < 0 then 0 - word_of_int v else word_of_int v" "v < 0" False True]
      magnitude_of [of v] next_signed_range [OF assms(2)] by simp
qed

lemma emits_unsigned:
  assumes "conversion spec \<in> {ch CHR ''u'', ch CHR ''o'', ch CHR ''x'', ch CHR ''X''}" "next_unsigned a (spec_length spec) = (v, a')"
    and "spec_width spec \<le> MINI_PRINTF_INT_MAX" "precision spec \<le> MINI_PRINTF_INT_MAX"
  shows "emits K (snd (emit_conversion K m wm spec a)) (number_text spec (unat v) False
    (if conversion spec = ch CHR ''u'' then 10 else if conversion spec = ch CHR ''o'' then 8 else 16)
    (conversion spec = ch CHR ''X'') False)"
proof -
  define base :: u32 where "base = (if conversion spec = ch CHR ''u'' then 10 else if conversion spec = ch CHR ''o'' then 8 else 16)"
  have "snd (emit_conversion K m wm spec a) = emit_number K spec v False base (conversion spec = ch CHR ''X'') False"
    using assms(1,2) by (auto simp: emit_conversion_def Let_def base_def)
  moreover have "unat base = (if conversion spec = ch CHR ''u'' then 10 else if conversion spec = ch CHR ''o'' then 8 else 16)"
    by (simp add: base_def)
  ultimately show ?thesis
    using emits_number [OF assms(3,4), of base K v False "conversion spec = ch CHR ''X''" False] by (simp add: base_def)
qed

text \<open>A text that fits a fresh buffer stands there as a string.\<close>

lemma emits_to_buffer:
  assumes "emits K e t" "length t < n" "length t \<le> unat MINI_PRINTF_INT_MAX" "0 \<notin> set t"
  shows "\<exists>s. e (memory_sink c buf n u8 wide) = Some (True, s) \<and> cstr_at (sink_buffer s) 0 t \<and> out_count s = of_nat (length t)"
proof -
  have "cstr_at (truncated n t buf) 0 t"
    using assms(2,4) by (auto simp: cstr_at_iff truncated_def in_set_conv_nth)
  then show ?thesis using emitsD [OF assms(1), of 0 c n buf u8 wide "[]"] assms(3)
    by (simp add: memory_sink_start)
qed

text \<open>A conversion \<open>%d\<close> or \<open>%i\<close>, with any flags, width, precision and length modifier (but not precision 0 for
  the value 0, which writes no digit), writes to a buffer that is long enough a string which
  \<open>strtol\<close> in base 10 reads back as the converted argument, with \<open>errno\<close> unchanged.\<close>

theorem signed_conversion_reads_back:
  assumes "conversion spec \<in> {ch CHR ''d'', ch CHR ''i''}" "next_signed a (spec_length spec) = (v, a')"
    and "spec_width spec \<le> MINI_PRINTF_INT_MAX" "precision spec \<le> MINI_PRINTF_INT_MAX"
    and "\<not> (precision_set spec \<and> precision spec = 0 \<and> v = 0)"
    and "length (number_text spec (nat \<bar>v\<bar>) (v < 0) 10 False True) < n"
    and "length (number_text spec (nat \<bar>v\<bar>) (v < 0) 10 False True) \<le> unat MINI_PRINTF_INT_MAX"
  shows "\<exists>s. snd (emit_conversion K m wm spec a) (memory_sink c buf n u8 wide) = Some (True, s) \<and>
    strtol (sink_buffer s) 0 False 10 e = Some \<lparr>ret = v, end_slot = None, err = e\<rparr>"
proof -
  have nz: "\<not> (precision_set spec \<and> precision spec = 0 \<and> nat \<bar>v\<bar> = 0)" using assms(5) by auto
  obtain ds i where p: "strto_parse 10 (number_text spec (nat \<bar>v\<bar>) (v < 0) 10 False True) = (v < 0, 10, ds, replicate i (ch CHR '' ''))"
    "digits_val 10 ds = nat \<bar>v\<bar>" "ds \<noteq> []" "0 \<notin> set (number_text spec (nat \<bar>v\<bar>) (v < 0) 10 False True)"
    by (rule number_text_parse [OF nz])
  obtain s where s: "snd (emit_conversion K m wm spec a) (memory_sink c buf n u8 wide) = Some (True, s)"
    "cstr_at (sink_buffer s) 0 (number_text spec (nat \<bar>v\<bar>) (v < 0) 10 False True)"
    using emits_to_buffer [OF emits_signed [OF assms(1-4)] assms(6,7) p(4)] by blast
  have "signed_val (v < 0) (nat \<bar>v\<bar>) = v" by (simp add: signed_val_def)
  then have "strtol (sink_buffer s) 0 False 10 e = Some \<lparr>ret = v, end_slot = None, err = e\<rparr>"
    using strtol_spec [OF s(2), of 10 False e] p(3) next_signed_range [OF assms(2)]
    by (simp add: p(1,2) Let_def int_limits)
  then show ?thesis using s(1) by blast
qed

text \<open>C35. Every integer conversion writes the text of the standard, whatever its flags, width, precision and
  length: the sign or the mark of the base, zeros up to the precision or the width, the digits, and
  spaces on the side the flags ask for. The code counts in 32 bits and makes the digits last one first.\<close>

theorem integer_conversion_text:
  assumes "conversion spec \<in> {ch CHR ''d'', ch CHR ''i'', ch CHR ''u'', ch CHR ''o'', ch CHR ''x'', ch CHR ''X''}"
    and "spec_width spec \<le> MINI_PRINTF_INT_MAX" "precision spec \<le> MINI_PRINTF_INT_MAX"
    and "t = (if conversion spec \<in> {ch CHR ''d'', ch CHR ''i''}
      then (let v = fst (next_signed a (spec_length spec)) in number_text spec (nat \<bar>v\<bar>) (v < 0) 10 False True)
      else number_text spec (unat (fst (next_unsigned a (spec_length spec)))) False
        (if conversion spec = ch CHR ''u'' then 10 else if conversion spec = ch CHR ''o'' then 8 else 16)
        (conversion spec = ch CHR ''X'') False)"
    and "length t \<le> unat MINI_PRINTF_INT_MAX"
  shows "snd (emit_conversion K m wm spec a) (memory_sink c buf n u8 wide) =
    Some (True, (memory_sink c buf n u8 wide)\<lparr>sink_buffer := truncated n t buf, sink_stored := min (n - 1) (length t),
      out_count := of_nat (length t)\<rparr>)"
proof -
  have "emits K (snd (emit_conversion K m wm spec a)) t"
  proof (cases "conversion spec \<in> {ch CHR ''d'', ch CHR ''i''}")
    case True
    then show ?thesis using emits_signed [OF True surjective_pairing assms(2,3), of K m wm a] assms(4) unfolding Let_def by (simp only: if_True True)
  next
    case False
    then show ?thesis using emits_unsigned [OF _ surjective_pairing assms(2,3), of K m wm a] assms(1,4) by (auto simp: Let_def)
  qed
  from emitsD [OF this, of 0 c n buf u8 wide "[]"] assms(5) show ?thesis
    by (simp add: memory_sink_start) (simp add: mem_sink_def)
qed

subsection \<open>Examples\<close>

text \<open>The format \<open>%d\<close> with the argument -5.\<close>

definition example_format :: mem where "example_format = write_bytes (\<lambda>_. 0) 1 (bytes_of ''n=%d'')"

definition example_args :: "u64 \<Rightarrow> format_args" where
  "example_args w = \<lparr>gp = \<lambda>_. w, fp = \<lambda>_. 0, overflow_area = \<lambda>_. 0, overflow_next = 0,
     gp_index = 0, gp_count = 1, fp_index = 0, fp_count = 0\<rparr>"

lemma example_format_string: "cstr_at example_format 1 (bytes_of ''n=%d'')"
  by (simp add: example_format_def)

definition d_spec :: format_spec where "d_spec = empty_spec\<lparr>conversion := ch CHR ''d''\<rparr>"

lemma example_directive: "parse_spec example_format 4 a = Some (Some (5, d_spec, a))"
  by (simp add: parse_spec_def parse_flags.simps parse_width_def parse_decimal_def is_digit_def parse_precision_def
      parse_length_def example_format_def d_spec_def empty_spec_def)

lemma example_literal: "literal_end example_format 1 = Some 3"
  by (simp add: literal_end.simps example_format_def numeral_3_eq_3)

lemma example_snprintf:
  "snprintf_dispatch_mode K example_format wm c (Some buf) n 1 (Some (example_args (- 5))) u8 wide =
     Some (4, Some (truncated n (bytes_of ''n=-5'') buf), c)"
proof -
  have e: "emits K (snd (emit_conversion K m wm d_spec (example_args (- 5)))) (bytes_of ''-5'')" for m
  proof -
    have "next_signed (example_args (- 5)) (spec_length d_spec) = (- 5, (example_args (- 5))\<lparr>gp_index := 1\<rparr>)"
      by (simp add: next_signed_def next_word_def example_args_def d_spec_def empty_spec_def word_to_int_def)
    then show ?thesis
      using emits_signed [of d_spec "example_args (- 5)" "- 5" _ K m wm]
      by (simp add: d_spec_def empty_spec_def number_text_def number_layout_def number_front_def number_body_def
          sign_prefix_def digits_of.simps digit_at_def lower_digits_def Let_def)
  qed
  have l: "read_bytes example_format 1 2 = bytes_of ''n=''"
    by (simp add: example_format_def read_bytes_def upt_rec)
  have m: "example_format 1 \<noteq> 0" "example_format 3 \<noteq> 0" "example_format 5 = 0"
    by (simp_all add: example_format_def)
  have fin: "dispatch_loop K example_format wm 5 a s = Some (sint (out_count s), s)" for a s
    by (subst dispatch_loop.simps) (simp add: m)
  have conv: "snd (emit_conversion K example_format wm d_spec (example_args (- 5))) (mem_sink c n buf u8 wide (bytes_of ''n='') 2) =
      Some (True, mem_sink c n buf u8 wide (bytes_of ''n=-5'') 4)"
    using emitsD [OF e [of example_format], of 2 c n buf u8 wide "bytes_of ''n=''"] by (simp add: MINI_PRINTF_INT_MAX_def)
  have "dispatch_loop K example_format wm 1 (example_args (- 5)) (mem_sink c n buf u8 wide [] 0) =
      Some (4, mem_sink c n buf u8 wide (bytes_of ''n=-5'') 4)"
    unfolding dispatch_loop_unfold [OF m(1) example_literal]
    using l m(2) conv example_directive by (simp add: emit_if_def mem_emit_bytes MINI_PRINTF_INT_MAX_def directive_def fin)
  then show ?thesis
    by (simp add: snprintf_dispatch_mode_def memory_sink_start format_dispatch_def)
qed

text \<open>The text behind all buffers is unique.\<close>

lemma truncated_shorter:
  assumes "\<forall>buf n. truncated n t buf = truncated n u buf"
  shows "length u \<le> length t"
proof (rule ccontr)
  assume l: "\<not> length u \<le> length t"
  have "truncated (length u + 2) t (\<lambda>_. 1) (length u) = truncated (length u + 2) u (\<lambda>_. 1) (length u)" using assms by simp
  then show False using l by (simp add: truncated_def)
qed

lemma truncated_unique:
  assumes "\<forall>buf n. truncated n t buf = truncated n u buf"
  shows "t = u"
proof (rule nth_equalityI)
  show l: "length t = length u"
    using truncated_shorter [of t u] truncated_shorter [of u t] assms by auto
  fix i assume i: "i < length t"
  have "truncated (length t + 2) t (\<lambda>_. 1) i = truncated (length t + 2) u (\<lambda>_. 1) i" using assms by simp
  then show "t ! i = u ! i" using l i by (simp add: truncated_def)
qed

theorem snprintf_truncates_witness:
  "\<exists>t. snprintf_dispatch_mode pipe_kernel example_format (\<lambda>_. 0) (example_io 0 []) (Some (\<lambda>_. 7)) 3 1
     (Some (example_args (- 5))) False False = Some (4, Some (truncated 3 t (\<lambda>_. 7)), example_io 0 [])"
  using snprintf_truncates [OF example_format_string _
      example_snprintf [of pipe_kernel "\<lambda>_. 0" "example_io 0 []" "\<lambda>_. 0" 10 False False]] by auto

theorem fprintf_writes_snprintf_text_witness:
  "\<exists>r c' k. mini_format_dispatch pipe_kernel example_format (\<lambda>_. 0) False (example_io MINI_FILE_WRITABLE []) 1
      (Some (example_args (- 5))) = Some (r, c') \<and>
     stream_output (\<lambda>k d. snd k) c' = take k (bytes_of ''n=-5'')"
proof -
  have s: "stream_ok (strm (example_io MINI_FILE_WRITABLE []))"
    "has (mode (strm (example_io MINI_FILE_WRITABLE []))) MINI_FILE_WRITABLE"
    "\<not> has (state (strm (example_io MINI_FILE_WRITABLE []))) MINI_FILE_READ_NEEDS_POSITION"
    "stream_output (\<lambda>k d. snd k) (example_io MINI_FILE_WRITABLE []) = []"
    by (simp_all add: example_io_def static_file_ok)
      (simp_all add: static_file_def has_def mode_flags stream_output_def pending_def)
  have r: "mini_snprintf_dispatch pipe_kernel example_format (\<lambda>_. 0) False (example_io 0 []) (Some buf) n 1
      (Some (example_args (- 5))) = Some (4, Some (truncated n (bytes_of ''n=-5'') buf), example_io 0 [])" for buf n
    unfolding mini_snprintf_dispatch_def by (rule example_snprintf)
  obtain t r' c' k where t: "\<forall>buf n. truncated n t buf = truncated n (bytes_of ''n=-5'') buf"
    "mini_format_dispatch pipe_kernel example_format (\<lambda>_. 0) False (example_io MINI_FILE_WRITABLE []) 1
      (Some (example_args (- 5))) = Some (r', c')" "stream_output (\<lambda>k d. snd k) c' = [] @ take k t"
    using fprintf_writes_snprintf_text [OF example_format_string one_neq_zero r [of "\<lambda>_. 0" 10] pipe_writes s(1-3)]
    unfolding r s(4) option.inject prod.inject by (elim exE conjE) metis
  then show ?thesis using truncated_unique [OF t(1)] by auto
qed

lemma example_next: "next_signed (example_args (- 5)) (spec_length d_spec) = (- 5, (example_args (- 5))\<lparr>gp_index := 1\<rparr>)"
  by (simp add: next_signed_def next_word_def example_args_def d_spec_def empty_spec_def word_to_int_def)

lemma example_text: "number_text d_spec 5 True 10 False True = bytes_of ''-5''"
  by (simp add: d_spec_def empty_spec_def number_text_def number_layout_def number_front_def number_body_def
      sign_prefix_def digits_of.simps digit_at_def lower_digits_def Let_def)

lemma d_spec_sel [simp]: "conversion d_spec = ch CHR ''d''" "spec_width d_spec = 0" "precision d_spec = 0" "\<not> precision_set d_spec"
  by (simp_all add: d_spec_def empty_spec_def)

theorem signed_conversion_reads_back_witness:
  "\<exists>s. snd (emit_conversion pipe_kernel (\<lambda>_. 0) (\<lambda>_. 0) d_spec (example_args (- 5)))
      (memory_sink (example_io 0 []) (\<lambda>_. 7) 3 False False) = Some (True, s) \<and>
    strtol (sink_buffer s) 0 False 10 7 = Some \<lparr>ret = - 5, end_slot = None, err = 7\<rparr>"
  using signed_conversion_reads_back [OF _ example_next, of 3 pipe_kernel "\<lambda>_. 0" "\<lambda>_. 0" "example_io 0 []" "\<lambda>_. 7" False False 7]
  by (simp add: example_text MINI_PRINTF_INT_MAX_def)

theorem integer_conversion_text_witness:
  "\<exists>s. snd (emit_conversion pipe_kernel (\<lambda>_. 0) (\<lambda>_. 0) d_spec (example_args (- 5)))
      (memory_sink (example_io 0 []) (\<lambda>_. 7) 3 False False) = Some (True, s) \<and>
    sink_buffer s = truncated 3 (bytes_of ''-5'') (\<lambda>_. 7) \<and> out_count s = 2"
  using integer_conversion_text [of d_spec _ "example_args (- 5)" pipe_kernel "\<lambda>_. 0" "\<lambda>_. 0" "example_io 0 []" "\<lambda>_. 7" 3 False False]
  by (simp add: example_next example_text MINI_PRINTF_INT_MAX_def Let_def)

end
