(* ===== verification/Wide_Stdio.thy ===== *)
theory Wide_Stdio
  imports Stdio_File Format_Spec
begin

unbundle bit_operations_syntax

section \<open>Wide streams (\<open>wchar/wide_stdio.c\<close>)\<close>

text \<open>
  Characters on a stream of bytes: reading collects the bytes of one character through the decoder of
  \<open>Wchar\<close>, writing encodes one, pushing back stores its bytes. The encoding is the one the stream was bound
  to when it became wide. The unlocked operations work on one stream; the public ones ask for wide
  orientation first. The reading loop ends when the decoder has a character or the stream has no byte,
  so it is a partial function, and that it returns is a theorem.
\<close>

subsection \<open>One character\<close>

definition WEOF :: wchar where "WEOF = 0xffffffff"

definition wide_error :: "int \<Rightarrow> 'k io \<Rightarrow> wchar \<times> 'k io" where
  "wide_error e c = (WEOF, mark_error e c)"

definition wide_utf8 :: "'k io \<Rightarrow> bool" where
  "wide_utf8 c = has (state (strm c)) MINI_FILE_WIDE_UTF8"

text \<open>A call of \<open>__mini_mbrtowc_mode\<close> on one byte, with a state of its own.\<close>

definition decode_byte :: "bool \<Rightarrow> byte \<Rightarrow> mbstate \<Rightarrow> conversion" where
  "decode_byte u b st = (if u then utf8_loop (\<lambda>_. b) 0 1 0 st else c_decode (\<lambda>_. b) 0 st)"

partial_function (option) read_character_loop :: "'k sys \<Rightarrow> bool \<Rightarrow> mbstate \<Rightarrow> 'k io \<Rightarrow> (wchar \<times> 'k io) option" where
  "read_character_loop K u st c =
     (let (data, c1) = stdio_read K 1 c
      in if length data \<noteq> 1 then
           Some (if \<not> mbsinit (Some st) then wide_error EILSEQ c1 else (WEOF, c1))
         else let (converted, wc, st1, e) = decode_byte u (hd data) st
           in if converted = conv_error then Some (wide_error EILSEQ c1)
              else if converted \<noteq> conv_incomplete then Some (the wc, c1)
              else read_character_loop K u st1 c1)"

declare read_character_loop.simps [code]

definition wide_read_character :: "'k sys \<Rightarrow> 'k io \<Rightarrow> (wchar \<times> 'k io) option" where
  "wide_read_character K c = read_character_loop K (wide_utf8 c) reset_state c"

definition wide_write_character :: "'k sys \<Rightarrow> wchar \<Rightarrow> 'k io \<Rightarrow> (wchar \<times> 'k io) option" where
  "wide_write_character K wc c =
     (case encode (wide_utf8 c) wc of
        None \<Rightarrow> Some (wide_error EILSEQ c)
      | Some bytes \<Rightarrow>
          map_option (\<lambda>(n, c'). (if n \<noteq> length bytes then WEOF else wc, c')) (stdio_write K bytes c))"

text \<open>On a stream that is not null.\<close>

definition wide_unget_character :: "wchar \<Rightarrow> 'k io \<Rightarrow> wchar \<times> 'k io" where
  "wide_unget_character wc c =
     (if wc = WEOF then wide_error EINVAL c
      else case encode (wide_utf8 c) wc of
          None \<Rightarrow> wide_error EILSEQ c
        | Some bytes \<Rightarrow> let (r, c') = pushback_unlocked bytes c in (if r = c_EOF then WEOF else wc, c'))"

subsection \<open>The public functions\<close>

text \<open>\<open>wide_require_readable\<close> and \<open>wide_require_writable\<close>, and what follows them under the lock.\<close>

definition require_readable :: "bool \<Rightarrow> nat \<Rightarrow> 'k world \<Rightarrow> int \<times> 'k world" where
  "require_readable u8 p w =
     (let (r, w) = require_wide u8 p w
      in if r = c_EOF then (c_EOF, w)
         else if \<not> has (mode (files w p)) MINI_FILE_READABLE \<or> has (state (files w p)) MINI_FILE_WRITE_NEEDS_SYNC
           then (c_EOF, snd (on_file (wide_error EINVAL) p w))
         else (0, w))"

definition require_writable :: "bool \<Rightarrow> nat \<Rightarrow> 'k world \<Rightarrow> int \<times> 'k world" where
  "require_writable u8 p w =
     (let (r, w) = require_wide u8 p w
      in if r = c_EOF then (c_EOF, w)
         else if \<not> has (mode (files w p)) MINI_FILE_WRITABLE then (c_EOF, snd (on_file (wide_error EINVAL) p w))
         else (0, w))"

definition fgetwc :: "bool \<Rightarrow> 'k sys \<Rightarrow> nat \<Rightarrow> 'k world \<Rightarrow> (wchar \<times> 'k world) option" where
  "fgetwc u8 K p w =
     (let (r, w) = require_readable u8 p w in if r = c_EOF then Some (WEOF, w) else on_file_opt (wide_read_character K) p w)"

definition getwc :: "bool \<Rightarrow> 'k sys \<Rightarrow> nat \<Rightarrow> 'k world \<Rightarrow> (wchar \<times> 'k world) option" where
  "getwc u8 K p = fgetwc u8 K p"

definition getwchar :: "bool \<Rightarrow> 'k sys \<Rightarrow> 'k world \<Rightarrow> (wchar \<times> 'k world) option" where
  "getwchar u8 K = fgetwc u8 K stdin_ptr"

definition fputwc :: "bool \<Rightarrow> 'k sys \<Rightarrow> wchar \<Rightarrow> nat \<Rightarrow> 'k world \<Rightarrow> (wchar \<times> 'k world) option" where
  "fputwc u8 K wc p w =
     (let (r, w) = require_writable u8 p w in if r = c_EOF then Some (WEOF, w) else on_file_opt (wide_write_character K wc) p w)"

definition putwc :: "bool \<Rightarrow> 'k sys \<Rightarrow> wchar \<Rightarrow> nat \<Rightarrow> 'k world \<Rightarrow> (wchar \<times> 'k world) option" where
  "putwc u8 K wc p = fputwc u8 K wc p"

definition putwchar :: "bool \<Rightarrow> 'k sys \<Rightarrow> wchar \<Rightarrow> 'k world \<Rightarrow> (wchar \<times> 'k world) option" where
  "putwchar u8 K wc = fputwc u8 K wc stdout_ptr"

text \<open>\<open>ungetwc\<close> asks for orientation only.\<close>

definition ungetwc :: "bool \<Rightarrow> wchar \<Rightarrow> nat \<Rightarrow> 'k world \<Rightarrow> wchar \<times> 'k world" where
  "ungetwc u8 wc p w =
     (if wc = WEOF then (WEOF, w)
      else let (r, w) = require_wide u8 p w
        in if r = c_EOF then (WEOF, w) else on_file (wide_unget_character wc) p w)"

text \<open>The loops of \<open>fgetws\<close> and \<open>fputws\<close>. The first has read \<open>length acc\<close> characters; it says whether the result
  is the buffer.\<close>

function fgetws_loop :: "'k sys \<Rightarrow> nat \<Rightarrow> wchar list \<Rightarrow> 'k io \<Rightarrow> ((bool \<times> wchar list) \<times> 'k io) option" where
  "fgetws_loop K n acc c =
     (if length acc + 1 < n then
        (case wide_read_character K c of
           None \<Rightarrow> None
         | Some (wc, c') \<Rightarrow>
             if wc = WEOF then
               Some ((if has (state (strm c')) MINI_FILE_EOF then acc \<noteq> [] else False, acc), c')
             else if wc = 10 then Some ((True, acc @ [wc]), c')
             else fgetws_loop K n (acc @ [wc]) c')
      else Some ((True, acc), c))"
  by auto
termination
  by (relation "measure (\<lambda>(K, n, acc, c). n - length acc)") auto

declare fgetws_loop.simps [simp del]

definition fgetws :: "bool \<Rightarrow> 'k sys \<Rightarrow> wmem \<Rightarrow> addr \<Rightarrow> int \<Rightarrow> nat \<Rightarrow> 'k world \<Rightarrow> ((addr \<times> wmem) \<times> 'k world) option" where
  "fgetws u8 K wm s n p w =
     (if s = 0 \<or> n \<le> 0 then
        Some ((0, wm), if p = 0 then set_errno EINVAL w else snd (on_file (wide_error EINVAL) p w))
      else let (r, w) = require_readable u8 p w
        in if r = c_EOF then Some ((0, wm), w)
           else on_file_opt (\<lambda>c. map_option (\<lambda>((ok, ws), c'). ((if ok then s else 0, write_wide wm s (ws @ [0])), c'))
                  (fgetws_loop K (nat n) [] c)) p w)"

partial_function (option) fputws_loop :: "'k sys \<Rightarrow> wmem \<Rightarrow> addr \<Rightarrow> 'k io \<Rightarrow> (int \<times> 'k io) option" where
  "fputws_loop K wm s c =
     (if wm s \<noteq> 0 then
        Option.bind (wide_write_character K (wm s) c) (\<lambda>(r, c').
          if r = WEOF then Some (c_EOF, c') else fputws_loop K wm (s + 1) c')
      else Some (0, c))"

definition fputws :: "bool \<Rightarrow> 'k sys \<Rightarrow> wmem \<Rightarrow> addr \<Rightarrow> nat \<Rightarrow> 'k world \<Rightarrow> (int \<times> 'k world) option" where
  "fputws u8 K wm s p w =
     (if s = 0 then Some (c_EOF, if p = 0 then set_errno EINVAL w else snd (on_file (wide_error EINVAL) p w))
      else let (r, w) = require_writable u8 p w
        in if r = c_EOF then Some (c_EOF, w) else on_file_opt (fputws_loop K wm s) p w)"

subsection \<open>Decoding byte by byte\<close>

text \<open>The bytes of a character so far and the decoder's state after them.\<close>

definition decoding :: "bool \<Rightarrow> byte list \<Rightarrow> mbstate \<Rightarrow> bool" where
  "decoding u acc st =
     (acc = [] \<and> st = reset_state \<or>
      u \<and> acc \<noteq> [] \<and> seq_state st \<and>
      utf8_loop (write_bytes (\<lambda>_. 0) 0 acc) 0 (length acc) 0 reset_state = (conv_incomplete, None, st, None))"

lemma utf8_loop_last:
  "utf8_loop m s (Suc k) k st = shift_result k (utf8_loop (\<lambda>_. m (s + k)) 0 1 0 st)" if "seq_state st"
proof -
  have "utf8_loop m s (k + 1) (k + 0) st = shift_result k (utf8_loop m (s + k) 1 0 st)" by (rule utf8_loop_shift [OF that])
  moreover have "utf8_loop m (s + k) 1 0 st = utf8_loop (\<lambda>_. m (s + k)) 0 1 0 st"
    by (subst (1 2) utf8_loop.simps) (simp add: Let_def utf8_loop_end split: option.splits)
  ultimately show ?thesis by simp
qed

lemma utf8_loop_one: "utf8_loop m s 1 0 st = utf8_loop (\<lambda>_. m s) 0 1 0 st"
  by (subst (1 2) utf8_loop.simps) (simp add: Let_def utf8_loop_end split: option.splits)

text \<open>Three outcomes of one more byte.\<close>

lemma utf8_loop_cong:
  "(\<And>i. i < n \<Longrightarrow> m' (s + i) = m (s + i)) \<Longrightarrow> utf8_loop m' s n used st = utf8_loop m s n used st"
proof (induction m s n used st rule: utf8_loop.induct)
  case (1 m s n used st)
  show ?case
  proof (cases "used < n")
    case True
    then have b: "m' (s + used) = m (s + used)" using "1.prems" by simp
    show ?thesis
      by (subst (1 2) utf8_loop.simps)
        (use True 1 in \<open>auto simp: b Let_def split: option.splits\<close>)
  qed (simp add: utf8_loop_end)
qed

lemma utf8_one_byte:
  assumes "utf8_loop (\<lambda>_. b) 0 1 0 st = (converted, wc, st1, e)"
  shows "converted = conv_incomplete \<Longrightarrow> wc = None \<and> e = None \<and>
      (seq_state st \<or> st = reset_state \<longrightarrow> seq_state st1) \<and>
      (seq_state st \<longrightarrow> unat (state_remaining st1) < unat (state_remaining st))"
    "converted \<noteq> conv_incomplete \<Longrightarrow> converted \<noteq> conv_error \<Longrightarrow> wc \<noteq> None"
proof -
  let ?v = "push_bit 6 (mb_value st) OR (ucast b AND 0x3f)"
  have c: "conv_error \<noteq> conv_incomplete" "0 \<noteq> conv_incomplete" "1 \<noteq> conv_incomplete"
    by (simp_all add: conv_error_def conv_incomplete_def)
  show "wc \<noteq> None" if "converted \<noteq> conv_incomplete" "converted \<noteq> conv_error"
    using assms that by (subst (asm) utf8_loop.simps) (auto simp: Let_def utf8_loop_end split: if_splits option.splits)
  show "wc = None \<and> e = None \<and> (seq_state st \<or> st = reset_state \<longrightarrow> seq_state st1) \<and>
      (seq_state st \<longrightarrow> unat (state_remaining st1) < unat (state_remaining st))" if conv: "converted = conv_incomplete"
  proof (cases "state_remaining st = 0")
    case True
    with assms conv c obtain st' where "utf8_lead b = Some st'" "st1 = st'" "wc = None" "e = None"
      by (subst (asm) utf8_loop.simps) (auto simp: Let_def utf8_loop_end split: if_splits option.splits)
    then show ?thesis using utf8_lead_seq True seq_state_remaining [of st] by auto
  next
    case False
    have more: "state_remaining st - 1 \<noteq> 0" and st1: "st1 = start_state (state_total st) (state_remaining st - 1) ?v"
      and n: "wc = None" "e = None"
      using assms conv c False by (subst (asm) utf8_loop.simps; auto simp: Let_def utf8_loop_end split: if_splits)+
    have "st \<noteq> reset_state" using False by (auto simp: reset_state_def state_remaining_def)
    moreover have "seq_state st1" if "seq_state st" unfolding st1 by (rule seq_state_next [OF that more])
    moreover have "unat (state_remaining st1) < unat (state_remaining st)" if sq: "seq_state st"
    proof -
      obtain t r v where tr: "in_sequence t r" "st = start_state t r v" using sq by (auto simp: seq_state_def)
      have f: "state_remaining st = r" "state_total st = t" using start_state_fields [OF tr(1)] tr(2) by simp_all
      have "in_sequence t (r - 1)" using in_sequence_step [OF tr(1)] more f by auto
      then have "state_remaining st1 = r - 1" unfolding st1 f by (rule start_state_fields)
      moreover have "r \<noteq> 0" using start_state_fields(3) [OF tr(1)] .
      ultimately show ?thesis unfolding f using unat_gt_0 [of r] by (simp add: unat_minus_one)
    qed
    ultimately show ?thesis using n by blast
  qed
qed

lemma small_nonneg:
  fixes w :: u32
  assumes "unat w < 2 ^ 31"
  shows "\<not> w <s 0"
proof -
  have "int (unat w) < int (2 ^ 31)" using assms by (simp only: of_nat_less_iff)
  then have w: "uint w < 2 ^ 31" by (simp only: uint_nat of_nat_power of_nat_numeral)
  have "- (2 ^ 31) \<le> uint w" by (rule order_trans [of _ 0]) simp_all
  with w have "signed_take_bit 31 (uint w) = uint w" by (intro signed_take_bit_int_eq_self)
  then have "sint w = uint w" by (simp add: sint_uint)
  then have "0 \<le> sint w" by simp
  then show ?thesis by (simp add: word_sless_alt)
qed

lemma byte_bound: "unat (b :: byte) < 256"
proof -
  have "unat b < 2 ^ LENGTH(8)" by (rule unsigned_less)
  then show ?thesis by simp
qed

lemma encode_scalar:
  assumes "scalar (unat w)"
  shows "encode True w = Some (map of_nat (utf8 (unat w)))" "w \<noteq> WEOF"
proof -
  have v: "valid_scalar w" using assms by (simp add: valid_scalar_eq)
  have "unat w \<le> 0x10ffff" using assms by (auto simp: scalar_def)
  then have "\<not> w <s 0" by (intro small_nonneg) simp
  then show "encode True w = Some (map of_nat (utf8 (unat w)))" using v by (simp add: encode_utf8 utf8_bytes_eq)
  show "w \<noteq> WEOF" using \<open>unat w \<le> 0x10ffff\<close> by (auto simp: WEOF_def)
qed

lemma encode_WEOF: "encode u WEOF = None"
  by (simp add: encode_def WEOF_def valid_scalar_def MINI_UTF8_MAX_def MINI_UTF8_SURROGATE_LAST_def MINI_C_MB_MAX_def)

lemma decode_byte_in_context:
  assumes dec: "decoding True acc st" and res: "decode_byte True b st = (converted, wc, st1, e)"
  defines "m \<equiv> write_bytes (\<lambda>_. 0) 0 (acc @ [b])"
  shows "utf8_loop m 0 (length acc) 0 reset_state = (conv_incomplete, None, st, None)"
    "utf8_loop m 0 (length acc + 1) 0 reset_state = shift_result (length acc) (converted, wc, st1, e)"
proof -
  define k where "k = length acc"
  have one: "utf8_loop (\<lambda>_. b) 0 1 0 st = (converted, wc, st1, e)" using res by (simp add: decode_byte_def)
  have mk: "m k = b" by (simp add: m_def k_def write_bytes_apply)
  have before: "utf8_loop m 0 k 0 reset_state = (conv_incomplete, None, st, None)"
  proof (cases "acc = []")
    case True
    then show ?thesis using dec seq_state_remaining by (auto simp: decoding_def k_def utf8_loop_end)
  next
    case False
    have "utf8_loop m 0 k 0 reset_state = utf8_loop (write_bytes (\<lambda>_. 0) 0 acc) 0 k 0 reset_state"
      by (rule utf8_loop_cong) (simp add: m_def k_def write_bytes_apply nth_append)
    then show ?thesis using dec False by (simp add: decoding_def k_def)
  qed
  then show "utf8_loop m 0 (length acc) 0 reset_state = (conv_incomplete, None, st, None)" by (simp add: k_def)
  have st: "if acc = [] then st = reset_state else seq_state st" using dec by (auto simp: decoding_def)
  have "utf8_loop m 0 (k + 1) 0 reset_state = utf8_loop m 0 (k + 1) k st"
    using utf8_loop_incomplete [of m 0 0 k reset_state st None 1] before by simp
  also have "\<dots> = shift_result k (converted, wc, st1, e)"
  proof (cases "acc = []")
    case True
    then show ?thesis using utf8_loop_one [of m 0 st] one mk st by (simp add: k_def shift_result_def)
  next
    case False
    then show ?thesis using utf8_loop_last [of st m 0 k] st one mk by simp
  qed
  finally show "utf8_loop m 0 (length acc + 1) 0 reset_state = shift_result (length acc) (converted, wc, st1, e)"
    by (simp add: k_def)
qed

lemma decoding_step:
  assumes dec: "decoding u acc st" and res: "decode_byte u b st = (converted, wc, st1, e)"
  shows "converted = conv_incomplete \<Longrightarrow> decoding u (acc @ [b]) st1 \<and>
      (acc \<noteq> [] \<longrightarrow> unat (state_remaining st1) < unat (state_remaining st))"
    "converted \<noteq> conv_error \<Longrightarrow> converted \<noteq> conv_incomplete \<Longrightarrow>
      the wc \<noteq> WEOF \<and> encode u (the wc) = Some (acc @ [b])"
proof -
  let ?inc = "converted = conv_incomplete"
  have "(?inc \<longrightarrow> decoding u (acc @ [b]) st1 \<and> (acc \<noteq> [] \<longrightarrow> unat (state_remaining st1) < unat (state_remaining st))) \<and>
      (converted \<noteq> conv_error \<and> \<not> ?inc \<longrightarrow> the wc \<noteq> WEOF \<and> encode u (the wc) = Some (acc @ [b]))"
  proof (cases u)
    case False
    then have st: "acc = []" "st = reset_state" using dec by (auto simp: decoding_def)
    have c: "conv_error \<noteq> conv_incomplete" "0 \<noteq> conv_incomplete" "1 \<noteq> conv_incomplete"
      by (simp_all add: conv_error_def conv_incomplete_def)
    have "\<not> (ucast b :: u32) <s 0 \<and> (ucast b :: u32) \<noteq> WEOF"
    proof -
      have "unat (ucast b :: u32) < 256" using byte_bound [of b] by (simp only: unat_ucast_byte)
      then show ?thesis using small_nonneg [of "ucast b"] by (auto simp: WEOF_def)
    qed
    moreover have "ucast (ucast b :: u32) = b"
    proof -
      have "unat (ucast (ucast b :: u32) :: byte) = unat b"
        using byte_bound [of b] unat_ucast_byte [of b] by (simp only: unsigned_ucast_eq) (simp add: unsigned_take_bit_eq take_bit_nat_def)
      then show ?thesis by (simp add: word_unat_eq_iff)
    qed
    ultimately show ?thesis using res False st c
      by (auto simp: decode_byte_def c_decode_def mbsinit_def reset_state_def encode_def split: if_splits)
  next
    case u: True
    define k where "k = length acc"
    define m where "m = write_bytes (\<lambda>_. 0) 0 (acc @ [b])"
    have one: "utf8_loop (\<lambda>_. b) 0 1 0 st = (converted, wc, st1, e)" using res u by (simp add: decode_byte_def)
    have mk: "read_bytes m 0 (k + 1) = acc @ [b]"
      using read_write_same [of "\<lambda>_. 0" 0 "acc @ [b]"] by (simp add: m_def k_def)
    note ctx = decode_byte_in_context [OF dec [unfolded eqTrueI [OF u]] res [unfolded eqTrueI [OF u]], folded m_def k_def]
    note before = ctx(1) and all = ctx(2)
    have st: "if acc = [] then st = reset_state else seq_state st" using dec by (auto simp: decoding_def)
    note step = utf8_one_byte [OF one]
    have "decoding u (acc @ [b]) st1 \<and> (acc \<noteq> [] \<longrightarrow> unat (state_remaining st1) < unat (state_remaining st))" if inc: ?inc
      using step(1) [OF inc] all u st by (auto simp: decoding_def m_def k_def inc shift_result_def split: if_splits)
    moreover have "the wc \<noteq> WEOF \<and> encode u (the wc) = Some (acc @ [b])" if good: "converted \<noteq> conv_error" "\<not> ?inc"
    proof -
      obtain w where w: "wc = Some w" using step(2) good by auto
      have enc: "scalar (unat w)" "starts_with m 0 (k + 1) (utf8 (unat w))"
        using decoded_is_encoding [of m 0 "k + 1"] all by (auto simp: w shift_result_def)
      have "length (utf8 (unat w)) = k + 1"
      proof (rule ccontr)
        assume "length (utf8 (unat w)) \<noteq> k + 1"
        then have "starts_with m 0 k (utf8 (unat w))" using enc(2) by (auto simp: starts_with_def)
        from decode_encoded [OF enc(1) this] before show False by simp
      qed
      then have "acc @ [b] = map of_nat (utf8 (unat w))" using enc(2) mk by (simp add: starts_with_def)
      then show ?thesis using encode_scalar [OF enc(1)] u w by simp
    qed
    ultimately show ?thesis by blast
  qed
  then show "?inc \<Longrightarrow> decoding u (acc @ [b]) st1 \<and> (acc \<noteq> [] \<longrightarrow> unat (state_remaining st1) < unat (state_remaining st))"
    "converted \<noteq> conv_error \<Longrightarrow> \<not> ?inc \<Longrightarrow> the wc \<noteq> WEOF \<and> encode u (the wc) = Some (acc @ [b])" by blast+
qed

subsection \<open>Reading and writing characters\<close>

text \<open>A character was read, and nothing but its bytes; or none, and an indicator says why.\<close>

definition character_result :: "('k \<Rightarrow> int \<Rightarrow> byte list) \<Rightarrow> bool \<Rightarrow> byte list \<Rightarrow> 'k io \<Rightarrow> wchar \<Rightarrow> 'k io \<Rightarrow> bool" where
  "character_result src u acc c r c' =
     (can_read (strm c') \<and> (\<exists>used. stream_input src c = used @ stream_input src c' \<and>
        (r = WEOF \<and> (feof c' \<or> ferror c') \<or> r \<noteq> WEOF \<and> encode u r = Some (acc @ used))))"

lemma mark_error_reading:
  "can_read (strm (mark_error e c)) = can_read (strm c)" "stream_input src (mark_error e c) = stream_input src c"
  "ferror (mark_error e c)"
  by (simp_all add: can_read_def stream_ok_def readable_stream_def stream_input_def unread_def io_defs ferror_def)

lemma read_character_loop_result:
  assumes "reads_from K src" "decoding u acc st" "can_read (strm c)"
  shows "\<exists>r c'. read_character_loop K u st c = Some (r, c') \<and> character_result src u acc c r c'"
  using assms(2,3)
proof (induction "if acc = [] then 256 else unat (state_remaining st)" arbitrary: acc st c rule: less_induct)
  case less
  obtain data c1 where rd: "stdio_read K 1 c = (data, c1)" by fastforce
  note R = stdio_read_can_read [OF assms(1) less.prems(2) rd]
  show ?case
  proof (cases data)
    case Nil
    then have "feof c1 \<or> ferror c1" "stream_input src c = stream_input src c1" using R by auto
    then show ?thesis using R(1) rd Nil
      by (subst read_character_loop.simps)
        (cases "mbsinit (Some st)"; simp add: character_result_def wide_error_def mark_error_reading)
  next
    case (Cons b rest)
    then have data: "data = [b]" using R(3) by simp
    obtain converted wc st1 e where d: "decode_byte u b st = (converted, wc, st1, e)" by (cases "decode_byte u b st")
    note step = decoding_step [OF less.prems(1) d]
    have inp: "stream_input src c = [b] @ stream_input src c1" using R(2) data by simp
    have unf: "read_character_loop K u st c =
        (if converted = conv_error then Some (wide_error EILSEQ c1)
         else if converted \<noteq> conv_incomplete then Some (the wc, c1) else read_character_loop K u st1 c1)"
      by (subst read_character_loop.simps) (simp add: rd [simplified] data d)
    consider (bad) "converted = conv_error" | (more) "converted \<noteq> conv_error" "converted = conv_incomplete"
      | (ok) "converted \<noteq> conv_error" "converted \<noteq> conv_incomplete" by blast
    then show ?thesis
    proof cases
      case bad
      then show ?thesis using inp R(1) unfolding unf
        by (auto simp: character_result_def wide_error_def mark_error_reading)
    next
      case ok
      then show ?thesis using inp R(1) step(2) unfolding unf character_result_def by auto
    next
      case more
      note dec = step(1) [OF more(2)]
      have "unat (state_remaining st1) < 256"
      proof -
        obtain t r v where "in_sequence t r" "st1 = start_state t r v"
          using dec by (auto simp: decoding_def seq_state_def)
        then have "state_remaining st1 = r" "in_sequence t r" using start_state_fields by blast+
        then show ?thesis by (auto simp: in_sequence_def)
      qed
      then have "(if acc @ [b] = [] then 256 else unat (state_remaining st1)) < (if acc = [] then 256 else unat (state_remaining st))"
        using dec by auto
      from less.hyps [OF this] dec R(1) obtain r c' where
        "read_character_loop K u st1 c1 = Some (r, c')" "character_result src u (acc @ [b]) c1 r c'" by blast
      then show ?thesis using more inp unfolding unf character_result_def by auto
    qed
  qed
qed

text \<open>Reading a wide character always returns, whatever the kernel does, and what it returns is \<open>WEOF\<close> or a
  character with an encoding.\<close>

lemma read_character_returns:
  assumes "decoding u acc st"
  shows "\<exists>wc c'. read_character_loop K u st c = Some (wc, c') \<and> (wc = WEOF \<or> encode u wc \<noteq> None)"
  using assms
proof (induction "if acc = [] then 256 else unat (state_remaining st)" arbitrary: acc st c rule: less_induct)
  case less
  obtain data c1 where rd: "stdio_read K 1 c = (data, c1)" by fastforce
  obtain converted wc st1 e where d: "decode_byte u (hd data) st = (converted, wc, st1, e)" by (cases "decode_byte u (hd data) st")
  note dec = decoding_step [OF less.prems d]
  have unf: "read_character_loop K u st c =
      (if length data \<noteq> 1 then Some (if \<not> mbsinit (Some st) then wide_error EILSEQ c1 else (WEOF, c1))
       else if converted = conv_error then Some (wide_error EILSEQ c1)
       else if converted \<noteq> conv_incomplete then Some (the wc, c1) else read_character_loop K u st1 c1)"
    by (subst read_character_loop.simps) (simp add: rd [simplified] d)
  show ?case
  proof (cases "converted = conv_incomplete")
    case more: True
    have "unat (state_remaining st1) < 256"
    proof -
      obtain t r v where "in_sequence t r" "st1 = start_state t r v"
        using dec(1) [OF more] by (auto simp: decoding_def seq_state_def)
      then have "state_remaining st1 = r" "in_sequence t r" using start_state_fields by blast+
      then show ?thesis by (auto simp: in_sequence_def)
    qed
    then have "(if acc @ [hd data] = [] then 256 else unat (state_remaining st1)) < (if acc = [] then 256 else unat (state_remaining st))"
      using dec(1) [OF more] by auto
    from less.hyps [OF this] dec(1) [OF more] more show ?thesis unfolding unf by (auto simp: wide_error_def)
  next
    case False
    then have "converted \<noteq> conv_error \<Longrightarrow> encode u (the wc) \<noteq> None" using dec(2) by simp
    then show ?thesis using False unfolding unf wide_error_def by (cases "converted = conv_error"; cases "length data = 1") simp_all
  qed
qed

lemma wide_read_returns: "\<exists>wc c'. wide_read_character K c = Some (wc, c') \<and> (wc = WEOF \<or> encode (wide_utf8 c) wc \<noteq> None)"
  unfolding wide_read_character_def by (rule read_character_returns [of _ "[]"]) (simp add: decoding_def)

text \<open>C40. Reading a wide character always returns, whatever the kernel delivers, and its result is \<open>WEOF\<close> or a
  character that has an encoding in the stream's mode: in UTF-8 never a surrogate and never past
  \<open>0x10ffff\<close>, in the C locale an ASCII character.\<close>

theorem wide_read_character_type:
  "\<exists>wc c'. wide_read_character K c = Some (wc, c') \<and>
    (wc = WEOF \<or> (if wide_utf8 c then unat wc < 0xd800 \<or> 0xe000 \<le> unat wc \<and> unat wc < 0x110000 else unat wc < 128))"
proof -
  obtain wc c' where r: "wide_read_character K c = Some (wc, c')" "wc = WEOF \<or> encode (wide_utf8 c) wc \<noteq> None"
    using wide_read_returns [of K c] by blast
  then show ?thesis by (auto simp: encode_def valid_scalar_eq scalar_def MINI_C_MB_MAX_def word_less_nat_alt word_le_nat_alt split: if_splits)
qed

text \<open>Reading a wide character always returns. A character is delivered only when the bytes taken from the
  stream's input are exactly its encoding; otherwise the result is \<open>WEOF\<close>, the bytes tried are gone, and the
  end-of-file or the error indicator is set.\<close>

theorem wide_read_takes_one_character:
  assumes "reads_from K src" "can_read (strm c)"
  shows "\<exists>r c' used. wide_read_character K c = Some (r, c') \<and> can_read (strm c') \<and>
    stream_input src c = used @ stream_input src c' \<and>
    (r \<noteq> WEOF \<and> encode (wide_utf8 c) r = Some used \<or> r = WEOF \<and> (feof c' \<or> ferror c'))"
proof -
  have "decoding (wide_utf8 c) [] reset_state" by (simp add: decoding_def)
  from read_character_loop_result [OF assms(1) this assms(2)] show ?thesis
    unfolding wide_read_character_def character_result_def by auto
qed

lemma wide_utf8_write: "stdio_write K bs c = Some (n, c') \<Longrightarrow> wide_utf8 c' = wide_utf8 c"
  using stdio_write_kept_flags [of K bs c n c'] by (simp add: kept_flags_def wide_utf8_def)

text \<open>\<open>fputws\<close> always returns on a string it can encode, and appends to the stream's output the encodings of the
  characters in order, or a beginning of them with \<open>EOF\<close> and the error indicator.\<close>

theorem fputws_appends_encoding:
  assumes "can_write out K c" "wide_at wm s ws" "\<forall>w \<in> set ws. encode (wide_utf8 c) w \<noteq> None"
  shows "\<exists>r c' n. fputws_loop K wm s c = Some (r, c') \<and> can_write out K c' \<and>
    stream_output out c' = stream_output out c @ take n (encoded (wide_utf8 c) ws) \<and>
    (r = 0 \<and> n = length (encoded (wide_utf8 c) ws) \<or> r = c_EOF \<and> ferror c')"
  using assms
proof (induction ws arbitrary: s c)
  case Nil
  then show ?case by (subst fputws_loop.simps) (simp add: wide_at_def encoded_def)
next
  case (Cons w ws)
  obtain bs where bs: "encode (wide_utf8 c) w = Some bs" using Cons.prems(3) by auto
  have w: "wm s = w" "w \<noteq> 0" "wide_at wm (s + 1) ws" using Cons.prems(2) by (simp_all add: wide_at_Cons)
  have noteof: "w \<noteq> WEOF" using bs by (auto simp: encode_WEOF)
  from stdio_write_can [OF Cons.prems(1), of bs] obtain k c1 where wr: "stdio_write K bs c = Some (k, c1)" "k \<le> length bs"
    "can_write out K c1" "stream_output out c1 = stream_output out c @ take k bs" "k < length bs \<longrightarrow> ferror c1" by blast
  have u: "wide_utf8 c1 = wide_utf8 c" using wide_utf8_write [OF wr(1)] .
  have enc: "encoded (wide_utf8 c) (w # ws) = bs @ encoded (wide_utf8 c) ws" by (rule encoded_Cons [OF bs])
  show ?case
  proof (cases "k = length bs")
    case False
    then have "fputws_loop K wm s c = Some (c_EOF, c1)"
      by (subst fputws_loop.simps) (simp add: w(1,2) wide_write_character_def bs wr(1))
    then show ?thesis using wr False by (intro exI [of _ c_EOF] exI [of _ c1] exI [of _ k]) (simp add: enc)
  next
    case True
    have "fputws_loop K wm s c = fputws_loop K wm (s + 1) c1"
      by (subst fputws_loop.simps) (simp add: w(1,2) wide_write_character_def bs wr(1) True noteof)
    moreover from Cons.IH [OF wr(3) w(3)] Cons.prems(3) obtain r c' n where
      "fputws_loop K wm (s + 1) c1 = Some (r, c')" "can_write out K c'"
      "stream_output out c' = stream_output out c1 @ take n (encoded (wide_utf8 c) ws)"
      "r = 0 \<and> n = length (encoded (wide_utf8 c) ws) \<or> r = c_EOF \<and> ferror c'"
      unfolding u by auto
    ultimately show ?thesis using wr(4) True
      by (intro exI [of _ r] exI [of _ c'] exI [of _ "length bs + n"]) (auto simp: enc)
  qed
qed

text \<open>No encoding is the beginning of another one.\<close>

lemma encode_prefix_free:
  assumes "encode u w = Some bs" "encode u v = Some cs" "bs @ xs = cs @ ys"
  shows "w = v \<and> xs = ys"
proof (cases u)
  case False
  have one: "unat (ucast x :: byte) = unat x \<and> ds = [ucast x]" if "encode u x = Some ds" for x ds
  proof -
    have "x \<le> 0x7f" "ds = [ucast x]" using that False by (auto simp: encode_def MINI_C_MB_MAX_def split: if_splits)
    moreover then have "unat x < 0x80" by (simp add: word_le_nat_alt)
    ultimately show ?thesis using byte_of_nat [of "unat x"] by simp
  qed
  from one [OF assms(1)] one [OF assms(2)] assms(3) show ?thesis by (metis append_Cons append_Nil list.inject word_unat_eq_iff)
next
  case True
  define m where "m = write_bytes (\<lambda>_. 0) 0 (bs @ xs)"
  define n where "n = length (bs @ xs)"
  have dec: "utf8_loop m 0 n 0 reset_state = (of_nat (if x = 0 then 0 else length (utf8 (unat x))), Some x, reset_state, None) \<and>
      length ds = length (utf8 (unat x))" if "encode u x = Some ds" "bs @ xs = ds @ zs" for x ds zs
  proof -
    have v: "valid_scalar x" "ds = map of_nat (utf8 (unat x))"
      using that True utf8_bytes_eq [of x] by (auto simp: encode_utf8 split: if_splits)
    have "read_bytes m 0 (length ds + length zs) = ds @ zs"
      using read_write_same [of "\<lambda>_. 0" 0 "ds @ zs"] by (simp add: m_def that(2))
    then have "read_bytes m 0 (length ds) = ds" unfolding read_bytes_run by (simp add: append_eq_append_conv)
    then have "starts_with m 0 n (utf8 (unat x))" using that(2) v(2) by (simp add: starts_with_def n_def)
    with decode_encoded [of "unat x" m 0 n] v show ?thesis by (simp add: valid_scalar_eq unat_eq_0)
  qed
  from dec [OF assms(1) refl] dec [OF assms(2,3)] have "w = v" "length bs = length cs" by auto
  then show ?thesis using assms(3) by simp
qed

lemma wide_flag_reading [simp]:
  "wide_utf8 (mark_error e c) = wide_utf8 c" "wide_utf8 (set_state MINI_FILE_READ_NEEDS_POSITION c) = wide_utf8 c"
  "wide_utf8 (set_state MINI_FILE_EOF c) = wide_utf8 c" "wide_utf8 (clear_state MINI_FILE_READ_NEEDS_POSITION c) = wide_utf8 c"
  "wide_utf8 (c\<lparr>io_kern := k\<rparr>) = wide_utf8 c" "(\<And>s. state (f s) = state s) \<Longrightarrow> wide_utf8 (on_strm f c) = wide_utf8 c"
proof -
  have "\<not> has MINI_FILE_READ_NEEDS_POSITION MINI_FILE_WIDE_UTF8" "\<not> has MINI_FILE_EOF MINI_FILE_WIDE_UTF8"
    "MINI_FILE_READ_NEEDS_POSITION AND MINI_FILE_WIDE_UTF8 = 0"
    by (simp_all add: has_def MINI_FILE_READ_NEEDS_POSITION_def MINI_FILE_EOF_def MINI_FILE_WIDE_UTF8_def)
  then show "wide_utf8 (mark_error e c) = wide_utf8 c" "wide_utf8 (set_state MINI_FILE_READ_NEEDS_POSITION c) = wide_utf8 c"
    "wide_utf8 (set_state MINI_FILE_EOF c) = wide_utf8 c" "wide_utf8 (clear_state MINI_FILE_READ_NEEDS_POSITION c) = wide_utf8 c"
    "wide_utf8 (c\<lparr>io_kern := k\<rparr>) = wide_utf8 c" "(\<And>s. state (f s) = state s) \<Longrightarrow> wide_utf8 (on_strm f c) = wide_utf8 c"
    by (simp_all add: wide_utf8_def io_defs has_drop_other)
qed

lemma wide_utf8_read_direct: "wide_utf8 (snd (read_direct K len acc c)) = wide_utf8 c"
proof (induction K len acc c rule: read_direct.induct)
  case (1 K len acc c)
  show ?case by (subst read_direct.simps) (use 1 in \<open>auto simp: Let_def split: prod.split sum.split\<close>)
qed

lemma wide_utf8_read_buffered: "wide_utf8 (snd (read_buffered K len acc c)) = wide_utf8 c"
proof (induction K len acc c rule: read_buffered.induct)
  case (1 K len acc c)
  show ?case by (subst read_buffered.simps) (use 1 in \<open>auto simp: Let_def split: prod.split sum.split\<close>)
qed

lemma wide_utf8_read: "stdio_read K len c = (data, c') \<Longrightarrow> wide_utf8 c' = wide_utf8 c"
  using wide_utf8_read_direct [of K len "[]" c] wide_utf8_read_buffered [of K len "[]" "on_strm ensure_storage c"]
  by (auto simp: stdio_read_def split: if_splits)

lemma wide_utf8_read_character:
  assumes "read_character_loop K u st c = Some x"
  shows "wide_utf8 (snd x) = wide_utf8 c"
proof (rule read_character_loop.raw_induct [OF _ assms, where P = "\<lambda>K u st c x. wide_utf8 (snd x) = wide_utf8 c"], goal_cases)
  case (1 f K u st c x)
  obtain data c1 where rd: "stdio_read K 1 c = (data, c1)" by fastforce
  show ?case
    using 1(2) wide_utf8_read [OF rd] unfolding rd Let_def
    by (auto simp: wide_error_def dest: 1(1) split: if_splits prod.splits)
qed

subsection \<open>One byte at a time\<close>

text \<open>No read of the kernel fails.\<close>

definition reads_succeed :: "'k sys \<Rightarrow> bool" where
  "reads_succeed K = (\<forall>k f n. \<exists>bs k'. sys_read K k f n = (Inr bs, k'))"

lemma read_buffered_full: "len \<le> length acc \<Longrightarrow> read_buffered K len acc c = (acc, c)"
  by (subst read_buffered.simps) simp

lemma read_buffered_cached:
  assumes "pushback_offset (strm c) < pushback_length (strm c) \<or> read_offset (strm c) < read_length (strm c)"
  shows "\<exists>x c1. read_buffered K 1 [] c = ([x], c1) \<and> feof c1 = feof c"
proof -
  have one: "buf_get f i (Suc 0) = [f i]" for f i by (simp add: buf_get_def)
  have mn: "min (b - a) (Suc 0) = Suc 0" if "a < b" for a b :: nat using that by simp
  show ?thesis
  proof (cases "pushback_offset (strm c) < pushback_length (strm c)")
    case True
    define c1 where "c1 = set_state MINI_FILE_READ_NEEDS_POSITION (on_strm (\<lambda>s.
        if pushback_offset (strm c) + 1 = pushback_length s then s\<lparr>pushback_offset := 0, pushback_length := 0\<rparr>
        else s\<lparr>pushback_offset := pushback_offset (strm c) + 1\<rparr>) c)"
    have "read_buffered K 1 [] c = ([pushback_bytes (strm c) (pushback_offset (strm c))], c1)"
      using True by (subst read_buffered.simps) (simp add: Let_def mn one read_buffered_full c1_def cong: if_cong)
    moreover have "feof c1 = feof c" by (simp add: c1_def feof_def io_defs)
    ultimately show ?thesis by blast
  next
    case False
    define c1 where "c1 = set_state MINI_FILE_READ_NEEDS_POSITION
        (on_strm (\<lambda>s. s\<lparr>read_offset := read_offset s + 1\<rparr>) c)"
    have "read_buffered K 1 [] c = ([buffers (strm c) (read_buffer (strm c)) (read_offset (strm c))], c1)"
      using False assms by (subst read_buffered.simps) (simp add: Let_def mn one read_buffered_full c1_def)
    moreover have "feof c1 = feof c" by (simp add: c1_def feof_def io_defs)
    ultimately show ?thesis by blast
  qed
qed

lemma read_buffered_refill:
  assumes "reads_from K src" "reads_succeed K" "0 < buffer_size (strm c)" "src (io_kern c) (fd (strm c)) \<noteq> []" "\<not> feof c"
    "\<not> pushback_offset (strm c) < pushback_length (strm c)" "\<not> read_offset (strm c) < read_length (strm c)"
  shows "\<exists>x c1. read_buffered K 1 [] c = ([x], c1) \<and> feof c1 = feof c"
proof -
  obtain bs k where sys: "sys_read K (io_kern c) (fd (strm c)) (buffer_size (strm c)) = (Inr bs, k)"
    using assms(2) unfolding reads_succeed_def by blast
  have bs: "bs \<noteq> []" "length bs \<le> buffer_size (strm c)"
    using reads_fromD(3) [OF assms(1) sys] reads_fromD(4) [OF assms(1)] sys assms(3,4) by (metis less_irrefl, blast)
  define c1 where "c1 = on_strm (\<lambda>s. s\<lparr>read_offset := 0, read_length := length bs,
      buffers := (buffers s)(read_buffer s := buf_put (buffers s (read_buffer s)) 0 bs)\<rparr>) (c\<lparr>io_kern := k\<rparr>)"
  have "read_buffered K 1 [] c = read_buffered K 1 [] c1"
    using assms(5-7) sys bs by (subst read_buffered.simps) (simp add: Let_def c1_def feof_def)
  moreover have "read_offset (strm c1) < read_length (strm c1)" "feof c1 = feof c"
    using bs(1) by (simp_all add: c1_def on_strm_def feof_def)
  ultimately show ?thesis using read_buffered_cached [of c1 K] by auto
qed

lemma stdio_read_one:
  assumes "reads_from K src" "reads_succeed K" "can_read (strm c)" "\<not> feof c" "stream_input src c = b # rest"
  shows "\<exists>c'. stdio_read K 1 c = ([b], c') \<and> can_read (strm c') \<and> stream_input src c' = rest \<and> \<not> feof c'"
proof -
  have ok: "stream_ok (strm c)" "readable_stream (strm c)" "\<not> has (state (strm c)) MINI_FILE_WRITE_NEEDS_SYNC"
    using assms(3) by (simp_all add: can_read_def)
  have "\<exists>x c1. stdio_read K 1 c = ([x], c1) \<and> \<not> feof c1"
  proof (cases "has (mode (strm c)) MINI_FILE_UNBUFFERED")
    case True
    then have "unread (strm c) = []" using assms(3) by (simp add: can_read_def unread_def stream_ok_def)
    then have src: "src (io_kern c) (fd (strm c)) \<noteq> []" using assms(5) by (auto simp: stream_input_def)
    obtain bs k where sys: "sys_read K (io_kern c) (fd (strm c)) 1 = (Inr bs, k)"
      using assms(2) unfolding reads_succeed_def by blast
    have bs: "bs \<noteq> []" "length bs \<le> 1"
      using reads_fromD(3) [OF assms(1) sys] reads_fromD(4) [OF assms(1)] sys src by (metis zero_neq_one, blast)
    then obtain x where x: "bs = [x]" by (cases bs) auto
    define c1 where "c1 = set_state MINI_FILE_READ_NEEDS_POSITION (c\<lparr>io_kern := k\<rparr>)"
    have "read_direct K 1 [] c = ([x], c1)"
      using sys x by (simp add: read_direct.simps c1_def Let_def)
    moreover have "feof c1 = feof c" by (simp add: c1_def feof_def io_defs)
    ultimately show ?thesis using ok True assms(4) by (auto simp: stdio_read_def)
  next
    case False
    define d where "d = on_strm ensure_storage c"
    note es = ensure_storage_ok [OF ok(1)]
    have d: "feof d = feof c" "0 < buffer_size (strm d)" "unread (strm d) = unread (strm c)"
      "io_kern d = io_kern c" "fd (strm d) = fd (strm c)"
      using es by (simp_all add: d_def on_strm_def feof_def ensure_storage_def Let_def)
    have "stream_ok (strm d)" using es by (simp add: d_def on_strm_def)
    then have "\<exists>x c1. read_buffered K 1 [] d = ([x], c1) \<and> feof c1 = feof d"
    proof (cases "unread (strm d) = []")
      case True
      then have "src (io_kern d) (fd (strm d)) \<noteq> []" using assms(5) d by (auto simp: stream_input_def)
      moreover have "\<not> pushback_offset (strm d) < pushback_length (strm d)" "\<not> read_offset (strm d) < read_length (strm d)"
        using unread_empty [OF \<open>stream_ok (strm d)\<close> True] by simp_all
      ultimately show ?thesis using read_buffered_refill [OF assms(1,2) d(2)] assms(4) d(1) by simp
    next
      case False
      then show ?thesis by (intro read_buffered_cached) (auto simp: unread_def)
    qed
    then show ?thesis using ok False assms(4) d(1) by (auto simp: stdio_read_def d_def)
  qed
  then obtain x c1 where rd: "stdio_read K 1 c = ([x], c1)" "\<not> feof c1" by blast
  note R = stdio_read_can_read [OF assms(1,3) rd(1)]
  show ?thesis using R(1,2) rd assms(5) by auto
qed


subsection \<open>A character from its encoding\<close>

lemma utf8_tail:
  assumes "scalar v" "0 < i" "i < length (utf8 v)"
  shows "tail (of_nat (utf8 v ! i))"
proof -
  note te = tail_encoded(1) [of "v mod 64"] tail_encoded(1) [of "v div 64 mod 64"] tail_encoded(1) [of "v div 4096 mod 64"]
  have "i \<in> {1, 2, 3}" using assms(2,3) by (auto simp: utf8_def split: if_splits)
  then show ?thesis using assms te by (auto simp: utf8_def split: if_splits)
qed

text \<open>Bytes that begin an encoding but are not all of it are never an error.\<close>

lemma utf8_loop_beginning:
  assumes "scalar v" "xs = map of_nat (take n (utf8 v))" "0 < n" "n < length (utf8 v)"
  shows "\<exists>st. utf8_loop (write_bytes (\<lambda>_. 0) 0 xs) 0 n 0 reset_state = (conv_incomplete, None, st, None)"
proof -
  let ?m = "write_bytes (\<lambda>_. 0) 0 xs"
  have nth: "?m i = of_nat (utf8 v ! i)" if "i < n" for i
    using that assms(2,4) by (simp add: write_bytes_apply)
  have "?m 0 = of_nat (List.hd (utf8 v))" using nth [OF assms(3)] assms(4) by (cases "utf8 v") simp_all
  then have fs: "form_size (?m 0) = length (utf8 v)" using form_size_utf8 [OF assms(1)] by simp
  have "cut_off ?m 0 n"
    using nth utf8_tail [OF assms(1)] assms(4) by (simp add: cut_off_def fs)
  obtain r w st e where run: "utf8_loop ?m 0 n 0 reset_state = (r, w, st, e)" by (cases "utf8_loop ?m 0 n 0 reset_state")
  have "w = None"
  proof (rule ccontr)
    assume "w \<noteq> None"
    then obtain c where "w = Some c" by auto
    then have "form_size (?m 0) \<le> n" using decoded_is_encoding [of ?m 0 n r c st e] run assms(3) form_size_at by blast
    then show False using fs assms(4) by simp
  qed
  then show ?thesis using first_loop_none [OF assms(3) run [unfolded \<open>w = None\<close>]] \<open>cut_off ?m 0 n\<close> run by auto
qed


lemma utf8_one_char:
  assumes "utf8_loop (\<lambda>_. b) 0 1 0 st = (converted, wc, st1, e)" "wc \<noteq> None"
  shows "converted \<noteq> conv_error"
  using assms
  by (subst (asm) utf8_loop.simps)
    (auto simp: Let_def utf8_loop_end conv_error_def conv_incomplete_def split: if_splits option.splits)

lemma encoded_not_begun:
  assumes "decoding u bs st" "encode u w = Some bs" "bs \<noteq> []"
  shows False
proof -
  have u: "u" "utf8_loop (write_bytes (\<lambda>_. 0) 0 bs) 0 (length bs) 0 reset_state = (conv_incomplete, None, st, None)"
    using assms(1,3) by (auto simp: decoding_def)
  have w: "scalar (unat w)" "bs = map of_nat (utf8 (unat w))"
    using assms(2) u(1) by (auto simp: encode_def utf8_bytes_eq valid_scalar_eq split: if_splits)
  have "starts_with (write_bytes (\<lambda>_. 0) 0 bs) 0 (length bs) (utf8 (unat w))"
    using read_write_same [of "\<lambda>_. 0" 0 bs] by (simp add: starts_with_def w(2))
  from decode_encoded [OF w(1) this] show False using u(2) by simp
qed

lemma decode_byte_no_error:
  assumes "decoding u acc st" "encode u w = Some (acc @ b # ys)" "decode_byte u b st = (converted, wc, st1, e)"
  shows "converted \<noteq> conv_error"
proof (cases u)
  case False
  have st: "acc = []" "st = reset_state" using assms(1) False by (auto simp: decoding_def)
  then have "b = ucast w" "w \<le> MINI_C_MB_MAX" using assms(2) False by (auto simp: encode_def split: if_splits)
  moreover have "ucast (b :: byte) \<le> MINI_C_MB_MAX"
  proof -
    have "unat w \<le> 127" using \<open>w \<le> MINI_C_MB_MAX\<close> by (simp add: word_le_nat_alt MINI_C_MB_MAX_def)
    moreover have "unat b \<le> unat w"
      unfolding \<open>b = ucast w\<close> unsigned_ucast_eq unsigned_take_bit_eq by (rule take_bit_nat_less_eq_self)
    ultimately have "unat b \<le> 127" by simp
    then show ?thesis by (simp add: word_le_nat_alt MINI_C_MB_MAX_def unat_ucast_byte)
  qed
  ultimately show ?thesis
    using assms(3) False st by (auto simp: decode_byte_def c_decode_def mbsinit_def reset_state_def conv_error_def split: if_splits)
next
  case u: True
  have inc: "conv_error \<noteq> conv_incomplete" by (simp add: conv_error_def conv_incomplete_def)
  have w: "scalar (unat w)" "acc @ b # ys = map of_nat (utf8 (unat w))"
    using assms(2) u by (auto simp: encode_def encode_utf8 utf8_bytes_eq valid_scalar_eq split: if_splits)
  have len: "length (utf8 (unat w)) = length acc + 1 + length ys" using arg_cong [OF w(2), of length] by simp
  note ctx = decode_byte_in_context(2) [OF assms(1) [unfolded eqTrueI [OF u]] assms(3) [unfolded eqTrueI [OF u]]]
  show ?thesis
  proof (cases "ys = []")
    case True
    have "starts_with (write_bytes (\<lambda>_. 0) 0 (acc @ [b])) 0 (length acc + 1) (utf8 (unat w))"
      using w(2) True len read_write_same [of "\<lambda>_. 0" 0 "acc @ [b]"] by (simp add: starts_with_def)
    from decode_encoded [OF w(1) this] have "wc \<noteq> None" using ctx by (auto simp: shift_result_def split: if_splits)
    moreover have "utf8_loop (\<lambda>_. b) 0 1 0 st = (converted, wc, st1, e)" using assms(3) u by (simp add: decode_byte_def)
    ultimately show ?thesis using utf8_one_char by blast
  next
    case False
    have "acc @ [b] = map of_nat (take (length acc + 1) (utf8 (unat w)))"
      using arg_cong [OF w(2), of "take (length acc + 1)"] by (simp add: take_map)
    from utf8_loop_beginning [OF w(1) this] show ?thesis using ctx len False inc by (auto simp: shift_result_def split: if_splits)
  qed
qed


lemma read_character_ok:
  assumes "reads_from K src" "reads_succeed K" "decoding u acc st" "can_read (strm c)" "\<not> feof c"
    "encode u w = Some (acc @ bs)" "bs \<noteq> []" "stream_input src c = bs @ rest"
  shows "\<exists>c'. read_character_loop K u st c = Some (w, c') \<and> can_read (strm c') \<and> stream_input src c' = rest \<and> \<not> feof c'"
  using assms(3-8)
proof (induction bs arbitrary: acc st c)
  case (Cons b bs)
  obtain c1 where rd: "stdio_read K 1 c = ([b], c1)" "can_read (strm c1)" "stream_input src c1 = bs @ rest" "\<not> feof c1"
    using stdio_read_one [OF assms(1,2) Cons.prems(2,3)] Cons.prems(6) by (metis append_Cons)
  obtain converted wc st1 e where d: "decode_byte u b st = (converted, wc, st1, e)" by (cases "decode_byte u b st")
  note step = decoding_step [OF Cons.prems(1) d] and ne = decode_byte_no_error [OF Cons.prems(1,4) d]
  have unf: "read_character_loop K u st c =
      (if converted \<noteq> conv_incomplete then Some (the wc, c1) else read_character_loop K u st1 c1)"
    using ne by (subst read_character_loop.simps) (simp add: rd(1) [simplified] d)
  show ?case
  proof (cases "converted = conv_incomplete")
    case False
    have e: "encode u (the wc) = Some (acc @ [b])" using step(2) [OF ne False] by simp
    have "the wc = w \<and> [] = bs"
      using encode_prefix_free [OF e Cons.prems(4), of bs "[]"] by simp
    then show ?thesis using False rd unf by auto
  next
    case True
    note dec = step(1) [OF True]
    have "bs \<noteq> []"
    proof
      assume "bs = []"
      then have "encode u w = Some (acc @ [b])" using Cons.prems(4) by simp
      then show False using dec encoded_not_begun [of u "acc @ [b]" st1 w] by simp
    qed
    then show ?thesis
      using Cons.IH [of "acc @ [b]" st1 c1] dec rd(2-4) Cons.prems(4) True unf by simp
  qed
qed simp


lemma encode_nonempty: "encode u w = Some bs \<Longrightarrow> bs \<noteq> []"
  by (auto simp: encode_def utf8_bytes_def split: if_splits)

lemma wide_read_ok:
  assumes "reads_from K src" "reads_succeed K" "can_read (strm c)" "\<not> feof c"
    "encode (wide_utf8 c) w = Some bs" "stream_input src c = bs @ rest"
  shows "\<exists>c'. wide_read_character K c = Some (w, c') \<and> can_read (strm c') \<and> stream_input src c' = rest \<and> \<not> feof c' \<and>
    wide_utf8 c' = wide_utf8 c"
proof -
  have "decoding (wide_utf8 c) [] reset_state" by (simp add: decoding_def)
  from read_character_ok [OF assms(1,2) this assms(3,4) _ encode_nonempty [OF assms(5)] assms(6), of w]
  obtain c' where r: "read_character_loop K (wide_utf8 c) reset_state c = Some (w, c')" "can_read (strm c')"
    "stream_input src c' = rest" "\<not> feof c'" using assms(5) by auto
  then show ?thesis using wide_utf8_read_character [OF r(1)] by (auto simp: wide_read_character_def)
qed

lemma fgetws_loop_reads_line:
  assumes "reads_from K src" "reads_succeed K"
  shows "can_read (strm c) \<Longrightarrow> \<not> feof c \<Longrightarrow> stream_input src c = encoded (wide_utf8 c) ws @ rest \<Longrightarrow>
    \<forall>w \<in> set ws. encode (wide_utf8 c) w \<noteq> None \<Longrightarrow> 10 \<notin> set (butlast ws) \<Longrightarrow>
    ws \<noteq> [] \<and> last ws = 10 \<or> n = length acc + length ws + 1 \<Longrightarrow> length acc + length ws < n \<Longrightarrow>
    \<exists>c'. fgetws_loop K n acc c = Some ((True, acc @ ws), c') \<and> can_read (strm c') \<and> stream_input src c' = rest \<and> \<not> feof c'"
proof (induction ws arbitrary: acc c)
  case Nil
  then show ?case by (subst fgetws_loop.simps) (auto simp: encoded_def)
next
  case (Cons w ws)
  let ?u = "wide_utf8 c"
  obtain bs where bs: "encode ?u w = Some bs" using Cons.prems(4) by auto
  have inp: "stream_input src c = bs @ encoded ?u ws @ rest" using Cons.prems(3) by (simp add: encoded_Cons [OF bs])
  obtain c1 where r: "wide_read_character K c = Some (w, c1)" "can_read (strm c1)"
    "stream_input src c1 = encoded ?u ws @ rest" "\<not> feof c1" "wide_utf8 c1 = ?u"
    using wide_read_ok [OF assms Cons.prems(1,2) bs inp] by blast
  have room: "length acc + 1 < n" and we: "w \<noteq> WEOF" using Cons.prems(7) bs by (auto simp: encode_WEOF)
  show ?case
  proof (cases "w = 10")
    case True
    then have "ws = []" using Cons.prems(5) by (cases ws) auto
    then show ?thesis using r room we True by (subst fgetws_loop.simps) (auto simp: encoded_def)
  next
    case False
    have "fgetws_loop K n acc c = fgetws_loop K n (acc @ [w]) c1"
      using r(1) room False we by (subst fgetws_loop.simps) simp
    moreover have "10 \<notin> set (butlast ws)" using Cons.prems(5) by (auto split: if_splits)
    moreover have "ws \<noteq> [] \<and> last ws = 10 \<or> n = length (acc @ [w]) + length ws + 1"
      using Cons.prems(6) False by (auto split: if_splits)
    ultimately show ?thesis using Cons.IH [of c1 "acc @ [w]"] r Cons.prems(4,7) by simp
  qed
qed



subsection \<open>Witnesses\<close>

text \<open>A stream bound to UTF-8.\<close>

definition wide_example :: "u32 \<Rightarrow> byte list \<Rightarrow> (byte list \<times> byte list) io" where
  "wide_example md input =
     (example_io md input)\<lparr>strm := (static_file 3 md 0)\<lparr>state := MINI_FILE_WIDE_UTF8\<rparr>\<rparr>"

lemma wide_example_ready:
  "can_read (strm (wide_example MINI_FILE_READABLE input))" "wide_utf8 (wide_example md input)"
  "stream_input (\<lambda>k d. fst k) (wide_example md input) = input"
  "can_write (\<lambda>k d. snd k) pipe_kernel (wide_example MINI_FILE_WRITABLE [])"
  "stream_output (\<lambda>k d. snd k) (wide_example md input) = []"
  by (simp_all add: can_read_def readable_stream_def stream_ok_def wide_example_def example_io_def static_file_def has_def
      wide_utf8_def MINI_FILE_READABLE_def MINI_FILE_WIDE_UTF8_def MINI_FILE_WRITE_NEEDS_SYNC_def MINI_FILE_UNBUFFERED_def
      MINI_FILE_READ_NEEDS_POSITION_def MINI_FILE_WRITABLE_def stream_input_def unread_def can_write_def pipe_writes
      needs_position_def stream_output_def pending_def)

lemma wide_read_takes_one_character_witness:
  "\<exists>r c' used. wide_read_character pipe_kernel (wide_example MINI_FILE_READABLE [0xe2, 0x82, 0xac, 0x21]) = Some (r, c') \<and>
     [0xe2, 0x82, 0xac, 0x21] = used @ stream_input (\<lambda>k d. fst k) c' \<and>
     (r \<noteq> WEOF \<and> encode True r = Some used \<or> r = WEOF \<and> (feof c' \<or> ferror c'))"
  using wide_read_takes_one_character [OF pipe_reads wide_example_ready(1), of "[0xe2, 0x82, 0xac, 0x21]"]
  by (auto simp: wide_example_ready)

lemma euro_line: "wide_at ((\<lambda>_. 0)(7 := 0x20ac, 8 := 10)) 7 [0x20ac, 10]" "encode True 0x20ac = Some [0xe2, 0x82, 0xac]"
  "encode True 10 = Some [10]" "encoded True [0x20ac, 10] = [0xe2, 0x82, 0xac, 10]"
proof -
  show w: "wide_at ((\<lambda>_. 0)(7 := 0x20ac, 8 := 10)) 7 [0x20ac, 10]" by (simp add: wide_at_def less_Suc_eq nth_Cons')
  show e: "encode True 0x20ac = Some [0xe2, 0x82, 0xac]" "encode True 10 = Some [10]" by code_simp+
  show "encoded True [0x20ac, 10] = [0xe2, 0x82, 0xac, 10]" by (simp add: encoded_def e)
qed

lemma fputws_appends_encoding_witness:
  "\<exists>r c' n. fputws_loop pipe_kernel ((\<lambda>_. 0)(7 := 0x20ac, 8 := 10)) 7 (wide_example MINI_FILE_WRITABLE []) = Some (r, c') \<and>
     stream_output (\<lambda>k d. snd k) c' = take n [0xe2, 0x82, 0xac, 10] \<and> (r = 0 \<and> n = 4 \<or> r = c_EOF \<and> ferror c')"
proof -
  have u: "\<forall>w \<in> set [0x20ac, 10]. encode (wide_utf8 (wide_example MINI_FILE_WRITABLE [])) w \<noteq> None"
    by (simp add: wide_example_ready euro_line)
  note x = fputws_appends_encoding [OF wide_example_ready(4) euro_line(1) u, unfolded wide_example_ready(5) append_Nil]
  from x obtain r c' n where x: "fputws_loop pipe_kernel ((\<lambda>_. 0)(7 := 0x20ac, 8 := 10)) 7 (wide_example MINI_FILE_WRITABLE []) = Some (r, c')"
    "stream_output (\<lambda>k d. snd k) c' = take n [0xe2, 0x82, 0xac, 10]" "r = 0 \<and> n = length [0xe2, 0x82, 0xac, 10 :: byte] \<or> r = c_EOF \<and> ferror c'"
    by (simp only: wide_example_ready(2) euro_line(4)) blast
  show ?thesis by (intro exI [of _ r] exI [of _ c'] exI [of _ n]) (use x in \<open>simp add: eval_nat_numeral\<close>)
qed

text \<open>The first wide operation on \<open>stdin\<close> in the UTF-8 locale, on a line with a euro sign.\<close>

lemma pipe_reads_succeed: "reads_succeed pipe_kernel"
  by (auto simp: reads_succeed_def pipe_kernel_def)

definition stdin_world :: "byte list \<Rightarrow> (byte list \<times> byte list) world" where
  "stdin_world input = initial_world (input, [])"

lemma stdin_wide:
  obtains w1 where "require_readable True stdin_ptr (stdin_world input) = (0, w1)" "can_read (files w1 stdin_ptr)"
    "\<not> feof (view stdin_ptr w1)" "wide_utf8 (view stdin_ptr w1)" "stream_input (\<lambda>k d. fst k) (view stdin_ptr w1) = input"
proof -
  define f where "f = (static_file 0 MINI_FILE_READABLE stdout_ptr)\<lparr>state := MINI_FILE_WIDE_ORIENTED OR MINI_FILE_WIDE_UTF8\<rparr>"
  define w1 where "w1 = upd_file stdin_ptr (\<lambda>_. f) (stdin_world input)"
  have s: "files (stdin_world input) stdin_ptr = static_file 0 MINI_FILE_READABLE stdout_ptr"
    by (simp add: stdin_world_def initial_world_def initial_files_def)
  have nz: "stdin_ptr \<noteq> 0" by (simp add: stdin_ptr_def)
  have "require_wide True stdin_ptr (stdin_world input) = (0, w1)"
    by (simp add: require_wide_def require_orientation_def s invalid_file_def static_file_def bind_wide_encoding_def
        Let_def file_flags raise_flag_def drop_flag_def nz upd_file_def w1_def f_def)
  then have "require_readable True stdin_ptr (stdin_world input) = (0, w1)"
    by (simp add: require_readable_def c_EOF_def w1_def upd_file_def f_def has_def static_file_def file_flags)
  moreover have "can_read f" "\<not> has (state f) MINI_FILE_EOF" "has (state f) MINI_FILE_WIDE_UTF8" "unread f = []"
    by (simp_all add: f_def can_read_def stream_ok_def readable_stream_def has_def static_file_def file_flags unread_def)
  ultimately show thesis
    by (intro that [of w1])
      (simp_all add: w1_def upd_file_def view_def feof_def wide_utf8_def stream_input_def stdin_world_def initial_world_def)
qed


text \<open>\<open>fgetws\<close> hides a character cut off by the end of the file: the encoding error is recorded, but the result is the
  buffer with the text before it, where the standard asks for the null pointer.\<close>

lemma fgetws_hides_cut_off_character:
  "map_option (\<lambda>((ok, line), c'). (ok, line, ferror c', io_errno c'))
     (fgetws_loop pipe_kernel 8 [] (wide_example MINI_FILE_READABLE [0x61, 0xe2])) = Some (True, [0x61], True, EILSEQ)"
  by code_simp

end
