(* ===== verification/Wide_Format.thy ===== *)
theory Wide_Format
  imports Wide_Stdio
begin

section \<open>Wide formatted output (\<open>wchar/wide_format.c\<close>)\<close>

text \<open>
  A wide format is encoded into bytes, the byte formatter of \<open>Format\<close> renders it into a buffer of the right
  size, and the rendered bytes are decoded into characters, for a stream or for a wide buffer. The
  addresses \<open>malloc\<close> returned for the encoded format and for the rendered text are arguments; null is a
  failed allocation, for which \<open>malloc\<close> has set \<open>errno\<close>.
\<close>

subsection \<open>Definitions\<close>

text \<open>Both loops over the format, and the whole: an \<open>errno\<close>, or the bytes.\<close>

partial_function (option) encoded_length :: "wmem \<Rightarrow> addr \<Rightarrow> bool \<Rightarrow> nat \<Rightarrow> (int + nat) option" where
  "encoded_length wm f u len =
     (if wm f \<noteq> 0 then
        (case encode u (wm f) of
           None \<Rightarrow> Some (Inl EILSEQ)
         | Some bytes \<Rightarrow>
             if 2 ^ 64 - 1 - length bytes - 1 < len then Some (Inl ENOMEM)
             else encoded_length wm (f + 1) u (len + length bytes))
      else Some (Inr len))"

partial_function (option) encode_from :: "wmem \<Rightarrow> addr \<Rightarrow> bool \<Rightarrow> byte list \<Rightarrow> (int + byte list) option" where
  "encode_from wm f u acc =
     (if wm f \<noteq> 0 then
        (case encode u (wm f) of
           None \<Rightarrow> Some (Inl EILSEQ)
         | Some bytes \<Rightarrow> encode_from wm (f + 1) u (acc @ bytes))
      else Some (Inr acc))"

definition encode_wide_format :: "wmem \<Rightarrow> addr \<Rightarrow> bool \<Rightarrow> addr \<Rightarrow> (int + byte list) option" where
  "encode_wide_format wm format u narrow =
     (if format = 0 then Some (Inl EINVAL)
      else Option.bind (encoded_length wm format u 0) (\<lambda>len. case len of
          Inl e \<Rightarrow> Some (Inl e)
        | Inr _ \<Rightarrow> if narrow = 0 then Some (Inl ENOMEM) else encode_from wm format u []))"

definition render_wide ::
  "'k sys \<Rightarrow> mem \<Rightarrow> wmem \<Rightarrow> addr \<Rightarrow> public_va_list \<Rightarrow> bool \<Rightarrow> addr \<Rightarrow> addr \<Rightarrow> 'k io \<Rightarrow> ((int \<times> byte list) \<times> 'k io) option" where
  "render_wide K m wm format ap u narrow rendered c =
     Option.bind (encode_wide_format wm format u narrow) (\<lambda>coded. case coded of
         Inl e \<Rightarrow> Some ((c_EOF, []), c\<lparr>io_errno := e\<rparr>)
       | Inr bytes \<Rightarrow>
           let m' = write_bytes m narrow (bytes @ [0])
           in Option.bind (mini_vsnprintf_wide_mode K m' wm c None 0 narrow ap u) (\<lambda>(count, _, c1).
                if count < 0 then Some ((c_EOF, []), c1)
                else if rendered = 0 then Some ((c_EOF, []), c1\<lparr>io_errno := ENOMEM\<rparr>)
                else Option.bind (mini_vsnprintf_wide_mode K m' wm c1 (Some (\<lambda>i. m (rendered + i))) (nat count + 1) narrow ap u)
                  (\<lambda>(actual, buffer, c2).
                    if actual \<noteq> count then
                      Some ((c_EOF, []), c2\<lparr>io_errno := if actual < 0 then io_errno c2 else EINVAL\<rparr>)
                    else Some ((count, buf_get (the buffer) 0 (nat count)), c2))))"

text \<open>The character at an offset and the offset behind it; \<^term>\<open>None\<close> is failure with \<open>EILSEQ\<close>.\<close>

function decode_rendered :: "bool \<Rightarrow> byte list \<Rightarrow> nat \<Rightarrow> mbstate \<Rightarrow> (wchar \<times> nat) option" where
  "decode_rendered u rendered offset st =
     (if offset < length rendered then
        let (converted, wc, st', e) = decode_byte u (rendered ! offset) st
        in if converted = conv_error then None
           else if converted \<noteq> conv_incomplete then Some (the wc, offset + 1)
           else decode_rendered u rendered (offset + 1) st'
      else None)"
  by auto
termination
  by (relation "measure (\<lambda>(u, rendered, offset, st). length rendered - offset)") auto

declare decode_rendered.simps [simp del]

definition decode_rendered_character :: "bool \<Rightarrow> byte list \<Rightarrow> nat \<Rightarrow> (wchar \<times> nat) option" where
  "decode_rendered_character u rendered offset = decode_rendered u rendered offset reset_state"

lemma decode_rendered_moves: "decode_rendered u rendered offset st = Some (wc, offset') \<Longrightarrow> offset < offset' \<and> offset' \<le> length rendered"
proof (induction u rendered offset st rule: decode_rendered.induct)
  case (1 u rendered offset st)
  show ?case using 1(2) 1(1) by (subst (asm) decode_rendered.simps) (fastforce split: if_splits prod.splits)
qed

function write_rendered :: "'k sys \<Rightarrow> bool \<Rightarrow> byte list \<Rightarrow> nat \<Rightarrow> u32 \<Rightarrow> 'k io \<Rightarrow> (int \<times> 'k io) option" where
  "write_rendered K u rendered offset count c =
     (if offset < length rendered then
        (case decode_rendered_character u rendered offset of
           None \<Rightarrow> Some (c_EOF, mark_error EILSEQ c)
         | Some (wc, offset') \<Rightarrow>
             (case stdio_write K (take (offset' - offset) (drop offset rendered)) c of
                None \<Rightarrow> None
              | Some (n, c') \<Rightarrow>
                  if n \<noteq> offset' - offset then Some (c_EOF, c')
                  else write_rendered K u rendered offset' (count + 1) c'))
      else Some (sint count, c))"
  by auto
termination
  by (relation "measure (\<lambda>(K, u, rendered, offset, count, c). length rendered - offset)")
    (auto simp: decode_rendered_character_def dest: decode_rendered_moves)

declare write_rendered.simps [simp del]

text \<open>On a stream; the encoding is the stream's.\<close>

definition vfwprintf ::
  "bool \<Rightarrow> 'k sys \<Rightarrow> mem \<Rightarrow> wmem \<Rightarrow> nat \<Rightarrow> addr \<Rightarrow> public_va_list \<Rightarrow> addr \<Rightarrow> addr \<Rightarrow> 'k world \<Rightarrow> (int \<times> 'k world) option" where
  "vfwprintf u8 K m wm p format ap narrow rendered w =
     (let saved_errno = errno w; (r, w1) = require_writable u8 p w
      in if r = c_EOF then Some (c_EOF, w1)
         else on_file_opt (\<lambda>c.
           Option.bind (render_wide K m wm format ap (wide_utf8 c) narrow rendered c) (\<lambda>((byte_count, text), c1).
             if byte_count < 0 then Some (c_EOF, if io_errno c1 = EILSEQ then set_state MINI_FILE_ERROR c1 else c1)
             else map_option (\<lambda>(result, c2). (result, if 0 \<le> result then c2\<lparr>io_errno := saved_errno\<rparr> else c2))
                    (write_rendered K (wide_utf8 c) text 0 0 c1))) p w1)"

definition vwprintf ::
  "bool \<Rightarrow> 'k sys \<Rightarrow> mem \<Rightarrow> wmem \<Rightarrow> addr \<Rightarrow> public_va_list \<Rightarrow> addr \<Rightarrow> addr \<Rightarrow> 'k world \<Rightarrow> (int \<times> 'k world) option" where
  "vwprintf u8 K m wm = vfwprintf u8 K m wm stdout_ptr"

text \<open>Into a wide buffer; \<open>buffer\<close> may be null when \<open>size\<close> is 0. The state is the wide memory and \<open>errno\<close>.\<close>

definition close_buffer :: "addr \<Rightarrow> nat \<Rightarrow> nat \<Rightarrow> wmem \<Rightarrow> wmem" where
  "close_buffer buffer n stored wm = (if n \<noteq> 0 \<and> buffer \<noteq> 0 then wm(buffer + stored := 0) else wm)"

function store_rendered :: "bool \<Rightarrow> addr \<Rightarrow> nat \<Rightarrow> byte list \<Rightarrow> nat \<Rightarrow> nat \<Rightarrow> nat \<Rightarrow> wmem \<Rightarrow> (int \<times> int option) \<times> wmem" where
  "store_rendered u buffer n rendered offset count stored wm =
     (if offset < length rendered then
        (case decode_rendered_character u rendered offset of
           None \<Rightarrow> ((c_EOF, Some EILSEQ), close_buffer buffer n stored wm)
         | Some (wc, offset') \<Rightarrow>
             if n \<noteq> 0 \<and> stored + 1 < n then
               store_rendered u buffer n rendered offset' (count + 1) (stored + 1) (wm(buffer + stored := wc))
             else store_rendered u buffer n rendered offset' (count + 1) stored wm)
      else
        ((if n = 0 \<or> n \<le> count then (c_EOF, Some ERANGE) else (sint (of_nat count :: u32), None)),
         close_buffer buffer n stored wm))"
  by auto
termination
  by (relation "measure (\<lambda>(u, buffer, n, rendered, offset, count, stored, wm). length rendered - offset)")
    (auto simp: decode_rendered_character_def dest: decode_rendered_moves)

declare store_rendered.simps [simp del]

definition vswprintf ::
  "bool \<Rightarrow> 'k sys \<Rightarrow> mem \<Rightarrow> wmem \<Rightarrow> addr \<Rightarrow> nat \<Rightarrow> addr \<Rightarrow> public_va_list \<Rightarrow> addr \<Rightarrow> addr \<Rightarrow> 'k io \<Rightarrow> ((int \<times> wmem) \<times> 'k io) option" where
  "vswprintf u8 K m wm buffer n format ap narrow rendered c =
     (if n \<noteq> 0 \<and> buffer = 0 then Some ((c_EOF, wm), c\<lparr>io_errno := EINVAL\<rparr>)
      else Option.bind (render_wide K m wm format ap u8 narrow rendered c) (\<lambda>((byte_count, text), c1).
        if byte_count < 0 then Some ((c_EOF, wm), c1)
        else let ((result, e), wm') = store_rendered u8 buffer n text 0 0 0 wm
          in Some ((result, wm'), c1\<lparr>io_errno := if 0 \<le> result then io_errno c else (case e of None \<Rightarrow> io_errno c1 | Some x \<Rightarrow> x)\<rparr>)))"

subsection \<open>Decoding what was encoded\<close>

lemma utf8_loop_unroll:
  assumes "used < n"
  shows "fst (snd (utf8_loop m s n used st)) =
    (case utf8_loop (\<lambda>_. m (s + used)) 0 1 0 st of (c, w, st', e) \<Rightarrow>
       if c = conv_incomplete then fst (snd (utf8_loop m s n (used + 1) st')) else w)"
proof -
  have c: "conv_error \<noteq> conv_incomplete" "0 \<noteq> conv_incomplete" "1 \<noteq> conv_incomplete"
    by (simp_all add: conv_error_def conv_incomplete_def)
  define b where "b = m (s + used)"
  note unf = utf8_loop.simps [of m s n used st, folded b_def] utf8_loop.simps [of "\<lambda>_. b" 0 1 0 st]
  show ?thesis unfolding b_def [symmetric]
  proof (cases "state_remaining st = 0")
    case True
    then show "fst (snd (utf8_loop m s n used st)) = (case utf8_loop (\<lambda>_. b) 0 1 0 st of (c, w, st', e) \<Rightarrow>
        if c = conv_incomplete then fst (snd (utf8_loop m s n (used + 1) st')) else w)"
      unfolding unf using assms c
      by (cases "b = 0"; cases "b \<le> 0x7f"; cases "utf8_lead b"; simp add: Let_def utf8_loop_end)
  next
    case False
    then show "fst (snd (utf8_loop m s n used st)) = (case utf8_loop (\<lambda>_. b) 0 1 0 st of (c, w, st', e) \<Rightarrow>
        if c = conv_incomplete then fst (snd (utf8_loop m s n (used + 1) st')) else w)"
      unfolding unf using assms c
      by (cases "b < 0x80 \<or> 0xbf < b"; cases "state_remaining st - 1 = 0") (simp_all add: Let_def utf8_loop_end)
  qed
qed

lemma decode_rendered_encoding:
  assumes "encode u w = Some bs" "rendered = front @ bs @ rest"
  shows "decode_rendered_character u rendered (length front) = Some (w, length front + length bs)"
proof -
  have walk: "\<exists>wc k. decode_rendered u rendered (length front + length acc) st = Some (wc, length front + k) \<and>
      length acc < k \<and> k \<le> length bs \<and> encode u wc = Some (take k bs)"
    if "decoding u acc st" "bs = acc @ cs" "cs \<noteq> []" "u \<longrightarrow> fst (snd (utf8_loop (write_bytes (\<lambda>_. 0) 0 bs) 0 (length bs) (length acc) st)) = Some w"
    for acc cs st
    using that
  proof (induction cs arbitrary: acc st)
    case (Cons b cs)
    obtain converted wc st1 e where d: "decode_byte u b st = (converted, wc, st1, e)" by (cases "decode_byte u b st")
    note step = decoding_step [OF Cons.prems(1) d]
    have b: "rendered ! (length front + length acc) = b" "length front + length acc < length rendered"
      using assms(2) Cons.prems(2) by (simp_all add: nth_append)
    have unf: "decode_rendered u rendered (length front + length acc) st =
        (if converted = conv_error then None
         else if converted \<noteq> conv_incomplete then Some (the wc, length front + length acc + 1)
         else decode_rendered u rendered (length front + length acc + 1) st1)"
      using b(2) by (subst decode_rendered.simps) (simp add: b(1) d)
    have mb: "write_bytes (\<lambda>_. 0) 0 bs (0 + length acc) = b"
      using Cons.prems(2) by (simp add: write_bytes_apply nth_append)
    have ne: "conv_error \<noteq> conv_incomplete" by (simp add: conv_error_def conv_incomplete_def)
    have noerr: "converted \<noteq> conv_error"
    proof
      assume bad: "converted = conv_error"
      show False
      proof (cases u)
        case True
        have "fst (snd (utf8_loop (write_bytes (\<lambda>_. 0) 0 bs) 0 (length bs) (length acc) st)) = wc"
          using utf8_loop_unroll [of "length acc" "length bs" "write_bytes (\<lambda>_. 0) 0 bs" 0 st] mb d True bad ne Cons.prems(2)
          by (simp add: decode_byte_def)
        then have "wc = Some w" using Cons.prems(4) True by simp
        moreover have "utf8_loop (\<lambda>_. b) 0 1 0 st = (conv_error, wc, st1, e)" using d True bad by (simp add: decode_byte_def)
        ultimately show False
          by (subst (asm) utf8_loop.simps) (auto simp: Let_def utf8_loop_end conv_error_def split: if_splits option.splits)
      next
        case False
        then have "acc = []" "st = reset_state" using Cons.prems(1) by (auto simp: decoding_def)
        moreover have "bs = [ucast w]" "w \<le> 0x7f"
          using assms(1) False by (auto simp: encode_def MINI_C_MB_MAX_def split: if_splits)
        moreover have "unat (ucast w :: byte) = unat w" if "w \<le> 0x7f"
        proof -
          have "unat w < 0x80" using that by (simp add: word_le_nat_alt)
          then show ?thesis using byte_of_nat [of "unat w"] by simp
        qed
        ultimately have "\<not> 0x7f < (ucast b :: u32)" using Cons.prems(2) unat_ucast_byte [of b]
          by (auto simp: word_less_nat_alt word_le_nat_alt)
        then show False using d bad \<open>st = reset_state\<close> False
          by (auto simp: decode_byte_def c_decode_def mbsinit_def reset_state_def MINI_C_MB_MAX_def conv_error_def split: if_splits)
      qed
    qed
    show ?case
    proof (cases "converted = conv_incomplete")
      case False
      then show ?thesis using step(2) [OF noerr False] noerr Cons.prems(2) unfolding unf
        by (intro exI [of _ "the wc"] exI [of _ "length acc + 1"]) simp
    next
      case more: True
      note dec = step(1) [OF more]
      have u: u using dec by (auto simp: decoding_def)
      have cs: "cs \<noteq> []"
      proof
        assume "cs = []"
        then have "utf8_loop (write_bytes (\<lambda>_. 0) 0 bs) 0 (length bs) (length acc + 1) st1 = (conv_incomplete, None, st1, None)"
          using Cons.prems(2) by (simp add: utf8_loop_end)
        then show False
          using utf8_loop_unroll [of "length acc" "length bs" "write_bytes (\<lambda>_. 0) 0 bs" 0 st] mb d u more Cons.prems(2,4)
          by (simp add: decode_byte_def)
      qed
      have "fst (snd (utf8_loop (write_bytes (\<lambda>_. 0) 0 bs) 0 (length bs) (length (acc @ [b])) st1)) = Some w"
        using utf8_loop_unroll [of "length acc" "length bs" "write_bytes (\<lambda>_. 0) 0 bs" 0 st] mb d u more Cons.prems(2,4)
        by (simp add: decode_byte_def)
      from Cons.IH [OF conjunct1 [OF dec] _ cs] this Cons.prems(2) u more noerr show ?thesis
        unfolding unf by (auto simp: ac_simps)
    qed
  qed simp
  have len: "0 < length bs"
    using assms(1) encode_bytes [OF assms(1)] encode_zero [of u] by (cases "w = 0") auto
  have first: "fst (snd (utf8_loop (write_bytes (\<lambda>_. 0) 0 bs) 0 (length bs) 0 reset_state)) = Some w" if u
  proof -
    have v: "valid_scalar w" "bs = map of_nat (utf8 (unat w))"
      using assms(1) that utf8_bytes_eq [of w] by (auto simp: encode_utf8 split: if_splits)
    have "starts_with (write_bytes (\<lambda>_. 0) 0 bs) 0 (length bs) (utf8 (unat w))"
      using read_write_same [of "\<lambda>_. 0" 0 bs] v(2) by (simp add: starts_with_def)
    with decode_encoded [of "unat w"] v(1) show ?thesis by (simp add: valid_scalar_eq)
  qed
  from walk [of "[]" reset_state bs] len first obtain wc k where
    r: "decode_rendered u rendered (length front) reset_state = Some (wc, length front + k)" "k \<le> length bs" "encode u wc = Some (take k bs)"
    by (auto simp: decoding_def)
  from encode_prefix_free [OF assms(1) r(3), of "[]" "drop k bs"] r(2) have "w = wc" "k = length bs" by auto
  then show ?thesis using r by (simp add: decode_rendered_character_def)
qed

lemma write_wide_upd:
  "k = length xs \<Longrightarrow> (write_wide wm a xs)(a + k := w) = write_wide wm a (xs @ [w])"
  using write_wide_snoc by simp

lemma store_rendered_encoded:
  assumes "\<forall>w \<in> set ws. encode u w \<noteq> None" "n \<noteq> 0 \<longrightarrow> buffer \<noteq> 0" "rendered = encoded u (ps @ ws)"
    "\<forall>w \<in> set ps. encode u w \<noteq> None"
  shows "store_rendered u buffer n rendered (length (encoded u ps)) (length ps) (min (length ps) (n - 1))
      (if n = 0 then wm else write_wide wm buffer (take (n - 1) ps)) =
    ((if n = 0 \<or> n \<le> length (ps @ ws) then (c_EOF, Some ERANGE) else (sint (of_nat (length (ps @ ws)) :: u32), None)),
     if n = 0 then wm else write_wide wm buffer (take (n - 1) (ps @ ws) @ [0]))"
  using assms
proof (induction ws arbitrary: ps)
  case Nil
  then show ?case
    by (subst store_rendered.simps) (auto simp: close_buffer_def write_wide_upd min_def)
next
  case (Cons w ws)
  obtain bs where bs: "encode u w = Some bs" using Cons.prems(1) by auto
  have len: "0 < length bs" using encode_bytes [OF bs] encode_zero [of u] bs by (cases "w = 0") auto
  have r: "rendered = encoded u ps @ bs @ encoded u ws"
    using Cons.prems(3) by (simp add: encoded_append encoded_Cons [OF bs])
  note dec = decode_rendered_encoding [OF bs r]
  have next_off: "length (encoded u ps) + length bs = length (encoded u (ps @ [w]))"
    by (simp add: encoded_append encoded_single [OF bs])
  have step: "store_rendered u buffer n rendered (length (encoded u ps)) (length ps) (min (length ps) (n - 1))
        (if n = 0 then wm else write_wide wm buffer (take (n - 1) ps)) =
      store_rendered u buffer n rendered (length (encoded u (ps @ [w]))) (length (ps @ [w])) (min (length (ps @ [w])) (n - 1))
        (if n = 0 then wm else write_wide wm buffer (take (n - 1) (ps @ [w])))"
  proof (cases "n \<noteq> 0 \<and> length ps < n - 1")
    case True
    then have "min (length ps) (n - 1) = length ps" "length ps + 1 < n" "min (length (ps @ [w])) (n - 1) = length ps + 1" by auto
    then show ?thesis using True len r dec unfolding next_off [symmetric]
      by (subst store_rendered.simps) (simp add: write_wide_upd)
  next
    case False
    then have "n \<noteq> 0 \<longrightarrow> \<not> min (length ps) (n - 1) + 1 < n" "min (length (ps @ [w])) (n - 1) = min (length ps) (n - 1)"
      "n \<noteq> 0 \<longrightarrow> take (n - 1) (ps @ [w]) = take (n - 1) ps" by auto
    then show ?thesis using len r dec unfolding next_off [symmetric]
      by (subst store_rendered.simps) (cases "n = 0"; simp)
  qed
  show ?case unfolding step using Cons.IH [of "ps @ [w]"] Cons.prems by simp
qed

text \<open>C39. \<open>vswprintf\<close>, once the format has been rendered: a text that is the encoding of some characters is stored as
  those characters, the first \<open>n - 1\<close> of them, and closed; when they do not all fit the result is \<open>EOF\<close> with
  \<open>ERANGE\<close>, otherwise it is their number and \<open>errno\<close> is what it was.\<close>

theorem vswprintf_stores_characters:
  assumes "render_wide K m wm format ap u8 narrow rendered c = Some ((count, encoded u8 ws), c1)" "0 \<le> count"
    and "\<forall>w \<in> set ws. encode u8 w \<noteq> None" "n \<noteq> 0" "buffer \<noteq> 0" "length ws < 2 ^ 31"
  shows "vswprintf u8 K m wm buffer n format ap narrow rendered c =
    Some ((if length ws < n then int (length ws) else c_EOF, write_wide wm buffer (take (n - 1) ws @ [0])),
      c1\<lparr>io_errno := if length ws < n then io_errno c else ERANGE\<rparr>)"
proof -
  have z: "encoded u8 [] = []" by (simp add: encoded_def)
  have st: "store_rendered u8 buffer n (encoded u8 ws) 0 0 0 wm =
     ((if n \<le> length ws then (c_EOF, Some ERANGE) else (sint (of_nat (length ws) :: u32), None)),
      write_wide wm buffer (take (n - 1) ws @ [0]))"
    using store_rendered_encoded [of ws u8 n buffer "encoded u8 ws" "[]" wm] assms(3-5) by (simp add: z)
  have "sint (of_nat (length ws) :: u32) = int (length ws)"
  proof -
    have "int (length ws) < int (2 ^ 31)" using assms(6) by (simp only: of_nat_less_iff)
    then have "signed_take_bit 31 (int (length ws)) = int (length ws)"
      by (intro signed_take_bit_int_eq_self) simp_all
    then show ?thesis by (simp add: signed_of_nat)
  qed
  then show ?thesis using assms(1,2,4,5) by (simp add: vswprintf_def st c_EOF_def)
qed

lemma write_rendered_encoded:
  assumes "can_write out K c" "\<forall>w \<in> set ws. encode u w \<noteq> None" "rendered = front @ encoded u ws"
  shows "\<exists>r c' k. write_rendered K u rendered (length front) cnt c = Some (r, c') \<and> can_write out K c' \<and>
    stream_output out c' = stream_output out c @ take k (encoded u ws) \<and>
    (r = sint (cnt + of_nat (length ws)) \<and> k = length (encoded u ws) \<or> r = c_EOF \<and> ferror c')"
  using assms
proof (induction ws arbitrary: front cnt c)
  case Nil
  then show ?case by (subst write_rendered.simps) (auto simp: encoded_def)
next
  case (Cons w ws)
  obtain bs where bs: "encode u w = Some bs" using Cons.prems(2) by auto
  have len: "0 < length bs" using encode_bytes [OF bs] encode_zero [of u] bs by (cases "w = 0") auto
  have r: "rendered = front @ bs @ encoded u ws" using Cons.prems(3) by (simp add: encoded_Cons [OF bs])
  note dec = decode_rendered_encoding [OF bs r]
  from stdio_write_can [OF Cons.prems(1), of bs] obtain k c1 where wr: "stdio_write K bs c = Some (k, c1)" "k \<le> length bs"
    "can_write out K c1" "stream_output out c1 = stream_output out c @ take k bs" "k < length bs \<longrightarrow> ferror c1" by blast
  have unf: "write_rendered K u rendered (length front) cnt c =
      (if k \<noteq> length bs then Some (c_EOF, c1) else write_rendered K u rendered (length (front @ bs)) (cnt + 1) c1)"
    using len r dec wr(1) by (subst write_rendered.simps) (simp add: wr(1))
  show ?case
  proof (cases "k = length bs")
    case False
    then show ?thesis using wr unfolding unf
      by (intro exI [of _ c_EOF] exI [of _ c1] exI [of _ k]) (simp add: encoded_Cons [OF bs])
  next
    case True
    from Cons.IH [OF wr(3), of "front @ bs" "cnt + 1"] Cons.prems(2) r obtain q c' j where
      "write_rendered K u rendered (length (front @ bs)) (cnt + 1) c1 = Some (q, c')" "can_write out K c'"
      "stream_output out c' = stream_output out c1 @ take j (encoded u ws)"
      "q = sint (cnt + 1 + of_nat (length ws)) \<and> j = length (encoded u ws) \<or> q = c_EOF \<and> ferror c'" by auto
    then show ?thesis using True wr(4) unfolding unf
      by (intro exI [of _ q] exI [of _ c'] exI [of _ "length bs + j"]) (auto simp: encoded_Cons [OF bs] algebra_simps)
  qed
qed

subsection \<open>Witness\<close>

text \<open>The format \<open>L"hi"\<close> into a wide buffer of two.\<close>

definition hi_wide :: wmem where "hi_wide = (\<lambda>_. 0)(7 := 0x68, 8 := 0x69)"

definition hi_bytes :: mem where "hi_bytes = write_bytes (\<lambda>_. 0) 100 [0x68, 0x69, 0]"

definition no_args :: public_va_list where
  "no_args = \<lparr>gp_offset = 48, fp_offset = 176, overflow_arg_area = \<lambda>_. 0, reg_save_area = 0\<rparr>"

lemma hi_coded: "encode_wide_format hi_wide 7 True 100 = Some (Inr [0x68, 0x69])"
proof -
  have e: "encode True 0x68 = Some [0x68]" "encode True 0x69 = Some [0x69]" by code_simp+
  have "encoded_length hi_wide 7 True 0 = Some (Inr 2)"
    by (simp add: encoded_length.simps hi_wide_def e)
  moreover have "encode_from hi_wide 7 True [] = Some (Inr [0x68, 0x69])"
    by (simp add: encode_from.simps hi_wide_def e)
  ultimately show ?thesis by (simp add: encode_wide_format_def)
qed

lemma hi_formatted:
  "mini_vsnprintf_wide_mode K hi_bytes wm c (Some buf) n 100 ap u8 = Some (2, Some (truncated n [0x68, 0x69] buf), c)"
  "mini_vsnprintf_wide_mode K hi_bytes wm c None 0 100 ap u8 = Some (2, None, c)"
proof -
  have l: "literal_end hi_bytes 100 = Some 102" by (simp add: literal_end.simps hi_bytes_def)
  have m: "hi_bytes 100 \<noteq> 0" "hi_bytes 102 = 0" by (simp_all add: hi_bytes_def)
  have r: "read_bytes hi_bytes 100 2 = [0x68, 0x69]" by (simp add: hi_bytes_def read_bytes_def upt_rec)
  have "dispatch_loop K hi_bytes wm 100 a (mem_sink c n buf u8 True [] 0) = Some (2, mem_sink c n buf u8 True [0x68, 0x69] 2)" for a n buf
    unfolding dispatch_loop_unfold [OF m(1) l]
    by (simp add: emit_if_def r mem_emit_bytes MINI_PRINTF_INT_MAX_def m)
  then show "mini_vsnprintf_wide_mode K hi_bytes wm c (Some buf) n 100 ap u8 = Some (2, Some (truncated n [0x68, 0x69] buf), c)"
    "mini_vsnprintf_wide_mode K hi_bytes wm c None 0 100 ap u8 = Some (2, None, c)"
    by (simp_all add: mini_vsnprintf_wide_mode_def snprintf_dispatch_mode_def memory_sink_start format_dispatch_def)
qed

lemma hi_rendered:
  "render_wide K (\<lambda>_. 0) hi_wide 7 ap True 100 200 c = Some ((2, encoded True [0x68, 0x69]), c)"
proof -
  have e: "encode True 0x68 = Some [0x68]" "encode True 0x69 = Some [0x69]" by code_simp+
  have "buf_get (truncated 3 [0x68, 0x69] (\<lambda>i. 0)) 0 2 = [0x68, 0x69]"
    by (simp add: truncated_def buf_get_def upt_rec)
  moreover have hb: "write_bytes (\<lambda>_. 0) 100 ([0x68, 0x69] @ [0]) = hi_bytes" by (simp add: hi_bytes_def)
  ultimately show ?thesis
    unfolding render_wide_def hi_coded bind.bind_lunit sum.case Let_def hb
    by (simp add: hi_formatted encoded_def e)
qed

theorem vswprintf_stores_characters_witness:
  "vswprintf True pipe_kernel (\<lambda>_. 0) hi_wide 1000 2 7 no_args 100 200 (example_io 0 []) =
     Some ((c_EOF, write_wide hi_wide 1000 [0x68, 0]), (example_io 0 [])\<lparr>io_errno := ERANGE\<rparr>)"
proof -
  have e: "\<forall>w \<in> set [0x68, 0x69]. encode True w \<noteq> None" by code_simp
  show ?thesis using vswprintf_stores_characters [OF hi_rendered _ e, of 2 1000] by simp
qed

end
