(* ===== verification/Binary32.thy ===== *)
theory Binary32
  imports Binary64
begin

unbundle bit_operations_syntax

section \<open>The C type \<open>float\<close>\<close>

text \<open>
  Binary32 of IEEE 754 beside \<open>Binary64\<close>, in the same form: a \<open>float\<close> is its 32 bits, a result is rounded
  to nearest even from the exact quotient of two natural numbers. Conversions between the two types are
  those of the SSE2 instructions, which make a NaN quiet.
\<close>

type_synonym f32 = "32 word"

definition f32_neg :: "f32 \<Rightarrow> bool" where "f32_neg b = (2 ^ 31 \<le> unat b)"
definition f32_exp :: "f32 \<Rightarrow> nat" where "f32_exp b = unat b div 2 ^ 23 mod 2 ^ 8"
definition f32_frac :: "f32 \<Rightarrow> nat" where "f32_frac b = unat b mod 2 ^ 23"

definition f32_nan :: "f32 \<Rightarrow> bool" where "f32_nan b = (f32_exp b = 0xff \<and> f32_frac b \<noteq> 0)"
definition f32_inf :: "f32 \<Rightarrow> bool" where "f32_inf b = (f32_exp b = 0xff \<and> f32_frac b = 0)"
definition f32_finite :: "f32 \<Rightarrow> bool" where "f32_finite b = (f32_exp b \<noteq> 0xff)"

definition f32_sig :: "f32 \<Rightarrow> nat" where
  "f32_sig b = (if f32_exp b = 0 then f32_frac b else 2 ^ 23 + f32_frac b)"

definition f32_pow :: "f32 \<Rightarrow> int" where
  "f32_pow b = (if f32_exp b = 0 then - 149 else int (f32_exp b) - 150)"

definition f32_val :: "f32 \<Rightarrow> real" where
  "f32_val b = (if f32_neg b then - 1 else 1) * real (f32_sig b) * 2 powi f32_pow b"

definition f32_make :: "bool \<Rightarrow> nat \<Rightarrow> f32" where
  "f32_make neg n = of_nat ((if neg then 2 ^ 31 else 0) + n)"

definition f32_round :: "bool \<Rightarrow> nat \<Rightarrow> nat \<Rightarrow> f32" where
  "f32_round neg p q =
     (if p = 0 then f32_make neg 0
      else let e = max (lead_exp p q) (- 126); k = e - 23;
               m = round_div (p * pow_up (- k)) (q * pow_up k);
               n = nat (e + 126) * 2 ^ 23 + m
           in f32_make neg (min n (0xff * 2 ^ 23)))"

subsection \<open>Operations\<close>

definition f32_minus :: "f32 \<Rightarrow> f32" where "f32_minus b = b + 0x80000000"

definition f32_default_nan :: f32 where "f32_default_nan = 0xffc00000"

definition f32_quiet :: "f32 \<Rightarrow> f32" where "f32_quiet b = b OR 0x00400000"

definition f32_scaled :: "int \<Rightarrow> f32 \<Rightarrow> int" where
  "f32_scaled k b = (if f32_neg b then - 1 else 1) * int (f32_sig b * pow_up (f32_pow b - k))"

definition f32_sub :: "f32 \<Rightarrow> f32 \<Rightarrow> f32" where
  "f32_sub a b =
     (if f32_nan a then f32_quiet a else if f32_nan b then f32_quiet b
      else if f32_inf a then (if f32_inf b \<and> f32_neg a = f32_neg b then f32_default_nan else a)
      else if f32_inf b then f32_minus b
      else let k = min (f32_pow a) (f32_pow b); d = f32_scaled k a - f32_scaled k b
           in if d = 0 then f32_make (f32_neg a \<and> \<not> f32_neg b) 0
              else f32_round (d < 0) (nat \<bar>d\<bar> * pow_up k) (pow_up (- k)))"

definition f32_add :: "f32 \<Rightarrow> f32 \<Rightarrow> f32" where
  "f32_add a b =
     (if f32_nan a then f32_quiet a else if f32_nan b then f32_quiet b
      else if f32_inf a then (if f32_inf b \<and> f32_neg a \<noteq> f32_neg b then f32_default_nan else a)
      else if f32_inf b then b
      else let k = min (f32_pow a) (f32_pow b); d = f32_scaled k a + f32_scaled k b
           in if d = 0 then f32_make (f32_neg a \<and> f32_neg b) 0
              else f32_round (d < 0) (nat \<bar>d\<bar> * pow_up k) (pow_up (- k)))"

definition f32_less :: "f32 \<Rightarrow> f32 \<Rightarrow> bool" where
  "f32_less a b =
     (if f32_nan a \<or> f32_nan b then False
      else if f32_inf a \<or> f32_inf b then
        (if f32_inf a then f32_neg a \<and> \<not> (f32_inf b \<and> f32_neg b) else \<not> f32_neg b)
      else let k = min (f32_pow a) (f32_pow b) in f32_scaled k a < f32_scaled k b)"

definition f32_eq :: "f32 \<Rightarrow> f32 \<Rightarrow> bool" where
  "f32_eq a b =
     (if f32_nan a \<or> f32_nan b then False
      else a = b \<or> f32_finite a \<and> f32_sig a = 0 \<and> f32_finite b \<and> f32_sig b = 0)"

text \<open>\<open>(double)x\<close> and \<open>(float)x\<close>.\<close>

definition f64_of_f32 :: "f32 \<Rightarrow> f64" where
  "f64_of_f32 b =
     (if f32_nan b then f64_make (f32_neg b) (0x7ff * 2 ^ 52 + f32_frac (f32_quiet b) * 2 ^ 29)
      else if f32_inf b then f64_infinity (f32_neg b)
      else f64_round (f32_neg b) (f32_sig b * pow_up (f32_pow b)) (pow_up (- f32_pow b)))"

definition f32_of_f64 :: "f64 \<Rightarrow> f32" where
  "f32_of_f64 b =
     (if f64_nan b then f32_quiet (f32_make (f64_neg b) (0xff * 2 ^ 23 + f64_frac b div 2 ^ 29))
      else if f64_inf b then f32_make (f64_neg b) (0xff * 2 ^ 23)
      else f32_round (f64_neg b) (f64_sig b * pow_up (f64_pow b)) (pow_up (- f64_pow b)))"

lemmas f32_eval = f32_round_def f32_make_def f32_neg_def f32_exp_def f32_frac_def f32_nan_def f32_inf_def f32_finite_def
  f32_sig_def f32_pow_def f32_minus_def f32_quiet_def f32_scaled_def f32_sub_def f32_add_def f32_less_def f32_eq_def
  f64_of_f32_def f32_of_f64_def

text \<open>Narrowing one third, the ends of the range, and back.\<close>

lemma f32_samples:
  "f32_of_f64 0x3FD5555555555555 = 0x3EAAAAAB"
  "f32_of_f64 0x47EFFFFFE0000000 = 0x7F7FFFFF" "f32_of_f64 0x47EFFFFFF0000000 = 0x7F800000"
  "f32_of_f64 0x3690000000000000 = 0" "f32_of_f64 0x3690000000000001 = 1"
  "f64_of_f32 0x00000001 = 0x36A0000000000000" "f64_of_f32 0xC0490FDB = 0xC00921FB60000000"
  by (simp_all add: f32_eval f64_eval cong: let_weak_cong)

end
