(* ===== verification/Float_Narrow.thy ===== *)
theory Float_Narrow
  imports Float_Parse Binary32
begin

section \<open>Single precision results (\<open>__mini_float_narrow\<close>, \<open>strtof\<close>)\<close>

text \<open>What \<open>scanf\<close> and \<open>strtof\<close> do with the \<open>double\<close> the parser has delivered: round once more and report a
  result that is out of the range of normal numbers.\<close>

definition MINI_FLOAT_SINGLE_MAX :: f64 where "MINI_FLOAT_SINGLE_MAX = f64_lit 34028234663852886 22"
definition MINI_FLOAT_SINGLE_MIN_NORMAL :: f64 where "MINI_FLOAT_SINGLE_MIN_NORMAL = f64_lit 11754943508222875 (- 54)"

text \<open>Whether the status is success (otherwise \<open>errno\<close> is set to \<open>ERANGE\<close>), and the number stored.\<close>

definition float_narrow :: "f64 \<Rightarrow> bool \<times> f32" where
  "float_narrow value =
     (if f64_exp value = 0x7ff then (True, f32_of_f64 value)
      else let magnitude = (if f64_less value 0 then f64_minus value else value); narrowed = f32_of_f64 value
        in if f64_less MINI_FLOAT_SINGLE_MAX magnitude \<or> \<not> f64_eq value 0 \<and> f32_eq narrowed 0 then (False, narrowed)
           else if \<not> f32_eq narrowed 0 \<and>
              f64_less (f64_of_f32 (if f32_less narrowed 0 then f32_minus narrowed else narrowed)) MINI_FLOAT_SINGLE_MIN_NORMAL
             then (False, narrowed)
           else (True, narrowed))"

text \<open>The number, \<open>*endptr\<close> and \<open>errno\<close>.\<close>

definition strtof :: "mem \<Rightarrow> addr \<Rightarrow> bool \<Rightarrow> int \<Rightarrow> (f32 \<times> addr option \<times> int) option" where
  "strtof m nptr endptr errno =
     map_option (\<lambda>(status, r).
        if status = MATCH_FAIL \<or> status = INPUT_FAIL then (0, sd_end r, sd_errno r)
        else let (ok, narrowed) = float_narrow (sd_value r) in (narrowed, sd_end r, if ok then sd_errno r else ERANGE))
       (parse_string m nptr endptr errno)"

lemma float_narrow_samples:
  "float_narrow 0x3FD5555555555555 = (True, 0x3EAAAAAB)" "float_narrow 0x47F0000000000000 = (False, 0x7F800000)"
  "float_narrow 0x3690000000000001 = (False, 1)" "float_narrow 0x3810000000000000 = (True, 0x00800000)"
  by (simp_all add: float_narrow_def MINI_FLOAT_SINGLE_MAX_def MINI_FLOAT_SINGLE_MIN_NORMAL_def f32_eval f64_eval cong: let_weak_cong)

end
