(* ===== verification/Scan.thy ===== *)
theory Scan
  imports Float_Narrow Wide_Format Format_Number
begin

unbundle bit_operations_syntax

section \<open>Formatted input (\<open>stdio/scan.c\<close>)\<close>

text \<open>
  The interpreter of format strings behind \<open>scanf\<close>, with its four sources: a stream, a string, a wide stream and
  a wide string. One state holds the source and the objects the conversions store to, which the
  \<open>restrict\<close> of the prototypes keeps apart from the format and the input: the bytes and the wide
  characters at the addresses the arguments give. Format and input are read only. Loops over the
  input and the format are partial functions.
\<close>

subsection \<open>Types\<close>

definition MINI_SCAN_WIDTH_MAX :: u32 where "MINI_SCAN_WIDTH_MAX = NOT 0"

record scan_args =
  scan_gp :: "nat \<Rightarrow> u64"
  scan_overflow :: "nat \<Rightarrow> u64"
  scan_overflow_next :: nat
  scan_gp_index :: nat
  scan_gp_count :: nat

datatype scan_length = SCAN_LEN_NONE | SCAN_LEN_HH | SCAN_LEN_H | SCAN_LEN_L | SCAN_LEN_LL

record scan_spec =
  suppress :: bool
  width_set :: bool
  scan_width :: u32
  scan_length :: scan_length
  scan_conversion :: byte
  set_negated :: bool
  set_begin :: addr
  set_end :: addr

datatype scan_status = SCAN_MATCH_FAIL | SCAN_SUCCESS | SCAN_INPUT_FAIL | SCAN_RANGE_FAIL

datatype scan_source_kind = SOURCE_FILE | SOURCE_STRING | SOURCE_WIDE_FILE | SOURCE_WIDE_STRING

text \<open>The source, the arguments still to come and what has been stored. \<open>errno\<close> is that of \<open>scan_io\<close>.\<close>

record 'k scan =
  scan_kind :: scan_source_kind
  scan_io :: "'k io"
  string_begin :: addr
  string_cursor :: addr
  wide_begin :: addr
  wide_cursor :: addr
  scan_utf8 :: bool
  scan_args :: scan_args
  bytes_stored :: mem
  wides_stored :: wmem

definition set_scan_errno :: "int \<Rightarrow> 'k scan \<Rightarrow> 'k scan" where
  "set_scan_errno e s = s\<lparr>scan_io := (scan_io s)\<lparr>io_errno := e\<rparr>\<rparr>"

definition scan_next_word :: "'k scan \<Rightarrow> u64 \<times> 'k scan" where
  "scan_next_word s =
     (let a = scan_args s
      in if scan_gp_index a < scan_gp_count a
         then (scan_gp a (scan_gp_index a), s\<lparr>scan_args := a\<lparr>scan_gp_index := scan_gp_index a + 1\<rparr>\<rparr>)
         else (scan_overflow a (scan_overflow_next a), s\<lparr>scan_args := a\<lparr>scan_overflow_next := scan_overflow_next a + 1\<rparr>\<rparr>))"

subsection \<open>Characters\<close>

definition is_scan_space :: "int \<Rightarrow> bool" where
  "is_scan_space c = (c = ch CHR '' '' \<or> c = 9 \<or> c = 10 \<or> c = 11 \<or> c = 12 \<or> c = 13)"

definition scan_is_digit :: "int \<Rightarrow> bool" where
  "scan_is_digit c = (ch CHR ''0'' \<le> c \<and> c \<le> ch CHR ''9'')"

definition is_float_conversion :: "int \<Rightarrow> bool" where
  "is_float_conversion c =
     (c = ch CHR ''f'' \<or> c = ch CHR ''F'' \<or> c = ch CHR ''e'' \<or> c = ch CHR ''E'' \<or>
      c = ch CHR ''g'' \<or> c = ch CHR ''G'' \<or> c = ch CHR ''a'' \<or> c = ch CHR ''A'')"

definition scan_digit_value :: "int \<Rightarrow> int" where
  "scan_digit_value c =
     (if ch CHR ''0'' \<le> c \<and> c \<le> ch CHR ''9'' then c - ch CHR ''0''
      else if ch CHR ''a'' \<le> c \<and> c \<le> ch CHR ''f'' then c - ch CHR ''a'' + 10
      else if ch CHR ''A'' \<le> c \<and> c \<le> ch CHR ''F'' then c - ch CHR ''A'' + 10
      else - 1)"

subsection \<open>Sources\<close>

definition source_is_wide :: "'k scan \<Rightarrow> bool" where
  "source_is_wide s = (scan_kind s = SOURCE_WIDE_FILE \<or> scan_kind s = SOURCE_WIDE_STRING)"

definition source_get :: "'k sys \<Rightarrow> mem \<Rightarrow> wmem \<Rightarrow> 'k scan \<Rightarrow> int \<times> 'k scan" where
  "source_get K m wm s =
     (case scan_kind s of
        SOURCE_FILE \<Rightarrow> let (v, c) = fgetc K (scan_io s) in (v, s\<lparr>scan_io := c\<rparr>)
      | SOURCE_WIDE_FILE \<Rightarrow>
          let (wc, c) = the (wide_read_character K (scan_io s))
          in (if wc = WEOF then c_EOF else sint wc, s\<lparr>scan_io := c\<rparr>)
      | SOURCE_WIDE_STRING \<Rightarrow>
          if wm (wide_cursor s) = 0 then (c_EOF, s)
          else (sint (wm (wide_cursor s)), s\<lparr>wide_cursor := wide_cursor s + 1\<rparr>)
      | SOURCE_STRING \<Rightarrow>
          if m (string_cursor s) = 0 then (c_EOF, s)
          else (int_of_byte (m (string_cursor s)), s\<lparr>string_cursor := string_cursor s + 1\<rparr>))"

definition source_unget :: "mem \<Rightarrow> wmem \<Rightarrow> int \<Rightarrow> 'k scan \<Rightarrow> int \<times> 'k scan" where
  "source_unget m wm v s =
     (case scan_kind s of
        SOURCE_FILE \<Rightarrow> let (r, c) = ungetc v (scan_io s) in (r, s\<lparr>scan_io := c\<rparr>)
      | SOURCE_WIDE_FILE \<Rightarrow>
          let (r, c) = wide_unget_character (word_of_int v) (scan_io s)
          in (if r = WEOF then c_EOF else sint r, s\<lparr>scan_io := c\<rparr>)
      | SOURCE_WIDE_STRING \<Rightarrow>
          if v = c_EOF \<or> wide_cursor s = wide_begin s \<or> wm (wide_cursor s - 1) \<noteq> word_of_int v then (c_EOF, s)
          else (v, s\<lparr>wide_cursor := wide_cursor s - 1\<rparr>)
      | SOURCE_STRING \<Rightarrow>
          if v = c_EOF \<or> string_cursor s = string_begin s \<or> m (string_cursor s - 1) \<noteq> uchar v then (c_EOF, s)
          else (int_of_byte (uchar v), s\<lparr>string_cursor := string_cursor s - 1\<rparr>))"

text \<open>The source of the floating parser.\<close>

definition scan_float_source :: "'k sys \<Rightarrow> mem \<Rightarrow> wmem \<Rightarrow> 'k scan float_source" where
  "scan_float_source K m wm =
     \<lparr>src_get = source_get K m wm, src_unget = source_unget m wm, src_mark = None, src_restore = None\<rparr>"

text \<open>A literal of the format as a character: the value and the cursor behind it, or failure with \<open>EILSEQ\<close>. It is
  tried for at most four bytes; \<open>used\<close> counts them.\<close>

function decode_literal_loop :: "mem \<Rightarrow> bool \<Rightarrow> addr \<Rightarrow> nat \<Rightarrow> mbstate \<Rightarrow> (int \<times> addr) option" where
  "decode_literal_loop m u cursor used st =
     (let byte = m (cursor + used)
      in if byte = 0 then None
         else let (converted, wc, st', e) = decode_byte u byte st
           in if converted = conv_error then None
              else if converted \<noteq> conv_incomplete then Some (sint (the wc), cursor + (used + 1))
              else if 4 \<le> used + 1 then None
              else decode_literal_loop m u cursor (used + 1) st')"
  by auto
termination
  by (relation "measure (\<lambda>(m, u, cursor, used, st). 4 - used)") auto

declare decode_literal_loop.simps [simp del]

definition decode_format_literal :: "mem \<Rightarrow> bool \<Rightarrow> addr \<Rightarrow> (int \<times> addr) option" where
  "decode_format_literal m u cursor = decode_literal_loop m u cursor 0 reset_state"

text \<open>The result of the source: -1 when a character cannot be put back.\<close>

partial_function (option) skip_input_space :: "'k sys \<Rightarrow> mem \<Rightarrow> wmem \<Rightarrow> 'k scan \<Rightarrow> (int \<times> 'k scan) option" where
  "skip_input_space K m wm s =
     (let (v, s1) = source_get K m wm s
      in if v = c_EOF then Some (0, s1)
         else if \<not> is_scan_space v then
           (let (r, s2) = source_unget m wm v s1 in Some (if r = c_EOF then - 1 else 1, s2))
         else skip_input_space K m wm s1)"

subsection \<open>Directives\<close>

partial_function (option) scan_width_loop :: "mem \<Rightarrow> addr \<Rightarrow> u32 \<Rightarrow> (int \<times> addr \<times> u32) option" where
  "scan_width_loop m p result =
     (if scan_is_digit (int_of_byte (m p)) then
        let digit = ucast (m p) - ch CHR ''0''
        in if (MINI_SCAN_WIDTH_MAX - digit) div 10 < result then Some (- 1, p, 0)
           else scan_width_loop m (p + 1) (result * 10 + digit)
      else if result = 0 then Some (- 1, p, 0)
      else Some (1, p, result))"

definition scan_parse_width :: "mem \<Rightarrow> addr \<Rightarrow> (int \<times> addr \<times> u32) option" where
  "scan_parse_width m p =
     (if \<not> scan_is_digit (int_of_byte (m p)) then Some (0, p, 0) else scan_width_loop m p 0)"

partial_function (option) set_end_loop :: "mem \<Rightarrow> addr \<Rightarrow> addr option" where
  "set_end_loop m p = (if m p \<noteq> 0 \<and> m p \<noteq> ch CHR '']'' then set_end_loop m (p + 1) else Some p)"

text \<open>\<^term>\<open>Some None\<close> is a rejected directive.\<close>

definition parse_scanset :: "mem \<Rightarrow> addr \<Rightarrow> scan_spec \<Rightarrow> (addr \<times> scan_spec) option option" where
  "parse_scanset m p spec =
     (let neg = (m p = ch CHR ''^''); p1 = (if neg then p + 1 else p);
          p2 = (if m p1 = ch CHR '']'' then p1 + 1 else p1)
      in map_option (\<lambda>p3.
           if m p3 \<noteq> ch CHR '']'' then None
           else Some (p3 + 1, spec\<lparr>set_negated := neg, set_begin := p1, set_end := p3\<rparr>)) (set_end_loop m p2))"

definition empty_scan_spec :: scan_spec where
  "empty_scan_spec = \<lparr>suppress = False, width_set = False, scan_width = 0, scan_length = SCAN_LEN_NONE,
     scan_conversion = 0, set_negated = False, set_begin = 0, set_end = 0\<rparr>"

definition scan_parse_length :: "mem \<Rightarrow> addr \<Rightarrow> addr \<times> scan_length" where
  "scan_parse_length m p =
     (if m p = ch CHR ''h'' then (if m (p + 1) = ch CHR ''h'' then (p + 2, SCAN_LEN_HH) else (p + 1, SCAN_LEN_H))
      else if m p = ch CHR ''l'' then (if m (p + 1) = ch CHR ''l'' then (p + 2, SCAN_LEN_LL) else (p + 1, SCAN_LEN_L))
      else (p, SCAN_LEN_NONE))"

text \<open>Which conversions a length may come with, once the directive is read.\<close>

definition conversion_accepted :: "scan_spec \<Rightarrow> bool" where
  "conversion_accepted spec =
     (let c = int_of_byte (scan_conversion spec); plain = (scan_length spec = SCAN_LEN_NONE \<or> scan_length spec = SCAN_LEN_L)
      in if c = ch CHR ''d'' \<or> c = ch CHR ''i'' \<or> c = ch CHR ''u'' \<or> c = ch CHR ''o'' \<or> c = ch CHR ''x'' \<or> c = ch CHR ''X'' then True
         else if is_float_conversion c then plain
         else if c = ch CHR ''c'' \<or> c = ch CHR ''s'' then plain
         else if c = ch CHR ''%'' then \<not> (suppress spec \<or> width_set spec \<or> scan_length spec \<noteq> SCAN_LEN_NONE)
         else False)"

definition scan_parse_spec :: "mem \<Rightarrow> addr \<Rightarrow> (addr \<times> scan_spec) option option" where
  "scan_parse_spec m p =
     (let sup = (m p = ch CHR ''*''); p1 = (if sup then p + 1 else p)
      in Option.bind (scan_parse_width m p1) (\<lambda>(result, p2, width).
           if result < 0 then Some None
           else let (p3, len) = scan_parse_length m p2;
                    spec = empty_scan_spec\<lparr>suppress := sup, width_set := result \<noteq> 0, scan_width := width, scan_length := len\<rparr>
             in if m p3 = ch CHR ''['' then
                  if len \<noteq> SCAN_LEN_NONE \<and> len \<noteq> SCAN_LEN_L then Some None
                  else parse_scanset m (p3 + 1) (spec\<lparr>scan_conversion := ch CHR ''[''\<rparr>)
                else if m p3 = 0 then Some None
                else let spec' = spec\<lparr>scan_conversion := m p3\<rparr>
                  in Some (if conversion_accepted spec' then Some (p3 + 1, spec') else None)))"

subsection \<open>Storing\<close>

definition signed_limit :: "scan_length \<Rightarrow> u64" where
  "signed_limit len =
     (if len = SCAN_LEN_HH then drop_bit 1 (ucast (NOT 0 :: 8 word))
      else if len = SCAN_LEN_H then drop_bit 1 (ucast (NOT 0 :: 16 word))
      else if len = SCAN_LEN_L then drop_bit 1 (NOT 0)
      else if len = SCAN_LEN_LL then drop_bit 1 (NOT 0)
      else ucast (drop_bit 1 (NOT 0 :: u32)))"

definition unsigned_limit :: "scan_length \<Rightarrow> u64" where
  "unsigned_limit len =
     (if len = SCAN_LEN_HH then ucast (NOT 0 :: 8 word)
      else if len = SCAN_LEN_H then ucast (NOT 0 :: 16 word)
      else if len = SCAN_LEN_L then NOT 0
      else if len = SCAN_LEN_LL then NOT 0
      else ucast (NOT 0 :: u32))"

text \<open>A number through a pointer, lowest byte first.\<close>

definition length_bytes :: "scan_length \<Rightarrow> nat" where
  "length_bytes len = (case len of SCAN_LEN_HH \<Rightarrow> 1 | SCAN_LEN_H \<Rightarrow> 2 | SCAN_LEN_L \<Rightarrow> 8 | SCAN_LEN_LL \<Rightarrow> 8 | SCAN_LEN_NONE \<Rightarrow> 4)"

definition word_bytes :: "nat \<Rightarrow> u64 \<Rightarrow> byte list" where
  "word_bytes n v = map (\<lambda>i. ucast (drop_bit (8 * i) v)) [0..<n]"

definition store_bytes :: "addr \<Rightarrow> byte list \<Rightarrow> 'k scan \<Rightarrow> 'k scan" where
  "store_bytes a bs s = s\<lparr>bytes_stored := write_bytes (bytes_stored s) a bs\<rparr>"

definition store_through_next :: "nat \<Rightarrow> u64 \<Rightarrow> 'k scan \<Rightarrow> 'k scan" where
  "store_through_next n v s = (let (word, s') = scan_next_word s in store_bytes (unat word) (word_bytes n v) s')"

definition assign_signed :: "scan_length \<Rightarrow> u64 \<Rightarrow> bool \<Rightarrow> 'k scan \<Rightarrow> bool \<times> 'k scan" where
  "assign_signed len magnitude neg s =
     (let limit = signed_limit len
      in if \<not> neg \<and> limit < magnitude \<or> neg \<and> limit + 1 < magnitude then (False, set_scan_errno ERANGE s)
         else let v = (if neg then if magnitude = 0 then 0 else - 1 - (magnitude - 1) else magnitude)
           in (True, store_through_next (length_bytes len) v s))"

definition assign_unsigned :: "scan_length \<Rightarrow> u64 \<Rightarrow> bool \<Rightarrow> 'k scan \<Rightarrow> bool \<times> 'k scan" where
  "assign_unsigned len magnitude neg s =
     (let limit = unsigned_limit len
      in if \<not> neg \<and> limit < magnitude then (False, set_scan_errno ERANGE s)
         else (True, store_through_next (length_bytes len) (if neg then 0 - magnitude else magnitude) s))"

definition assign_floating :: "scan_length \<Rightarrow> f64 \<Rightarrow> 'k scan \<Rightarrow> bool \<times> 'k scan" where
  "assign_floating len v s =
     (if len = SCAN_LEN_NONE then
        let (ok, narrowed) = float_narrow v
        in if \<not> ok then (False, set_scan_errno ERANGE s) else (True, store_through_next 4 (ucast narrowed) s)
      else (True, store_through_next 8 v s))"

subsection \<open>Numbers\<close>

definition scan_accumulate :: "u64 \<Rightarrow> u64 \<Rightarrow> u64 \<times> bool \<Rightarrow> u64 \<times> bool" where
  "scan_accumulate base digit = (\<lambda>(magnitude, overflow).
     if \<not> overflow then
       if (NOT 0 - digit) div base < magnitude then (magnitude, True) else (magnitude * base + digit, overflow)
     else (magnitude, overflow))"

text \<open>The digits from the character \<open>v\<close> on: the number, how many, and whether a character could be put back.\<close>

partial_function (option) scan_digits ::
  "'k sys \<Rightarrow> mem \<Rightarrow> wmem \<Rightarrow> u64 \<Rightarrow> int \<Rightarrow> u32 \<Rightarrow> u64 \<times> bool \<Rightarrow> u32 \<Rightarrow> 'k scan \<Rightarrow> ((bool \<times> (u64 \<times> bool) \<times> u32) \<times> 'k scan) option" where
  "scan_digits K m wm base v room number digits s =
     (let d = scan_digit_value v
      in if d < 0 \<or> uint base \<le> d then
           (let (r, s1) = source_unget m wm v s in Some ((r \<noteq> c_EOF, number, digits), s1))
         else
           let number' = scan_accumulate base (word_of_int d) number; room' = room - 1
           in if room' = 0 then Some ((True, number', digits + 1), s)
              else let (v', s1) = source_get K m wm s
                in if v' = c_EOF then Some ((True, number', digits + 1), s1)
                   else scan_digits K m wm base v' room' number' (digits + 1) s1)"

text \<open>Behind \<open>integer_done\<close>.\<close>

definition integer_done :: "scan_spec \<Rightarrow> bool \<Rightarrow> bool \<Rightarrow> (u64 \<times> bool) \<times> u32 \<Rightarrow> 'k scan \<Rightarrow> scan_status \<times> 'k scan" where
  "integer_done spec signed_conversion neg = (\<lambda>((magnitude, overflow), digits) s.
     if digits = 0 then (SCAN_MATCH_FAIL, s)
     else if suppress spec then (SCAN_SUCCESS, s)
     else if overflow then (SCAN_RANGE_FAIL, set_scan_errno ERANGE s)
     else let (ok, s') = (if signed_conversion then assign_signed (scan_length spec) magnitude neg s
                          else assign_unsigned (scan_length spec) magnitude neg s)
       in (if ok then SCAN_SUCCESS else SCAN_RANGE_FAIL, s'))"

text \<open>The digit loop and what follows it.\<close>

definition integer_digits ::
  "'k sys \<Rightarrow> mem \<Rightarrow> wmem \<Rightarrow> scan_spec \<Rightarrow> bool \<Rightarrow> bool \<Rightarrow> u64 \<Rightarrow> int \<Rightarrow> u32 \<Rightarrow> u64 \<times> bool \<Rightarrow> u32 \<Rightarrow> 'k scan \<Rightarrow> (scan_status \<times> 'k scan) option" where
  "integer_digits K m wm spec signed_conversion neg base v room number digits s =
     map_option (\<lambda>((ok, result), s1).
        if \<not> ok then (SCAN_INPUT_FAIL, s1) else integer_done spec signed_conversion neg result s1)
       (scan_digits K m wm base v room number digits s)"

text \<open>Behind the sign: the prefix, then the digits.\<close>

definition integer_prefix ::
  "'k sys \<Rightarrow> mem \<Rightarrow> wmem \<Rightarrow> scan_spec \<Rightarrow> u64 \<Rightarrow> bool \<Rightarrow> bool \<Rightarrow> int \<Rightarrow> u32 \<Rightarrow> 'k scan \<Rightarrow> (scan_status \<times> 'k scan) option" where
  "integer_prefix K m wm spec requested_base signed_conversion neg v room s =
     (let digits_from = integer_digits K m wm spec signed_conversion neg
      in if (requested_base = 0 \<or> requested_base = 16) \<and> v = ch CHR ''0'' \<and> 1 < room then
           let (nxt, s1) = source_get K m wm s
           in if nxt = ch CHR ''x'' \<or> nxt = ch CHR ''X'' then
                if room - 2 = 0 then Some (SCAN_MATCH_FAIL, s1)
                else let (v', s2) = source_get K m wm s1
                  in if v' = c_EOF then Some (SCAN_MATCH_FAIL, s2) else digits_from 16 v' (room - 2) (0, False) 0 s2
              else
                let base = (if requested_base = 0 then 8 else 16); number = scan_accumulate base 0 (0, False)
                in if nxt = c_EOF \<or> room - 1 = 0 then Some (integer_done spec signed_conversion neg (number, 1) s1)
                   else digits_from base nxt (room - 1) number 1 s1
         else digits_from (if requested_base = 0 then if v = ch CHR ''0'' then 8 else 10 else requested_base) v room (0, False) 0 s)"

definition scan_limit :: "scan_spec \<Rightarrow> u32" where
  "scan_limit spec = (if width_set spec then scan_width spec else MINI_SCAN_WIDTH_MAX)"

definition scan_integer ::
  "'k sys \<Rightarrow> mem \<Rightarrow> wmem \<Rightarrow> scan_spec \<Rightarrow> u64 \<Rightarrow> bool \<Rightarrow> 'k scan \<Rightarrow> (scan_status \<times> 'k scan) option" where
  "scan_integer K m wm spec requested_base signed_conversion s =
     Option.bind (skip_input_space K m wm s) (\<lambda>(skipped, s1).
       if skipped < 0 then Some (SCAN_INPUT_FAIL, s1)
       else let (v, s2) = source_get K m wm s1
         in if v = c_EOF then Some (SCAN_INPUT_FAIL, s2)
            else if v = ch CHR ''+'' \<or> v = ch CHR ''-'' then
              if scan_limit spec - 1 = 0 then Some (SCAN_MATCH_FAIL, s2)
              else let (v', s3) = source_get K m wm s2
                in if v' = c_EOF then Some (SCAN_MATCH_FAIL, s3)
                   else integer_prefix K m wm spec requested_base signed_conversion (v = ch CHR ''-'') v' (scan_limit spec - 1) s3
            else integer_prefix K m wm spec requested_base signed_conversion False v (scan_limit spec) s2)"

text \<open>\<open>errno\<close> is the parser's when the parser has set it, and it does so last.\<close>

definition scan_floating :: "'k sys \<Rightarrow> mem \<Rightarrow> wmem \<Rightarrow> scan_spec \<Rightarrow> 'k scan \<Rightarrow> (scan_status \<times> 'k scan) option" where
  "scan_floating K m wm spec s =
     map_option (\<lambda>(status, r).
        let s1 = (if rd_errno r = 0 then rd_context r else set_scan_errno (rd_errno r) (rd_context r))
        in case status of
             MATCH_FAIL \<Rightarrow> (SCAN_MATCH_FAIL, s1)
           | INPUT_FAIL \<Rightarrow> (SCAN_INPUT_FAIL, s1)
           | RANGE_FAIL \<Rightarrow> (SCAN_RANGE_FAIL, s1)
           | SUCCESS \<Rightarrow>
               if suppress spec then (SCAN_SUCCESS, s1)
               else let (ok, s2) = assign_floating (scan_length spec) (rd_result r) s1
                 in (if ok then SCAN_SUCCESS else SCAN_RANGE_FAIL, s2))
       (float_parse (scan_float_source K m wm) (ucast (scan_limit spec)) True PARSE_SCAN (\<not> suppress spec)
          \<lparr>rd_context = s, remaining = 0, rd_errno = 0, rd_result = 0\<rparr>)"

subsection \<open>Characters and strings\<close>

text \<open>The wide character that begins with \<open>first\<close>: a failure has set \<open>errno\<close> to \<open>EILSEQ\<close>.\<close>

partial_function (option) read_wide_loop ::
  "'k sys \<Rightarrow> mem \<Rightarrow> wmem \<Rightarrow> int \<Rightarrow> mbstate \<Rightarrow> 'k scan \<Rightarrow> ((wchar option \<times> mbstate) \<times> 'k scan) option" where
  "read_wide_loop K m wm v st s =
     (let (converted, wc, st', e) = decode_byte (scan_utf8 s) (uchar v) st
      in if converted = conv_error then Some ((None, st'), set_scan_errno EILSEQ s)
         else if converted \<noteq> conv_incomplete then Some ((wc, st'), s)
         else let (v', s1) = source_get K m wm s
           in if v' = c_EOF then Some ((None, st'), set_scan_errno EILSEQ s1)
              else read_wide_loop K m wm v' st' s1)"

definition scan_read_wide ::
  "'k sys \<Rightarrow> mem \<Rightarrow> wmem \<Rightarrow> int \<Rightarrow> mbstate \<Rightarrow> 'k scan \<Rightarrow> ((wchar option \<times> mbstate) \<times> 'k scan) option" where
  "scan_read_wide K m wm first st s =
     (if source_is_wide s then Some ((Some (word_of_int first), st), s) else read_wide_loop K m wm first st s)"

text \<open>A destination is a byte address; the wide object it points to counts in units of \<open>wchar_t\<close>, as
  \<^const>\<open>wide_pointer\<close> does for arguments.\<close>

definition wide_slot :: "addr \<Rightarrow> addr" where "wide_slot destination = destination div 4"

text \<open>\<open>store_character\<close>: the destination (null when nothing is stored), its index, the shift state.\<close>

definition store_character ::
  "'k sys \<Rightarrow> mem \<Rightarrow> wmem \<Rightarrow> scan_length \<Rightarrow> addr \<Rightarrow> nat \<Rightarrow> int \<Rightarrow> mbstate \<Rightarrow> 'k scan \<Rightarrow> ((bool \<times> nat \<times> mbstate) \<times> 'k scan) option" where
  "store_character K m wm len destination index v st s =
     (if destination = 0 then
        if len = SCAN_LEN_L \<and> \<not> source_is_wide s then
          map_option (\<lambda>((wc, st'), s1). ((wc \<noteq> None, index, st'), s1)) (scan_read_wide K m wm v st s)
        else Some ((True, index, st), s)
      else if len = SCAN_LEN_L then
        map_option (\<lambda>((wc, st'), s1). case wc of
             None \<Rightarrow> ((False, index, st'), s1)
           | Some w \<Rightarrow> ((True, index + 1, st'), s1\<lparr>wides_stored := (wides_stored s1)(wide_slot destination + index := w)\<rparr>))
          (scan_read_wide K m wm v st s)
      else if source_is_wide s then
        (case encode (scan_utf8 s) (word_of_int v) of
           None \<Rightarrow> Some ((False, index, reset_state), set_scan_errno EILSEQ s)
         | Some bytes \<Rightarrow> Some ((True, index + length bytes, reset_state), store_bytes (destination + index) bytes s))
      else Some ((True, index + 1, st), store_bytes (destination + index) [uchar v] s))"

definition terminate_sequence :: "scan_length \<Rightarrow> addr \<Rightarrow> nat \<Rightarrow> 'k scan \<Rightarrow> 'k scan" where
  "terminate_sequence len destination count s =
     (if len = SCAN_LEN_L then s\<lparr>wides_stored := (wides_stored s)(wide_slot destination + count := 0)\<rparr>
      else store_bytes (destination + count) [0] s)"

text \<open>Where the conversion stores: the next argument unless it is suppressed.\<close>

definition scan_destination :: "scan_spec \<Rightarrow> 'k scan \<Rightarrow> addr \<times> 'k scan" where
  "scan_destination spec s = (if suppress spec then (0, s) else let (word, s') = scan_next_word s in (unat word, s'))"

text \<open>The loop of \<open>%s\<close> and \<open>%[\<close> from a character that belongs to the sequence. \<open>belongs\<close> is \<^term>\<open>None\<close> when the scanset
  cannot be decoded; the state it returns carries \<open>errno\<close>.\<close>

partial_function (option) sequence_loop ::
  "'k sys \<Rightarrow> mem \<Rightarrow> wmem \<Rightarrow> ('k scan \<Rightarrow> int \<Rightarrow> bool option \<times> 'k scan) \<Rightarrow> scan_length \<Rightarrow> addr \<Rightarrow> nat \<Rightarrow> u32 \<Rightarrow> int \<Rightarrow> mbstate \<Rightarrow> 'k scan \<Rightarrow>
     ((bool \<times> nat) \<times> 'k scan) option" where
  "sequence_loop K m wm belongs len destination index room v st s =
     Option.bind (store_character K m wm len destination index v st s) (\<lambda>((ok, index', st'), s1).
       if \<not> ok then Some ((False, index'), s1)
       else if room - 1 = 0 then Some ((True, index'), s1)
       else let (v', s2) = source_get K m wm s1
         in if v' = c_EOF then Some ((True, index'), s2)
            else let (b, s3) = belongs s2 v'
              in if b = None then Some ((False, index'), s3)
                 else if b = Some False then
                   (let (r, s4) = source_unget m wm v' s3 in Some ((r \<noteq> c_EOF, index'), s4))
                 else sequence_loop K m wm belongs len destination index' (room - 1) v' st' s3)"

definition scan_sequence ::
  "'k sys \<Rightarrow> mem \<Rightarrow> wmem \<Rightarrow> ('k scan \<Rightarrow> int \<Rightarrow> bool option \<times> 'k scan) \<Rightarrow> scan_spec \<Rightarrow> 'k scan \<Rightarrow> (scan_status \<times> 'k scan) option" where
  "scan_sequence K m wm belongs spec s =
     (let (v, s1) = source_get K m wm s
      in if v = c_EOF then Some (SCAN_INPUT_FAIL, s1)
         else let (b, s2) = belongs s1 v
           in if b = None then Some (SCAN_INPUT_FAIL, s2)
              else if b = Some False then
                (let (r, s3) = source_unget m wm v s2 in Some (if r = c_EOF then SCAN_INPUT_FAIL else SCAN_MATCH_FAIL, s3))
              else let (destination, s3) = scan_destination spec s2
                in map_option (\<lambda>((ok, count), s4).
                     if \<not> ok then (SCAN_INPUT_FAIL, s4)
                     else (SCAN_SUCCESS, if suppress spec then s4 else terminate_sequence (scan_length spec) destination count s4))
                     (sequence_loop K m wm belongs (scan_length spec) destination 0 (scan_limit spec) v reset_state s3))"

definition scan_string :: "'k sys \<Rightarrow> mem \<Rightarrow> wmem \<Rightarrow> scan_spec \<Rightarrow> 'k scan \<Rightarrow> (scan_status \<times> 'k scan) option" where
  "scan_string K m wm spec s =
     Option.bind (skip_input_space K m wm s) (\<lambda>(skipped, s1).
       if skipped < 0 then Some (SCAN_INPUT_FAIL, s1)
       else scan_sequence K m wm (\<lambda>s v. (Some (\<not> is_scan_space v), s)) spec s1)"

text \<open>\<open>%c\<close>: \<open>left\<close> characters are still to come.\<close>

partial_function (option) characters_loop ::
  "'k sys \<Rightarrow> mem \<Rightarrow> wmem \<Rightarrow> scan_length \<Rightarrow> addr \<Rightarrow> nat \<Rightarrow> u32 \<Rightarrow> mbstate \<Rightarrow> 'k scan \<Rightarrow> (scan_status \<times> 'k scan) option" where
  "characters_loop K m wm len destination index left st s =
     (if left \<noteq> 0 then
        let (v, s1) = source_get K m wm s
        in if v = c_EOF then Some (SCAN_INPUT_FAIL, s1)
           else Option.bind (store_character K m wm len destination index v st s1) (\<lambda>((ok, index', st'), s2).
             if \<not> ok then Some (SCAN_INPUT_FAIL, s2)
             else characters_loop K m wm len destination index' (left - 1) st' s2)
      else Some (SCAN_SUCCESS, s))"

definition scan_characters :: "'k sys \<Rightarrow> mem \<Rightarrow> wmem \<Rightarrow> scan_spec \<Rightarrow> 'k scan \<Rightarrow> (scan_status \<times> 'k scan) option" where
  "scan_characters K m wm spec s =
     (let (destination, s1) = scan_destination spec s
      in characters_loop K m wm (scan_length spec) destination 0 (if width_set spec then scan_width spec else 1) reset_state s1)"

subsection \<open>Scansets\<close>

text \<open>\<^term>\<open>None\<close> at the end of the set; \<^term>\<open>Some None\<close> a failure with \<open>EILSEQ\<close>; otherwise the code point and the cursor.\<close>

definition decode_scanset_codepoint :: "mem \<Rightarrow> bool \<Rightarrow> addr \<Rightarrow> addr \<Rightarrow> (int \<times> addr) option option" where
  "decode_scanset_codepoint m u cursor fin =
     (if fin \<le> cursor then None
      else if \<not> u then Some (Some (int_of_byte (m cursor), cursor + 1))
      else case decode_format_literal m True cursor of
          None \<Rightarrow> Some None
        | Some (v, cursor') \<Rightarrow> Some (if fin < cursor' then None else Some (v, cursor')))"

function set_bytes_loop :: "mem \<Rightarrow> addr \<Rightarrow> byte \<Rightarrow> addr \<Rightarrow> bool \<Rightarrow> bool" where
  "set_bytes_loop m fin b p matched =
     (if p < fin then
        if 3 \<le> fin - p \<and> m (p + 1) = ch CHR ''-'' \<and> m p \<le> m (p + 2) then
          set_bytes_loop m fin b (p + 3) (matched \<or> m p \<le> b \<and> b \<le> m (p + 2))
        else set_bytes_loop m fin b (p + 1) (matched \<or> b = m p)
      else matched)"
  by auto
termination
  by (relation "measure (\<lambda>(m, fin, b, p, matched). fin - p)") auto

declare set_bytes_loop.simps [simp del]

definition scanset_contains_bytes :: "mem \<Rightarrow> scan_spec \<Rightarrow> int \<Rightarrow> bool" where
  "scanset_contains_bytes m spec v =
     (if v < 0 \<or> 0xff < v then set_negated spec
      else let matched = set_bytes_loop m (set_end spec) (uchar v) (set_begin spec) False
        in if set_negated spec then \<not> matched else matched)"

lemma decode_literal_advances: "decode_literal_loop m u cursor used st = Some (v, cursor') \<Longrightarrow> cursor < cursor'"
proof (induction m u cursor used st rule: decode_literal_loop.induct)
  case (1 m u cursor used st)
  show ?case using 1(2) 1(1) by (subst (asm) decode_literal_loop.simps) (auto simp: Let_def split: if_splits prod.splits)
qed

lemma decode_scanset_advances: "decode_scanset_codepoint m u cursor fin = Some (Some (v, cursor')) \<Longrightarrow> cursor < cursor'"
  by (auto simp: decode_scanset_codepoint_def decode_format_literal_def dest: decode_literal_advances split: if_splits option.splits)

function set_wide_loop :: "mem \<Rightarrow> bool \<Rightarrow> addr \<Rightarrow> int \<Rightarrow> addr \<Rightarrow> bool \<Rightarrow> bool option" where
  "set_wide_loop m u fin v p matched =
     (if p < fin then
        (case decode_scanset_codepoint m u p fin of
           None \<Rightarrow> None
         | Some None \<Rightarrow> None
         | Some (Some (first, after_first)) \<Rightarrow>
             (case decode_scanset_codepoint m u after_first fin of
                None \<Rightarrow> set_wide_loop m u fin v after_first (matched \<or> v = first)
              | Some None \<Rightarrow> None
              | Some (Some (dash, after_dash)) \<Rightarrow>
                  if dash = ch CHR ''-'' then
                    (case decode_scanset_codepoint m u after_dash fin of
                       None \<Rightarrow> set_wide_loop m u fin v after_first (matched \<or> v = first)
                     | Some None \<Rightarrow> None
                     | Some (Some (last_point, after_last)) \<Rightarrow>
                         if first \<le> last_point then
                           set_wide_loop m u fin v after_last (matched \<or> first \<le> v \<and> v \<le> last_point)
                         else set_wide_loop m u fin v after_first (matched \<or> v = first))
                  else set_wide_loop m u fin v after_first (matched \<or> v = first)))
      else Some matched)"
  by auto
termination
  by (relation "measure (\<lambda>(m, u, fin, v, p, matched). fin - p)") (auto dest!: decode_scanset_advances)

declare set_wide_loop.simps [simp del]

definition scanset_contains_wide :: "mem \<Rightarrow> bool \<Rightarrow> scan_spec \<Rightarrow> int \<Rightarrow> bool option" where
  "scanset_contains_wide m u spec v =
     map_option (\<lambda>matched. if set_negated spec then \<not> matched else matched)
       (set_wide_loop m u (set_end spec) v (set_begin spec) False)"

definition scanset_contains :: "mem \<Rightarrow> scan_spec \<Rightarrow> 'k scan \<Rightarrow> int \<Rightarrow> bool option \<times> 'k scan" where
  "scanset_contains m spec s v =
     (if source_is_wide s then
        (case scanset_contains_wide m (scan_utf8 s) spec v of
           None \<Rightarrow> (None, set_scan_errno EILSEQ s)
         | Some b \<Rightarrow> (Some b, s))
      else (Some (scanset_contains_bytes m spec v), s))"

definition scan_scanset :: "'k sys \<Rightarrow> mem \<Rightarrow> wmem \<Rightarrow> scan_spec \<Rightarrow> 'k scan \<Rightarrow> (scan_status \<times> 'k scan) option" where
  "scan_scanset K m wm spec s = scan_sequence K m wm (scanset_contains m spec) spec s"

subsection \<open>The interpreter\<close>

definition match_literal :: "'k sys \<Rightarrow> mem \<Rightarrow> wmem \<Rightarrow> int \<Rightarrow> 'k scan \<Rightarrow> scan_status \<times> 'k scan" where
  "match_literal K m wm expected s =
     (let (v, s1) = source_get K m wm s
      in if v = c_EOF then (SCAN_INPUT_FAIL, s1)
         else if v \<noteq> expected then
           (let (r, s2) = source_unget m wm v s1 in (if r = c_EOF then SCAN_INPUT_FAIL else SCAN_MATCH_FAIL, s2))
         else (SCAN_SUCCESS, s1))"

definition handle_status :: "scan_status \<Rightarrow> int \<Rightarrow> int" where
  "handle_status st assignments = (if st = SCAN_INPUT_FAIL then if assignments = 0 then c_EOF else assignments else assignments)"

partial_function (option) format_space_end :: "mem \<Rightarrow> addr \<Rightarrow> addr option" where
  "format_space_end m p = (if is_scan_space (int_of_byte (m p)) then format_space_end m (p + 1) else Some p)"

definition scan_conversion_step :: "'k sys \<Rightarrow> mem \<Rightarrow> wmem \<Rightarrow> scan_spec \<Rightarrow> 'k scan \<Rightarrow> (scan_status \<times> 'k scan) option" where
  "scan_conversion_step K m wm spec s =
     (let c = int_of_byte (scan_conversion spec)
      in if c = ch CHR ''%'' then Some (match_literal K m wm (ch CHR ''%'') s)
         else if c = ch CHR ''d'' then scan_integer K m wm spec 10 True s
         else if c = ch CHR ''i'' then scan_integer K m wm spec 0 True s
         else if c = ch CHR ''u'' then scan_integer K m wm spec 10 False s
         else if c = ch CHR ''o'' then scan_integer K m wm spec 8 False s
         else if c = ch CHR ''x'' \<or> c = ch CHR ''X'' then scan_integer K m wm spec 16 False s
         else if is_float_conversion c then scan_floating K m wm spec s
         else if c = ch CHR ''s'' then scan_string K m wm spec s
         else if c = ch CHR ''['' then scan_scanset K m wm spec s
         else scan_characters K m wm spec s)"

partial_function (option) scan_dispatch :: "'k sys \<Rightarrow> mem \<Rightarrow> wmem \<Rightarrow> addr \<Rightarrow> int \<Rightarrow> 'k scan \<Rightarrow> (int \<times> 'k scan) option" where
  "scan_dispatch K m wm cursor assignments s =
     (if m cursor = 0 then Some (assignments, s)
      else if is_scan_space (int_of_byte (m cursor)) then
        Option.bind (format_space_end m cursor) (\<lambda>cursor'.
        Option.bind (skip_input_space K m wm s) (\<lambda>(skipped, s1).
          if skipped < 0 then Some (handle_status SCAN_INPUT_FAIL assignments, s1)
          else scan_dispatch K m wm cursor' assignments s1))
      else if m cursor \<noteq> ch CHR ''%'' then
        (case (if source_is_wide s then decode_format_literal m (scan_utf8 s) cursor
               else Some (int_of_byte (m cursor), cursor + 1)) of
           None \<Rightarrow> Some (c_EOF, set_scan_errno EILSEQ s)
         | Some (expected, cursor') \<Rightarrow>
             let (st, s1) = match_literal K m wm expected s
             in if st \<noteq> SCAN_SUCCESS then Some (handle_status st assignments, s1)
                else scan_dispatch K m wm cursor' assignments s1)
      else Option.bind (scan_parse_spec m (cursor + 1)) (\<lambda>parsed. case parsed of
          None \<Rightarrow> Some (c_EOF, set_scan_errno EINVAL s)
        | Some (cursor', spec) \<Rightarrow>
            Option.bind (scan_conversion_step K m wm spec s) (\<lambda>(st, s1).
              if st \<noteq> SCAN_SUCCESS then Some (handle_status st assignments, s1)
              else scan_dispatch K m wm cursor'
                (if scan_conversion spec \<noteq> ch CHR ''%'' \<and> \<not> suppress spec then assignments + 1 else assignments) s1)))"

subsection \<open>The entries\<close>

text \<open>The objects stored to, before and after a call, with \<open>errno\<close> in the stream's state. Null arguments are
  \<^term>\<open>None\<close>, a null format or input is 0.\<close>

definition scan_start :: "scan_source_kind \<Rightarrow> 'k io \<Rightarrow> addr \<Rightarrow> addr \<Rightarrow> bool \<Rightarrow> scan_args \<Rightarrow> mem \<Rightarrow> wmem \<Rightarrow> 'k scan" where
  "scan_start kind c text_begin wide u args stored wides =
     \<lparr>scan_kind = kind, scan_io = c, string_begin = text_begin, string_cursor = text_begin, wide_begin = wide, wide_cursor = wide,
      scan_utf8 = u, scan_args = args, bytes_stored = stored, wides_stored = wides\<rparr>"

type_synonym 'k scan_call = "addr \<Rightarrow> scan_args option \<Rightarrow> mem \<Rightarrow> wmem \<Rightarrow> 'k io \<Rightarrow> (int \<times> mem \<times> wmem \<times> 'k io) option"

definition scan_result :: "(int \<times> 'k scan) option \<Rightarrow> (int \<times> mem \<times> wmem \<times> 'k io) option" where
  "scan_result r = map_option (\<lambda>(n, s). (n, bytes_stored s, wides_stored s, scan_io s)) r"

text \<open>On a stream that is not null.\<close>

definition mini_scan_dispatch :: "'k sys \<Rightarrow> mem \<Rightarrow> wmem \<Rightarrow> bool \<Rightarrow> 'k scan_call" where
  "mini_scan_dispatch K m wm u format args stored wides c =
     (if \<not> readable_stream (strm c) then Some (c_EOF, stored, wides, mark_error EINVAL c)
      else case args of
          None \<Rightarrow> Some (c_EOF, stored, wides, c\<lparr>io_errno := EINVAL\<rparr>)
        | Some a \<Rightarrow>
            if format = 0 then Some (c_EOF, stored, wides, c\<lparr>io_errno := EINVAL\<rparr>)
            else scan_result (scan_dispatch K m wm format 0 (scan_start SOURCE_FILE c 0 0 u a stored wides)))"

definition mini_sscan_dispatch :: "'k sys \<Rightarrow> mem \<Rightarrow> wmem \<Rightarrow> bool \<Rightarrow> addr \<Rightarrow> 'k scan_call" where
  "mini_sscan_dispatch K m wm u input format args stored wides c =
     (case args of
        None \<Rightarrow> Some (c_EOF, stored, wides, c\<lparr>io_errno := EINVAL\<rparr>)
      | Some a \<Rightarrow>
          if input = 0 \<or> format = 0 then Some (c_EOF, stored, wides, c\<lparr>io_errno := EINVAL\<rparr>)
          else scan_result (scan_dispatch K m wm format 0 (scan_start SOURCE_STRING c input 0 u a stored wides)))"

definition mini_wscan_dispatch :: "'k sys \<Rightarrow> mem \<Rightarrow> wmem \<Rightarrow> 'k scan_call" where
  "mini_wscan_dispatch K m wm format args stored wides c =
     (if \<not> readable_stream (strm c) then Some (c_EOF, stored, wides, mark_error EINVAL c)
      else case args of
          None \<Rightarrow> Some (c_EOF, stored, wides, c\<lparr>io_errno := EINVAL\<rparr>)
        | Some a \<Rightarrow>
            if format = 0 then Some (c_EOF, stored, wides, c\<lparr>io_errno := EINVAL\<rparr>)
            else scan_result (scan_dispatch K m wm format 0 (scan_start SOURCE_WIDE_FILE c 0 0 (wide_utf8 c) a stored wides)))"

definition mini_wsscan_dispatch :: "'k sys \<Rightarrow> mem \<Rightarrow> wmem \<Rightarrow> bool \<Rightarrow> addr \<Rightarrow> 'k scan_call" where
  "mini_wsscan_dispatch K m wm u input format args stored wides c =
     (case args of
        None \<Rightarrow> Some (c_EOF, stored, wides, c\<lparr>io_errno := EINVAL\<rparr>)
      | Some a \<Rightarrow>
          if input = 0 \<or> format = 0 then Some (c_EOF, stored, wides, c\<lparr>io_errno := EINVAL\<rparr>)
          else scan_result (scan_dispatch K m wm format 0 (scan_start SOURCE_WIDE_STRING c 0 input u a stored wides)))"

text \<open>The locking wrapper asks for byte orientation (\<open>scan_sync.c\<close>).\<close>

definition pub_scan_dispatch ::
  "bool \<Rightarrow> 'k sys \<Rightarrow> mem \<Rightarrow> wmem \<Rightarrow> nat \<Rightarrow> addr \<Rightarrow> scan_args option \<Rightarrow> mem \<Rightarrow> wmem \<Rightarrow> 'k world \<Rightarrow> ((int \<times> mem \<times> wmem) \<times> 'k world) option" where
  "pub_scan_dispatch u K m wm p format args stored wides =
     with_byte_opt u p (c_EOF, stored, wides)
       (\<lambda>c. map_option (\<lambda>(n, stored', wides', c'). ((n, stored', wides'), c')) (mini_scan_dispatch K m wm u format args stored wides c))"

text \<open>Wide formats are encoded first (\<open>wchar/wide_scan.c\<close>); \<open>narrow\<close> is what \<open>malloc\<close> returned. The argument list comes
  from the entry code.\<close>

definition vfwscanf ::
  "bool \<Rightarrow> 'k sys \<Rightarrow> mem \<Rightarrow> wmem \<Rightarrow> nat \<Rightarrow> addr \<Rightarrow> scan_args \<Rightarrow> addr \<Rightarrow> mem \<Rightarrow> wmem \<Rightarrow> 'k world \<Rightarrow> ((int \<times> mem \<times> wmem) \<times> 'k world) option" where
  "vfwscanf u K m wm p format args narrow stored wides w =
     (let (r, w1) = require_wide u p w
      in if r = c_EOF then Some ((c_EOF, stored, wides), w1)
         else on_file_opt (\<lambda>c.
           Option.bind (encode_wide_format wm format (wide_utf8 c) narrow) (\<lambda>coded. case coded of
               Inl e \<Rightarrow> Some ((c_EOF, stored, wides), c\<lparr>io_errno := e\<rparr>)
             | Inr bytes \<Rightarrow>
                 map_option (\<lambda>(n, stored', wides', c'). ((n, stored', wides'), c'))
                   (mini_wscan_dispatch K (write_bytes m narrow (bytes @ [0])) wm narrow (Some args) stored wides c))) p w1)"

definition vswscanf ::
  "bool \<Rightarrow> 'k sys \<Rightarrow> mem \<Rightarrow> wmem \<Rightarrow> addr \<Rightarrow> addr \<Rightarrow> scan_args \<Rightarrow> addr \<Rightarrow> mem \<Rightarrow> wmem \<Rightarrow> 'k io \<Rightarrow> (int \<times> mem \<times> wmem \<times> 'k io) option" where
  "vswscanf u K m wm input format args narrow stored wides c =
     (if input = 0 then Some (c_EOF, stored, wides, c\<lparr>io_errno := EINVAL\<rparr>)
      else Option.bind (encode_wide_format wm format u narrow) (\<lambda>coded. case coded of
          Inl e \<Rightarrow> Some (c_EOF, stored, wides, c\<lparr>io_errno := e\<rparr>)
        | Inr bytes \<Rightarrow>
            mini_wsscan_dispatch K (write_bytes m narrow (bytes @ [0])) wm u input narrow (Some args) stored wides c))"

subsection \<open>Scanning a string\<close>

definition at_string :: "'k scan \<Rightarrow> addr \<Rightarrow> 'k scan" where
  "at_string s p = s\<lparr>string_cursor := p\<rparr>"

lemma at_string_sel [simp]:
  "scan_kind (at_string s p) = scan_kind s" "string_begin (at_string s p) = string_begin s" "string_cursor (at_string s p) = p"
  "at_string (at_string s p) q = at_string s q" "at_string s (string_cursor s) = s"
  by (simp_all add: at_string_def)

lemma get_string:
  assumes "scan_kind s = SOURCE_STRING"
  shows "m p = 0 \<Longrightarrow> source_get K m wm (at_string s p) = (c_EOF, at_string s p)"
    "m p \<noteq> 0 \<Longrightarrow> source_get K m wm (at_string s p) = (int_of_byte (m p), at_string s (p + 1))"
  using assms by (simp_all add: source_get_def) (simp_all add: at_string_def)

lemma byte_not_EOF [simp]: "int_of_byte b \<noteq> c_EOF"
proof -
  have "0 \<le> int_of_byte b" by (rule byte_range)
  then show ?thesis unfolding c_EOF_def by linarith
qed

lemma unget_string:
  assumes "scan_kind s = SOURCE_STRING" "string_begin s \<le> p"
  shows "source_unget m wm (int_of_byte (m p)) (at_string s (p + 1)) = (int_of_byte (m p), at_string s p)"
  using assms by (simp add: source_unget_def) (simp add: at_string_def)

lemma int_of_byte_eq:
  assumes "0 \<le> k" "k < 256"
  shows "int_of_byte b = k \<longleftrightarrow> b = word_of_int k"
proof -
  have "int_of_byte (word_of_int k) = k" using assms by (simp add: uint_word_of_int)
  then show ?thesis by (metis word_of_int_uint)
qed

lemma scan_space_byte: "is_scan_space (int_of_byte b) = is_c_space b"
  by (simp add: is_scan_space_def is_c_space_def int_of_byte_eq)

lemma sign_byte:
  "int_of_byte b = ch CHR ''+'' \<longleftrightarrow> b = ch CHR ''+''" "int_of_byte b = ch CHR ''-'' \<longleftrightarrow> b = ch CHR ''-''"
  by (simp_all add: int_of_byte_eq)

lemma skip_input_space_string:
  assumes "scan_kind s = SOURCE_STRING" "cstr_at m p xs" "string_begin s \<le> p"
  shows "\<exists>r. skip_input_space K m wm (at_string s p) = Some (r, at_string s (p + length (takeWhile is_c_space xs))) \<and> 0 \<le> r"
  using assms(2,3)
proof (induction xs arbitrary: p)
  case Nil
  then show ?case using get_string [OF assms(1), of m p] by (subst skip_input_space.simps) simp
next
  case (Cons x xs)
  then have x: "m p = x" "x \<noteq> 0" "cstr_at m (p + 1) xs" by simp_all
  show ?case
  proof (cases "is_c_space x")
    case True
    from Cons.IH [OF x(3)] Cons.prems(2) obtain r where
      "skip_input_space K m wm (at_string s (p + 1)) = Some (r, at_string s (p + 1 + length (takeWhile is_c_space xs)))" "0 \<le> r" by auto
    then show ?thesis using x True get_string [OF assms(1), of m p] by (subst skip_input_space.simps) (simp add: scan_space_byte)
  next
    case False
    then show ?thesis using x get_string [OF assms(1), of m p] unget_string [OF assms(1), of p m] Cons.prems(2) byte_range(1) [of x]
      by (subst skip_input_space.simps) (simp add: scan_space_byte)
  qed
qed

text \<open>The digits of base 10 are those of \<open>strtol\<close>.\<close>

lemma scan_digit_byte:
  "scan_digit_value (int_of_byte b) < 0 \<or> 10 \<le> scan_digit_value (int_of_byte b) \<longleftrightarrow> \<not> is_digit_in 10 b"
  "is_digit_in 10 b \<Longrightarrow> scan_digit_value (int_of_byte b) = digit_value b"
proof -
  have le: "uint (c - d) = uint c - uint d" if "d \<le> c" for c d :: byte
    using that by (simp add: uint_sub_if' word_le_def)
  show "scan_digit_value (int_of_byte b) < 0 \<or> 10 \<le> scan_digit_value (int_of_byte b) \<longleftrightarrow> \<not> is_digit_in 10 b"
    by (auto simp: scan_digit_value_def is_digit_in_def digit_value_def le word_le_def)
  show "is_digit_in 10 b \<Longrightarrow> scan_digit_value (int_of_byte b) = digit_value b"
    by (auto simp: scan_digit_value_def is_digit_in_def digit_value_def le word_le_def split: if_splits)
qed

definition accumulate_all :: "u64 \<times> bool \<Rightarrow> byte list \<Rightarrow> u64 \<times> bool" where
  "accumulate_all = foldl (\<lambda>number d. scan_accumulate 10 (word_of_int (digit_value d)) number)"

lemma scan_digits_string:
  assumes "scan_kind s = SOURCE_STRING"
  shows "cstr_at m p xs \<Longrightarrow> xs \<noteq> [] \<Longrightarrow> string_begin s \<le> p \<Longrightarrow> length xs < unat room \<Longrightarrow>
    scan_digits K m wm 10 (int_of_byte (m p)) room number k (at_string s (p + 1)) =
      Some ((True, accumulate_all number (takeWhile (is_digit_in 10) xs), k + of_nat (length (takeWhile (is_digit_in 10) xs))),
        at_string s (p + length (takeWhile (is_digit_in 10) xs)))"
proof (induction xs arbitrary: p room number k)
  case (Cons x xs)
  then have x: "m p = x" "x \<noteq> 0" "cstr_at m (p + 1) xs" by simp_all
  define d where "d = scan_digit_value (int_of_byte x)"
  have stop: "(d < 0 \<or> 10 \<le> d) = (\<not> is_digit_in 10 x)" "is_digit_in 10 x \<Longrightarrow> d = digit_value x"
    using scan_digit_byte [of x] by (simp_all add: d_def)
  have unf: "scan_digits K m wm 10 (int_of_byte (m p)) room number k (at_string s (p + 1)) =
     (if d < 0 \<or> 10 \<le> d then
        (let (r, s1) = source_unget m wm (int_of_byte x) (at_string s (p + 1)) in Some ((r \<noteq> c_EOF, number, k), s1))
      else
        let number' = scan_accumulate 10 (word_of_int d) number
        in if room - 1 = 0 then Some ((True, number', k + 1), at_string s (p + 1))
           else let (v', s1) = source_get K m wm (at_string s (p + 1))
             in if v' = c_EOF then Some ((True, number', k + 1), s1)
                else scan_digits K m wm 10 v' (room - 1) number' (k + 1) s1)"
    by (subst scan_digits.simps) (simp add: x(1) d_def Let_def)
  show ?case
  proof (cases "is_digit_in 10 x")
    case False
    then show ?thesis unfolding unf using stop unget_string [OF assms(1) Cons.prems(3), of m wm] x(1) by (simp add: accumulate_all_def)
  next
    case True
    have room: "room - 1 \<noteq> 0" "length xs < unat (room - 1)"
      using Cons.prems(4) by (auto simp: unat_minus_one unat_eq_0 [symmetric])
    show ?thesis
    proof (cases xs)
      case Nil
      then have "m (p + 1) = 0" using x(3) by simp
      then show ?thesis unfolding unf using stop room(1) get_string(1) [OF assms(1), of m "p + 1"] True Nil by (simp add: accumulate_all_def)
    next
      case (Cons y ys)
      then have ne: "m (p + 1) \<noteq> 0" "xs \<noteq> []" using x(3) by simp_all
      note ih = Cons.IH [OF x(3) ne(2) _ room(2), of "scan_accumulate 10 (word_of_int (digit_value x)) number" "k + 1"]
      show ?thesis unfolding unf using True stop room(1) get_string(2) [OF assms(1), of m "p + 1"] ne(1) ih Cons.prems(3)
        by (simp add: accumulate_all_def)
    qed
  qed
qed simp

lemma accumulate_all_value:
  assumes "\<forall>d \<in> set ds. is_digit_in 10 d"
  shows "accumulate_all (v, True) ds = (v, True)"
    "let N = foldl (\<lambda>v d. v * 10 + nat (digit_value d)) (unat v) ds in
       \<exists>w. accumulate_all (v, False) ds = (w, 2 ^ 64 \<le> N) \<and> (N < 2 ^ 64 \<longrightarrow> unat w = N)"
proof -
  show "accumulate_all (v, True) ds = (v, True)"
    by (induction ds) (simp_all add: accumulate_all_def scan_accumulate_def)
  then have over: "accumulate_all (u, True) es = (u, True)" for u es
    by (induction es) (simp_all add: accumulate_all_def scan_accumulate_def)
  show "let N = foldl (\<lambda>v d. v * 10 + nat (digit_value d)) (unat v) ds in
       \<exists>w. accumulate_all (v, False) ds = (w, 2 ^ 64 \<le> N) \<and> (N < 2 ^ 64 \<longrightarrow> unat w = N)"
    using assms
  proof (induction ds arbitrary: v)
    case Nil
    have "unat v < 2 ^ LENGTH(64)" by (rule unsigned_less)
    then show ?case by (simp add: accumulate_all_def)
  next
    case (Cons d ds)
    define q where "q = (word_of_int (digit_value d) :: u64)"
    have dv: "0 \<le> digit_value d" "digit_value d < 10" using Cons.prems by (auto simp: is_digit_in_def)
    have q: "unat q = nat (digit_value d)" unfolding q_def by (rule unat_of_small_int) (use dv in simp_all)
    have lim: "unat (NOT 0 :: u64) = 2 ^ 64 - 1" by (simp add: unsigned_minus_1_eq_mask mask_eq_exp_minus_1)
    have ten: "unat (10 :: u64) = 10" by simp
    have iff: "(NOT 0 - q) div 10 < v \<longleftrightarrow> 2 ^ 64 - 1 < unat v * 10 + unat q"
      using accumulate_overflow_iff [of q "NOT 0" 10 v] unfolding lim ten by simp
    show ?case
    proof (cases "(NOT 0 - q) div 10 < v")
      case True
      then have "2 ^ 64 \<le> unat v * 10 + nat (digit_value d)" using iff q by simp
      also have "\<dots> \<le> foldl (\<lambda>v d. v * 10 + nat (digit_value d)) (unat v * 10 + nat (digit_value d)) ds"
        by (rule foldl_digits_ge) simp
      finally show ?thesis using True over [of v ds]
        by (simp add: accumulate_all_def scan_accumulate_def q_def [symmetric])
    next
      case False
      have "unat (v * 10 + q) = unat v * unat (10 :: u64) + unat q"
        by (rule accumulate_exact [where limit = "NOT 0"]) (unfold lim ten, use False iff in linarith)
      then have "unat (v * 10 + q) = unat v * 10 + nat (digit_value d)" using q by simp
      then show ?thesis using Cons.IH [of "v * 10 + q"] Cons.prems False
        by (simp add: accumulate_all_def scan_accumulate_def q_def [symmetric])
    qed
  qed
qed


text \<open>A number that fits its object is stored, and one that does not sets \<open>errno\<close>.\<close>

definition scanned_integer :: "scan_length \<Rightarrow> int \<Rightarrow> 'k scan \<Rightarrow> scan_status \<times> 'k scan" where
  "scanned_integer len v s =
     (let n = length_bytes len
      in if - (2 ^ (8 * n - 1)) \<le> v \<and> v < 2 ^ (8 * n - 1) then (SCAN_SUCCESS, store_through_next n (word_of_int v) s)
         else (SCAN_RANGE_FAIL, set_scan_errno ERANGE s))"

lemma signed_limit_value: "unat (signed_limit len) = 2 ^ (8 * length_bytes len - 1) - 1"
  by (cases len) (simp_all add: signed_limit_def length_bytes_def unsigned_ucast_eq unsigned_drop_bit_eq drop_bit_eq_div unsigned_minus_1_eq_mask mask_eq_exp_minus_1)

lemma length_bytes_range: "1 \<le> length_bytes len" "length_bytes len \<le> 8"
  by (cases len; simp add: length_bytes_def)+

lemma assign_signed_value:
  assumes "unat w = N"
  shows "(let (ok, s') = assign_signed len w neg s in (if ok then SCAN_SUCCESS else SCAN_RANGE_FAIL, s')) =
    scanned_integer len (signed_val neg N) s"
proof -
  define b where "b = 8 * length_bytes len - 1"
  have b: "b \<le> 63" using length_bytes_range [of len] by (simp add: b_def)
  then have "(2 :: nat) ^ b \<le> 2 ^ 63" by (rule power_increasing) simp
  moreover have lim: "unat (signed_limit len) = 2 ^ b - 1" unfolding b_def by (rule signed_limit_value)
  ultimately have lim1: "unat (signed_limit len + 1) = 2 ^ b" by (simp add: unat_word_ariths)
  have big: "signed_limit len < w \<longleftrightarrow> 2 ^ b \<le> N" by (auto simp: word_less_nat_alt lim assms less_eq_Suc_le)
  have big1: "signed_limit len + 1 < w \<longleftrightarrow> 2 ^ b < N" by (simp add: word_less_nat_alt lim1 assms)
  have bad: "(\<not> neg \<and> signed_limit len < w \<or> neg \<and> signed_limit len + 1 < w) \<longleftrightarrow>
      \<not> (- (2 ^ b) \<le> signed_val neg N \<and> signed_val neg N < 2 ^ b)"
  proof -
    have "- (2 ^ b) \<le> int N" by (rule order_trans [of _ 0]) simp_all
    moreover have "- int N < 2 ^ b" by (rule le_less_trans [of _ 0]) simp_all
    moreover have "2 ^ b \<le> N \<longleftrightarrow> (2 :: int) ^ b \<le> int N" "2 ^ b < N \<longleftrightarrow> (2 :: int) ^ b < int N" by simp_all
    ultimately show ?thesis unfolding big big1 by (cases neg) (simp_all add: signed_val_def not_le not_less)
  qed
  have w: "w = word_of_int (int N)" by (simp add: assms [symmetric])
  have val: "(if neg then if w = 0 then 0 else - 1 - (w - 1) else w) = word_of_int (signed_val neg N)"
    by (auto simp: signed_val_def w)
  show ?thesis
    unfolding assign_signed_def scanned_integer_def Let_def b_def [symmetric] bad val by simp
qed

text \<open>The digits of a number, up to the byte that is not one.\<close>

lemma integer_digits_string:
  assumes "scan_kind s = SOURCE_STRING" "cstr_at m p xs" "string_begin s \<le> p" "length xs < unat room" "\<not> suppress spec"
    and "takeWhile (is_digit_in 10) xs = ds" "ds \<noteq> []"
  shows "integer_prefix K m wm spec 10 True neg (int_of_byte (m p)) room (at_string s (p + 1)) =
    Some (scanned_integer (scan_length spec) (signed_val neg (digits_val 10 ds)) (at_string s (p + length ds)))"
proof -
  define N where "N = foldl (\<lambda>v d. v * 10 + nat (digit_value d)) (0 :: nat) ds"
  have N: "digits_val 10 ds = N" by (simp add: digits_val_def N_def)
  have "\<forall>d \<in> set ds. is_digit_in 10 d" using assms(6) by (metis set_takeWhileD)
  from accumulate_all_value(2) [OF this, of 0] obtain w where
    w: "accumulate_all (0, False) ds = (w, 2 ^ 64 \<le> N)" "N < 2 ^ 64 \<longrightarrow> unat w = N"
    by (auto simp: N_def Let_def)
  have room: "unat room < 2 ^ LENGTH(32)" by (rule unsigned_less)
  have "length ds < 2 ^ LENGTH(32)"
    using assms(4) length_takeWhile_le [of "is_digit_in 10" xs] room unfolding assms(6) by linarith
  then have "unat (of_nat (length ds) :: u32) = length ds" by (simp add: unat_of_nat take_bit_nat_eq_self)
  then have k: "(of_nat (length ds) :: u32) \<noteq> 0" using assms(7) by auto
  have xs: "xs \<noteq> []" using assms(6,7) by auto
  have "scan_digits K m wm 10 (int_of_byte (m p)) room (0, False) 0 (at_string s (p + 1)) =
      Some ((True, (w, 2 ^ 64 \<le> N), of_nat (length ds)), at_string s (p + length ds))"
    using scan_digits_string [OF assms(1,2) xs assms(3,4), of K wm "(0, False)" 0] unfolding assms(6) w(1) by simp
  then have run: "integer_prefix K m wm spec 10 True neg (int_of_byte (m p)) room (at_string s (p + 1)) =
      Some (integer_done spec True neg ((w, 2 ^ 64 \<le> N), of_nat (length ds)) (at_string s (p + length ds)))"
    by (simp add: integer_prefix_def integer_digits_def)
  show ?thesis
  proof (cases "2 ^ 64 \<le> N")
    case True
    define b where "b = 8 * length_bytes (scan_length spec) - 1"
    have "(2 :: int) ^ b \<le> 2 ^ 63"
      using length_bytes_range [of "scan_length spec"] by (intro power_increasing) (auto simp: b_def)
    moreover have "(2 :: int) ^ 64 \<le> int N" using True by simp
    moreover have "(2 :: int) ^ 63 < 2 ^ 64" by simp
    ultimately have "(2 :: int) ^ b < int N" by (metis le_less_trans less_le_trans)
    then have "\<not> (- (2 ^ b) \<le> signed_val neg N \<and> signed_val neg N < 2 ^ b)"
      unfolding signed_val_def by (smt (verit) zero_le_power)
    then show ?thesis unfolding run N scanned_integer_def Let_def b_def [symmetric] using k assms(5) True by (simp add: integer_done_def)
  next
    case False
    then show ?thesis using assign_signed_value [of w N] w(2) k assms(5) unfolding run N by (simp add: integer_done_def)
  qed
qed

text \<open>Scanning a decimal integer from a string (\<open>%d\<close> without a width) agrees with \<open>strtol\<close>: it takes
  white space, a sign and the digits \<open>strtol\<close> takes, leaves the cursor after the last digit, and
  stores the value through the argument in the object's width, lowest byte first; a value outside
  the object's range stores nothing and sets \<open>ERANGE\<close>.\<close>

lemma scan_integer_agrees_with_strtol:
  assumes "scan_kind s = SOURCE_STRING" "string_begin s \<le> string_cursor s" "cstr_at m (string_cursor s) xs"
    and "strto_parse 10 xs = (neg, b, ds, rest)" "ds \<noteq> []" "\<not> width_set spec" "\<not> suppress spec" "length xs < 2 ^ 32 - 2"
  shows "scan_integer K m wm spec 10 True s =
    Some (scanned_integer (scan_length spec) (signed_val neg (digits_val 10 ds))
      (at_string s (string_cursor s + length xs - length rest)))"
proof -
  define sp where "sp = length (takeWhile is_c_space xs)"
  define r0 where "r0 = dropWhile is_c_space xs"
  define p where "p = string_cursor s + sp"
  obtain neg' r where sg: "split_sign r0 = (neg', r)" by fastforce
  then have ds: "neg' = neg" "ds = takeWhile (is_digit_in 10) r" "rest = dropWhile (is_digit_in 10) r"
    using assms(4) by (simp_all add: strto_parse_def r0_def [symmetric] split_base_def)
  have len0: "length xs = sp + length r0" unfolding sp_def r0_def by (metis length_append takeWhile_dropWhile_id)
  have len: "length r = length ds + length rest" unfolding ds by (metis length_append takeWhile_dropWhile_id)
  have at: "cstr_at m p r0"
  proof -
    have "sp \<le> length xs" unfolding sp_def by (rule length_takeWhile_le)
    from cstr_at_drop [OF assms(3) this] show ?thesis
      unfolding p_def r0_def sp_def dropWhile_eq_drop [symmetric] .
  qed
  have lim: "unat (scan_limit spec) = 2 ^ 32 - 1" "unat (scan_limit spec - 1) = 2 ^ 32 - 2"
    using assms(6) by (simp_all add: scan_limit_def MINI_SCAN_WIDTH_MAX_def unsigned_minus_1_eq_mask mask_eq_exp_minus_1)
  have start: "string_begin s \<le> p" using assms(2) by (simp add: p_def)
  obtain skipped where skip: "skip_input_space K m wm s = Some (skipped, at_string s p)" "0 \<le> skipped"
    using skip_input_space_string [OF assms(1,3,2), of K wm] by (auto simp: p_def sp_def)
  have r: "r \<noteq> []" using ds(2) assms(5) by auto
  show ?thesis
  proof (cases "r0 = r")
    case True
    then obtain x r' where x: "r0 = x # r'" using r by (cases r0) auto
    then have plain: "x \<noteq> ch CHR ''+''" "x \<noteq> ch CHR ''-''" "neg = False"
      using sg ds(1) True by (auto simp: split_sign_def split: if_splits)
    have mp: "m p = x" "m p \<noteq> 0" using at x by simp_all
    have get: "source_get K m wm (at_string s p) = (int_of_byte (m p), at_string s (p + 1))"
      by (rule get_string(2)) (fact assms(1) mp(2))+
    have "length r0 < unat (scan_limit spec)" using lim(1) len0 assms(8) by linarith
    from integer_digits_string [OF assms(1) at start this assms(7) _ assms(5), of K wm False]
    have "integer_prefix K m wm spec 10 True False (int_of_byte (m p)) (scan_limit spec) (at_string s (p + 1)) =
        Some (scanned_integer (scan_length spec) (signed_val neg (digits_val 10 ds)) (at_string s (p + length ds)))"
      using ds(2) True plain by simp
    moreover have "string_cursor s + length xs - length rest = p + length ds" using len0 len True by (simp add: p_def)
    moreover have "scan_integer K m wm spec 10 True s =
        integer_prefix K m wm spec 10 True False (int_of_byte (m p)) (scan_limit spec) (at_string s (p + 1))"
      unfolding scan_integer_def skip(1) bind.bind_lunit split get using skip(2) sign_byte [of "m p"] plain(1,2) mp(1)
      by (simp only: Let_def split byte_not_EOF if_False not_less [symmetric] simp_thms)
    ultimately show ?thesis by simp
  next
    case False
    then obtain x where x: "r0 = x # r" "x = ch CHR ''+'' \<or> x = ch CHR ''-''" "neg = (x = ch CHR ''-'')"
      using sg ds(1) by (auto simp: split_sign_def split: list.splits if_splits)
    have mp: "m p = x" "m p \<noteq> 0" and at1: "cstr_at m (p + 1) r" using at x by simp_all
    then have mp1: "m (p + 1) \<noteq> 0" using r by (cases r) auto
    have get: "source_get K m wm (at_string s p) = (int_of_byte (m p), at_string s (p + 1))"
      "source_get K m wm (at_string s (p + 1)) = (int_of_byte (m (p + 1)), at_string s (p + 1 + 1))"
      by (rule get_string(2); fact assms(1) mp(2) mp1)+
    have "length r < unat (scan_limit spec - 1)" using lim(2) len0 assms(8) x(1) by simp
    from integer_digits_string [OF assms(1) at1 _ this assms(7) _ assms(5), of K wm neg]
    have "integer_prefix K m wm spec 10 True neg (int_of_byte (m (p + 1))) (scan_limit spec - 1) (at_string s (p + 1 + 1)) =
        Some (scanned_integer (scan_length spec) (signed_val neg (digits_val 10 ds)) (at_string s (p + 1 + length ds)))"
      using ds(2) start by simp
    moreover have "string_cursor s + length xs - length rest = p + 1 + length ds" using len0 len x(1) by (simp add: p_def)
    moreover have "scan_limit spec - 1 \<noteq> 0" using lim(2) by auto
    then have "scan_integer K m wm spec 10 True s =
        integer_prefix K m wm spec 10 True neg (int_of_byte (m (p + 1))) (scan_limit spec - 1) (at_string s (p + 1 + 1))"
      unfolding scan_integer_def skip(1) bind.bind_lunit split get Let_def using skip(2) sign_byte [of "m p"] x(2,3) mp(1)
      by (simp only: Let_def split get byte_not_EOF if_False if_True not_less [symmetric] simp_thms)
    ultimately show ?thesis by simp
  qed
qed

definition next_pointer :: "scan_args \<Rightarrow> addr" where
  "next_pointer a = unat (if scan_gp_index a < scan_gp_count a then scan_gp a (scan_gp_index a) else scan_overflow a (scan_overflow_next a))"

lemma store_through_next_sel:
  "bytes_stored (store_through_next n v s) = write_bytes (bytes_stored s) (next_pointer (scan_args s)) (word_bytes n v)"
  "wides_stored (store_through_next n v s) = wides_stored s" "scan_io (store_through_next n v s) = scan_io s"
  by (simp_all add: store_through_next_def scan_next_word_def store_bytes_def next_pointer_def Let_def)

lemma percent_not_space: "\<not> is_scan_space (int_of_byte (ch CHR ''%''))"
  by (simp add: is_scan_space_def)

text \<open>A call with one directive.\<close>

lemma scan_dispatch_one:
  assumes "m f = ch CHR ''%''" "scan_parse_spec m (f + 1) = Some (Some (q, spec))" "m q = 0"
    and "scan_conversion spec = ch CHR ''d''" "\<not> suppress spec" "scan_integer K m wm spec 10 True s = Some (status, s')"
  shows "scan_dispatch K m wm f 0 s =
    (if status = SCAN_SUCCESS then Some (1, s') else Some (handle_status status 0, s'))"
proof -
  have step: "scan_conversion_step K m wm spec s = Some (status, s')"
    using assms(6) by (simp add: scan_conversion_step_def assms(4))
  have fin: "scan_dispatch K m wm q 1 s' = Some (1, s')"
    by (subst scan_dispatch.simps) (simp add: assms(3))
  have "m f \<noteq> 0" "\<not> is_scan_space (int_of_byte (m f))" unfolding assms(1) using percent_not_space by simp_all
  then show ?thesis
    by (subst scan_dispatch.simps) (simp add: assms(1,2,4,5) step fin [simplified] del: One_nat_def)
qed

text \<open>C37. \<open>sscanf\<close> with one directive \<open>%d\<close>, \<open>%hhd\<close>, \<open>%hd\<close>, \<open>%ld\<close> or \<open>%lld\<close> agrees with \<open>strtol\<close>: on a string in
  which \<open>strtol\<close> finds digits it returns 1 and stores the value \<open>strtol\<close> finds through its argument,
  lowest byte first in the width of the object, and nothing else; when the value does not fit the
  object, nothing is stored, \<open>errno\<close> is \<open>ERANGE\<close> and 0 is returned.\<close>

theorem sscanf_agrees_with_strtol:
  assumes "m f = ch CHR ''%''" "scan_parse_spec m (f + 1) = Some (Some (q, spec))" "m q = 0"
    and "scan_conversion spec = ch CHR ''d''" "\<not> suppress spec" "\<not> width_set spec"
    and "cstr_at m p xs" "strto_parse 10 xs = (neg, b, ds, rest)" "ds \<noteq> []" "length xs < 2 ^ 32 - 2" "p \<noteq> 0" "f \<noteq> 0"
  shows "mini_sscan_dispatch K m wm u p f (Some a) stored wides c =
    (let v = signed_val neg (digits_val 10 ds); n = length_bytes (scan_length spec)
     in Some (if - (2 ^ (8 * n - 1)) \<le> v \<and> v < 2 ^ (8 * n - 1)
              then (1, write_bytes stored (next_pointer a) (word_bytes n (word_of_int v)), wides, c)
              else (0, stored, wides, c\<lparr>io_errno := ERANGE\<rparr>)))"
proof -
  define s where "s = scan_start SOURCE_STRING c p 0 u a stored wides"
  have s: "scan_kind s = SOURCE_STRING" "string_begin s = p" "string_cursor s = p" "scan_args s = a"
    "bytes_stored s = stored" "wides_stored s = wides" "scan_io s = c"
    by (simp_all add: s_def scan_start_def)
  define s1 where "s1 = at_string s (p + length xs - length rest)"
  have s1: "scan_args s1 = a" "bytes_stored s1 = stored" "wides_stored s1 = wides" "scan_io s1 = c"
    using s by (simp_all add: s1_def at_string_def)
  have r: "scan_integer K m wm spec 10 True s = Some (scanned_integer (scan_length spec) (signed_val neg (digits_val 10 ds)) s1)"
    using scan_integer_agrees_with_strtol [OF s(1) _ _ assms(8,9,6,5,10), of m K wm] assms(7) by (simp add: s(2,3) s1_def)
  show ?thesis
    using scan_dispatch_one [OF assms(1-5) trans [OF r arg_cong [OF surjective_pairing, of Some]]] assms(11,12)
    by (simp add: mini_sscan_dispatch_def s_def [symmetric] scanned_integer_def Let_def scan_result_def store_through_next_sel s1
        set_scan_errno_def handle_status_def)
qed

text \<open>C36. What \<open>%d\<close> or \<open>%i\<close> prints into a buffer that has room for it, with any flags, width, precision and length
  modifier, \<open>%d\<close> without a width scans: reading the buffer stores the argument that was printed, provided
  the object scanned into can hold it. The one argument left out is the value 0 under precision 0, for
  which no digit is printed and so nothing can be scanned.\<close>

theorem printed_integer_scans_back:
  assumes "conversion spec \<in> {ch CHR ''d'', ch CHR ''i''}" "next_signed a (spec_length spec) = (v, a')"
    and "spec_width spec \<le> MINI_PRINTF_INT_MAX" "precision spec \<le> MINI_PRINTF_INT_MAX"
    and "\<not> (precision_set spec \<and> precision spec = 0 \<and> v = 0)"
    and "length (number_text spec (nat \<bar>v\<bar>) (v < 0) 10 False True) < n"
    and "length (number_text spec (nat \<bar>v\<bar>) (v < 0) 10 False True) \<le> unat MINI_PRINTF_INT_MAX"
    and "scan_kind src = SOURCE_STRING" "string_begin src = 0" "string_cursor src = 0" "\<not> width_set into" "\<not> suppress into"
    and "- (2 ^ (8 * length_bytes (scan_length into) - 1)) \<le> v" "v < 2 ^ (8 * length_bytes (scan_length into) - 1)"
  shows "\<exists>s p. snd (emit_conversion K m wm spec a) (memory_sink c buf n u8 wide) = Some (True, s) \<and>
    scan_integer K' (sink_buffer s) wm' into 10 True src =
      Some (SCAN_SUCCESS, store_through_next (length_bytes (scan_length into)) (word_of_int v) (at_string src p))"
proof -
  define t :: "byte list" where "t = number_text spec (nat \<bar>v\<bar>) (v < 0) 10 False True"
  have nz: "\<not> (precision_set spec \<and> precision spec = 0 \<and> nat \<bar>v\<bar> = 0)" using assms(5) by auto
  obtain ds i where p: "strto_parse 10 t = (v < 0, 10, ds, replicate i (ch CHR '' ''))"
    "digits_val 10 ds = nat \<bar>v\<bar>" "ds \<noteq> []" "0 \<notin> set t"
    unfolding t_def by (rule number_text_parse [OF nz])
  obtain s where s: "snd (emit_conversion K m wm spec a) (memory_sink c buf n u8 wide) = Some (True, s)"
    "cstr_at (sink_buffer s) 0 t"
    using emits_to_buffer [OF emits_signed [OF assms(1-4)] assms(6,7) p(4) [unfolded t_def]] unfolding t_def by blast
  have len: "length t < 2 ^ 32 - 2" using assms(7) by (simp add: t_def MINI_PRINTF_INT_MAX_def)
  have "signed_val (v < 0) (digits_val 10 ds) = v" by (simp add: p(2) signed_val_def)
  then have "scan_integer K' (sink_buffer s) wm' into 10 True src =
      Some (scanned_integer (scan_length into) v (at_string src (0 + length t - length (replicate i (ch CHR '' '') :: byte list))))"
    using scan_integer_agrees_with_strtol [OF assms(8) _ _ p(1,3) assms(11,12) len, of "sink_buffer s" K' wm'] s(2)
    by (simp only: assms(9,10) order_refl)
  then show ?thesis using s(1) assms(13,14) by (auto simp: scanned_integer_def Let_def)
qed

subsection \<open>Examples\<close>

text \<open>The memory with the format \<open>%hd\<close> at 1 and the input \<open> -70x\<close> or \<open>70000\<close> at 8.\<close>

definition scan_example :: mem where
  "scan_example = write_bytes (write_bytes (\<lambda>_. 0) 1 (bytes_of ''%hd'')) 8 (bytes_of '' -70x'')"

definition scan_example_args :: scan_args where
  "scan_example_args = \<lparr>scan_gp = \<lambda>_. 32, scan_overflow = \<lambda>_. 0, scan_overflow_next = 0, scan_gp_index = 3, scan_gp_count = 6\<rparr>"

theorem sscanf_agrees_with_strtol_witness:
  "mini_sscan_dispatch pipe_kernel scan_example (\<lambda>_. 0) False 8 1 (Some scan_example_args) (\<lambda>_. 7) (\<lambda>_. 0) (example_io 0 []) =
    Some (1, (\<lambda>_. 7)(32 := 186, 33 := 255), \<lambda>_. 0, example_io 0 [])"
proof -
  define spec where "spec = empty_scan_spec\<lparr>scan_length := SCAN_LEN_H, scan_conversion := ch CHR ''d''\<rparr>"
  have spec: "scan_conversion spec = ch CHR ''d''" "\<not> suppress spec" "\<not> width_set spec" "scan_length spec = SCAN_LEN_H"
    by (simp_all add: spec_def empty_scan_spec_def)
  have parsed: "scan_parse_spec scan_example (1 + 1) = Some (Some (4, spec))"
    by (simp add: scan_parse_spec_def scan_example_def scan_parse_width_def scan_parse_length_def Let_def spec_def empty_scan_spec_def
        conversion_accepted_def scan_is_digit_def)
  have input: "cstr_at scan_example 8 (bytes_of '' -70x'')"
    by (simp add: scan_example_def)
  have digits: "strto_parse 10 (bytes_of '' -70x'') = (True, 10, [55, 48], [120])"
    by (simp add: strto_parse_def split_sign_def split_base_def is_c_space_def is_digit_in_def digit_value_def word_le_def)
  have bytes: "word_bytes 2 (- 70) = [186, 255]"
    by code_simp
  have "(let v = signed_val True (digits_val 10 [55, 48]); n = length_bytes SCAN_LEN_H
      in Some (if - (2 ^ (8 * n - 1)) \<le> v \<and> v < 2 ^ (8 * n - 1)
               then (1, write_bytes (\<lambda>_. 7) (next_pointer scan_example_args) (word_bytes n (word_of_int v)), \<lambda>_. 0, example_io 0 [])
               else (0, \<lambda>_. 7, \<lambda>_. 0, (example_io 0 [])\<lparr>io_errno := ERANGE\<rparr>))) =
      Some (1 :: int, (\<lambda>_. 7)(32 := 186, 33 := 255), \<lambda>_. 0, example_io 0 [])"
    by (simp add: length_bytes_def signed_val_def digits_val_def digit_value_def word_le_def next_pointer_def scan_example_args_def bytes)
  moreover have "scan_example 1 = ch CHR ''%''" "scan_example 4 = 0" by (simp_all add: scan_example_def)
  ultimately show ?thesis
    using parsed input digits sscanf_agrees_with_strtol [of scan_example 1 4 spec 8 "bytes_of '' -70x''" True 10 "[55, 48]" "[120]" pipe_kernel "\<lambda>_. 0" False
      scan_example_args "\<lambda>_. 7" "\<lambda>_. 0" "example_io 0 []"]
    by (simp add: spec)
qed

theorem printed_integer_scans_back_witness:
  "\<exists>s p. snd (emit_conversion pipe_kernel (\<lambda>_. 0) (\<lambda>_. 0) d_spec (example_args (- 5)))
      (memory_sink (example_io 0 []) (\<lambda>_. 7) 3 False False) = Some (True, s) \<and>
    scan_integer pipe_kernel (sink_buffer s) (\<lambda>_. 0) empty_scan_spec 10 True
        (scan_start SOURCE_STRING (example_io 0 []) 0 0 False scan_example_args (\<lambda>_. 7) (\<lambda>_. 0)) =
      Some (SCAN_SUCCESS, store_through_next 4 (- 5)
        (at_string (scan_start SOURCE_STRING (example_io 0 []) 0 0 False scan_example_args (\<lambda>_. 7) (\<lambda>_. 0)) p))"
  using printed_integer_scans_back [OF _ example_next, of 3
      "scan_start SOURCE_STRING (example_io 0 []) 0 0 False scan_example_args (\<lambda>_. 7) (\<lambda>_. 0)" empty_scan_spec
      pipe_kernel "\<lambda>_. 0" "\<lambda>_. 0" "example_io 0 []" "\<lambda>_. 7" False False pipe_kernel "\<lambda>_. 0"]
  by (simp add: example_text MINI_PRINTF_INT_MAX_def scan_start_def empty_scan_spec_def length_bytes_def)

end
