(* ===== verification/Fenv.thy ===== *)
theory Fenv
  imports Prelude
begin

unbundle bit_operations_syntax

section \<open>The floating-point environment\<close>

text \<open>
  \<open>fenv/fenv.c\<close>. The state is what \<open>__mini_fenv_read\<close> and \<open>__mini_fenv_write\<close> transfer: the control word and the
  exception flags of the x87 unit and the \<open>MXCSR\<close> register; only six flags of the status word are ever
  written. An operation returns its result and the registers after it; a null pointer is \<^term>\<open>None\<close>.
\<close>

subsection \<open>Definitions\<close>

record fenv =
  x87_control :: "16 word"
  x87_exceptions :: "16 word"
  mxcsr :: u32

definition FE_INVALID :: u32 where "FE_INVALID = 0x01"
definition FE_DIVBYZERO :: u32 where "FE_DIVBYZERO = 0x04"
definition FE_OVERFLOW :: u32 where "FE_OVERFLOW = 0x08"
definition FE_UNDERFLOW :: u32 where "FE_UNDERFLOW = 0x10"
definition FE_INEXACT :: u32 where "FE_INEXACT = 0x20"
definition FE_ALL_EXCEPT :: u32 where
  "FE_ALL_EXCEPT = FE_INVALID OR FE_DIVBYZERO OR FE_OVERFLOW OR FE_UNDERFLOW OR FE_INEXACT"

definition FE_TONEAREST :: int where "FE_TONEAREST = 0x0000"
definition FE_DOWNWARD :: int where "FE_DOWNWARD = 0x0400"
definition FE_UPWARD :: int where "FE_UPWARD = 0x0800"
definition FE_TOWARDZERO :: int where "FE_TOWARDZERO = 0x0c00"

definition MINI_X87_EXCEPTION_MASK :: "16 word" where "MINI_X87_EXCEPTION_MASK = 0x003f"
definition MINI_MXCSR_EXCEPTION_MASK :: u32 where "MINI_MXCSR_EXCEPTION_MASK = 0x0000003f"
definition MINI_MXCSR_MASK_BITS :: u32 where "MINI_MXCSR_MASK_BITS = 0x00001f80"
definition MINI_X87_ROUND_MASK :: u32 where "MINI_X87_ROUND_MASK = 0x0c00"
definition MINI_MXCSR_ROUND_MASK :: u32 where "MINI_MXCSR_ROUND_MASK = 0x00006000"

definition dfl_env :: fenv where
  "dfl_env = \<lparr>x87_control = 0x037f, x87_exceptions = 0, mxcsr = 0x00001f80\<rparr>"

text \<open>The two assembly routines.\<close>

definition fenv_read :: "fenv \<Rightarrow> fenv" where
  "fenv_read r = r\<lparr>x87_exceptions := x87_exceptions r AND 0x003f\<rparr>"

definition fenv_write :: "fenv \<Rightarrow> fenv" where
  "fenv_write env = env\<lparr>x87_exceptions := x87_exceptions env AND 0x003f\<rparr>"

definition public_mask :: "int \<Rightarrow> u32" where
  "public_mask excepts = word_of_int excepts AND FE_ALL_EXCEPT"

definition fegetenv :: "bool \<Rightarrow> fenv \<Rightarrow> int \<times> fenv option" where
  "fegetenv envp_null r = (if envp_null then (- 1, None) else (0, Some (fenv_read r)))"

definition fesetenv :: "fenv option \<Rightarrow> fenv \<Rightarrow> int \<times> fenv" where
  "fesetenv envp r = (case envp of None \<Rightarrow> (- 1, r) | Some env \<Rightarrow> (0, fenv_write env))"

definition fetestexcept :: "int \<Rightarrow> fenv \<Rightarrow> int" where
  "fetestexcept excepts r =
     (let env = fenv_read r in uint ((ucast (x87_exceptions env) OR mxcsr env) AND public_mask excepts))"

definition feclearexcept :: "int \<Rightarrow> fenv \<Rightarrow> int \<times> fenv" where
  "feclearexcept excepts r =
     (let mask = public_mask excepts; env = fenv_read r
      in (0, fenv_write (env\<lparr>x87_exceptions := x87_exceptions env AND ucast (NOT mask), mxcsr := mxcsr env AND NOT mask\<rparr>)))"

definition feraiseexcept :: "int \<Rightarrow> fenv \<Rightarrow> int \<times> fenv" where
  "feraiseexcept excepts r =
     (let mask = public_mask excepts; env = fenv_read r
      in (0, fenv_write (env\<lparr>x87_exceptions := x87_exceptions env OR ucast mask, mxcsr := mxcsr env OR mask\<rparr>)))"

definition fegetexceptflag :: "bool \<Rightarrow> int \<Rightarrow> fenv \<Rightarrow> int \<times> u32 option" where
  "fegetexceptflag flagp_null excepts r =
     (if flagp_null then (- 1, None) else (0, Some (word_of_int (fetestexcept excepts r))))"

definition fesetexceptflag :: "u32 option \<Rightarrow> int \<Rightarrow> fenv \<Rightarrow> int \<times> fenv" where
  "fesetexceptflag flagp excepts r =
     (case flagp of
        None \<Rightarrow> (- 1, r)
      | Some flags \<Rightarrow>
          let mask = public_mask excepts; requested = flags AND mask; env = fenv_read r
          in (0, fenv_write (env\<lparr>
               x87_exceptions := ucast (((ucast (x87_exceptions env) :: u32) AND NOT mask) OR requested),
               mxcsr := (mxcsr env AND NOT mask) OR requested\<rparr>)))"

definition fegetround :: "fenv \<Rightarrow> int" where
  "fegetround r =
     (let env = fenv_read r; x87 = ucast (x87_control env) AND MINI_X87_ROUND_MASK;
          sse = drop_bit 3 (mxcsr env AND MINI_MXCSR_ROUND_MASK)
      in if x87 = sse then sint x87 else - 1)"

definition fesetround :: "int \<Rightarrow> fenv \<Rightarrow> int \<times> fenv" where
  "fesetround mode r =
     (let m = (word_of_int mode :: u32)
      in if m \<noteq> word_of_int FE_TONEAREST \<and> m \<noteq> word_of_int FE_DOWNWARD \<and> m \<noteq> word_of_int FE_UPWARD \<and> m \<noteq> word_of_int FE_TOWARDZERO
         then (- 1, r)
         else let env = fenv_read r
           in (0, fenv_write (env\<lparr>
                x87_control := ucast (((ucast (x87_control env) :: u32) AND NOT MINI_X87_ROUND_MASK) OR m),
                mxcsr := (mxcsr env AND NOT MINI_MXCSR_ROUND_MASK) OR push_bit 3 m\<rparr>)))"

definition feholdexcept :: "bool \<Rightarrow> fenv \<Rightarrow> int \<times> fenv option \<times> fenv" where
  "feholdexcept envp_null r =
     (if envp_null then (- 1, None, r)
      else let env = fenv_read r
        in (0, Some env, fenv_write \<lparr>x87_control = x87_control env OR MINI_X87_EXCEPTION_MASK, x87_exceptions = 0,
             mxcsr = (mxcsr env OR MINI_MXCSR_MASK_BITS) AND NOT MINI_MXCSR_EXCEPTION_MASK\<rparr>))"

definition feupdateenv :: "fenv option \<Rightarrow> fenv \<Rightarrow> int \<times> fenv" where
  "feupdateenv envp r =
     (case envp of
        None \<Rightarrow> (- 1, r)
      | Some env \<Rightarrow>
          let raised = fetestexcept (uint FE_ALL_EXCEPT) r; (result, r1) = fesetenv envp r
          in if result \<noteq> 0 then (- 1, r1) else feraiseexcept raised r1)"

subsection \<open>Rounding modes and flags\<close>

lemmas fe_modes = FE_TONEAREST_def FE_DOWNWARD_def FE_UPWARD_def FE_TOWARDZERO_def

definition rounding_mode :: "int \<Rightarrow> bool" where
  "rounding_mode mode = (mode \<in> {FE_TONEAREST, FE_DOWNWARD, FE_UPWARD, FE_TOWARDZERO})"

lemma field_replaced: "((w AND NOT M) OR m) AND M = m AND M" for w M m :: "'a::len word"
  by (rule bit_word_eqI) (auto simp: bit_simps)

lemma round_field:
  fixes w :: u32
  assumes "m \<in> {0, 0x400, 0x800, 0xc00}"
  shows "(ucast (ucast ((w AND NOT MINI_X87_ROUND_MASK) OR m) :: 16 word) :: u32) AND MINI_X87_ROUND_MASK = m"
    "drop_bit 3 (((v AND NOT MINI_MXCSR_ROUND_MASK) OR push_bit 3 m) AND MINI_MXCSR_ROUND_MASK) = m"
proof -
  have "(ucast (ucast x :: 16 word) :: u32) AND MINI_X87_ROUND_MASK = x AND MINI_X87_ROUND_MASK" for x :: u32
  proof -
    have "(ucast (ucast x :: 16 word) :: u32) = x AND mask 16" by (rule bit_word_eqI) (auto simp: bit_simps)
    then show ?thesis by (simp add: and.assoc MINI_X87_ROUND_MASK_def mask_eq_decr_exp)
  qed
  then show "(ucast (ucast ((w AND NOT MINI_X87_ROUND_MASK) OR m) :: 16 word) :: u32) AND MINI_X87_ROUND_MASK = m"
    using assms by (auto simp: field_replaced) (auto simp: MINI_X87_ROUND_MASK_def)
  show "drop_bit 3 (((v AND NOT MINI_MXCSR_ROUND_MASK) OR push_bit 3 m) AND MINI_MXCSR_ROUND_MASK) = m"
    using assms by (auto simp: field_replaced) (auto simp: MINI_MXCSR_ROUND_MASK_def)
qed

lemma field_kept:
  fixes w :: "'a::len word"
  assumes "N AND A = A" "p AND A = 0"
  shows "((w AND N) OR p) AND (e AND A) = w AND (e AND A)"
proof -
  have "bit N n" "\<not> bit p n" if "bit A n" for n
    using assms that by (metis bit_and_iff, metis bit_and_iff bit_0_eq bot_apply bot_bool_def)
  then show ?thesis by (intro bit_word_eqI) (auto simp: bit_simps)
qed

text \<open>What \<open>fesetround\<close> sets \<open>fegetround\<close> reads, in both units; another value is refused and changes nothing.\<close>

lemma fesetround_spec:
  assumes "fesetround mode r = (result, r')" "rounding_mode mode"
  shows "result = 0" "fegetround r' = mode" "\<And>e. fetestexcept e r' = fetestexcept e r"
proof -
  have m: "(word_of_int mode :: u32) \<in> {0, 0x400, 0x800, 0xc00}" "sint (word_of_int mode :: u32) = mode"
    using assms(2) by (auto simp: rounding_mode_def fe_modes)
  have r: "result = 0" "r' = fenv_write ((fenv_read r)\<lparr>
      x87_control := ucast (((ucast (x87_control (fenv_read r)) :: u32) AND NOT MINI_X87_ROUND_MASK) OR word_of_int mode),
      mxcsr := (mxcsr (fenv_read r) AND NOT MINI_MXCSR_ROUND_MASK) OR push_bit 3 (word_of_int mode)\<rparr>)"
    using assms unfolding fesetround_def Let_def by (auto simp: rounding_mode_def)
  show "result = 0" by (fact r(1))
  show "fegetround r' = mode"
    using round_field [OF m(1)] m(2) by (simp add: fegetround_def r(2) fenv_read_def fenv_write_def)
  have "((w AND NOT MINI_MXCSR_ROUND_MASK) OR push_bit 3 (word_of_int mode)) AND public_mask e = w AND public_mask e" for w e
  proof -
    have "NOT MINI_MXCSR_ROUND_MASK AND FE_ALL_EXCEPT = FE_ALL_EXCEPT" "push_bit 3 (word_of_int mode) AND FE_ALL_EXCEPT = 0"
      using m(1) by (auto simp: MINI_MXCSR_ROUND_MASK_def FE_ALL_EXCEPT_def FE_INVALID_def FE_DIVBYZERO_def FE_OVERFLOW_def
          FE_UNDERFLOW_def FE_INEXACT_def)
    then show ?thesis unfolding public_mask_def by (rule field_kept)
  qed
  then show "\<And>e. fetestexcept e r' = fetestexcept e r"
    by (simp add: fetestexcept_def r(2) fenv_read_def fenv_write_def bit.conj_disj_distrib2 Let_def)
qed

end
