(* ===== verification/Math_Bits.thy ===== *)
theory Math_Bits
  imports Fenv Float_Narrow
begin

unbundle bit_operations_syntax

section \<open>Functions on the bits of floating-point numbers\<close>

text \<open>
  The functions of \<open>src/math\<close> whose results are exact or rounded once, which the source computes on the bits of
  their arguments: \<open>math/classify.c\<close>, \<open>math/decompose.c\<close>, \<open>math/scale.c\<close>, \<open>math/math.c\<close> but for \<open>sqrt\<close>, and
  \<open>math/fenv_rounding.c\<close>. A \<open>double\<close> is its 64 bits and a \<open>float\<close> its 32 (theories \<open>Binary64\<close>, \<open>Binary32\<close>), so the
  source's unions have no counterpart. The subtractions and additions of \<open>floor\<close>, \<open>ceil\<close>, \<open>round\<close> and \<open>modf\<close> are exact,
  so the rounding mode does not matter to them.
\<close>

subsection \<open>Classification\<close>

definition MINI_DOUBLE_SIGN :: f64 where "MINI_DOUBLE_SIGN = 0x8000000000000000"
definition MINI_DOUBLE_EXP :: f64 where "MINI_DOUBLE_EXP = 0x7ff0000000000000"
definition MINI_DOUBLE_FRAC :: f64 where "MINI_DOUBLE_FRAC = 0x000fffffffffffff"
definition MINI_FLOAT_SIGN :: f32 where "MINI_FLOAT_SIGN = 0x80000000"
definition MINI_FLOAT_EXP :: f32 where "MINI_FLOAT_EXP = 0x7f800000"
definition MINI_FLOAT_FRAC :: f32 where "MINI_FLOAT_FRAC = 0x007fffff"

definition FP_NAN :: int where "FP_NAN = 0"
definition FP_INFINITE :: int where "FP_INFINITE = 1"
definition FP_ZERO :: int where "FP_ZERO = 2"
definition FP_SUBNORMAL :: int where "FP_SUBNORMAL = 3"
definition FP_NORMAL :: int where "FP_NORMAL = 4"

definition double_is_nan_bits :: "f64 \<Rightarrow> bool" where
  "double_is_nan_bits b = (b AND MINI_DOUBLE_EXP = MINI_DOUBLE_EXP \<and> b AND MINI_DOUBLE_FRAC \<noteq> 0)"

definition float_is_nan_bits :: "f32 \<Rightarrow> bool" where
  "float_is_nan_bits b = (b AND MINI_FLOAT_EXP = MINI_FLOAT_EXP \<and> b AND MINI_FLOAT_FRAC \<noteq> 0)"

definition double_is_finite_bits :: "f64 \<Rightarrow> bool" where
  "double_is_finite_bits b = (b AND MINI_DOUBLE_EXP \<noteq> MINI_DOUBLE_EXP)"

definition float_is_finite_bits :: "f32 \<Rightarrow> bool" where
  "float_is_finite_bits b = (b AND MINI_FLOAT_EXP \<noteq> MINI_FLOAT_EXP)"

definition mini_fpclassify :: "f64 \<Rightarrow> int" where
  "mini_fpclassify b =
     (let ex = b AND MINI_DOUBLE_EXP; fraction = b AND MINI_DOUBLE_FRAC
      in if ex = MINI_DOUBLE_EXP then (if fraction \<noteq> 0 then FP_NAN else FP_INFINITE)
         else if ex = 0 then (if fraction \<noteq> 0 then FP_SUBNORMAL else FP_ZERO)
         else FP_NORMAL)"

definition mini_fpclassifyf :: "f32 \<Rightarrow> int" where
  "mini_fpclassifyf b =
     (let ex = b AND MINI_FLOAT_EXP; fraction = b AND MINI_FLOAT_FRAC
      in if ex = MINI_FLOAT_EXP then (if fraction \<noteq> 0 then FP_NAN else FP_INFINITE)
         else if ex = 0 then (if fraction \<noteq> 0 then FP_SUBNORMAL else FP_ZERO)
         else FP_NORMAL)"

definition mini_math_predicate :: "f64 \<Rightarrow> int \<Rightarrow> bool" where
  "mini_math_predicate x operation =
     (let classification = mini_fpclassify x
      in if operation = 0 then classification \<noteq> FP_INFINITE \<and> classification \<noteq> FP_NAN
         else if operation = 1 then classification = FP_INFINITE
         else if operation = 2 then classification = FP_NAN
         else classification = FP_NORMAL)"

definition mini_math_predicatef :: "f32 \<Rightarrow> int \<Rightarrow> bool" where
  "mini_math_predicatef x operation =
     (let classification = mini_fpclassifyf x
      in if operation = 0 then classification \<noteq> FP_INFINITE \<and> classification \<noteq> FP_NAN
         else if operation = 1 then classification = FP_INFINITE
         else if operation = 2 then classification = FP_NAN
         else classification = FP_NORMAL)"

definition mini_signbit :: "f64 \<Rightarrow> bool" where "mini_signbit x = (x AND MINI_DOUBLE_SIGN \<noteq> 0)"
definition mini_signbitf :: "f32 \<Rightarrow> bool" where "mini_signbitf x = (x AND MINI_FLOAT_SIGN \<noteq> 0)"

text \<open>The comparisons of the language on operands that are not NaN.\<close>

definition f64_le :: "f64 \<Rightarrow> f64 \<Rightarrow> bool" where "f64_le x y = (f64_less x y \<or> f64_eq x y)"
definition f32_le :: "f32 \<Rightarrow> f32 \<Rightarrow> bool" where "f32_le x y = (f32_less x y \<or> f32_eq x y)"

definition mini_math_compare :: "f64 \<Rightarrow> f64 \<Rightarrow> int \<Rightarrow> bool" where
  "mini_math_compare x y operation =
     (if double_is_nan_bits x \<or> double_is_nan_bits y then operation = 0
      else if operation = 0 then False
      else if operation = 1 then f64_less y x
      else if operation = 2 then f64_le y x
      else if operation = 3 then f64_less x y
      else if operation = 4 then f64_le x y
      else \<not> f64_eq x y)"

definition mini_math_comparef :: "f32 \<Rightarrow> f32 \<Rightarrow> int \<Rightarrow> bool" where
  "mini_math_comparef x y operation =
     (if float_is_nan_bits x \<or> float_is_nan_bits y then operation = 0
      else if operation = 0 then False
      else if operation = 1 then f32_less y x
      else if operation = 2 then f32_le y x
      else if operation = 3 then f32_less x y
      else if operation = 4 then f32_le x y
      else \<not> f32_eq x y)"

subsection \<open>Signs, minima and maxima\<close>

definition fabs :: "f64 \<Rightarrow> f64" where "fabs x = x AND NOT MINI_DOUBLE_SIGN"
definition fabsf :: "f32 \<Rightarrow> f32" where "fabsf x = x AND NOT MINI_FLOAT_SIGN"

definition copysign :: "f64 \<Rightarrow> f64 \<Rightarrow> f64" where
  "copysign x y = ((x AND NOT MINI_DOUBLE_SIGN) OR (y AND MINI_DOUBLE_SIGN))"

definition copysignf :: "f32 \<Rightarrow> f32 \<Rightarrow> f32" where
  "copysignf x y = ((x AND NOT MINI_FLOAT_SIGN) OR (y AND MINI_FLOAT_SIGN))"

definition fmin :: "f64 \<Rightarrow> f64 \<Rightarrow> f64" where
  "fmin x y =
     (if double_is_nan_bits x then y
      else if double_is_nan_bits y then x
      else if f64_eq x y \<and> f64_eq x 0 then (if x AND MINI_DOUBLE_SIGN \<noteq> 0 then x else y)
      else if f64_less x y then x else y)"

definition fminf :: "f32 \<Rightarrow> f32 \<Rightarrow> f32" where
  "fminf x y =
     (if float_is_nan_bits x then y
      else if float_is_nan_bits y then x
      else if f32_eq x y \<and> f32_eq x 0 then (if x AND MINI_FLOAT_SIGN \<noteq> 0 then x else y)
      else if f32_less x y then x else y)"

definition fmax :: "f64 \<Rightarrow> f64 \<Rightarrow> f64" where
  "fmax x y =
     (if double_is_nan_bits x then y
      else if double_is_nan_bits y then x
      else if f64_eq x y \<and> f64_eq x 0 then (if x AND MINI_DOUBLE_SIGN \<noteq> 0 then y else x)
      else if f64_less y x then x else y)"

definition fmaxf :: "f32 \<Rightarrow> f32 \<Rightarrow> f32" where
  "fmaxf x y =
     (if float_is_nan_bits x then y
      else if float_is_nan_bits y then x
      else if f32_eq x y \<and> f32_eq x 0 then (if x AND MINI_FLOAT_SIGN \<noteq> 0 then y else x)
      else if f32_less y x then x else y)"

subsection \<open>Integral values\<close>

text \<open>The exponent field as the source extracts it.\<close>

definition exponent_field :: "f64 \<Rightarrow> u32" where "exponent_field b = ucast (drop_bit 52 (b AND MINI_DOUBLE_EXP))"
definition exponent_fieldf :: "f32 \<Rightarrow> u32" where "exponent_fieldf b = drop_bit 23 (b AND MINI_FLOAT_EXP)"

definition trunc :: "f64 \<Rightarrow> f64" where
  "trunc b =
     (if exponent_field b = 0x7ff then b
      else let ex = sint (exponent_field b) - 1023
        in if ex < 0 then b AND MINI_DOUBLE_SIGN
           else if 52 \<le> ex then b
           else let mask = push_bit (nat (52 - ex)) 1 - 1 in b AND NOT mask)"

definition truncf :: "f32 \<Rightarrow> f32" where
  "truncf b =
     (if exponent_fieldf b = 0xff then b
      else let ex = sint (exponent_fieldf b) - 127
        in if ex < 0 then b AND MINI_FLOAT_SIGN
           else if 23 \<le> ex then b
           else let mask = push_bit (nat (23 - ex)) 1 - 1 in b AND NOT mask)"

definition f64_one :: f64 where "f64_one = 0x3ff0000000000000"
definition f64_half :: f64 where "f64_half = 0x3fe0000000000000"
definition f32_one :: f32 where "f32_one = 0x3f800000"
definition f32_half :: f32 where "f32_half = 0x3f000000"

definition f64_add :: "f64 \<Rightarrow> f64 \<Rightarrow> f64" where "f64_add a b = f64_sub a (f64_minus b)"

definition floor_d :: "f64 \<Rightarrow> f64" where
  "floor_d x =
     (if \<not> double_is_finite_bits x then x
      else let integral = trunc x in if f64_less x integral then f64_sub integral f64_one else integral)"

definition floorf :: "f32 \<Rightarrow> f32" where
  "floorf x =
     (if \<not> float_is_finite_bits x then x
      else let integral = truncf x in if f32_less x integral then f32_sub integral f32_one else integral)"

definition ceil_d :: "f64 \<Rightarrow> f64" where
  "ceil_d x =
     (if \<not> double_is_finite_bits x then x
      else let integral = trunc x in if f64_less integral x then f64_add integral f64_one else integral)"

definition ceilf :: "f32 \<Rightarrow> f32" where
  "ceilf x =
     (if \<not> float_is_finite_bits x then x
      else let integral = truncf x in if f32_less integral x then f32_add integral f32_one else integral)"

definition round_d :: "f64 \<Rightarrow> f64" where
  "round_d x =
     (if \<not> double_is_finite_bits x then x
      else let integral = trunc x; fraction = f64_sub x integral
        in if f64_le f64_half fraction then f64_add integral f64_one
           else if f64_le fraction (f64_minus f64_half) then f64_sub integral f64_one
           else integral)"

definition roundf :: "f32 \<Rightarrow> f32" where
  "roundf x =
     (if \<not> float_is_finite_bits x then x
      else let integral = truncf x; fraction = f32_sub x integral
        in if f32_le f32_half fraction then f32_add integral f32_one
           else if f32_le fraction (f32_minus f32_half) then f32_sub integral f32_one
           else integral)"

subsection \<open>Decomposition\<close>

function highest_bit_loop :: "u64 \<Rightarrow> int \<Rightarrow> int" where
  "highest_bit_loop v b = (if v \<noteq> 0 then highest_bit_loop (drop_bit 1 v) (b + 1) else b)"
  by auto
termination
  by (relation "measure (unat o fst)") (auto simp: drop_bit_eq_div unat_div_distrib unat_gt_0 unat_eq_0)

declare highest_bit_loop.simps [simp del]

definition highest_bit_u64 :: "u64 \<Rightarrow> int" where "highest_bit_u64 v = highest_bit_loop v (- 1)"

text \<open>The significand and the exponent, stored through a pointer.\<close>

definition frexp :: "f64 \<Rightarrow> f64 \<times> int" where
  "frexp bits =
     (let sign = bits AND MINI_DOUBLE_SIGN; fraction = bits AND MINI_DOUBLE_FRAC
      in if exponent_field bits = 0x7ff \<or> exponent_field bits = 0 \<and> fraction = 0 then (bits, 0)
         else if exponent_field bits \<noteq> 0 then
           (sign OR push_bit 52 1022 OR fraction, sint (exponent_field bits) - 1022)
         else let top = highest_bit_u64 fraction; significand = push_bit (nat (52 - top)) fraction
           in (sign OR push_bit 52 1022 OR (significand AND MINI_DOUBLE_FRAC), top - 1073))"

definition frexpf :: "f32 \<Rightarrow> f32 \<times> int" where
  "frexpf bits =
     (let sign = bits AND MINI_FLOAT_SIGN; fraction = bits AND MINI_FLOAT_FRAC
      in if exponent_fieldf bits = 0xff \<or> exponent_fieldf bits = 0 \<and> fraction = 0 then (bits, 0)
         else if exponent_fieldf bits \<noteq> 0 then
           (sign OR push_bit 23 126 OR fraction, sint (exponent_fieldf bits) - 126)
         else let top = highest_bit_u64 (ucast fraction); significand = push_bit (nat (23 - top)) fraction
           in (sign OR push_bit 23 126 OR (significand AND MINI_FLOAT_FRAC), top - 148))"

text \<open>The fractional and the integral part.\<close>

definition modf :: "f64 \<Rightarrow> f64 \<times> f64" where
  "modf x =
     (if exponent_field x = 0x7ff then (if x AND MINI_DOUBLE_FRAC \<noteq> 0 then x else x AND MINI_DOUBLE_SIGN, x)
      else let integral = trunc x; fractional = f64_sub x integral
        in (if f64_eq fractional 0 then x AND MINI_DOUBLE_SIGN else fractional, integral))"

definition modff :: "f32 \<Rightarrow> f32 \<times> f32" where
  "modff x =
     (if exponent_fieldf x = 0xff then (if x AND MINI_FLOAT_FRAC \<noteq> 0 then x else x AND MINI_FLOAT_SIGN, x)
      else let integral = truncf x; fractional = f32_sub x integral
        in (if f32_eq fractional 0 then x AND MINI_FLOAT_SIGN else fractional, integral))"

subsection \<open>Scaling\<close>

datatype scale_status = SCALE_EXACT | SCALE_INEXACT | SCALE_OVERFLOW | SCALE_UNDERFLOW

text \<open>The quotient and whether anything was discarded.\<close>

definition round_shift_mode :: "u64 \<Rightarrow> u64 \<Rightarrow> bool \<Rightarrow> int \<Rightarrow> u64 \<times> bool" where
  "round_shift_mode v shift neg rounding =
     (if shift = 0 then (v, False)
      else let quotient = (if 64 \<le> shift then 0 else drop_bit (unat shift) v);
               rest = (if 64 \<le> shift then 0 else v AND (push_bit (unat shift) 1 - 1));
               discarded = (if 64 \<le> shift then v \<noteq> 0 else rest \<noteq> 0)
        in if \<not> discarded then (quotient, discarded)
           else if rounding = FE_UPWARD then (if \<not> neg then quotient + 1 else quotient, discarded)
           else if rounding = FE_DOWNWARD then (if neg then quotient + 1 else quotient, discarded)
           else if rounding = FE_TOWARDZERO then (quotient, discarded)
           else if shift < 64 then
             let half = push_bit (unat (shift - 1)) 1
             in (if half < rest \<or> rest = half \<and> quotient AND 1 \<noteq> 0 then quotient + 1 else quotient, discarded)
           else (quotient, discarded))"

definition scale_double :: "f64 \<Rightarrow> int \<Rightarrow> int \<Rightarrow> f64 \<times> scale_status" where
  "scale_double bits n rounding =
     (let sign = bits AND MINI_DOUBLE_SIGN; fraction = bits AND MINI_DOUBLE_FRAC; field = exponent_field bits
      in if field = 0x7ff \<or> field = 0 \<and> fraction = 0 then (bits, SCALE_EXACT)
         else let top = highest_bit_u64 fraction;
                  significand = (if field \<noteq> 0 then push_bit 52 1 OR fraction else push_bit (nat (52 - top)) fraction);
                  ex = (if field \<noteq> 0 then sint field - 1023 else top - 1074);
                  target = ex + n
           in if 1023 < target then (sign OR MINI_DOUBLE_EXP, SCALE_OVERFLOW)
              else if - 1022 \<le> target then
                (sign OR push_bit 52 (word_of_int (target + 1023)) OR (significand AND MINI_DOUBLE_FRAC), SCALE_EXACT)
              else let (rounded, discarded) = round_shift_mode significand (word_of_int (- target - 1022)) (sign \<noteq> 0) rounding
                in if push_bit 52 1 \<le> rounded then
                     (sign OR push_bit 52 1, if discarded then SCALE_INEXACT else SCALE_EXACT)
                   else (sign OR rounded, if discarded then SCALE_UNDERFLOW else SCALE_EXACT))"

definition scale_float :: "f32 \<Rightarrow> int \<Rightarrow> int \<Rightarrow> f32 \<times> scale_status" where
  "scale_float bits n rounding =
     (let sign = bits AND MINI_FLOAT_SIGN; fraction = bits AND MINI_FLOAT_FRAC; field = exponent_fieldf bits
      in if field = 0xff \<or> field = 0 \<and> fraction = 0 then (bits, SCALE_EXACT)
         else let top = highest_bit_u64 (ucast fraction);
                  significand = (if field \<noteq> 0 then push_bit 23 1 OR ucast fraction else push_bit (nat (23 - top)) (ucast fraction)) :: u64;
                  ex = (if field \<noteq> 0 then sint field - 127 else top - 149);
                  target = ex + n
           in if 127 < target then (sign OR MINI_FLOAT_EXP, SCALE_OVERFLOW)
              else if - 126 \<le> target then
                (sign OR push_bit 23 (word_of_int (target + 127)) OR (ucast significand AND MINI_FLOAT_FRAC), SCALE_EXACT)
              else let (rounded, discarded) = round_shift_mode significand (word_of_int (- target - 126)) (sign \<noteq> 0) rounding
                in if push_bit 23 1 \<le> rounded then
                     (sign OR push_bit 23 1, if discarded then SCALE_INEXACT else SCALE_EXACT)
                   else (sign OR ucast rounded, if discarded then SCALE_UNDERFLOW else SCALE_EXACT))"

text \<open>The registers and \<open>errno\<close>.\<close>

record math_env =
  fp :: fenv
  math_errno :: int

definition raise :: "u32 \<Rightarrow> math_env \<Rightarrow> math_env" where
  "raise excepts m = m\<lparr>fp := snd (feraiseexcept (uint excepts) (fp m))\<rparr>"

definition finish_scale :: "fenv \<Rightarrow> int \<Rightarrow> scale_status \<Rightarrow> math_env \<Rightarrow> math_env" where
  "finish_scale environment saved_errno status m =
     (let m1 = m\<lparr>fp := snd (fesetenv (Some environment) (fp m))\<rparr>
      in case status of
           SCALE_OVERFLOW \<Rightarrow> (raise (FE_OVERFLOW OR FE_INEXACT) m1)\<lparr>math_errno := ERANGE\<rparr>
         | SCALE_UNDERFLOW \<Rightarrow> (raise (FE_UNDERFLOW OR FE_INEXACT) m1)\<lparr>math_errno := ERANGE\<rparr>
         | SCALE_INEXACT \<Rightarrow> (raise FE_INEXACT m1)\<lparr>math_errno := saved_errno\<rparr>
         | SCALE_EXACT \<Rightarrow> m1\<lparr>math_errno := saved_errno\<rparr>)"

definition scale_public_double :: "f64 \<Rightarrow> int \<Rightarrow> math_env \<Rightarrow> f64 \<times> math_env" where
  "scale_public_double x n m =
     (let saved_errno = math_errno m; r = fegetround (fp m); rounding = (if r < 0 then FE_TONEAREST else r);
          environment = the (snd (fegetenv False (fp m))); (result, status) = scale_double x n rounding
      in (result, finish_scale environment saved_errno status m))"

definition scale_public_float :: "f32 \<Rightarrow> int \<Rightarrow> math_env \<Rightarrow> f32 \<times> math_env" where
  "scale_public_float x n m =
     (let saved_errno = math_errno m; r = fegetround (fp m); rounding = (if r < 0 then FE_TONEAREST else r);
          environment = the (snd (fegetenv False (fp m))); (result, status) = scale_float x n rounding
      in (result, finish_scale environment saved_errno status m))"

definition scalbn :: "f64 \<Rightarrow> int \<Rightarrow> math_env \<Rightarrow> f64 \<times> math_env" where "scalbn = scale_public_double"
definition scalbnf :: "f32 \<Rightarrow> int \<Rightarrow> math_env \<Rightarrow> f32 \<times> math_env" where "scalbnf = scale_public_float"
definition ldexp :: "f64 \<Rightarrow> int \<Rightarrow> math_env \<Rightarrow> f64 \<times> math_env" where "ldexp = scale_public_double"
definition ldexpf :: "f32 \<Rightarrow> int \<Rightarrow> math_env \<Rightarrow> f32 \<times> math_env" where "ldexpf = scale_public_float"

subsection \<open>Rounding to integral values in the current mode\<close>

definition mode_valid :: "int \<Rightarrow> bool" where
  "mode_valid mode = (mode = FE_TONEAREST \<or> mode = FE_DOWNWARD \<or> mode = FE_UPWARD \<or> mode = FE_TOWARDZERO)"

definition f64_minus_one :: f64 where "f64_minus_one = 0xbff0000000000000"
definition f32_minus_one :: f32 where "f32_minus_one = 0xbf800000"

text \<open>The rounded value and whether it is inexact.\<close>

definition round_double_mode :: "f64 \<Rightarrow> int \<Rightarrow> f64 \<times> bool" where
  "round_double_mode bits mode =
     (let sign = bits AND MINI_DOUBLE_SIGN; magnitude = bits AND NOT MINI_DOUBLE_SIGN; field = exponent_field bits
      in if field = 0x7ff \<or> magnitude = 0 then (bits, False)
         else let ex = (if field = 0 then - 1022 else sint field - 1023)
           in if ex < 0 then
                (if mode = FE_UPWARD \<and> sign = 0 then f64_one
                 else if mode = FE_DOWNWARD \<and> sign \<noteq> 0 then f64_minus_one
                 else if mode = FE_TONEAREST \<and> 0x3fe0000000000000 < magnitude then
                   (if sign \<noteq> 0 then f64_minus_one else f64_one)
                 else sign, True)
              else if 52 \<le> ex then (bits, False)
              else let fractional_bits = nat (52 - ex); unit = push_bit fractional_bits 1; mask = unit - 1;
                       discarded = magnitude AND mask
                in if discarded = 0 then (bits, False)
                   else let rounded = magnitude AND NOT mask;
                            rounded' =
                              (if mode = FE_UPWARD \<and> sign = 0 \<or> mode = FE_DOWNWARD \<and> sign \<noteq> 0 then rounded + unit
                               else if mode = FE_TONEAREST then
                                 let half = drop_bit 1 unit
                                 in if half < discarded \<or> discarded = half \<and> rounded AND unit \<noteq> 0 then rounded + unit else rounded
                               else rounded)
                     in (sign OR rounded', True))"

definition round_float_mode :: "f32 \<Rightarrow> int \<Rightarrow> f32 \<times> bool" where
  "round_float_mode bits mode =
     (let sign = bits AND MINI_FLOAT_SIGN; magnitude = bits AND NOT MINI_FLOAT_SIGN; field = exponent_fieldf bits
      in if field = 0xff \<or> magnitude = 0 then (bits, False)
         else let ex = (if field = 0 then - 126 else sint field - 127)
           in if ex < 0 then
                (if mode = FE_UPWARD \<and> sign = 0 then f32_one
                 else if mode = FE_DOWNWARD \<and> sign \<noteq> 0 then f32_minus_one
                 else if mode = FE_TONEAREST \<and> 0x3f000000 < magnitude then
                   (if sign \<noteq> 0 then f32_minus_one else f32_one)
                 else sign, True)
              else if 23 \<le> ex then (bits, False)
              else let fractional_bits = nat (23 - ex); unit = push_bit fractional_bits 1; mask = unit - 1;
                       discarded = magnitude AND mask
                in if discarded = 0 then (bits, False)
                   else let rounded = magnitude AND NOT mask;
                            rounded' =
                              (if mode = FE_UPWARD \<and> sign = 0 \<or> mode = FE_DOWNWARD \<and> sign \<noteq> 0 then rounded + unit
                               else if mode = FE_TONEAREST then
                                 let half = drop_bit 1 unit
                                 in if half < discarded \<or> discarded = half \<and> rounded AND unit \<noteq> 0 then rounded + unit else rounded
                               else rounded)
                     in (sign OR rounded', True))"

definition environment_failure :: "math_env \<Rightarrow> math_env" where
  "environment_failure m = raise FE_INVALID (m\<lparr>math_errno := EDOM\<rparr>)"

definition conversion_failure :: "bool \<Rightarrow> math_env \<Rightarrow> math_env" where
  "conversion_failure range_error m = raise FE_INVALID (m\<lparr>math_errno := if range_error then ERANGE else EDOM\<rparr>)"

definition rint :: "f64 \<Rightarrow> math_env \<Rightarrow> f64 \<times> math_env" where
  "rint x m =
     (let mode = fegetround (fp m)
      in if \<not> mode_valid mode then (x, environment_failure m)
         else let (result, inexact) = round_double_mode x mode
           in (result, if inexact then raise FE_INEXACT m else m))"

definition rintf :: "f32 \<Rightarrow> math_env \<Rightarrow> f32 \<times> math_env" where
  "rintf x m =
     (let mode = fegetround (fp m)
      in if \<not> mode_valid mode then (x, environment_failure m)
         else let (result, inexact) = round_float_mode x mode
           in (result, if inexact then raise FE_INEXACT m else m))"

definition nearbyint :: "f64 \<Rightarrow> math_env \<Rightarrow> f64 \<times> math_env" where
  "nearbyint x m =
     (let mode = fegetround (fp m)
      in if \<not> mode_valid mode then (x, environment_failure m) else (fst (round_double_mode x mode), m))"

definition nearbyintf :: "f32 \<Rightarrow> math_env \<Rightarrow> f32 \<times> math_env" where
  "nearbyintf x m =
     (let mode = fegetround (fp m)
      in if \<not> mode_valid mode then (x, environment_failure m) else (fst (round_float_mode x mode), m))"

text \<open>\<open>(long long)x\<close>: the value without its fractional part, when it fits.\<close>

definition f64_to_i64 :: "f64 \<Rightarrow> int" where
  "f64_to_i64 a = (let n = int (f64_sig a * pow_up (f64_pow a) div pow_up (- f64_pow a)) in if f64_neg a then - n else n)"

definition MINI_INT64_LIMIT :: f64 where "MINI_INT64_LIMIT = f64_lit 9223372036854775808 0"

text \<open>\<^term>\<open>None\<close> is the result 0, after which the callers return the least value of their type.\<close>

definition rounded_double_to_i64 :: "f64 \<Rightarrow> math_env \<Rightarrow> int option \<times> math_env" where
  "rounded_double_to_i64 x m =
     (let mode = fegetround (fp m)
      in if \<not> mode_valid mode then (None, environment_failure m)
         else if x AND MINI_DOUBLE_EXP = MINI_DOUBLE_EXP then (None, conversion_failure False m)
         else let (rounded, inexact) = round_double_mode x mode
           in if f64_le MINI_INT64_LIMIT rounded \<or> f64_less rounded (f64_minus MINI_INT64_LIMIT) then
                (None, conversion_failure True m)
              else (Some (f64_to_i64 rounded), if inexact then raise FE_INEXACT m else m))"

definition rounded_float_to_i64 :: "f32 \<Rightarrow> math_env \<Rightarrow> int option \<times> math_env" where
  "rounded_float_to_i64 x m =
     (let mode = fegetround (fp m)
      in if \<not> mode_valid mode then (None, environment_failure m)
         else if x AND MINI_FLOAT_EXP = MINI_FLOAT_EXP then (None, conversion_failure False m)
         else let (rounded, inexact) = round_float_mode x mode; widened = f64_of_f32 rounded
           in if f64_le MINI_INT64_LIMIT widened \<or> f64_less widened (f64_minus MINI_INT64_LIMIT) then
                (None, conversion_failure True m)
              else (Some (f64_to_i64 widened), if inexact then raise FE_INEXACT m else m))"

definition lrint :: "f64 \<Rightarrow> math_env \<Rightarrow> int \<times> math_env" where
  "lrint x m = (case rounded_double_to_i64 x m of (None, m') \<Rightarrow> (- 9223372036854775807 - 1, m') | (Some n, m') \<Rightarrow> (n, m'))"

definition lrintf :: "f32 \<Rightarrow> math_env \<Rightarrow> int \<times> math_env" where
  "lrintf x m = (case rounded_float_to_i64 x m of (None, m') \<Rightarrow> (- 9223372036854775807 - 1, m') | (Some n, m') \<Rightarrow> (n, m'))"

definition llrint :: "f64 \<Rightarrow> math_env \<Rightarrow> int \<times> math_env" where
  "llrint x m = (case rounded_double_to_i64 x m of (None, m') \<Rightarrow> (- 9223372036854775807 - 1, m') | (Some n, m') \<Rightarrow> (n, m'))"

definition llrintf :: "f32 \<Rightarrow> math_env \<Rightarrow> int \<times> math_env" where
  "llrintf x m = (case rounded_float_to_i64 x m of (None, m') \<Rightarrow> (- 9223372036854775807 - 1, m') | (Some n, m') \<Rightarrow> (n, m'))"

end
