(* ===== verification/Math_Spec.thy ===== *)
theory Math_Spec
  imports Math_Bits Wchar
begin

unbundle bit_operations_syntax

section \<open>What the functions on bits compute\<close>

text \<open>
  A finite \<open>double\<close> stands for the real number \<^term>\<open>f64_val\<close>. Here the functions of \<open>Math_Bits\<close> on \<open>double\<close> are
  compared with the operations on real numbers they stand for.
\<close>

subsection \<open>Fields\<close>

lemma unat_u64: "unat b < 2 ^ 64" for b :: f64
proof -
  have "unat b < 2 ^ LENGTH(64)" by (rule unsigned_less)
  then show ?thesis by simp
qed

lemma f64_fields_less: "f64_exp b < 2 ^ 11" "f64_frac b < 2 ^ 52"
  by (simp_all add: f64_exp_def f64_frac_def)

lemma f64_unat: "unat b = (if f64_neg b then 2 ^ 63 else 0) + f64_exp b * 2 ^ 52 + f64_frac b"
proof -
  have "unat b div 2 ^ 52 = unat b div 2 ^ 52 div 2 ^ 11 * 2 ^ 11 + f64_exp b"
    by (simp add: f64_exp_def)
  moreover have "unat b div 2 ^ 52 div 2 ^ 11 = unat b div 2 ^ 63" by (simp add: div_mult2_eq [symmetric])
  moreover have "unat b div 2 ^ 63 = (if f64_neg b then 1 else 0)"
    using unat_u64 [of b] by (auto simp: f64_neg_def div_nat_eqI)
  moreover have "unat b = unat b div 2 ^ 52 * 2 ^ 52 + f64_frac b" by (simp add: f64_frac_def)
  ultimately show ?thesis by (auto split: if_splits)
qed

lemma f64_make_unat: "n < 2 ^ 63 \<Longrightarrow> unat (f64_make neg n) = (if neg then 2 ^ 63 else 0) + n"
  unfolding f64_make_def unat_of_nat by simp

lemma f64_make_fields:
  assumes "n < 2 ^ 63"
  shows "f64_neg (f64_make neg n) = neg" "f64_exp (f64_make neg n) = n div 2 ^ 52" "f64_frac (f64_make neg n) = n mod 2 ^ 52"
proof -
  note u = f64_make_unat [OF assms, of neg]
  show "f64_neg (f64_make neg n) = neg" using assms by (auto simp: f64_neg_def u)
  have "n div 2 ^ 52 < 2 ^ 11" using assms by (simp add: div_less_iff_less_mult)
  moreover have "(2 ^ 63 + n) div 2 ^ 52 = 2 ^ 11 + n div 2 ^ 52" using div_mult_self3 [of "2 ^ 52" "2 ^ 11" n] by simp
  ultimately show "f64_exp (f64_make neg n) = n div 2 ^ 52" by (auto simp: f64_exp_def u)
  have "(2 ^ 63 + n) mod 2 ^ 52 = n mod 2 ^ 52" using mod_mult_self3 [of "2 ^ 11" "2 ^ 52" n] by simp
  then show "f64_frac (f64_make neg n) = n mod 2 ^ 52" by (auto simp: f64_frac_def u)
qed

lemma f64_by_fields: "b = f64_make (f64_neg b) (f64_exp b * 2 ^ 52 + f64_frac b)"
proof (rule word_unat_eq_iff [THEN iffD2])
  have "f64_exp b * 2 ^ 52 + f64_frac b < 2 ^ 63" using f64_fields_less [of b] by simp
  then show "unat b = unat (f64_make (f64_neg b) (f64_exp b * 2 ^ 52 + f64_frac b))"
    using f64_unat [of b] by (simp add: f64_make_unat)
qed

text \<open>The masks of the source select the fields.\<close>

lemma frac_field: "unat (b AND MINI_DOUBLE_FRAC) = f64_frac b"
proof -
  have m: "MINI_DOUBLE_FRAC = mask 52" by (simp add: MINI_DOUBLE_FRAC_def mask_eq_decr_exp)
  show ?thesis unfolding f64_frac_def m take_bit_eq_mask [symmetric] unsigned_take_bit_eq take_bit_eq_mod by (simp add: unat_mod_distrib)
qed

lemma exp_field: "unat (exponent_field b) = f64_exp b" "drop_bit 52 (b AND MINI_DOUBLE_EXP) = of_nat (f64_exp b)"
proof -
  have m: "MINI_DOUBLE_EXP = push_bit 52 (mask 11)" by (simp add: MINI_DOUBLE_EXP_def mask_eq_decr_exp)
  have "drop_bit 52 (b AND MINI_DOUBLE_EXP) = take_bit 11 (drop_bit 52 b)"
    unfolding m by (intro bit_word_eqI) (auto simp: bit_simps)
  moreover have "unat (take_bit 11 (drop_bit 52 b)) = f64_exp b"
    by (simp add: unsigned_take_bit_eq unsigned_drop_bit_eq take_bit_eq_mod drop_bit_eq_div f64_exp_def unat_mod_distrib unat_div_distrib)
  ultimately have u: "unat (drop_bit 52 (b AND MINI_DOUBLE_EXP)) = f64_exp b" by simp
  then show "drop_bit 52 (b AND MINI_DOUBLE_EXP) = of_nat (f64_exp b)" by (simp flip: u)
  show "unat (exponent_field b) = f64_exp b"
    using f64_fields_less(1) [of b] unfolding exponent_field_def unsigned_ucast_eq u by (simp add: take_bit_nat_eq_self)
qed

lemma sign_bit_only: "n < 64 \<Longrightarrow> 63 \<le> n \<Longrightarrow> n = 63" for n :: nat
  by simp

lemma sign_field: "b AND MINI_DOUBLE_SIGN = f64_make (f64_neg b) 0" "b AND MINI_DOUBLE_SIGN = 0 \<longleftrightarrow> \<not> f64_neg b"
proof -
  have m: "MINI_DOUBLE_SIGN = push_bit 63 1" by (simp add: MINI_DOUBLE_SIGN_def)
  have "b AND MINI_DOUBLE_SIGN = push_bit 63 (of_bool (bit b 63))"
    unfolding m by (rule bit_word_eqI) (simp only: bit_and_iff bit_push_bit_iff bit_1_iff bit_of_bool_iff, auto simp: not_le dest: sign_bit_only)
  moreover have "bit b 63 = f64_neg b"
  proof -
    have "bit b 63 = bit (unat b) 63" by (simp add: bit_unsigned_iff)
    then have "bit b 63 = odd (unat b div 2 ^ 63)" by (simp only: bit_iff_odd)
    moreover have "unat b div 2 ^ 63 = (if f64_neg b then 1 else 0)"
      using unat_u64 [of b] by (auto simp: f64_neg_def div_nat_eqI)
    ultimately show ?thesis by simp
  qed
  ultimately show s: "b AND MINI_DOUBLE_SIGN = f64_make (f64_neg b) 0" by (simp add: f64_make_def)
  show "b AND MINI_DOUBLE_SIGN = 0 \<longleftrightarrow> \<not> f64_neg b" unfolding s by (simp add: f64_make_def)
qed

text \<open>Fields that do not overlap are put together by addition.\<close>

lemma or_parts:
  fixes x y :: "'a::len word"
  assumes "2 ^ k dvd unat x" "unat y < 2 ^ k"
  shows "x OR y = x + y"
proof (rule or_is_sum [OF _ assms(2)])
  have "unat (x AND mask k) = 0" using assms(1) by (simp add: word_and_mask_mod)
  then show "x AND mask k = 0" by (simp add: unat_eq_0)
qed

lemma or_sign: "n < 2 ^ 63 \<Longrightarrow> f64_make neg 0 OR of_nat n = f64_make neg n"
  by (subst or_parts [of 63]) (auto simp: f64_make_unat unat_of_nat f64_make_def)

lemma push_bit_nat: "push_bit k (of_nat n :: 'a::len word) = of_nat (n * 2 ^ k)"
  by (simp add: push_bit_eq_mult)

lemma or_fraction:
  assumes "E < 2 ^ 12" "unat F < 2 ^ 52"
  shows "push_bit 52 (of_nat E) OR F = (of_nat (E * 2 ^ 52 + unat F) :: f64)"
proof -
  have "E * 2 ^ 52 < 2 ^ 64" using assms(1) by simp
  then have "unat (of_nat (E * 2 ^ 52) :: f64) = E * 2 ^ 52" unfolding unat_of_nat by simp
  then show ?thesis using assms(2) by (subst or_parts [of 52]) (simp_all add: push_bit_nat)
qed

subsection \<open>Rounding in a mode\<close>

text \<open>The quotient of two numbers rounded to a whole number; a quotient that is whole is kept.\<close>

definition mode_div :: "int \<Rightarrow> bool \<Rightarrow> nat \<Rightarrow> nat \<Rightarrow> nat" where
  "mode_div mode neg n d =
     (let m = n div d
      in if n mod d = 0 then m
         else if mode = FE_UPWARD then (if neg then m else m + 1)
         else if mode = FE_DOWNWARD then (if neg then m + 1 else m)
         else if mode = FE_TOWARDZERO then m
         else round_div n d)"

lemma mode_div_cong:
  assumes "a * d = c * b" "0 < b" "0 < d"
  shows "mode_div mode neg a b = mode_div mode neg c d"
proof -
  have scale: "mode_div mode neg (n * k) (e * k) = mode_div mode neg n e" if "0 < k" for n e k
    using that by (simp add: mode_div_def round_div_def Let_def mult.assoc [symmetric] flip: mult_mod_left)
  show ?thesis using scale [of d a b] scale [of b c d] assms by (simp add: mult.commute)
qed

lemma mode_div_whole: "0 < d \<Longrightarrow> mode_div mode neg (n * d) d = n"
  by (simp add: mode_div_def)

lemma mode_div_exact: "mode_div mode neg n d * d = n \<longleftrightarrow> n mod d = 0"
proof
  show "mode_div mode neg n d * d = n \<Longrightarrow> n mod d = 0" by (metis mod_mult_self2_is_0)
  assume "n mod d = 0"
  then show "mode_div mode neg n d * d = n" by (simp add: mode_div_def mod_eq_0_iff_dvd)
qed

lemma mode_div_bounds:
  assumes "0 < d" "lo * d \<le> n" "n < hi * d"
  shows "lo \<le> mode_div mode neg n d" "mode_div mode neg n d \<le> hi"
proof -
  have "lo \<le> n div d" using assms(1,2) by (simp add: less_eq_div_iff_mult_less_eq)
  moreover have "n div d < hi" using assms(1,3) by (simp add: div_less_iff_less_mult)
  ultimately show "lo \<le> mode_div mode neg n d" "mode_div mode neg n d \<le> hi"
    using round_div_bounds [OF assms] by (auto simp: mode_div_def Let_def)
qed

lemma highest_bit: "highest_bit_u64 v = int (bits_of (unat v)) - 1"
proof -
  have "highest_bit_loop v b = b + int (bits_of (unat v))" for b
  proof (induction v b rule: highest_bit_loop.induct)
    case (1 v b)
    show ?case
    proof (cases "v = 0")
      case True
      then show ?thesis by (simp add: highest_bit_loop.simps bits_of_numeral)
    next
      case False
      have "unat (drop_bit 1 v) = unat v div 2" by (simp add: unsigned_drop_bit_eq drop_bit_eq_div unat_div_distrib)
      moreover have "unat v \<noteq> 0" using False by (simp add: unat_eq_0)
      then have "bits_of (unat v) = Suc (bits_of (unat v div 2))" by (subst bits_of.simps) simp
      ultimately show ?thesis using False 1 by (subst highest_bit_loop.simps) simp
    qed
  qed
  then show ?thesis by (simp add: highest_bit_u64_def)
qed

lemma unat_push_one: "k < 64 \<Longrightarrow> unat (push_bit k 1 :: u64) = 2 ^ k"
proof -
  assume "k < 64"
  then have "(2 :: nat) ^ k < 2 ^ 64" by (intro power_strict_increasing) simp_all
  moreover have "push_bit k 1 = (of_nat (2 ^ k) :: u64)" by (simp add: push_bit_eq_mult)
  ultimately show ?thesis by (simp only: unat_of_nat) simp
qed

lemma unat_and_below: "k < 64 \<Longrightarrow> unat (v AND (push_bit k 1 - 1)) = unat v mod 2 ^ k" for v :: u64
proof -
  have "(push_bit k 1 - 1 :: u64) = mask k" by (simp add: mask_eq_decr_exp push_bit_eq_mult)
  then show ?thesis by (simp add: word_and_mask_mod)
qed

lemma round_shift_spec:
  assumes "unat v < 2 ^ 63"
  shows "round_shift_mode v shift neg mode =
    (of_nat (mode_div mode neg (unat v) (2 ^ unat shift)), unat v mod 2 ^ unat shift \<noteq> 0)"
proof -
  consider "shift = 0" | "64 \<le> shift" | "shift \<noteq> 0" "shift < 64" by (meson not_le)
  then show ?thesis
  proof cases
    case 1
    then show ?thesis by (simp add: round_shift_mode_def mode_div_def)
  next
    case 2
    then have "64 \<le> unat shift" by (simp add: word_le_nat_alt)
    then have "(2 :: nat) ^ 64 \<le> 2 ^ unat shift" by (intro power_increasing) simp_all
    moreover have "(2 :: nat) ^ 64 = 2 * 2 ^ 63" by simp
    ultimately have "unat v < 2 ^ unat shift" "2 * unat v < 2 ^ unat shift" using assms by linarith+
    moreover have "shift \<noteq> 0" "\<not> shift < 64" using 2 by auto
    ultimately show ?thesis using 2
      by (simp add: round_shift_mode_def mode_div_def round_div_def Let_def unat_eq_0)
  next
    case 3
    define s where "s = unat shift"
    have s: "0 < s" "s < 64" using 3 by (simp_all add: s_def unat_gt_0 word_less_nat_alt)
    have s1: "unat (shift - 1) = s - 1" using 3(1) by (simp add: s_def unat_minus_one)
    have q: "drop_bit s v = of_nat (unat v div 2 ^ s)"
    proof -
      have "unat (drop_bit s v) = unat v div 2 ^ s"
        using unat_u64 [of v] by (simp add: unsigned_drop_bit_eq drop_bit_eq_div [where 'a = nat] take_bit_nat_eq_self)
      then show ?thesis by (simp flip: \<open>unat (drop_bit s v) = unat v div 2 ^ s\<close>)
    qed
    define r where "r = unat v mod 2 ^ s"
    have rest: "unat (v AND (push_bit s 1 - 1)) = r" unfolding r_def using s(2) by (rule unat_and_below)
    have half: "unat (push_bit (s - 1) 1 :: u64) = 2 ^ (s - 1)" using s by (intro unat_push_one) simp
    have d: "(2 :: nat) ^ s = 2 * 2 ^ (s - 1)" using s(1) by (simp add: power_eq_if)
    have "unat v div 2 ^ s < 2 ^ 64" using unat_u64 [of v] by (meson div_le_dividend le_less_trans)
    then have odd: "of_nat (unat v div 2 ^ s) AND (1 :: u64) \<noteq> 0 \<longleftrightarrow> odd (unat v div 2 ^ s)"
    proof -
      have "unat (of_nat (unat v div 2 ^ s) AND (1 :: u64)) = unat v div 2 ^ s mod 2"
        using word_and_mask_mod [of "of_nat (unat v div 2 ^ s) :: u64" 1] \<open>unat v div 2 ^ s < 2 ^ 64\<close> by (simp add: unat_of_nat)
      then show ?thesis by (simp only: word_unat_eq_iff unat_0 odd_iff_mod_2_eq_one) auto
    qed
    have lim: "\<not> 64 \<le> shift" using 3 by simp
    have cmp: "push_bit (s - 1) 1 < v AND (push_bit s 1 - 1) \<longleftrightarrow> 2 ^ s < 2 * r"
      "v AND (push_bit s 1 - 1) = push_bit (s - 1) 1 \<longleftrightarrow> 2 ^ s = 2 * r" "v AND (push_bit s 1 - 1) = 0 \<longleftrightarrow> r = 0"
      by (simp_all only: word_less_nat_alt word_unat_eq_iff rest half d unat_0) auto
    define Q where "Q = unat v div 2 ^ s"
    show ?thesis
      unfolding round_shift_mode_def s_def [symmetric] s1 q Let_def
      by (simp only: 3 lim if_False if_True cmp odd)
        (simp add: mode_div_def round_div_def Let_def r_def [symmetric] Q_def [symmetric])
  qed
qed

text \<open>The rounding of \<^const>\<open>f64_round\<close> in any of the four modes, which agrees with it in the default one. Beyond the
  largest number it gives an infinity in every mode, as the source does.\<close>

definition f64_round_in :: "int \<Rightarrow> bool \<Rightarrow> nat \<Rightarrow> nat \<Rightarrow> f64" where
  "f64_round_in mode neg p q =
     (if p = 0 then f64_make neg 0
      else let e = max (lead_exp p q) (- 1022); k = e - 52;
               m = mode_div mode neg (p * pow_up (- k)) (q * pow_up k);
               n = nat (e + 1022) * 2 ^ 52 + m
           in f64_make neg (min n (0x7ff * 2 ^ 52)))"

lemma f64_round_nearest: "0 < q \<Longrightarrow> f64_round_in FE_TONEAREST neg p q = f64_round neg p q"
proof -
  have "mode_div FE_TONEAREST neg n d = round_div n d" if "0 < d" for n d
    using that by (auto simp: mode_div_def round_div_def Let_def fe_modes)
  moreover assume "0 < q"
  ultimately show ?thesis by (simp add: f64_round_in_def f64_round_def Let_def pow_up_def)
qed

lemma pow_up_real: "real (pow_up k) = real (pow_up (- k)) * 2 powi k"
  by (cases "0 \<le> k") (simp_all add: pow_up_def power_int_def field_simps)

lemma pow_up_pos [simp]: "0 < pow_up k"
  by (simp add: pow_up_def)

lemma lead_exp_bounds:
  assumes "0 < p" "0 < q"
  shows "real q * 2 powi lead_exp p q \<le> real p" "real p < real q * 2 powi (lead_exp p q + 1)"
proof -
  define e where "e = int (bits_of p) - int (bits_of q)"
  have b: "real n < 2 powi int (bits_of n)" "2 powi (int (bits_of n) - 1) \<le> real n" if "0 < n" for n
  proof -
    have "n < 2 ^ bits_of n" "2 ^ (bits_of n - 1) \<le> n" "0 < bits_of n" using bits_of_bounds [OF that] by simp_all
    then have "real n < real (2 ^ bits_of n)" "real (2 ^ (bits_of n - 1)) \<le> real n" by (simp_all only: of_nat_less_iff of_nat_le_iff)
    moreover have "int (bits_of n) - 1 = int (bits_of n - 1)" using \<open>0 < bits_of n\<close> by simp
    ultimately show "real n < 2 powi int (bits_of n)" "2 powi (int (bits_of n) - 1) \<le> real n"
      by (simp_all only: power_int_of_nat of_nat_power of_nat_numeral)
  qed
  have up: "real p < real q * 2 powi (e + 1)"
  proof -
    have "real p < 2 powi int (bits_of p)" by (rule b(1) [OF assms(1)])
    also have "\<dots> = 2 powi (int (bits_of q) - 1) * 2 powi (e + 1)" by (subst power_int_add [symmetric]) (simp_all add: e_def)
    also have "\<dots> \<le> real q * 2 powi (e + 1)" using b(2) [OF assms(2)] by (intro mult_right_mono) simp_all
    finally show ?thesis .
  qed
  have low: "real q * 2 powi (e - 1) \<le> real p"
  proof -
    have "real q * 2 powi (e - 1) \<le> 2 powi int (bits_of q) * 2 powi (e - 1)" using b(1) [OF assms(2)] by (intro mult_right_mono) simp_all
    also have "\<dots> = 2 powi (int (bits_of p) - 1)" by (subst power_int_add [symmetric]) (simp_all add: e_def)
    also have "\<dots> \<le> real p" by (rule b(2) [OF assms(1)])
    finally show ?thesis .
  qed
  have "q * pow_up e \<le> p * pow_up (- e) \<longleftrightarrow> real (q * pow_up e) \<le> real (p * pow_up (- e))" by (simp only: of_nat_le_iff)
  also have "\<dots> \<longleftrightarrow> real q * 2 powi e * real (pow_up (- e)) \<le> real p * real (pow_up (- e))"
    unfolding of_nat_mult pow_up_real [of e] by (simp add: mult_ac)
  also have "\<dots> \<longleftrightarrow> real q * 2 powi e \<le> real p" by simp
  finally have "lead_exp p q = (if real q * 2 powi e \<le> real p then e else e - 1)"
    by (simp add: lead_exp_def Let_def e_def)
  then show "real q * 2 powi lead_exp p q \<le> real p" "real p < real q * 2 powi (lead_exp p q + 1)"
    using up low by auto
qed

lemma lead_exp_eq:
  assumes "0 < p" "0 < q" "real q * 2 powi t \<le> real p" "real p < real q * 2 powi (t + 1)"
  shows "lead_exp p q = t"
proof -
  have less: "a < b + 1" if "real q * 2 powi a \<le> real p" "real p < real q * 2 powi (b + 1)" for a b :: int
  proof -
    have "real q * 2 powi a < real q * 2 powi (b + 1)" using that by linarith
    then have "(2 :: real) powi a < 2 powi (b + 1)" using assms(2) by simp
    then show ?thesis using power_int_increasing [of "b + 1" a "2 :: real"] by (cases "b + 1 \<le> a") simp_all
  qed
  show ?thesis
    using less [OF assms(3) lead_exp_bounds(2) [OF assms(1,2)]] less [OF lead_exp_bounds(1) [OF assms(1,2)] assms(4)] by simp
qed

text \<open>A number with the 53-bit significand \<open>s\<close> and the exponent \<open>t\<close>, rounded.\<close>

lemma f64_round_in_at:
  assumes "0 < p" "0 < q" "2 ^ 52 \<le> s" "s < 2 ^ 53" "real p = real q * real s * 2 powi (t - 52)"
  shows "f64_round_in mode neg p q =
    (if 1023 < t then f64_make neg (0x7ff * 2 ^ 52)
     else if - 1022 \<le> t then f64_make neg (nat (t + 1022) * 2 ^ 52 + s)
     else f64_make neg (mode_div mode neg s (2 ^ nat (- t - 1022))))"
proof -
  have s: "2 ^ 52 \<le> real s" "real s < 2 ^ 53"
  proof -
    have "real (2 ^ 52) \<le> real s" "real s < real (2 ^ 53)" using assms(3,4) by (simp_all only: of_nat_less_iff of_nat_le_iff)
    then show "2 ^ 52 \<le> real s" "real s < 2 ^ 53" by simp_all
  qed
  have two: "(2 :: real) powi t = 2 ^ 52 * 2 powi (t - 52)" "(2 :: real) powi (t + 1) = 2 ^ 53 * 2 powi (t - 52)"
    by (subst power_int_of_nat [symmetric], subst power_int_add [symmetric]; simp add: add.commute)+
  have lead: "lead_exp p q = t"
  proof (rule lead_exp_eq [OF assms(1,2)])
    show "real q * 2 powi t \<le> real p" unfolding assms(5) two using s(1) assms(2) by (simp add: mult_ac)
    show "real p < real q * 2 powi (t + 1)" unfolding assms(5) two using s(2) assms(2) by (simp add: mult_ac)
  qed
  define e where "e = max t (- 1022)"
  have m: "mode_div mode neg (p * pow_up (- (e - 52))) (q * pow_up (e - 52)) = mode_div mode neg s (2 ^ nat (e - t))"
  proof (rule mode_div_cong)
    have "real (p * pow_up (- (e - 52)) * 2 ^ nat (e - t)) = real q * real s * real (pow_up (- (e - 52))) * (2 powi (t - 52) * 2 ^ nat (e - t))"
      by (simp add: assms(5) mult_ac)
    also have "(2 :: real) powi (t - 52) * 2 ^ nat (e - t) = 2 powi (e - 52)"
    proof -
      have "(2 :: real) ^ nat (e - t) = 2 powi (e - t)" by (simp add: power_int_def e_def)
      then show ?thesis by (simp flip: power_int_add)
    qed
    also have "real q * real s * real (pow_up (- (e - 52))) * 2 powi (e - 52) = real (s * (q * pow_up (e - 52)))"
      using pow_up_real [of "e - 52"] by simp
    finally show "p * pow_up (- (e - 52)) * 2 ^ nat (e - t) = s * (q * pow_up (e - 52))" by (simp only: of_nat_eq_iff)
  qed (use assms(2) in simp_all)
  have r: "f64_round_in mode neg p q =
      f64_make neg (min (nat (e + 1022) * 2 ^ 52 + mode_div mode neg s (2 ^ nat (e - t))) (0x7ff * 2 ^ 52))"
    using assms(1) by (simp only: f64_round_in_def lead e_def [symmetric] Let_def m if_False neq0_conv [symmetric])
  consider "1023 < t" | "- 1022 \<le> t" "t \<le> 1023" | "t < - 1022" by linarith
  then show ?thesis
  proof cases
    case 1
    then have "e = t" by (simp add: e_def)
    moreover have "2046 * 2 ^ 52 \<le> nat (t + 1022) * 2 ^ 52" using 1 by (intro mult_le_mono1) simp
    ultimately show ?thesis using 1 assms(3) mode_div_whole [of 1] unfolding r by simp
  next
    case 2
    then have "e = t" by (simp add: e_def)
    moreover have "nat (t + 1022) * 2 ^ 52 \<le> 2045 * 2 ^ 52" using 2 by (intro mult_le_mono1) simp
    ultimately show ?thesis using 2 assms(4) mode_div_whole [of 1] unfolding r by simp
  next
    case 3
    then have e: "e = - 1022" by (simp add: e_def)
    have "mode_div mode neg s (2 ^ nat (e - t)) \<le> 2 ^ 53"
    proof (rule mode_div_bounds(2))
      show "0 * 2 ^ nat (e - t) \<le> s" by simp
      show "s < 2 ^ 53 * 2 ^ nat (e - t)" using assms(4) by (rule less_le_trans) simp
    qed simp_all
    moreover have "nat (- 1022 - t) = nat (- t - 1022)" by (rule arg_cong [where f = nat]) simp
    ultimately show ?thesis using 3 unfolding r e by simp
  qed
qed

subsection \<open>Scaling\<close>

text \<open>The significand, shifted up to 53 bits, and the exponent of a number that is neither zero nor special.\<close>

definition wide_sig :: "f64 \<Rightarrow> nat" where
  "wide_sig b = (if f64_exp b \<noteq> 0 then 2 ^ 52 + f64_frac b else f64_frac b * 2 ^ (53 - bits_of (f64_frac b)))"

definition wide_exp :: "f64 \<Rightarrow> int" where
  "wide_exp b = (if f64_exp b \<noteq> 0 then int (f64_exp b) - 1023 else int (bits_of (f64_frac b)) - 1075)"

lemma bits_of_frac: "bits_of (f64_frac b) \<le> 52"
proof (cases "f64_frac b = 0")
  case False
  then have "2 ^ (bits_of (f64_frac b) - 1) \<le> f64_frac b" using bits_of_bounds [of "f64_frac b"] by simp
  then have "(2 :: nat) ^ (bits_of (f64_frac b) - 1) < 2 ^ 52" using f64_fields_less(2) [of b] by linarith
  then have "bits_of (f64_frac b) - 1 < 52" by (rule power_less_imp_less_exp [rotated]) simp
  then show ?thesis by simp
qed (simp add: bits_of_numeral)

lemma wide_sig_range:
  assumes "f64_sig b \<noteq> 0"
  shows "2 ^ 52 \<le> wide_sig b" "wide_sig b < 2 ^ 53"
proof -
  have "2 ^ 52 \<le> wide_sig b \<and> wide_sig b < 2 ^ 53"
  proof (cases "f64_exp b = 0")
    case True
    define n where "n = f64_frac b"
    have n: "0 < bits_of n" "2 ^ (bits_of n - 1) \<le> n" "n < 2 ^ bits_of n" "bits_of n \<le> 52"
      using True assms bits_of_bounds [of n] bits_of_frac [of b] by (simp_all add: n_def f64_sig_def)
    have w: "wide_sig b = n * 2 ^ (53 - bits_of n)" using True by (simp add: wide_sig_def n_def)
    have "2 ^ (bits_of n - 1) * 2 ^ (53 - bits_of n) \<le> wide_sig b" unfolding w using n(2) by (rule mult_le_mono1)
    moreover have "wide_sig b < 2 ^ bits_of n * 2 ^ (53 - bits_of n)" unfolding w using n(3) by simp
    moreover have "bits_of n - 1 + (53 - bits_of n) = 52" "bits_of n + (53 - bits_of n) = 53" using n(1,4) by simp_all
    ultimately show ?thesis by (simp only: power_add [symmetric]) 
  next
    case False
    then show ?thesis using f64_fields_less(2) [of b] by (simp add: wide_sig_def)
  qed
  then show "2 ^ 52 \<le> wide_sig b" "wide_sig b < 2 ^ 53" by simp_all
qed

lemma wide_mag: "real (f64_sig b) = real (wide_sig b) * 2 powi (wide_exp b - 52 - f64_pow b)"
proof (cases "f64_exp b = 0")
  case True
  have e: "wide_exp b - 52 - f64_pow b = - int (53 - bits_of (f64_frac b))"
    using True bits_of_frac [of b] by (simp add: wide_exp_def f64_pow_def)
  have "(2 :: real) ^ (53 - bits_of (f64_frac b)) * 2 powi (- int (53 - bits_of (f64_frac b))) = 1"
    by (simp add: power_int_minus)
  then show ?thesis unfolding e using True by (simp add: wide_sig_def f64_sig_def mult.assoc)
next
  case False
  then show ?thesis by (simp add: wide_sig_def wide_exp_def f64_sig_def f64_pow_def)
qed

text \<open>The two words of the source.\<close>

lemma source_exp: "(if exponent_field b \<noteq> 0 then sint (exponent_field b) - 1023 else highest_bit_u64 (b AND MINI_DOUBLE_FRAC) - 1074) = wide_exp b"
proof -
  have "sint (exponent_field b) = int (f64_exp b)"
  proof -
    have "exponent_field b = of_nat (f64_exp b)" using exp_field(1) [of b] by (simp flip: exp_field(1))
    then show ?thesis using f64_fields_less(1) [of b] by (simp add: signed_of_nat signed_take_bit_int_eq_self)
  qed
  moreover have "exponent_field b = 0 \<longleftrightarrow> f64_exp b = 0" using exp_field(1) [of b] by (simp add: word_unat_eq_iff)
  ultimately show ?thesis by (simp add: wide_exp_def highest_bit frac_field)
qed

lemma source_sig:
  "unat (if exponent_field b \<noteq> 0 then push_bit 52 1 OR (b AND MINI_DOUBLE_FRAC)
    else push_bit (nat (52 - highest_bit_u64 (b AND MINI_DOUBLE_FRAC))) (b AND MINI_DOUBLE_FRAC)) = wide_sig b"
  if "f64_sig b \<noteq> 0"
proof -
  have field: "exponent_field b = 0 \<longleftrightarrow> f64_exp b = 0" using exp_field(1) [of b] by (simp add: word_unat_eq_iff)
  have lim: "wide_sig b < 2 ^ 64" using wide_sig_range(2) [OF that] by simp
  have "(if exponent_field b \<noteq> 0 then push_bit 52 1 OR (b AND MINI_DOUBLE_FRAC)
    else push_bit (nat (52 - highest_bit_u64 (b AND MINI_DOUBLE_FRAC))) (b AND MINI_DOUBLE_FRAC)) = of_nat (wide_sig b)"
  proof (cases "f64_exp b = 0")
    case True
    have "b AND MINI_DOUBLE_FRAC = of_nat (f64_frac b)" using frac_field [of b] by (simp flip: frac_field)
    moreover have "nat (52 - highest_bit_u64 (b AND MINI_DOUBLE_FRAC)) = 53 - bits_of (f64_frac b)"
      using bits_of_frac [of b] by (simp add: highest_bit frac_field)
    ultimately show ?thesis using True field by (simp add: wide_sig_def push_bit_nat)
  next
    case False
    have "push_bit 52 (of_nat 1) OR (b AND MINI_DOUBLE_FRAC) = (of_nat (1 * 2 ^ 52 + unat (b AND MINI_DOUBLE_FRAC)) :: f64)"
      using f64_fields_less(2) [of b] by (intro or_fraction) (simp_all add: frac_field)
    then show ?thesis using False field by (simp add: wide_sig_def frac_field)
  qed
  then show ?thesis using lim by (simp only: unat_of_nat) simp
qed

text \<open>What \<open>scale_double\<close> makes of the parts.\<close>

lemma field_tests:
  "exponent_field b = 0x7ff \<longleftrightarrow> f64_exp b = 0x7ff" "exponent_field b = 0 \<longleftrightarrow> f64_exp b = 0"
  "b AND MINI_DOUBLE_FRAC = 0 \<longleftrightarrow> f64_frac b = 0"
  using exp_field(1) [of b] frac_field [of b] by (simp_all add: word_unat_eq_iff)

lemma zero_sig: "f64_sig b = 0 \<longleftrightarrow> f64_exp b = 0 \<and> f64_frac b = 0"
  by (simp add: f64_sig_def)

lemma sig_low_bits: "unat s < 2 ^ 53 \<Longrightarrow> 2 ^ 52 \<le> unat s \<Longrightarrow> unat (s AND MINI_DOUBLE_FRAC) = unat s - 2 ^ 52" for s :: f64
proof -
  assume a: "unat s < 2 ^ 53" "2 ^ 52 \<le> unat s"
  have m: "MINI_DOUBLE_FRAC = mask 52" by (simp add: MINI_DOUBLE_FRAC_def mask_eq_decr_exp)
  have "unat s mod 2 ^ 52 = unat s - 2 ^ 52" using a by (simp add: mod_if)
  then show ?thesis unfolding m word_and_mask_mod .
qed

lemma wide_exp_range: "- 1075 \<le> wide_exp b" "wide_exp b \<le> 1024"
  using bits_of_bounds [of "f64_frac b"] bits_of_frac [of b] f64_fields_less(1) [of b] by (auto simp: wide_exp_def zero_sig)

lemma scale_double_parts:
  fixes n :: int
  assumes "f64_finite b" "f64_sig b \<noteq> 0"
  defines "s \<equiv> wide_sig b" and "t \<equiv> wide_exp b + n"
  assumes n: "- (2 ^ 31) \<le> n" "n < 2 ^ 31"
  shows "scale_double b n mode =
    (if 1023 < t then (f64_make (f64_neg b) (0x7ff * 2 ^ 52), SCALE_OVERFLOW)
     else if - 1022 \<le> t then (f64_make (f64_neg b) (nat (t + 1022) * 2 ^ 52 + s), SCALE_EXACT)
     else let r = mode_div mode (f64_neg b) s (2 ^ nat (- t - 1022)); discarded = (s mod 2 ^ nat (- t - 1022) \<noteq> 0)
       in (f64_make (f64_neg b) r,
           if discarded then if 2 ^ 52 \<le> r then SCALE_INEXACT else SCALE_UNDERFLOW else SCALE_EXACT))"
proof -
  have s: "2 ^ 52 \<le> s" "s < 2 ^ 53" using wide_sig_range [OF assms(2)] by (simp_all add: s_def)
  define w where "w = (if exponent_field b \<noteq> 0 then push_bit 52 1 OR (b AND MINI_DOUBLE_FRAC)
    else push_bit (nat (52 - highest_bit_u64 (b AND MINI_DOUBLE_FRAC))) (b AND MINI_DOUBLE_FRAC))"
  have w: "unat w = s" using source_sig [OF assms(2)] by (simp only: w_def s_def)
  have norm: "\<not> (exponent_field b = 0x7ff \<or> exponent_field b = 0 \<and> b AND MINI_DOUBLE_FRAC = 0)"
    using assms(1,2) by (simp add: field_tests zero_sig f64_finite_def)
  have sd: "scale_double b n mode =
    (if 1023 < t then ((b AND MINI_DOUBLE_SIGN) OR MINI_DOUBLE_EXP, SCALE_OVERFLOW)
     else if - 1022 \<le> t then
       ((b AND MINI_DOUBLE_SIGN) OR push_bit 52 (word_of_int (t + 1023)) OR (w AND MINI_DOUBLE_FRAC), SCALE_EXACT)
     else let (rounded, discarded) = round_shift_mode w (word_of_int (- t - 1022)) (b AND MINI_DOUBLE_SIGN \<noteq> 0) mode
       in if push_bit 52 1 \<le> rounded then ((b AND MINI_DOUBLE_SIGN) OR push_bit 52 1, if discarded then SCALE_INEXACT else SCALE_EXACT)
          else ((b AND MINI_DOUBLE_SIGN) OR rounded, if discarded then SCALE_UNDERFLOW else SCALE_EXACT))"
    unfolding scale_double_def Let_def w_def [symmetric] source_exp t_def using norm by (simp only: if_False)
  consider "1023 < t" | "- 1022 \<le> t" "t \<le> 1023" | "t < - 1022" by linarith
  then show ?thesis
  proof cases
    case 1
    have "MINI_DOUBLE_EXP = of_nat (0x7ff * 2 ^ 52)" by (simp add: MINI_DOUBLE_EXP_def)
    then show ?thesis using 1 or_sign [of "0x7ff * 2 ^ 52" "f64_neg b"] by (simp only: sd sign_field if_True) simp
  next
    case 2
    have "push_bit 52 (word_of_int (t + 1023)) OR (w AND MINI_DOUBLE_FRAC) =
        (of_nat (nat (t + 1023) * 2 ^ 52 + unat (w AND MINI_DOUBLE_FRAC)) :: f64)"
    proof -
      have "(word_of_int (t + 1023) :: f64) = of_nat (nat (t + 1023))" using 2 by simp
      moreover have "nat (t + 1023) < 2 ^ 12" using 2 by simp
      ultimately show ?thesis using or_fraction [of "nat (t + 1023)" "w AND MINI_DOUBLE_FRAC"] s by (simp only: sig_low_bits w) simp
    qed
    also have "nat (t + 1023) * 2 ^ 52 + unat (w AND MINI_DOUBLE_FRAC) = nat (t + 1022) * 2 ^ 52 + s"
    proof -
      have "nat (t + 1023) = nat (t + 1022) + 1" using 2 by simp
      then show ?thesis using s by (simp only: sig_low_bits w) simp
    qed
    finally have "push_bit 52 (word_of_int (t + 1023)) OR (w AND MINI_DOUBLE_FRAC) = (of_nat (nat (t + 1022) * 2 ^ 52 + s) :: f64)" .
    moreover have "nat (t + 1022) * 2 ^ 52 + s < 2 ^ 63"
    proof -
      have "nat (t + 1022) * 2 ^ 52 \<le> 2045 * 2 ^ 52" using 2 by (intro mult_le_mono1) simp
      then show ?thesis using s(2) by simp
    qed
    ultimately show ?thesis using 2 or_sign by (simp only: sd sign_field or.assoc) simp
  next
    case 3
    define k where "k = nat (- t - 1022)"
    have k: "1 \<le> k" "int k = - t - 1022" using 3 by (simp_all add: k_def)
    have "k < 2 ^ 64" using k(2) n wide_exp_range [of b] by (simp add: t_def)
    then have shift: "unat (word_of_int (- t - 1022) :: u64) = k" using k(2) by (simp flip: k(2) add: unat_of_nat)
    define r where "r = mode_div mode (f64_neg b) s (2 ^ k)"
    have r: "r \<le> 2 ^ 52"
      unfolding r_def
    proof (rule mode_div_bounds(2))
      show "0 * 2 ^ k \<le> s" by simp
      have "(2 :: nat) ^ 53 \<le> 2 ^ 52 * 2 ^ k" using k(1) unfolding power_add [symmetric] by (intro power_increasing) simp_all
      then show "s < 2 ^ 52 * 2 ^ k" using s(2) by linarith
    qed simp
    have rs: "round_shift_mode w (word_of_int (- t - 1022)) (b AND MINI_DOUBLE_SIGN \<noteq> 0) mode = (of_nat r, s mod 2 ^ k \<noteq> 0)"
      using round_shift_spec [of w "word_of_int (- t - 1022)" "f64_neg b" mode] s(2) unfolding w shift r_def
      by (simp add: sign_field(2))
    have cmp: "(push_bit 52 1 :: f64) \<le> of_nat r \<longleftrightarrow> 2 ^ 52 \<le> r"
    proof -
      have "unat (of_nat r :: f64) = r" using r unfolding unat_of_nat by simp
      then show ?thesis by (simp add: word_le_nat_alt unat_push_one)
    qed
    have top: "(b AND MINI_DOUBLE_SIGN) OR push_bit 52 1 = f64_make (f64_neg b) (2 ^ 52)"
      using or_sign [of "2 ^ 52" "f64_neg b"] push_bit_nat [of 52 1, where 'a = 64] by (simp only: sign_field(1)) simp
    have low: "(b AND MINI_DOUBLE_SIGN) OR of_nat r = f64_make (f64_neg b) r"
      using or_sign [of r "f64_neg b"] r by (simp add: sign_field(1))
    have t: "\<not> 1023 < t" "\<not> - 1022 \<le> t" using 3 by simp_all
    define D where "D = (s mod 2 ^ k \<noteq> 0)"
    have lhs: "scale_double b n mode =
        (f64_make (f64_neg b) r, if D then if 2 ^ 52 \<le> r then SCALE_INEXACT else SCALE_UNDERFLOW else SCALE_EXACT)"
    proof (cases "2 ^ 52 \<le> r")
      case True
      then have "r = 2 ^ 52" using r by simp
      then show ?thesis unfolding sd rs Let_def split cmp top low D_def [symmetric] by (simp only: t if_False if_True True order_refl simp_thms)
    next
      case False
      then show ?thesis unfolding sd rs Let_def split cmp top low D_def [symmetric] by (simp only: t if_False)
    qed
    then show ?thesis unfolding lhs k_def [symmetric] r_def [symmetric] Let_def D_def [symmetric] by (simp only: t if_False)
  qed
qed

lemma f64_mag_make:
  assumes "2 ^ 52 \<le> s" "s < 2 ^ 53" "- 1022 \<le> t" "t \<le> 1023"
  shows "f64_finite (f64_make neg (nat (t + 1022) * 2 ^ 52 + s))"
    "f64_mag (f64_make neg (nat (t + 1022) * 2 ^ 52 + s)) = real s * 2 powi (t - 52)"
proof -
  define E where "E = nat (t + 1023)"
  have e: "nat (t + 1022) * 2 ^ 52 + s = E * 2 ^ 52 + (s - 2 ^ 52)"
  proof -
    have "nat (t + 1023) = nat (t + 1022) + 1" using assms(3) by simp
    then show ?thesis using assms(1) by (simp add: E_def)
  qed
  have E: "1 \<le> E" "E \<le> 2046" "int E = t + 1023" using assms(3,4) by (simp_all add: E_def)
  have f: "s - 2 ^ 52 < 2 ^ 52" using assms(1,2) by simp
  have "E * 2 ^ 52 \<le> 2046 * 2 ^ 52" using E(2) by (rule mult_le_mono1)
  then have lim: "E * 2 ^ 52 + (s - 2 ^ 52) < 2 ^ 63" using f by simp
  have "(E * 2 ^ 52 + (s - 2 ^ 52)) div 2 ^ 52 = E" "(E * 2 ^ 52 + (s - 2 ^ 52)) mod 2 ^ 52 = s - 2 ^ 52"
    using f by (simp_all add: div_add1_eq)
  moreover define B where "B = f64_make neg (nat (t + 1022) * 2 ^ 52 + s)"
  ultimately have x: "f64_exp B = E" "f64_frac B = s - 2 ^ 52"
    unfolding B_def e by (simp_all only: f64_make_fields [OF lim])
  have "f64_finite B" using E(2) by (simp add: f64_finite_def x)
  then show "f64_finite (f64_make neg (nat (t + 1022) * 2 ^ 52 + s))" by (simp only: B_def)
  have "f64_sig B = s" using E(1) assms(1) by (simp add: f64_sig_def x)
  moreover have "f64_pow B = t - 52" using E(1,3) by (simp add: f64_pow_def x)
  ultimately have "f64_mag B = real s * 2 powi (t - 52)" by (simp only: f64_mag_def)
  then show "f64_mag (f64_make neg (nat (t + 1022) * 2 ^ 52 + s)) = real s * 2 powi (t - 52)" by (simp only: B_def)
qed

lemma f64_mag_small:
  assumes "r \<le> 2 ^ 52"
  shows "f64_finite (f64_make neg r)" "f64_mag (f64_make neg r) = real r * 2 powi (- 1074)"
proof -
  have lim: "r < 2 ^ 63" using assms by simp
  define B where "B = f64_make neg r"
  have x: "f64_exp B = r div 2 ^ 52" "f64_frac B = r mod 2 ^ 52" by (simp_all only: B_def f64_make_fields [OF lim])
  consider "r < 2 ^ 52" | "r = 2 ^ 52" using assms by linarith
  then have "f64_exp B \<le> 1" "f64_sig B = r" "f64_pow B = - 1074"
    by (cases, simp_all add: f64_sig_def f64_pow_def x)+
  then have "f64_finite B \<and> f64_mag B = real r * 2 powi (- 1074)"
    by (simp add: f64_finite_def f64_mag_def)
  then show "f64_finite (f64_make neg r)" "f64_mag (f64_make neg r) = real r * 2 powi (- 1074)" by (simp_all only: B_def)
qed

lemma f64_val_scaled: "f64_neg r = f64_neg x \<Longrightarrow> f64_val r = f64_val x * c \<longleftrightarrow> f64_mag r = f64_mag x * c"
  by (simp add: f64_val_def)

lemma f64_mag_wide: "f64_mag b = real (wide_sig b) * 2 powi (wide_exp b - 52)"
  unfolding f64_mag_def wide_mag by (simp add: mult.assoc power_int_add [symmetric])

lemma scaled_ratio:
  "real (f64_sig x * pow_up (f64_pow x + n)) =
    real (pow_up (- (f64_pow x + n))) * real (wide_sig x) * 2 powi (wide_exp x + n - 52)"
proof -
  have "real (f64_sig x * pow_up (f64_pow x + n)) =
      real (wide_sig x) * 2 powi (wide_exp x - 52 - f64_pow x) * (real (pow_up (- (f64_pow x + n))) * 2 powi (f64_pow x + n))"
    by (simp only: of_nat_mult wide_mag [of x] pow_up_real [of "f64_pow x + n"])
  also have "\<dots> = real (pow_up (- (f64_pow x + n))) * real (wide_sig x) * (2 powi (wide_exp x - 52 - f64_pow x) * 2 powi (f64_pow x + n))"
    by (simp only: mult_ac)
  also have "2 powi (wide_exp x - 52 - f64_pow x) * 2 powi (f64_pow x + n) = (2 powi (wide_exp x + n - 52) :: real)"
    by (subst power_int_add [symmetric]) (simp_all add: algebra_simps)
  finally show ?thesis .
qed

lemma scale_double_rounds_parts:
  assumes "f64_finite x" "f64_sig x \<noteq> 0" "- (2 ^ 31) \<le> n" "n < 2 ^ 31" "scale_double x n mode = (r, status)"
  shows "r = f64_round_in mode (f64_neg x) (f64_sig x * pow_up (f64_pow x + n)) (pow_up (- (f64_pow x + n)))"
    "status = SCALE_EXACT \<longleftrightarrow> f64_finite r \<and> f64_val r = f64_val x * 2 powi n"
    "status = SCALE_OVERFLOW \<longleftrightarrow> \<not> f64_finite r"
proof -
  define s where "s = wide_sig x"
  define t where "t = wide_exp x + n"
  have s: "2 ^ 52 \<le> s" "s < 2 ^ 53" using wide_sig_range [OF assms(2)] by (simp_all add: s_def)
  have pos: "0 < f64_sig x * pow_up (f64_pow x + n)" using assms(2) by simp
  have ratio: "real (f64_sig x * pow_up (f64_pow x + n)) = real (pow_up (- (f64_pow x + n))) * real s * 2 powi (t - 52)"
    unfolding s_def t_def by (rule scaled_ratio)
  note ref = f64_round_in_at [OF pos pow_up_pos s ratio, of mode "f64_neg x"]
  note code = scale_double_parts [OF assms(1-4), of mode, folded s_def t_def, unfolded assms(5)]
  have x: "f64_mag x * 2 powi n = real s * 2 powi (t - 52)"
    unfolding f64_mag_wide s_def t_def mult.assoc by (subst power_int_add [symmetric]) (simp_all add: algebra_simps)
  consider "1023 < t" | "- 1022 \<le> t" "t \<le> 1023" | "t < - 1022" by linarith
  then have "r = f64_round_in mode (f64_neg x) (f64_sig x * pow_up (f64_pow x + n)) (pow_up (- (f64_pow x + n))) \<and>
    (status = SCALE_EXACT \<longleftrightarrow> f64_finite r \<and> f64_val r = f64_val x * 2 powi n) \<and> (status = SCALE_OVERFLOW \<longleftrightarrow> \<not> f64_finite r)"
  proof cases
    case 1
    then have rs: "r = f64_make (f64_neg x) (0x7ff * 2 ^ 52)" "status = SCALE_OVERFLOW" using code by simp_all
    have "f64_exp r = 0x7ff" unfolding rs(1) by (subst f64_make_fields(2)) simp_all
    then show ?thesis using 1 rs unfolding ref by (simp add: f64_finite_def)
  next
    case 2
    then have rs: "r = f64_make (f64_neg x) (nat (t + 1022) * 2 ^ 52 + s)" "status = SCALE_EXACT" using code by simp_all
    note m = f64_mag_make [OF s 2, of "f64_neg x", folded rs(1)]
    have "f64_neg r = f64_neg x"
    proof -
      have "nat (t + 1022) * 2 ^ 52 \<le> 2045 * 2 ^ 52" using 2 by (intro mult_le_mono1) simp
      then show ?thesis unfolding rs(1) using s(2) by (intro f64_make_fields) simp
    qed
    then have "f64_val r = f64_val x * 2 powi n" using m(2) x by (simp add: f64_val_scaled)
    then show ?thesis using 2 m(1) rs unfolding ref by simp
  next
    case 3
    define k where "k = nat (- t - 1022)"
    have k: "1 \<le> k" "int k = - t - 1022" using 3 by (simp_all add: k_def)
    have rs: "r = f64_make (f64_neg x) (mode_div mode (f64_neg x) s (2 ^ k))"
      "status = SCALE_EXACT \<longleftrightarrow> s mod 2 ^ k = 0" "status \<noteq> SCALE_OVERFLOW"
      using code 3 unfolding k_def [symmetric] by (simp_all add: Let_def split: if_splits)
    define R where "R = mode_div mode (f64_neg x) s (2 ^ k)"
    have R: "R \<le> 2 ^ 52"
      unfolding R_def
    proof (rule mode_div_bounds(2))
      show "0 * 2 ^ k \<le> s" by simp
      have "(2 :: nat) ^ 53 \<le> 2 ^ 52 * 2 ^ k" using k(1) unfolding power_add [symmetric] by (intro power_increasing) simp_all
      then show "s < 2 ^ 52 * 2 ^ k" using s(2) by linarith
    qed simp
    note m = f64_mag_small [OF R, of "f64_neg x", folded R_def rs(1) [folded R_def]]
    have neg: "f64_neg r = f64_neg x" unfolding rs(1) [folded R_def] using R by (intro f64_make_fields) simp
    have two: "(2 :: real) powi (t - 52) * 2 ^ k = 2 powi (- 1074)"
      unfolding power_int_of_nat [symmetric] k(2) by (subst power_int_add [symmetric]) simp_all
    have "f64_val r = f64_val x * 2 powi n \<longleftrightarrow> real R * 2 powi (- 1074) = real s * 2 powi (t - 52)"
      using neg by (simp only: f64_val_scaled m(2) x)
    also have "\<dots> \<longleftrightarrow> real (R * 2 ^ k) = real s"
      unfolding two [symmetric] by (simp add: mult_ac)
    also have "\<dots> \<longleftrightarrow> R * 2 ^ k = s" by (simp only: of_nat_eq_iff)
    also have "\<dots> \<longleftrightarrow> s mod 2 ^ k = 0" unfolding R_def by (rule mode_div_exact)
    finally show ?thesis using 3 m(1) rs unfolding ref k_def [symmetric] by simp
  qed
  then show "r = f64_round_in mode (f64_neg x) (f64_sig x * pow_up (f64_pow x + n)) (pow_up (- (f64_pow x + n)))"
    "status = SCALE_EXACT \<longleftrightarrow> f64_finite r \<and> f64_val r = f64_val x * 2 powi n"
    "status = SCALE_OVERFLOW \<longleftrightarrow> \<not> f64_finite r" by blast+
qed

text \<open>\<open>scalbn\<close> is correctly rounded: in each of the four rounding modes the result for a finite \<open>double\<close> is the
  exact product with the power of two rounded once, gradual underflow included, the reported status
  is exact when and only when nothing was lost, and overflow when and only when the result is
  infinite.\<close>

theorem scale_double_rounds:
  assumes "f64_finite x" "- (2 ^ 31) \<le> n" "n < 2 ^ 31" "scale_double x n mode = (r, status)"
  shows "r = f64_round_in mode (f64_neg x) (f64_sig x * pow_up (f64_pow x + n)) (pow_up (- (f64_pow x + n))) \<and>
    (status = SCALE_EXACT \<longleftrightarrow> f64_finite r \<and> f64_val r = f64_val x * 2 powi n) \<and>
    (status = SCALE_OVERFLOW \<longleftrightarrow> \<not> f64_finite r)"
proof (cases "f64_sig x = 0")
  case True
  then have rs: "r = x" "status = SCALE_EXACT"
    using assms(1,4) by (auto simp: scale_double_def field_tests zero_sig)
  have "x = f64_make (f64_neg x) 0" using f64_by_fields [of x] True by (simp add: zero_sig)
  then show ?thesis using True rs assms(1) by (simp add: f64_round_in_def f64_val_def f64_mag_def)
next
  case False
  then show ?thesis using scale_double_rounds_parts [OF assms(1) False assms(2-4)] by blast
qed

subsection \<open>Decomposition\<close>

lemma frexp_parts:
  assumes "f64_finite x" "f64_sig x \<noteq> 0"
  shows "frexp x = (f64_make (f64_neg x) (1021 * 2 ^ 52 + wide_sig x), wide_exp x + 1)"
proof -
  have s: "2 ^ 52 \<le> wide_sig x" "wide_sig x < 2 ^ 53" by (rule wide_sig_range [OF assms(2)])+
  have norm: "\<not> (exponent_field x = 0x7ff \<or> exponent_field x = 0 \<and> x AND MINI_DOUBLE_FRAC = 0)"
    using assms(1,2) by (simp add: field_tests zero_sig f64_finite_def)
  have put: "(x AND MINI_DOUBLE_SIGN) OR push_bit 52 1022 OR F = f64_make (f64_neg x) (1021 * 2 ^ 52 + wide_sig x)"
    if F: "unat F = wide_sig x - 2 ^ 52" for F
  proof -
    have "push_bit 52 (of_nat 1022) OR F = (of_nat (1022 * 2 ^ 52 + unat F) :: f64)"
      using F s by (intro or_fraction) simp_all
    then have "push_bit 52 1022 OR F = (of_nat (1021 * 2 ^ 52 + wide_sig x) :: f64)" using F s by simp
    then show ?thesis using or_sign [of "1021 * 2 ^ 52 + wide_sig x" "f64_neg x"] s by (simp add: sign_field(1))
  qed
  show ?thesis
  proof (cases "exponent_field x = 0")
    case False
    then have e: "f64_exp x \<noteq> 0" by (simp add: field_tests)
    then have "unat (x AND MINI_DOUBLE_FRAC) = wide_sig x - 2 ^ 52" by (simp add: frac_field wide_sig_def)
    moreover have "sint (exponent_field x) - 1023 = wide_exp x" using source_exp [of x] False by simp
    ultimately show ?thesis using norm False put by (simp add: frexp_def Let_def)
  next
    case True
    define w where "w = push_bit (nat (52 - highest_bit_u64 (x AND MINI_DOUBLE_FRAC))) (x AND MINI_DOUBLE_FRAC)"
    have "unat w = wide_sig x" using source_sig [OF assms(2)] True by (simp add: w_def)
    then have "unat (w AND MINI_DOUBLE_FRAC) = wide_sig x - 2 ^ 52" using s sig_low_bits [of w] by simp
    moreover have "highest_bit_u64 (x AND MINI_DOUBLE_FRAC) - 1073 = wide_exp x + 1" using source_exp [of x] True by simp
    ultimately show ?thesis using put [of "w AND MINI_DOUBLE_FRAC"] True norm unfolding frexp_def Let_def w_def [symmetric]
      by (simp only: if_False simp_thms)
  qed
qed

text \<open>A number put together from its parts again.\<close>

lemma rebuild:
  assumes "f64_finite x" "f64_sig x \<noteq> 0"
  shows "(if - 1022 \<le> wide_exp x then f64_make (f64_neg x) (nat (wide_exp x + 1022) * 2 ^ 52 + wide_sig x)
    else f64_make (f64_neg x) (mode_div mode neg (wide_sig x) (2 ^ nat (- wide_exp x - 1022)))) = x"
    "wide_exp x < - 1022 \<Longrightarrow> wide_sig x mod 2 ^ nat (- wide_exp x - 1022) = 0"
proof -
  have "(if - 1022 \<le> wide_exp x then f64_make (f64_neg x) (nat (wide_exp x + 1022) * 2 ^ 52 + wide_sig x)
    else f64_make (f64_neg x) (mode_div mode neg (wide_sig x) (2 ^ nat (- wide_exp x - 1022)))) = x \<and>
    (wide_exp x < - 1022 \<longrightarrow> wide_sig x mod 2 ^ nat (- wide_exp x - 1022) = 0)"
  proof (cases "f64_exp x = 0")
    case True
    define k where "k = 53 - bits_of (f64_frac x)"
    have e: "nat (- wide_exp x - 1022) = k" "wide_exp x < - 1022"
      using True bits_of_frac [of x] by (simp_all add: wide_exp_def k_def)
    have w: "wide_sig x = f64_frac x * 2 ^ k" using True by (simp add: wide_sig_def k_def)
    have "f64_make (f64_neg x) (f64_frac x) = x" using f64_by_fields [of x] True by simp
    then show ?thesis using e unfolding e(1) w by (simp add: mode_div_whole)
  next
    case False
    then have e: "wide_exp x = int (f64_exp x) - 1023" "wide_sig x = 2 ^ 52 + f64_frac x" by (simp_all add: wide_exp_def wide_sig_def)
    have "nat (wide_exp x + 1022) * 2 ^ 52 + wide_sig x = f64_exp x * 2 ^ 52 + f64_frac x"
    proof -
      have "nat (wide_exp x + 1022) = f64_exp x - 1" using e(1) by simp
      then show ?thesis using False e(2) by (cases "f64_exp x") simp_all
    qed
    then show ?thesis using f64_by_fields [of x] e(1) False by simp
  qed
  then show "(if - 1022 \<le> wide_exp x then f64_make (f64_neg x) (nat (wide_exp x + 1022) * 2 ^ 52 + wide_sig x)
    else f64_make (f64_neg x) (mode_div mode neg (wide_sig x) (2 ^ nat (- wide_exp x - 1022)))) = x"
    "wide_exp x < - 1022 \<Longrightarrow> wide_sig x mod 2 ^ nat (- wide_exp x - 1022) = 0" by blast+
qed

text \<open>\<open>frexp\<close> and \<open>scalbn\<close> are inverse: for a finite \<open>double\<close> that is not zero \<open>frexp\<close> gives a significand of
  magnitude at least 1/2 and below 1 and an exponent whose product is the number, and scaling the
  significand by the exponent gives back the number itself, bit for bit and reported as exact, in
  every rounding mode; subnormal numbers included.\<close>

theorem frexp_scalbn_roundtrip:
  assumes "f64_finite x" "f64_val x \<noteq> 0" "frexp x = (m, e)"
  shows "1 / 2 \<le> \<bar>f64_val m\<bar> \<and> \<bar>f64_val m\<bar> < 1 \<and> f64_val x = f64_val m * 2 powi e \<and> scale_double m e mode = (x, SCALE_EXACT)"
proof -
  have sig: "f64_sig x \<noteq> 0" using assms(2) by (intro notI) (simp add: f64_val_def f64_mag_def split: if_splits)
  have s: "2 ^ 52 \<le> wide_sig x" "wide_sig x < 2 ^ 53" by (rule wide_sig_range [OF sig])+
  have me: "m = f64_make (f64_neg x) (nat (- 1 + 1022) * 2 ^ 52 + wide_sig x)" "e = wide_exp x + 1"
    using frexp_parts [OF assms(1) sig] assms(3) by simp_all
  have lim: "nat (- 1 + 1022) * 2 ^ 52 + wide_sig x < 2 ^ 63" using s by simp
  note mag = f64_mag_make [OF s, of "- 1" "f64_neg x", folded me(1)]
  have fields: "f64_neg m = f64_neg x" "f64_exp m = 1022" "f64_frac m = wide_sig x - 2 ^ 52"
    unfolding me(1) f64_make_fields [OF lim] using s by (simp_all add: div_nat_eqI mod_if)
  have wide: "wide_sig m = wide_sig x" "wide_exp m = - 1" "f64_sig m \<noteq> 0"
    using s by (simp_all add: wide_sig_def wide_exp_def f64_sig_def fields)
  have n: "- (2 ^ 31) \<le> e" "e < 2 ^ 31" using wide_exp_range [of x] by (simp_all add: me(2))
  have val: "\<bar>f64_val m\<bar> = real (wide_sig x) * 2 powi (- 53)" using mag(2) by (simp add: f64_val_def f64_mag_def)
  have bound: "1 / 2 \<le> \<bar>f64_val m\<bar>" "\<bar>f64_val m\<bar> < 1"
  proof -
    have "real (2 ^ 52) \<le> real (wide_sig x)" "real (wide_sig x) < real (2 ^ 53)" using s by (simp_all only: of_nat_less_iff of_nat_le_iff)
    then show "1 / 2 \<le> \<bar>f64_val m\<bar>" "\<bar>f64_val m\<bar> < 1" unfolding val by (simp_all add: power_int_def field_simps)
  qed
  have prod: "f64_val x = f64_val m * 2 powi e"
  proof -
    have "(2 :: real) powi (- 53) * 2 powi e = 2 powi (wide_exp x - 52)"
      by (subst power_int_add [symmetric]) (simp_all add: me(2))
    then have "f64_mag x = f64_mag m * 2 powi e" using mag(2) by (simp add: f64_mag_wide [of x] mult.assoc)
    then show ?thesis using fields(1) f64_val_scaled [of x m] by simp
  qed
  have t: "wide_exp m + e = wide_exp x" by (simp add: wide(2) me(2))
  have up: "\<not> 1023 < wide_exp x" using assms(1) f64_fields_less(1) [of x] bits_of_frac [of x]
    by (auto simp: wide_exp_def f64_finite_def)
  have "scale_double m e mode = (x, SCALE_EXACT)"
    using scale_double_parts [OF mag(1) wide(3) n, of mode] rebuild(1) [OF assms(1) sig, of mode "f64_neg x"] rebuild(2) [OF assms(1) sig] up
    unfolding t wide(1) fields(1) by (cases "- 1022 \<le> wide_exp x") (simp_all add: Let_def)
  then show ?thesis using bound prod by blast
qed

subsection \<open>Rounding to integral values\<close>

text \<open>The magnitude without the sign, as a number.\<close>

lemma magnitude_field: "unat (b AND NOT MINI_DOUBLE_SIGN) = f64_exp b * 2 ^ 52 + f64_frac b"
proof -
  have m: "NOT MINI_DOUBLE_SIGN = mask 63" by (simp add: MINI_DOUBLE_SIGN_def mask_eq_decr_exp)
  have l: "f64_exp b * 2 ^ 52 + f64_frac b < 2 ^ 63" using f64_fields_less [of b] by simp
  have "unat b mod 2 ^ 63 = f64_exp b * 2 ^ 52 + f64_frac b"
    using f64_unat [of b] l by (cases "f64_neg b") (simp_all add: mod_if)
  then show ?thesis unfolding m word_and_mask_mod .
qed

text \<open>Behind \<open>mode_div\<close> there is one value, and no rest.\<close>

lemma below_one:
  assumes "f64_exp b < 1023"
  shows "f64_sig b < 2 ^ nat (- f64_pow b)" "f64_pow b < 0"
    "2 ^ nat (- f64_pow b) < 2 * f64_sig b \<longleftrightarrow> 1022 * 2 ^ 52 < f64_exp b * 2 ^ 52 + f64_frac b"
proof -
  have f: "f64_frac b < 2 ^ 52" by (rule f64_fields_less)
  have "f64_sig b < 2 ^ nat (- f64_pow b) \<and> f64_pow b < 0 \<and>
    (2 ^ nat (- f64_pow b) < 2 * f64_sig b \<longleftrightarrow> 1022 * 2 ^ 52 < f64_exp b * 2 ^ 52 + f64_frac b)"
  proof (cases "f64_exp b = 1022")
    case True
    then have "nat (- f64_pow b) = 53" "f64_sig b = 2 ^ 52 + f64_frac b" "f64_pow b < 0"
      by (simp_all add: f64_pow_def f64_sig_def)
    then show ?thesis using f True by simp
  next
    case False
    then have e: "f64_exp b \<le> 1021" using assms by simp
    then have "54 \<le> nat (- f64_pow b)" "f64_pow b < 0" by (auto simp: f64_pow_def)
    then have "(2 :: nat) ^ 54 \<le> 2 ^ nat (- f64_pow b)" by (intro power_increasing) simp_all
    moreover have "f64_sig b < 2 ^ 53" using f by (simp add: f64_sig_def)
    moreover have "f64_exp b * 2 ^ 52 \<le> 1021 * 2 ^ 52" using e by (rule mult_le_mono1)
    ultimately show ?thesis using f \<open>f64_pow b < 0\<close> by simp
  qed
  then show "f64_sig b < 2 ^ nat (- f64_pow b)" "f64_pow b < 0"
    "2 ^ nat (- f64_pow b) < 2 * f64_sig b \<longleftrightarrow> 1022 * 2 ^ 52 < f64_exp b * 2 ^ 52 + f64_frac b" by blast+
qed

lemma mode_div_below:
  assumes "n < d" "n \<noteq> 0"
  shows "mode_div mode neg n d =
    (if mode = FE_UPWARD then if neg then 0 else 1
     else if mode = FE_DOWNWARD then if neg then 1 else 0
     else if mode = FE_TOWARDZERO then 0
     else if d < 2 * n then 1 else 0)"
  using assms by (simp add: mode_div_def round_div_def Let_def)

lemma one_fields: "f64_val f64_one = 1" "f64_val f64_minus_one = - 1" "\<not> f64_neg f64_one" "f64_neg f64_minus_one"
  "f64_finite f64_one" "f64_finite f64_minus_one"
  by (simp_all add: f64_one_def f64_minus_one_def f64_val_def f64_mag_def f64_sig_def f64_pow_def f64_exp_def f64_frac_def
      f64_neg_def f64_finite_def power_int_def power_one_over)

text \<open>The exponent of the source and the middle range, where the last bits are cut off.\<close>

lemma field_int: "sint (exponent_field b) = int (f64_exp b)"
proof -
  have "exponent_field b = of_nat (f64_exp b)" using exp_field(1) [of b] by (simp flip: exp_field(1))
  then show ?thesis using f64_fields_less(1) [of b] by (simp add: signed_of_nat signed_take_bit_int_eq_self)
qed

lemma cut_off:
  assumes "1023 \<le> f64_exp b" "f64_exp b < 1075"
  defines "k \<equiv> 1075 - f64_exp b" and "M \<equiv> f64_exp b * 2 ^ 52 + f64_frac b"
  shows "M = (f64_exp b - 1) * 2 ^ 52 + f64_sig b" "M mod 2 ^ k = f64_sig b mod 2 ^ k"
    "f64_sig b div 2 ^ k < 2 ^ (53 - k)" "2 ^ (52 - k) \<le> f64_sig b div 2 ^ k" "1 \<le> k" "k \<le> 52"
proof -
  show k: "1 \<le> k" "k \<le> 52" using assms(1,2) by (simp_all add: k_def)
  have sig: "f64_sig b = 2 ^ 52 + f64_frac b" using assms(1) by (simp add: f64_sig_def)
  show M: "M = (f64_exp b - 1) * 2 ^ 52 + f64_sig b"
    using assms(1) unfolding M_def sig by (cases "f64_exp b") simp_all
  have "(2 :: nat) ^ 52 = 2 ^ (52 - k) * 2 ^ k" using k(2) by (simp flip: power_add)
  then have "(f64_exp b - 1) * 2 ^ 52 = (f64_exp b - 1) * 2 ^ (52 - k) * 2 ^ k" by (simp only: mult.assoc)
  then show "M mod 2 ^ k = f64_sig b mod 2 ^ k" unfolding M by (simp only: mod_mult_self3)
  have "(2 :: nat) ^ 53 = 2 ^ (53 - k) * 2 ^ k" using k(2) by (simp flip: power_add)
  moreover have "f64_sig b < 2 ^ 53" using f64_fields_less(2) [of b] by (simp add: sig)
  ultimately show "f64_sig b div 2 ^ k < 2 ^ (53 - k)" by (simp add: div_less_iff_less_mult)
  show "2 ^ (52 - k) \<le> f64_sig b div 2 ^ k"
    using \<open>(2 :: nat) ^ 52 = 2 ^ (52 - k) * 2 ^ k\<close> by (simp add: less_eq_div_iff_mult_less_eq sig)
qed

text \<open>A whole number in the place of the significand.\<close>

lemma whole_mag:
  assumes "1023 \<le> E" "E < 1075" "2 ^ (E - 1023) \<le> q" "q \<le> 2 ^ (E - 1022)"
  shows "f64_finite (f64_make neg ((E - 1) * 2 ^ 52 + q * 2 ^ (1075 - E)))"
    "f64_mag (f64_make neg ((E - 1) * 2 ^ 52 + q * 2 ^ (1075 - E))) = real q"
    "(E - 1) * 2 ^ 52 + q * 2 ^ (1075 - E) < 2 ^ 63"
proof -
  define k where "k = 1075 - E"
  have k: "E - 1023 + k = 52" "E - 1022 + k = 53" using assms(1,2) by (simp_all add: k_def)
  have lo: "2 ^ 52 \<le> q * 2 ^ k" using mult_le_mono1 [OF assms(3), of "2 ^ k"] unfolding power_add [symmetric] k .
  have hi: "q * 2 ^ k \<le> 2 ^ 53" using mult_le_mono1 [OF assms(4), of "2 ^ k"] unfolding power_add [symmetric] k .
  have "(E - 1) * 2 ^ 52 \<le> 1073 * 2 ^ 52" using assms(2) by (intro mult_le_mono1) simp
  then show "(E - 1) * 2 ^ 52 + q * 2 ^ (1075 - E) < 2 ^ 63" using hi unfolding k_def by simp
  have two: "2 ^ k * (2 :: real) powi (int E - 1023 - 52) = 1"
  proof -
    have "2 ^ k * (2 :: real) powi (int E - 1023 - 52) = 2 powi (int k + (int E - 1023 - 52))" by (simp add: power_int_add)
    also have "int k + (int E - 1023 - 52) = 0" using assms(1,2) by (simp add: k_def)
    finally show ?thesis by simp
  qed
  have n: "nat (int E - 1023 + 1022) = E - 1" "nat (int E - 1022 + 1022) = E" using assms(1) by simp_all
  have "f64_finite (f64_make neg ((E - 1) * 2 ^ 52 + q * 2 ^ k)) \<and> f64_mag (f64_make neg ((E - 1) * 2 ^ 52 + q * 2 ^ k)) = real q"
  proof (cases "q * 2 ^ k < 2 ^ 53")
    case True
    have "real (q * 2 ^ k) * 2 powi (int E - 1023 - 52) = real q" using two by (simp add: mult.assoc)
    then show ?thesis
      using f64_mag_make [OF lo True, of "int E - 1023" neg] assms(1,2) unfolding n by simp
  next
    case False
    then have q: "q * 2 ^ k = 2 ^ 53" using hi by simp
    have e: "(E - 1) * 2 ^ 52 + q * 2 ^ k = E * 2 ^ 52 + 2 ^ 52" unfolding q using assms(1) by (cases E) simp_all
    have "real q * 2 ^ k * 2 powi (int E - 1023 - 52) = real q" using two by (simp add: mult.assoc)
    moreover have "real q * 2 ^ k = 2 ^ 53"
    proof -
      have "real (q * 2 ^ k) = real (2 ^ 53)" by (simp only: q)
      then show ?thesis by simp
    qed
    moreover have "(2 :: real) ^ 53 * 2 powi (int E - 1023 - 52) = 2 ^ 52 * 2 powi (int E - 1022 - 52)"
      unfolding power_int_of_nat [symmetric] by (subst (1 2) power_int_add [symmetric]) simp_all
    ultimately have "real (2 ^ 52) * 2 powi (int E - 1022 - 52) = real q" by simp
    then show ?thesis
      using f64_mag_make [of "2 ^ 52" "int E - 1022" neg] assms(1,2) unfolding n e by simp
  qed
  then show "f64_finite (f64_make neg ((E - 1) * 2 ^ 52 + q * 2 ^ (1075 - E)))"
    "f64_mag (f64_make neg ((E - 1) * 2 ^ 52 + q * 2 ^ (1075 - E))) = real q" unfolding k_def by blast+
qed

text \<open>Clearing and testing low bits.\<close>

lemma clear_below: "unat (v AND NOT (mask k)) = unat v div 2 ^ k * 2 ^ k" for v :: f64
proof -
  have "v AND NOT (mask k) = push_bit k (drop_bit k v)" by (rule bit_word_eqI) (auto simp: bit_simps)
  moreover have "drop_bit k v = of_nat (unat v div 2 ^ k)"
  proof -
    have "unat (drop_bit k v) = unat v div 2 ^ k"
      using unat_u64 [of v] by (simp add: unsigned_drop_bit_eq drop_bit_eq_div [where 'a = nat] take_bit_nat_eq_self)
    then show ?thesis by (simp flip: \<open>unat (drop_bit k v) = unat v div 2 ^ k\<close>)
  qed
  ultimately have "v AND NOT (mask k) = of_nat (unat v div 2 ^ k * 2 ^ k)" by (simp only: push_bit_nat)
  moreover have "unat v div 2 ^ k * 2 ^ k < 2 ^ 64" using unat_u64 [of v] by (rule le_less_trans [OF div_times_less_eq_dividend])
  ultimately show ?thesis by (simp only: unat_of_nat) simp
qed

lemma test_bit: "k < 64 \<Longrightarrow> v AND push_bit k 1 \<noteq> 0 \<longleftrightarrow> odd (unat v div 2 ^ k)" for v :: f64
proof -
  assume k: "k < 64"
  have "v AND push_bit k 1 = push_bit k (of_bool (bit v k))"
    by (rule bit_word_eqI) (simp only: bit_and_iff bit_push_bit_iff bit_1_iff bit_of_bool_iff, auto)
  moreover have "(push_bit k 1 :: f64) \<noteq> 0" using unat_push_one [OF k] by (metis power_not_zero unat_0 zero_neq_numeral)
  ultimately have "v AND push_bit k 1 \<noteq> 0 \<longleftrightarrow> bit v k" by (cases "bit v k") (simp_all only: of_bool_eq push_bit_of_0, simp_all)
  also have "\<dots> \<longleftrightarrow> bit (unat v) k" using k by (simp add: bit_unsigned_iff)
  finally show ?thesis by (simp only: bit_iff_odd)
qed

text \<open>The magnitude as a quotient.\<close>

lemma mag_quotient: "real q = f64_mag x \<longleftrightarrow> q * pow_up (- f64_pow x) = f64_sig x * pow_up (f64_pow x)"
proof -
  have "real (pow_up (- f64_pow x)) \<noteq> 0" using pow_up_pos [of "- f64_pow x"] by linarith
  moreover have "real (f64_sig x * pow_up (f64_pow x)) = f64_mag x * real (pow_up (- f64_pow x))"
    unfolding f64_mag_def of_nat_mult pow_up_real [of "f64_pow x"] by (simp only: mult_ac)
  ultimately have "real q = f64_mag x \<longleftrightarrow> real (q * pow_up (- f64_pow x)) = real (f64_sig x * pow_up (f64_pow x))"
    using pow_up_pos [of "- f64_pow x"] by (simp del: pow_up_pos)
  then show ?thesis by (simp only: of_nat_eq_iff)
qed

text \<open>The three ranges of \<open>round_double_mode\<close>: below 1, with a fraction, and beyond.\<close>

definition rounds_to :: "f64 \<Rightarrow> int \<Rightarrow> f64 \<times> bool \<Rightarrow> bool" where
  "rounds_to x mode = (\<lambda>(r, inexact).
     f64_finite r \<and> f64_neg r = f64_neg x \<and>
     f64_mag r = real (mode_div mode (f64_neg x) (f64_sig x * pow_up (f64_pow x)) (pow_up (- f64_pow x))) \<and>
     (inexact \<longleftrightarrow> f64_sig x * pow_up (f64_pow x) mod pow_up (- f64_pow x) \<noteq> 0))"

lemma rounds_to_self:
  assumes "f64_finite x" "f64_sig x * pow_up (f64_pow x) mod pow_up (- f64_pow x) = 0"
  shows "rounds_to x mode (x, False)"
proof -
  have "mode_div mode (f64_neg x) (f64_sig x * pow_up (f64_pow x)) (pow_up (- f64_pow x)) * pow_up (- f64_pow x) =
      f64_sig x * pow_up (f64_pow x)"
    using assms(2) by (simp only: mode_div_exact)
  then have "real (mode_div mode (f64_neg x) (f64_sig x * pow_up (f64_pow x)) (pow_up (- f64_pow x))) = f64_mag x"
    by (simp only: mag_quotient)
  then show ?thesis using assms by (simp add: rounds_to_def)
qed

lemma round_below_one:
  assumes "f64_exp x < 1023" "f64_sig x \<noteq> 0" "rounding_mode mode"
  shows "rounds_to x mode (round_double_mode x mode)"
proof -
  define d where "d = (2 :: nat) ^ nat (- f64_pow x)"
  have d: "pow_up (f64_pow x) = 1" "pow_up (- f64_pow x) = d"
    using below_one(2) [OF assms(1)] by (simp_all add: pow_up_def d_def)
  have lt: "f64_sig x < d" using below_one(1) [OF assms(1)] by (simp add: d_def)
  have half: "0x3fe0000000000000 < x AND NOT MINI_DOUBLE_SIGN \<longleftrightarrow> d < 2 * f64_sig x"
    using below_one(3) [OF assms(1)] magnitude_field [of x] by (simp add: word_less_nat_alt d_def)
  have "unat (x AND NOT MINI_DOUBLE_SIGN) \<noteq> 0" using assms(2) unfolding magnitude_field zero_sig by auto
  then have nz: "x AND NOT MINI_DOUBLE_SIGN \<noteq> 0" by (metis unat_0)
  have fe: "exponent_field x \<noteq> 0x7ff" using assms(1) by (simp add: field_tests)
  have ex: "(if exponent_field x = 0 then - 1022 else sint (exponent_field x) - 1023) < 0"
    using assms(1) by (simp add: field_int)
  define q where "q = mode_div mode (f64_neg x) (f64_sig x) d"
  have q: "q = (if mode = FE_UPWARD then if f64_neg x then 0 else 1
     else if mode = FE_DOWNWARD then if f64_neg x then 1 else 0
     else if mode = FE_TOWARDZERO then 0 else if d < 2 * f64_sig x then 1 else 0)"
    unfolding q_def using mode_div_below [OF lt assms(2)] .
  have code: "round_double_mode x mode =
      (if q = 0 then x AND MINI_DOUBLE_SIGN else if f64_neg x then f64_minus_one else f64_one, True)"
    unfolding round_double_mode_def Let_def using fe nz ex half assms(3)
    by (auto simp: sign_field(2) q rounding_mode_def fe_modes)
  have q1: "q = 0 \<or> q = 1" by (simp add: q)
  have zero: "f64_finite (f64_make (f64_neg x) 0)" "f64_mag (f64_make (f64_neg x) 0) = 0" "f64_neg (f64_make (f64_neg x) 0) = f64_neg x"
    using f64_mag_small [of 0 "f64_neg x"] by (simp_all add: f64_make_fields)
  have one: "f64_mag f64_one = 1" "f64_mag f64_minus_one = 1" using one_fields by (simp_all add: f64_val_def)
  have "f64_sig x mod d \<noteq> 0" using lt assms(2) by simp
  then show ?thesis
    unfolding rounds_to_def code split d q_def [symmetric] mult_1_right
    using q1 zero one one_fields(3-6) by (auto simp: sign_field(1))
qed

lemma round_fraction:
  assumes "1023 \<le> f64_exp x" "f64_exp x < 1075" "rounding_mode mode"
  shows "rounds_to x mode (round_double_mode x mode)"
proof -
  define k where "k = 1075 - f64_exp x"
  define M where "M = f64_exp x * 2 ^ 52 + f64_frac x"
  define q0 where "q0 = f64_sig x div 2 ^ k"
  note c = cut_off [OF assms(1,2), folded k_def M_def]
  define D where "D = f64_sig x mod 2 ^ k"
  define q where "q = mode_div mode (f64_neg x) (f64_sig x) (2 ^ k)"
  have p: "pow_up (f64_pow x) = 1" "pow_up (- f64_pow x) = 2 ^ k"
    using assms(1,2) by (simp_all add: pow_up_def f64_pow_def k_def nat_diff_distrib')
  have ex: "sint (exponent_field x) - 1023 = int (f64_exp x) - 1023" "nat (52 - (int (f64_exp x) - 1023)) = k"
    using assms(1,2) by (simp_all add: field_int k_def)
  have tests: "exponent_field x \<noteq> 0x7ff" "exponent_field x \<noteq> 0" "\<not> int (f64_exp x) - 1023 < 0" "\<not> 52 \<le> int (f64_exp x) - 1023"
    using assms(1,2) by (simp_all add: field_tests)
  define W where "W = x AND NOT MINI_DOUBLE_SIGN"
  have W: "unat W = M" unfolding W_def M_def by (rule magnitude_field)
  have "M \<noteq> 0" using assms(1) by (simp add: M_def)
  then have nz: "W \<noteq> 0" using W by (metis unat_0)
  have k64: "k < 64" "k - 1 < 64" using c(6) by simp_all
  define u where "u = (push_bit k 1 :: f64)"
  have u: "unat u = 2 ^ k" "u - 1 = mask k" unfolding u_def using unat_push_one [OF k64(1)] by (simp_all add: mask_eq_decr_exp push_bit_eq_mult)
  define N where "N = (f64_exp x - 1) * 2 ^ 52 + q0 * 2 ^ k"
  have div: "M div 2 ^ k = (f64_exp x - 1) * 2 ^ (52 - k) + q0"
  proof -
    have "(2 :: nat) ^ 52 = 2 ^ (52 - k) * 2 ^ k" using c(6) by (simp flip: power_add)
    then have "M = (f64_exp x - 1) * 2 ^ (52 - k) * 2 ^ k + f64_sig x" unfolding c(1) by (simp only: mult.assoc)
    then show ?thesis by (simp add: q0_def)
  qed
  have NM: "M div 2 ^ k * 2 ^ k = N"
  proof -
    have "(2 :: nat) ^ 52 = 2 ^ (52 - k) * 2 ^ k" using c(6) by (simp flip: power_add)
    then show ?thesis unfolding div N_def by (simp only: add_mult_distrib mult.assoc)
  qed
  define R where "R = W AND NOT (mask k)"
  have R: "unat R = N" unfolding R_def clear_below W by (rule NM)
  have disc: "unat (W AND mask k) = D" unfolding word_and_mask_mod W D_def by (rule c(2))
  have half: "unat (drop_bit 1 u) = 2 ^ (k - 1)" "2 ^ k = 2 * (2 :: nat) ^ (k - 1)"
  proof -
    show two: "2 ^ k = 2 * (2 :: nat) ^ (k - 1)" using c(5) by (simp add: power_eq_if)
    have "unat (drop_bit 1 u) = unat u div 2"
      by (simp add: unsigned_drop_bit_eq drop_bit_eq_div unat_div_distrib)
    then show "unat (drop_bit 1 u) = 2 ^ (k - 1)" using u(1) two by simp
  qed
  have oddness: "R AND u \<noteq> 0 \<longleftrightarrow> odd q0"
  proof -
    have "even ((f64_exp x - 1) * 2 ^ (52 - k))"
    proof (cases "k = 52")
      case True
      then have "f64_exp x = 1023" using assms(1,2) by (simp add: k_def)
      then show ?thesis by simp
    next
      case False
      then show ?thesis using c(6) by simp
    qed
    moreover have "N div 2 ^ k = (f64_exp x - 1) * 2 ^ (52 - k) + q0" unfolding NM [symmetric] div by simp
    ultimately show ?thesis unfolding u_def test_bit [OF k64(1)] R by simp
  qed
  have q: "q = (if D = 0 then q0
      else if mode = FE_UPWARD \<and> \<not> f64_neg x \<or> mode = FE_DOWNWARD \<and> f64_neg x then q0 + 1
      else if mode = FE_TONEAREST then if 2 ^ k < 2 * D \<or> 2 ^ k = 2 * D \<and> odd q0 then q0 + 1 else q0
      else q0)"
    using assms(3) unfolding q_def mode_div_def round_div_def Let_def D_def [symmetric] q0_def [symmetric]
    by (auto simp: rounding_mode_def fe_modes)
  have code: "round_double_mode x mode =
      (if D = 0 then (x, False) else ((x AND MINI_DOUBLE_SIGN) OR (if q = q0 then R else R + u), True))"
  proof -
    have cmp: "W AND mask k = 0 \<longleftrightarrow> D = 0" "drop_bit 1 u < W AND mask k \<longleftrightarrow> 2 ^ k < 2 * D"
      "W AND mask k = drop_bit 1 u \<longleftrightarrow> 2 ^ k = 2 * D"
      by (simp_all only: word_unat_eq_iff word_less_nat_alt disc half unat_0) auto
    have "round_double_mode x mode =
      (if D = 0 then (x, False)
       else ((x AND MINI_DOUBLE_SIGN) OR
         (if mode = FE_UPWARD \<and> \<not> f64_neg x \<or> mode = FE_DOWNWARD \<and> f64_neg x then R + u
          else if mode = FE_TONEAREST then if 2 ^ k < 2 * D \<or> 2 ^ k = 2 * D \<and> odd q0 then R + u else R
          else R), True))"
      unfolding round_double_mode_def Let_def W_def [symmetric]
      by (simp only: tests nz simp_thms if_False ex(1) ex(2) u_def [symmetric] u(2) R_def [symmetric] cmp oddness sign_field(2))
    then show ?thesis by (simp add: q)
  qed
  have q01: "q = q0 \<or> q = q0 + 1" by (simp add: q)
  have e: "f64_exp x - 1023 = 52 - k" "f64_exp x - 1022 = 53 - k" "1075 - f64_exp x = k" using assms(1,2) by (simp_all add: k_def)
  have range: "2 ^ (f64_exp x - 1023) \<le> q" "q \<le> 2 ^ (f64_exp x - 1022)"
    using q01 c(3,4) unfolding e q0_def [symmetric] by auto
  note whole = whole_mag [OF assms(1,2) range, unfolded e(3)]
  have word: "(if q = q0 then R else R + u) = of_nat ((f64_exp x - 1) * 2 ^ 52 + q * 2 ^ k)"
  proof -
    have "R = of_nat N" using R by (simp flip: R)
    moreover have "u = of_nat (2 ^ k)" using u(1) by (simp add: u_def push_bit_eq_mult)
    moreover have "(f64_exp x - 1) * 2 ^ 52 + q * 2 ^ k = (if q = q0 then N else N + 2 ^ k)"
      using q01 by (auto simp: N_def)
    ultimately show ?thesis by simp
  qed
  show ?thesis
  proof (cases "D = 0")
    case True
    then have "rounds_to x mode (x, False)" using assms(1,2) by (intro rounds_to_self) (simp_all add: p D_def f64_finite_def)
    then show ?thesis using True code by simp
  next
    case False
    have "f64_neg (f64_make (f64_neg x) ((f64_exp x - 1) * 2 ^ 52 + q * 2 ^ k)) = f64_neg x" by (rule f64_make_fields) (rule whole(3))
    then show ?thesis
      unfolding code word sign_field(1) or_sign [OF whole(3)] rounds_to_def p mult_1_right q_def [symmetric] D_def [symmetric]
      using False whole(1,2) by simp
  qed
qed

lemma round_double_mode_rounds:
  assumes "f64_finite x" "rounding_mode mode"
  shows "rounds_to x mode (round_double_mode x mode)"
proof -
  consider "f64_sig x = 0" | "f64_exp x < 1023" "f64_sig x \<noteq> 0" | "1023 \<le> f64_exp x" "f64_exp x < 1075" | "1075 \<le> f64_exp x"
    by linarith
  then show ?thesis
  proof cases
    case 1
    then have "unat (x AND NOT MINI_DOUBLE_SIGN) = 0" by (simp add: magnitude_field zero_sig)
    then have "x AND NOT MINI_DOUBLE_SIGN = 0" by (simp only: unat_eq_0)
    then have "round_double_mode x mode = (x, False)" by (simp add: round_double_mode_def)
    then show ?thesis using rounds_to_self [OF assms(1), of mode] 1 by simp
  next
    case 2
    then show ?thesis using assms(2) by (rule round_below_one)
  next
    case 3
    then show ?thesis using assms(2) by (rule round_fraction)
  next
    case 4
    then have "exponent_field x \<noteq> 0" "52 \<le> sint (exponent_field x) - 1023" "\<not> sint (exponent_field x) - 1023 < 0"
      by (simp_all add: field_tests field_int)
    then have "round_double_mode x mode = (x, False)" by (simp add: round_double_mode_def Let_def)
    moreover have "pow_up (- f64_pow x) = 1" using 4 by (simp add: pow_up_def f64_pow_def)
    ultimately show ?thesis using rounds_to_self [OF assms(1), of mode] by simp
  qed
qed

text \<open>The whole number a real number is rounded to.\<close>

definition int_round :: "int \<Rightarrow> real \<Rightarrow> int" where
  "int_round mode v =
     (if mode = FE_UPWARD then \<lceil>v\<rceil>
      else if mode = FE_DOWNWARD then \<lfloor>v\<rfloor>
      else if mode = FE_TOWARDZERO then if v < 0 then \<lceil>v\<rceil> else \<lfloor>v\<rfloor>
      else let f = \<lfloor>v\<rfloor>; rest = v - of_int f
        in if rest < 1 / 2 then f else if 1 / 2 < rest then f + 1 else if even f then f else f + 1)"

lemma int_round_whole: "int_round mode (of_int k) = k"
  by (simp add: int_round_def)

lemma int_round_above:
  assumes "0 < f" "f < 1"
  shows "int_round mode (real m + f) =
    (if mode = FE_UPWARD then int m + 1 else if mode = FE_DOWNWARD \<or> mode = FE_TOWARDZERO then int m
     else if 1 / 2 < f \<or> f = 1 / 2 \<and> odd m then int m + 1 else int m)"
proof -
  have fl: "\<lfloor>real m + f\<rfloor> = int m" using assms by (intro floor_unique) simp_all
  have ce: "\<lceil>real m + f\<rceil> = int m + 1" using assms by (intro ceiling_unique) simp_all
  have "\<not> real m + f < 0" using assms by simp
  then show ?thesis unfolding int_round_def fl ce Let_def by auto
qed

lemma int_round_below:
  assumes "0 < f" "f < 1"
  shows "int_round mode (- (real m + f)) =
    - (if mode = FE_DOWNWARD then int m + 1 else if mode = FE_UPWARD \<or> mode = FE_TOWARDZERO then int m
     else if 1 / 2 < f \<or> f = 1 / 2 \<and> odd m then int m + 1 else int m)"
proof -
  have fl: "\<lfloor>- (real m + f)\<rfloor> = - int m - 1" using assms by (intro floor_unique) simp_all
  have ce: "\<lceil>- (real m + f)\<rceil> = - int m" using assms by (intro ceiling_unique) simp_all
  have rest: "- (real m + f) - of_int (- int m - 1) = 1 - f" by simp
  have neg: "- (real m + f) < 0" using assms by simp
  have odd: "even (- int m - 1) \<longleftrightarrow> odd m" by simp
  have half: "1 - f < 1 / 2 \<longleftrightarrow> 1 / 2 < f" "1 / 2 < 1 - f \<longleftrightarrow> f < 1 / 2" by linarith+
  show ?thesis unfolding int_round_def fl ce Let_def rest odd half using neg by (auto simp: fe_modes)
qed

lemma int_round_nat:
  assumes "0 < d" "rounding_mode mode"
  shows "int_round mode (if neg then - (real n / real d) else real n / real d) =
    (if neg then - int (mode_div mode neg n d) else int (mode_div mode neg n d))"
proof -
  define m where "m = n div d"
  define r where "r = n mod d"
  define f where "f = real r / real d"
  have v: "real n / real d = real m + f"
  proof -
    have "n = m * d + r" by (simp add: m_def r_def)
    then have "real n = real m * real d + real r" by (metis of_nat_add of_nat_mult)
    then show ?thesis using assms(1) by (simp add: f_def field_simps)
  qed
  show ?thesis
  proof (cases "r = 0")
    case True
    have "mode_div mode neg n d = m" using True by (simp add: mode_div_def Let_def m_def r_def)
    moreover have "real n / real d = of_int (int m)" using True v by (simp add: f_def)
    ultimately show ?thesis using int_round_whole [of mode "int m"] int_round_whole [of mode "- int m"] by (cases neg) simp_all
  next
    case False
    have f: "0 < f" "f < 1" using False assms(1) by (simp_all add: f_def r_def)
    have half: "1 / 2 < f \<longleftrightarrow> d < 2 * r" "f = 1 / 2 \<longleftrightarrow> d = 2 * r"
      using assms(1) by (simp_all add: f_def divide_simps) linarith+
    have run: "mode_div mode neg n d =
      (if mode = FE_UPWARD then if neg then m else m + 1 else if mode = FE_DOWNWARD then if neg then m + 1 else m
       else if mode = FE_TOWARDZERO then m else if d < 2 * r \<or> d = 2 * r \<and> odd m then m + 1 else m)"
      using False by (simp only: mode_div_def round_div_def Let_def m_def r_def if_False)
    show ?thesis unfolding v run
      by (cases neg; simp only: if_True if_False int_round_above [OF f] int_round_below [OF f] half; auto simp: fe_modes)
  qed
qed

text \<open>C32. \<open>rint\<close> rounds correctly in the current mode: for a finite \<open>double\<close> the result stands for the whole number
  that rounding up, down, towards zero or to nearest with ties to even gives, it keeps the sign (a
  negative number rounds to a negative zero), and the inexact flag is raised when and only when the
  number was not whole; the environment and \<open>errno\<close> are otherwise unchanged.\<close>

theorem rint_rounds:
  assumes "f64_finite x" "rounding_mode (fegetround (fp m))" "rint x m = (r, m')"
  shows "f64_val r = of_int (int_round (fegetround (fp m)) (f64_val x)) \<and> f64_neg r = f64_neg x \<and>
    m' = (if f64_val r = f64_val x then m else raise FE_INEXACT m)"
proof -
  define mode where "mode = fegetround (fp m)"
  define n where "n = f64_sig x * pow_up (f64_pow x)"
  define d where "d = pow_up (- f64_pow x)"
  obtain inexact where run: "round_double_mode x mode = (r, inexact)" "m' = (if inexact then raise FE_INEXACT m else m)"
    using assms(2,3) by (auto simp: rint_def Let_def mode_def mode_valid_def rounding_mode_def split: prod.splits)
  have d: "0 < d" by (simp add: d_def)
  have rounds: "rounds_to x mode (r, inexact)"
    using round_double_mode_rounds [OF assms(1), of mode] assms(2) unfolding run(1) mode_def [symmetric] .
  have r: "f64_neg r = f64_neg x" "f64_mag r = real (mode_div mode (f64_neg x) n d)" "inexact \<longleftrightarrow> n mod d \<noteq> 0"
    using rounds by (auto simp: rounds_to_def n_def d_def)
  have mag: "f64_mag x = real n / real d"
    using d unfolding f64_mag_def n_def of_nat_mult pow_up_real [of "f64_pow x"] d_def [symmetric] by simp
  have "f64_val r = of_int (int_round mode (f64_val x))"
    using int_round_nat [OF d, of mode "f64_neg x" n] assms(2) unfolding f64_val_def mag mode_def [symmetric]
    by (simp add: r mode_def)
  moreover have "f64_val r = f64_val x \<longleftrightarrow> \<not> inexact"
    using mag_quotient [of "mode_div mode (f64_neg x) n d" x] mode_div_exact [of mode "f64_neg x" n d]
    unfolding r(3) f64_val_def r(1,2) n_def d_def by (cases "f64_neg x") (simp_all only: if_True if_False neg_equal_iff_equal not_not)
  ultimately show ?thesis using r(1) run(2) by (simp add: mode_def)
qed

subsection \<open>Examples\<close>

text \<open>1.5 scaled into the subnormal range, the smallest subnormal taken apart, and 2.5 rounded to nearest.\<close>

theorem scale_double_rounds_witness:
  "2 = f64_round_in FE_TONEAREST (f64_neg 0x3ff8000000000000)
      (f64_sig 0x3ff8000000000000 * pow_up (f64_pow 0x3ff8000000000000 + - 1074)) (pow_up (- (f64_pow 0x3ff8000000000000 + - 1074))) \<and>
    f64_val 2 \<noteq> f64_val 0x3ff8000000000000 * 2 powi (- 1074)"
proof -
  have "f64_finite 0x3ff8000000000000" "f64_finite 2" by (simp_all add: f64_finite_def f64_exp_def)
  moreover have "scale_double 0x3ff8000000000000 (- 1074) FE_TONEAREST = (2, SCALE_UNDERFLOW)" by code_simp
  ultimately show ?thesis using scale_double_rounds [of "0x3ff8000000000000" "- 1074" FE_TONEAREST 2 SCALE_UNDERFLOW] by simp
qed

theorem frexp_scalbn_roundtrip_witness:
  "1 / 2 \<le> \<bar>f64_val 0x3fe0000000000000\<bar> \<and> f64_val 1 = f64_val 0x3fe0000000000000 * 2 powi (- 1073) \<and>
    scale_double 0x3fe0000000000000 (- 1073) FE_UPWARD = (1, SCALE_EXACT)"
proof -
  have "f64_finite 1" "f64_val 1 \<noteq> 0" by (simp_all add: f64_finite_def f64_exp_def f64_val_def f64_mag_def f64_sig_def f64_frac_def f64_neg_def)
  moreover have "frexp 1 = (0x3fe0000000000000, - 1073)" by code_simp
  ultimately show ?thesis using frexp_scalbn_roundtrip [of 1 "0x3fe0000000000000" "- 1073" FE_UPWARD] by simp
qed

definition math_example :: math_env where "math_example = \<lparr>fp = dfl_env, math_errno = 7\<rparr>"

theorem rint_rounds_witness:
  "f64_val 0x4000000000000000 = of_int (int_round FE_TONEAREST (f64_val 0x4004000000000000)) \<and>
    snd (rint 0x4004000000000000 math_example) = raise FE_INEXACT math_example"
proof -
  have "f64_finite 0x4004000000000000" by (simp add: f64_finite_def f64_exp_def)
  moreover have mode: "fegetround (fp math_example) = FE_TONEAREST" by code_simp
  moreover obtain m' where run: "rint 0x4004000000000000 math_example = (0x4000000000000000, m')"
  proof -
    have "fst (rint 0x4004000000000000 math_example) = 0x4000000000000000" by code_simp
    then show thesis using that by (cases "rint 0x4004000000000000 math_example") simp
  qed
  moreover have "f64_val 0x4000000000000000 \<noteq> f64_val 0x4004000000000000"
    by (simp add: f64_val_def f64_mag_def f64_sig_def f64_pow_def f64_exp_def f64_frac_def f64_neg_def)
  ultimately show ?thesis using rint_rounds [of "0x4004000000000000" math_example "0x4000000000000000" m']
    by (simp add: rounding_mode_def)
qed

end
