(* ===== verification/Spec2Isabelle.thy ===== *)
theory Spec2Isabelle
  imports Memory_Ops CString Strconv Search_Sort Allocator Stream Stdio_File Calendar Wchar Termination Futex Mutex Once Tss
    Binary64 Float_Parse Format Format_Spec Format_Number Wide_Stdio Wide_Format Binary32 Float_Narrow Scan
    Fenv Math_Bits Math_Spec
begin

text \<open>
  A model of mini-libc, a freestanding C11 library for Linux on x86-64, with the theorems that make its
  parts correct. The paths below are those of the repository (\<open>src/\<close> and \<open>include/\<close> of the library).

  The program and its parts. At the bottom are functions that keep no state: on memory and strings
  (\<open>src/string\<close>, \<open>src/stdlib\<close>), on dates (\<open>src/time\<close>), on the bits of floating-point numbers (\<open>src/math\<close>).
  Above them are components with static state: the heap (\<open>src/stdlib/allocator.c\<close>), the streams
  (\<open>src/stdio\<close>), the exit and fork handlers (\<open>src/crt/termination.c\<close>, \<open>src/process\<close>), the conversion states
  of \<open>src/wchar/wchar.c\<close>, the keys of \<open>src/thread/tss.c\<close>. Formatted output and input run on the streams and
  on strings, wide streams on byte streams and the multibyte decoder, and \<open>exit\<close> flushes the streams. Across
  all lies the thread runtime (\<open>src/thread\<close>, \<open>src/internal/futex_lock.h\<close>), whose locks serialize the
  others. The kernel is below: system calls are arguments of the models, and what a model relies on of
  them is a hypothesis of the theorems that says what Linux documents.

  Which theory models which part.
  \<^item> \<open>Prelude\<close>: machine types, flat byte memory, \<open>errno\<close> values, shared lemmas.
  \<^item> \<open>Memory_Ops\<close>: \<open>string/memory.c\<close>. \<open>CString\<close>: \<open>string/string.c\<close>, \<open>string/strerror.c\<close>. Each loop is a recursion on
    the memory; a loop with no bound is a partial function, so that running past the end is \<^term>\<open>None\<close>.
  \<^item> \<open>Strconv\<close>: \<open>stdlib/strtol.c\<close>, \<open>strtoul.c\<close>, \<open>atoi.c\<close>. \<open>Search_Sort\<close>: \<open>stdlib/bsearch.c\<close>.
  \<^item> \<open>Allocator\<close>: \<open>stdlib/allocator.c\<close>, \<open>calloc.c\<close>; the block list lives in memory headers.
  \<^item> \<open>Stream\<close>: one stream, \<open>stdio/stdio.c\<close>, \<open>position.c\<close>, \<open>block.c\<close>. \<open>Stdio_File\<close>: all streams, \<open>stdio/file.c\<close>,
    \<open>orientation.c\<close> and the public wrappers.
  \<^item> \<open>Calendar\<close>: \<open>time/calendar.c\<close>, \<open>time/time.c\<close>. \<open>Wchar\<close>: \<open>wchar/wchar.c\<close>, \<open>stdlib/multibyte.c\<close>.
  \<^item> \<open>Termination\<close>: \<open>crt/termination.c\<close>, \<open>process/atfork.c\<close>, \<open>fork\<close> of \<open>process/process.c\<close>; it runs on the stream
    world of \<open>Stdio_File\<close>, since \<open>exit\<close> flushes it.
  \<^item> \<open>Futex\<close>: interleaved runs, the contract of a lock word taken by exchange, \<open>internal/futex_lock.h\<close>.
    \<open>Mutex\<close>: \<open>thread/mutex.c\<close> and \<open>Once\<close>: \<open>thread/once.c\<close> over the same contract, one shared access per step.
    \<open>Tss\<close>: \<open>thread/tss.c\<close>, one operation per step, since the registry is touched under its lock only.
  \<^item> \<open>Binary64\<close>, \<open>Binary32\<close>: the C types \<open>double\<close> and \<open>float\<close> as words, with the arithmetic of IEEE 754 rounding
    to nearest that the compiled code does; executable, and only what the other theories need.
  \<^item> \<open>Float_Parse\<close>: \<open>internal/float_parse.c\<close>, \<open>stdlib/strtod.c\<close>. \<open>Float_Narrow\<close>: the results of type \<open>float\<close>.
  \<^item> \<open>Format\<close>: \<open>stdio/format.c\<close>. \<open>Format_Spec\<close>: what any formatted output writes to a buffer and to a stream.
    \<open>Format_Number\<close>: the text of the integer conversions.
  \<^item> \<open>Wide_Stdio\<close>: \<open>wchar/wide_stdio.c\<close>. \<open>Wide_Format\<close>: \<open>wchar/wide_format.c\<close>.
    \<open>Scan\<close>: \<open>stdio/scan.c\<close> with its four sources, and \<open>wchar/wide_scan.c\<close>.
  \<^item> \<open>Fenv\<close>: \<open>fenv/fenv.c\<close>, the control words as a record. \<open>Math_Bits\<close>: \<open>math/classify.c\<close>, \<open>math.c\<close>, \<open>decompose.c\<close>,
    \<open>scale.c\<close>, \<open>fenv_rounding.c\<close>, on the bits. \<open>Math_Spec\<close>: what these compute, as real numbers.

  What the lemmas show. For functions: the result is the one of a specification written without the code's
  loops (longest prefix, first occurrence, sorted permutation, calendar date, UTF-8 form, text of a number,
  rounded real number), on every branch, and nothing else in memory changes. For state: an invariant (the
  heap's block list, a stream's buffer, the list of live streams) that every operation keeps, what each
  operation does to the abstract state (blocks of the callers, pending and unread bytes, a stack of
  handlers, a map of keys), and that the loops end. For concurrency: invariants of every reachable state of
  the interleaved accesses, so they hold for every schedule.

  The interfaces are locales. \<open>string_scan\<close> (\<open>CString\<close>): a loop over a string up to a character, with six
  instances; \<open>total_comparator\<close> (\<open>Search_Sort\<close>): what a comparison function promises to \<open>qsort\<close> and \<open>bsearch\<close>;
  \<open>region_allocator\<close> (\<open>Allocator\<close>): what \<open>malloc\<close> promises to \<open>calloc\<close>; \<open>handler_table\<close> (\<open>Termination\<close>): a
  bounded stack of handlers, for \<open>atexit\<close> and \<open>at_quick_exit\<close>; \<open>exchange_lock\<close> (\<open>Futex\<close>): a lock word taken by
  exchange, for the futex lock, the mutexes and the lock of \<open>call_once\<close>.

  Bounds. Machine integers keep their width (\<open>8\<close>, \<open>16\<close>, \<open>32\<close> and \<open>64\<close> bits) wherever wrap-around can matter;
  addresses are natural numbers, and memory is total, so accesses never fault. No model uses fuel: a loop
  that need not end is a partial function, and that it ends is a theorem. The theorems on keys assume
  fewer calls than there are generations (2 to the 27), after which the generation of a slot comes round.

  Not modelled, and why. Exponentials, logarithms, trigonometric, hyperbolic and gamma functions
  (\<open>explog.c\<close>, \<open>trig.c\<close>, \<open>inverse_trig.c\<close>, \<open>hyperbolic.c\<close>, \<open>pow.c\<close>, \<open>gamma.c\<close>, \<open>special.c\<close>): what they promise is an error
  bound of an approximation, which would need an analysis of its own; \<open>sqrt\<close> is an instruction.
  Assembly (system call entry, \<open>setjmp\<close>, thread entry, variadic entry). Thread creation (\<open>clone\<close>, stacks,
  thread-local storage layout) and signals, which are the kernel's. The property tables of
  \<open>wchar/unicode_props.c\<close>, which are generated. Left for later: \<open>remainder.c\<close>, character classes, locales (the
  active encoding is an argument of the models that depend on it), the environment, the recursive lock
  around the streams, condition variables, directories and the wrappers of descriptor system calls.
\<close>

end
